(* ===== verification/Prelude.thy ===== *)
theory Prelude
  imports Main "HOL-Library.Word" "HOL-Library.Sublist"
begin

unbundle bit_operations_syntax

text \<open>
  Shared vocabulary of the development: the machine types of the Rust sources, the
  shape of a Rust method (\<open>&mut self -> Result<T, E>\<close>), byte buffers with slice
  reads and writes, little-endian integers, and the generic list and word lemmas the
  components use.

  Integers. A buffer is a list of bytes (\<open>8 word\<close>); checksums are \<open>32 word\<close>.
  Block numbers, lengths, offsets and counters (\<open>u32\<close>, \<open>u64\<close>, \<open>usize\<close>) are
  naturals, with each narrowing cast of the source written as \<open>mod 2 ^ 32\<close> and each
  checked or saturating operation written out.  The project's release profile
  (\<^verbatim>\<open>Cargo.toml\<close>) leaves overflow checks off, so an unchecked \<open>u32\<close> addition
  that can overflow is \<open>u32_add\<close>.
\<close>

named_theorems slice_simps \<open>reading a slice after writing another\<close>
named_theorems le_simps \<open>little-endian encoding and decoding\<close>
named_theorems res_simps \<open>evaluation of sequenced fallible steps\<close>

subsection \<open>Machine types\<close>

type_synonym u8 = "8 word"
type_synonym u32w = "32 word"
type_synonym bytes = "u8 list"

abbreviation u32_max :: nat where "u32_max \<equiv> 2 ^ 32 - 1"
abbreviation u64_max :: nat where "u64_max \<equiv> 2 ^ 64 - 1"

text \<open>\<open>as u32\<close>, wrapping \<open>u32\<close> addition, and \<open>saturating_add\<close> on \<open>u32\<close>.\<close>

definition as_u32 :: "nat \<Rightarrow> nat" where
  "as_u32 n = n mod 2 ^ 32"

definition u32_add :: "nat \<Rightarrow> nat \<Rightarrow> nat" where
  "u32_add a b = (a + b) mod 2 ^ 32"

definition sat_add32 :: "nat \<Rightarrow> nat \<Rightarrow> nat" where
  "sat_add32 a b = min (a + b) u32_max"

text \<open>\<open>checked_add\<close> at a given width.\<close>

definition checked_add :: "nat \<Rightarrow> nat \<Rightarrow> nat \<Rightarrow> nat option" where
  "checked_add w a b = (if a + b < 2 ^ w then Some (a + b) else None)"

definition checked_mul :: "nat \<Rightarrow> nat \<Rightarrow> nat \<Rightarrow> nat option" where
  "checked_mul w a b = (if a * b < 2 ^ w then Some (a * b) else None)"

definition div_ceil :: "nat \<Rightarrow> nat \<Rightarrow> nat" where
  "div_ceil a b = (a + b - 1) div b"

lemma as_u32_small [simp]: "n < 2 ^ 32 \<Longrightarrow> as_u32 n = n"
  by (simp add: as_u32_def)

lemma as_u32_less [simp]: "as_u32 n < 2 ^ 32"
  by (simp add: as_u32_def)

lemma u32_add_small [simp]: "a + b < 2 ^ 32 \<Longrightarrow> u32_add a b = a + b"
  by (simp add: u32_add_def)

lemma u32_add_less [simp]: "u32_add a b < 2 ^ 32"
  by (simp add: u32_add_def)

lemma div_ceil_bounds:
  assumes "0 < b"
  shows "a \<le> div_ceil a b * b" and "div_ceil a b * b < a + b"
proof -
  have "div_ceil a b * b + (a + b - 1) mod b = a + b - 1"
    by (simp add: div_ceil_def)
  moreover have "(a + b - 1) mod b < b"
    using assms by simp
  ultimately show "a \<le> div_ceil a b * b" and "div_ceil a b * b < a + b"
    using assms by linarith+
qed

subsection \<open>Fallible steps\<close>

text \<open>
  A method \<open>fn f(&mut self, x) -> Result<T, E>\<close> is a function returning the result and
  the new state; the state is returned on the error path too, because the source may have
  changed it before failing.  \<open>bindr\<close> is the \<open>?\<close> operator: an error returns at once,
  with the state as it is.
\<close>

type_synonym ('s, 'e, 'a) res = "('e + 'a) \<times> 's"

definition bindr :: "('s, 'e, 'a) res \<Rightarrow> ('a \<Rightarrow> 's \<Rightarrow> ('s, 'e, 'b) res) \<Rightarrow> ('s, 'e, 'b) res" where
  "bindr r k = (case r of (Inl e, s) \<Rightarrow> (Inl e, s) | (Inr x, s) \<Rightarrow> k x s)"

lemma bindr_Inl [simp, res_simps]: "bindr (Inl e, s) k = (Inl e, s)"
  by (simp add: bindr_def)

lemma bindr_Inr [simp, res_simps]: "bindr (Inr x, s) k = k x s"
  by (simp add: bindr_def)

lemma bindr_Inr_iff:
  "bindr r k = (Inr y, t) \<longleftrightarrow> (\<exists>x s. r = (Inr x, s) \<and> k x s = (Inr y, t))"
  by (cases r) (auto simp: bindr_def split: sum.splits)

lemma bindr_InrE:
  assumes "bindr r k = (Inr y, t)"
  obtains x s where "r = (Inr x, s)" and "k x s = (Inr y, t)"
  using assms by (auto simp: bindr_Inr_iff)

lemma bindr_cong [fundef_cong]:
  assumes "r = r'" and "\<And>x s. r' = (Inr x, s) \<Longrightarrow> k x s = k' x s"
  shows "bindr r k = bindr r' k'"
  using assms by (cases r') (auto simp: bindr_def split: sum.splits)

text \<open>A pure \<open>Result\<close> (no state): \<open>Inl\<close> is \<open>Err\<close>, \<open>Inr\<close> is \<open>Ok\<close>.\<close>

definition bindp :: "'e + 'a \<Rightarrow> ('a \<Rightarrow> 'e + 'b) \<Rightarrow> 'e + 'b" where
  "bindp r k = (case r of Inl e \<Rightarrow> Inl e | Inr x \<Rightarrow> k x)"

lemma bindp_simps [simp, res_simps]:
  "bindp (Inl e) k = Inl e" "bindp (Inr x) k = k x"
  by (simp_all add: bindp_def)

lemma bindp_Inr_iff: "bindp r k = Inr y \<longleftrightarrow> (\<exists>x. r = Inr x \<and> k x = Inr y)"
  by (cases r) auto

text \<open>\<open>ok_or\<close>.\<close>

definition ok_or :: "'a option \<Rightarrow> 'e \<Rightarrow> 'e + 'a" where
  "ok_or x e = (case x of None \<Rightarrow> Inl e | Some v \<Rightarrow> Inr v)"

lemma ok_or_simps [simp, res_simps]:
  "ok_or None e = Inl e" "ok_or (Some v) e = Inr v"
  by (simp_all add: ok_or_def)

lemma ok_or_Inr_iff [simp]: "ok_or x e = Inr v \<longleftrightarrow> x = Some v"
  by (cases x) auto

subsection \<open>Slices of byte buffers\<close>

text \<open>
  \<open>get_slice o n b\<close> is \<open>b[o..o+n]\<close>; \<open>put_slice o xs b\<close> is
  \<open>b[o..o+xs.len()].copy_from_slice(xs)\<close>.  Every use in the model is on a buffer whose
  length covers the range; outside it the source panics.
\<close>

definition get_slice :: "nat \<Rightarrow> nat \<Rightarrow> 'a list \<Rightarrow> 'a list" where
  "get_slice i n b = take n (drop i b)"

definition put_slice :: "nat \<Rightarrow> 'a list \<Rightarrow> 'a list \<Rightarrow> 'a list" where
  "put_slice i xs b = take i b @ xs @ drop (i + length xs) b"

lemma length_get_slice [simp]: "length (get_slice i n b) = min n (length b - i)"
  by (simp add: get_slice_def)

lemma length_put_slice [simp]:
  "i + length xs \<le> length b \<Longrightarrow> length (put_slice i xs b) = length b"
  by (simp add: put_slice_def)

lemma nth_get_slice [simp]: "k < n \<Longrightarrow> i + k < length b \<Longrightarrow> get_slice i n b ! k = b ! (i + k)"
  by (simp add: get_slice_def)

lemma nth_put_slice:
  assumes "i + length xs \<le> length b" and "k < length b"
  shows "put_slice i xs b ! k =
    (if k < i then b ! k else if k < i + length xs then xs ! (k - i) else b ! k)"
  using assms by (auto simp: put_slice_def nth_append min_def)

lemma get_slice_cong:
  assumes "length a = length b" and "\<And>k. i \<le> k \<Longrightarrow> k < i + n \<Longrightarrow> k < length b \<Longrightarrow> a ! k = b ! k"
  shows "get_slice i n a = get_slice i n b"
  using assms by (intro nth_equalityI) auto

lemma get_put_same [simp, slice_simps]:
  assumes "i + length xs \<le> length b" and "n = length xs"
  shows "get_slice i n (put_slice i xs b) = xs"
  using assms by (intro nth_equalityI) (auto simp: nth_put_slice)

lemma get_put_before [simp, slice_simps]:
  assumes "i + n \<le> j" and "j + length xs \<le> length b"
  shows "get_slice i n (put_slice j xs b) = get_slice i n b"
  using assms by (intro get_slice_cong) (auto simp: nth_put_slice)

lemma get_put_after [simp, slice_simps]:
  assumes "j + length xs \<le> i" and "j + length xs \<le> length b"
  shows "get_slice i n (put_slice j xs b) = get_slice i n b"
  using assms by (intro get_slice_cong) (auto simp: nth_put_slice)

lemma get_put_inside:
  assumes "j \<le> i" and "i + n \<le> j + length xs" and "j + length xs \<le> length b"
  shows "get_slice i n (put_slice j xs b) = get_slice (i - j) n xs"
  using assms by (intro nth_equalityI) (auto simp: nth_put_slice)

lemma drop_put_slice_before [simp, slice_simps]:
  assumes "i + length xs \<le> j" and "i + length xs \<le> length b"
  shows "drop j (put_slice i xs b) = drop j b"
  using assms by (intro nth_equalityI) (auto simp: nth_put_slice)

lemma get_slice_all [simp]: "length b \<le> n \<Longrightarrow> get_slice 0 n b = b"
  by (simp add: get_slice_def)

lemma get_slice_drop: "get_slice i n (drop j b) = get_slice (j + i) n b"
  by (simp add: get_slice_def add.commute)

lemma get_slice_replicate [simp]:
  "get_slice i n (replicate m x) = replicate (min n (m - i)) x"
  by (simp add: get_slice_def)

lemma get_slice_append_left [simp]:
  "i + n \<le> length a \<Longrightarrow> get_slice i n (a @ b) = get_slice i n a"
  by (simp add: get_slice_def)

lemma get_slice_append_right:
  "length a \<le> i \<Longrightarrow> get_slice i n (a @ b) = get_slice (i - length a) n b"
  by (simp add: get_slice_def)

lemma get_slice_update_other [simp, slice_simps]:
  "k < i \<or> i + n \<le> k \<Longrightarrow> get_slice i n (b[k := v]) = get_slice i n b"
  by (intro get_slice_cong) auto

text \<open>
  A record encoder is a sequence of slice writes.  When they fit and do not overlap, each
  field reads back as written, in whatever order they were made.
\<close>

definition put_all :: "(nat \<times> 'a list) list \<Rightarrow> 'a list \<Rightarrow> 'a list" where
  "put_all ws b = fold (\<lambda>(i, xs) b. put_slice i xs b) ws b"

definition apart :: "nat \<times> 'a list \<Rightarrow> nat \<times> 'a list \<Rightarrow> bool" where
  "apart w w' \<longleftrightarrow> fst w + length (snd w) \<le> fst w' \<or> fst w' + length (snd w') \<le> fst w"

definition fits :: "nat \<Rightarrow> (nat \<times> 'a list) list \<Rightarrow> bool" where
  "fits n ws \<longleftrightarrow> list_all (\<lambda>w. fst w + length (snd w) \<le> n) ws"

lemma put_all_simps [simp]:
  "put_all [] b = b" "put_all ((i, xs) # ws) b = put_all ws (put_slice i xs b)"
  by (simp_all add: put_all_def)

lemma fits_simps [simp]: "fits n []" "fits n ((i, xs) # ws) \<longleftrightarrow> i + length xs \<le> n \<and> fits n ws"
  by (simp_all add: fits_def)

lemma length_put_all: "fits (length b) ws \<Longrightarrow> length (put_all ws b) = length b"
  by (induction ws arbitrary: b) auto

lemma put_all_other:
  assumes "fits (length b) ws" and "\<And>w. w \<in> set ws \<Longrightarrow> i + n \<le> fst w \<or> fst w + length (snd w) \<le> i"
  shows "get_slice i n (put_all ws b) = get_slice i n b"
  using assms
proof (induction ws arbitrary: b)
  case Nil
  then show ?case by simp
next
  case (Cons w ws)
  obtain j xs where w: "w = (j, xs)" by (cases w)
  have fit: "j + length xs \<le> length b" using Cons.prems(1) w by simp
  have "get_slice i n (put_all ws (put_slice j xs b)) = get_slice i n (put_slice j xs b)"
    by (rule Cons.IH) (use Cons.prems fit w in auto)
  moreover have "i + n \<le> j \<or> j + length xs \<le> i" using Cons.prems(2) [of w] w by simp
  ultimately show ?case using fit w by auto
qed

lemma put_all_get:
  assumes "fits (length b) ws" and "sorted_wrt apart ws" and "(i, xs) \<in> set ws" and "n = length xs"
  shows "get_slice i n (put_all ws b) = xs"
  using assms
proof (induction ws arbitrary: b)
  case Nil
  then show ?case by simp
next
  case (Cons w ws)
  obtain j ys where w: "w = (j, ys)" by (cases w)
  have fit: "j + length ys \<le> length b" using Cons.prems(1) w by simp
  show ?case
  proof (cases "(i, xs) \<in> set ws")
    case True
    have "get_slice i n (put_all ws (put_slice j ys b)) = xs"
      by (rule Cons.IH) (use Cons.prems fit w True in auto)
    then show ?thesis by (simp add: w)
  next
    case False
    then have e: "w = (i, xs)" using Cons.prems(3) by auto
    have "get_slice i n (put_all ws (put_slice i xs b)) = get_slice i n (put_slice i xs b)"
    proof (rule put_all_other)
      fix u assume "u \<in> set ws"
      then show "i + n \<le> fst u \<or> fst u + length (snd u) \<le> i"
        using Cons.prems(2,4) e by (auto simp: apart_def)
    qed (use Cons.prems(1) e in auto)
    then show ?thesis using e Cons.prems(4) fit w by simp
  qed
qed

text \<open>Cutting a buffer into pieces of equal size and joining them again.\<close>

lemma concat_slices: "concat (map (\<lambda>i. get_slice (i * k) k b) [0..<n]) = take (n * k) b"
proof (induction n)
  case 0
  then show ?case by simp
next
  case (Suc n)
  have "take (Suc n * k) b = take (n * k) b @ get_slice (n * k) k b"
    by (simp add: get_slice_def take_add [symmetric] add.commute)
  with Suc show ?case by simp
qed

lemma get_slice_concat:
  assumes "\<And>x. x \<in> set xss \<Longrightarrow> length x = k" and "j < length xss"
  shows "get_slice (j * k) k (concat xss) = xss ! j"
  using assms
proof (induction xss arbitrary: j)
  case Nil
  then show ?case by simp
next
  case (Cons x xss)
  then show ?case
    by (cases j) (simp_all add: get_slice_def)
qed

lemma put_slice_concat:
  assumes "\<And>x. x \<in> set xss \<Longrightarrow> length x = k" and "length v = k" and "j < length xss"
  shows "put_slice (j * k) v (concat xss) = concat (xss[j := v])"
  using assms
proof (induction xss arbitrary: j)
  case Nil
  then show ?case by simp
next
  case (Cons x xss)
  show ?case
  proof (cases j)
    case 0
    with Cons.prems show ?thesis by (simp add: put_slice_def)
  next
    case (Suc i)
    have "length x = k" using Cons.prems by simp
    then have "put_slice (j * k) v (concat (x # xss)) = x @ put_slice (i * k) v (concat xss)"
      by (simp add: put_slice_def Suc)
    with Cons Suc show ?thesis by simp
  qed
qed

lemma length_concat_const:
  "(\<And>x. x \<in> set xss \<Longrightarrow> length x = k) \<Longrightarrow> length (concat xss) = length xss * k"
  by (induction xss) auto

subsection \<open>Little-endian integers\<close>

definition le_bytes :: "nat \<Rightarrow> nat \<Rightarrow> bytes" where
  "le_bytes n v = map (\<lambda>i. word_of_nat (v div 256 ^ i)) [0..<n]"

fun le_nat :: "bytes \<Rightarrow> nat" where
  "le_nat [] = 0"
| "le_nat (b # bs) = unat b + 256 * le_nat bs"

lemma length_le_bytes [simp, le_simps]: "length (le_bytes n v) = n"
  by (simp add: le_bytes_def)

lemma le_bytes_0 [simp]: "le_bytes 0 v = []"
  by (simp add: le_bytes_def)

lemma le_bytes_Suc: "le_bytes (Suc n) v = word_of_nat v # le_bytes n (v div 256)"
  unfolding le_bytes_def
  by (simp add: upt_conv_Cons map_Suc_upt [symmetric] div_mult2_eq del: upt_Suc)

lemma unat_byte_of_nat: "unat (word_of_nat v :: u8) = v mod 256"
  by (simp add: unat_of_nat)

lemma le_nat_bytes [simp, le_simps]: "le_nat (le_bytes n v) = v mod 256 ^ n"
proof (induction n arbitrary: v)
  case 0
  then show ?case by simp
next
  case (Suc n)
  have "v mod 256 ^ Suc n = v mod 256 + 256 * (v div 256 mod 256 ^ n)"
    by (simp add: mod_mult2_eq add.commute)
  then show ?case
    by (simp add: le_bytes_Suc unat_byte_of_nat Suc.IH)
qed

lemma unat_byte_less: "unat (b :: u8) < 256"
  using unsigned_less [of b] by simp

lemma le_nat_less: "le_nat bs < 256 ^ length bs"
proof (induction bs)
  case Nil
  then show ?case by simp
next
  case (Cons b bs)
  have "unat b + 256 * le_nat bs < 256 + 256 * le_nat bs"
    using unat_byte_less [of b] by simp
  also have "\<dots> \<le> 256 * 256 ^ length bs"
    using Cons by (simp add: Suc_leI flip: mult_Suc_right)
  finally show ?case by simp
qed

lemma le_bytes_nat [simp, le_simps]: "n = length bs \<Longrightarrow> le_bytes n (le_nat bs) = bs"
proof (induction bs arbitrary: n)
  case Nil
  then show ?case by simp
next
  case (Cons b bs)
  have "(unat b + 256 * le_nat bs) div 256 = le_nat bs"
    using unat_byte_less [of b] by simp
  moreover have "(word_of_nat (unat b + 256 * le_nat bs) :: u8) = b"
    by (simp only: word_unat_eq_iff unat_byte_of_nat)
      (use unat_byte_less [of b] in simp)
  ultimately show ?case
    using Cons by (simp add: le_bytes_Suc)
qed

lemma le_nat_inj: "length a = length b \<Longrightarrow> le_nat a = le_nat b \<Longrightarrow> a = b"
  by (metis le_bytes_nat)

end
