(* ===== verification/Bits.thy ===== *)
theory Bits
  imports Prelude
begin

unbundle bit_operations_syntax

text \<open>
  \<^verbatim>\<open>kitsune_core/src/storage/fs3/bits.rs\<close>: the allocation bitmaps, words of 64 bits in
  which a set bit means used.  \<open>isset\<close> is the meaning of a bitmap; the searches are shown
  to return the first bit and the first run there is.
\<close>

subsection \<open>The code\<close>

type_synonym bitmap = "64 word list"

definition fix_padding :: "bitmap \<Rightarrow> nat \<Rightarrow> bitmap" where
  "fix_padding v nbits =
     (let rem = nbits mod 64 in
      if rem \<noteq> 0 \<and> v \<noteq> [] then v[length v - 1 := last v OR push_bit rem (- 1)] else v)"

definition bits_new :: "nat \<Rightarrow> bitmap" where
  "bits_new nbits = fix_padding (replicate (div_ceil nbits 64) 0) nbits"

definition bits_get :: "bitmap \<Rightarrow> nat \<Rightarrow> bool" where
  "bits_get v i = (if i div 64 < length v then v ! (i div 64) AND push_bit (i mod 64) 1 \<noteq> 0 else False)"

definition bits_set :: "bitmap \<Rightarrow> nat \<Rightarrow> bitmap" where
  "bits_set v i =
     (if i div 64 < length v then v[i div 64 := v ! (i div 64) OR push_bit (i mod 64) 1] else v)"

definition bits_clear :: "bitmap \<Rightarrow> nat \<Rightarrow> bitmap" where
  "bits_clear v i =
     (if i div 64 < length v then v[i div 64 := v ! (i div 64) AND NOT (push_bit (i mod 64) 1)] else v)"

text \<open>\<open>count_ones\<close> and \<open>trailing_zeros\<close> of the standard library.\<close>

definition count_ones :: "64 word \<Rightarrow> nat" where
  "count_ones w = length (filter (bit w) [0..<64])"

definition trailing_zeros :: "64 word \<Rightarrow> nat" where
  "trailing_zeros w = length (takeWhile (\<lambda>k. \<not> bit w k) [0..<64])"

definition count_free :: "bitmap \<Rightarrow> nat \<Rightarrow> nat" where
  "count_free v nbits =
     nbits - sum_list (map (\<lambda>(wi, w).
       let base = wi * 64; valid = min (nbits - base) 64;
           mask = (if valid = 64 then - 1 else push_bit valid 1 - 1)
       in count_ones (w AND mask)) (zip [0..<length v] v))"

function next_with :: "bitmap \<Rightarrow> nat \<Rightarrow> nat \<Rightarrow> bool \<Rightarrow> nat option" where
  "next_with v i to want =
     (if i < to then
        let wi = i div 64 in
        if wi < length v then
          let w = (if want then v ! wi else NOT (v ! wi));
              w = w AND push_bit (i mod 64) (- 1)
          in if w \<noteq> 0 then
               let idx = wi * 64 + trailing_zeros w
               in if idx < to then Some idx else None
             else case checked_mul 32 (wi + 1) 64 of
                 None \<Rightarrow> None
               | Some i' \<Rightarrow> next_with v i' to want
        else None
      else None)"
  by pat_completeness auto
termination
proof (relation "measure (\<lambda>(v, i, to, want). to - i)", simp, goal_cases)
  case (1 v i to want wi w w' i')
  have "i < (i div 64 + 1) * 64" using div_mult_mod_eq [of i 64] mod_less_divisor [of 64 i] by simp
  moreover have "i' = (i div 64 + 1) * 64"
    using 1 by (auto simp: checked_mul_def split: if_splits)
  ultimately show ?case using 1(1) by (simp add: diff_less_mono2)
qed

declare next_with.simps [simp del]

definition next_free :: "bitmap \<Rightarrow> nat \<Rightarrow> nat \<Rightarrow> nat option" where
  "next_free v i to = next_with v i to False"

definition next_used :: "bitmap \<Rightarrow> nat \<Rightarrow> nat \<Rightarrow> nat option" where
  "next_used v i to = next_with v i to True"

text \<open>
  \<open>find_run\<close> loops while it makes progress; \<open>fuel\<close> bounds the iterations, and \<open>find_run\<close>
  gives it one per position, which is more than the loop can use.
\<close>

fun find_run_fuel :: "nat \<Rightarrow> bitmap \<Rightarrow> nat \<Rightarrow> nat \<Rightarrow> nat \<Rightarrow> nat option" where
  "find_run_fuel 0 v p to want = None"
| "find_run_fuel (Suc fuel) v p to want =
     (case next_free v p to of
        None \<Rightarrow> None
      | Some s \<Rightarrow>
          let e = (case next_used v s to of None \<Rightarrow> to | Some e \<Rightarrow> e)
          in if want \<le> e - s then Some s else find_run_fuel fuel v e to want)"

definition find_run :: "bitmap \<Rightarrow> nat \<Rightarrow> nat \<Rightarrow> nat \<Rightarrow> nat option" where
  "find_run v i to want = find_run_fuel (Suc (to - i)) v i to want"

subsection \<open>Single bits\<close>

lemma bit_exp64: "bit (2 ^ k :: 64 word) j \<longleftrightarrow> j = k \<and> k < 64"
  by (auto simp: bit_exp_iff possible_bit_def)

lemma and_exp64: "k < 64 \<Longrightarrow> (w AND 2 ^ k \<noteq> 0) = bit (w :: 64 word) k"
  by (simp add: and_exp_eq_0_iff_not_bit)

lemma bits_get_bit: "bits_get v i \<longleftrightarrow> i div 64 < length v \<and> bit (v ! (i div 64)) (i mod 64)"
  by (simp add: bits_get_def and_exp64)

lemma div_mod_64: "(i div 64 = j div 64 \<and> i mod 64 = j mod (64 :: nat)) = (i = j)"
  by (metis div_mult_mod_eq)

lemma length_bits [simp]:
  "length (bits_set v i) = length v" "length (bits_clear v i) = length v" "length (fix_padding v n) = length v"
  by (simp_all add: bits_set_def bits_clear_def fix_padding_def Let_def)

lemma bits_get_set: "bits_get (bits_set v i) j \<longleftrightarrow> bits_get v j \<or> (j = i \<and> i div 64 < length v)"
  using div_mod_64 [of j i] by (auto simp: bits_get_bit bits_set_def nth_list_update bit_or_iff bit_exp64)

lemma bits_get_clear: "bits_get (bits_clear v i) j \<longleftrightarrow> bits_get v j \<and> j \<noteq> i"
  using div_mod_64 [of j i]
  by (auto simp: bits_get_bit bits_clear_def nth_list_update bit_and_iff bit_not_iff bit_exp64 possible_bit_def)

lemma bits_eq_iff:
  assumes "length v = length w" and "\<And>i. i < 64 * length v \<Longrightarrow> bits_get v i = bits_get w i"
  shows "v = w"
proof (rule nth_equalityI [OF assms(1)])
  fix k assume k: "k < length v"
  have "bit (v ! k) j = bit (w ! k) j" if "j < 64" for j
    using assms(2) [of "k * 64 + j"] k that assms(1) by (simp add: bits_get_bit)
  then show "v ! k = w ! k" by (auto simp: bit_eq_iff dest: bit_imp_le_length)
qed

lemma bits_set_clear:
  "i < 64 * length v \<Longrightarrow> bits_get v i \<Longrightarrow> bits_set (bits_clear v i) i = v"
  "\<not> bits_get v i \<Longrightarrow> bits_clear (bits_set v i) i = v"
  by (auto intro!: bits_eq_iff simp: bits_get_set bits_get_clear)

lemma bits_get_padding:
  assumes "length v = div_ceil n 64"
  shows "bits_get (fix_padding v n) i \<longleftrightarrow> bits_get v i \<or> (n \<le> i \<and> i < 64 * length v)"
proof (cases "n mod 64 = 0")
  case True
  then obtain k where k: "n = 64 * k" by (auto simp: mod_eq_0_iff_dvd elim: dvdE)
  have "length v = k" using assms by (simp add: div_ceil_def k)
  then have "64 * length v = n" by (simp add: k)
  then show ?thesis using True bits_get_bit [of v i] by (auto simp: fix_padding_def Let_def)
next
  case False
  then have ne: "v \<noteq> []" using assms by (auto simp: div_ceil_def)
  have "63 + n = (n mod 64 - 1) + 64 * Suc (n div 64)" using False div_mult_mod_eq [of n 64] by simp
  moreover have "(n mod 64 - 1) div 64 = 0" using mod_less_divisor [of 64 n] by simp
  ultimately have "(63 + n) div 64 = Suc (n div 64)" by (simp only: div_mult_self2)
  then have len: "length v - 1 = n div 64" using assms by (simp add: div_ceil_def)
  have pad: "fix_padding v n = v[n div 64 := v ! (n div 64) OR push_bit (n mod 64) (- 1)]"
    using False ne len by (simp add: fix_padding_def Let_def last_conv_nth)
  have n: "n div 64 < length v" using len ne by (cases v) auto
  have m: "bit (NOT (mask (n mod 64)) :: 64 word) (i mod 64) \<longleftrightarrow> n mod 64 \<le> i mod 64"
    by (auto simp: bit_not_iff bit_mask_iff possible_bit_def)
  have iff: "n \<le> i \<and> i < 64 * length v \<longleftrightarrow> i div 64 = n div 64 \<and> n mod 64 \<le> i mod 64"
  proof -
    have lv: "length v = Suc (n div 64)" using len n by linarith
    show ?thesis
    proof
      assume "n \<le> i \<and> i < 64 * length v"
      then have a: "n \<le> i" "i < 64 * Suc (n div 64)" using lv by simp_all
      then have "i div 64 < Suc (n div 64)" by (simp add: less_mult_imp_div_less mult.commute)
      then have "i div 64 = n div 64" using div_le_mono [OF a(1), of 64] by linarith
      then show "i div 64 = n div 64 \<and> n mod 64 \<le> i mod 64"
        using a(1) div_mult_mod_eq [of i 64] div_mult_mod_eq [of n 64] by linarith
    next
      assume a: "i div 64 = n div 64 \<and> n mod 64 \<le> i mod 64"
      then have "n \<le> i" using div_mult_mod_eq [of i 64] div_mult_mod_eq [of n 64] by linarith
      moreover have "i < 64 * Suc (n div 64)" 
      proof -
        have lt: "i mod 64 < 64" by simp
        have "i = n div 64 * 64 + i mod 64" using a div_mult_mod_eq [of i 64] by simp
        then show ?thesis using lt unfolding mult_Suc_right by linarith
      qed
      ultimately show "n \<le> i \<and> i < 64 * length v" by (simp only: lv)
    qed
  qed
  show ?thesis using n m iff by (auto simp: bits_get_bit pad nth_list_update bit_or_iff)
qed

lemma length_bits_new [simp]: "length (bits_new n) = div_ceil n 64"
  by (simp add: bits_new_def)

lemma bits_get_new: "bits_get (bits_new n) i \<longleftrightarrow> n \<le> i \<and> i < 64 * div_ceil n 64"
  using bits_get_padding [of "replicate (div_ceil n 64) 0" n i]
  by (auto simp: bits_new_def bits_get_bit)

subsection \<open>Searches\<close>

lemma trailing_zeros_spec:
  assumes "w \<noteq> 0"
  shows "trailing_zeros w < 64" and "bit w (trailing_zeros w)" and "k < trailing_zeros w \<Longrightarrow> \<not> bit w k"
proof -
  let ?t = "trailing_zeros w" and ?P = "\<lambda>k. \<not> bit w k"
  obtain k where k: "bit w k" using assms by (auto simp: bit_eq_iff)
  then have "k < 64" using bit_imp_le_length [of w k] by simp
  then have "takeWhile ?P [0..<64] \<noteq> [0..<64]" using k by (auto simp: takeWhile_eq_all_conv)
  then show lt: "?t < 64"
    using length_takeWhile_le [of ?P "[0..<64]"] unfolding trailing_zeros_def
    by (metis diff_zero le_neq_implies_less length_upt takeWhile_eq_take take_all_iff order_refl)
  show "bit w ?t" using nth_length_takeWhile [of ?P "[0..<64]"] lt by (simp add: trailing_zeros_def)
  show "k < ?t \<Longrightarrow> \<not> bit w k" for k
    using nth_mem [of k "takeWhile ?P [0..<64]"] takeWhile_nth [of k ?P "[0..<64]"] set_takeWhileD lt
    unfolding trailing_zeros_def by fastforce
qed

text \<open>The first bit of a range with the wanted value.\<close>

definition first_with :: "bitmap \<Rightarrow> nat \<Rightarrow> nat \<Rightarrow> bool \<Rightarrow> nat option \<Rightarrow> bool" where
  "first_with v i to want r \<longleftrightarrow> (case r of
     None \<Rightarrow> \<forall>k. i \<le> k \<longrightarrow> k < to \<longrightarrow> bits_get v k \<noteq> want
   | Some k \<Rightarrow> i \<le> k \<and> k < to \<and> bits_get v k = want \<and> (\<forall>j. i \<le> j \<longrightarrow> j < k \<longrightarrow> bits_get v j \<noteq> want))"

lemma masked_word:
  assumes "i div 64 < length v" and "w = (if want then v ! (i div 64) else NOT (v ! (i div 64))) AND push_bit (i mod 64) (- 1)"
    and "k < 64"
  shows "bit w k \<longleftrightarrow> i mod 64 \<le> k \<and> bits_get v (i div 64 * 64 + k) = want"
  using assms by (auto simp: bits_get_bit bit_and_iff bit_not_iff bit_mask_iff possible_bit_def)

lemma first_with_extend:
  assumes "first_with v b to want r" and "a \<le> b" and "\<And>k. a \<le> k \<Longrightarrow> k < b \<Longrightarrow> bits_get v k \<noteq> want"
  shows "first_with v a to want r"
proof (cases r)
  case None
  have "bits_get v k \<noteq> want" if "a \<le> k" "k < to" for k
    using assms(1,3) that None by (cases "b \<le> k") (auto simp: first_with_def)
  then show ?thesis using None by (simp add: first_with_def)
next
  case (Some k)
  then have k: "b \<le> k" "k < to" "bits_get v k = want" "\<And>j. b \<le> j \<Longrightarrow> j < k \<Longrightarrow> bits_get v j \<noteq> want"
    using assms(1) by (auto simp: first_with_def)
  have "bits_get v j \<noteq> want" if "a \<le> j" "j < k" for j
    using assms(3) k(4) that by (cases "b \<le> j") auto
  then show ?thesis using Some k assms(2) by (simp add: first_with_def)
qed

theorem next_with_spec:
  assumes "to \<le> 64 * length v" and "to < 2 ^ 32"
  shows "first_with v i to want (next_with v i to want)"
  using assms
proof (induction v i to want rule: next_with.induct)
  case (1 v i to want)
  show ?case
  proof (cases "i < to")
    case False
    then show ?thesis by (simp add: next_with.simps first_with_def)
  next
    case lt: True
    let ?wi = "i div 64"
    define w where "w = (if want then v ! ?wi else NOT (v ! ?wi)) AND push_bit (i mod 64) (- 1)"
    have wi: "?wi < length v" using lt 1(2) by (simp add: less_mult_imp_div_less mult.commute)
    note mw = masked_word [OF wi w_def]
    have split: "k = ?wi * 64 + (k - ?wi * 64)" "k - ?wi * 64 < 64" if "i \<le> k" "k < (?wi + 1) * 64" for k
    proof -
      have "?wi * 64 \<le> k" using that(1) by (metis div_times_less_eq_dividend le_trans)
      then show "k = ?wi * 64 + (k - ?wi * 64)" "k - ?wi * 64 < 64" using that(2) by auto
    qed
    have ge: "?wi * 64 + k \<ge> i \<longleftrightarrow> i mod 64 \<le> k" for k
      using div_mult_mod_eq [of i 64] by linarith
    have nw0: "next_with v i to want = (if w \<noteq> 0
        then (if ?wi * 64 + trailing_zeros w < to then Some (?wi * 64 + trailing_zeros w) else None)
        else case checked_mul 32 (?wi + 1) 64 of None \<Rightarrow> None | Some i' \<Rightarrow> next_with v i' to want)"
      by (subst next_with.simps) (simp only: Let_def lt wi if_True w_def)
    show ?thesis
    proof (cases "w = 0")
      case False
      let ?k = "?wi * 64 + trailing_zeros w"
      note tz = trailing_zeros_spec [OF False]
      have hit: "i \<le> ?k" "bits_get v ?k = want" using mw [OF tz(1)] tz(2) ge by auto
      have before: "bits_get v j \<noteq> want" if "i \<le> j" "j < ?k" for j
      proof -
        have "j < (?wi + 1) * 64" using that(2) tz(1) by simp
        note s = split [OF that(1) this]
        have "j - ?wi * 64 < trailing_zeros w" using s(1) that(2) by linarith
        then have "\<not> bit w (j - ?wi * 64)" by (rule tz(3))
        then show ?thesis using mw [OF s(2)] ge s(1) that(1) by metis
      qed
      have nw: "next_with v i to want = (if ?k < to then Some ?k else None)"
        using False by (simp add: nw0)
      show ?thesis
      proof (cases "?k < to")
        case True
        then show ?thesis using hit before nw by (simp add: first_with_def)
      next
        case False
        then show ?thesis using before nw by (simp add: first_with_def)
      qed
    next
      case True
      have none: "bits_get v k \<noteq> want" if "i \<le> k" "k < (?wi + 1) * 64" for k
        using mw [OF split(2) [OF that]] split(1) [OF that] ge [of "k - ?wi * 64"] that(1) True by simp
      show ?thesis
      proof (cases "(?wi + 1) * 64 < 2 ^ 32")
        case True
        have nw: "next_with v i to want = next_with v ((?wi + 1) * 64) to want"
          using \<open>w = 0\<close> True by (simp add: nw0 checked_mul_def)
        have IH: "first_with v ((?wi + 1) * 64) to want (next_with v ((?wi + 1) * 64) to want)"
          by (rule 1(1) [OF lt refl wi refl refl]) (use \<open>w = 0\<close> True 1(2,3) in \<open>simp_all add: w_def checked_mul_def\<close>)
        have "i \<le> (?wi + 1) * 64" using div_mult_mod_eq [of i 64] mod_less_divisor [of 64 i] by simp
        then show ?thesis unfolding nw by (rule first_with_extend [OF IH _ none])
      next
        case False
        then have "next_with v i to want = None"
          using \<open>w = 0\<close> by (simp add: nw0 checked_mul_def)
        then show ?thesis using none False 1(3) by (auto simp: first_with_def)
      qed
    qed
  qed
qed

text \<open>
  \<open>find_run\<close>: the first run of free bits that is long enough, and \<open>None\<close> only if there is
  none.  The fuel is enough: every iteration starts at a later position.
\<close>

definition free_run :: "bitmap \<Rightarrow> nat \<Rightarrow> nat \<Rightarrow> nat \<Rightarrow> bool" where
  "free_run v to n s \<longleftrightarrow> s + n \<le> to \<and> (\<forall>k. s \<le> k \<longrightarrow> k < s + n \<longrightarrow> \<not> bits_get v k)"

lemma find_run_fuel_spec:
  assumes "to \<le> 64 * length v" and "to < 2 ^ 32" and "0 < want" and "to - p < fuel"
  shows "case find_run_fuel fuel v p to want of
      Some s \<Rightarrow> p \<le> s \<and> free_run v to want s \<and> (\<forall>j. p \<le> j \<longrightarrow> j < s \<longrightarrow> \<not> free_run v to want j)
    | None \<Rightarrow> \<forall>j. p \<le> j \<longrightarrow> \<not> free_run v to want j"
  using assms(4)
proof (induction fuel arbitrary: p)
  case 0
  then show ?case by simp
next
  case (Suc fuel)
  note ff = next_with_spec [OF assms(1,2), of p False, folded next_free_def]
  show ?case
  proof (cases "next_free v p to")
    case None
    then have "\<not> free_run v to want j" if "p \<le> j" for j
      using ff that assms(3) by (auto simp: free_run_def first_with_def intro!: exI [of _ j])
    then show ?thesis using None by simp
  next
    case (Some s)
    then have s: "p \<le> s" "s < to" "\<not> bits_get v s" "\<And>j. p \<le> j \<Longrightarrow> j < s \<Longrightarrow> bits_get v j"
      using ff by (auto simp: first_with_def)
    note uu = next_with_spec [OF assms(1,2), of s True, folded next_used_def]
    define e where "e = (case next_used v s to of None \<Rightarrow> to | Some e \<Rightarrow> e)"
    have e0: "s \<le> e" "e \<le> to" "\<forall>j. s \<le> j \<longrightarrow> j < e \<longrightarrow> \<not> bits_get v j" "e < to \<longrightarrow> bits_get v e"
      using uu s(2) by (cases "next_used v s to"; simp add: e_def first_with_def)+
    have "s \<noteq> e" using e0(4) s(2,3) by auto
    then have e: "s < e" "e \<le> to" "\<And>j. s \<le> j \<Longrightarrow> j < e \<Longrightarrow> \<not> bits_get v j" "e < to \<Longrightarrow> bits_get v e"
      using e0 by simp_all
    have before: "\<not> free_run v to want j" if "p \<le> j" "j < s" for j
      using s(4) [OF that] assms(3) by (auto simp: free_run_def intro!: exI [of _ j])
    show ?thesis
    proof (cases "want \<le> e - s")
      case True
      then have "free_run v to want s" using e by (auto simp: free_run_def)
      then show ?thesis using Some True s(1) before by (simp add: e_def [symmetric])
    next
      case False
      have mid: "\<not> free_run v to want j" if "p \<le> j" "j < e" for j
      proof (cases "j < s")
        case True
        then show ?thesis using before that by blast
      next
        case js: False
        have "e < j + want" using js False e(1) by linarith
        then show ?thesis using e(4) js \<open>j < e\<close> e(2) by (cases "e < to") (auto simp: free_run_def intro!: exI [of _ e])
      qed
      have rec: "find_run_fuel (Suc fuel) v p to want = find_run_fuel fuel v e to want"
        using Some False by (simp add: e_def [symmetric])
      have "to - e < fuel" using Suc.prems s e by linarith
      note IH = Suc.IH [OF this]
      show ?thesis
      proof (cases "find_run_fuel fuel v e to want")
        case None
        have "\<not> free_run v to want j" if "p \<le> j" for j
          using IH None mid [OF that] by (cases "j < e") auto
        then show ?thesis unfolding rec None by simp
      next
        case (Some s')
        have "\<not> free_run v to want j" if "p \<le> j" "j < s'" for j
          using IH Some mid [OF that(1)] that(2) by (cases "j < e") auto
        moreover have "p \<le> s' \<and> free_run v to want s'" using IH Some s(1) e(1) by auto
        ultimately show ?thesis unfolding rec Some by simp
      qed
    qed
  qed
qed

theorem find_run_spec:
  assumes "to \<le> 64 * length v" and "to < 2 ^ 32" and "0 < want"
  shows "find_run v p to want = Some s \<Longrightarrow>
      p \<le> s \<and> free_run v to want s \<and> (\<forall>j. p \<le> j \<longrightarrow> j < s \<longrightarrow> \<not> free_run v to want j)"
    and "find_run v p to want = None \<Longrightarrow> p \<le> j \<Longrightarrow> \<not> free_run v to want j"
  using find_run_fuel_spec [OF assms, of p "Suc (to - p)"] by (auto simp: find_run_def)

subsection \<open>Counting\<close>

lemma count_masked:
  assumes "valid = min (nbits - base) 64" and "m = (if valid = 64 then - 1 else push_bit valid 1 - 1 :: 64 word)"
  shows "count_ones (w AND m) = card {k. k < 64 \<and> base + k < nbits \<and> bit w k}"
proof -
  have m: "bit m k \<longleftrightarrow> k < valid" if "k < 64" for k
  proof (cases "valid = 64")
    case True
    then show ?thesis using assms(2) that by simp
  next
    case False
    then have "m = mask valid" using assms(2) by (simp add: mask_eq_decr_exp)
    then show ?thesis using that by (simp add: bit_mask_iff possible_bit_def)
  qed
  have "count_ones (w AND m) = card (set (filter (bit (w AND m)) [0..<64]))"
    unfolding count_ones_def by (rule distinct_card [symmetric]) simp
  also have "set (filter (bit (w AND m)) [0..<64]) = {k. k < 64 \<and> base + k < nbits \<and> bit w k}"
    using m assms(1) by (auto simp: bit_and_iff)
  finally show ?thesis .
qed

theorem count_free_spec:
  assumes "length v = div_ceil nbits 64"
  shows "count_free v nbits = card {i. i < nbits \<and> \<not> bits_get v i}"
proof -
  let ?U = "\<lambda>wi. {k. k < 64 \<and> wi * 64 + k < nbits \<and> bit (v ! wi) k}"
  have "sum_list (map (\<lambda>(wi, w). let base = wi * 64; valid = min (nbits - base) 64;
           mask = (if valid = 64 then - 1 else push_bit valid 1 - 1) in count_ones (w AND mask)) (zip [0..<length v] v))
      = (\<Sum>wi<length v. card (?U wi))"
  proof -
    have "map (\<lambda>(wi, w). let base = wi * 64; valid = min (nbits - base) 64;
           mask = (if valid = 64 then - 1 else push_bit valid 1 - 1) in count_ones (w AND mask)) (zip [0..<length v] v)
        = map (\<lambda>wi. card (?U wi)) [0..<length v]"
      by (rule nth_equalityI) (simp_all only: Let_def count_masked [OF refl refl] length_map length_zip nth_map nth_zip
          length_upt case_prod_conv, simp_all)
    then show ?thesis by (simp add: sum_list_distinct_conv_sum_set atLeast0LessThan)
  qed
  also have "\<dots> = card (\<Union>wi<length v. (\<lambda>k. wi * 64 + k) ` ?U wi)"
  proof (subst card_UN_disjoint)
    show "\<forall>i\<in>{..<length v}. \<forall>j\<in>{..<length v}. i \<noteq> j \<longrightarrow> (\<lambda>k. i * 64 + k) ` ?U i \<inter> (\<lambda>k. j * 64 + k) ` ?U j = {}"
    proof (intro ballI impI, rule ccontr)
      fix i j assume "i \<noteq> j" "(\<lambda>k. i * 64 + k) ` ?U i \<inter> (\<lambda>k. j * 64 + k) ` ?U j \<noteq> {}"
      then obtain k l where "k < 64" "l < 64" "i * 64 + k = j * 64 + l" by auto
      then have "(i * 64 + k) div 64 = i" "(i * 64 + k) div 64 = j" by auto
      then show False using \<open>i \<noteq> j\<close> by simp
    qed
    show "(\<Sum>wi<length v. card (?U wi)) = (\<Sum>i\<in>{..<length v}. card ((\<lambda>k. i * 64 + k) ` ?U i))"
      by (rule sum.cong [OF refl]) (simp add: card_image inj_on_def)
  qed auto
  also have "(\<Union>wi<length v. (\<lambda>k. wi * 64 + k) ` ?U wi) = {i. i < nbits \<and> bits_get v i}"
  proof (intro equalityI subsetI)
    fix i assume "i \<in> {i. i < nbits \<and> bits_get v i}"
    then have "i div 64 < length v" "i mod 64 \<in> ?U (i div 64)" "i = i div 64 * 64 + i mod 64" by (auto simp: bits_get_bit)
    then show "i \<in> (\<Union>wi<length v. (\<lambda>k. wi * 64 + k) ` ?U wi)" by blast
  qed (auto simp: bits_get_bit)
  finally have used: "count_free v nbits = nbits - card {i. i < nbits \<and> bits_get v i}"
    by (simp only: count_free_def)
  have "card {i. i < nbits \<and> bits_get v i} + card {i. i < nbits \<and> \<not> bits_get v i} = card {..<nbits}"
  proof (subst card_Un_disjoint [symmetric])
    have "{i. i < nbits \<and> bits_get v i} \<union> {i. i < nbits \<and> \<not> bits_get v i} = {..<nbits}" by auto
    then show "card ({i. i < nbits \<and> bits_get v i} \<union> {i. i < nbits \<and> \<not> bits_get v i}) = card {..<nbits}" by simp
  qed auto
  then show ?thesis using used by simp
qed

subsection \<open>Properties\<close>

text \<open>
  C18: The word-at-a-time run search finds the first run of free blocks of the wanted length in the
  range, and reports none only when there is none.
\<close>

theorem find_run_first_fit:
  assumes "to \<le> 64 * length v" and "to < 2 ^ 32" and "0 < want"
  shows "(case find_run v p to want of
      None \<Rightarrow> \<not> (\<exists>s. p \<le> s \<and> s + want \<le> to \<and> (\<forall>k. s \<le> k \<and> k < s + want \<longrightarrow> \<not> bits_get v k))
    | Some s \<Rightarrow> p \<le> s \<and> s + want \<le> to \<and> (\<forall>k. s \<le> k \<and> k < s + want \<longrightarrow> \<not> bits_get v k) \<and>
        \<not> (\<exists>j. p \<le> j \<and> j < s \<and> j + want \<le> to \<and> (\<forall>k. j \<le> k \<and> k < j + want \<longrightarrow> \<not> bits_get v k)))"
  using find_run_spec [OF assms, of p] by (auto simp: free_run_def split: option.splits)

theorem find_run_first_fit_witness:
  "(case find_run [0xFB] 0 64 4 of
      None \<Rightarrow> \<not> (\<exists>s. 0 \<le> s \<and> s + 4 \<le> 64 \<and> (\<forall>k. s \<le> k \<and> k < s + 4 \<longrightarrow> \<not> bits_get [0xFB] k))
    | Some s \<Rightarrow> 0 \<le> s \<and> s + 4 \<le> 64 \<and> (\<forall>k. s \<le> k \<and> k < s + 4 \<longrightarrow> \<not> bits_get [0xFB] k) \<and>
        \<not> (\<exists>j. 0 \<le> j \<and> j < s \<and> j + 4 \<le> 64 \<and> (\<forall>k. j \<le> k \<and> k < j + 4 \<longrightarrow> \<not> bits_get [0xFB] k)))"
  by (rule find_run_first_fit) simp_all

text \<open>
  C19: The next-free and next-used searches return the first bit of the wanted value in the range,
  and the population count is the number of clear bits.
\<close>

theorem bitmap_searches:
  assumes "length v = div_ceil n 64" and "n < 2 ^ 32"
  shows "first_with v p n False (next_free v p n) \<and> first_with v p n True (next_used v p n) \<and>
    count_free v n = card {i. i < n \<and> \<not> bits_get v i}"
proof -
  have "n \<le> 64 * length v" using div_ceil_bounds(1) [of 64 n] by (simp add: assms(1) mult.commute)
  then show ?thesis
    using next_with_spec [of n v p] count_free_spec [OF assms(1)] assms(2) by (simp add: next_free_def next_used_def)
qed

theorem bitmap_searches_witness:
  "first_with [0xFFFF00FF, 7] 3 70 False (next_free [0xFFFF00FF, 7] 3 70) \<and>
   first_with [0xFFFF00FF, 7] 3 70 True (next_used [0xFFFF00FF, 7] 3 70) \<and>
   count_free [0xFFFF00FF, 7] 70 = card {i. i < 70 \<and> \<not> bits_get [0xFFFF00FF, 7] i}"
  by (rule bitmap_searches) (simp_all add: div_ceil_def)

end
