(* ===== verification/Crc32.thy ===== *)
theory Crc32
  imports Prelude
begin

unbundle bit_operations_syntax

text \<open>
  \<^verbatim>\<open>kitsune_core/src/storage/fs3/crc32.rs\<close>: the CRC-32 that seals every metadata block of
  OJFS v3.  The source computes it eight bytes at a time from eight tables
  (slicing-by-8); \<open>crc_ref\<close> is the bit-serial definition of the same polynomial, and
  \<open>crc_update_ref\<close> shows that the two agree on every input.
\<close>

subsection \<open>The code\<close>

text \<open>One iteration of the innermost loop of \<open>make_tables\<close>.\<close>

definition crc_shift :: "u32w \<Rightarrow> u32w" where
  "crc_shift c = (if c AND 1 \<noteq> 0 then 0xEDB88320 XOR drop_bit 1 c else drop_bit 1 c)"

text \<open>\<open>t[0]\<close>, then \<open>t[j]\<close> from \<open>t[j - 1]\<close>.\<close>

definition crc_t0 :: "u32w list" where
  "crc_t0 = map (\<lambda>i. (crc_shift ^^ 8) (word_of_nat i)) [0..<256]"

definition crc_next_row :: "u32w list \<Rightarrow> u32w list" where
  "crc_next_row t = map (\<lambda>c. crc_t0 ! unat (c AND 0xFF) XOR drop_bit 8 c) t"

definition make_tables :: "u32w list list" where
  "make_tables = map (\<lambda>j. (crc_next_row ^^ j) crc_t0) [0..<8]"

abbreviation tbl :: "nat \<Rightarrow> u32w \<Rightarrow> u32w" where
  "tbl j w \<equiv> make_tables ! j ! unat w"

definition u32_from_le :: "bytes \<Rightarrow> u32w" where
  "u32_from_le bs = word_of_nat (le_nat bs)"

definition crc_new :: u32w where
  "crc_new = 0xFFFFFFFF"

definition crc_chunk :: "u32w \<Rightarrow> bytes \<Rightarrow> u32w" where
  "crc_chunk c ch =
     (let lo = u32_from_le (get_slice 0 4 ch) XOR c;
          hi = u32_from_le (get_slice 4 4 ch)
      in tbl 7 (lo AND 0xFF)
         XOR tbl 6 (drop_bit 8 lo AND 0xFF)
         XOR tbl 5 (drop_bit 16 lo AND 0xFF)
         XOR tbl 4 (drop_bit 24 lo)
         XOR tbl 3 (hi AND 0xFF)
         XOR tbl 2 (drop_bit 8 hi AND 0xFF)
         XOR tbl 1 (drop_bit 16 hi AND 0xFF)
         XOR tbl 0 (drop_bit 24 hi))"

definition crc_byte :: "u32w \<Rightarrow> u8 \<Rightarrow> u32w" where
  "crc_byte c b = tbl 0 ((c XOR ucast b) AND 0xFF) XOR drop_bit 8 c"

text \<open>\<open>as_chunks::<8>\<close>: whole chunks first, then the remainder byte by byte.\<close>

function crc_update :: "u32w \<Rightarrow> bytes \<Rightarrow> u32w" where
  "crc_update c bs =
     (if 8 \<le> length bs then crc_update (crc_chunk c (take 8 bs)) (drop 8 bs)
      else foldl crc_byte c bs)"
  by pat_completeness auto
termination
  by (relation "measure (\<lambda>(c, bs). length bs)") auto

declare crc_update.simps [simp del]

definition crc_finalize :: "u32w \<Rightarrow> u32w" where
  "crc_finalize c = NOT c"

definition crc32 :: "bytes \<Rightarrow> u32w" where
  "crc32 bs = crc_finalize (crc_update crc_new bs)"

subsection \<open>The bit-serial reference\<close>

definition crc_step_ref :: "u32w \<Rightarrow> u8 \<Rightarrow> u32w" where
  "crc_step_ref c b = (crc_shift ^^ 8) (c XOR ucast b)"

definition crc_ref :: "u32w \<Rightarrow> bytes \<Rightarrow> u32w" where
  "crc_ref c bs = foldl crc_step_ref c bs"

subsection \<open>The register step is linear\<close>

lemma crc_shift_odd: "crc_shift c = (if odd c then 0xEDB88320 XOR drop_bit 1 c else drop_bit 1 c)"
proof -
  have "c AND 1 \<noteq> 0 \<longleftrightarrow> odd c"
    by (simp add: and_one_eq odd_iff_mod_2_eq_one)
  then show ?thesis by (simp only: crc_shift_def)
qed

lemma xor_cancel_left: "(a :: u32w) XOR (a XOR b) = b"
  by (simp flip: xor.assoc)

lemma crc_shift_xor: "crc_shift (x XOR y) = crc_shift x XOR crc_shift y"
  by (cases "odd x"; cases "odd y")
    (simp_all add: crc_shift_odd even_xor_iff drop_bit_xor xor.assoc xor.left_commute xor_cancel_left)

lemma crc_shift_pow_xor: "(crc_shift ^^ n) (x XOR y) = (crc_shift ^^ n) x XOR (crc_shift ^^ n) y"
  by (induction n) (simp_all add: crc_shift_xor)

lemma crc_shift_pow_high: "(\<And>k. k < n \<Longrightarrow> \<not> bit c k) \<Longrightarrow> (crc_shift ^^ n) c = drop_bit n c"
proof (induction n arbitrary: c)
  case 0
  then show ?case by simp
next
  case (Suc n)
  from Suc.prems [of 0] have "even c"
    by (simp add: bit_0)
  then have "crc_shift c = drop_bit 1 c"
    by (simp add: crc_shift_odd)
  moreover have "(crc_shift ^^ n) (drop_bit 1 c) = drop_bit n (drop_bit 1 c)"
    by (rule Suc.IH) (use Suc.prems in \<open>simp add: bit_drop_bit_eq\<close>)
  ultimately show ?case
    by (simp add: funpow_swap1)
qed

lemma crc_shift_pow_push:
  assumes "n + m \<le> 32" and "take_bit m x = x"
  shows "(crc_shift ^^ n) (push_bit n x) = x"
proof -
  have small: "bit x k \<Longrightarrow> k < m" for k
    using assms(2) by (metis bit_take_bit_iff)
  have "(crc_shift ^^ n) (push_bit n x) = drop_bit n (push_bit n x)"
    by (rule crc_shift_pow_high) (simp add: bit_push_bit_iff)
  also have "\<dots> = x"
    by (rule bit_word_eqI) (use assms(1) small in \<open>fastforce simp: bit_drop_bit_eq bit_push_bit_iff\<close>)
  finally show ?thesis .
qed

lemma crc_shift_pow_push_add:
  assumes "n + m \<le> 32" and "take_bit m x = x"
  shows "(crc_shift ^^ (k + n)) (push_bit n x) = (crc_shift ^^ k) x"
  using crc_shift_pow_push [OF assms] by (simp add: funpow_add)

lemma and_0xFF: "(c :: u32w) AND 0xFF = take_bit 8 c"
  by (simp add: take_bit_eq_mask mask_eq_exp_minus_1)

lemma crc_shift8_split: "(crc_shift ^^ 8) c = (crc_shift ^^ 8) (take_bit 8 c) XOR drop_bit 8 c"
proof -
  have split: "c = take_bit 8 c XOR push_bit 8 (drop_bit 8 c)"
    by (rule bit_word_eqI) (auto simp: bit_simps)
  have "(crc_shift ^^ 8) (push_bit 8 (drop_bit 8 c)) = drop_bit 8 c"
    by (rule crc_shift_pow_push [where m = 24], simp, rule bit_word_eqI)
      (auto simp: bit_simps dest: bit_imp_le_length)
  then show ?thesis
    by (subst split, subst crc_shift_pow_xor) simp
qed

subsection \<open>What the tables hold\<close>

lemma length_crc_t0 [simp]: "length crc_t0 = 256"
  by (simp add: crc_t0_def)

lemma unat_take8_less: "unat (take_bit 8 (c :: u32w)) < 256"
proof -
  have "unat (take_bit 8 c) = take_bit 8 (unat c)"
    by (simp add: unsigned_take_bit_eq)
  then show ?thesis
    by (simp add: take_bit_eq_mod)
qed

lemma crc_t0_nth: "crc_t0 ! unat (take_bit 8 c) = (crc_shift ^^ 8) (take_bit 8 c)"
  using unat_take8_less [of c] by (simp add: crc_t0_def)

lemma crc_next_row_map:
  "crc_next_row (map (\<lambda>i. (crc_shift ^^ n) (f i)) xs) = map (\<lambda>i. (crc_shift ^^ (n + 8)) (f i)) xs"
proof -
  have "crc_t0 ! unat (c AND 0xFF) XOR drop_bit 8 c = (crc_shift ^^ 8) c" for c
    by (simp only: and_0xFF crc_t0_nth crc_shift8_split [symmetric])
  then show ?thesis
    by (simp add: crc_next_row_def add.commute [of n] funpow_add)
qed

lemma crc_row: "(crc_next_row ^^ j) crc_t0 = map (\<lambda>i. (crc_shift ^^ (8 * j + 8)) (word_of_nat i)) [0..<256]"
proof (induction j)
  case 0
  then show ?case by (simp add: crc_t0_def)
next
  case (Suc j)
  have "8 * Suc j + 8 = 8 * j + 8 + 8"
    by simp
  then show ?case
    by (simp only: funpow.simps o_apply Suc.IH crc_next_row_map)
qed

lemma tbl_nth:
  assumes "j < 8"
  shows "tbl j (take_bit 8 w) = (crc_shift ^^ (8 * j + 8)) (take_bit 8 w)"
  using assms unat_take8_less [of w] by (simp add: make_tables_def crc_row del: funpow.simps)

subsection \<open>One chunk is eight reference steps\<close>

lemma crc_byte_ref: "crc_byte c b = crc_step_ref c b"
proof -
  have "drop_bit 8 (c XOR ucast b) = drop_bit 8 c"
    by (rule bit_word_eqI) (auto simp: bit_simps dest: bit_imp_le_length)
  then show ?thesis
    using crc_shift8_split [of "c XOR ucast b"] tbl_nth [of 0 "c XOR ucast b"]
    by (simp only: crc_byte_def crc_step_ref_def and_0xFF mult_0_right add_0 zero_less_numeral simp_thms)
qed

lemma word_byte_split:
  "(w :: u32w) = take_bit 8 w XOR push_bit 8 (take_bit 8 (drop_bit 8 w))
     XOR push_bit 16 (take_bit 8 (drop_bit 16 w)) XOR push_bit 24 (take_bit 8 (drop_bit 24 w))"
  by (rule bit_word_eqI) (auto simp: bit_simps)

lemma crc_shift_word_split:
  assumes "32 \<le> n"
  shows "(crc_shift ^^ n) w = (crc_shift ^^ n) (take_bit 8 w)
     XOR (crc_shift ^^ (n - 8)) (take_bit 8 (drop_bit 8 w))
     XOR (crc_shift ^^ (n - 16)) (take_bit 8 (drop_bit 16 w))
     XOR (crc_shift ^^ (n - 24)) (take_bit 8 (drop_bit 24 w))"
proof -
  have push: "(crc_shift ^^ n) (push_bit k (take_bit 8 x)) = (crc_shift ^^ (n - k)) (take_bit 8 x)"
    if "k \<le> 24" for k x
    using crc_shift_pow_push_add [of k 8 "take_bit 8 x" "n - k"] that assms by simp
  show ?thesis
    by (subst word_byte_split) (simp only: crc_shift_pow_xor push xor.assoc)
qed

lemma drop24_take8: "drop_bit 24 (w :: u32w) = take_bit 8 (drop_bit 24 w)"
  by (rule bit_word_eqI) (auto simp: bit_simps dest: bit_imp_le_length)

lemma crc_chunk_eq:
  "crc_chunk c ch = (crc_shift ^^ 64) (u32_from_le (get_slice 0 4 ch) XOR c)
     XOR (crc_shift ^^ 32) (u32_from_le (get_slice 4 4 ch))"
proof -
  define lo where "lo = u32_from_le (get_slice 0 4 ch) XOR c"
  define hi where "hi = u32_from_le (get_slice 4 4 ch)"
  have t: "tbl 7 (take_bit 8 w) = (crc_shift ^^ 64) (take_bit 8 w)"
    "tbl 6 (take_bit 8 w) = (crc_shift ^^ 56) (take_bit 8 w)"
    "tbl 5 (take_bit 8 w) = (crc_shift ^^ 48) (take_bit 8 w)"
    "tbl 4 (take_bit 8 w) = (crc_shift ^^ 40) (take_bit 8 w)"
    "tbl 3 (take_bit 8 w) = (crc_shift ^^ 32) (take_bit 8 w)"
    "tbl 2 (take_bit 8 w) = (crc_shift ^^ 24) (take_bit 8 w)"
    "tbl 1 (take_bit 8 w) = (crc_shift ^^ 16) (take_bit 8 w)"
    "tbl 0 (take_bit 8 w) = (crc_shift ^^ 8) (take_bit 8 w)" for w
    using tbl_nth [of 7 w] tbl_nth [of 6 w] tbl_nth [of 5 w] tbl_nth [of 4 w]
      tbl_nth [of 3 w] tbl_nth [of 2 w] tbl_nth [of 1 w] tbl_nth [of 0 w]
    by simp_all
  have top: "tbl 4 (drop_bit 24 lo) = (crc_shift ^^ 40) (take_bit 8 (drop_bit 24 lo))"
    "tbl 0 (drop_bit 24 hi) = (crc_shift ^^ 8) (take_bit 8 (drop_bit 24 hi))"
    using t(4) [of "drop_bit 24 lo"] t(8) [of "drop_bit 24 hi"] drop24_take8 [of lo] drop24_take8 [of hi]
    by simp_all
  have split: "(crc_shift ^^ 64) lo = (crc_shift ^^ 64) (take_bit 8 lo)
      XOR (crc_shift ^^ 56) (take_bit 8 (drop_bit 8 lo))
      XOR (crc_shift ^^ 48) (take_bit 8 (drop_bit 16 lo))
      XOR (crc_shift ^^ 40) (take_bit 8 (drop_bit 24 lo))"
    "(crc_shift ^^ 32) hi = (crc_shift ^^ 32) (take_bit 8 hi)
      XOR (crc_shift ^^ 24) (take_bit 8 (drop_bit 8 hi))
      XOR (crc_shift ^^ 16) (take_bit 8 (drop_bit 16 hi))
      XOR (crc_shift ^^ 8) (take_bit 8 (drop_bit 24 hi))"
    using crc_shift_word_split [of 64 lo] crc_shift_word_split [of 32 hi] by simp_all
  show ?thesis
    unfolding crc_chunk_def Let_def and_0xFF lo_def [symmetric] hi_def [symmetric]
    by (simp only: top t split xor.assoc)
qed

lemma u32_from_le_Cons:
  "u32_from_le (b # bs) = ucast b XOR push_bit 8 (u32_from_le bs)"
proof -
  have "u32_from_le (b # bs) = ucast b + push_bit 8 (u32_from_le bs)"
    by (simp add: u32_from_le_def push_bit_eq_mult)
  also have "\<dots> = ucast b OR push_bit 8 (u32_from_le bs)"
    by (rule disjunctive_add) (auto simp: bit_simps dest: bit_imp_le_length)
  also have "\<dots> = ucast b XOR push_bit 8 (u32_from_le bs)"
    by (rule bit_word_eqI) (auto simp: bit_simps dest: bit_imp_le_length)
  finally show ?thesis .
qed

lemma take_bit_u32_from_le:
  assumes "length bs \<le> 3"
  shows "take_bit 24 (u32_from_le bs) = u32_from_le bs"
proof -
  have "le_nat bs < 256 ^ 3"
    using le_nat_less [of bs] power_increasing [OF assms, of "256 :: nat"] by simp
  then show ?thesis
    by (simp add: u32_from_le_def take_bit_of_nat take_bit_nat_eq_self)
qed

lemma crc_ref_short:
  "length bs \<le> 4 \<Longrightarrow> crc_ref c bs = (crc_shift ^^ (8 * length bs)) (c XOR u32_from_le bs)"
proof (induction bs arbitrary: c)
  case Nil
  then show ?case by (simp add: crc_ref_def u32_from_le_def)
next
  case (Cons b bs)
  have "(crc_shift ^^ 8) (push_bit 8 (u32_from_le bs)) = u32_from_le bs"
    by (rule crc_shift_pow_push [where m = 24]) (use Cons.prems in \<open>simp_all add: take_bit_u32_from_le\<close>)
  then have "crc_step_ref c b XOR u32_from_le bs = (crc_shift ^^ 8) (c XOR u32_from_le (b # bs))"
    by (simp only: crc_step_ref_def u32_from_le_Cons crc_shift_pow_xor xor.assoc)
  moreover have "8 * length (b # bs) = 8 * length bs + 8"
    by simp
  ultimately show ?case
    using Cons by (simp only: funpow_add o_apply) (simp add: crc_ref_def)
qed

lemma crc_ref_append: "crc_ref c (xs @ ys) = crc_ref (crc_ref c xs) ys"
  by (simp add: crc_ref_def)

lemma crc_chunk_ref:
  assumes "length ch = 8"
  shows "crc_chunk c ch = crc_ref c ch"
proof -
  let ?a = "get_slice 0 4 ch" and ?b = "get_slice 4 4 ch"
  have "ch = ?a @ ?b"
    using assms by (simp add: get_slice_def)
  then have "crc_ref c ch = crc_ref (crc_ref c ?a) ?b"
    by (metis crc_ref_append)
  also have "\<dots> = (crc_shift ^^ 32) ((crc_shift ^^ 32) (c XOR u32_from_le ?a) XOR u32_from_le ?b)"
    using assms by (simp add: crc_ref_short del: funpow.simps)
  also have "\<dots> = (crc_shift ^^ 64) (c XOR u32_from_le ?a) XOR (crc_shift ^^ 32) (u32_from_le ?b)"
    using funpow_add [of 32 32 crc_shift] by (simp add: crc_shift_pow_xor del: funpow.simps)
  finally show ?thesis
    by (simp add: crc_chunk_eq xor.commute)
qed

lemma crc_update_ref: "crc_update c bs = crc_ref c bs"
proof (induction c bs rule: crc_update.induct)
  case (1 c bs)
  show ?case
  proof (cases "8 \<le> length bs")
    case True
    then have "crc_update c bs = crc_ref (crc_ref c (take 8 bs)) (drop 8 bs)"
      using 1 by (subst crc_update.simps) (simp add: crc_chunk_ref)
    then show ?thesis
      by (simp flip: crc_ref_append)
  next
    case False
    have "foldl crc_byte c bs = foldl crc_step_ref c bs"
      by (rule foldl_cong) (simp_all add: crc_byte_ref)
    with False show ?thesis
      by (subst crc_update.simps) (simp add: crc_ref_def)
  qed
qed

text \<open>Feeding a buffer in two pieces is feeding it whole, whatever the cut.\<close>

lemma crc_update_append: "crc_update c (xs @ ys) = crc_update (crc_update c xs) ys"
  by (simp add: crc_update_ref crc_ref_append)

subsection \<open>Properties\<close>

text \<open>
  C17: The slicing-by-8 routine computes the CRC-32 of its input as the bit-serial definition does
  (reflected polynomial 0xEDB88320, initial register all ones, final complement), and feeding the
  data in pieces gives the same as feeding it at once.
\<close>

theorem crc32_bit_serial:
  "crc32 bs = NOT (foldl (\<lambda>c b. (crc_shift ^^ 8) (c XOR ucast b)) 0xFFFFFFFF bs) \<and>
   crc_update (crc_update c xs) ys = crc_update c (xs @ ys)"
  by (simp add: crc32_def crc_finalize_def crc_new_def crc_update_ref crc_ref_def crc_step_ref_def [abs_def])

end
