(* ===== verification/BTree.thy ===== *)
theory BTree
  imports Prelude
begin

text \<open>
  The standard library's \<open>BTreeMap\<close> and \<open>BTreeSet\<close>, as the storage code uses them:
  lookup, insert, remove and iteration in ascending key order.  A map is the list of its
  entries in that order; a set is the list of its elements.  \<open>bt_inv\<close> holds of every map
  the operations build, and under it \<open>map_of\<close> is the map's meaning (the locale
  \<open>ordered_map\<close>).
\<close>

type_synonym ('k, 'v) btree = "('k \<times> 'v) list"

fun bt_insert :: "'k::linorder \<Rightarrow> 'v \<Rightarrow> ('k, 'v) btree \<Rightarrow> ('k, 'v) btree" where
  "bt_insert k v [] = [(k, v)]"
| "bt_insert k v ((a, b) # m) =
     (if k < a then (k, v) # (a, b) # m
      else if k = a then (k, v) # m
      else (a, b) # bt_insert k v m)"

definition bt_remove :: "'k \<Rightarrow> ('k, 'v) btree \<Rightarrow> ('k, 'v) btree" where
  "bt_remove k m = filter (\<lambda>e. fst e \<noteq> k) m"

abbreviation bt_get :: "('k, 'v) btree \<Rightarrow> 'k \<Rightarrow> 'v option" where
  "bt_get m k \<equiv> map_of m k"

abbreviation bt_keys :: "('k, 'v) btree \<Rightarrow> 'k list" where
  "bt_keys m \<equiv> map fst m"

abbreviation bt_values :: "('k, 'v) btree \<Rightarrow> 'v list" where
  "bt_values m \<equiv> map snd m"

definition bt_inv :: "('k::linorder, 'v) btree \<Rightarrow> bool" where
  "bt_inv m \<longleftrightarrow> sorted_wrt (<) (bt_keys m)"

fun bs_insert :: "'k::linorder \<Rightarrow> 'k list \<Rightarrow> 'k list" where
  "bs_insert k [] = [k]"
| "bs_insert k (a # s) = (if k < a then k # a # s else if k = a then a # s else a # bs_insert k s)"

lemma bt_inv_distinct: "bt_inv m \<Longrightarrow> distinct (bt_keys m)"
  by (simp add: bt_inv_def strict_sorted_iff)

lemma bt_inv_Nil [simp]: "bt_inv []"
  by (simp add: bt_inv_def)

lemma bt_inv_Cons: "bt_inv ((a, b) # m) \<longleftrightarrow> (\<forall>k \<in> set (bt_keys m). a < k) \<and> bt_inv m"
  by (simp add: bt_inv_def)

lemma bt_keys_insert: "set (bt_keys (bt_insert k v m)) = insert k (set (bt_keys m))"
  by (induction k v m rule: bt_insert.induct) auto

lemma bt_get_insert: "bt_get (bt_insert k v m) = (bt_get m)(k \<mapsto> v)"
  by (induction k v m rule: bt_insert.induct) (auto simp: fun_eq_iff)

lemma bt_inv_insert: "bt_inv m \<Longrightarrow> bt_inv (bt_insert k v m)"
proof (induction k v m rule: bt_insert.induct)
  case (1 k v)
  then show ?case by (simp add: bt_inv_def)
next
  case (2 k v a b m)
  then show ?case
    by (auto simp: bt_inv_Cons bt_keys_insert simp del: set_map)
qed

lemma bt_get_remove: "bt_get (bt_remove k m) = (bt_get m)(k := None)"
  by (induction m) (auto simp: bt_remove_def fun_eq_iff)

lemma bt_inv_remove: "bt_inv m \<Longrightarrow> bt_inv (bt_remove k m)"
  by (simp add: bt_inv_def bt_remove_def sorted_wrt_map sorted_wrt_filter)

lemma bt_get_iff: "bt_inv m \<Longrightarrow> bt_get m k = Some v \<longleftrightarrow> (k, v) \<in> set m"
  by (simp add: bt_inv_distinct map_of_eq_Some_iff)

lemma bt_length_insert:
  "length (bt_insert k v m) \<le> Suc (length m)"
  "bt_inv m \<Longrightarrow> bt_get m k = Some w \<Longrightarrow> length (bt_insert k v m) = length m"
proof -
  show "length (bt_insert k v m) \<le> Suc (length m)"
    by (induction k v m rule: bt_insert.induct) auto
  show "bt_inv m \<Longrightarrow> bt_get m k = Some w \<Longrightarrow> length (bt_insert k v m) = length m"
  proof (induction k v m rule: bt_insert.induct)
    case (2 k v a b m)
    then show ?case
      by (auto simp: bt_inv_Cons dest!: map_of_SomeD split: if_splits)
  qed simp
qed

lemma bs_insert_set: "set (bs_insert k s) = insert k (set s)"
  by (induction k s rule: bs_insert.induct) auto

lemma bs_insert_sorted: "sorted_wrt (<) s \<Longrightarrow> sorted_wrt (<) (bs_insert k s)"
  by (induction k s rule: bs_insert.induct) (auto simp: bs_insert_set intro: less_trans)

text \<open>The map interface the cache and the transaction overlay rely on.\<close>

locale ordered_map =
  fixes empty :: 'm
    and get :: "'m \<Rightarrow> 'k::linorder \<Rightarrow> 'v option"
    and ins :: "'k \<Rightarrow> 'v \<Rightarrow> 'm \<Rightarrow> 'm"
    and del :: "'k \<Rightarrow> 'm \<Rightarrow> 'm"
    and entries :: "'m \<Rightarrow> ('k \<times> 'v) list"
    and inv :: "'m \<Rightarrow> bool"
  assumes inv_empty: "inv empty" and get_empty: "get empty = Map.empty"
    and inv_ins: "inv m \<Longrightarrow> inv (ins k v m)" and get_ins: "inv m \<Longrightarrow> get (ins k v m) = (get m)(k \<mapsto> v)"
    and inv_del: "inv m \<Longrightarrow> inv (del k m)" and get_del: "inv m \<Longrightarrow> get (del k m) = (get m)(k := None)"
    and entries_get: "inv m \<Longrightarrow> (k, v) \<in> set (entries m) \<longleftrightarrow> get m k = Some v"
    and entries_sorted: "inv m \<Longrightarrow> sorted_wrt (<) (map fst (entries m))"
begin

lemma entries_ins:
  "inv m \<Longrightarrow> set (entries (ins k v m)) = insert (k, v) {e \<in> set (entries m). fst e \<noteq> k}"
  by (auto simp: entries_get inv_ins get_ins split: if_splits)

lemma entries_del: "inv m \<Longrightarrow> set (entries (del k m)) = {e \<in> set (entries m). fst e \<noteq> k}"
  by (auto simp: entries_get inv_del get_del split: if_splits)

lemma dom_entries: "inv m \<Longrightarrow> dom (get m) = fst ` set (entries m)"
  by (auto simp: dom_def image_iff entries_get Bex_def)

end

interpretation bt: ordered_map "[]" map_of bt_insert bt_remove id bt_inv
  by unfold_locales
    (auto simp: bt_get_insert bt_get_remove bt_inv_insert bt_inv_remove bt_get_iff, simp add: bt_inv_def)

end
