(* ===== verification/BlockDev.thy ===== *)
theory BlockDev
  imports Prelude
begin

unbundle bit_operations_syntax

text \<open>
  \<^verbatim>\<open>kitsune_core/src/storage/blockdev.rs\<close>: the \<open>BlockDevice\<close> trait, the RAM disk and the
  fault-injecting disk.  The trait is a record of its four methods (the dictionary Rust
  passes implicitly), so the cache and the filesystem take the device as a parameter the
  way the generic source does.  The locale \<open>block_device\<close> states the contract of the
  trait's documentation over the sectors a device holds and over what a power cut may
  leave of each of them; the RAM disk satisfies it, and so does a fault-injecting disk
  over any reliable device, whatever faults and power cut are armed.
\<close>

subsection \<open>Errors and the trait\<close>

datatype io_error = OutOfRange | BadLength | Read | Write | Flush | PowerLoss

definition SECTOR_SIZE :: nat where
  "SECTOR_SIZE = 512"

record 'd blockdevice =
  sector_count :: "'d \<Rightarrow> nat"
  read_sectors :: "'d \<Rightarrow> nat \<Rightarrow> nat \<Rightarrow> ('d, io_error, bytes) res"
  write_sectors :: "'d \<Rightarrow> nat \<Rightarrow> bytes \<Rightarrow> ('d, io_error, unit) res"
  flush_dev :: "'d \<Rightarrow> ('d, io_error, unit) res"

text \<open>\<open>impl BlockDevice for &mut T\<close> forwards every method, so it is the same dictionary.\<close>

definition check_range :: "nat \<Rightarrow> nat \<Rightarrow> nat \<Rightarrow> io_error + (nat \<times> nat)" where
  "check_range sectors lba len =
     (if len mod SECTOR_SIZE \<noteq> 0 then Inl BadLength
      else let n = len div SECTOR_SIZE in
        bindp (ok_or (checked_add 64 lba n) OutOfRange) (\<lambda>end_lba.
          if sectors < end_lba then Inl OutOfRange
          else bindp (ok_or (checked_mul 64 lba SECTOR_SIZE) OutOfRange) (\<lambda>off. Inr (off, n))))"

subsection \<open>The RAM disk\<close>

record io_counters =
  c_read_calls :: nat
  c_write_calls :: nat
  c_sectors_read :: nat
  c_sectors_written :: nat
  c_flushes :: nat

definition counters_default :: io_counters where
  "counters_default = \<lparr>c_read_calls = 0, c_write_calls = 0, c_sectors_read = 0,
     c_sectors_written = 0, c_flushes = 0\<rparr>"

record ram_disk =
  rd_data :: bytes
  rd_counters :: io_counters
  rd_min_written_lba :: "nat option"

definition ram_new :: "nat \<Rightarrow> ram_disk" where
  "ram_new sectors = \<lparr>rd_data = replicate (sectors * SECTOR_SIZE) 0,
     rd_counters = counters_default, rd_min_written_lba = None\<rparr>"

definition ram_from_bytes :: "bytes \<Rightarrow> ram_disk" where
  "ram_from_bytes bs =
     (let rem = length bs mod SECTOR_SIZE;
          bs' = (if rem \<noteq> 0 then bs @ replicate (SECTOR_SIZE - rem) 0 else bs)
      in \<lparr>rd_data = bs', rd_counters = counters_default, rd_min_written_lba = None\<rparr>)"

definition ram_reset_counters :: "ram_disk \<Rightarrow> ram_disk" where
  "ram_reset_counters d = d\<lparr>rd_counters := counters_default, rd_min_written_lba := None\<rparr>"

definition ram_sector_count :: "ram_disk \<Rightarrow> nat" where
  "ram_sector_count d = length (rd_data d) div SECTOR_SIZE"

definition ram_read_sectors :: "ram_disk \<Rightarrow> nat \<Rightarrow> nat \<Rightarrow> (ram_disk, io_error, bytes) res" where
  "ram_read_sectors d lba len =
     (case check_range (ram_sector_count d) lba len of
        Inl e \<Rightarrow> (Inl e, d)
      | Inr (off, n) \<Rightarrow>
          (Inr (get_slice off len (rd_data d)),
           d\<lparr>rd_counters := (rd_counters d)
               \<lparr>c_read_calls := c_read_calls (rd_counters d) + 1,
                c_sectors_read := c_sectors_read (rd_counters d) + n\<rparr>\<rparr>))"

definition ram_write_sectors :: "ram_disk \<Rightarrow> nat \<Rightarrow> bytes \<Rightarrow> (ram_disk, io_error, unit) res" where
  "ram_write_sectors d lba buf =
     (case check_range (ram_sector_count d) lba (length buf) of
        Inl e \<Rightarrow> (Inl e, d)
      | Inr (off, n) \<Rightarrow>
          (Inr (),
           d\<lparr>rd_data := put_slice off buf (rd_data d),
             rd_counters := (rd_counters d)
               \<lparr>c_write_calls := c_write_calls (rd_counters d) + 1,
                c_sectors_written := c_sectors_written (rd_counters d) + n\<rparr>,
             rd_min_written_lba :=
               (if 0 < n
                then Some (case rd_min_written_lba d of None \<Rightarrow> lba | Some m \<Rightarrow> min m lba)
                else rd_min_written_lba d)\<rparr>))"

definition ram_flush :: "ram_disk \<Rightarrow> (ram_disk, io_error, unit) res" where
  "ram_flush d =
     (Inr (), d\<lparr>rd_counters := (rd_counters d)\<lparr>c_flushes := c_flushes (rd_counters d) + 1\<rparr>\<rparr>)"

definition ram_dev :: "ram_disk blockdevice" where
  "ram_dev = \<lparr>sector_count = ram_sector_count, read_sectors = ram_read_sectors,
     write_sectors = ram_write_sectors, flush_dev = ram_flush\<rparr>"

subsection \<open>The fault-injecting disk\<close>

datatype crash_mode = InOrder | Lossy "64 word"

record 'd faulty_disk =
  fd_inner :: 'd
  fd_mode :: crash_mode
  fd_crash_at :: "nat option"
  fd_events :: nat
  fd_crashed :: bool
  fd_pending :: "(nat \<times> bytes) list"
  fd_rng :: "64 word"
  fd_read_calls :: nat
  fd_write_calls :: nat
  fd_fail_read_nth :: "nat option"
  fd_fail_write_nth :: "nat option"
  fd_bad_read :: "(nat \<times> nat) option"
  fd_bad_write :: "(nat \<times> nat) option"

definition fd_new :: "'d \<Rightarrow> 'd faulty_disk" where
  "fd_new d = \<lparr>fd_inner = d, fd_mode = InOrder, fd_crash_at = None, fd_events = 0,
     fd_crashed = False, fd_pending = [], fd_rng = 0, fd_read_calls = 0, fd_write_calls = 0,
     fd_fail_read_nth = None, fd_fail_write_nth = None, fd_bad_read = None, fd_bad_write = None\<rparr>"

definition fd_with_mode :: "crash_mode \<Rightarrow> 'd faulty_disk \<Rightarrow> 'd faulty_disk" where
  "fd_with_mode m s =
     (let s' = s\<lparr>fd_mode := m\<rparr> in
      case m of Lossy seed \<Rightarrow> s'\<lparr>fd_rng := seed XOR 0x9E3779B97F4A7C15\<rparr> | InOrder \<Rightarrow> s')"

definition fd_crash_after :: "nat \<Rightarrow> 'd faulty_disk \<Rightarrow> 'd faulty_disk" where
  "fd_crash_after k s = s\<lparr>fd_crash_at := Some k\<rparr>"

definition fd_set_fail_read_at :: "nat option \<Rightarrow> 'd faulty_disk \<Rightarrow> 'd faulty_disk" where
  "fd_set_fail_read_at n s = s\<lparr>fd_fail_read_nth := n\<rparr>"

definition fd_set_fail_write_at :: "nat option \<Rightarrow> 'd faulty_disk \<Rightarrow> 'd faulty_disk" where
  "fd_set_fail_write_at n s = s\<lparr>fd_fail_write_nth := n\<rparr>"

definition fd_bad_read_range :: "nat \<Rightarrow> nat \<Rightarrow> 'd faulty_disk \<Rightarrow> 'd faulty_disk" where
  "fd_bad_read_range lo hi s = s\<lparr>fd_bad_read := Some (lo, hi)\<rparr>"

definition fd_bad_write_range :: "nat \<Rightarrow> nat \<Rightarrow> 'd faulty_disk \<Rightarrow> 'd faulty_disk" where
  "fd_bad_write_range lo hi s = s\<lparr>fd_bad_write := Some (lo, hi)\<rparr>"

definition fd_heal :: "'d faulty_disk \<Rightarrow> 'd faulty_disk" where
  "fd_heal s = s\<lparr>fd_bad_read := None, fd_bad_write := None,
     fd_fail_read_nth := None, fd_fail_write_nth := None\<rparr>"

text \<open>xorshift64*.\<close>

definition next_rand :: "'d faulty_disk \<Rightarrow> 64 word \<times> 'd faulty_disk" where
  "next_rand s =
     (let x = fd_rng s OR 1;
          x = x XOR drop_bit 12 x;
          x = x XOR push_bit 25 x;
          x = x XOR drop_bit 27 x
      in (x * 0x2545F4914F6CDD1D, s\<lparr>fd_rng := x\<rparr>))"

definition apply_all_pending :: "'d blockdevice \<Rightarrow> 'd faulty_disk \<Rightarrow> 'd faulty_disk" where
  "apply_all_pending dev s =
     (let inner = fold (\<lambda>(lba, sec) d. snd (write_sectors dev d lba sec)) (fd_pending s) (fd_inner s)
      in s\<lparr>fd_inner := inner, fd_pending := []\<rparr>)"

text \<open>At the cut each pending write survives with probability one half.\<close>

definition resolve_one :: "'d blockdevice \<Rightarrow> nat \<times> bytes \<Rightarrow> 'd faulty_disk \<Rightarrow> 'd faulty_disk" where
  "resolve_one dev p s =
     (let (r, s') = next_rand s in
      if r AND 1 = 1
      then s'\<lparr>fd_inner := snd (write_sectors dev (fd_inner s') (fst p) (snd p))\<rparr>
      else s')"

definition resolve_crash :: "'d blockdevice \<Rightarrow> 'd faulty_disk \<Rightarrow> 'd faulty_disk" where
  "resolve_crash dev s = fold (resolve_one dev) (fd_pending s) (s\<lparr>fd_pending := []\<rparr>)"

definition fd_tick :: "'d blockdevice \<Rightarrow> 'd faulty_disk \<Rightarrow> ('d faulty_disk, io_error, unit) res" where
  "fd_tick dev s =
     (if fd_crashed s then (Inl PowerLoss, s)
      else if fd_crash_at s = Some (fd_events s)
      then (Inl PowerLoss, resolve_crash dev (s\<lparr>fd_crashed := True\<rparr>))
      else (Inr (), s\<lparr>fd_events := fd_events s + 1\<rparr>))"

definition fd_into_inner :: "'d blockdevice \<Rightarrow> 'd faulty_disk \<Rightarrow> 'd" where
  "fd_into_inner dev s = fd_inner (if fd_crashed s then s else apply_all_pending dev s)"

definition overlaps :: "(nat \<times> nat) option \<Rightarrow> nat \<Rightarrow> nat \<Rightarrow> bool" where
  "overlaps rng lba n =
     (case rng of Some (lo, hi) \<Rightarrow> lba < hi \<and> lo < min (lba + n) u64_max | None \<Rightarrow> False)"

definition fd_sector_count :: "'d blockdevice \<Rightarrow> 'd faulty_disk \<Rightarrow> nat" where
  "fd_sector_count dev s = sector_count dev (fd_inner s)"

text \<open>Read-your-writes: pending sectors of the range, oldest first, over what was read.\<close>

definition overlay_pending :: "(nat \<times> bytes) list \<Rightarrow> nat \<Rightarrow> nat \<Rightarrow> bytes \<Rightarrow> bytes" where
  "overlay_pending pend lba n buf =
     fold (\<lambda>(plba, sec) b. if lba \<le> plba \<and> plba < lba + n
             then put_slice ((plba - lba) * SECTOR_SIZE) sec b else b) pend buf"

definition fd_read_sectors ::
  "'d blockdevice \<Rightarrow> 'd faulty_disk \<Rightarrow> nat \<Rightarrow> nat \<Rightarrow> ('d faulty_disk, io_error, bytes) res" where
  "fd_read_sectors dev s lba len =
     (if fd_crashed s then (Inl PowerLoss, s)
      else let call = fd_read_calls s; s = s\<lparr>fd_read_calls := fd_read_calls s + 1\<rparr> in
        case check_range (fd_sector_count dev s) lba len of
          Inl e \<Rightarrow> (Inl e, s)
        | Inr (_, n) \<Rightarrow>
            if fd_fail_read_nth s = Some call \<or> overlaps (fd_bad_read s) lba n
            then (Inl Read, s)
            else case read_sectors dev (fd_inner s) lba len of
                (Inl e, d) \<Rightarrow> (Inl e, s\<lparr>fd_inner := d\<rparr>)
              | (Inr buf, d) \<Rightarrow>
                  (Inr (overlay_pending (fd_pending s) lba n buf), s\<lparr>fd_inner := d\<rparr>))"

text \<open>One sector of a write: an event of its own, so a write can be torn between sectors.\<close>

definition fd_write_one ::
  "'d blockdevice \<Rightarrow> nat \<Rightarrow> bytes \<Rightarrow> 'd faulty_disk \<Rightarrow> ('d faulty_disk, io_error, unit) res" where
  "fd_write_one dev lba sec s =
     bindr (fd_tick dev s) (\<lambda>_ s.
       case fd_mode s of
         InOrder \<Rightarrow> (case write_sectors dev (fd_inner s) lba sec of
             (r, d) \<Rightarrow> (r, s\<lparr>fd_inner := d\<rparr>))
       | Lossy _ \<Rightarrow> (Inr (), s\<lparr>fd_pending := fd_pending s @ [(lba, sec)]\<rparr>))"

fun fd_write_loop ::
  "'d blockdevice \<Rightarrow> nat \<Rightarrow> bytes list \<Rightarrow> 'd faulty_disk \<Rightarrow> ('d faulty_disk, io_error, unit) res" where
  "fd_write_loop dev lba [] s = (Inr (), s)"
| "fd_write_loop dev lba (sec # secs) s =
     bindr (fd_write_one dev lba sec s) (\<lambda>_ s. fd_write_loop dev (lba + 1) secs s)"

definition sectors_of :: "bytes \<Rightarrow> bytes list" where
  "sectors_of buf = map (\<lambda>i. get_slice (i * SECTOR_SIZE) SECTOR_SIZE buf) [0..<length buf div SECTOR_SIZE]"

definition fd_write_sectors ::
  "'d blockdevice \<Rightarrow> 'd faulty_disk \<Rightarrow> nat \<Rightarrow> bytes \<Rightarrow> ('d faulty_disk, io_error, unit) res" where
  "fd_write_sectors dev s lba buf =
     (if fd_crashed s then (Inl PowerLoss, s)
      else let call = fd_write_calls s; s = s\<lparr>fd_write_calls := fd_write_calls s + 1\<rparr> in
        case check_range (fd_sector_count dev s) lba (length buf) of
          Inl e \<Rightarrow> (Inl e, s)
        | Inr (_, n) \<Rightarrow>
            if fd_fail_write_nth s = Some call \<or> overlaps (fd_bad_write s) lba n
            then (Inl Write, s)
            else fd_write_loop dev lba (sectors_of buf) s)"

definition fd_flush :: "'d blockdevice \<Rightarrow> 'd faulty_disk \<Rightarrow> ('d faulty_disk, io_error, unit) res" where
  "fd_flush dev s =
     bindr (fd_tick dev s) (\<lambda>_ s.
       let s = apply_all_pending dev s in
       case flush_dev dev (fd_inner s) of (r, d) \<Rightarrow> (r, s\<lparr>fd_inner := d\<rparr>))"

definition faulty_dev :: "'d blockdevice \<Rightarrow> 'd faulty_disk blockdevice" where
  "faulty_dev dev = \<lparr>sector_count = fd_sector_count dev, read_sectors = fd_read_sectors dev,
     write_sectors = fd_write_sectors dev, flush_dev = fd_flush dev\<rparr>"

subsection \<open>The contract of the trait\<close>

text \<open>
  \<open>holds d m\<close> says that sector \<open>i\<close> of \<open>d\<close> reads as \<open>m i\<close>; a device that has lost power
  answers no read, so it holds any \<open>m\<close>.  \<open>poss d i\<close> is the set of contents a power cut may
  leave in sector \<open>i\<close>, each sector independently of the others.  An operation may fail at
  any time.  A read changes nothing; a write that succeeds has replaced exactly its
  sectors, one that fails has changed nothing outside them, and either way a power cut may
  leave any of them old or new; after a flush that succeeds the device keeps what it holds.
\<close>

abbreviation nsec :: "bytes \<Rightarrow> nat" where
  "nsec buf \<equiv> length buf div SECTOR_SIZE"

abbreviation sec_slice :: "nat \<Rightarrow> bytes \<Rightarrow> nat \<Rightarrow> bytes" where
  "sec_slice lba buf i \<equiv> get_slice ((i - lba) * SECTOR_SIZE) SECTOR_SIZE buf"

definition sec_update :: "(nat \<Rightarrow> bytes) \<Rightarrow> nat \<Rightarrow> bytes \<Rightarrow> nat \<Rightarrow> bytes" where
  "sec_update f lba buf i =
     (if lba \<le> i \<and> i < lba + nsec buf then sec_slice lba buf i else f i)"

definition sec_new :: "nat \<Rightarrow> bytes \<Rightarrow> nat \<Rightarrow> bytes set" where
  "sec_new lba buf i = (if lba \<le> i \<and> i < lba + nsec buf then {sec_slice lba buf i} else {})"

locale block_device =
  fixes dev :: "'d blockdevice"
    and holds :: "'d \<Rightarrow> (nat \<Rightarrow> bytes) \<Rightarrow> bool"
    and poss :: "'d \<Rightarrow> nat \<Rightarrow> bytes set"
  assumes holds_length: "holds d m \<Longrightarrow> i < sector_count dev d \<Longrightarrow> length (m i) = SECTOR_SIZE"
    and read_keeps: "holds d m \<Longrightarrow> read_sectors dev d lba len = (rr, d') \<Longrightarrow>
      holds d' m \<and> sector_count dev d' = sector_count dev d \<and> poss d' i \<subseteq> poss d i"
    and read_returns: "holds d m \<Longrightarrow> read_sectors dev d lba len = (Inr buf, d') \<Longrightarrow>
      len mod SECTOR_SIZE = 0 \<and> lba + len div SECTOR_SIZE \<le> sector_count dev d \<and>
      buf = concat (map m [lba..<lba + len div SECTOR_SIZE])"
    and write_keeps: "holds d m \<Longrightarrow> write_sectors dev d lba buf = (r, d') \<Longrightarrow>
      sector_count dev d' = sector_count dev d \<and> (\<exists>m'. holds d' m' \<and>
      (\<forall>i. \<not> (lba \<le> i \<and> i < lba + nsec buf) \<longrightarrow> m' i = m i) \<and>
      (\<forall>u. r = Inr u \<longrightarrow> m' = sec_update m lba buf))"
    and write_fits: "holds d m \<Longrightarrow> write_sectors dev d lba buf = (Inr u, d') \<Longrightarrow>
      length buf mod SECTOR_SIZE = 0 \<and> lba + nsec buf \<le> sector_count dev d"
    and write_poss: "holds d m \<Longrightarrow> write_sectors dev d lba buf = (r, d') \<Longrightarrow>
      poss d' i \<subseteq> poss d i \<union> sec_new lba buf i"
    and flush_keeps: "holds d m \<Longrightarrow> flush_dev dev d = (r, d') \<Longrightarrow>
      holds d' m \<and> sector_count dev d' = sector_count dev d \<and> poss d' i \<subseteq> poss d i"
    and flush_settles: "holds d m \<Longrightarrow> flush_dev dev d = (Inr u, d') \<Longrightarrow> poss d' i \<subseteq> {m i}"
begin

lemma length_concat_sec:
  "holds d m \<Longrightarrow> lba + n \<le> sector_count dev d \<Longrightarrow>
    length (concat (map m [lba..<lba + n])) = n * SECTOR_SIZE"
proof (induction n)
  case 0
  then show ?case by simp
next
  case (Suc n)
  then show ?case using holds_length [of d m "lba + n"] by simp
qed

text \<open>A successful read returns exactly the bytes asked for.\<close>

lemma read_length:
  assumes "holds d m" and "read_sectors dev d lba len = (Inr buf, d')"
  shows "length buf = len"
proof -
  note r = read_returns [OF assms]
  then have "length buf = len div SECTOR_SIZE * SECTOR_SIZE"
    using length_concat_sec [OF assms(1)] by simp
  also have "\<dots> = len"
    using r by (simp add: SECTOR_SIZE_def minus_mod_eq_div_mult [symmetric])
  finally show ?thesis .
qed

text \<open>What was written is what a later successful read returns.\<close>

lemma read_after_write:
  assumes "holds d m" and "write_sectors dev d lba buf = (Inr u, d')"
    and "read_sectors dev d' lba (length buf) = (Inr got, d'')"
  shows "got = buf"
proof -
  let ?n = "nsec buf" and ?m = "sec_update m lba buf"
  note w = write_fits [OF assms(1,2)]
  obtain m' where "holds d' m'" "m' = ?m"
    using write_keeps [OF assms(1,2)] by blast
  then have r: "got = concat (map ?m [lba..<lba + ?n])"
    using read_returns [OF _ assms(3)] by blast
  have len: "length buf = ?n * SECTOR_SIZE"
    using w by (simp add: SECTOR_SIZE_def minus_mod_eq_div_mult [symmetric])
  have "map ?m [lba..<lba + ?n] = map (\<lambda>i. get_slice (i * SECTOR_SIZE) SECTOR_SIZE buf) [0..<?n]"
    by (rule nth_equalityI) (simp_all add: sec_update_def)
  then have "got = take (?n * SECTOR_SIZE) buf"
    using r by (simp only: concat_slices)
  then show ?thesis using len by simp
qed

end

text \<open>A device on which every in-range operation succeeds, and that cannot lose power.\<close>

locale reliable_device = block_device +
  assumes holds_poss: "holds d m \<Longrightarrow> m i \<in> poss d i"
    and read_succeeds: "holds d m \<Longrightarrow> n * SECTOR_SIZE = len \<Longrightarrow> lba + n \<le> sector_count dev d \<Longrightarrow>
      \<exists>buf d'. read_sectors dev d lba len = (Inr buf, d')"
    and write_succeeds: "holds d m \<Longrightarrow> length buf mod SECTOR_SIZE = 0 \<Longrightarrow>
      lba + nsec buf \<le> sector_count dev d \<Longrightarrow> \<exists>d'. write_sectors dev d lba buf = (Inr (), d')"
    and flush_succeeds: "holds d m \<Longrightarrow> \<exists>d'. flush_dev dev d = (Inr (), d')"
begin

text \<open>On such a device a write is always followed by reading it back.\<close>

lemma write_then_read:
  assumes "holds d m" and "length buf mod SECTOR_SIZE = 0" and "lba + nsec buf \<le> sector_count dev d"
  shows "\<exists>d' d''. write_sectors dev d lba buf = (Inr (), d') \<and>
    read_sectors dev d' lba (length buf) = (Inr buf, d'')"
proof -
  obtain d' where w: "write_sectors dev d lba buf = (Inr (), d')"
    using write_succeeds [OF assms] by blast
  obtain m' where k: "holds d' m'" "sector_count dev d' = sector_count dev d"
    using write_keeps [OF assms(1) w] by blast
  have "nsec buf * SECTOR_SIZE = length buf"
    using assms(2) by (simp add: minus_mod_eq_div_mult [symmetric])
  then obtain got d'' where r: "read_sectors dev d' lba (length buf) = (Inr got, d'')"
    using read_succeeds [OF k(1), of "nsec buf" "length buf" lba] k assms(3) by auto
  then show ?thesis
    using read_after_write [OF assms(1) w r] w by blast
qed

end

subsection \<open>The RAM disk satisfies the contract\<close>

lemma check_range_Inr_iff:
  "check_range sectors lba len = Inr (off, n) \<longleftrightarrow>
     len mod SECTOR_SIZE = 0 \<and> n = len div SECTOR_SIZE \<and> lba + n \<le> sectors \<and>
     lba + n < 2 ^ 64 \<and> lba * SECTOR_SIZE < 2 ^ 64 \<and> off = lba * SECTOR_SIZE"
  by (auto simp: check_range_def Let_def bindp_Inr_iff checked_add_def checked_mul_def split: if_splits)

definition ram_sec :: "ram_disk \<Rightarrow> nat \<Rightarrow> bytes" where
  "ram_sec d i = get_slice (i * SECTOR_SIZE) SECTOR_SIZE (rd_data d)"

text \<open>A whole number of sectors, and no longer than a \<open>Vec<u8>\<close> can be.\<close>

definition ram_good :: "ram_disk \<Rightarrow> bool" where
  "ram_good d \<longleftrightarrow> length (rd_data d) mod SECTOR_SIZE = 0 \<and> length (rd_data d) < 2 ^ 64"

lemma ram_length: "ram_good d \<Longrightarrow> length (rd_data d) = ram_sector_count d * SECTOR_SIZE"
  by (simp add: ram_good_def ram_sector_count_def minus_mod_eq_div_mult [symmetric])

lemma ram_range_ok:
  assumes "ram_good d" and "len mod SECTOR_SIZE = 0" and "lba + len div SECTOR_SIZE \<le> ram_sector_count d"
  shows "check_range (ram_sector_count d) lba len = Inr (lba * SECTOR_SIZE, len div SECTOR_SIZE)"
proof -
  have "(lba + len div SECTOR_SIZE) * SECTOR_SIZE \<le> length (rd_data d)"
    using assms ram_length by simp
  moreover have "length (rd_data d) < 2 ^ 64"
    using assms(1) by (simp add: ram_good_def)
  ultimately show ?thesis
    using assms by (simp add: check_range_Inr_iff SECTOR_SIZE_def)
qed

lemma range_bytes:
  assumes "ram_good d" and "len mod SECTOR_SIZE = 0" and "lba + len div SECTOR_SIZE \<le> ram_sector_count d"
  shows "lba * SECTOR_SIZE + len \<le> length (rd_data d)"
proof -
  have "lba * SECTOR_SIZE + len = (lba + len div SECTOR_SIZE) * SECTOR_SIZE"
    using assms(2) by (simp add: add_mult_distrib minus_mod_eq_div_mult [symmetric])
  also have "\<dots> \<le> length (rd_data d)"
    using assms(3) ram_length [OF assms(1)] by simp
  finally show ?thesis .
qed

lemma ram_sec_write:
  assumes "ram_good d" and "length buf mod SECTOR_SIZE = 0" and "lba + nsec buf \<le> ram_sector_count d"
  shows "get_slice (i * SECTOR_SIZE) SECTOR_SIZE (put_slice (lba * SECTOR_SIZE) buf (rd_data d)) =
    sec_update (ram_sec d) lba buf i"
proof -
  have bytes: "lba * SECTOR_SIZE + length buf \<le> length (rd_data d)"
    by (rule range_bytes [OF assms])
  have len: "length buf = nsec buf * SECTOR_SIZE"
    using assms(2) by (simp add: minus_mod_eq_div_mult [symmetric])
  consider "i < lba" | "lba \<le> i" "i < lba + nsec buf" | "lba + nsec buf \<le> i"
    by linarith
  then show ?thesis
  proof cases
    case 1
    then have "i * SECTOR_SIZE + SECTOR_SIZE \<le> lba * SECTOR_SIZE"
      by (simp add: SECTOR_SIZE_def)
    with 1 bytes show ?thesis by (simp add: sec_update_def ram_sec_def)
  next
    case 2
    then have "i * SECTOR_SIZE + SECTOR_SIZE \<le> lba * SECTOR_SIZE + length buf"
      by (subst len) (simp add: SECTOR_SIZE_def)
    with 2 bytes show ?thesis
      by (subst get_put_inside) (simp_all add: sec_update_def diff_mult_distrib SECTOR_SIZE_def)
  next
    case 3
    then have "lba * SECTOR_SIZE + length buf \<le> i * SECTOR_SIZE"
      by (subst len) (simp add: SECTOR_SIZE_def)
    with 3 bytes show ?thesis by (simp add: sec_update_def ram_sec_def)
  qed
qed

lemma ram_read_cases:
  assumes "ram_good d"
  shows "ram_read_sectors d lba len =
    (if len mod SECTOR_SIZE = 0 \<and> lba + len div SECTOR_SIZE \<le> ram_sector_count d
     then (Inr (get_slice (lba * SECTOR_SIZE) len (rd_data d)),
           d\<lparr>rd_counters := (rd_counters d)
               \<lparr>c_read_calls := c_read_calls (rd_counters d) + 1,
                c_sectors_read := c_sectors_read (rd_counters d) + len div SECTOR_SIZE\<rparr>\<rparr>)
     else (Inl (if len mod SECTOR_SIZE = 0 then OutOfRange else BadLength), d))"
  using ram_range_ok [OF assms, of len lba]
  by (auto simp: ram_read_sectors_def check_range_def Let_def checked_add_def bindp_def ok_or_def
      split: sum.splits option.splits)

lemma ram_write_cases:
  assumes "ram_good d"
  shows "ram_write_sectors d lba buf =
    (if length buf mod SECTOR_SIZE = 0 \<and> lba + nsec buf \<le> ram_sector_count d
     then (Inr (), snd (ram_write_sectors d lba buf))
     else (Inl (if length buf mod SECTOR_SIZE = 0 then OutOfRange else BadLength), d))"
  using ram_range_ok [OF assms, of "length buf" lba]
  by (auto simp: ram_write_sectors_def check_range_def Let_def checked_add_def bindp_def ok_or_def
      split: sum.splits option.splits)

lemma ram_write_data:
  assumes "ram_good d" and "length buf mod SECTOR_SIZE = 0" and "lba + nsec buf \<le> ram_sector_count d"
  shows "rd_data (snd (ram_write_sectors d lba buf)) = put_slice (lba * SECTOR_SIZE) buf (rd_data d)"
  using ram_range_ok [OF assms] by (simp add: ram_write_sectors_def)

lemma ram_write_good:
  assumes "ram_good d"
  shows "ram_good (snd (ram_write_sectors d lba buf))"
    and "ram_sector_count (snd (ram_write_sectors d lba buf)) = ram_sector_count d"
proof -
  have "length (rd_data (snd (ram_write_sectors d lba buf))) = length (rd_data d)"
  proof (cases "length buf mod SECTOR_SIZE = 0 \<and> lba + nsec buf \<le> ram_sector_count d")
    case True
    then show ?thesis
      using ram_write_data [OF assms, of buf lba] range_bytes [OF assms, of "length buf" lba] by simp
  next
    case False
    then show ?thesis by (subst ram_write_cases [OF assms]) auto
  qed
  then show "ram_good (snd (ram_write_sectors d lba buf))"
    and "ram_sector_count (snd (ram_write_sectors d lba buf)) = ram_sector_count d"
    using assms by (simp_all add: ram_good_def ram_sector_count_def)
qed

lemma ram_write_sec:
  assumes "ram_good d" and "length buf mod SECTOR_SIZE = 0" and "lba + nsec buf \<le> ram_sector_count d"
  shows "ram_sec (snd (ram_write_sectors d lba buf)) = sec_update (ram_sec d) lba buf"
  using ram_sec_write [OF assms] ram_write_data [OF assms] by (simp add: ram_sec_def [abs_def] fun_eq_iff)

lemma ram_read_data:
  assumes "ram_good d" and "len mod SECTOR_SIZE = 0" and "lba + len div SECTOR_SIZE \<le> ram_sector_count d"
  shows "get_slice (lba * SECTOR_SIZE) len (rd_data d) =
    concat (map (ram_sec d) [lba..<lba + len div SECTOR_SIZE])"
proof -
  let ?n = "len div SECTOR_SIZE" and ?b = "drop (lba * SECTOR_SIZE) (rd_data d)"
  have "map (ram_sec d) [lba..<lba + ?n] = map (\<lambda>i. get_slice (i * SECTOR_SIZE) SECTOR_SIZE ?b) [0..<?n]"
    by (rule nth_equalityI) (simp_all add: ram_sec_def get_slice_drop add_mult_distrib)
  then have "concat (map (ram_sec d) [lba..<lba + ?n]) = take (?n * SECTOR_SIZE) ?b"
    by (simp only: concat_slices)
  also have "?n * SECTOR_SIZE = len"
    using assms(2) by (simp add: minus_mod_eq_div_mult [symmetric])
  finally show ?thesis by (simp add: get_slice_def)
qed

lemma ram_dev_sel [simp]:
  "sector_count ram_dev = ram_sector_count" "read_sectors ram_dev = ram_read_sectors"
  "write_sectors ram_dev = ram_write_sectors" "flush_dev ram_dev = ram_flush"
  by (simp_all add: ram_dev_def)

lemma ram_sec_cong: "rd_data d = rd_data d' \<Longrightarrow> ram_sec d = ram_sec d'"
  by (simp add: ram_sec_def [abs_def])

definition ram_holds :: "ram_disk \<Rightarrow> (nat \<Rightarrow> bytes) \<Rightarrow> bool" where
  "ram_holds d m \<longleftrightarrow> ram_good d \<and> m = ram_sec d"

definition ram_poss :: "ram_disk \<Rightarrow> nat \<Rightarrow> bytes set" where
  "ram_poss d i = {ram_sec d i}"

lemma ram_write_effect:
  assumes "ram_good d" and "ram_write_sectors d lba buf = (r, d')"
  shows "ram_good d'" and "ram_sector_count d' = ram_sector_count d"
    and "(r = Inr () \<and> length buf mod SECTOR_SIZE = 0 \<and> lba + nsec buf \<le> ram_sector_count d \<and>
      ram_sec d' = sec_update (ram_sec d) lba buf) \<or> (\<exists>e. r = Inl e \<and> d' = d)"
proof -
  have d': "d' = snd (ram_write_sectors d lba buf)" using assms(2) by simp
  show "ram_good d'" and "ram_sector_count d' = ram_sector_count d"
    using ram_write_good [OF assms(1)] by (simp_all add: d')
  show "(r = Inr () \<and> length buf mod SECTOR_SIZE = 0 \<and> lba + nsec buf \<le> ram_sector_count d \<and>
      ram_sec d' = sec_update (ram_sec d) lba buf) \<or> (\<exists>e. r = Inl e \<and> d' = d)"
  proof (cases "length buf mod SECTOR_SIZE = 0 \<and> lba + nsec buf \<le> ram_sector_count d")
    case True
    then show ?thesis
      using ram_range_ok [OF assms(1), of "length buf" lba] ram_write_sec [OF assms(1), of buf lba] assms(2)
      by (auto simp: ram_write_sectors_def)
  next
    case False
    then have "(r, d') = (Inl (if length buf mod SECTOR_SIZE = 0 then OutOfRange else BadLength), d)"
      using ram_write_cases [OF assms(1), of lba buf] by (simp only: assms(2) if_False)
    then show ?thesis by blast
  qed
qed

interpretation ram: reliable_device ram_dev ram_holds ram_poss
proof (unfold_locales, goal_cases)
  case (1 d m i)
  then show ?case
    using range_bytes [of d SECTOR_SIZE i] by (simp add: ram_holds_def ram_sec_def SECTOR_SIZE_def)
next
  case (2 d m lba len rr d' i)
  then show ?case
    by (auto simp: ram_holds_def ram_poss_def ram_read_cases ram_good_def ram_sector_count_def
        ram_sec_def [abs_def] split: if_splits)
next
  case (3 d m lba len buf d')
  then show ?case
    by (auto simp: ram_holds_def ram_read_cases ram_read_data split: if_splits)
next
  case (4 d m lba buf r d')
  then show ?case
    using ram_write_effect [of d lba buf r d'] by (auto simp: ram_holds_def sec_update_def)
next
  case (5 d m lba buf u d')
  then show ?case using ram_write_effect [of d lba buf "Inr ()" d'] by (auto simp: ram_holds_def)
next
  case (6 d m lba buf r d' i)
  then show ?case
    using ram_write_effect [of d lba buf r d']
    by (auto simp: ram_holds_def ram_poss_def sec_new_def sec_update_def)
next
  case (7 d m r d' i)
  then show ?case
    by (auto simp: ram_holds_def ram_poss_def ram_flush_def ram_good_def ram_sector_count_def ram_sec_def [abs_def])
next
  case (8 d m u d' i)
  then show ?case
    by (auto simp: ram_holds_def ram_poss_def ram_flush_def ram_sec_def)
next
  case (9 d m i)
  then show ?case by (simp add: ram_holds_def ram_poss_def)
next
  case (10 d m n len lba)
  then show ?case by (auto simp: ram_holds_def ram_read_cases SECTOR_SIZE_def)
next
  case (11 d m buf lba)
  then show ?case using ram_write_cases [of d lba buf] by (auto simp: ram_holds_def)
next
  case (12 d m)
  then show ?case by (simp add: ram_flush_def)
qed

subsection \<open>A fault-injecting disk over any such device\<close>

text \<open>What the disk shows: the medium with the volatile writes over it, oldest first.\<close>

definition pend_over :: "(nat \<times> bytes) list \<Rightarrow> (nat \<Rightarrow> bytes) \<Rightarrow> nat \<Rightarrow> bytes" where
  "pend_over pend f = fold (\<lambda>(lba, s) g. g(lba := s)) pend f"

text \<open>
  The volatile writes are whole sectors inside the device; there are none in the in-order
  mode, and none after the power cut.
\<close>

definition fd_wf :: "'d blockdevice \<Rightarrow> 'd faulty_disk \<Rightarrow> bool" where
  "fd_wf dev s \<longleftrightarrow> (fd_mode s = InOrder \<or> fd_crashed s \<longrightarrow> fd_pending s = []) \<and>
     (\<forall>(lba, b) \<in> set (fd_pending s). lba < sector_count dev (fd_inner s) \<and> length b = SECTOR_SIZE)"

definition fd_holds :: "'d blockdevice \<Rightarrow> ('d \<Rightarrow> (nat \<Rightarrow> bytes) \<Rightarrow> bool) \<Rightarrow>
    'd faulty_disk \<Rightarrow> (nat \<Rightarrow> bytes) \<Rightarrow> bool" where
  "fd_holds dev holds s m \<longleftrightarrow> fd_wf dev s \<and> (\<exists>mi. holds (fd_inner s) mi \<and>
     (if fd_crashed s then \<forall>i < sector_count dev (fd_inner s). length (m i) = SECTOR_SIZE
      else m = pend_over (fd_pending s) mi))"

text \<open>A power cut leaves what the medium has or any volatile write to the sector.\<close>

definition fd_poss :: "('d \<Rightarrow> nat \<Rightarrow> bytes set) \<Rightarrow> 'd faulty_disk \<Rightarrow> nat \<Rightarrow> bytes set" where
  "fd_poss poss s i = poss (fd_inner s) i \<union> {b. (i, b) \<in> set (fd_pending s)}"

lemma pend_over_append [simp]: "pend_over (p @ q) f = pend_over q (pend_over p f)"
  by (simp add: pend_over_def)

lemma pend_over_Nil [simp]: "pend_over [] f = f"
  by (simp add: pend_over_def)

lemma pend_over_Cons [simp]: "pend_over ((l, b) # p) f = pend_over p (f(l := b))"
  by (simp add: pend_over_def)

lemma pend_over_outside: "i \<notin> fst ` set pend \<Longrightarrow> pend_over pend f i = f i"
  by (induction pend arbitrary: f) (auto split: prod.splits)

lemma pend_over_length:
  assumes "\<And>l b. (l, b) \<in> set pend \<Longrightarrow> length b = k" and "length (f i) = k"
  shows "length (pend_over pend f i) = k"
  using assms
proof (induction pend arbitrary: f)
  case Nil
  then show ?case by simp
next
  case (Cons p pend)
  obtain l b where p: "p = (l, b)" by (cases p)
  have "length (pend_over pend (f(l := b)) i) = k"
    by (rule Cons.IH) (use Cons.prems(1) [of l b] Cons.prems p in auto)
  then show ?case by (simp add: p)
qed

text \<open>Writing the sectors of a buffer one by one is writing the buffer.\<close>

definition numbered :: "nat \<Rightarrow> bytes list \<Rightarrow> (nat \<times> bytes) list" where
  "numbered lba secs = zip [lba..<lba + length secs] secs"

lemma numbered_Cons: "numbered lba (s # ss) = (lba, s) # numbered (Suc lba) ss"
  by (simp add: numbered_def upt_conv_Cons del: upt_Suc)

lemma numbered_Nil [simp]: "numbered lba [] = []"
  by (simp add: numbered_def)

lemma pend_over_numbered:
  "pend_over (numbered lba secs) f i =
    (if lba \<le> i \<and> i < lba + length secs then secs ! (i - lba) else f i)"
proof (induction secs arbitrary: lba f)
  case Nil
  then show ?case by auto
next
  case (Cons s ss)
  then show ?case
    by (auto simp: numbered_Cons nth_Cons')
qed

lemma length_sectors_of [simp]: "length (sectors_of buf) = nsec buf"
  by (simp add: sectors_of_def)

lemma pend_over_sectors: "pend_over (numbered lba (sectors_of buf)) f = sec_update f lba buf"
  by (rule ext) (auto simp: pend_over_numbered sec_update_def sectors_of_def)

lemma sectors_of_length: "b \<in> set (sectors_of buf) \<Longrightarrow> length b = SECTOR_SIZE"
proof -
  assume "b \<in> set (sectors_of buf)"
  then obtain i where "i < nsec buf" and b: "b = get_slice (i * SECTOR_SIZE) SECTOR_SIZE buf"
    by (auto simp: sectors_of_def)
  then have "(i + 1) * SECTOR_SIZE \<le> length buf"
    by (metis Suc_eq_plus1 Suc_leI div_times_less_eq_dividend le_trans mult_le_mono1)
  then show ?thesis by (simp add: b)
qed

context block_device
begin

lemma sec_slice_one: "length b = SECTOR_SIZE \<Longrightarrow> nsec b = 1 \<and> sec_update m lba b = m(lba := b)"
  by (auto simp: sec_update_def fun_eq_iff SECTOR_SIZE_def)

lemma inner_write_sector:
  assumes "holds d m" and "length b = SECTOR_SIZE" and "write_sectors dev d lba b = (r, d')"
  shows "sector_count dev d' = sector_count dev d \<and> (\<exists>m'. holds d' m' \<and> (\<forall>i. i \<noteq> lba \<longrightarrow> m' i = m i) \<and>
      (r = Inr () \<longrightarrow> m' = m(lba := b)))"
    and "poss d' i \<subseteq> poss d i \<union> (if i = lba then {b} else {})"
proof -
  note n = sec_slice_one [OF assms(2)]
  obtain m' where "holds d' m'" "\<forall>i. \<not> (lba \<le> i \<and> i < lba + 1) \<longrightarrow> m' i = m i"
      "r = Inr () \<longrightarrow> m' = m(lba := b)" "sector_count dev d' = sector_count dev d"
    using write_keeps [OF assms(1,3)] n by auto
  then show "sector_count dev d' = sector_count dev d \<and> (\<exists>m'. holds d' m' \<and>
      (\<forall>i. i \<noteq> lba \<longrightarrow> m' i = m i) \<and> (r = Inr () \<longrightarrow> m' = m(lba := b)))"
    by (auto intro!: exI [of _ m'])
  have "sec_new lba b i \<subseteq> (if i = lba then {b} else {})"
    using n assms(2) by (auto simp: sec_new_def)
  then show "poss d' i \<subseteq> poss d i \<union> (if i = lba then {b} else {})"
    using write_poss [OF assms(1,3), of i] by blast
qed

lemma fd_length:
  assumes "fd_holds dev holds s m" and "i < sector_count dev (fd_inner s)"
  shows "length (m i) = SECTOR_SIZE"
proof (cases "fd_crashed s")
  case True
  then show ?thesis using assms by (auto simp: fd_holds_def)
next
  case False
  then show ?thesis
    using assms by (auto simp: fd_holds_def fd_wf_def intro!: pend_over_length dest: holds_length)
qed

text \<open>The power cut: every subset of the volatile writes may reach the medium.\<close>

lemma resolve_fold:
  assumes "holds (fd_inner s) mi" and "\<And>l b. (l, b) \<in> set pend \<Longrightarrow> length b = SECTOR_SIZE"
    and "s' = fold (resolve_one dev) pend s"
  shows "(\<exists>mi'. holds (fd_inner s') mi') \<and> sector_count dev (fd_inner s') = sector_count dev (fd_inner s) \<and>
    fd_crashed s' = fd_crashed s \<and> fd_pending s' = fd_pending s \<and> fd_mode s' = fd_mode s \<and>
    (\<forall>i. poss (fd_inner s') i \<subseteq> poss (fd_inner s) i \<union> {b. (i, b) \<in> set pend})"
  using assms
proof (induction pend arbitrary: s mi)
  case Nil
  then show ?case by auto
next
  case (Cons p pend)
  obtain l b where p: "p = (l, b)" by (cases p)
  obtain rr d where w: "write_sectors dev (fd_inner s) l b = (rr, d)" by fastforce
  define t where "t = resolve_one dev p s"
  note k = inner_write_sector [OF Cons.prems(1) _ w]
  have lb: "length b = SECTOR_SIZE" using Cons.prems(2) [of l b] p by simp
  have t: "fd_crashed t = fd_crashed s \<and> fd_pending t = fd_pending s \<and> fd_mode t = fd_mode s \<and>
      (fd_inner t = fd_inner s \<or> fd_inner t = d)"
    using w by (simp add: t_def resolve_one_def next_rand_def p Let_def)
  then obtain m1 where m1: "holds (fd_inner t) m1" "sector_count dev (fd_inner t) = sector_count dev (fd_inner s)"
    using k(1) [OF lb] Cons.prems(1) by metis
  have ps: "poss (fd_inner t) i \<subseteq> poss (fd_inner s) i \<union> (if i = l then {b} else {})" for i
    using t k(2) [OF lb, of i] by auto
  have "s' = fold (resolve_one dev) pend t" using Cons.prems(3) by (simp add: t_def)
  note IH = Cons.IH [OF m1(1) _ this]
  have "(\<exists>mi'. holds (fd_inner s') mi') \<and> sector_count dev (fd_inner s') = sector_count dev (fd_inner t) \<and>
    fd_crashed s' = fd_crashed t \<and> fd_pending s' = fd_pending t \<and> fd_mode s' = fd_mode t \<and>
    (\<forall>i. poss (fd_inner s') i \<subseteq> poss (fd_inner t) i \<union> {b. (i, b) \<in> set pend})"
    by (rule IH) (use Cons.prems(2) in auto)
  moreover have "poss (fd_inner t) i \<union> {b. (i, b) \<in> set pend} \<subseteq> poss (fd_inner s) i \<union> {b. (i, b) \<in> set (p # pend)}" for i
    using ps [of i] p by (auto split: if_splits)
  ultimately show ?case using t m1(2) by (metis (no_types, lifting) subset_trans)
qed

lemma fd_tick_keeps:
  assumes h: "fd_holds dev holds s m" and t: "fd_tick dev s = (r, s')"
  shows "fd_holds dev holds s' m" and "sector_count dev (fd_inner s') = sector_count dev (fd_inner s)"
    and "fd_poss poss s' i \<subseteq> fd_poss poss s i"
    and "r = Inr () \<Longrightarrow> \<not> fd_crashed s \<and> s' = s\<lparr>fd_events := fd_events s + 1\<rparr>"
proof -
  obtain mi where mi: "holds (fd_inner s) mi" and wf: "fd_wf dev s" using h by (auto simp: fd_holds_def)
  consider (dead) "fd_crashed s" | (cut) "\<not> fd_crashed s" "fd_crash_at s = Some (fd_events s)"
    | (live) "\<not> fd_crashed s" "fd_crash_at s \<noteq> Some (fd_events s)" by blast
  then have "fd_holds dev holds s' m \<and> sector_count dev (fd_inner s') = sector_count dev (fd_inner s) \<and>
    (\<forall>i. fd_poss poss s' i \<subseteq> fd_poss poss s i) \<and>
    (r = Inr () \<longrightarrow> \<not> fd_crashed s \<and> s' = s\<lparr>fd_events := fd_events s + 1\<rparr>)"
  proof cases
    case dead
    then show ?thesis using t h by (auto simp: fd_tick_def)
  next
    case cut
    let ?t = "s\<lparr>fd_crashed := True, fd_pending := []\<rparr>"
    have r: "r = Inl PowerLoss" "s' = fold (resolve_one dev) (fd_pending s) ?t"
      using t cut by (auto simp: fd_tick_def resolve_crash_def)
    have "length b = SECTOR_SIZE" if "(l, b) \<in> set (fd_pending s)" for l b
      using wf that by (auto simp: fd_wf_def)
    note f = resolve_fold [OF _ this r(2), of mi]
    have s': "fd_crashed s'" "fd_pending s' = []" "sector_count dev (fd_inner s') = sector_count dev (fd_inner s)"
      "\<exists>mi'. holds (fd_inner s') mi'"
      using f mi by simp_all
    have "fd_holds dev holds s' m"
      using s' fd_length [OF h] by (auto simp: fd_holds_def fd_wf_def)
    then show ?thesis using f mi s' r(1) by (auto simp: fd_poss_def)
  next
    case live
    then show ?thesis using t h by (auto simp: fd_tick_def fd_holds_def fd_wf_def fd_poss_def)
  qed
  then show "fd_holds dev holds s' m" and "sector_count dev (fd_inner s') = sector_count dev (fd_inner s)"
    and "fd_poss poss s' i \<subseteq> fd_poss poss s i"
    and "r = Inr () \<Longrightarrow> \<not> fd_crashed s \<and> s' = s\<lparr>fd_events := fd_events s + 1\<rparr>"
    by blast+
qed

lemma fd_write_one_keeps:
  assumes h: "fd_holds dev holds s m" and lb: "length b = SECTOR_SIZE" "lba < sector_count dev (fd_inner s)"
    and w: "fd_write_one dev lba b s = (r, s')"
  shows "sector_count dev (fd_inner s') = sector_count dev (fd_inner s) \<and> (\<exists>m'. fd_holds dev holds s' m' \<and>
      (\<forall>i. i \<noteq> lba \<longrightarrow> m' i = m i) \<and> (r = Inr () \<longrightarrow> m' = m(lba := b)))"
    and "fd_poss poss s' i \<subseteq> fd_poss poss s i \<union> (if i = lba then {b} else {})"
proof -
  obtain r1 t where tick: "fd_tick dev s = (r1, t)" by fastforce
  note k = fd_tick_keeps [OF h tick]
  have "(sector_count dev (fd_inner s') = sector_count dev (fd_inner s) \<and> (\<exists>m'. fd_holds dev holds s' m' \<and>
      (\<forall>i. i \<noteq> lba \<longrightarrow> m' i = m i) \<and> (r = Inr () \<longrightarrow> m' = m(lba := b)))) \<and>
      (\<forall>i. fd_poss poss s' i \<subseteq> fd_poss poss s i \<union> (if i = lba then {b} else {}))"
  proof (cases r1)
    case (Inl e)
    then have "r = Inl e" "s' = t" using w tick by (simp_all add: fd_write_one_def)
    then show ?thesis using k(1,2,3) by auto
  next
    case (Inr u)
    then have live: "\<not> fd_crashed t" "t = s\<lparr>fd_events := fd_events s + 1\<rparr>" using k(4) by auto
    obtain mi where mi: "holds (fd_inner t) mi" "m = pend_over (fd_pending t) mi" and wf: "fd_wf dev t"
      using k(1) live by (auto simp: fd_holds_def)
    show ?thesis
    proof (cases "fd_mode t")
      case InOrder
      obtain d where wr: "write_sectors dev (fd_inner t) lba b = (r, d)" and s': "s' = t\<lparr>fd_inner := d\<rparr>"
        using w tick Inr InOrder by (auto simp: fd_write_one_def split: prod.splits)
      have p: "fd_pending t = []" using wf InOrder by (simp add: fd_wf_def)
      note iw = inner_write_sector [OF mi(1) lb(1) wr]
      obtain m' where m': "holds d m'" "\<forall>i. i \<noteq> lba \<longrightarrow> m' i = mi i" "r = Inr () \<longrightarrow> m' = mi(lba := b)"
        using iw(1) by blast
      have "fd_holds dev holds s' m'"
        using m' live p by (auto simp: fd_holds_def fd_wf_def s')
      then show ?thesis
        using iw m' mi(2) p live by (auto simp: s' fd_poss_def)
    next
      case (Lossy seed)
      then have r: "r = Inr ()" and s': "s' = t\<lparr>fd_pending := fd_pending t @ [(lba, b)]\<rparr>"
        using w tick Inr by (auto simp: fd_write_one_def)
      have "fd_holds dev holds s' (m(lba := b))"
        using mi wf live lb Lossy by (auto simp: fd_holds_def fd_wf_def s' intro!: exI [of _ mi])
      then show ?thesis using live by (auto simp: s' r fd_poss_def)
    qed
  qed
  then show "sector_count dev (fd_inner s') = sector_count dev (fd_inner s) \<and> (\<exists>m'. fd_holds dev holds s' m' \<and>
      (\<forall>i. i \<noteq> lba \<longrightarrow> m' i = m i) \<and> (r = Inr () \<longrightarrow> m' = m(lba := b)))"
    and "fd_poss poss s' i \<subseteq> fd_poss poss s i \<union> (if i = lba then {b} else {})"
    by blast+
qed

lemma fd_write_loop_keeps:
  assumes "fd_holds dev holds s m" and "\<And>b. b \<in> set secs \<Longrightarrow> length b = SECTOR_SIZE"
    and "lba + length secs \<le> sector_count dev (fd_inner s)" and "fd_write_loop dev lba secs s = (r, s')"
  shows "sector_count dev (fd_inner s') = sector_count dev (fd_inner s) \<and> (\<exists>m'. fd_holds dev holds s' m' \<and>
      (\<forall>i. \<not> (lba \<le> i \<and> i < lba + length secs) \<longrightarrow> m' i = m i) \<and>
      (r = Inr () \<longrightarrow> m' = pend_over (numbered lba secs) m)) \<and>
      (\<forall>i. fd_poss poss s' i \<subseteq> fd_poss poss s i \<union> {b. (i, b) \<in> set (numbered lba secs)})"
  using assms
proof (induction secs arbitrary: s m lba)
  case Nil
  then show ?case by auto
next
  case (Cons b bs)
  obtain r1 t where one: "fd_write_one dev lba b s = (r1, t)" by fastforce
  have lb: "length b = SECTOR_SIZE" "lba < sector_count dev (fd_inner s)" using Cons.prems by auto
  note k = fd_write_one_keeps [OF Cons.prems(1) lb one]
  obtain m1 where m1: "fd_holds dev holds t m1" "\<forall>i. i \<noteq> lba \<longrightarrow> m1 i = m i" "r1 = Inr () \<longrightarrow> m1 = m(lba := b)"
    and sc: "sector_count dev (fd_inner t) = sector_count dev (fd_inner s)"
    using k(1) by blast
  have p1: "fd_poss poss t i \<subseteq> fd_poss poss s i \<union> (if i = lba then {b} else {})" for i by (rule k(2))
  show ?case
  proof (cases r1)
    case (Inl e)
    then have "r = Inl e" "s' = t" using Cons.prems(4) one by simp_all
    moreover have "fd_poss poss t i \<subseteq> fd_poss poss s i \<union> {c. (i, c) \<in> set (numbered lba (b # bs))}" for i
      using p1 [of i] by (auto simp: numbered_Cons split: if_splits)
    moreover have "\<forall>i. \<not> (lba \<le> i \<and> i < lba + length (b # bs)) \<longrightarrow> m1 i = m i" using m1(2) by auto
    ultimately show ?thesis using m1(1) sc by blast
  next
    case (Inr u)
    then have rest: "fd_write_loop dev (lba + 1) bs t = (r, s')"
      using Cons.prems(4) one by simp
    have "sector_count dev (fd_inner s') = sector_count dev (fd_inner t) \<and> (\<exists>m'. fd_holds dev holds s' m' \<and>
      (\<forall>i. \<not> (lba + 1 \<le> i \<and> i < lba + 1 + length bs) \<longrightarrow> m' i = m1 i) \<and>
      (r = Inr () \<longrightarrow> m' = pend_over (numbered (lba + 1) bs) m1)) \<and>
      (\<forall>i. fd_poss poss s' i \<subseteq> fd_poss poss t i \<union> {b. (i, b) \<in> set (numbered (lba + 1) bs)})"
      by (rule Cons.IH [OF m1(1) _ _ rest]) (use Cons.prems sc in auto)
    then obtain m' where m': "fd_holds dev holds s' m'"
        "\<forall>i. \<not> (lba + 1 \<le> i \<and> i < lba + 1 + length bs) \<longrightarrow> m' i = m1 i"
        "r = Inr () \<longrightarrow> m' = pend_over (numbered (lba + 1) bs) m1"
      and sc': "sector_count dev (fd_inner s') = sector_count dev (fd_inner t)"
      and ps: "\<And>i. fd_poss poss s' i \<subseteq> fd_poss poss t i \<union> {b. (i, b) \<in> set (numbered (lba + 1) bs)}"
      by blast
    have "fd_poss poss s' i \<subseteq> fd_poss poss s i \<union> {c. (i, c) \<in> set (numbered lba (b # bs))}" for i
      using ps [of i] p1 [of i] by (auto simp: numbered_Cons split: if_splits)
    moreover have "\<exists>m'. fd_holds dev holds s' m' \<and>
      (\<forall>i. \<not> (lba \<le> i \<and> i < lba + length (b # bs)) \<longrightarrow> m' i = m i) \<and>
      (r = Inr () \<longrightarrow> m' = pend_over (numbered lba (b # bs)) m)"
      using m' m1 Inr by (intro exI [of _ m']) (auto simp: numbered_Cons)
    ultimately show ?thesis using sc sc' by simp
  qed
qed

lemma numbered_new: "{b. (i, b) \<in> set (numbered lba (sectors_of buf))} = sec_new lba buf i"
proof -
  have "(i, b) \<in> set (numbered lba (sectors_of buf)) \<longleftrightarrow> b \<in> sec_new lba buf i" for b
    by (auto simp: numbered_def sec_new_def sectors_of_def set_zip intro!: exI [of _ "i - lba"])
  then show ?thesis by blast
qed

lemma fd_write_keeps:
  assumes h: "fd_holds dev holds s m" and w: "fd_write_sectors dev s lba buf = (r, s')"
  shows "sector_count dev (fd_inner s') = sector_count dev (fd_inner s) \<and> (\<exists>m'. fd_holds dev holds s' m' \<and>
      (\<forall>i. \<not> (lba \<le> i \<and> i < lba + nsec buf) \<longrightarrow> m' i = m i) \<and> (r = Inr () \<longrightarrow> m' = sec_update m lba buf)) \<and>
      (r = Inr () \<longrightarrow> length buf mod SECTOR_SIZE = 0 \<and> lba + nsec buf \<le> sector_count dev (fd_inner s)) \<and>
      (\<forall>i. fd_poss poss s' i \<subseteq> fd_poss poss s i \<union> sec_new lba buf i)"
proof -
  let ?t = "s\<lparr>fd_write_calls := fd_write_calls s + 1\<rparr>"
  have t: "fd_holds dev holds ?t m" "\<And>i. fd_poss poss ?t i = fd_poss poss s i"
    using h by (auto simp: fd_holds_def fd_wf_def fd_poss_def)
  consider e where "r = Inl e" "s' = s \<or> s' = ?t"
    | off where "check_range (sector_count dev (fd_inner s)) lba (length buf) = Inr (off, nsec buf)"
        "fd_write_loop dev lba (sectors_of buf) ?t = (r, s')"
    using w by (auto simp: fd_write_sectors_def fd_sector_count_def Let_def check_range_Inr_iff
        split: sum.splits if_splits)
  then show ?thesis
  proof cases
    case 1
    then show ?thesis using h t by auto
  next
    case 2
    have ok: "length buf mod SECTOR_SIZE = 0" "lba + nsec buf \<le> sector_count dev (fd_inner s)"
      using 2(1) by (auto simp: check_range_Inr_iff)
    show ?thesis
      using fd_write_loop_keeps [OF t(1) sectors_of_length _ 2(2)] ok t(2)
      by (simp add: pend_over_sectors numbered_new)
  qed
qed

lemma fd_read_keeps:
  assumes h: "fd_holds dev holds s m" and w: "fd_read_sectors dev s lba len = (r, s')"
  shows "fd_holds dev holds s' m" and "fd_poss poss s' i \<subseteq> fd_poss poss s i"
    and "sector_count dev (fd_inner s') = sector_count dev (fd_inner s)"
proof -
  obtain rr d where rd: "read_sectors dev (fd_inner s) lba len = (rr, d)"
    by fastforce
  obtain mi where mi: "holds (fd_inner s) mi" using h by (auto simp: fd_holds_def)
  have k: "holds d m'" if "holds (fd_inner s) m'" for m' using read_keeps [OF that rd] by simp
  have k2: "sector_count dev d = sector_count dev (fd_inner s)" "poss d i \<subseteq> poss (fd_inner s) i" for i
    using read_keeps [OF mi rd] by simp_all
  let ?t = "s\<lparr>fd_read_calls := fd_read_calls s + 1\<rparr>"
  have cases: "s' = s \<or> s' = ?t \<or> s' = ?t\<lparr>fd_inner := d\<rparr>"
    using w rd by (auto simp: fd_read_sectors_def Let_def split: sum.splits if_splits prod.splits)
  then show "fd_holds dev holds s' m"
    using h k k2(1) by (cases "fd_crashed s") (fastforce simp: fd_holds_def fd_wf_def)+
  show "fd_poss poss s' i \<subseteq> fd_poss poss s i" and "sector_count dev (fd_inner s') = sector_count dev (fd_inner s)"
    using cases k2(1) k2(2) [of i] by (auto simp: fd_poss_def)
qed

end

lemma overlay_pending_concat:
  assumes "\<And>l b. (l, b) \<in> set pend \<Longrightarrow> length b = SECTOR_SIZE"
    and "\<And>i. lba \<le> i \<Longrightarrow> i < lba + n \<Longrightarrow> length (f i) = SECTOR_SIZE"
  shows "overlay_pending pend lba n (concat (map f [lba..<lba + n])) =
    concat (map (pend_over pend f) [lba..<lba + n])"
  using assms
proof (induction pend arbitrary: f)
  case Nil
  then show ?case by (simp add: overlay_pending_def)
next
  case (Cons p pend)
  obtain l b where p: "p = (l, b)" by (cases p)
  have lb: "length b = SECTOR_SIZE" using Cons.prems(1) [of l b] p by simp
  have one: "(if lba \<le> l \<and> l < lba + n
      then put_slice ((l - lba) * SECTOR_SIZE) b (concat (map f [lba..<lba + n]))
      else concat (map f [lba..<lba + n])) = concat (map (f(l := b)) [lba..<lba + n])"
  proof (cases "lba \<le> l \<and> l < lba + n")
    case True
    let ?fs = "map f [lba..<lba + n]" and ?k = "l - lba"
    have "concat (map (f(l := b)) [lba..<lba + n]) = concat (?fs[?k := b])"
      by (rule arg_cong [of _ _ concat], rule nth_equalityI)
        (use True in \<open>auto simp: nth_list_update\<close>)
    moreover have "put_slice (?k * SECTOR_SIZE) b (concat ?fs) = concat (?fs[?k := b])"
      using True Cons.prems(2) lb by (intro put_slice_concat) auto
    ultimately show ?thesis using True by simp
  next
    case False
    then show ?thesis by (auto intro!: arg_cong [of _ _ concat])
  qed
  have "overlay_pending (p # pend) lba n (concat (map f [lba..<lba + n])) =
      overlay_pending pend lba n (concat (map (f(l := b)) [lba..<lba + n]))"
    using one by (simp add: overlay_pending_def p)
  also have "\<dots> = concat (map (pend_over pend (f(l := b))) [lba..<lba + n])"
    by (rule Cons.IH) (use Cons.prems lb p in auto)
  finally show ?case by (simp add: p)
qed

context reliable_device
begin

lemma pending_fold:
  assumes "holds d m" and "\<And>l b. (l, b) \<in> set pend \<Longrightarrow> l < sector_count dev d \<and> length b = SECTOR_SIZE"
    and "d' = fold (\<lambda>(lba, b) d. snd (write_sectors dev d lba b)) pend d"
  shows "holds d' (pend_over pend m) \<and> sector_count dev d' = sector_count dev d \<and>
    (\<forall>i. poss d' i \<subseteq> poss d i \<union> {b. (i, b) \<in> set pend})"
  using assms
proof (induction pend arbitrary: d m)
  case Nil
  then show ?case by simp
next
  case (Cons p pend)
  obtain l b where p: "p = (l, b)" by (cases p)
  have lb: "l < sector_count dev d" "length b = SECTOR_SIZE" using Cons.prems(2) p by auto
  then have "length b mod SECTOR_SIZE = 0" "l + nsec b \<le> sector_count dev d"
    by (simp_all add: SECTOR_SIZE_def)
  then obtain d1 where w: "write_sectors dev d l b = (Inr (), d1)"
    using write_succeeds [OF Cons.prems(1), of b l] by auto
  note k = inner_write_sector [OF Cons.prems(1) lb(2) w]
  have h1: "holds d1 (m(l := b))" "sector_count dev d1 = sector_count dev d" using k(1) by auto
  have "holds d' (pend_over pend (m(l := b))) \<and> sector_count dev d' = sector_count dev d1 \<and>
    (\<forall>i. poss d' i \<subseteq> poss d1 i \<union> {b. (i, b) \<in> set pend})"
    by (rule Cons.IH [OF h1(1)]) (use Cons.prems h1(2) w p in auto)
  moreover have "poss d1 i \<union> {c. (i, c) \<in> set pend} \<subseteq> poss d i \<union> {c. (i, c) \<in> set (p # pend)}" for i
    using k(2) [of i] by (auto simp: p split: if_splits)
  ultimately have "poss d' i \<subseteq> poss d i \<union> {c. (i, c) \<in> set (p # pend)}" and "holds d' (pend_over (p # pend) m)"
    for i by (blast, simp add: p)
  then show ?case using \<open>_ \<and> _ \<and> (\<forall>i. poss d' i \<subseteq> _)\<close> h1(2) by simp
qed

lemma fd_apply_pending:
  assumes "holds (fd_inner s) mi" and "fd_wf dev s"
  shows "holds (fd_inner (apply_all_pending dev s)) (pend_over (fd_pending s) mi)"
    and "sector_count dev (fd_inner (apply_all_pending dev s)) = sector_count dev (fd_inner s)"
    and "poss (fd_inner (apply_all_pending dev s)) i \<subseteq> fd_poss poss s i"
    and "fd_pending (apply_all_pending dev s) = []" and "fd_crashed (apply_all_pending dev s) = fd_crashed s"
  using pending_fold [OF assms(1) _ refl, of "fd_pending s"] assms(2)
  by (auto simp: apply_all_pending_def fd_wf_def fd_poss_def Let_def)

lemma fd_flush_keeps:
  assumes h: "fd_holds dev holds s m" and w: "fd_flush dev s = (r, s')"
  shows "fd_holds dev holds s' m" and "fd_poss poss s' i \<subseteq> fd_poss poss s i"
    and "sector_count dev (fd_inner s') = sector_count dev (fd_inner s)"
    and "r = Inr () \<Longrightarrow> fd_poss poss s' i \<subseteq> {m i}"
proof -
  obtain r1 t where tick: "fd_tick dev s = (r1, t)" by fastforce
  note k = fd_tick_keeps [OF h tick]
  have "fd_holds dev holds s' m \<and> (\<forall>i. fd_poss poss s' i \<subseteq> fd_poss poss s i) \<and>
    sector_count dev (fd_inner s') = sector_count dev (fd_inner s) \<and> (r = Inr () \<longrightarrow> (\<forall>i. fd_poss poss s' i \<subseteq> {m i}))"
  proof (cases r1)
    case (Inl e)
    then have "r = Inl e" "s' = t" using w tick by (simp_all add: fd_flush_def)
    then show ?thesis using k(1,2,3) by auto
  next
    case (Inr u)
    then have live: "\<not> fd_crashed t" using k(4) by auto
    then obtain mi where mi: "holds (fd_inner t) mi" "m = pend_over (fd_pending t) mi" and wf: "fd_wf dev t"
      using k(1) by (auto simp: fd_holds_def)
    note a = fd_apply_pending [OF mi(1) wf]
    let ?a = "apply_all_pending dev t"
    obtain d where f: "flush_dev dev (fd_inner ?a) = (r, d)" and s': "s' = ?a\<lparr>fd_inner := d\<rparr>"
      using w tick Inr by (auto simp: fd_flush_def Let_def split: prod.splits)
    note fl = flush_keeps [OF a(1) f]
    have "fd_holds dev holds s' m"
      using fl live a(4,5) mi(2) by (auto simp: fd_holds_def fd_wf_def s')
    moreover have "fd_poss poss s' i \<subseteq> fd_poss poss s i" for i
      using fl [of i] a(3) [of i] a(4) k(3) [of i] by (auto simp: fd_poss_def s')
    moreover have "r = Inr () \<Longrightarrow> fd_poss poss s' i \<subseteq> {m i}" for i
      using flush_settles [OF a(1), of "()" d i] f a(4) mi(2) by (simp add: fd_poss_def s')
    ultimately show ?thesis using fl k(2) a(2) by (simp add: s')
  qed
  then show "fd_holds dev holds s' m" and "fd_poss poss s' i \<subseteq> fd_poss poss s i"
    and "sector_count dev (fd_inner s') = sector_count dev (fd_inner s)"
    and "r = Inr () \<Longrightarrow> fd_poss poss s' i \<subseteq> {m i}" by blast+
qed

text \<open>
  The fault-injecting disk keeps the trait's contract: reads see the writes still in the
  volatile cache, a flush that succeeds makes them permanent, and a power cut at any event
  leaves each sector with its old content or with one of the volatile ones.
\<close>

lemma faulty_contract: "block_device (faulty_dev dev) (fd_holds dev holds) (fd_poss poss)"
proof (unfold_locales, goal_cases)
  case (1 s m i)
  then show ?case using fd_length by (simp add: faulty_dev_def fd_sector_count_def)
next
  case (2 s m lba len rr s' i)
  then show ?case using fd_read_keeps [of s m lba len rr s'] by (simp add: faulty_dev_def fd_sector_count_def)
next
  case (3 s m lba len buf s')
  then obtain off n b0 d where live: "\<not> fd_crashed s" and
    rng: "check_range (sector_count dev (fd_inner s)) lba len = Inr (off, n)" and
    rd: "read_sectors dev (fd_inner s) lba len = (Inr b0, d)" and
    buf: "buf = overlay_pending (fd_pending s) lba n b0"
    by (auto simp: faulty_dev_def fd_read_sectors_def fd_sector_count_def Let_def
        split: sum.splits if_splits prod.splits)
  obtain mi where mi: "holds (fd_inner s) mi" "m = pend_over (fd_pending s) mi" and wf: "fd_wf dev s"
    using 3(1) live by (auto simp: fd_holds_def)
  have ok: "len mod SECTOR_SIZE = 0" "n = len div SECTOR_SIZE" "lba + n \<le> sector_count dev (fd_inner s)"
    using rng by (auto simp: check_range_Inr_iff)
  have "buf = concat (map m [lba..<lba + n])"
    using read_returns [OF mi(1) rd] buf ok wf mi(2)
    by (auto simp: fd_wf_def intro!: overlay_pending_concat holds_length [OF mi(1)])
  then show ?case using ok by (simp add: faulty_dev_def fd_sector_count_def)
next
  case (4 s m lba buf r s')
  then show ?case using fd_write_keeps [of s m lba buf r s'] by (simp add: faulty_dev_def fd_sector_count_def)
next
  case (5 s m lba buf u s')
  then show ?case using fd_write_keeps [of s m lba buf "Inr ()" s'] by (simp add: faulty_dev_def fd_sector_count_def)
next
  case (6 s m lba buf r s' i)
  then show ?case using fd_write_keeps [of s m lba buf r s'] by (simp add: faulty_dev_def)
next
  case (7 s m r s' i)
  then show ?case using fd_flush_keeps [of s m r s'] by (simp add: faulty_dev_def fd_sector_count_def)
next
  case (8 s m u s' i)
  then show ?case using fd_flush_keeps(4) [of s m "Inr ()" s'] by (simp add: faulty_dev_def)
qed

text \<open>Taking the medium back, after a power cut or not.\<close>

lemma fd_into_inner_image:
  assumes "fd_holds dev holds s m"
  shows "\<exists>mi. holds (fd_into_inner dev s) mi \<and> (\<forall>i. mi i \<in> fd_poss poss s i) \<and>
    sector_count dev (fd_into_inner dev s) = sector_count dev (fd_inner s) \<and> (\<not> fd_crashed s \<longrightarrow> mi = m)"
proof -
  obtain mi where mi: "holds (fd_inner s) mi" "\<not> fd_crashed s \<longrightarrow> m = pend_over (fd_pending s) mi"
    and wf: "fd_wf dev s" using assms by (auto simp: fd_holds_def split: if_splits)
  show ?thesis
  proof (cases "fd_crashed s")
    case True
    then show ?thesis using mi holds_poss by (auto simp: fd_into_inner_def fd_poss_def)
  next
    case False
    note a = fd_apply_pending [OF mi(1) wf]
    have "pend_over (fd_pending s) mi i \<in> fd_poss poss s i" for i
      using holds_poss [OF a(1), of i] a(3) [of i] by blast
    then show ?thesis using False a mi(2) by (auto simp: fd_into_inner_def)
  qed
qed

end

interpretation fram: block_device "faulty_dev ram_dev" "fd_holds ram_dev ram_holds" "fd_poss ram_poss"
  by (rule ram.faulty_contract)

end
