(* ===== verification/BlockCache.thy ===== *)
theory BlockCache
  imports BTree BlockDev
begin

text \<open>
  \<^verbatim>\<open>kitsune_core/src/storage/blockcache.rs\<close>: the write-back LRU cache of 4 KiB blocks.
  The slots, the doubly linked recency list threaded through them by index, the free
  stack, the block map and the device are kept as the source keeps them.  Counters are
  unbounded naturals.
\<close>

subsection \<open>The code\<close>

definition BLOCK_SIZE :: nat where "BLOCK_SIZE = 4096"
definition SECTORS_PER_BLOCK :: nat where "SECTORS_PER_BLOCK = BLOCK_SIZE div SECTOR_SIZE"
definition NIL :: nat where "NIL = u64_max"
definition FLUSH_RUN :: nat where "FLUSH_RUN = 16"
definition INSERT_RUN_MAX :: nat where "INSERT_RUN_MAX = 8"
definition DIRECT_WRITE_MIN :: nat where "DIRECT_WRITE_MIN = 16"

record cache_stats =
  hits :: nat
  misses :: nat
  evictions :: nat
  writebacks :: nat
  sectors_read :: nat
  sectors_written :: nat
  flushes :: nat

definition stats_default :: cache_stats where
  "stats_default = \<lparr>hits = 0, misses = 0, evictions = 0, writebacks = 0, sectors_read = 0,
     sectors_written = 0, flushes = 0\<rparr>"

record slot =
  s_blk :: nat
  s_data :: bytes
  s_dirty :: bool
  s_tag :: nat
  s_prev :: nat
  s_next :: nat

record 'd block_cache =
  bc_dev :: 'd
  base_lba :: nat
  nblocks :: nat
  capacity :: nat
  slots :: "slot list"
  bc_free :: "nat list"
  bc_map :: "(nat, nat) btree"
  bc_head :: nat
  bc_tail :: nat
  dev_dirty :: bool
  stats :: cache_stats

definition bc_new :: "'d blockdevice \<Rightarrow> 'd \<Rightarrow> nat \<Rightarrow> nat \<Rightarrow> nat \<Rightarrow> 'd block_cache" where
  "bc_new dev d base n cap =
     (let avail = (sector_count dev d - base) div SECTORS_PER_BLOCK in
      \<lparr>bc_dev = d, base_lba = base, nblocks = min n avail, capacity = max cap 1, slots = [],
       bc_free = [], bc_map = [], bc_head = NIL, bc_tail = NIL, dev_dirty = False,
       stats = stats_default\<rparr>)"

definition cached :: "'d block_cache \<Rightarrow> nat" where
  "cached c = length (bc_map c)"

definition dirty_count :: "'d block_cache \<Rightarrow> nat" where
  "dirty_count c = length (filter (\<lambda>i. s_dirty (slots c ! i)) (bt_values (bc_map c)))"

definition reset_stats :: "'d block_cache \<Rightarrow> 'd block_cache" where
  "reset_stats c = c\<lparr>stats := stats_default\<rparr>"

definition bc_check :: "'d block_cache \<Rightarrow> nat \<Rightarrow> nat \<Rightarrow> io_error + unit" where
  "bc_check c blk n =
     (case checked_add 64 blk n of
        Some e \<Rightarrow> if e \<le> nblocks c then Inr () else Inl OutOfRange
      | None \<Rightarrow> Inl OutOfRange)"

definition lba_of :: "'d block_cache \<Rightarrow> nat \<Rightarrow> nat" where
  "lba_of c blk = base_lba c + blk * SECTORS_PER_BLOCK"

definition upd_slot :: "nat \<Rightarrow> (slot \<Rightarrow> slot) \<Rightarrow> 'd block_cache \<Rightarrow> 'd block_cache" where
  "upd_slot i f c = c\<lparr>slots := (slots c)[i := f (slots c ! i)]\<rparr>"

definition bump :: "(cache_stats \<Rightarrow> cache_stats) \<Rightarrow> 'd block_cache \<Rightarrow> 'd block_cache" where
  "bump f c = c\<lparr>stats := f (stats c)\<rparr>"

text \<open>The recency list.\<close>

definition unlink :: "nat \<Rightarrow> 'd block_cache \<Rightarrow> 'd block_cache" where
  "unlink i c =
     (let p = s_prev (slots c ! i); n = s_next (slots c ! i);
          c = (if p \<noteq> NIL then upd_slot p (\<lambda>s. s\<lparr>s_next := n\<rparr>) c else c\<lparr>bc_head := n\<rparr>);
          c = (if n \<noteq> NIL then upd_slot n (\<lambda>s. s\<lparr>s_prev := p\<rparr>) c else c\<lparr>bc_tail := p\<rparr>)
      in upd_slot i (\<lambda>s. s\<lparr>s_prev := NIL, s_next := NIL\<rparr>) c)"

definition push_front :: "nat \<Rightarrow> 'd block_cache \<Rightarrow> 'd block_cache" where
  "push_front i c =
     (let c = upd_slot i (\<lambda>s. s\<lparr>s_prev := NIL, s_next := bc_head c\<rparr>) c;
          c = (if bc_head c \<noteq> NIL then upd_slot (bc_head c) (\<lambda>s. s\<lparr>s_prev := i\<rparr>) c
               else c\<lparr>bc_tail := i\<rparr>)
      in c\<lparr>bc_head := i\<rparr>)"

definition touch :: "nat \<Rightarrow> 'd block_cache \<Rightarrow> 'd block_cache" where
  "touch i c = (if bc_head c \<noteq> i then push_front i (unlink i c) else c)"

definition lookup :: "nat \<Rightarrow> 'd block_cache \<Rightarrow> nat option \<times> 'd block_cache" where
  "lookup blk c =
     (case bt_get (bc_map c) blk of
        None \<Rightarrow> (None, c)
      | Some i \<Rightarrow> (Some i, bump (\<lambda>s. s\<lparr>hits := hits s + 1\<rparr>) (touch i c)))"

definition write_back :: "'d blockdevice \<Rightarrow> nat \<Rightarrow> 'd block_cache \<Rightarrow> ('d block_cache, io_error, unit) res" where
  "write_back dev i c =
     (case write_sectors dev (bc_dev c) (lba_of c (s_blk (slots c ! i))) (s_data (slots c ! i)) of
        (Inl e, d) \<Rightarrow> (Inl e, c\<lparr>bc_dev := d\<rparr>)
      | (Inr _, d) \<Rightarrow>
          (Inr (), bump (\<lambda>s. s\<lparr>writebacks := writebacks s + 1,
                              sectors_written := sectors_written s + SECTORS_PER_BLOCK\<rparr>)
             (upd_slot i (\<lambda>s. s\<lparr>s_dirty := False\<rparr>) (c\<lparr>bc_dev := d, dev_dirty := True\<rparr>))))"

definition fresh_slot :: slot where
  "fresh_slot = \<lparr>s_blk = 0, s_data = replicate BLOCK_SIZE 0, s_dirty = False, s_tag = 0,
     s_prev = NIL, s_next = NIL\<rparr>"

definition acquire_slot :: "'d blockdevice \<Rightarrow> 'd block_cache \<Rightarrow> ('d block_cache, io_error, nat) res" where
  "acquire_slot dev c =
     (if bc_free c \<noteq> [] then (Inr (last (bc_free c)), c\<lparr>bc_free := butlast (bc_free c)\<rparr>)
      else if length (slots c) < capacity c
      then (Inr (length (slots c)), c\<lparr>slots := slots c @ [fresh_slot]\<rparr>)
      else let i = bc_tail c in
        bindr (if s_dirty (slots c ! i) then write_back dev i c else (Inr (), c)) (\<lambda>_ c.
          let c = unlink i c; blk = s_blk (slots c ! i)
          in (Inr i, bump (\<lambda>s. s\<lparr>evictions := evictions s + 1\<rparr>)
                       (c\<lparr>bc_map := bt_remove blk (bc_map c)\<rparr>))))"

definition install :: "nat \<Rightarrow> nat \<Rightarrow> bool \<Rightarrow> 'd block_cache \<Rightarrow> 'd block_cache" where
  "install i blk dirty c =
     (let c = upd_slot i (\<lambda>s. s\<lparr>s_blk := blk, s_dirty := dirty, s_tag := 0\<rparr>) c
      in push_front i (c\<lparr>bc_map := bt_insert blk i (bc_map c)\<rparr>))"

definition load :: "'d blockdevice \<Rightarrow> nat \<Rightarrow> 'd block_cache \<Rightarrow> ('d block_cache, io_error, nat) res" where
  "load dev blk c =
     (case bc_check c blk 1 of
        Inl e \<Rightarrow> (Inl e, c)
      | Inr _ \<Rightarrow>
          (case lookup blk c of
             (Some i, c) \<Rightarrow> (Inr i, c)
           | (None, c) \<Rightarrow>
               bindr (acquire_slot dev (bump (\<lambda>s. s\<lparr>misses := misses s + 1\<rparr>) c)) (\<lambda>i c.
                 case read_sectors dev (bc_dev c) (lba_of c blk) BLOCK_SIZE of
                   (Inl e, d) \<Rightarrow> (Inl e, c\<lparr>bc_dev := d, bc_free := bc_free c @ [i]\<rparr>)
                 | (Inr buf, d) \<Rightarrow>
                     (Inr i, install i blk False
                        (bump (\<lambda>s. s\<lparr>sectors_read := sectors_read s + SECTORS_PER_BLOCK\<rparr>)
                          (upd_slot i (\<lambda>s. s\<lparr>s_data := buf\<rparr>) (c\<lparr>bc_dev := d\<rparr>)))))))"

text \<open>The single-block operations.\<close>

definition bc_get :: "'d blockdevice \<Rightarrow> nat \<Rightarrow> 'd block_cache \<Rightarrow> ('d block_cache, io_error, bytes) res" where
  "bc_get dev blk c = bindr (load dev blk c) (\<lambda>i c. (Inr (s_data (slots c ! i)), c))"

definition bc_get_tagged ::
  "'d blockdevice \<Rightarrow> nat \<Rightarrow> 'd block_cache \<Rightarrow> ('d block_cache, io_error, bytes \<times> nat) res" where
  "bc_get_tagged dev blk c =
     bindr (load dev blk c) (\<lambda>i c. (Inr (s_data (slots c ! i), s_tag (slots c ! i)), c))"

definition bc_set_tag :: "nat \<Rightarrow> nat \<Rightarrow> 'd block_cache \<Rightarrow> 'd block_cache" where
  "bc_set_tag blk tag c =
     (case bt_get (bc_map c) blk of Some i \<Rightarrow> upd_slot i (\<lambda>s. s\<lparr>s_tag := tag\<rparr>) c | None \<Rightarrow> c)"

definition bc_read :: "'d blockdevice \<Rightarrow> nat \<Rightarrow> 'd block_cache \<Rightarrow> ('d block_cache, io_error, bytes) res" where
  "bc_read dev blk c = bindr (load dev blk c) (\<lambda>i c. (Inr (s_data (slots c ! i)), c))"

definition bc_write ::
  "'d blockdevice \<Rightarrow> nat \<Rightarrow> bytes \<Rightarrow> 'd block_cache \<Rightarrow> ('d block_cache, io_error, unit) res" where
  "bc_write dev blk data c =
     (case bc_check c blk 1 of
        Inl e \<Rightarrow> (Inl e, c)
      | Inr _ \<Rightarrow>
          bindr (case lookup blk c of
                   (Some i, c) \<Rightarrow> (Inr i, c)
                 | (None, c) \<Rightarrow>
                     bindr (acquire_slot dev (bump (\<lambda>s. s\<lparr>misses := misses s + 1\<rparr>) c)) (\<lambda>i c.
                       (Inr i, install i blk True c))) (\<lambda>i c.
            (Inr (), upd_slot i (\<lambda>s. s\<lparr>s_data := data, s_dirty := True, s_tag := 0\<rparr>) c)))"

definition write_direct ::
  "'d blockdevice \<Rightarrow> nat \<Rightarrow> bytes \<Rightarrow> nat \<Rightarrow> 'd block_cache \<Rightarrow> ('d block_cache, io_error, unit) res" where
  "write_direct dev blk data tag c =
     (case bc_check c blk 1 of
        Inl e \<Rightarrow> (Inl e, c)
      | Inr _ \<Rightarrow>
          (case write_sectors dev (bc_dev c) (lba_of c blk) data of
             (Inl e, d) \<Rightarrow> (Inl e, c\<lparr>bc_dev := d\<rparr>)
           | (Inr _, d) \<Rightarrow>
               let c = bump (\<lambda>s. s\<lparr>sectors_written := sectors_written s + SECTORS_PER_BLOCK\<rparr>)
                         (c\<lparr>bc_dev := d, dev_dirty := True\<rparr>)
               in (Inr (), case bt_get (bc_map c) blk of
                     Some i \<Rightarrow> upd_slot i (\<lambda>s. s\<lparr>s_data := data, s_dirty := False, s_tag := tag\<rparr>) c
                   | None \<Rightarrow> c)))"

definition discard :: "nat \<Rightarrow> 'd block_cache \<Rightarrow> 'd block_cache" where
  "discard blk c =
     (case bt_get (bc_map c) blk of
        None \<Rightarrow> c
      | Some i \<Rightarrow>
          let c = upd_slot i (\<lambda>s. s\<lparr>s_dirty := False\<rparr>) (unlink i (c\<lparr>bc_map := bt_remove blk (bc_map c)\<rparr>))
          in c\<lparr>bc_free := bc_free c @ [i]\<rparr>)"

definition invalidate_all :: "'d block_cache \<Rightarrow> 'd block_cache" where
  "invalidate_all c = c\<lparr>bc_map := [], bc_free := [], slots := [], bc_head := NIL, bc_tail := NIL\<rparr>"

text \<open>
  \<open>read_many\<close>.  The buffer is built from the left: \<open>acc\<close> is what the source has already
  stored in \<open>out[..i * 4096]\<close>.  \<open>run_end\<close> is the inner loop that extends an uncached run;
  \<open>insert_run\<close> is the insertion of a short run, which stops quietly when no slot can be
  made free.
\<close>

fun run_end :: "'d block_cache \<Rightarrow> nat \<Rightarrow> nat \<Rightarrow> nat \<Rightarrow> nat" where
  "run_end c blk j 0 = j"
| "run_end c blk j (Suc left) =
     (if bt_get (bc_map c) (blk + j) = None then run_end c blk (j + 1) left else j)"

fun insert_run :: "'d blockdevice \<Rightarrow> nat \<Rightarrow> bytes list \<Rightarrow> 'd block_cache \<Rightarrow> 'd block_cache" where
  "insert_run dev blk [] c = c"
| "insert_run dev blk (b # bs) c =
     (case acquire_slot dev c of
        (Inl _, c) \<Rightarrow> c
      | (Inr s, c) \<Rightarrow>
          insert_run dev (blk + 1) bs
            (install s blk False (upd_slot s (\<lambda>x. x\<lparr>s_data := b\<rparr>) c)))"

definition blocks_of :: "bytes \<Rightarrow> bytes list" where
  "blocks_of buf = map (\<lambda>k. get_slice (k * BLOCK_SIZE) BLOCK_SIZE buf) [0..<length buf div BLOCK_SIZE]"

lemma run_end_ge: "j \<le> run_end c blk j k"
  by (induction c blk j k rule: run_end.induct) auto

function read_loop ::
  "'d blockdevice \<Rightarrow> nat \<Rightarrow> nat \<Rightarrow> nat \<Rightarrow> bytes \<Rightarrow> 'd block_cache \<Rightarrow> ('d block_cache, io_error, bytes) res" where
  "read_loop dev blk n i acc c =
     (if i < n then
        (case lookup (blk + i) c of
           (Some s, c) \<Rightarrow> read_loop dev blk n (i + 1) (acc @ s_data (slots c ! s)) c
         | (None, c) \<Rightarrow>
             let j = run_end c blk (i + 1) (n - (i + 1)) in
             (case read_sectors dev (bc_dev c) (lba_of c (blk + i)) ((j - i) * BLOCK_SIZE) of
                (Inl e, d) \<Rightarrow> (Inl e, c\<lparr>bc_dev := d\<rparr>)
              | (Inr buf, d) \<Rightarrow>
                  let c = bump (\<lambda>s. s\<lparr>misses := misses s + (j - i),
                                     sectors_read := sectors_read s + (j - i) * SECTORS_PER_BLOCK\<rparr>)
                            (c\<lparr>bc_dev := d\<rparr>);
                      c = (if j - i \<le> INSERT_RUN_MAX
                           then insert_run dev (blk + i) (blocks_of buf) c else c)
                  in read_loop dev blk n j (acc @ buf) c))
      else (Inr acc, c))"
  by pat_completeness auto
termination
  by (relation "measure (\<lambda>(dev, blk, n, i, acc, c). n - i)")
    (auto intro: diff_less_mono2 less_le_trans [OF lessI run_end_ge] simp del: run_end.simps)

definition read_many ::
  "'d blockdevice \<Rightarrow> nat \<Rightarrow> nat \<Rightarrow> 'd block_cache \<Rightarrow> ('d block_cache, io_error, bytes) res" where
  "read_many dev blk len c =
     (if len mod BLOCK_SIZE \<noteq> 0 then (Inl BadLength, c)
      else let n = len div BLOCK_SIZE in
        case bc_check c blk n of
          Inl e \<Rightarrow> (Inl e, c)
        | Inr _ \<Rightarrow> read_loop dev blk n 0 [] c)"

text \<open>\<open>write_many\<close>: long runs straight to the device, short ones block by block.\<close>

definition sync_slot :: "nat \<Rightarrow> bytes \<Rightarrow> 'd block_cache \<Rightarrow> 'd block_cache" where
  "sync_slot blk b c =
     (case bt_get (bc_map c) blk of
        Some s \<Rightarrow> upd_slot s (\<lambda>x. x\<lparr>s_data := b, s_dirty := False, s_tag := 0\<rparr>) c
      | None \<Rightarrow> c)"

fun write_each :: "'d blockdevice \<Rightarrow> nat \<Rightarrow> bytes list \<Rightarrow> 'd block_cache \<Rightarrow> ('d block_cache, io_error, unit) res" where
  "write_each dev blk [] c = (Inr (), c)"
| "write_each dev blk (b # bs) c =
     bindr (bc_write dev blk b c) (\<lambda>_ c. write_each dev (blk + 1) bs c)"

definition write_many ::
  "'d blockdevice \<Rightarrow> nat \<Rightarrow> bytes \<Rightarrow> 'd block_cache \<Rightarrow> ('d block_cache, io_error, unit) res" where
  "write_many dev blk data c =
     (if length data mod BLOCK_SIZE \<noteq> 0 then (Inl BadLength, c)
      else let n = length data div BLOCK_SIZE in
        case bc_check c blk n of
          Inl e \<Rightarrow> (Inl e, c)
        | Inr _ \<Rightarrow>
            if DIRECT_WRITE_MIN \<le> n then
              (case write_sectors dev (bc_dev c) (lba_of c blk) data of
                 (Inl e, d) \<Rightarrow> (Inl e, fold (\<lambda>k. discard (blk + k)) [0..<n] (c\<lparr>bc_dev := d\<rparr>))
               | (Inr _, d) \<Rightarrow>
                   let c = bump (\<lambda>s. s\<lparr>sectors_written := sectors_written s + n * SECTORS_PER_BLOCK\<rparr>)
                             (c\<lparr>bc_dev := d, dev_dirty := True\<rparr>)
                   in (Inr (), fold (\<lambda>k. sync_slot (blk + k) (get_slice (k * BLOCK_SIZE) BLOCK_SIZE data)) [0..<n] c))
            else write_each dev blk (blocks_of data) c)"

text \<open>\<open>flush\<close>: dirty blocks in ascending order, adjacent ones in one transfer.\<close>

definition dirty_list :: "'d block_cache \<Rightarrow> (nat \<times> nat) list" where
  "dirty_list c = filter (\<lambda>(b, i). s_dirty (slots c ! i)) (bc_map c)"

fun run_len :: "nat \<Rightarrow> nat \<Rightarrow> (nat \<times> nat) list \<Rightarrow> nat" where
  "run_len first m [] = m"
| "run_len first m ((b, i) # ds) =
     (if m < FLUSH_RUN \<and> b = first + m then run_len first (m + 1) ds else m)"

lemma run_len_ge: "m \<le> run_len first m ds"
  by (induction first m ds rule: run_len.induct) auto

lemma run_len_pos: "0 < run_len first (Suc 0) ds"
  using run_len_ge [of "Suc 0" first ds] by simp

definition clean_slots :: "(nat \<times> nat) list \<Rightarrow> 'd block_cache \<Rightarrow> 'd block_cache" where
  "clean_slots ds c = fold (\<lambda>(b, i). upd_slot i (\<lambda>s. s\<lparr>s_dirty := False\<rparr>)) ds c"

function flush_loop ::
  "'d blockdevice \<Rightarrow> (nat \<times> nat) list \<Rightarrow> io_error option \<Rightarrow> 'd block_cache \<Rightarrow> io_error option \<times> 'd block_cache" where
  "flush_loop dev [] err c = (err, c)"
| "flush_loop dev ((b, i) # ds) err c =
     (let m = run_len b 1 ds;
          run = take m ((b, i) # ds);
          buf = concat (map (\<lambda>(b, i). s_data (slots c ! i)) run)
      in case write_sectors dev (bc_dev c) (lba_of c b) buf of
           (Inr _, d) \<Rightarrow>
             flush_loop dev (drop m ((b, i) # ds)) err
               (clean_slots run
                 (bump (\<lambda>s. s\<lparr>writebacks := writebacks s + m,
                             sectors_written := sectors_written s + m * SECTORS_PER_BLOCK\<rparr>)
                   (c\<lparr>bc_dev := d, dev_dirty := True\<rparr>)))
         | (Inl e, d) \<Rightarrow>
             flush_loop dev (drop m ((b, i) # ds)) (case err of None \<Rightarrow> Some e | Some e0 \<Rightarrow> Some e0)
               (c\<lparr>bc_dev := d\<rparr>))"
  by pat_completeness auto
termination
  by (relation "measure (\<lambda>(dev, ds, err, c). length ds)") (auto simp: run_len_pos intro!: diff_less)

definition bc_flush :: "'d blockdevice \<Rightarrow> 'd block_cache \<Rightarrow> ('d block_cache, io_error, unit) res" where
  "bc_flush dev c =
     (case flush_loop dev (dirty_list c) None c of
        (Some e, c) \<Rightarrow> (Inl e, c)
      | (None, c) \<Rightarrow>
          if dev_dirty c then
            (case flush_dev dev (bc_dev c) of
               (Inl e, d) \<Rightarrow> (Inl e, c\<lparr>bc_dev := d\<rparr>)
             | (Inr _, d) \<Rightarrow>
                 (Inr (), bump (\<lambda>s. s\<lparr>flushes := flushes s + 1\<rparr>) (c\<lparr>bc_dev := d, dev_dirty := False\<rparr>)))
          else (Inr (), c))"

end
