(* ===== verification/Layout.thy ===== *)
theory Layout
  imports Crc32 BlockCache
begin

text \<open>
  \<^verbatim>\<open>kitsune_core/src/storage/fs3/layout.rs\<close>: constants of the on-disk format, the geometry
  computed from three numbers, the superblock and the journal header, with their encoding
  and decoding.
\<close>

subsection \<open>The code\<close>

definition FS_START_LBA :: nat where "FS_START_LBA = 128"
definition MIN_DISK_SECTORS :: nat where "MIN_DISK_SECTORS = 2048"
definition VERSION :: nat where "VERSION = 1"
definition MAGIC :: bytes where "MAGIC = [0x4F, 0x4A, 0x46, 0x33]"
definition JOURNAL_MAGIC :: bytes where "JOURNAL_MAGIC = [0x4F, 0x4A, 0x4A, 0x33]"
definition DIR_MAGIC :: bytes where "DIR_MAGIC = [0x4F, 0x4A, 0x44, 0x33]"
definition EXT_MAGIC :: bytes where "EXT_MAGIC = [0x4F, 0x4A, 0x58, 0x33]"
definition INODE_SIZE :: nat where "INODE_SIZE = 512"
definition INODES_PER_BLOCK :: nat where "INODES_PER_BLOCK = BLOCK_SIZE div INODE_SIZE"
definition BITMAP_WORDS_PER_BLOCK :: nat where "BITMAP_WORDS_PER_BLOCK = (BLOCK_SIZE - 8) div 8"
definition BITS_PER_BITMAP_BLOCK :: nat where "BITS_PER_BITMAP_BLOCK = BITMAP_WORDS_PER_BLOCK * 64"
definition MAX_JOURNAL_BLOCKS :: nat where "MAX_JOURNAL_BLOCKS = (BLOCK_SIZE - 24) div 4"
definition ROOT_INO :: nat where "ROOT_INO = 1"
definition TRASH_INO :: nat where "TRASH_INO = 2"
definition TRASH_NAME :: bytes where "TRASH_NAME = [0x2E, 0x74, 0x72, 0x61, 0x73, 0x68]"

lemmas layout_consts = FS_START_LBA_def MIN_DISK_SECTORS_def VERSION_def INODE_SIZE_def INODES_PER_BLOCK_def
  BITMAP_WORDS_PER_BLOCK_def BITS_PER_BITMAP_BLOCK_def MAX_JOURNAL_BLOCKS_def ROOT_INO_def TRASH_INO_def
  BLOCK_SIZE_def SECTORS_PER_BLOCK_def SECTOR_SIZE_def

definition rd16 :: "bytes \<Rightarrow> nat \<Rightarrow> nat" where "rd16 b i = le_nat (get_slice i 2 b)"
definition rd32 :: "bytes \<Rightarrow> nat \<Rightarrow> nat" where "rd32 b i = le_nat (get_slice i 4 b)"
definition rd64 :: "bytes \<Rightarrow> nat \<Rightarrow> nat" where "rd64 b i = le_nat (get_slice i 8 b)"
definition wr16 :: "bytes \<Rightarrow> nat \<Rightarrow> nat \<Rightarrow> bytes" where "wr16 b i v = put_slice i (le_bytes 2 v) b"
definition wr32 :: "bytes \<Rightarrow> nat \<Rightarrow> nat \<Rightarrow> bytes" where "wr32 b i v = put_slice i (le_bytes 4 v) b"
definition wr64 :: "bytes \<Rightarrow> nat \<Rightarrow> nat \<Rightarrow> bytes" where "wr64 b i v = put_slice i (le_bytes 8 v) b"

record geometry =
  total_blocks :: nat
  journal_blocks :: nat
  inode_count :: nat
  jhdr :: nat
  jpayload :: nat
  bbitmap_start :: nat
  bbitmap_blocks :: nat
  ibitmap_start :: nat
  ibitmap_blocks :: nat
  itable_start :: nat
  itable_blocks :: nat
  data_start :: nat

definition geometry_compute :: "nat \<Rightarrow> nat \<Rightarrow> nat \<Rightarrow> geometry option" where
  "geometry_compute tot jblocks icount =
     (if jblocks = 0 \<or> MAX_JOURNAL_BLOCKS < jblocks then None
      else if icount < INODES_PER_BLOCK \<or> icount mod INODES_PER_BLOCK \<noteq> 0 then None
      else
        let bb = div_ceil tot BITS_PER_BITMAP_BLOCK;
            ib = div_ceil icount BITS_PER_BITMAP_BLOCK;
            it = icount div INODES_PER_BLOCK;
            jp = 2;
            bstart = jp + jblocks;
            istart = bstart + bb;
            tstart = istart + ib;
            dstart = tstart + it
        in if tot < dstart + 4 + 1 then None
           else Some \<lparr>total_blocks = tot, journal_blocks = jblocks, inode_count = icount,
             jhdr = 1, jpayload = as_u32 jp, bbitmap_start = as_u32 bstart, bbitmap_blocks = as_u32 bb,
             ibitmap_start = as_u32 istart, ibitmap_blocks = as_u32 ib, itable_start = as_u32 tstart,
             itable_blocks = as_u32 it, data_start = as_u32 dstart\<rparr>)"

definition geometry_defaults :: "nat \<Rightarrow> nat \<times> nat" where
  "geometry_defaults tot =
     (let j = min (max (tot div 16) 24) 256;
          ino = max (tot div 4) 64;
          ino = div_ceil ino INODES_PER_BLOCK * INODES_PER_BLOCK
      in (j, ino))"

definition backup_sb :: "geometry \<Rightarrow> nat" where
  "backup_sb g = total_blocks g - 1"

record superblock =
  sb_uuid :: bytes
  sb_created :: nat
  sb_geo :: geometry

definition sb_encode :: "superblock \<Rightarrow> bytes" where
  "sb_encode sb =
     (let b = replicate 512 0; g = sb_geo sb;
          b = put_slice 4 MAGIC b;
          b = wr32 b 8 VERSION;
          b = wr32 b 12 (as_u32 BLOCK_SIZE);
          b = put_slice 16 (sb_uuid sb) b;
          b = wr32 b 32 (total_blocks g);
          b = wr32 b 36 (journal_blocks g);
          b = wr32 b 40 (inode_count g);
          b = wr32 b 44 (bbitmap_start g);
          b = wr32 b 48 (bbitmap_blocks g);
          b = wr32 b 52 (ibitmap_start g);
          b = wr32 b 56 (ibitmap_blocks g);
          b = wr32 b 60 (itable_start g);
          b = wr32 b 64 (itable_blocks g);
          b = wr32 b 68 (data_start g);
          b = wr64 b 72 (sb_created sb);
          c = crc32 (drop 4 b)
      in wr32 b 0 (unat c))"

definition sb_decode :: "bytes \<Rightarrow> superblock option" where
  "sb_decode b =
     (if length b < 512 \<or> get_slice 4 4 b \<noteq> MAGIC then None
      else if rd32 b 0 \<noteq> unat (crc32 (get_slice 4 508 b)) then None
      else if rd32 b 8 \<noteq> VERSION \<or> rd32 b 12 \<noteq> as_u32 BLOCK_SIZE then None
      else case geometry_compute (rd32 b 32) (rd32 b 36) (rd32 b 40) of
          None \<Rightarrow> None
        | Some g \<Rightarrow>
            let stored = [rd32 b 44, rd32 b 48, rd32 b 52, rd32 b 56, rd32 b 60, rd32 b 64, rd32 b 68];
                want = [bbitmap_start g, bbitmap_blocks g, ibitmap_start g, ibitmap_blocks g,
                        itable_start g, itable_blocks g, data_start g]
            in if stored \<noteq> want then None
               else Some \<lparr>sb_uuid = get_slice 16 16 b, sb_created = rd64 b 72, sb_geo = g\<rparr>)"

record journal_header =
  jh_seq :: nat
  jh_targets :: "nat list"

definition put_targets :: "nat list \<Rightarrow> bytes \<Rightarrow> bytes" where
  "put_targets targets h = fold (\<lambda>(i, t) h. wr32 h (24 + 4 * i) t) (zip [0..<length targets] targets) h"

definition build_journal_header :: "nat \<Rightarrow> nat list \<Rightarrow> bytes list \<Rightarrow> bytes" where
  "build_journal_header seq targets payload =
     (let h = replicate BLOCK_SIZE 0;
          h = put_slice 4 JOURNAL_MAGIC h;
          h = wr64 h 8 seq;
          h = wr32 h 16 (as_u32 (length targets));
          h = put_targets targets h;
          c = crc_update crc_new (drop 4 h);
          c = fold (\<lambda>p c. crc_update c p) payload c
      in wr32 h 0 (unat (crc_finalize c)))"

definition parse_journal_header :: "bytes \<Rightarrow> nat \<Rightarrow> journal_header option" where
  "parse_journal_header h max_blocks =
     (if get_slice 4 4 h \<noteq> JOURNAL_MAGIC then None
      else let n = rd32 h 16 in
        if max_blocks < n then None
        else Some \<lparr>jh_seq = rd64 h 8, jh_targets = map (\<lambda>i. rd32 h (24 + 4 * i)) [0..<n]\<rparr>)"

definition journal_crc_ok :: "bytes \<Rightarrow> bytes \<Rightarrow> bool" where
  "journal_crc_ok h payload \<longleftrightarrow>
     unat (crc_finalize (crc_update (crc_update crc_new (drop 4 h)) payload)) = rd32 h 0"

subsection \<open>Reading back what was written\<close>

lemma length_wr [simp]:
  "i + 2 \<le> length b \<Longrightarrow> length (wr16 b i v) = length b"
  "i + 4 \<le> length b \<Longrightarrow> length (wr32 b i v) = length b"
  "i + 8 \<le> length b \<Longrightarrow> length (wr64 b i v) = length b"
  by (simp_all add: wr16_def wr32_def wr64_def)

lemma rd_less: "rd16 b i < 2 ^ 16" "rd32 b i < 2 ^ 32" "rd64 b i < 2 ^ 64"
proof -
  have pw: "(256 :: nat) ^ k = 2 ^ (8 * k)" for k by (simp add: power_mult)
  have "le_nat (get_slice i n b) < 256 ^ n" for n
  proof -
    have "le_nat (get_slice i n b) < 256 ^ length (get_slice i n b)" by (rule le_nat_less)
    also have "\<dots> \<le> 256 ^ n" by (rule power_increasing) simp_all
    finally show ?thesis .
  qed
  from this [of 2] this [of 4] this [of 8] show "rd16 b i < 2 ^ 16" "rd32 b i < 2 ^ 32" "rd64 b i < 2 ^ 64"
    by (simp_all add: rd16_def rd32_def rd64_def)
qed

lemma rd_wr_same [simp]:
  "i + 2 \<le> length b \<Longrightarrow> rd16 (wr16 b i v) i = v mod 2 ^ 16"
  "i + 4 \<le> length b \<Longrightarrow> rd32 (wr32 b i v) i = v mod 2 ^ 32"
  "i + 8 \<le> length b \<Longrightarrow> rd64 (wr64 b i v) i = v mod 2 ^ 64"
  by (simp_all add: rd16_def rd32_def rd64_def wr16_def wr32_def wr64_def)

lemma get_slice_wr32 [simp]:
  "j + n \<le> i \<or> i + 4 \<le> j \<Longrightarrow> i + 4 \<le> length b \<Longrightarrow> get_slice j n (wr32 b i v) = get_slice j n b"
  by (auto simp: wr32_def)

lemma get_slice_wr64 [simp]:
  "j + n \<le> i \<or> i + 8 \<le> j \<Longrightarrow> i + 8 \<le> length b \<Longrightarrow> get_slice j n (wr64 b i v) = get_slice j n b"
  by (auto simp: wr64_def)

lemma get_slice_wr16 [simp]:
  "j + n \<le> i \<or> i + 2 \<le> j \<Longrightarrow> i + 2 \<le> length b \<Longrightarrow> get_slice j n (wr16 b i v) = get_slice j n b"
  by (auto simp: wr16_def)

lemma rd32_other [simp]:
  "j + 4 \<le> i \<or> i + 4 \<le> j \<Longrightarrow> i + 4 \<le> length b \<Longrightarrow> rd32 (wr32 b i v) j = rd32 b j"
  "j + 4 \<le> i \<or> i + 8 \<le> j \<Longrightarrow> i + 8 \<le> length b \<Longrightarrow> rd32 (wr64 b i v) j = rd32 b j"
  "j + 4 \<le> i \<or> i + 2 \<le> j \<Longrightarrow> i + 2 \<le> length b \<Longrightarrow> rd32 (wr16 b i v) j = rd32 b j"
  by (simp_all add: rd32_def)

lemma rd64_other [simp]:
  "j + 8 \<le> i \<or> i + 4 \<le> j \<Longrightarrow> i + 4 \<le> length b \<Longrightarrow> rd64 (wr32 b i v) j = rd64 b j"
  "j + 8 \<le> i \<or> i + 8 \<le> j \<Longrightarrow> i + 8 \<le> length b \<Longrightarrow> rd64 (wr64 b i v) j = rd64 b j"
  by (simp_all add: rd64_def)

lemma rd32_put_slice [simp]:
  "j + 4 \<le> i \<or> i + length xs \<le> j \<Longrightarrow> i + length xs \<le> length b \<Longrightarrow> rd32 (put_slice i xs b) j = rd32 b j"
  by (auto simp: rd32_def)

lemma drop4_wr32 [simp]: "4 \<le> length b \<Longrightarrow> drop 4 (wr32 b 0 v) = drop 4 b"
  by (simp add: wr32_def)

lemma length_magics [simp]:
  "length MAGIC = 4" "length JOURNAL_MAGIC = 4" "length DIR_MAGIC = 4" "length EXT_MAGIC = 4"
  by (simp_all add: MAGIC_def JOURNAL_MAGIC_def DIR_MAGIC_def EXT_MAGIC_def)

lemma unat_u32w [simp]: "unat (c :: u32w) mod 4294967296 = unat c"
proof -
  have "unat c < 2 ^ 32" using unsigned_less [of c] by simp
  then show ?thesis by simp
qed

subsection \<open>The geometry\<close>

text \<open>
  A geometry that \<open>geometry_compute\<close> accepts: the regions follow each other without overlap
  and leave room for at least four data blocks and the superblock copy; no narrowing cast
  loses anything.
\<close>

definition geo_ok :: "geometry \<Rightarrow> bool" where
  "geo_ok g \<longleftrightarrow> total_blocks g < 2 ^ 32 \<and> inode_count g < 2 ^ 32 \<and> 1 \<le> journal_blocks g \<and> journal_blocks g \<le> MAX_JOURNAL_BLOCKS \<and>
     INODES_PER_BLOCK \<le> inode_count g \<and> inode_count g mod INODES_PER_BLOCK = 0 \<and>
     jhdr g = 1 \<and> jpayload g = 2 \<and> bbitmap_start g = jpayload g + journal_blocks g \<and>
     bbitmap_blocks g = div_ceil (total_blocks g) BITS_PER_BITMAP_BLOCK \<and>
     ibitmap_start g = bbitmap_start g + bbitmap_blocks g \<and>
     ibitmap_blocks g = div_ceil (inode_count g) BITS_PER_BITMAP_BLOCK \<and>
     itable_start g = ibitmap_start g + ibitmap_blocks g \<and>
     itable_blocks g * INODES_PER_BLOCK = inode_count g \<and>
     data_start g = itable_start g + itable_blocks g \<and> data_start g + 5 \<le> total_blocks g"

lemma geometry_compute_ok:
  assumes "geometry_compute tot j n = Some g" and "tot < 2 ^ 32" and "n < 2 ^ 32"
  shows "geo_ok g" and "total_blocks g = tot" and "journal_blocks g = j" and "inode_count g = n"
proof -
  have fit: "2 + j + div_ceil tot BITS_PER_BITMAP_BLOCK + div_ceil n BITS_PER_BITMAP_BLOCK + n div INODES_PER_BLOCK + 5 \<le> tot"
    and j: "1 \<le> j" "j \<le> MAX_JOURNAL_BLOCKS" "INODES_PER_BLOCK \<le> n" "n mod INODES_PER_BLOCK = 0"
    using assms(1) by (auto simp: geometry_compute_def Let_def split: if_splits)
  have small: "as_u32 x = x" if "x \<le> tot" for x using that assms(2) by simp
  have g: "g = \<lparr>total_blocks = tot, journal_blocks = j, inode_count = n,
      jhdr = 1, jpayload = 2, bbitmap_start = 2 + j, bbitmap_blocks = div_ceil tot BITS_PER_BITMAP_BLOCK,
      ibitmap_start = 2 + j + div_ceil tot BITS_PER_BITMAP_BLOCK, ibitmap_blocks = div_ceil n BITS_PER_BITMAP_BLOCK,
      itable_start = 2 + j + div_ceil tot BITS_PER_BITMAP_BLOCK + div_ceil n BITS_PER_BITMAP_BLOCK,
      itable_blocks = n div INODES_PER_BLOCK,
      data_start = 2 + j + div_ceil tot BITS_PER_BITMAP_BLOCK + div_ceil n BITS_PER_BITMAP_BLOCK + n div INODES_PER_BLOCK\<rparr>"
    using assms(1) fit by (auto simp: geometry_compute_def Let_def small split: if_splits)
  have "n div INODES_PER_BLOCK * INODES_PER_BLOCK = n"
    using j(4) div_mult_mod_eq [of n INODES_PER_BLOCK] by simp
  then show "geo_ok g" using fit j assms(2,3) by (simp add: g geo_ok_def)
  show "total_blocks g = tot" "journal_blocks g = j" "inode_count g = n" by (simp_all add: g)
qed

lemma geo_ok_compute:
  assumes "geo_ok g"
  shows "geometry_compute (total_blocks g) (journal_blocks g) (inode_count g) = Some g"
proof -
  have it: "itable_blocks g = inode_count g div INODES_PER_BLOCK"
    using assms by (auto simp: geo_ok_def layout_consts)
  have small: "as_u32 x = x" if "x \<le> total_blocks g" for x using that assms by (simp add: geo_ok_def)
  have eqs: "jhdr g = 1" "jpayload g = 2" "bbitmap_start g = 2 + journal_blocks g"
    "bbitmap_blocks g = div_ceil (total_blocks g) BITS_PER_BITMAP_BLOCK"
    "ibitmap_start g = 2 + journal_blocks g + bbitmap_blocks g"
    "ibitmap_blocks g = div_ceil (inode_count g) BITS_PER_BITMAP_BLOCK"
    "itable_start g = 2 + journal_blocks g + bbitmap_blocks g + ibitmap_blocks g"
    "data_start g = 2 + journal_blocks g + bbitmap_blocks g + ibitmap_blocks g + itable_blocks g"
    "data_start g + 5 \<le> total_blocks g" "journal_blocks g \<noteq> 0" "\<not> MAX_JOURNAL_BLOCKS < journal_blocks g"
    "\<not> inode_count g < INODES_PER_BLOCK" "inode_count g mod INODES_PER_BLOCK = 0"
    using assms by (simp_all add: geo_ok_def)
  have smalls: "as_u32 2 = 2" "as_u32 (2 + journal_blocks g) = 2 + journal_blocks g"
    "as_u32 (bbitmap_blocks g) = bbitmap_blocks g" "as_u32 (ibitmap_blocks g) = ibitmap_blocks g"
    "as_u32 (2 + journal_blocks g + bbitmap_blocks g) = 2 + journal_blocks g + bbitmap_blocks g"
    "as_u32 (2 + journal_blocks g + bbitmap_blocks g + ibitmap_blocks g) = 2 + journal_blocks g + bbitmap_blocks g + ibitmap_blocks g"
    "as_u32 (itable_blocks g) = itable_blocks g"
    "as_u32 (2 + journal_blocks g + bbitmap_blocks g + ibitmap_blocks g + itable_blocks g) = data_start g"
    using eqs(8,9) by (simp_all add: small)
  have "\<not> total_blocks g < data_start g + 4 + 1" using eqs(9) by simp
  then show ?thesis
    unfolding geometry_compute_def Let_def eqs(4) [symmetric] eqs(6) [symmetric] it [symmetric]
    using eqs smalls by (cases g) simp
qed

text \<open>The superblock survives a round trip, and decoding accepts nothing but a consistent geometry.\<close>

definition sb_fields :: "superblock \<Rightarrow> (nat \<times> bytes) list" where
  "sb_fields sb = (let g = sb_geo sb in
     [(4, MAGIC), (8, le_bytes 4 VERSION), (12, le_bytes 4 (as_u32 BLOCK_SIZE)), (16, sb_uuid sb),
      (32, le_bytes 4 (total_blocks g)), (36, le_bytes 4 (journal_blocks g)), (40, le_bytes 4 (inode_count g)),
      (44, le_bytes 4 (bbitmap_start g)), (48, le_bytes 4 (bbitmap_blocks g)), (52, le_bytes 4 (ibitmap_start g)),
      (56, le_bytes 4 (ibitmap_blocks g)), (60, le_bytes 4 (itable_start g)), (64, le_bytes 4 (itable_blocks g)),
      (68, le_bytes 4 (data_start g)), (72, le_bytes 8 (sb_created sb))])"

lemma sb_fields_ok:
  assumes "length (sb_uuid sb) = 16"
  shows "fits 512 (sb_fields sb)" and "sorted_wrt apart (sb_fields sb)"
  using assms by (simp_all add: sb_fields_def Let_def apart_def)

theorem sb_roundtrip:
  assumes "geo_ok (sb_geo sb)" and "length (sb_uuid sb) = 16" and "sb_created sb < 2 ^ 64"
  shows "sb_decode (sb_encode sb) = Some sb" and "length (sb_encode sb) = SECTOR_SIZE"
proof -
  define g where "g = sb_geo sb"
  define b where "b = put_all (sb_fields sb) (replicate 512 0)"
  define e where "e = wr32 b 0 (unat (crc32 (drop 4 b)))"
  have enc: "sb_encode sb = e"
    by (simp add: sb_encode_def Let_def b_def e_def sb_fields_def wr32_def wr64_def)
  note ok = sb_fields_ok [OF assms(2)]
  have lb: "length b = 512" using length_put_all [of "replicate 512 0" "sb_fields sb"] ok(1) by (simp add: b_def)
  then have le: "length e = 512" by (simp add: e_def)
  then show "length (sb_encode sb) = SECTOR_SIZE" by (simp add: enc SECTOR_SIZE_def)
  have field: "get_slice i (length xs) b = xs" if "(i, xs) \<in> set (sb_fields sb)" for i xs
    unfolding b_def by (rule put_all_get) (use ok that in simp_all)
  have num: "le_nat (get_slice i k b) = v mod 256 ^ k" if "(i, le_bytes k v) \<in> set (sb_fields sb)" for i k v
    using field [OF that] by simp
  have fit: "total_blocks g < 2 ^ 32" "journal_blocks g < 2 ^ 32" "inode_count g < 2 ^ 32" "bbitmap_start g < 2 ^ 32"
    "bbitmap_blocks g < 2 ^ 32" "ibitmap_start g < 2 ^ 32" "ibitmap_blocks g < 2 ^ 32" "itable_start g < 2 ^ 32"
    "itable_blocks g < 2 ^ 32" "data_start g < 2 ^ 32"
    using assms(1) by (auto simp: geo_ok_def g_def layout_consts)
  have r32: "rd32 b i = v" if "(i, le_bytes 4 v) \<in> set (sb_fields sb)" "v < 2 ^ 32" for i v
    using num [OF that(1)] that(2) by (simp add: rd32_def)
  have mem: "(8, le_bytes 4 VERSION) \<in> set (sb_fields sb)" "(12, le_bytes 4 (as_u32 BLOCK_SIZE)) \<in> set (sb_fields sb)"
    "(32, le_bytes 4 (total_blocks g)) \<in> set (sb_fields sb)" "(36, le_bytes 4 (journal_blocks g)) \<in> set (sb_fields sb)"
    "(40, le_bytes 4 (inode_count g)) \<in> set (sb_fields sb)" "(44, le_bytes 4 (bbitmap_start g)) \<in> set (sb_fields sb)"
    "(48, le_bytes 4 (bbitmap_blocks g)) \<in> set (sb_fields sb)" "(52, le_bytes 4 (ibitmap_start g)) \<in> set (sb_fields sb)"
    "(56, le_bytes 4 (ibitmap_blocks g)) \<in> set (sb_fields sb)" "(60, le_bytes 4 (itable_start g)) \<in> set (sb_fields sb)"
    "(64, le_bytes 4 (itable_blocks g)) \<in> set (sb_fields sb)" "(68, le_bytes 4 (data_start g)) \<in> set (sb_fields sb)"
    by (simp_all add: sb_fields_def Let_def g_def)
  have ints: "rd32 b 8 = VERSION" "rd32 b 12 = as_u32 BLOCK_SIZE" "rd32 b 32 = total_blocks g" "rd32 b 36 = journal_blocks g"
    "rd32 b 40 = inode_count g" "rd32 b 44 = bbitmap_start g" "rd32 b 48 = bbitmap_blocks g" "rd32 b 52 = ibitmap_start g"
    "rd32 b 56 = ibitmap_blocks g" "rd32 b 60 = itable_start g" "rd32 b 64 = itable_blocks g" "rd32 b 68 = data_start g"
    using r32 [OF mem(1)] r32 [OF mem(2) as_u32_less] r32 [OF mem(3) fit(1)] r32 [OF mem(4) fit(2)] r32 [OF mem(5) fit(3)]
      r32 [OF mem(6) fit(4)] r32 [OF mem(7) fit(5)] r32 [OF mem(8) fit(6)] r32 [OF mem(9) fit(7)] r32 [OF mem(10) fit(8)]
      r32 [OF mem(11) fit(9)] r32 [OF mem(12) fit(10)] by (simp_all add: VERSION_def)
  have sl: "get_slice 4 4 b = MAGIC" "get_slice 16 16 b = sb_uuid sb" "rd64 b 72 = sb_created sb"
    using field [of 4 MAGIC] field [of 16 "sb_uuid sb"] num [of 72 8 "sb_created sb"] assms(2,3)
    by (simp_all add: sb_fields_def Let_def rd64_def)
  have "get_slice 4 508 e = drop 4 b" using lb by (simp add: e_def get_slice_def take_drop)
  then have crc: "rd32 e 0 = unat (crc32 (get_slice 4 508 e))" using lb by (simp add: e_def)
  have re: "rd32 e i = rd32 b i" if "4 \<le> i" for i using that lb by (simp add: e_def)
  have rest: "rd64 e 72 = rd64 b 72" "get_slice 4 4 e = get_slice 4 4 b" "get_slice 16 16 e = get_slice 16 16 b"
    using lb by (simp_all add: e_def)
  have gc: "geometry_compute (total_blocks g) (journal_blocks g) (inode_count g) = Some g"
    using geo_ok_compute assms(1) by (simp add: g_def)
  show "sb_decode (sb_encode sb) = Some sb"
    unfolding enc sb_decode_def using le crc by (simp add: re rest ints sl gc) (simp add: g_def)
qed

lemma sb_decode_ok:
  assumes "sb_decode b = Some sb"
  shows "geo_ok (sb_geo sb)"
proof -
  obtain g where g: "geometry_compute (rd32 b 32) (rd32 b 36) (rd32 b 40) = Some g" "sb_geo sb = g"
    using assms by (auto simp: sb_decode_def Let_def split: if_splits option.splits)
  then show ?thesis using geometry_compute_ok(1) [OF g(1) rd_less(2) rd_less(2)] by simp
qed

subsection \<open>The journal header\<close>

definition jh_fields :: "nat \<Rightarrow> nat list \<Rightarrow> (nat \<times> bytes) list" where
  "jh_fields seq targets = [(4, JOURNAL_MAGIC), (8, le_bytes 8 seq), (16, le_bytes 4 (as_u32 (length targets)))] @
     map (\<lambda>(i, t). (24 + 4 * i, le_bytes 4 t)) (zip [0..<length targets] targets)"

lemma jh_fields_ok:
  assumes "length targets \<le> MAX_JOURNAL_BLOCKS"
  shows "fits BLOCK_SIZE (jh_fields seq targets)" and "sorted_wrt apart (jh_fields seq targets)"
proof -
  show "fits BLOCK_SIZE (jh_fields seq targets)"
    using assms by (auto simp: jh_fields_def fits_def list_all_iff layout_consts set_zip)
  have "sorted_wrt apart (map (\<lambda>(i, t). (24 + 4 * i, le_bytes 4 t)) (zip [0..<length targets] targets))"
    by (auto simp: sorted_wrt_iff_nth_less apart_def)
  then show "sorted_wrt apart (jh_fields seq targets)"
    by (auto simp: jh_fields_def sorted_wrt_append apart_def)
qed

lemma put_targets_put_all:
  "put_targets targets h = put_all (map (\<lambda>(i, t). (24 + 4 * i, le_bytes 4 t)) (zip [0..<length targets] targets)) h"
proof -
  have "fold (\<lambda>(i, t) h. wr32 h (24 + 4 * i) t) xs h = put_all (map (\<lambda>(i, t). (24 + 4 * i, le_bytes 4 t)) xs) h" for xs h
    by (induction xs arbitrary: h) (auto simp: wr32_def)
  then show ?thesis by (simp add: put_targets_def)
qed

definition jh_body :: "nat \<Rightarrow> nat list \<Rightarrow> bytes" where
  "jh_body seq targets = put_all (jh_fields seq targets) (replicate BLOCK_SIZE 0)"

lemma put_all_append: "put_all (ws @ ws') b = put_all ws' (put_all ws b)"
  by (simp add: put_all_def)

lemma crc_fold: "fold (\<lambda>p c. crc_update c p) ps c = crc_update c (concat ps)"
proof (induction ps arbitrary: c)
  case Nil
  then show ?case by (simp add: crc_update.simps)
next
  case (Cons p ps)
  then show ?case by (simp add: crc_update_append)
qed

lemma build_journal_header_eq:
  "build_journal_header seq targets payload =
    wr32 (jh_body seq targets) 0
      (unat (crc_finalize (crc_update (crc_update crc_new (drop 4 (jh_body seq targets))) (concat payload))))"
  by (simp add: build_journal_header_def jh_body_def jh_fields_def Let_def put_all_append put_targets_put_all
      wr32_def wr64_def crc_fold)

lemma length_jh_body:
  "length targets \<le> MAX_JOURNAL_BLOCKS \<Longrightarrow> length (jh_body seq targets) = BLOCK_SIZE"
  using length_put_all [of "replicate BLOCK_SIZE 0" "jh_fields seq targets"] jh_fields_ok(1) [of targets seq]
  by (simp add: jh_body_def)

lemma length_journal_header [simp]:
  "length targets \<le> MAX_JOURNAL_BLOCKS \<Longrightarrow> length (build_journal_header seq targets payload) = BLOCK_SIZE"
  using length_jh_body [of targets seq] by (simp add: build_journal_header_eq BLOCK_SIZE_def)

lemma journal_header_crc:
  assumes "length targets \<le> MAX_JOURNAL_BLOCKS"
  shows "journal_crc_ok (build_journal_header seq targets payload) (concat payload)"
  using length_jh_body [OF assms, of seq]
  by (simp add: journal_crc_ok_def build_journal_header_eq BLOCK_SIZE_def)

theorem journal_header_roundtrip:
  assumes "length targets \<le> maxb" and "maxb \<le> MAX_JOURNAL_BLOCKS" and "seq < 2 ^ 64"
    and "\<And>t. t \<in> set targets \<Longrightarrow> t < 2 ^ 32"
  shows "parse_journal_header (build_journal_header seq targets payload) maxb = Some \<lparr>jh_seq = seq, jh_targets = targets\<rparr>"
proof -
  define n where "n = length targets"
  have nm: "n \<le> MAX_JOURNAL_BLOCKS" using assms(1,2) by (simp add: n_def)
  let ?b = "jh_body seq targets"
  note ok = jh_fields_ok [OF nm [unfolded n_def], of seq] and lb = length_jh_body [OF nm [unfolded n_def], of seq]
  have field: "get_slice i (length xs) ?b = xs" if "(i, xs) \<in> set (jh_fields seq targets)" for i xs
    unfolding jh_body_def by (rule put_all_get) (use ok that in simp_all)
  have num: "le_nat (get_slice i k ?b) = v mod 256 ^ k" if "(i, le_bytes k v) \<in> set (jh_fields seq targets)" for i k v
    using field [OF that] by simp
  let ?h = "build_journal_header seq targets payload"
  have sl: "get_slice j k ?h = get_slice j k ?b" if "4 \<le> j" for j k
    using lb that by (simp add: build_journal_header_eq BLOCK_SIZE_def)
  have magic: "get_slice 4 4 ?h = JOURNAL_MAGIC"
    using field [of 4 JOURNAL_MAGIC] sl [of 4 4] by (simp add: jh_fields_def)
  have s: "rd64 ?h 8 = seq" using num [of 8 8 seq] sl [of 8 8] assms(3) by (simp add: jh_fields_def rd64_def)
  have "n < 2 ^ 32" using nm by (simp add: layout_consts)
  then have cnt: "rd32 ?h 16 = n" using num [of 16 4 "as_u32 n"] sl [of 16 4] by (simp add: jh_fields_def rd32_def n_def)
  have tg: "rd32 ?h (24 + 4 * i) = targets ! i" if "i < n" for i
  proof -
    have "(i, targets ! i) \<in> set (zip [0..<length targets] targets)" using that by (auto simp: set_zip n_def intro!: exI [of _ i])
    then have "(24 + 4 * i, le_bytes 4 (targets ! i)) \<in> set (jh_fields seq targets)"
      by (force simp: jh_fields_def)
    then show ?thesis using num [of "24 + 4 * i" 4 "targets ! i"] sl [of "24 + 4 * i" 4] assms(4) that
      by (simp add: rd32_def n_def)
  qed
  have "map (\<lambda>i. rd32 ?h (24 + 4 * i)) [0..<n] = targets"
    by (rule nth_equalityI) (simp_all add: tg n_def)
  then show ?thesis using magic s cnt assms(1) by (simp add: parse_journal_header_def Let_def n_def)
qed

text \<open>
  A header with at most 122 targets lives in the first sector of its block; the other seven
  are zero, as they are in an empty header.  Writing it is therefore atomic.
\<close>

lemma header_tail_zero:
  assumes "24 + 4 * length targets \<le> SECTOR_SIZE" and "SECTOR_SIZE \<le> j" and "j + n \<le> BLOCK_SIZE"
  shows "get_slice j n (build_journal_header seq targets payload) = replicate n 0"
proof -
  have nm: "length targets \<le> MAX_JOURNAL_BLOCKS" using assms(1) by (simp add: layout_consts)
  note ok = jh_fields_ok [OF nm, of seq] and lb = length_jh_body [OF nm, of seq]
  have "get_slice j n (build_journal_header seq targets payload) = get_slice j n (jh_body seq targets)"
    using lb assms(2) by (simp add: build_journal_header_eq BLOCK_SIZE_def SECTOR_SIZE_def)
  also have "\<dots> = get_slice j n (replicate BLOCK_SIZE 0)"
    unfolding jh_body_def
  proof (rule put_all_other)
    fix w assume "w \<in> set (jh_fields seq targets)"
    then have "fst w + length (snd w) \<le> SECTOR_SIZE"
      using assms(1) by (auto simp: jh_fields_def SECTOR_SIZE_def set_zip)
    then show "j + n \<le> fst w \<or> fst w + length (snd w) \<le> j" using assms(2) by simp
  qed (use ok in simp)
  finally show ?thesis using assms(3) by simp
qed

subsection \<open>Properties\<close>

text \<open>
  C20: A geometry the format accepts lays the volume out in disjoint regions in order (superblock,
  journal record, journal payload, block bitmap, inode bitmap, inode table, data, backup
  superblock), with a bitmap bit for every block and every inode, a table slot for every inode and
  at least four data blocks, all below the number of blocks.
\<close>

theorem geometry_regions:
  assumes "geometry_compute tot j n = Some g" and "tot < 2 ^ 32" and "n < 2 ^ 32"
  shows "total_blocks g = tot \<and> journal_blocks g = j \<and> inode_count g = n \<and>
    0 < jhdr g \<and> jhdr g < jpayload g \<and> jpayload g + j = bbitmap_start g \<and>
    bbitmap_start g + bbitmap_blocks g = ibitmap_start g \<and> ibitmap_start g + ibitmap_blocks g = itable_start g \<and>
    itable_start g + itable_blocks g = data_start g \<and> data_start g + 4 \<le> backup_sb g \<and> backup_sb g < tot \<and>
    tot \<le> bbitmap_blocks g * BITS_PER_BITMAP_BLOCK \<and> n \<le> ibitmap_blocks g * BITS_PER_BITMAP_BLOCK \<and>
    n = itable_blocks g * INODES_PER_BLOCK"
  using geometry_compute_ok [OF assms] div_ceil_bounds(1) [of BITS_PER_BITMAP_BLOCK]
  by (auto simp: geo_ok_def backup_sb_def layout_consts)

theorem geometry_regions_witness:
  "\<exists>g. geometry_compute 2032 64 256 = Some g \<and> data_start g + 4 \<le> backup_sb g \<and> 2032 \<le> bbitmap_blocks g * BITS_PER_BITMAP_BLOCK"
proof -
  obtain g where "geometry_compute 2032 64 256 = Some g"
    by (simp add: geometry_compute_def layout_consts div_ceil_def BLOCK_SIZE_def)
  then show ?thesis using geometry_regions [of 2032 64 256 g] by simp
qed

text \<open>C21: A superblock is read back from its sector as it was written.\<close>

theorem superblock_roundtrip:
  assumes "geometry_compute tot j n = Some g" and "tot < 2 ^ 32" and "n < 2 ^ 32" and "length uuid = 16" and "created < 2 ^ 64"
  shows "sb_decode (sb_encode \<lparr>sb_uuid = uuid, sb_created = created, sb_geo = g\<rparr>) =
      Some \<lparr>sb_uuid = uuid, sb_created = created, sb_geo = g\<rparr> \<and>
    length (sb_encode \<lparr>sb_uuid = uuid, sb_created = created, sb_geo = g\<rparr>) = SECTOR_SIZE"
  using sb_roundtrip [of "\<lparr>sb_uuid = uuid, sb_created = created, sb_geo = g\<rparr>"] geometry_compute_ok(1) [OF assms(1-3)] assms(4,5)
  by simp

theorem superblock_roundtrip_witness:
  "\<exists>g. geometry_compute 2032 64 256 = Some g \<and>
    sb_decode (sb_encode \<lparr>sb_uuid = replicate 16 3, sb_created = 1700000000, sb_geo = g\<rparr>) =
      Some \<lparr>sb_uuid = replicate 16 3, sb_created = 1700000000, sb_geo = g\<rparr>"
proof -
  obtain g where "geometry_compute 2032 64 256 = Some g"
    by (simp add: geometry_compute_def layout_consts div_ceil_def BLOCK_SIZE_def)
  then show ?thesis using superblock_roundtrip [of 2032 64 256 g "replicate 16 3" 1700000000] by simp
qed

text \<open>
  C22: A commit record is one block, is read back with its sequence number and its targets, and its
  checksum accepts the payload it was built for.
\<close>

theorem journal_record_roundtrip:
  assumes "length targets \<le> maxb" and "maxb \<le> MAX_JOURNAL_BLOCKS" and "seq < 2 ^ 64"
    and "\<And>t. t \<in> set targets \<Longrightarrow> t < 2 ^ 32"
  shows "length (build_journal_header seq targets payload) = BLOCK_SIZE \<and>
    parse_journal_header (build_journal_header seq targets payload) maxb = Some \<lparr>jh_seq = seq, jh_targets = targets\<rparr> \<and>
    journal_crc_ok (build_journal_header seq targets payload) (concat payload)"
  using journal_header_roundtrip [OF assms] journal_header_crc [of targets] assms(1,2) by simp

theorem journal_record_roundtrip_witness:
  "parse_journal_header (build_journal_header 9 [70, 71] [replicate BLOCK_SIZE 1, replicate BLOCK_SIZE 2]) 64 =
    Some \<lparr>jh_seq = 9, jh_targets = [70, 71]\<rparr>"
  using journal_record_roundtrip [of "[70, 71]" 64 9 "[replicate BLOCK_SIZE 1, replicate BLOCK_SIZE 2]"]
  by (force simp: layout_consts BLOCK_SIZE_def)

end
