(* ===== verification/LruList.thy ===== *)
theory LruList
  imports BlockCache
begin

text \<open>
  The recency list of the block cache: the slots are threaded into a doubly linked list by
  index.  \<open>lru c xs\<close> says that the list is the sequence \<open>xs\<close>; unlinking, pushing and touching
  are removal, consing and move-to-front on that sequence, and leave everything but the
  links alone (\<open>same_core\<close>).
\<close>

subsection \<open>The recency list\<close>

definition hd_or :: "'a \<Rightarrow> 'a list \<Rightarrow> 'a" where
  "hd_or d xs = (case xs of [] \<Rightarrow> d | x # _ \<Rightarrow> x)"

definition last_or :: "'a \<Rightarrow> 'a list \<Rightarrow> 'a" where
  "last_or d xs = (if xs = [] then d else last xs)"

lemma hd_or_simps [simp]: "hd_or d [] = d" "hd_or d (x # xs) = x"
  by (simp_all add: hd_or_def)

lemma last_or_simps [simp]: "last_or d [] = d" "last_or d (xs @ [x]) = x"
  by (simp_all add: last_or_def)

lemma last_or_Cons [simp]: "last_or d (x # xs) = last_or x xs"
  by (simp add: last_or_def)

lemma last_or_append [simp]: "last_or d (xs @ ys) = last_or (last_or d xs) ys"
  by (simp add: last_or_def)

lemma hd_or_append [simp]: "hd_or d (xs @ ys) = hd_or (hd_or d ys) xs"
  by (cases xs) simp_all

text \<open>\<open>dls ss p xs n\<close>: the slots \<open>xs\<close> are chained in order, entered from \<open>p\<close>, left to \<open>n\<close>.\<close>

fun dls :: "slot list \<Rightarrow> nat \<Rightarrow> nat list \<Rightarrow> nat \<Rightarrow> bool" where
  "dls ss p [] n = True"
| "dls ss p (i # xs) n \<longleftrightarrow>
     i < length ss \<and> s_prev (ss ! i) = p \<and> s_next (ss ! i) = hd_or n xs \<and> dls ss i xs n"

lemma dls_append:
  "dls ss p (xs @ ys) n \<longleftrightarrow> dls ss p xs (hd_or n ys) \<and> dls ss (last_or p xs) ys n"
  by (induction xs arbitrary: p) auto

lemma dls_cong:
  assumes "length ss' = length ss"
    and "\<And>i. i \<in> set xs \<Longrightarrow> s_prev (ss' ! i) = s_prev (ss ! i) \<and> s_next (ss' ! i) = s_next (ss ! i)"
  shows "dls ss' p xs n = dls ss p xs n"
  using assms by (induction xs arbitrary: p) auto

lemma dls_update_other [simp]: "q \<notin> set xs \<Longrightarrow> dls (ss[q := x]) p xs n = dls ss p xs n"
  by (rule dls_cong) (auto, (metis nth_list_update_neq)+)

lemma dls_in: "dls ss p xs n \<Longrightarrow> i \<in> set xs \<Longrightarrow> i < length ss"
  by (induction xs arbitrary: p) auto

lemma dls_grow: "dls ss p xs n \<Longrightarrow> dls (ss @ ts) p xs n"
  by (induction xs arbitrary: p) (auto simp: nth_append)

lemma dls_set_next:
  assumes "dls ss p (xs @ [q]) n" and "q \<notin> set xs"
  shows "dls (ss[q := (ss ! q)\<lparr>s_next := n'\<rparr>]) p (xs @ [q]) n'"
  using assms by (auto simp: dls_append)

lemma dls_set_prev:
  assumes "dls ss p (q # xs) n" and "q \<notin> set xs"
  shows "dls (ss[q := (ss ! q)\<lparr>s_prev := p'\<rparr>]) p' (q # xs) n"
  using assms by auto

definition lru :: "'d block_cache \<Rightarrow> nat list \<Rightarrow> bool" where
  "lru c xs \<longleftrightarrow> distinct xs \<and> length (slots c) \<le> NIL \<and> dls (slots c) NIL xs NIL \<and>
     bc_head c = hd_or NIL xs \<and> bc_tail c = last_or NIL xs"

lemma lru_in: "lru c xs \<Longrightarrow> i \<in> set xs \<Longrightarrow> i < length (slots c) \<and> i \<noteq> NIL"
  by (fastforce simp: lru_def dest: dls_in)

lemma upd_slot_sel [simp]:
  "slots (upd_slot i f c) = (slots c)[i := f (slots c ! i)]" "bc_head (upd_slot i f c) = bc_head c"
  "bc_tail (upd_slot i f c) = bc_tail c" "bc_dev (upd_slot i f c) = bc_dev c"
  "base_lba (upd_slot i f c) = base_lba c" "nblocks (upd_slot i f c) = nblocks c"
  "capacity (upd_slot i f c) = capacity c" "bc_free (upd_slot i f c) = bc_free c"
  "bc_map (upd_slot i f c) = bc_map c" "dev_dirty (upd_slot i f c) = dev_dirty c"
  "stats (upd_slot i f c) = stats c"
  by (simp_all add: upd_slot_def)

lemma bump_sel [simp]:
  "slots (bump f c) = slots c" "bc_head (bump f c) = bc_head c"
  "bc_tail (bump f c) = bc_tail c" "bc_dev (bump f c) = bc_dev c"
  "base_lba (bump f c) = base_lba c" "nblocks (bump f c) = nblocks c"
  "capacity (bump f c) = capacity c" "bc_free (bump f c) = bc_free c"
  "bc_map (bump f c) = bc_map c" "dev_dirty (bump f c) = dev_dirty c"
  by (simp_all add: bump_def)

text \<open>The part of a slot the list operations leave alone.\<close>

definition core :: "slot \<Rightarrow> nat \<times> bytes \<times> bool \<times> nat" where
  "core s = (s_blk s, s_data s, s_dirty s, s_tag s)"

lemma core_simps [simp]:
  "core (s\<lparr>s_next := x\<rparr>) = core s" "core (s\<lparr>s_prev := x\<rparr>) = core s"
  "core (s\<lparr>s_prev := x, s_next := y\<rparr>) = core s"
  by (simp_all add: core_def)

lemma map_core_update: "core x = core (ss ! i) \<Longrightarrow> map core (ss[i := x]) = map core ss"
  by (metis list_update_id map_update)

text \<open>Everything of a cache but the order of its recency list and its counters.\<close>

definition same_core :: "'d block_cache \<Rightarrow> 'd block_cache \<Rightarrow> bool" where
  "same_core c c' \<longleftrightarrow> map core (slots c') = map core (slots c) \<and> bc_dev c' = bc_dev c \<and>
     base_lba c' = base_lba c \<and> nblocks c' = nblocks c \<and> capacity c' = capacity c \<and>
     bc_free c' = bc_free c \<and> bc_map c' = bc_map c \<and> dev_dirty c' = dev_dirty c"

lemma same_core_refl [simp]: "same_core c c"
  by (simp add: same_core_def)

lemma same_core_trans: "same_core a b \<Longrightarrow> same_core b c \<Longrightarrow> same_core a c"
  by (simp add: same_core_def)

lemma same_core_unlink: "same_core c (unlink i c)"
  by (simp add: same_core_def unlink_def Let_def map_core_update)

lemma same_core_push_front: "same_core c (push_front i c)"
  by (simp add: same_core_def push_front_def Let_def map_core_update)

lemma same_core_touch: "same_core c (touch i c)"
  by (simp add: touch_def same_core_trans [OF same_core_unlink same_core_push_front])

lemma same_core_bump: "same_core c (bump f c)"
  by (simp add: same_core_def)

text \<open>Unlinking removes a slot from the sequence, wherever it is.\<close>

lemma lru_unlink:
  assumes "lru c (as @ i # bs)"
  shows "lru (unlink i c) (as @ bs)"
proof -
  let ?ss = "slots c"
  have d: "distinct (as @ i # bs)" and len: "length ?ss \<le> NIL"
    and dl: "dls ?ss NIL as i" "s_prev (?ss ! i) = last_or NIL as" "s_next (?ss ! i) = hd_or NIL bs"
      "dls ?ss i bs NIL" "i < length ?ss"
    and ht: "bc_head c = hd_or i as" "bc_tail c = last_or i bs"
    using assms by (auto simp: lru_def dls_append)
  have ne: "j \<noteq> NIL" if "j \<in> set as \<union> set bs" for j
    using that dls_in [OF dl(1)] dls_in [OF dl(4)] len by (auto simp: not_le [symmetric])
  let ?c1 = "if last_or NIL as \<noteq> NIL then upd_slot (last_or NIL as) (\<lambda>s. s\<lparr>s_next := hd_or NIL bs\<rparr>) c
    else c\<lparr>bc_head := hd_or NIL bs\<rparr>"
  have one: "dls (slots ?c1) NIL as (hd_or NIL bs) \<and> dls (slots ?c1) i bs NIL \<and>
      length (slots ?c1) = length ?ss \<and> bc_head ?c1 = hd_or NIL (as @ bs) \<and> bc_tail ?c1 = bc_tail c"
  proof (cases as rule: rev_cases)
    case Nil
    then show ?thesis using dl by simp
  next
    case (snoc as' q)
    then have q: "q \<noteq> NIL" using ne by simp
    have "dls (slots ?c1) i bs NIL = dls ?ss i bs NIL"
      using d snoc q by simp
    then show ?thesis
      using dl dls_set_next [of ?ss NIL as' q i "hd_or NIL bs"] d snoc q ht by simp
  qed
  let ?c2 = "if hd_or NIL bs \<noteq> NIL then upd_slot (hd_or NIL bs) (\<lambda>s. s\<lparr>s_prev := last_or NIL as\<rparr>) ?c1
    else ?c1\<lparr>bc_tail := last_or NIL as\<rparr>"
  have two: "dls (slots ?c2) NIL as (hd_or NIL bs) \<and> dls (slots ?c2) (last_or NIL as) bs NIL \<and>
      length (slots ?c2) = length ?ss \<and> bc_head ?c2 = hd_or NIL (as @ bs) \<and>
      bc_tail ?c2 = last_or NIL (as @ bs)"
  proof (cases bs)
    case Nil
    then show ?thesis using one by simp
  next
    case (Cons q bs')
    then have q: "q \<noteq> NIL" using ne by simp
    have "dls (slots ?c2) NIL as q = dls (slots ?c1) NIL as q"
      using d Cons q by simp
    then show ?thesis
      using one dls_set_prev [of "slots ?c1" i q bs' NIL "last_or NIL as"] d Cons q ht by simp
  qed
  have un: "unlink i c = upd_slot i (\<lambda>s. s\<lparr>s_prev := NIL, s_next := NIL\<rparr>) ?c2"
    by (simp add: unlink_def Let_def dl)
  have "dls (slots (unlink i c)) NIL (as @ bs) NIL = dls (slots ?c2) NIL (as @ bs) NIL"
    unfolding un using d by simp
  then show ?thesis
    using two d len unfolding lru_def by (auto simp: un dls_append)
qed

text \<open>Pushing puts a slot that is in no list at the front.\<close>

lemma lru_push_front:
  assumes "lru c xs" and "i \<notin> set xs" and "i < length (slots c)"
  shows "lru (push_front i c) (i # xs)"
proof -
  let ?c1 = "upd_slot i (\<lambda>s. s\<lparr>s_prev := NIL, s_next := bc_head c\<rparr>) c"
  have l: "distinct xs" "length (slots c) \<le> NIL" "dls (slots c) NIL xs NIL"
    "bc_head c = hd_or NIL xs" "bc_tail c = last_or NIL xs"
    using assms(1) by (auto simp: lru_def)
  have one: "dls (slots ?c1) NIL xs NIL"
    using l(3) assms(2) by simp
  show ?thesis
  proof (cases xs)
    case Nil
    then show ?thesis using l assms(3) by (simp add: lru_def push_front_def Let_def)
  next
    case (Cons q xs')
    then have "q \<noteq> NIL" using lru_in [OF assms(1)] by simp
    then have pf: "push_front i c = (upd_slot q (\<lambda>s. s\<lparr>s_prev := i\<rparr>) ?c1)\<lparr>bc_head := i\<rparr>"
      using l Cons by (simp add: push_front_def Let_def)
    have "i \<noteq> q" using assms(2) Cons by auto
    then show ?thesis
      using dls_set_prev [of "slots ?c1" NIL q xs' NIL i] one l Cons assms(2,3)
      by (simp add: pf lru_def)
  qed
qed

lemma lru_touch:
  assumes "lru c xs" and "i \<in> set xs"
  shows "lru (touch i c) (i # remove1 i xs)"
proof (cases "bc_head c = i")
  case True
  then have "xs = i # tl xs"
    using assms lru_in [OF assms] by (cases xs) (auto simp: lru_def)
  then have "i # remove1 i xs = xs" by (metis remove1.simps(2))
  then show ?thesis using assms True by (simp add: touch_def)
next
  case False
  obtain as bs where xs: "xs = as @ i # bs" and "i \<notin> set as"
    using split_list_first [OF assms(2)] by blast
  then have r: "remove1 i xs = as @ bs" by (simp add: remove1_append)
  have "i \<notin> set (as @ bs)" using assms(1) xs by (auto simp: lru_def)
  moreover have "length (slots (unlink i c)) = length (slots c)"
    using same_core_unlink [of c i] by (metis length_map same_core_def)
  ultimately show ?thesis
    using lru_push_front [OF lru_unlink [OF assms(1) [unfolded xs]]] lru_in [OF assms] False r
    by (simp add: touch_def)
qed

end
