(* ===== verification/CacheInv.thy ===== *)
theory CacheInv
  imports LruList
begin

text \<open>
  Correctness of the block cache (\<^verbatim>\<open>BlockCache.thy\<close>).  \<open>cinv\<close> is the cache's
  invariant, over any device that keeps the trait's contract; \<open>view\<close> is the array of
  blocks the cache presents; \<open>cposs\<close> is what a power cut may leave of each sector, whether
  or not dirty blocks have been written back by then.  Every operation keeps the invariant,
  on success and on failure, and changes \<open>view\<close> and \<open>cposs\<close> only as its documentation says.
\<close>

subsection \<open>The invariant and the view\<close>

text \<open>
  \<open>m\<close> is what the device holds, sector by sector: what that is for a block, and what the
  cache presents for the block.
\<close>

definition devblk :: "(nat \<Rightarrow> bytes) \<Rightarrow> 'd block_cache \<Rightarrow> nat \<Rightarrow> bytes" where
  "devblk m c b = concat (map m [lba_of c b..<lba_of c b + SECTORS_PER_BLOCK])"

definition view :: "(nat \<Rightarrow> bytes) \<Rightarrow> 'd block_cache \<Rightarrow> nat \<Rightarrow> bytes" where
  "view m c b = (case bt_get (bc_map c) b of Some i \<Rightarrow> s_data (slots c ! i) | None \<Rightarrow> devblk m c b)"

text \<open>What a power cut may leave in a sector if the dirty blocks are written back first or not.\<close>

definition dirtyw :: "'d block_cache \<Rightarrow> nat \<Rightarrow> bytes set" where
  "dirtyw c i = {x. \<exists>b s. bt_get (bc_map c) b = Some s \<and> s_dirty (slots c ! s) \<and>
     x \<in> sec_new (lba_of c b) (s_data (slots c ! s)) i}"

definition cposs :: "('d \<Rightarrow> nat \<Rightarrow> bytes set) \<Rightarrow> 'd block_cache \<Rightarrow> nat \<Rightarrow> bytes set" where
  "cposs poss c i = poss (bc_dev c) i \<union> dirtyw c i"

definition geo :: "'d block_cache \<Rightarrow> nat \<times> nat \<times> nat" where
  "geo c = (base_lba c, nblocks c, capacity c)"

text \<open>
  \<open>S\<close> is the set of slots in the recency list, \<open>H\<close> the slots taken from the cache by an
  operation in progress and not yet back.  The part that does not depend on the list's
  order:
\<close>

definition cbody :: "'d blockdevice \<Rightarrow> ('d \<Rightarrow> (nat \<Rightarrow> bytes) \<Rightarrow> bool) \<Rightarrow>
    'd block_cache \<Rightarrow> (nat \<Rightarrow> bytes) \<Rightarrow> nat set \<Rightarrow> nat set \<Rightarrow> bool" where
  "cbody dev holds c m S H \<longleftrightarrow>
     holds (bc_dev c) m \<and> lba_of c (nblocks c) \<le> sector_count dev (bc_dev c) \<and>
     length (slots c) \<le> capacity c \<and> 1 \<le> capacity c \<and> capacity c < NIL \<and>
     bt_inv (bc_map c) \<and> distinct (bc_free c) \<and>
     S \<inter> set (bc_free c) = {} \<and> S \<inter> H = {} \<and> set (bc_free c) \<inter> H = {} \<and>
     S \<union> set (bc_free c) \<union> H = {..<length (slots c)} \<and>
     (\<forall>b i. bt_get (bc_map c) b = Some i \<longleftrightarrow> i \<in> S \<and> s_blk (slots c ! i) = b) \<and>
     (\<forall>i < length (slots c). length (s_data (slots c ! i)) = BLOCK_SIZE) \<and>
     (\<forall>i \<in> S. s_blk (slots c ! i) < nblocks c \<and>
        (\<not> s_dirty (slots c ! i) \<longrightarrow> s_data (slots c ! i) = devblk m c (s_blk (slots c ! i))))"

definition cinv :: "'d blockdevice \<Rightarrow> ('d \<Rightarrow> (nat \<Rightarrow> bytes) \<Rightarrow> bool) \<Rightarrow>
    'd block_cache \<Rightarrow> (nat \<Rightarrow> bytes) \<Rightarrow> nat list \<Rightarrow> nat set \<Rightarrow> bool" where
  "cinv dev holds c m xs H \<longleftrightarrow> lru c xs \<and> cbody dev holds c m (set xs) H"

lemma nth_core: "map core ss = map core ss' \<Longrightarrow> i < length ss \<Longrightarrow>
    s_blk (ss ! i) = s_blk (ss' ! i) \<and> s_data (ss ! i) = s_data (ss' ! i) \<and>
    s_dirty (ss ! i) = s_dirty (ss' ! i) \<and> s_tag (ss ! i) = s_tag (ss' ! i)"
proof -
  assume "map core ss = map core ss'" "i < length ss"
  then have "core (ss ! i) = core (ss' ! i)" by (metis length_map nth_map)
  then show ?thesis by (simp add: core_def)
qed

lemma same_core_lba: "same_core c c' \<Longrightarrow> lba_of c' b = lba_of c b"
  by (simp add: same_core_def lba_of_def)

lemma same_core_devblk: "same_core c c' \<Longrightarrow> devblk m c' b = devblk m c b"
  by (simp add: same_core_def devblk_def lba_of_def)

lemma same_core_length: "same_core c c' \<Longrightarrow> length (slots c') = length (slots c)"
  by (metis length_map same_core_def)

lemma cbody_same_core:
  assumes "same_core c c'" and "cbody dev holds c m S H"
  shows "cbody dev holds c' m S H"
proof -
  have "S \<subseteq> {..<length (slots c)}" using assms(2) by (auto simp: cbody_def)
  then have nth: "i \<in> S \<or> i < length (slots c) \<Longrightarrow> s_blk (slots c' ! i) = s_blk (slots c ! i) \<and>
      s_data (slots c' ! i) = s_data (slots c ! i) \<and> s_dirty (slots c' ! i) = s_dirty (slots c ! i)" for i
    using nth_core [of "slots c'" "slots c" i] same_core_length [OF assms(1)] assms(1)
    by (auto simp: same_core_def)
  have other: "bc_dev c' = bc_dev c" "nblocks c' = nblocks c" "capacity c' = capacity c"
    "bc_free c' = bc_free c" "bc_map c' = bc_map c"
    using assms(1) by (simp_all add: same_core_def)
  show ?thesis
    using assms(2) nth same_core_lba [OF assms(1)] same_core_devblk [OF assms(1)]
      same_core_length [OF assms(1)]
    unfolding cbody_def other by auto
qed

lemma view_same_core:
  assumes "same_core c c'" and "cbody dev holds c m S H"
  shows "view m c' = view m c"
proof (rule ext)
  fix b
  have "i < length (slots c)" if "bt_get (bc_map c) b = Some i" for i
    using assms(2) that by (auto simp: cbody_def)
  then show "view m c' b = view m c b"
    using assms(1) nth_core [of "slots c'" "slots c"] same_core_length [OF assms(1)] same_core_devblk [OF assms(1)]
    by (auto simp: view_def same_core_def split: option.splits)
qed

lemma view_eqI:
  assumes "bc_map c' = bc_map c"
    and "\<And>b i. bt_get (bc_map c) b = Some i \<Longrightarrow> s_data (slots c' ! i) = s_data (slots c ! i)"
    and "\<And>b. bt_get (bc_map c) b = None \<Longrightarrow> devblk m' c' b = devblk m c b"
  shows "view m' c' = view m c"
  using assms by (auto simp: view_def fun_eq_iff split: option.split)

lemma devblk_cong:
  "bc_dev c' = bc_dev c \<Longrightarrow> base_lba c' = base_lba c \<Longrightarrow> devblk m c' = devblk m c"
  by (simp add: devblk_def [abs_def] lba_of_def)

lemma cbody_map:
  "cbody dev holds c m S H \<Longrightarrow> bt_get (bc_map c) b = Some i \<longleftrightarrow> i \<in> S \<and> s_blk (slots c ! i) = b"
  by (auto simp: cbody_def)

lemma cbody_slot:
  "cbody dev holds c m S H \<Longrightarrow> i \<in> S \<Longrightarrow> i < length (slots c)"
  by (auto simp: cbody_def)

lemma cbody_unique:
  "cbody dev holds c m S H \<Longrightarrow> i \<in> S \<Longrightarrow> j \<in> S \<Longrightarrow> s_blk (slots c ! i) = s_blk (slots c ! j) \<Longrightarrow> i = j"
  by (metis cbody_map option.inject)

text \<open>Touching a cached block only reorders the list.\<close>

lemma cinv_touch:
  assumes "cinv dev holds c m xs H" and "i \<in> set xs"
  shows "cinv dev holds (touch i c) m (i # remove1 i xs) H" and "view m (touch i c) = view m c"
proof -
  have "set (i # remove1 i xs) = set xs"
    using assms by (auto simp: cinv_def lru_def set_remove1_eq)
  then show "cinv dev holds (touch i c) m (i # remove1 i xs) H"
    using assms lru_touch cbody_same_core [OF same_core_touch] by (auto simp: cinv_def)
  show "view m (touch i c) = view m c"
    using assms view_same_core [OF same_core_touch] by (auto simp: cinv_def)
qed

lemma lru_cong:
  assumes "lru c xs" and "length (slots c') = length (slots c)" and "bc_head c' = bc_head c" and "bc_tail c' = bc_tail c"
    and "\<And>i. i \<in> set xs \<Longrightarrow> s_prev (slots c' ! i) = s_prev (slots c ! i) \<and> s_next (slots c' ! i) = s_next (slots c ! i)"
  shows "lru c' xs"
  using assms dls_cong [of "slots c'" "slots c" xs NIL NIL] by (auto simp: lru_def)

lemma cinv_bump [simp]: "cinv dev holds (bump f c) m xs H = cinv dev holds c m xs H"
  by (simp add: cinv_def lru_def cbody_def devblk_def lba_of_def)

lemma view_bump [simp]: "view m (bump f c) = view m c"
  by (rule ext) (simp add: view_def devblk_def lba_of_def split: option.split)

subsection \<open>Writing blocks to the device\<close>

lemma block_sizes: "BLOCK_SIZE = SECTORS_PER_BLOCK * SECTOR_SIZE" "0 < SECTORS_PER_BLOCK" "0 < SECTOR_SIZE"
    "0 < BLOCK_SIZE"
  by (simp_all add: BLOCK_SIZE_def SECTORS_PER_BLOCK_def SECTOR_SIZE_def)

lemma lba_of_dev [simp]: "lba_of (c\<lparr>bc_dev := d\<rparr>) b = lba_of c b"
  by (simp add: lba_of_def)

lemma lba_of_add: "lba_of c (b + k) = lba_of c b + k * SECTORS_PER_BLOCK"
  by (simp add: lba_of_def add_mult_distrib)

lemma lba_of_mono: "a \<le> b \<Longrightarrow> lba_of c a \<le> lba_of c b"
  by (simp add: lba_of_def)

lemma lba_of_gap: "a < b \<Longrightarrow> lba_of c a + SECTORS_PER_BLOCK \<le> lba_of c b"
  using lba_of_mono [of "Suc a" b c] lba_of_add [of c a 1] by simp

lemma nsec_blocks: "length data = n * BLOCK_SIZE \<Longrightarrow> nsec data = n * SECTORS_PER_BLOCK"
  by (simp add: block_sizes(1) SECTOR_SIZE_def)

text \<open>A run of \<open>n\<close> blocks written from block \<open>b\<close>: block by block.\<close>

lemma sec_update_block:
  assumes "length data = n * BLOCK_SIZE" and "k < n"
  shows "concat (map (sec_update f (lba_of c b) data)
      [lba_of c (b + k)..<lba_of c (b + k) + SECTORS_PER_BLOCK]) = get_slice (k * BLOCK_SIZE) BLOCK_SIZE data"
proof -
  let ?l = "lba_of c b" and ?spb = SECTORS_PER_BLOCK and ?d = "drop (k * BLOCK_SIZE) data"
  have kn: "(k + 1) * ?spb \<le> n * ?spb" using assms(2) by (intro mult_le_mono1) simp
  have "map (sec_update f ?l data) [lba_of c (b + k)..<lba_of c (b + k) + ?spb] =
      map (\<lambda>i. get_slice (i * SECTOR_SIZE) SECTOR_SIZE ?d) [0..<?spb]"
  proof (rule nth_equalityI)
    fix j assume "j < length (map (sec_update f ?l data) [lba_of c (b + k)..<lba_of c (b + k) + ?spb])"
    then have j: "j < ?spb" by simp
    then have "k * ?spb + j < n * ?spb" using kn by simp
    then have "sec_update f ?l data (?l + k * ?spb + j) = get_slice ((k * ?spb + j) * SECTOR_SIZE) SECTOR_SIZE data"
      by (simp add: sec_update_def nsec_blocks [OF assms(1)])
    then show "map (sec_update f ?l data) [lba_of c (b + k)..<lba_of c (b + k) + ?spb] ! j =
        map (\<lambda>i. get_slice (i * SECTOR_SIZE) SECTOR_SIZE ?d) [0..<?spb] ! j"
      using j by (simp add: lba_of_add get_slice_drop block_sizes(1) algebra_simps)
  qed simp
  then have "concat (map (sec_update f ?l data) [lba_of c (b + k)..<lba_of c (b + k) + ?spb]) = take (?spb * SECTOR_SIZE) ?d"
    by (simp only: concat_slices)
  then show ?thesis by (simp add: get_slice_def block_sizes(1))
qed

lemma dirtyw_mono:
  assumes "lba_of c' = lba_of c"
    and "\<And>b s. bt_get (bc_map c') b = Some s \<Longrightarrow> s_dirty (slots c' ! s) \<Longrightarrow>
      bt_get (bc_map c) b = Some s \<and> s_dirty (slots c ! s) \<and> s_data (slots c' ! s) = s_data (slots c ! s)"
  shows "dirtyw c' i \<subseteq> dirtyw c i"
  using assms by (fastforce simp: dirtyw_def)

lemma dirtyw_same_core:
  assumes "same_core c c'" and "cbody dev holds c m S H"
  shows "dirtyw c' = dirtyw c"
proof -
  have nth: "bt_get (bc_map c) b = Some s \<Longrightarrow> s_data (slots c' ! s) = s_data (slots c ! s) \<and>
      s_dirty (slots c' ! s) = s_dirty (slots c ! s)" for b s
    using nth_core [of "slots c'" "slots c" s] same_core_length [OF assms(1)] assms(1)
      cbody_map [OF assms(2), of b s] cbody_slot [OF assms(2), of s] by (simp add: same_core_def)
  have "bc_map c' = bc_map c" "lba_of c' = lba_of c"
    using assms(1) by (auto simp: same_core_def lba_of_def fun_eq_iff)
  then have "dirtyw c' i = dirtyw c i" for i
    using dirtyw_mono [of c' c i] dirtyw_mono [of c c' i] nth by (metis subset_antisym)
  then show ?thesis by blast
qed

lemma cposs_same_core:
  "same_core c c' \<Longrightarrow> cbody dev holds c m S H \<Longrightarrow> cposs poss c' = cposs poss c"
  using dirtyw_same_core [of c c' dev holds m S H] by (simp add: cposs_def [abs_def] same_core_def)

lemma dirtyw_mem:
  "bt_get (bc_map c) b = Some s \<Longrightarrow> s_dirty (slots c ! s) \<Longrightarrow>
    sec_new (lba_of c b) (s_data (slots c ! s)) i \<subseteq> dirtyw c i"
  by (auto simp: dirtyw_def)

lemma geo_simps [simp]: "geo (bump f c) = geo c" "geo (upd_slot i g c) = geo c"
  by (simp_all add: geo_def)

lemma geo_same_core: "same_core c c' \<Longrightarrow> geo c' = geo c"
  by (simp add: same_core_def geo_def)

lemma geo_lba: "geo c' = geo c \<Longrightarrow> lba_of c' = lba_of c"
  by (simp add: geo_def lba_of_def fun_eq_iff)

lemma cposs_bump [simp]: "cposs poss (bump f c) = cposs poss c"
  by (simp add: cposs_def [abs_def] dirtyw_def [abs_def] lba_of_def)

lemma cinv_lookup:
  assumes "cinv dev holds c m xs H" and "lookup blk c = (r, c')"
  shows "\<exists>xs'. cinv dev holds c' m xs' H \<and> view m c' = view m c \<and> bc_dev c' = bc_dev c \<and>
    geo c' = geo c \<and> (\<forall>k. cposs poss c' k = cposs poss c k) \<and> bc_map c' = bc_map c \<and>
    r = bt_get (bc_map c) blk \<and>
    (\<forall>i. r = Some i \<longrightarrow> i \<in> set xs' \<and> s_data (slots c' ! i) = view m c blk)"
proof (cases "bt_get (bc_map c) blk")
  case None
  then show ?thesis using assms by (auto simp: lookup_def)
next
  case (Some i)
  then have i: "i \<in> set xs" using assms(1) by (auto simp: cinv_def cbody_def)
  have c': "c' = bump (\<lambda>s. s\<lparr>hits := hits s + 1\<rparr>) (touch i c)" "r = Some i"
    using assms(2) Some by (simp_all add: lookup_def)
  note t = cinv_touch [OF assms(1) i]
  have "s_data (slots c' ! i) = view m c' blk"
    using Some same_core_touch [of c i] by (simp add: c' view_def same_core_def)
  moreover have "cposs poss (touch i c) = cposs poss c"
    using assms(1) cposs_same_core [OF same_core_touch] by (auto simp: cinv_def)
  ultimately show ?thesis
    using t Some same_core_touch [of c i] geo_same_core [OF same_core_touch, of i c]
    by (auto simp: c' same_core_def intro!: exI [of _ "i # remove1 i xs"])
qed

context block_device
begin

lemma devblk_length:
  assumes "holds (bc_dev c) m" and "lba_of c (nblocks c) \<le> sector_count dev (bc_dev c)" and "b < nblocks c"
  shows "length (devblk m c b) = BLOCK_SIZE"
  using length_concat_sec [OF assms(1), of "lba_of c b" SECTORS_PER_BLOCK] lba_of_gap [OF assms(3), of c] assms(2)
  by (simp add: devblk_def block_sizes(1))

lemma view_length:
  assumes "cinv dev holds c m xs H" and "b < nblocks c"
  shows "length (view m c b) = BLOCK_SIZE"
proof (cases "bt_get (bc_map c) b")
  case None
  then show ?thesis
    using devblk_length [of c m b] assms by (simp add: view_def cinv_def cbody_def)
next
  case (Some i)
  then have "i < length (slots c)"
    using assms(1) cbody_map [of dev holds c m "set xs" H b i] cbody_slot [of dev holds c m "set xs" H i]
    by (simp add: cinv_def)
  then have "length (s_data (slots c ! i)) = BLOCK_SIZE" using assms(1) by (simp add: cinv_def cbody_def)
  then show ?thesis using Some by (simp add: view_def)
qed

lemma devblk_write:
  assumes "holds (bc_dev c) m" and "length data = n * BLOCK_SIZE"
    and "write_sectors dev (bc_dev c) (lba_of c b) data = (r, d)"
  shows "\<exists>m'. holds d m' \<and> sector_count dev d = sector_count dev (bc_dev c) \<and>
    (\<forall>b'. b' < b \<or> b + n \<le> b' \<longrightarrow> devblk m' c b' = devblk m c b') \<and>
    (r = Inr () \<longrightarrow> (\<forall>k<n. devblk m' c (b + k) = get_slice (k * BLOCK_SIZE) BLOCK_SIZE data))"
proof -
  obtain m' where m': "holds d m'" "r = Inr () \<longrightarrow> m' = sec_update m (lba_of c b) data"
    and out: "\<forall>i. \<not> (lba_of c b \<le> i \<and> i < lba_of c b + n * SECTORS_PER_BLOCK) \<longrightarrow> m' i = m i"
    and sc: "sector_count dev d = sector_count dev (bc_dev c)"
    using write_keeps [OF assms(1,3)] by (auto simp: nsec_blocks [OF assms(2)])
  have "devblk m' c b' = devblk m c b'" if "b' < b \<or> b + n \<le> b'" for b'
  proof -
    have "m' i = m i" if "lba_of c b' \<le> i" "i < lba_of c b' + SECTORS_PER_BLOCK" for i
      using out that \<open>b' < b \<or> b + n \<le> b'\<close> lba_of_gap [of b' b c] lba_of_mono [of "b + n" b' c] lba_of_add [of c b n]
      by auto
    then show ?thesis by (auto simp: devblk_def intro!: arg_cong [of _ _ concat])
  qed
  moreover have "devblk m' c (b + k) = get_slice (k * BLOCK_SIZE) BLOCK_SIZE data" if "r = Inr ()" "k < n" for k
    using m'(2) that sec_update_block [OF assms(2) that(2)] by (simp add: devblk_def)
  ultimately show ?thesis using m'(1) sc by blast
qed

lemma devblk_write_one:
  assumes "holds (bc_dev c) m" and "length data = BLOCK_SIZE"
    and "write_sectors dev (bc_dev c) (lba_of c b) data = (r, d)"
  shows "\<exists>m'. holds d m' \<and> sector_count dev d = sector_count dev (bc_dev c) \<and>
    (\<forall>b'. b' \<noteq> b \<longrightarrow> devblk m' c b' = devblk m c b') \<and> (r = Inr () \<longrightarrow> devblk m' c b = data)"
proof -
  have n: "length data = 1 * BLOCK_SIZE" using assms(2) by simp
  obtain m' where "holds d m'" "sector_count dev d = sector_count dev (bc_dev c)"
    and far: "\<forall>b'. b' < b \<or> b + 1 \<le> b' \<longrightarrow> devblk m' c b' = devblk m c b'"
    and ok: "r = Inr () \<longrightarrow> (\<forall>k<1. devblk m' c (b + k) = get_slice (k * BLOCK_SIZE) BLOCK_SIZE data)"
    using devblk_write [OF assms(1) n assms(3)] by auto
  moreover have "b' \<noteq> b \<Longrightarrow> devblk m' c b' = devblk m c b'" for b' using far by (metis Suc_eq_plus1 Suc_leI nat_neq_iff)
  moreover have "r = Inr () \<Longrightarrow> devblk m' c b = data" using ok assms(2) by auto
  ultimately show ?thesis by blast
qed

subsection \<open>Taking a slot and giving it a block\<close>

lemma cinv_write_back:
  assumes inv: "cinv dev holds c m xs {}" and i: "i \<in> set xs" and w: "write_back dev i c = (r, c')"
    and dirty: "s_dirty (slots c ! i)"
  shows "\<exists>m'. cinv dev holds c' m' xs {} \<and> view m' c' = view m c"
    and "r = Inr () \<Longrightarrow> \<not> s_dirty (slots c' ! i)"
    and "geo c' = geo c \<and> bc_map c' = bc_map c"
    and "cposs poss c' k \<subseteq> cposs poss c k"
proof -
  let ?b = "s_blk (slots c ! i)" and ?d = "s_data (slots c ! i)"
  have body: "cbody dev holds c m (set xs) {}" and l: "lru c xs" using inv by (auto simp: cinv_def)
  have ilen: "i < length (slots c)" using lru_in [OF l i] by simp
  have g: "holds (bc_dev c) m" and len: "length ?d = BLOCK_SIZE"
    using body ilen by (auto simp: cbody_def)
  obtain rr d where wr: "write_sectors dev (bc_dev c) (lba_of c ?b) ?d = (rr, d)" by fastforce
  obtain m' where dw: "holds d m'" "sector_count dev d = sector_count dev (bc_dev c)"
      "\<And>b'. b' \<noteq> ?b \<Longrightarrow> devblk m' c b' = devblk m c b'" "rr = Inr () \<Longrightarrow> devblk m' c ?b = ?d"
    using devblk_write_one [OF g len wr] by auto
  have mapi: "bt_get (bc_map c) b = Some j \<longleftrightarrow> j \<in> set xs \<and> s_blk (slots c ! j) = b" for b j
    by (rule cbody_map [OF body])
  have other: "j \<in> set xs \<Longrightarrow> j \<noteq> i \<Longrightarrow> s_blk (slots c ! j) \<noteq> ?b" for j
    using mapi [of ?b] i by (metis option.inject)
  have same: "(slots c)[i := (slots c ! i)\<lparr>s_dirty := True\<rparr>] = slots c"
    using dirty by (cases "slots c ! i") (simp, metis list_update_id)
  have r: "r = rr" using w wr by (cases rr) (auto simp: write_back_def)
  obtain f z where c': "c' = bump f (upd_slot i (\<lambda>s. s\<lparr>s_dirty := (rr \<noteq> Inr ())\<rparr>) (c\<lparr>bc_dev := d, dev_dirty := z\<rparr>))"
  proof (cases rr)
    case (Inl e)
    then have "c' = c\<lparr>bc_dev := d\<rparr>" using w wr by (simp add: write_back_def)
    then have "c' = bump id (upd_slot i (\<lambda>s. s\<lparr>s_dirty := True\<rparr>) (c\<lparr>bc_dev := d, dev_dirty := dev_dirty c\<rparr>))"
      by (simp only: upd_slot_def bump_def) (simp add: same)
    then show ?thesis by (intro that [of id "dev_dirty c"]) (simp add: Inl)
  next
    case (Inr u)
    then show ?thesis using w wr
      by (intro that [of "\<lambda>s. s\<lparr>writebacks := writebacks s + 1,
          sectors_written := sectors_written s + SECTORS_PER_BLOCK\<rparr>" True]) (simp add: write_back_def)
  qed
  have frame: "bc_dev c' = d" "base_lba c' = base_lba c" "nblocks c' = nblocks c" "bc_map c' = bc_map c"
      "bc_free c' = bc_free c" "capacity c' = capacity c" "length (slots c') = length (slots c)"
      "bc_head c' = bc_head c" "bc_tail c' = bc_tail c"
    by (simp_all add: c')
  have nth: "s_blk (slots c' ! j) = s_blk (slots c ! j) \<and> s_data (slots c' ! j) = s_data (slots c ! j) \<and>
      s_prev (slots c' ! j) = s_prev (slots c ! j) \<and> s_next (slots c' ! j) = s_next (slots c ! j) \<and>
      s_dirty (slots c' ! j) = (if j = i then rr \<noteq> Inr () else s_dirty (slots c ! j))" for j
    using ilen by (simp add: c' nth_list_update)
  show gm: "geo c' = geo c \<and> bc_map c' = bc_map c" by (simp add: geo_def frame)
  show "r = Inr () \<Longrightarrow> \<not> s_dirty (slots c' ! i)" by (simp add: nth r)
  have vdev: "devblk m' c' = devblk m' c"
    using geo_lba [of c' c] gm by (simp add: devblk_def [abs_def])
  have "lru c' xs" by (rule lru_cong [OF l]) (simp_all add: frame nth)
  moreover have "j \<in> set xs \<Longrightarrow> \<not> s_dirty (slots c ! j) \<Longrightarrow>
      devblk m' c (s_blk (slots c ! j)) = devblk m c (s_blk (slots c ! j))" for j
    using dirty other dw(3) by blast
  then have "cbody dev holds c' m' (set xs) {}"
    using body dw other i unfolding cbody_def frame vdev
    by (simp add: nth lba_of_def frame dirty)
  moreover have "bt_get (bc_map c) b = None \<Longrightarrow> b \<noteq> ?b" for b
    using mapi [of ?b i] i by auto
  then have "view m' c' = view m c"
    using dw(3) by (simp add: view_def fun_eq_iff frame(4) nth vdev split: option.split)
  ultimately show "\<exists>m'. cinv dev holds c' m' xs {} \<and> view m' c' = view m c" by (auto simp: cinv_def)
  have "dirtyw c' k \<subseteq> dirtyw c k"
    by (rule dirtyw_mono) (use gm geo_lba [of c' c] dirty in \<open>simp_all add: nth split: if_splits\<close>)
  moreover have "poss d k \<subseteq> poss (bc_dev c) k \<union> dirtyw c k"
    using write_poss [OF g wr, of k] dirtyw_mem [of c ?b i k] mapi [of ?b i] i dirty by auto
  ultimately show "cposs poss c' k \<subseteq> cposs poss c k" by (auto simp: cposs_def frame)
qed

text \<open>Dropping a cached block takes its slot out of the list and out of the map.\<close>

lemma cinv_drop:
  assumes inv: "cinv dev holds c m xs {}" and i: "i \<in> set xs" and b: "s_blk (slots c ! i) = b"
    and c': "c' = (unlink i c)\<lparr>bc_map := bt_remove b (bc_map c)\<rparr>"
  shows "cinv dev holds c' m (remove1 i xs) {i}" and "view m c' = (view m c)(b := devblk m c b)"
    and "geo c' = geo c" and "cposs poss c' k \<subseteq> cposs poss c k"
proof -
  have body: "cbody dev holds c m (set xs) {}" and l: "lru c xs" using inv by (auto simp: cinv_def)
  obtain as bs where xs: "xs = as @ i # bs" and "i \<notin> set as"
    using split_list_first [OF i] by blast
  then have r: "remove1 i xs = as @ bs" by (simp add: remove1_append)
  have "lru (unlink i c) (remove1 i xs)"
    unfolding r by (rule lru_unlink) (use l xs in simp)
  then have l': "lru c' (remove1 i xs)" by (simp add: c' lru_def)
  note sc = same_core_unlink [of c i]
  have body2: "cbody dev holds (unlink i c) m (set xs) {}"
    by (rule cbody_same_core [OF sc body])
  have set_r: "set (remove1 i xs) = set xs - {i}"
    using l by (simp add: lru_def set_remove1_eq)
  have len: "length (slots (unlink i c)) = length (slots c)" by (rule same_core_length [OF sc])
  have blk: "j \<in> set xs \<Longrightarrow> s_blk (slots (unlink i c) ! j) = s_blk (slots c ! j)" for j
    using nth_core [of "slots (unlink i c)" "slots c" j] sc len cbody_slot [OF body] by (simp add: same_core_def)
  have mp: "bc_map (unlink i c) = bc_map c" using sc by (simp add: same_core_def)
  show geo: "geo c' = geo c" using geo_same_core [OF sc] by (simp add: c' geo_def)
  have dev: "devblk m c' = devblk m (unlink i c)"
    by (simp add: c' devblk_def [abs_def] lba_of_def)
  have "cbody dev holds c' m (set xs - {i}) {i}"
    using body2 i b blk cbody_unique [OF body] cbody_slot [OF body2] unfolding cbody_def dev
    by (auto simp: c' mp bt_get_remove bt_inv_remove lba_of_def)
  then show "cinv dev holds c' m (remove1 i xs) {i}"
    using l' by (simp add: cinv_def set_r)
  have v: "view m (unlink i c) x = view m c x" for x using view_same_core [OF sc body] by simp
  have dev': "devblk m c' x = devblk m c x" for x using same_core_devblk [OF sc] by (simp add: dev)
  have get: "bt_get (bc_map c') x = (if x = b then None else bt_get (bc_map c) x)"
    and sl: "slots c' = slots (unlink i c)" for x by (simp_all add: c' mp bt_get_remove)
  have "view m c' x = (if x = b then devblk m c b else view m c x)" for x
    using v [of x] same_core_devblk [OF sc] by (cases "bt_get (bc_map c) x") (simp_all add: view_def get dev' sl mp)
  then show "view m c' = (view m c)(b := devblk m c b)" by (simp add: fun_eq_iff)
  have "dirtyw c' k \<subseteq> dirtyw (unlink i c) k"
    by (rule dirtyw_mono) (auto simp: geo_lba [OF geo] geo_lba [OF geo_same_core [OF sc]] get sl mp split: if_splits)
  then show "cposs poss c' k \<subseteq> cposs poss c k"
    using dirtyw_same_core [OF sc body] sc by (auto simp: cposs_def c' same_core_def)
qed

lemma cinv_evict:
  assumes inv: "cinv dev holds c m xs {}" and i: "i \<in> set xs" and clean: "\<not> s_dirty (slots c ! i)"
    and c': "c' = (let c = unlink i c; blk = s_blk (slots c ! i)
      in bump f (c\<lparr>bc_map := bt_remove blk (bc_map c)\<rparr>))"
  shows "cinv dev holds c' m (remove1 i xs) {i}" and "view m c' = view m c" and "geo c' = geo c"
    and "bt_get (bc_map c') b = Some j \<Longrightarrow> bt_get (bc_map c) b = Some j"
    and "cposs poss c' k \<subseteq> cposs poss c k"
proof -
  let ?b = "s_blk (slots c ! i)" and ?c = "(unlink i c)\<lparr>bc_map := bt_remove (s_blk (slots c ! i)) (bc_map c)\<rparr>"
  have body: "cbody dev holds c m (set xs) {}" using inv by (simp add: cinv_def)
  have "s_blk (slots (unlink i c) ! i) = ?b" "bc_map (unlink i c) = bc_map c"
    using same_core_unlink [of c i] nth_core [of "slots (unlink i c)" "slots c" i]
      same_core_length [OF same_core_unlink, of i c] cbody_slot [OF body i] by (simp_all add: same_core_def)
  then have c'': "c' = bump f ?c" by (simp add: c' Let_def)
  note d = cinv_drop [OF inv i refl refl]
  have "view m c ?b = s_data (slots c ! i)"
    using cbody_map [OF body, of ?b i] i by (simp add: view_def)
  also have "\<dots> = devblk m c ?b"
    using body i clean by (auto simp: cbody_def)
  finally show "view m c' = view m c" using d(2) by (simp add: c'' fun_upd_idem)
  show "cinv dev holds c' m (remove1 i xs) {i}" using d(1) by (simp add: c'')
  show "geo c' = geo c" using d(3) by (simp add: c'')
  show "bt_get (bc_map c') b = Some j \<Longrightarrow> bt_get (bc_map c) b = Some j"
    by (simp add: c'' bt_get_remove split: if_splits)
  show "cposs poss c' k \<subseteq> cposs poss c k" using d(4) by (simp add: c'')
qed

lemma cinv_grow:
  assumes inv: "cinv dev holds c m xs {}" and room: "length (slots c) < capacity c"
    and c': "c' = c\<lparr>slots := slots c @ [fresh_slot]\<rparr>"
  shows "cinv dev holds c' m xs {length (slots c)}" and "view m c' = view m c"
    and "cposs poss c' k \<subseteq> cposs poss c k"
proof -
  have body: "cbody dev holds c m (set xs) {}" and l: "lru c xs" using inv by (auto simp: cinv_def)
  have in_len: "i \<in> set xs \<Longrightarrow> i < length (slots c)" for i using lru_in [OF l] by simp
  have nth: "i \<in> set xs \<Longrightarrow> slots c' ! i = slots c ! i" for i
    using in_len by (simp add: c' nth_append)
  have frame: "bc_dev c' = bc_dev c" "nblocks c' = nblocks c" "capacity c' = capacity c"
    "bc_free c' = bc_free c" "bc_map c' = bc_map c" "lba_of c' = lba_of c" "length (slots c') = Suc (length (slots c))"
    by (simp_all add: c' lba_of_def fun_eq_iff)
  have "dls (slots c') NIL xs NIL"
    using dls_grow l by (simp add: c' lru_def)
  then have "lru c' xs"
    using l body room by (simp add: lru_def c' cbody_def)
  moreover have dev: "devblk m c' = devblk m c" by (simp add: devblk_def [abs_def] frame)
  have "length (s_data (slots c' ! i)) = BLOCK_SIZE" if "i < Suc (length (slots c))" for i
    using body that by (auto simp: cbody_def c' nth_append fresh_slot_def)
  moreover have "bt_get (bc_map c) b = Some i \<longleftrightarrow> i \<in> set xs \<and> s_blk (slots c' ! i) = b" for b i
    using cbody_map [OF body] nth by auto
  ultimately have "cbody dev holds c' m (set xs) {length (slots c)}"
    using body room in_len nth unfolding cbody_def dev frame by (auto simp: lessThan_Suc)
  then show "cinv dev holds c' m xs {length (slots c)}" using \<open>lru c' xs\<close> by (simp add: cinv_def)
  show "view m c' = view m c"
    by (rule view_eqI) (use nth cbody_map [OF body] in \<open>auto simp: frame dev\<close>)
  show "cposs poss c' k \<subseteq> cposs poss c k"
    using dirtyw_mono [of c' c k] nth cbody_map [OF body] by (auto simp: cposs_def frame)
qed

lemma cinv_pop_free:
  assumes inv: "cinv dev holds c m xs {}" and ne: "bc_free c \<noteq> []"
    and c': "c' = c\<lparr>bc_free := butlast (bc_free c)\<rparr>"
  shows "cinv dev holds c' m xs {last (bc_free c)}" and "view m c' = view m c" and "cposs poss c' k = cposs poss c k"
proof -
  have body: "cbody dev holds c m (set xs) {}" and l: "lru c xs" using inv by (auto simp: cinv_def)
  have d: "distinct (butlast (bc_free c) @ [last (bc_free c)])" using body ne by (simp add: cbody_def)
  have s: "set (bc_free c) = insert (last (bc_free c)) (set (butlast (bc_free c)))"
    by (metis ne append_butlast_last_id list.simps(15) rotate1.simps(2) set_rotate1)
  have dev: "devblk m c' = devblk m c" by (simp add: devblk_def [abs_def] c' lba_of_def)
  have "lru c' xs" using l by (simp add: lru_def c')
  moreover have "cbody dev holds c' m (set xs) {last (bc_free c)}"
    using body s d unfolding cbody_def dev by (auto simp: c' lba_of_def)
  ultimately show "cinv dev holds c' m xs {last (bc_free c)}" by (simp add: cinv_def)
  show "view m c' = view m c" by (rule view_eqI) (simp_all add: dev, simp_all add: c')
  show "cposs poss c' k = cposs poss c k"
    by (simp add: cposs_def dirtyw_def c' lba_of_def)
qed

text \<open>
  \<open>acquire_slot\<close> hands out a slot in no list, at the price of evicting the least recently
  used block if there is no other; what the cache presents does not change.
\<close>

lemma cinv_acquire_slot:
  assumes inv: "cinv dev holds c m xs {}" and a: "acquire_slot dev c = (r, c')"
  shows "\<exists>m' xs'. (case r of Inl e \<Rightarrow> cinv dev holds c' m' xs' {} | Inr i \<Rightarrow> cinv dev holds c' m' xs' {i}) \<and>
      view m' c' = view m c"
    and "geo c' = geo c" and "bt_get (bc_map c') b = Some j \<Longrightarrow> bt_get (bc_map c) b = Some j"
    and "cposs poss c' k \<subseteq> cposs poss c k"
proof -
  have body: "cbody dev holds c m (set xs) {}" and l: "lru c xs" using inv by (auto simp: cinv_def)
  let ?ok = "(\<exists>m' xs'. (case r of Inl e \<Rightarrow> cinv dev holds c' m' xs' {} | Inr i \<Rightarrow> cinv dev holds c' m' xs' {i}) \<and>
      view m' c' = view m c) \<and> geo c' = geo c \<and>
    (\<forall>b j. bt_get (bc_map c') b = Some j \<longrightarrow> bt_get (bc_map c) b = Some j) \<and> (\<forall>k. cposs poss c' k \<subseteq> cposs poss c k)"
  have ?ok
  proof (cases "bc_free c = []")
    case False
    then have r: "r = Inr (last (bc_free c))" and c': "c' = c\<lparr>bc_free := butlast (bc_free c)\<rparr>"
      using a by (simp_all add: acquire_slot_def)
    note p = cinv_pop_free [OF inv False c']
    have "geo c' = geo c" "bc_map c' = bc_map c" by (simp_all add: c' geo_def)
    then show ?thesis using p by (auto simp: r)
  next
    case nofree: True
    show ?thesis
    proof (cases "length (slots c) < capacity c")
      case True
      then have r: "r = Inr (length (slots c))" and c': "c' = c\<lparr>slots := slots c @ [fresh_slot]\<rparr>"
        using a nofree by (simp_all add: acquire_slot_def)
      note p = cinv_grow [OF inv True c']
      have "geo c' = geo c" "bc_map c' = bc_map c" by (simp_all add: c' geo_def)
      then show ?thesis using p by (auto simp: r)
    next
      case False
      then have full: "length (slots c) = capacity c" using body by (simp add: cbody_def)
      then have "set xs = {..<capacity c}" "1 \<le> capacity c"
        using body nofree by (auto simp: cbody_def)
      then have ne: "xs \<noteq> []" by (metis empty_set lessThan_empty_iff not_one_le_zero)
      define i where "i = bc_tail c"
      have i: "i \<in> set xs" using l ne by (auto simp: i_def lru_def last_or_def)
      define w where "w = (if s_dirty (slots c ! i) then write_back dev i c else (Inr (), c))"
      obtain r1 c1 where w1: "w = (r1, c1)" by fastforce
      have "\<exists>m1. cinv dev holds c1 m1 xs {} \<and> view m1 c1 = view m c \<and> geo c1 = geo c \<and>
          bc_map c1 = bc_map c \<and> (r1 = Inr () \<longrightarrow> \<not> s_dirty (slots c1 ! i)) \<and> (\<forall>k. cposs poss c1 k \<subseteq> cposs poss c k)"
      proof (cases "s_dirty (slots c ! i)")
        case True
        then have wb: "write_back dev i c = (r1, c1)" using w1 by (simp add: w_def)
        show ?thesis using cinv_write_back [OF inv i wb True] by blast
      next
        case False
        then have "c1 = c" using w1 by (simp add: w_def)
        then show ?thesis using inv False by blast
      qed
      then obtain m1 where one: "cinv dev holds c1 m1 xs {}" "view m1 c1 = view m c" "geo c1 = geo c"
          "bc_map c1 = bc_map c" "r1 = Inr () \<Longrightarrow> \<not> s_dirty (slots c1 ! i)" "\<And>k. cposs poss c1 k \<subseteq> cposs poss c k"
        by blast
      have acq: "acquire_slot dev c = bindr w (\<lambda>_ c. let c = unlink i c; blk = s_blk (slots c ! i)
          in (Inr i, bump (\<lambda>s. s\<lparr>evictions := evictions s + 1\<rparr>) (c\<lparr>bc_map := bt_remove blk (bc_map c)\<rparr>)))"
        using nofree False by (simp add: acquire_slot_def w_def i_def Let_def)
      show ?thesis
      proof (cases r1)
        case (Inl e)
        then have "r = Inl e" "c' = c1" using a acq w1 by simp_all
        then show ?thesis using one(1-4,6) by auto
      next
        case (Inr u)
        then have r: "r = Inr i" and c': "c' = (let c = unlink i c1; blk = s_blk (slots c ! i)
            in bump (\<lambda>s. s\<lparr>evictions := evictions s + 1\<rparr>) (c\<lparr>bc_map := bt_remove blk (bc_map c)\<rparr>))"
          using a acq w1 by (simp_all add: Let_def)
        have clean: "\<not> s_dirty (slots c1 ! i)" using one(5) Inr by simp
        note e = cinv_evict [OF one(1) i clean c']
        have "cposs poss c' k \<subseteq> cposs poss c k" for k using e(5) [of k] one(6) [of k] by blast
        moreover have "bt_get (bc_map c') b = Some j \<longrightarrow> bt_get (bc_map c) b = Some j" for b j
          using e(4) [of b j] one(4) by simp
        ultimately show ?thesis using e(1,2,3) one(2,3) by (auto simp: r)
      qed
    qed
  qed
  then show "\<exists>m' xs'. (case r of Inl e \<Rightarrow> cinv dev holds c' m' xs' {} | Inr i \<Rightarrow> cinv dev holds c' m' xs' {i}) \<and>
      view m' c' = view m c"
    and "geo c' = geo c" and "bt_get (bc_map c') b = Some j \<Longrightarrow> bt_get (bc_map c) b = Some j"
    and "cposs poss c' k \<subseteq> cposs poss c k" by blast+
qed

text \<open>Filling a slot in hand, and giving it a block.\<close>

lemma cinv_fill:
  assumes inv: "cinv dev holds c m xs {i}" and len: "length buf = BLOCK_SIZE"
    and c': "c' = upd_slot i (\<lambda>s. s\<lparr>s_data := buf\<rparr>) c"
  shows "cinv dev holds c' m xs {i}" and "view m c' = view m c" and "cposs poss c' = cposs poss c"
    and "s_data (slots c' ! i) = buf"
proof -
  have body: "cbody dev holds c m (set xs) {i}" and l: "lru c xs" using inv by (auto simp: cinv_def)
  have i: "i \<notin> set xs" "i < length (slots c)" using body by (auto simp: cbody_def)
  have frame: "bc_dev c' = bc_dev c" "nblocks c' = nblocks c" "capacity c' = capacity c"
    "bc_free c' = bc_free c" "bc_map c' = bc_map c" "lba_of c' = lba_of c" "length (slots c') = length (slots c)"
    by (simp_all add: c' lba_of_def fun_eq_iff)
  have nth: "j \<in> set xs \<Longrightarrow> slots c' ! j = slots c ! j" for j using i(1) by (simp add: c') (metis nth_list_update_neq)
  show "s_data (slots c' ! i) = buf" using i(2) by (simp add: c')
  have "length (s_data (slots c' ! j)) = BLOCK_SIZE" if "j < length (slots c)" for j
    using body that len i(2) by (cases "j = i") (simp_all add: c' nth_list_update cbody_def)
  moreover have dev: "devblk m c' = devblk m c" by (simp add: devblk_def [abs_def] frame)
  moreover have "bt_get (bc_map c) b = Some j \<longleftrightarrow> j \<in> set xs \<and> s_blk (slots c' ! j) = b" for b j
    using cbody_map [OF body] nth by auto
  ultimately have "cbody dev holds c' m (set xs) {i}"
    using body nth unfolding cbody_def frame by auto
  moreover have "lru c' xs" by (rule lru_cong [OF l]) (simp_all add: nth, simp_all add: c')
  ultimately show "cinv dev holds c' m xs {i}" by (simp add: cinv_def)
  show "view m c' = view m c"
    by (rule view_eqI) (use nth cbody_map [OF body] in \<open>auto simp: frame dev\<close>)
  have "dirtyw c' k = dirtyw c k" for k
    using dirtyw_mono [of c' c k] dirtyw_mono [of c c' k] nth cbody_map [OF body] frame
    by (metis subset_antisym)
  then show "cposs poss c' = cposs poss c" by (simp add: cposs_def fun_eq_iff frame)
qed

lemma cinv_install:
  assumes inv: "cinv dev holds c m xs {i}" and blk: "blk < nblocks c" "bt_get (bc_map c) blk = None"
    and data: "dirty \<or> s_data (slots c ! i) = devblk m c blk" and c': "c' = install i blk dirty c"
  shows "cinv dev holds c' m (i # xs) {}" and "view m c' = (view m c)(blk := s_data (slots c ! i))"
    and "geo c' = geo c" and "s_data (slots c' ! i) = s_data (slots c ! i)"
    and "dirtyw c' k \<subseteq> dirtyw c k \<union> (if dirty then sec_new (lba_of c blk) (s_data (slots c ! i)) k else {})"
    and "bc_dev c' = bc_dev c"
proof -
  have body: "cbody dev holds c m (set xs) {i}" and l: "lru c xs" using inv by (auto simp: cinv_def)
  have i: "i \<notin> set xs" "i < length (slots c)" using body by (auto simp: cbody_def)
  let ?c = "(upd_slot i (\<lambda>s. s\<lparr>s_blk := blk, s_dirty := dirty, s_tag := 0\<rparr>) c)\<lparr>bc_map := bt_insert blk i (bc_map c)\<rparr>"
  have eq: "c' = push_front i ?c" by (simp add: c' install_def Let_def)
  note sc = same_core_push_front [of ?c i]
  have frame: "bc_dev ?c = bc_dev c" "nblocks ?c = nblocks c" "capacity ?c = capacity c"
    "bc_free ?c = bc_free c" "lba_of ?c = lba_of c" "length (slots ?c) = length (slots c)"
    by (simp_all add: lba_of_def fun_eq_iff)
  have nth: "j \<in> set xs \<Longrightarrow> slots ?c ! j = slots c ! j" for j using i(1) by simp (metis nth_list_update_neq)
  have nthi: "s_data (slots ?c ! j) = s_data (slots c ! j)" "s_blk (slots ?c ! i) = blk"
    "s_dirty (slots ?c ! i) = dirty" for j using i(2) by (simp_all add: nth_list_update)
  have get: "bt_get (bc_map ?c) b = (if b = blk then Some i else bt_get (bc_map c) b)" for b
    by (simp add: bt_get_insert)
  have nocol: "j \<in> set xs \<Longrightarrow> s_blk (slots c ! j) \<noteq> blk" for j using cbody_map [OF body, of blk j] blk(2) by auto
  have dev: "devblk m ?c = devblk m c" by (simp add: devblk_def [abs_def] lba_of_def)
  have "bt_get (bc_map ?c) b = Some j \<longleftrightarrow> j \<in> insert i (set xs) \<and> s_blk (slots ?c ! j) = b" for b j
    unfolding get using cbody_map [OF body, of b j] nth [of j] nthi(2) nocol [of j] i(1) by auto
  moreover have "bt_inv (bc_map ?c)" using body by (simp add: cbody_def bt_inv_insert)
  ultimately have b2: "cbody dev holds ?c m (insert i (set xs)) {}"
    using body nth data blk i nthi unfolding cbody_def frame dev by auto
  have l2: "lru ?c xs" 
  proof (rule lru_cong [OF l])
    fix j assume "j \<in> set xs"
    then show "s_prev (slots ?c ! j) = s_prev (slots c ! j) \<and> s_next (slots ?c ! j) = s_next (slots c ! j)"
      using nth [of j] by metis
  qed simp_all
  have "lru c' (i # xs)" unfolding eq by (rule lru_push_front [OF l2 i(1)]) (simp add: i(2))
  moreover have b3: "cbody dev holds c' m (set (i # xs)) {}" using cbody_same_core [OF sc b2] by (simp add: eq)
  ultimately show "cinv dev holds c' m (i # xs) {}" by (simp add: cinv_def)
  show "geo c' = geo c" using geo_same_core [OF sc] by (simp add: eq geo_def)
  have "view m ?c b = (if b = blk then s_data (slots c ! i) else view m c b)" for b
    unfolding view_def get using nthi(1) dev by (auto split: option.split)
  then show "view m c' = (view m c)(blk := s_data (slots c ! i))"
    using view_same_core [OF sc b2] by (simp add: eq fun_eq_iff)
  show "s_data (slots c' ! i) = s_data (slots c ! i)"
    using nth_core [of "slots c'" "slots ?c" i] sc same_core_length [OF sc] i(2) nthi(1)
    by (simp add: eq same_core_def del: upd_slot_sel(1)) simp
  show "bc_dev c' = bc_dev c" using sc by (simp add: eq same_core_def)
  have "dirtyw ?c k \<subseteq> dirtyw c k \<union> (if dirty then sec_new (lba_of c blk) (s_data (slots c ! i)) k else {})"
  proof
    fix x assume "x \<in> dirtyw ?c k"
    then obtain b s where bs: "bt_get (bc_map ?c) b = Some s" "s_dirty (slots ?c ! s)"
        "x \<in> sec_new (lba_of c b) (s_data (slots c ! s)) k"
      unfolding dirtyw_def frame nthi(1) by blast
    show "x \<in> dirtyw c k \<union> (if dirty then sec_new (lba_of c blk) (s_data (slots c ! i)) k else {})"
    proof (cases "b = blk")
      case True
      then show ?thesis using bs nthi(3) get by simp
    next
      case False
      then have g: "bt_get (bc_map c) b = Some s" using bs(1) get by simp
      then have "slots ?c ! s = slots c ! s" using nth [of s] cbody_map [OF body, of b s] by blast
      then show ?thesis using g bs by (auto simp: dirtyw_def)
    qed
  qed
  then show "dirtyw c' k \<subseteq> dirtyw c k \<union> (if dirty then sec_new (lba_of c blk) (s_data (slots c ! i)) k else {})"
    using dirtyw_same_core [OF sc b2] by (simp add: eq)
qed

end

end
