(* ===== verification/CacheOps.thy ===== *)
theory CacheOps
  imports CacheInv
begin

text \<open>
  The operations of the block cache against their contract.  \<open>cache_is c v\<close>: the cache is
  in order and presents block \<open>b\<close> as \<open>v b\<close>.  \<open>cstep c c' v W\<close>: the cache \<open>c'\<close> that an
  operation on \<open>c\<close> leaves presents \<open>v\<close>, covers the same blocks, and a power cut may leave
  in each sector only what it could leave before, or what \<open>W\<close> says was written.
\<close>

declare read_loop.simps [simp del]

subsection \<open>Contracts\<close>

definition cache_is :: "'d blockdevice \<Rightarrow> ('d \<Rightarrow> (nat \<Rightarrow> bytes) \<Rightarrow> bool) \<Rightarrow> 'd block_cache \<Rightarrow> (nat \<Rightarrow> bytes) \<Rightarrow> bool" where
  "cache_is dev holds c v \<longleftrightarrow> (\<exists>m xs. cinv dev holds c m xs {} \<and> view m c = v)"

definition cstep :: "'d blockdevice \<Rightarrow> ('d \<Rightarrow> (nat \<Rightarrow> bytes) \<Rightarrow> bool) \<Rightarrow> ('d \<Rightarrow> nat \<Rightarrow> bytes set) \<Rightarrow>
    'd block_cache \<Rightarrow> 'd block_cache \<Rightarrow> (nat \<Rightarrow> bytes) \<Rightarrow> (nat \<Rightarrow> bytes set) \<Rightarrow> bool" where
  "cstep dev holds poss c c' v W \<longleftrightarrow> cache_is dev holds c' v \<and> geo c' = geo c \<and>
     (\<forall>k. cposs poss c' k \<subseteq> cposs poss c k \<union> W k)"

abbreviation none :: "nat \<Rightarrow> bytes set" where
  "none \<equiv> (\<lambda>_. {})"

lemma cstep_refl: "cache_is dev holds c v \<Longrightarrow> cstep dev holds poss c c v none"
  by (simp add: cstep_def)

lemma cstep_trans:
  assumes "cstep dev holds poss a b v W" and "cstep dev holds poss b c v' W'"
  shows "cstep dev holds poss a c v' (\<lambda>k. W k \<union> W' k)"
proof -
  have "cposs poss c k \<subseteq> cposs poss a k \<union> (W k \<union> W' k)" for k
    using assms unfolding cstep_def by blast
  then show ?thesis using assms by (simp add: cstep_def)
qed

lemma cstepI:
  "cinv dev holds c' m xs {} \<Longrightarrow> view m c' = v \<Longrightarrow> geo c' = geo c \<Longrightarrow>
    (\<And>k. cposs poss c' k \<subseteq> cposs poss c k \<union> W k) \<Longrightarrow> cstep dev holds poss c c' v W"
  by (auto simp: cstep_def cache_is_def)

lemma cstep_pre:
  assumes "cstep dev holds poss c2 c' v W" and "geo c2 = geo c" and "\<And>k. cposs poss c2 k \<subseteq> cposs poss c k"
  shows "cstep dev holds poss c c' v W"
proof -
  have "cposs poss c' k \<subseteq> cposs poss c k \<union> W k" for k
    using assms(1) assms(3) [of k] unfolding cstep_def by blast
  then show ?thesis using assms(1,2) by (simp add: cstep_def)
qed

lemma cstep_mono: "cstep dev holds poss a b v W \<Longrightarrow> (\<And>k. W k \<subseteq> W' k) \<Longrightarrow> cstep dev holds poss a b v W'"
  unfolding cstep_def by blast

lemma cstep_is: "cstep dev holds poss a b v W \<Longrightarrow> cache_is dev holds b v"
  by (simp add: cstep_def)

lemma cstep_geo: "cstep dev holds poss a b v W \<Longrightarrow> geo b = geo a \<and> nblocks b = nblocks a \<and> lba_of b = lba_of a"
  using geo_lba [of b a] by (simp add: cstep_def geo_def)

lemma cstep_bump [simp]: "cstep dev holds poss a (bump f b) v W = cstep dev holds poss a b v W"
  by (simp add: cstep_def cache_is_def)

lemma geo_dev [simp]:
  "geo (c\<lparr>bc_dev := d\<rparr>) = geo c" "geo (c\<lparr>bc_dev := d, dev_dirty := z\<rparr>) = geo c"
  by (simp_all add: geo_def)

lemma bc_check_Inr: "bc_check c b n = Inr u \<longleftrightarrow> b + n < 2 ^ 64 \<and> b + n \<le> nblocks c"
  by (auto simp: bc_check_def checked_add_def split: option.split)

lemma bc_check_out: "\<not> b + n \<le> nblocks c \<Longrightarrow> bc_check c b n = Inl OutOfRange"
  by (simp add: bc_check_def checked_add_def)

lemma bc_check_cases: "bc_check c b n = Inl OutOfRange \<or> bc_check c b n = Inr ()"
  by (simp add: bc_check_def split: option.split)

lemma cinv_dev:
  assumes inv: "cinv dev holds c m xs H" and h: "holds d m" "sector_count dev d = sector_count dev (bc_dev c)"
    and c': "c' = c\<lparr>bc_dev := d, dev_dirty := z\<rparr>"
  shows "cinv dev holds c' m xs H" and "view m c' = view m c" and "dirtyw c' = dirtyw c"
proof -
  have dev: "devblk m c' = devblk m c" by (simp add: devblk_def [abs_def] c' lba_of_def)
  show "cinv dev holds c' m xs H"
    using inv h unfolding cinv_def cbody_def lru_def dev by (simp add: c' lba_of_def)
  show "view m c' = view m c" by (rule view_eqI) (simp_all add: dev, simp_all add: c')
  show "dirtyw c' = dirtyw c" by (simp add: dirtyw_def [abs_def] c' lba_of_def)
qed

lemma cinv_release:
  assumes inv: "cinv dev holds c m xs {i}" and c': "c' = c\<lparr>bc_free := bc_free c @ [i]\<rparr>"
  shows "cinv dev holds c' m xs {}" and "view m c' = view m c" and "dirtyw c' = dirtyw c"
proof -
  have dev: "devblk m c' = devblk m c" by (simp add: devblk_def [abs_def] c' lba_of_def)
  show "cinv dev holds c' m xs {}"
    using inv unfolding cinv_def cbody_def lru_def dev by (auto simp: c' lba_of_def)
  show "view m c' = view m c" by (rule view_eqI) (simp_all add: dev, simp_all add: c')
  show "dirtyw c' = dirtyw c" by (simp add: dirtyw_def [abs_def] c' lba_of_def)
qed

text \<open>Changing the content of a cached block in place.\<close>

lemma cinv_update:
  assumes inv: "cinv dev holds c m xs {}" and get: "bt_get (bc_map c) b = Some i"
    and len: "length data = BLOCK_SIZE" and clean: "dirty \<or> data = devblk m c b"
    and c': "c' = upd_slot i (\<lambda>s. s\<lparr>s_data := data, s_dirty := dirty, s_tag := t\<rparr>) c"
  shows "cinv dev holds c' m xs {}" and "view m c' = (view m c)(b := data)"
    and "dirtyw c' k \<subseteq> dirtyw c k \<union> (if dirty then sec_new (lba_of c b) data k else {})"
proof -
  have body: "cbody dev holds c m (set xs) {}" and l: "lru c xs" using inv by (auto simp: cinv_def)
  have i: "i \<in> set xs" "s_blk (slots c ! i) = b" "i < length (slots c)"
    using cbody_map [OF body, of b i] get cbody_slot [OF body] by auto
  have frame: "bc_dev c' = bc_dev c" "nblocks c' = nblocks c" "capacity c' = capacity c"
    "bc_free c' = bc_free c" "bc_map c' = bc_map c" "lba_of c' = lba_of c" "length (slots c') = length (slots c)"
    by (simp_all add: c' lba_of_def fun_eq_iff)
  have nth: "s_blk (slots c' ! j) = s_blk (slots c ! j) \<and> s_prev (slots c' ! j) = s_prev (slots c ! j) \<and>
      s_next (slots c' ! j) = s_next (slots c ! j) \<and>
      s_data (slots c' ! j) = (if j = i then data else s_data (slots c ! j)) \<and>
      s_dirty (slots c' ! j) = (if j = i then dirty else s_dirty (slots c ! j))" for j
    using i(3) by (simp add: c' nth_list_update)
  have dev: "devblk m c' = devblk m c" by (simp add: devblk_def [abs_def] frame)
  have "cbody dev holds c' m (set xs) {}"
    using body len clean i unfolding cbody_def frame dev by (simp add: nth) blast
  moreover have "lru c' xs" by (rule lru_cong [OF l]) (simp_all add: nth frame, simp_all add: c')
  ultimately show "cinv dev holds c' m xs {}" by (simp add: cinv_def)
  have ne: "j \<noteq> i" if "bt_get (bc_map c) x = Some j" "x \<noteq> b" for x j
    using cbody_map [OF body, of x j] that i(2) by auto
  have "view m c' x = (if x = b then data else view m c x)" for x
    using ne [of x] get by (cases "bt_get (bc_map c) x") (auto simp: view_def frame nth dev)
  then show "view m c' = (view m c)(b := data)" by (simp add: fun_eq_iff)
  show "dirtyw c' k \<subseteq> dirtyw c k \<union> (if dirty then sec_new (lba_of c b) data k else {})"
  proof
    fix x assume "x \<in> dirtyw c' k"
    then obtain b' s where bs: "bt_get (bc_map c) b' = Some s" "s_dirty (slots c' ! s)"
        "x \<in> sec_new (lba_of c b') (s_data (slots c' ! s)) k"
      unfolding dirtyw_def frame by blast
    then have "s = i \<Longrightarrow> b' = b" using ne by blast
    then show "x \<in> dirtyw c k \<union> (if dirty then sec_new (lba_of c b) data k else {})"
      using bs nth [of s] by (cases "s = i") (auto simp: dirtyw_def)
  qed
qed

lemma cinv_undirty:
  assumes inv: "cinv dev holds c m xs {i}" and c': "c' = upd_slot i (\<lambda>s. s\<lparr>s_dirty := False\<rparr>) c"
  shows "cinv dev holds c' m xs {i}" and "view m c' = view m c" and "dirtyw c' = dirtyw c"
proof -
  have body: "cbody dev holds c m (set xs) {i}" and l: "lru c xs" using inv by (auto simp: cinv_def)
  have i: "i \<notin> set xs" "i < length (slots c)" using body by (auto simp: cbody_def)
  have frame: "bc_dev c' = bc_dev c" "nblocks c' = nblocks c" "capacity c' = capacity c"
    "bc_free c' = bc_free c" "bc_map c' = bc_map c" "lba_of c' = lba_of c" "length (slots c') = length (slots c)"
    by (simp_all add: c' lba_of_def fun_eq_iff)
  have nth: "s_blk (slots c' ! j) = s_blk (slots c ! j) \<and> s_data (slots c' ! j) = s_data (slots c ! j) \<and>
      s_prev (slots c' ! j) = s_prev (slots c ! j) \<and> s_next (slots c' ! j) = s_next (slots c ! j) \<and>
      (j \<in> set xs \<longrightarrow> s_dirty (slots c' ! j) = s_dirty (slots c ! j))" for j
    using i by (auto simp: c' nth_list_update)
  have dev: "devblk m c' = devblk m c" by (simp add: devblk_def [abs_def] frame)
  have "cbody dev holds c' m (set xs) {i}"
    using body unfolding cbody_def frame dev by (simp add: nth)
  moreover have "lru c' xs" by (rule lru_cong [OF l]) (simp_all add: nth frame, simp_all add: c')
  ultimately show "cinv dev holds c' m xs {i}" by (simp add: cinv_def)
  show "view m c' = view m c" by (rule view_eqI) (simp_all add: frame dev nth)
  have "dirtyw c' k = dirtyw c k" for k
    using cbody_map [OF body] nth by (auto simp: dirtyw_def frame)
  then show "dirtyw c' = dirtyw c" by blast
qed

text \<open>A block that has reached the device: the cached copy, if any, becomes clean.\<close>

lemma write_through:
  assumes inv: "cinv dev holds c m xs {}" and b: "b < nblocks c"
    and d: "holds d m'" "sector_count dev d = sector_count dev (bc_dev c)"
    and far: "\<And>b'. b' \<noteq> b \<Longrightarrow> devblk m' c b' = devblk m c b'" and here: "devblk m' c b = data"
    and len: "length data = BLOCK_SIZE"
    and c': "c' = (case bt_get (bc_map c) b of
      Some i \<Rightarrow> upd_slot i (\<lambda>s. s\<lparr>s_data := data, s_dirty := False, s_tag := t\<rparr>) (bump f (c\<lparr>bc_dev := d, dev_dirty := z\<rparr>))
    | None \<Rightarrow> bump f (c\<lparr>bc_dev := d, dev_dirty := z\<rparr>))"
  shows "cinv dev holds c' m' xs {}" and "view m' c' = (view m c)(b := data)" and "dirtyw c' k \<subseteq> dirtyw c k"
proof -
  have body: "cbody dev holds c m (set xs) {}" and l: "lru c xs" using inv by (auto simp: cinv_def)
  have frame: "bc_dev c' = d" "nblocks c' = nblocks c" "capacity c' = capacity c" "bc_head c' = bc_head c"
    "bc_tail c' = bc_tail c" "bc_free c' = bc_free c" "bc_map c' = bc_map c" "lba_of c' = lba_of c"
    "length (slots c') = length (slots c)"
    by (auto simp: c' lba_of_def fun_eq_iff split: option.split)
  have ilen: "bt_get (bc_map c) b = Some i \<Longrightarrow> i < length (slots c)" for i
    using cbody_map [OF body, of b i] cbody_slot [OF body] by simp
  have nth: "s_blk (slots c' ! j) = s_blk (slots c ! j) \<and> s_prev (slots c' ! j) = s_prev (slots c ! j) \<and>
      s_next (slots c' ! j) = s_next (slots c ! j) \<and>
      s_data (slots c' ! j) = (if bt_get (bc_map c) b = Some j then data else s_data (slots c ! j)) \<and>
      s_dirty (slots c' ! j) = (if bt_get (bc_map c) b = Some j then False else s_dirty (slots c ! j))" for j
    using ilen by (cases "bt_get (bc_map c) b") (auto simp: c' nth_list_update)
  have dev: "devblk m' c' = devblk m' c" by (simp add: devblk_def [abs_def] frame)
  have "bt_get (bc_map c) b = Some i \<longleftrightarrow> i \<in> set xs \<and> s_blk (slots c ! i) = b" for i by (rule cbody_map [OF body])
  then have "j \<in> set xs \<Longrightarrow> \<not> s_dirty (slots c' ! j) \<Longrightarrow> s_data (slots c' ! j) = devblk m' c (s_blk (slots c' ! j))" for j
    using body far here by (cases "s_blk (slots c ! j) = b") (auto simp: nth cbody_def)
  then have "cbody dev holds c' m' (set xs) {}"
    using body d len unfolding cbody_def frame dev by (simp add: nth)
  moreover have "lru c' xs" by (rule lru_cong [OF l]) (simp_all add: nth frame)
  ultimately show "cinv dev holds c' m' xs {}" by (simp add: cinv_def)
  have ne: "bt_get (bc_map c) x = Some j \<Longrightarrow> bt_get (bc_map c) b = Some j \<Longrightarrow> x = b" for x j
    using cbody_map [OF body] by metis
  have "view m' c' x = (if x = b then data else view m c x)" for x
    using ne [of x] far here by (cases "bt_get (bc_map c) x") (auto simp: view_def frame nth dev)
  then show "view m' c' = (view m c)(b := data)" by (simp add: fun_eq_iff)
  show "dirtyw c' k \<subseteq> dirtyw c k"
    by (rule dirtyw_mono) (auto simp: frame nth split: if_splits)
qed

lemma sec_new_append:
  assumes "length x = BLOCK_SIZE"
  shows "sec_new l (x @ y) k = sec_new l x k \<union> sec_new (l + SECTORS_PER_BLOCK) y k"
proof -
  have n: "nsec x = SECTORS_PER_BLOCK" "(length x + length y) div SECTOR_SIZE = SECTORS_PER_BLOCK + nsec y"
    using assms by (simp_all add: SECTORS_PER_BLOCK_def BLOCK_SIZE_def SECTOR_SIZE_def)
  have left: "sec_slice l (x @ y) k = sec_slice l x k" if "k < l + SECTORS_PER_BLOCK"
  proof -
    have "Suc (k - l) \<le> SECTORS_PER_BLOCK" using that block_sizes(2) by linarith
    then have "(k - l) * SECTOR_SIZE + SECTOR_SIZE \<le> length x"
      using mult_le_mono1 [of "Suc (k - l)" SECTORS_PER_BLOCK SECTOR_SIZE] by (simp add: assms block_sizes(1))
    then show ?thesis by (rule get_slice_append_left)
  qed
  have right: "sec_slice l (x @ y) k = sec_slice (l + SECTORS_PER_BLOCK) y k" if "l + SECTORS_PER_BLOCK \<le> k"
  proof -
    have "k - l = SECTORS_PER_BLOCK + (k - (l + SECTORS_PER_BLOCK))" using that by simp
    then have "(k - l) * SECTOR_SIZE = length x + (k - (l + SECTORS_PER_BLOCK)) * SECTOR_SIZE"
      by (simp only: add_mult_distrib assms block_sizes(1))
    then show ?thesis by (simp add: get_slice_append_right)
  qed
  show ?thesis using left right by (cases "k < l + SECTORS_PER_BLOCK") (auto simp: sec_new_def n)
qed

context block_device
begin

lemma cache_is_length: "cache_is dev holds c v \<Longrightarrow> b < nblocks c \<Longrightarrow> length (v b) = BLOCK_SIZE"
  using view_length by (auto simp: cache_is_def)

subsection \<open>Reading one block\<close>

lemma fetch_fail:
  assumes inv: "cinv dev holds c m xs {i}" and rd: "read_sectors dev (bc_dev c) lba n = (rr, d)"
    and c': "c' = c\<lparr>bc_dev := d, bc_free := bc_free c @ [i]\<rparr>"
  shows "cinv dev holds c' m xs {}" and "view m c' = view m c" and "geo c' = geo c" and "cposs poss c' k \<subseteq> cposs poss c k"
proof -
  let ?c = "c\<lparr>bc_dev := d, dev_dirty := dev_dirty c\<rparr>"
  have h: "holds (bc_dev c) m" using inv by (simp add: cinv_def cbody_def)
  note k = read_keeps [OF h rd]
  note cd = cinv_dev [OF inv _ _ refl, of d "dev_dirty c"]
  have inv2: "cinv dev holds ?c m xs {i}" using cd k by simp
  have eq: "c' = ?c\<lparr>bc_free := bc_free ?c @ [i]\<rparr>" by (simp add: c')
  note rl = cinv_release [OF inv2 eq]
  show "cinv dev holds c' m xs {}" by (rule rl)
  show "view m c' = view m c" using rl(2) cd(2) k by simp
  show "geo c' = geo c" by (simp add: c' geo_def)
  show "cposs poss c' k \<subseteq> cposs poss c k" using rl(3) cd(3) k by (auto simp: cposs_def eq)
qed

lemma fetch_ok:
  assumes inv: "cinv dev holds c m xs {i}" and un: "bt_get (bc_map c) b = None" "b < nblocks c"
    and rd: "read_sectors dev (bc_dev c) (lba_of c b) BLOCK_SIZE = (Inr buf, d)"
    and c': "c' = install i b False (bump f (upd_slot i (\<lambda>s. s\<lparr>s_data := buf\<rparr>) (c\<lparr>bc_dev := d\<rparr>)))"
  shows "cinv dev holds c' m (i # xs) {}" and "view m c' = view m c" and "geo c' = geo c"
    and "cposs poss c' k \<subseteq> cposs poss c k" and "s_data (slots c' ! i) = view m c b" and "bt_get (bc_map c') b = Some i"
proof -
  let ?c3 = "c\<lparr>bc_dev := d, dev_dirty := dev_dirty c\<rparr>"
  let ?c4 = "upd_slot i (\<lambda>s. s\<lparr>s_data := buf\<rparr>) ?c3"
  have eq: "c' = install i b False (bump f ?c4)" by (simp add: c')
  have h: "holds (bc_dev c) m" using inv by (simp add: cinv_def cbody_def)
  note k = read_keeps [OF h rd]
  note cd = cinv_dev [OF inv _ _ refl, of d "dev_dirty c"]
  have inv3: "cinv dev holds ?c3 m xs {i}" using cd k by simp
  have bd: "buf = devblk m c b"
    using read_returns [OF h rd] by (simp add: devblk_def SECTORS_PER_BLOCK_def)
  note fi = cinv_fill [OF inv3 read_length [OF h rd] refl]
  have inv5: "cinv dev holds (bump f ?c4) m xs {i}" using fi(1) by simp
  have b5: "b < nblocks (bump f ?c4)" "bt_get (bc_map (bump f ?c4)) b = None" using un by simp_all
  have s5: "s_data (slots (bump f ?c4) ! i) = buf" using fi(4) by (simp del: upd_slot_sel)
  have "devblk m (bump f ?c4) b = devblk m c b" by (simp add: devblk_def lba_of_def)
  then have "False \<or> s_data (slots (bump f ?c4) ! i) = devblk m (bump f ?c4) b" using s5 bd by metis
  note ins = cinv_install [OF inv5 b5 this eq]
  have vb: "view m c b = buf" using un bd by (auto simp: view_def)
  have v5: "view m (bump f ?c4) = view m c" using fi(2) cd(2) k by simp
  show "view m c' = view m c" using ins(2) v5 s5 vb fun_upd_triv [of "view m c" b] by metis
  show "geo c' = geo c" using ins(3) by (simp add: geo_def)
  show "cinv dev holds c' m (i # xs) {}" by (rule ins)
  show "s_data (slots c' ! i) = view m c b" using ins(4) s5 vb by metis
  show "bt_get (bc_map c') b = Some i" by (simp add: eq install_def Let_def push_front_def bt_get_insert)
  have "cposs poss c' k \<subseteq> cposs poss (bump f ?c4) k"
    using ins(5) [of k] ins(6) by (simp only: cposs_def if_False Un_empty_right) blast
  moreover have "cposs poss (bump f ?c4) k = cposs poss ?c3 k" using fi(3) by simp
  moreover have "cposs poss ?c3 k \<subseteq> cposs poss c k" using k cd(3) by (auto simp: cposs_def)
  ultimately show "cposs poss c' k \<subseteq> cposs poss c k" by simp
qed

lemma load_step:
  assumes ci: "cache_is dev holds c v" and ld: "load dev b c = (r, c')"
  shows "cstep dev holds poss c c' v none"
    and "r = Inr i \<Longrightarrow> bt_get (bc_map c') b = Some i \<and> s_data (slots c' ! i) = v b \<and> b < nblocks c"
    and "\<not> b < nblocks c \<Longrightarrow> r = Inl OutOfRange \<and> c' = c"
proof -
  obtain m xs where inv: "cinv dev holds c m xs {}" and v: "view m c = v" using ci by (auto simp: cache_is_def)
  show "\<not> b < nblocks c \<Longrightarrow> r = Inl OutOfRange \<and> c' = c"
    using ld bc_check_out [of b 1 c] by (auto simp: load_def)
  have "cstep dev holds poss c c' v none \<and>
    (\<forall>i. r = Inr i \<longrightarrow> bt_get (bc_map c') b = Some i \<and> s_data (slots c' ! i) = v b \<and> b < nblocks c)"
  proof (cases "bc_check c b 1")
    case (Inl e)
    then show ?thesis using ld cstep_refl [OF ci] by (auto simp: load_def)
  next
    case (Inr u)
    then have b: "b < nblocks c" by (simp add: bc_check_Inr)
    obtain r1 c1 where lk: "lookup b c = (r1, c1)" by fastforce
    obtain xs1 where c1: "cinv dev holds c1 m xs1 {}" "view m c1 = v" "geo c1 = geo c"
        "bc_map c1 = bc_map c" "r1 = bt_get (bc_map c) b" "\<And>i. r1 = Some i \<Longrightarrow> s_data (slots c1 ! i) = v b"
        "\<And>k. cposs poss c1 k = cposs poss c k"
      using cinv_lookup [OF inv lk] by (metis v)
    show ?thesis
    proof (cases r1)
      case (Some i)
      then have "r = Inr i" "c' = c1" using ld Inr lk by (simp_all add: load_def)
      then show ?thesis using c1 Some b by (auto simp: cstep_def cache_is_def)
    next
      case None
      let ?c1 = "bump (\<lambda>s. s\<lparr>misses := misses s + 1\<rparr>) c1"
      obtain r2 c2 where ac: "acquire_slot dev ?c1 = (r2, c2)" by fastforce
      have inv1: "cinv dev holds ?c1 m xs1 {}" using c1(1) by simp
      note a = cinv_acquire_slot [OF inv1 ac]
      have g2: "geo c2 = geo c" using a(2) c1(3) by simp
      have p2: "cposs poss c2 k \<subseteq> cposs poss c k" for k using a(4) [of k] c1(7) by simp
      show ?thesis
      proof (cases r2)
        case (Inl e)
        then have "r = Inl e" "c' = c2" using ld Inr lk None ac by (simp_all add: load_def)
        then show ?thesis using a(1) g2 p2 c1 Inl by (fastforce simp: cstep_def cache_is_def)
      next
        case i: (Inr i)
        obtain m2 xs2 where c2: "cinv dev holds c2 m2 xs2 {i}" "view m2 c2 = v"
          using a(1) i c1(2) by auto
        have un: "bt_get (bc_map c2) b = None" "b < nblocks c2"
          using a(3) [of b] None c1(4,5) b g2 by (cases "bt_get (bc_map c2) b", auto simp: geo_def)
        obtain rr d where rd: "read_sectors dev (bc_dev c2) (lba_of c2 b) BLOCK_SIZE = (rr, d)" by fastforce
        show ?thesis
        proof (cases rr)
          case (Inl e)
          have r: "r = Inl e" and c': "c' = c2\<lparr>bc_dev := d, bc_free := bc_free c2 @ [i]\<rparr>"
            using ld Inr lk None ac i rd Inl by (simp_all add: load_def)
          note f = fetch_fail [OF c2(1) rd c']
          have "cposs poss c' k \<subseteq> cposs poss c k" for k using f(4) [of k] p2 [of k] by blast
          then show ?thesis using f(1-3) g2 c2(2) by (auto simp: r cstep_def cache_is_def)
        next
          case buf: (Inr buf)
          have r: "r = Inr i" and c': "c' = install i b False
              (bump (\<lambda>s. s\<lparr>sectors_read := sectors_read s + SECTORS_PER_BLOCK\<rparr>)
                (upd_slot i (\<lambda>s. s\<lparr>s_data := buf\<rparr>) (c2\<lparr>bc_dev := d\<rparr>)))"
            using ld Inr lk None ac i rd buf by (simp_all add: load_def)
          note f = fetch_ok [OF c2(1) un rd [unfolded buf] c']
          have "cposs poss c' k \<subseteq> cposs poss c k" for k using f(4) [of k] p2 [of k] by blast
          then show ?thesis using f(1-3,5,6) g2 c2(2) b by (auto simp: r cstep_def cache_is_def)
        qed
      qed
    qed
  qed
  then show "cstep dev holds poss c c' v none"
    and "r = Inr i \<Longrightarrow> bt_get (bc_map c') b = Some i \<and> s_data (slots c' ! i) = v b \<and> b < nblocks c" by blast+
qed

theorem bc_read_step:
  assumes "cache_is dev holds c v" and "bc_read dev b c = (r, c')"
  shows "cstep dev holds poss c c' v none" and "r = Inr x \<Longrightarrow> x = v b \<and> b < nblocks c"
    and "\<not> b < nblocks c \<Longrightarrow> r = Inl OutOfRange \<and> c' = c"
proof -
  obtain r1 c1 where ld: "load dev b c = (r1, c1)" by fastforce
  note l = load_step [OF assms(1) ld]
  have "c' = c1" "r = (case r1 of Inl e \<Rightarrow> Inl e | Inr i \<Rightarrow> Inr (s_data (slots c1 ! i)))"
    using assms(2) ld by (auto simp: bc_read_def bindr_def split: sum.splits)
  then show "cstep dev holds poss c c' v none" and "r = Inr x \<Longrightarrow> x = v b \<and> b < nblocks c"
    and "\<not> b < nblocks c \<Longrightarrow> r = Inl OutOfRange \<and> c' = c"
    using l by (auto split: sum.splits)
qed

lemma bc_get_tagged_step:
  assumes "cache_is dev holds c v" and "bc_get_tagged dev b c = (r, c')"
  shows "cstep dev holds poss c c' v none" and "r = Inr (x, t) \<Longrightarrow> x = v b \<and> b < nblocks c"
proof -
  obtain r1 c1 where ld: "load dev b c = (r1, c1)" by fastforce
  note l = load_step [OF assms(1) ld]
  have "c' = c1" "r = (case r1 of Inl e \<Rightarrow> Inl e | Inr i \<Rightarrow> Inr (s_data (slots c1 ! i), s_tag (slots c1 ! i)))"
    using assms(2) ld by (auto simp: bc_get_tagged_def bindr_def split: sum.splits)
  then show "cstep dev holds poss c c' v none" and "r = Inr (x, t) \<Longrightarrow> x = v b \<and> b < nblocks c"
    using l by (auto split: sum.splits)
qed

subsection \<open>Writing one block\<close>

lemma write_cached:
  assumes "cinv dev holds c m xs {}" and "bt_get (bc_map c) b = Some i" and "length data = BLOCK_SIZE"
  shows "cstep dev holds poss c (upd_slot i (\<lambda>s. s\<lparr>s_data := data, s_dirty := True, s_tag := 0\<rparr>) c)
    ((view m c)(b := data)) (sec_new (lba_of c b) data)"
proof -
  let ?c = "upd_slot i (\<lambda>s. s\<lparr>s_data := data, s_dirty := True, s_tag := 0\<rparr>) c"
  note u = cinv_update [OF assms disjI1 [OF TrueI] refl, where t = 0]
  have "dirtyw ?c k \<subseteq> dirtyw c k \<union> sec_new (lba_of c b) data k" for k using u(3) [of k] by simp
  then have "cposs poss ?c k \<subseteq> cposs poss c k \<union> sec_new (lba_of c b) data k" for k
    by (auto simp: cposs_def)
  then show ?thesis using u(1,2) by (intro cstepI [OF u(1)]) simp_all
qed

lemma write_fresh:
  assumes inv: "cinv dev holds c m xs {i}" and b: "b < nblocks c" "bt_get (bc_map c) b = None"
    and len: "length data = BLOCK_SIZE"
  shows "cstep dev holds poss c
    (upd_slot i (\<lambda>s. s\<lparr>s_data := data, s_dirty := True, s_tag := 0\<rparr>) (install i b True c))
    ((view m c)(b := data)) (sec_new (lba_of c b) data)"
proof -
  let ?c1 = "install i b True c"
  let ?c2 = "upd_slot i (\<lambda>s. s\<lparr>s_data := data, s_dirty := True, s_tag := 0\<rparr>) ?c1"
  note ins = cinv_install [OF inv b disjI1 [OF TrueI] refl]
  have get: "bt_get (bc_map ?c1) b' = (if b' = b then Some i else bt_get (bc_map c) b')" for b'
    by (simp add: install_def Let_def push_front_def bt_get_insert)
  have gi: "bt_get (bc_map ?c1) b = Some i" by (simp add: get)
  note u = cinv_update [OF ins(1) gi len disjI1 [OF TrueI] refl]
  have lba: "lba_of ?c1 = lba_of c" by (rule geo_lba [OF ins(3)])
  have "dirtyw ?c2 k \<subseteq> dirtyw c k \<union> sec_new (lba_of c b) data k" for k
  proof
    fix x assume "x \<in> dirtyw ?c2 k"
    then obtain b' s where bs: "bt_get (bc_map ?c1) b' = Some s" "s_dirty (slots ?c2 ! s)"
        "x \<in> sec_new (lba_of c b') (s_data (slots ?c2 ! s)) k"
      unfolding dirtyw_def by (auto simp: lba lba_of_def [of ?c2] lba_of_def [of ?c1, symmetric])
    have i: "i < length (slots ?c1)" using ins(1) by (auto simp: cinv_def cbody_def)
    show "x \<in> dirtyw c k \<union> sec_new (lba_of c b) data k"
    proof (cases "b' = b")
      case True
      then have "s = i" using bs(1) gi by simp
      then show ?thesis using bs(3) True i by simp
    next
      case False
      then have g: "bt_get (bc_map c) b' = Some s" using bs(1) get by simp
      then have s: "s \<in> set xs" "s < length (slots c)" "s \<noteq> i"
        using inv cbody_map [of dev holds c m "set xs" "{i}" b' s] by (auto simp: cinv_def cbody_def)
      let ?c0 = "(upd_slot i (\<lambda>s. s\<lparr>s_blk := b, s_dirty := True, s_tag := 0\<rparr>) c)\<lparr>bc_map := bt_insert b i (bc_map c)\<rparr>"
      have "same_core ?c0 ?c1" using same_core_push_front [of ?c0 i] by (simp add: install_def Let_def)
      then have "s_dirty (slots ?c1 ! s) = s_dirty (slots c ! s)" "s_data (slots ?c1 ! s) = s_data (slots c ! s)"
        using nth_core [of "slots ?c1" "slots ?c0" s] s same_core_length [of ?c0 ?c1] by (simp_all add: same_core_def)
      then show ?thesis using g bs(2,3) s(3) by (auto simp: dirtyw_def)
    qed
  qed
  then have "cposs poss ?c2 k \<subseteq> cposs poss c k \<union> sec_new (lba_of c b) data k" for k
    using ins(6) by (auto simp: cposs_def)
  moreover have "view m ?c2 = (view m c)(b := data)" using u(2) ins(2) by simp
  ultimately show ?thesis using ins(3) by (intro cstepI [OF u(1)]) simp_all
qed

theorem bc_write_step:
  assumes ci: "cache_is dev holds c v" and w: "bc_write dev b data c = (r, c')" and len: "length data = BLOCK_SIZE"
  shows "r = Inl e \<Longrightarrow> cstep dev holds poss c c' v none"
    and "r = Inr u \<Longrightarrow> b < nblocks c \<and> cstep dev holds poss c c' (v(b := data)) (sec_new (lba_of c b) data)"
    and "\<not> b < nblocks c \<Longrightarrow> r = Inl OutOfRange \<and> c' = c"
proof -
  obtain m xs where inv: "cinv dev holds c m xs {}" and v: "view m c = v" using ci by (auto simp: cache_is_def)
  show "\<not> b < nblocks c \<Longrightarrow> r = Inl OutOfRange \<and> c' = c"
    using w bc_check_out [of b 1 c] by (auto simp: bc_write_def)
  let ?put = "\<lambda>i. upd_slot i (\<lambda>s. s\<lparr>s_data := data, s_dirty := True, s_tag := 0\<rparr>)"
  have "(\<forall>e. r = Inl e \<longrightarrow> cstep dev holds poss c c' v none) \<and>
    (r = Inr () \<longrightarrow> b < nblocks c \<and> cstep dev holds poss c c' (v(b := data)) (sec_new (lba_of c b) data))"
  proof (cases "bc_check c b 1")
    case (Inl e)
    then show ?thesis using w cstep_refl [OF ci] by (auto simp: bc_write_def)
  next
    case (Inr u)
    then have b: "b < nblocks c" by (simp add: bc_check_Inr)
    obtain r1 c1 where lk: "lookup b c = (r1, c1)" by fastforce
    obtain xs1 where c1: "cinv dev holds c1 m xs1 {}" "view m c1 = v" "geo c1 = geo c"
        "bc_map c1 = bc_map c" "r1 = bt_get (bc_map c) b" "\<And>k. cposs poss c1 k = cposs poss c k"
      using cinv_lookup [OF inv lk] by (metis v)
    show ?thesis
    proof (cases r1)
      case (Some i)
      then have r: "r = Inr ()" "c' = ?put i c1" using w Inr lk by (simp_all add: bc_write_def)
      have "cstep dev holds poss c1 c' (v(b := data)) (sec_new (lba_of c1 b) data)"
        using write_cached [OF c1(1) _ len] c1 Some r(2) by auto
      then show ?thesis using c1(3,6) geo_lba [OF c1(3)] b r(1) by (auto simp: cstep_def)
    next
      case None
      obtain r2 c2 where ac: "acquire_slot dev (bump (\<lambda>s. s\<lparr>misses := misses s + 1\<rparr>) c1) = (r2, c2)" by fastforce
      have inv1: "cinv dev holds (bump (\<lambda>s. s\<lparr>misses := misses s + 1\<rparr>) c1) m xs1 {}" using c1(1) by simp
      note a = cinv_acquire_slot [OF inv1 ac]
      have g2: "geo c2 = geo c" using a(2) c1(3) by simp
      have p2: "cposs poss c2 k \<subseteq> cposs poss c k" for k using a(4) [of k] c1(6) by simp
      show ?thesis
      proof (cases r2)
        case (Inl e)
        then have "r = Inl e" "c' = c2" using w Inr lk None ac by (simp_all add: bc_write_def)
        then show ?thesis using a(1) g2 p2 c1 Inl by (fastforce simp: cstep_def cache_is_def)
      next
        case i: (Inr i)
        then have r: "r = Inr ()" "c' = ?put i (install i b True c2)"
          using w Inr lk None ac by (simp_all add: bc_write_def)
        obtain m2 xs2 where c2: "cinv dev holds c2 m2 xs2 {i}" "view m2 c2 = v"
          using a(1) i c1(2) by auto
        have un: "b < nblocks c2" "bt_get (bc_map c2) b = None"
          using a(3) [of b] None c1(4,5) b g2 by (auto simp: geo_def) (cases "bt_get (bc_map c2) b", auto)
        have "cstep dev holds poss c2 c' (v(b := data)) (sec_new (lba_of c2 b) data)"
          using write_fresh [OF c2(1) un len] c2(2) r(2) by simp
        then show ?thesis using cstep_pre [OF _ g2 p2] geo_lba [OF g2] b r(1) by auto
      qed
    qed
  qed
  then show "r = Inl e \<Longrightarrow> cstep dev holds poss c c' v none"
    and "r = Inr u \<Longrightarrow> b < nblocks c \<and> cstep dev holds poss c c' (v(b := data)) (sec_new (lba_of c b) data)"
    by auto
qed

text \<open>
  Writing through the cache.  When the device refuses, the cached copy is left alone while
  the sectors may be torn: the caller has to stop trusting the block.
\<close>

theorem write_direct_step:
  assumes ci: "cache_is dev holds c v" and w: "write_direct dev b data tag c = (r, c')" and len: "length data = BLOCK_SIZE"
  shows "geo c' = geo c" and "cposs poss c' k \<subseteq> cposs poss c k \<union> sec_new (lba_of c b) data k"
    and "r = Inr u \<Longrightarrow> b < nblocks c \<and> dev_dirty c' \<and>
      cstep dev holds poss c c' (v(b := data)) (sec_new (lba_of c b) data)"
    and "\<not> b < nblocks c \<Longrightarrow> r = Inl OutOfRange \<and> c' = c"
proof -
  obtain m xs where inv: "cinv dev holds c m xs {}" and v: "view m c = v" using ci by (auto simp: cache_is_def)
  have body: "cbody dev holds c m (set xs) {}" and h: "holds (bc_dev c) m" using inv by (auto simp: cinv_def cbody_def)
  show "\<not> b < nblocks c \<Longrightarrow> r = Inl OutOfRange \<and> c' = c"
    using w bc_check_out [of b 1 c] by (auto simp: write_direct_def)
  have "geo c' = geo c \<and> (\<forall>k. cposs poss c' k \<subseteq> cposs poss c k \<union> sec_new (lba_of c b) data k) \<and>
    (r = Inr () \<longrightarrow> b < nblocks c \<and> dev_dirty c' \<and> cache_is dev holds c' (v(b := data)))"
  proof (cases "bc_check c b 1")
    case (Inl e)
    then show ?thesis using w by (auto simp: write_direct_def)
  next
    case (Inr u)
    then have b: "b < nblocks c" by (simp add: bc_check_Inr)
    obtain rr d where wr: "write_sectors dev (bc_dev c) (lba_of c b) data = (rr, d)" by fastforce
    note p = write_poss [OF h wr]
    obtain m' where m': "holds d m'" "sector_count dev d = sector_count dev (bc_dev c)"
        "\<And>b'. b' \<noteq> b \<Longrightarrow> devblk m' c b' = devblk m c b'" "rr = Inr () \<Longrightarrow> devblk m' c b = data"
      using devblk_write_one [OF h len wr] by blast
    show ?thesis
    proof (cases rr)
      case (Inl e)
      then have r: "r = Inl e" "c' = c\<lparr>bc_dev := d\<rparr>" using w Inr wr by (simp_all add: write_direct_def)
      have "dirtyw c' = dirtyw c" by (simp add: r dirtyw_def [abs_def])
      then have "cposs poss c' k \<subseteq> cposs poss c k \<union> sec_new (lba_of c b) data k" for k
        using p [of k] by (auto simp: cposs_def r)
      then show ?thesis by (simp add: r geo_def)
    next
      case ok: (Inr u')
      let ?b = "bump (\<lambda>s. s\<lparr>sectors_written := sectors_written s + SECTORS_PER_BLOCK\<rparr>)"
      let ?c = "c\<lparr>bc_dev := d, dev_dirty := True\<rparr>"
      have r: "r = Inr ()" and c': "c' = (case bt_get (bc_map c) b of
          Some i \<Rightarrow> upd_slot i (\<lambda>s. s\<lparr>s_data := data, s_dirty := False, s_tag := tag\<rparr>) (?b ?c) | None \<Rightarrow> ?b ?c)"
        using w Inr wr ok by (simp_all add: write_direct_def Let_def)
      have geo': "geo c' = geo c" and dd: "dev_dirty c'" and dev': "bc_dev c' = d"
        by (auto simp: c' geo_def split: option.split)
      have cin: "cinv dev holds c' m' xs {}" and vw: "view m' c' = v(b := data)" and dw: "\<And>k. dirtyw c' k \<subseteq> dirtyw c k"
        using write_through [OF inv b m'(1,2,3) _ len c'] m'(4) ok v by auto
      have "cposs poss c' k \<subseteq> cposs poss c k \<union> sec_new (lba_of c b) data k" for k
        using p [of k] dw [of k] by (auto simp: cposs_def dev')
      then show ?thesis using geo' dd b cin vw by (auto simp: r cache_is_def)
    qed
  qed
  then show "geo c' = geo c" and "cposs poss c' k \<subseteq> cposs poss c k \<union> sec_new (lba_of c b) data k"
    and "r = Inr u \<Longrightarrow> b < nblocks c \<and> dev_dirty c' \<and>
      cstep dev holds poss c c' (v(b := data)) (sec_new (lba_of c b) data)"
    by (auto simp: cstep_def)
qed

lemma discard_step:
  assumes ci: "cache_is dev holds c v"
  shows "\<exists>x. cstep dev holds poss c (discard b c) (v(b := x)) none"
    and "bt_get (bc_map c) b = None \<Longrightarrow> discard b c = c"
proof -
  show "bt_get (bc_map c) b = None \<Longrightarrow> discard b c = c" by (simp add: discard_def)
  obtain m xs where inv: "cinv dev holds c m xs {}" and v: "view m c = v" using ci by (auto simp: cache_is_def)
  have body: "cbody dev holds c m (set xs) {}" using inv by (simp add: cinv_def)
  show "\<exists>x. cstep dev holds poss c (discard b c) (v(b := x)) none"
  proof (cases "bt_get (bc_map c) b")
    case None
    then show ?thesis using cstep_refl [OF ci] by (auto simp: discard_def intro!: exI [of _ "v b"])
  next
    case (Some i)
    then have i: "i \<in> set xs" "s_blk (slots c ! i) = b" using cbody_map [OF body] by auto
    let ?c1 = "(unlink i c)\<lparr>bc_map := bt_remove b (bc_map c)\<rparr>"
    let ?c2 = "upd_slot i (\<lambda>s. s\<lparr>s_dirty := False\<rparr>) ?c1"
    have un: "unlink i (c\<lparr>bc_map := bt_remove b (bc_map c)\<rparr>) = ?c1"
      by (simp add: unlink_def upd_slot_def Let_def)
    have eq: "discard b c = ?c2\<lparr>bc_free := bc_free ?c2 @ [i]\<rparr>" using Some un by (simp add: discard_def Let_def)
    note d = cinv_drop [OF inv i refl]
    note h = cinv_undirty [OF d(1) refl]
    note rl = cinv_release [OF h(1) eq]
    have "cposs poss (discard b c) k \<subseteq> cposs poss c k" for k
      using d(4) [of k] h(3) rl(3) by (auto simp: cposs_def eq)
    moreover have "view m (discard b c) = v(b := devblk m c b)" using rl(2) h(2) d(2) v by simp
    moreover have "geo (discard b c) = geo c" using d(3) by (simp add: eq geo_def)
    ultimately show ?thesis using cstepI [OF rl(1)] by (auto intro!: exI [of _ "devblk m c b"])
  qed
qed

end

subsection \<open>Flushing\<close>

lemma run_len_spec:
  "run_len first n ds \<le> n + length ds"
  "k < run_len first n ds - n \<Longrightarrow> fst (ds ! k) = first + n + k"
proof -
  have "run_len first n ds \<le> n + length ds \<and> (\<forall>k < run_len first n ds - n. fst (ds ! k) = first + n + k)"
  proof (induction first n ds rule: run_len.induct)
    case (2 first n b i ds)
    show ?case
    proof (cases "n < FLUSH_RUN \<and> b = first + n")
      case True
      then have IH: "run_len first (n + 1) ds \<le> n + 1 + length ds"
        "\<And>k. k < run_len first (n + 1) ds - (n + 1) \<Longrightarrow> fst (ds ! k) = first + (n + 1) + k"
        using 2 by auto
      have "fst (((b, i) # ds) ! k) = first + n + k" if "k < run_len first (n + 1) ds - n" for k
        using IH(2) [of "k - 1"] True that by (cases k) auto
      then show ?thesis using True IH(1) by simp
    next
      case False
      then show ?thesis by auto
    qed
  qed simp
  then show "run_len first n ds \<le> n + length ds"
    and "k < run_len first n ds - n \<Longrightarrow> fst (ds ! k) = first + n + k" by auto
qed

text \<open>The blocks of one coalesced transfer are consecutive.\<close>

lemma run_blocks:
  assumes "n = run_len b 1 ds" and "run = take n ((b, i) # ds)"
  shows "length run = n" and "k < n \<Longrightarrow> fst (run ! k) = b + k"
proof -
  show "length run = n" using run_len_spec(1) [of b 1 ds] assms by simp
  show "k < n \<Longrightarrow> fst (run ! k) = b + k"
    using run_len_spec(2) [of "k - 1" b 1 ds] assms by (cases k) auto
qed

lemma clean_slots_sel:
  "bc_dev (clean_slots ds c) = bc_dev c" "geo (clean_slots ds c) = geo c" "bc_map (clean_slots ds c) = bc_map c"
  "bc_free (clean_slots ds c) = bc_free c" "bc_head (clean_slots ds c) = bc_head c" "bc_tail (clean_slots ds c) = bc_tail c"
  "dev_dirty (clean_slots ds c) = dev_dirty c" "length (slots (clean_slots ds c)) = length (slots c)"
  by (induction ds arbitrary: c) (auto simp: clean_slots_def)

lemma clean_slots_nth:
  assumes "j < length (slots c)"
  shows "s_blk (slots (clean_slots ds c) ! j) = s_blk (slots c ! j) \<and> s_data (slots (clean_slots ds c) ! j) = s_data (slots c ! j) \<and>
    s_prev (slots (clean_slots ds c) ! j) = s_prev (slots c ! j) \<and> s_next (slots (clean_slots ds c) ! j) = s_next (slots c ! j) \<and>
    s_dirty (slots (clean_slots ds c) ! j) = (s_dirty (slots c ! j) \<and> j \<notin> snd ` set ds)"
  using assms
proof (induction ds arbitrary: c)
  case Nil
  then show ?case by (simp add: clean_slots_def)
next
  case (Cons p ds)
  obtain b i where p: "p = (b, i)" by (cases p)
  let ?c = "upd_slot i (\<lambda>s. s\<lparr>s_dirty := False\<rparr>) c"
  have "clean_slots (p # ds) c = clean_slots ds ?c" by (simp add: clean_slots_def p)
  then show ?case
    using Cons.IH [of ?c] Cons.prems by (cases "j = i") (auto simp: p nth_list_update)
qed

text \<open>Marking clean the blocks of a run that have reached the device.\<close>

lemma cinv_clean_slots:
  assumes inv: "cinv dev holds c m xs {}" and d: "holds d m'" "sector_count dev d = sector_count dev (bc_dev c)"
    and run: "\<And>b i. (b, i) \<in> set run \<Longrightarrow> bt_get (bc_map c) b = Some i \<and> devblk m' c b = s_data (slots c ! i)"
    and dirty: "\<And>b. b \<notin> fst ` set run \<Longrightarrow> devblk m' c b = devblk m c b"
    and c': "c' = clean_slots run (bump f (c\<lparr>bc_dev := d, dev_dirty := z\<rparr>))"
  shows "cinv dev holds c' m' xs {}" and "view m' c' = view m c" and "dirtyw c' k \<subseteq> dirtyw c k"
proof -
  have body: "cbody dev holds c m (set xs) {}" and l: "lru c xs" using inv by (auto simp: cinv_def)
  have geo: "geo c' = geo c" by (simp add: c' clean_slots_sel(2))
  have frame: "bc_dev c' = d" "nblocks c' = nblocks c" "capacity c' = capacity c" "bc_head c' = bc_head c"
    "bc_tail c' = bc_tail c" "bc_free c' = bc_free c" "bc_map c' = bc_map c" "lba_of c' = lba_of c"
    "length (slots c') = length (slots c)"
    using geo geo_lba [OF geo] by (auto simp: c' clean_slots_sel geo_def)
  have nth: "j < length (slots c) \<Longrightarrow> s_blk (slots c' ! j) = s_blk (slots c ! j) \<and> s_data (slots c' ! j) = s_data (slots c ! j) \<and>
    s_prev (slots c' ! j) = s_prev (slots c ! j) \<and> s_next (slots c' ! j) = s_next (slots c ! j) \<and>
    s_dirty (slots c' ! j) = (s_dirty (slots c ! j) \<and> j \<notin> snd ` set run)" for j
    using clean_slots_nth [of j "bump f (c\<lparr>bc_dev := d, dev_dirty := z\<rparr>)" run] by (simp add: c')
  have len: "j \<in> set xs \<Longrightarrow> j < length (slots c)" for j by (rule cbody_slot [OF body])
  have dev: "devblk m' c' = devblk m' c" by (simp add: devblk_def [abs_def] frame)
  have data: "s_data (slots c ! j) = devblk m' c (s_blk (slots c ! j))"
    if "j \<in> set xs" "\<not> s_dirty (slots c' ! j)" for j
  proof (cases "s_blk (slots c ! j) \<in> fst ` set run")
    case True
    then obtain i where i: "(s_blk (slots c ! j), i) \<in> set run" by auto
    then have "i = j" using run [OF i] cbody_map [OF body, of "s_blk (slots c ! j)" j] that(1) by simp
    then show ?thesis using run [OF i] by simp
  next
    case False
    have "j \<notin> snd ` set run"
    proof
      assume "j \<in> snd ` set run"
      then obtain b where b: "(b, j) \<in> set run" by auto
      then have "s_blk (slots c ! j) = b" using run [OF b] cbody_map [OF body, of b j] by simp
      then show False using False b by force
    qed
    then have "\<not> s_dirty (slots c ! j)" using that nth [OF len [OF that(1)]] by simp
    then have "s_data (slots c ! j) = devblk m c (s_blk (slots c ! j))" using body that(1) by (simp add: cbody_def)
    then show ?thesis using dirty [OF False] by simp
  qed
  have "cbody dev holds c' m' (set xs) {}"
    using body d data len unfolding cbody_def frame dev by (auto simp: nth)
  moreover have "lru c' xs" by (rule lru_cong [OF l]) (simp_all add: nth len frame)
  ultimately show "cinv dev holds c' m' xs {}" by (simp add: cinv_def)
  show "view m' c' = view m c"
  proof (rule view_eqI [OF frame(7)])
    show "bt_get (bc_map c) b = Some i \<Longrightarrow> s_data (slots c' ! i) = s_data (slots c ! i)" for b i
      using cbody_map [OF body, of b i] nth [of i] len by simp
    show "bt_get (bc_map c) b = None \<Longrightarrow> devblk m' c' b = devblk m c b" for b
      using dirty [of b] run dev by fastforce
  qed
  show "dirtyw c' k \<subseteq> dirtyw c k"
    by (rule dirtyw_mono) (use cbody_map [OF body] nth len in \<open>auto simp: frame\<close>)
qed

text \<open>The sectors of a run are sectors of its dirty blocks.\<close>

lemma run_dirtyw:
  assumes cons: "\<And>k. k < n \<Longrightarrow> fst (run ! k) = b + k"
    and ok: "\<And>b i. (b, i) \<in> set run \<Longrightarrow> bt_get (bc_map c) b = Some i \<and> s_dirty (slots c ! i)"
    and n: "length run = n"
    and bl: "\<And>x. x \<in> set (map (\<lambda>(b, i). s_data (slots c ! i)) run) \<Longrightarrow> length x = BLOCK_SIZE"
    and buf: "buf = concat (map (\<lambda>(b, i). s_data (slots c ! i)) run)"
  shows "sec_new (lba_of c b) buf j \<subseteq> dirtyw c j"
proof (cases "lba_of c b \<le> j \<and> j < lba_of c b + nsec buf")
  case False
  then show ?thesis by (auto simp: sec_new_def)
next
  case True
  let ?q = "(j - lba_of c b) div SECTORS_PER_BLOCK" and ?r = "(j - lba_of c b) mod SECTORS_PER_BLOCK"
  have len: "length buf = n * BLOCK_SIZE"
    using length_concat_const [of "map (\<lambda>(b, i). s_data (slots c ! i)) run" BLOCK_SIZE] bl n by (simp add: buf)
  then have "j - lba_of c b < n * SECTORS_PER_BLOCK" using True nsec_blocks [OF len] by linarith
  then have q: "?q < n" by (simp add: less_mult_imp_div_less)
  have r: "?r < SECTORS_PER_BLOCK" using block_sizes(2) by simp
  have jeq: "j - lba_of c b = ?q * SECTORS_PER_BLOCK + ?r" by simp
  obtain b' i' where e: "run ! ?q = (b', i')" by fastforce
  have b': "b' = b + ?q" using cons [OF q] e by simp
  have mem: "(b', i') \<in> set run" using nth_mem [of ?q run] q n e by simp
  have dl: "length (s_data (slots c ! i')) = BLOCK_SIZE" using bl mem by force
  have slice: "get_slice (?q * BLOCK_SIZE) BLOCK_SIZE buf = s_data (slots c ! i')"
    using get_slice_concat [of "map (\<lambda>(b, i). s_data (slots c ! i)) run" BLOCK_SIZE ?q, OF bl] q n e by (simp add: buf)
  have lb: "lba_of c b' = lba_of c b + ?q * SECTORS_PER_BLOCK" by (simp add: b' lba_of_add)
  have off: "(j - lba_of c b) * SECTOR_SIZE = ?q * BLOCK_SIZE + ?r * SECTOR_SIZE"
    by (subst jeq) (simp only: block_sizes(1) add_mult_distrib mult.assoc)
  have fit: "?r * SECTOR_SIZE + SECTOR_SIZE \<le> BLOCK_SIZE"
    using r mult_le_mono1 [of "Suc ?r" SECTORS_PER_BLOCK SECTOR_SIZE] by (simp add: block_sizes(1))
  have "sec_slice (lba_of c b) buf j = get_slice (?r * SECTOR_SIZE) SECTOR_SIZE (get_slice (?q * BLOCK_SIZE) BLOCK_SIZE buf)"
    using fit by (simp add: off get_slice_def take_drop min_def add.commute add.left_commute)
  moreover have "j - lba_of c b' = ?r" using jeq lb by linarith
  ultimately have "sec_slice (lba_of c b) buf j = sec_slice (lba_of c b') (s_data (slots c ! i')) j"
    using slice by simp
  moreover have "lba_of c b' \<le> j" "j < lba_of c b' + SECTORS_PER_BLOCK" using jeq lb r True by linarith+
  moreover have "nsec (s_data (slots c ! i')) = SECTORS_PER_BLOCK" using dl by (simp add: SECTORS_PER_BLOCK_def)
  ultimately have "sec_new (lba_of c b) buf j \<subseteq> sec_new (lba_of c b') (s_data (slots c ! i')) j"
    using True by (simp add: sec_new_def)
  then show ?thesis using dirtyw_mem [of c b' i' j] ok [OF mem] by blast
qed

context block_device
begin

lemma concat_blocks:
  assumes "k < length xs" and "\<And>x. x \<in> set xs \<Longrightarrow> length x = BLOCK_SIZE"
  shows "get_slice (k * BLOCK_SIZE) BLOCK_SIZE (concat xs) = xs ! k"
  by (rule get_slice_concat) (use assms in auto)

text \<open>One transfer of the flush loop.\<close>

lemma flush_run:
  assumes inv: "cinv dev holds c m xs {}" and n: "n = run_len b 1 ds" and run: "run = take n ((b, i) # ds)"
    and ok: "\<And>b i. (b, i) \<in> set run \<Longrightarrow> bt_get (bc_map c) b = Some i \<and> s_dirty (slots c ! i)"
    and buf: "buf = concat (map (\<lambda>(b, i). s_data (slots c ! i)) run)"
    and w: "write_sectors dev (bc_dev c) (lba_of c b) buf = (r, d)"
  shows "r = Inr () \<Longrightarrow> c' = clean_slots run (bump f (c\<lparr>bc_dev := d, dev_dirty := True\<rparr>)) \<Longrightarrow>
      \<exists>m'. cinv dev holds c' m' xs {} \<and> view m' c' = view m c"
    and "c' = c\<lparr>bc_dev := d\<rparr> \<Longrightarrow> \<exists>m'. cinv dev holds c' m' xs {} \<and> view m' c' = view m c"
    and "poss d k \<subseteq> cposs poss c k"
proof -
  note rb = run_blocks [OF n run]
  have body: "cbody dev holds c m (set xs) {}" and h: "holds (bc_dev c) m" using inv by (auto simp: cinv_def cbody_def)
  have bl: "x \<in> set (map (\<lambda>(b, i). s_data (slots c ! i)) run) \<Longrightarrow> length x = BLOCK_SIZE" for x
    using ok cbody_map [OF body] cbody_slot [OF body] body unfolding cbody_def by fastforce
  have len: "length buf = n * BLOCK_SIZE"
    using length_concat_const [of "map (\<lambda>(b, i). s_data (slots c ! i)) run" BLOCK_SIZE] bl rb(1) by (simp add: buf)
  have slice: "get_slice (k * BLOCK_SIZE) BLOCK_SIZE buf = s_data (slots c ! snd (run ! k))" if "k < n" for k
    using concat_blocks [of k "map (\<lambda>(b, i). s_data (slots c ! i)) run", OF _ bl] that rb(1)
    by (simp add: buf case_prod_beta)
  obtain m' where m': "holds d m'" "sector_count dev d = sector_count dev (bc_dev c)"
      "\<And>b'. b' < b \<or> b + n \<le> b' \<Longrightarrow> devblk m' c b' = devblk m c b'"
      "\<And>k. r = Inr () \<Longrightarrow> k < n \<Longrightarrow> devblk m' c (b + k) = get_slice (k * BLOCK_SIZE) BLOCK_SIZE buf"
    using devblk_write [OF h len w] by blast
  have mem: "(b', i') \<in> set run \<longleftrightarrow> (\<exists>k<n. run ! k = (b', i'))" for b' i'
    using rb(1) by (auto simp: in_set_conv_nth)
  have inrun: "b' \<in> fst ` set run \<longleftrightarrow> b \<le> b' \<and> b' < b + n" for b'
  proof
    assume "b' \<in> fst ` set run"
    then obtain i' k where "k < n" "run ! k = (b', i')" using mem by auto
    then show "b \<le> b' \<and> b' < b + n" using rb(2) [of k] by simp
  next
    assume "b \<le> b' \<and> b' < b + n"
    then have "run ! (b' - b) \<in> set run" "fst (run ! (b' - b)) = b'" using rb by auto
    then show "b' \<in> fst ` set run" by (metis image_eqI)
  qed
  have far: "b' \<notin> fst ` set run \<Longrightarrow> devblk m' c b' = devblk m c b'" for b' using m'(3) [of b'] inrun by force
  show "\<exists>m'. cinv dev holds c' m' xs {} \<and> view m' c' = view m c"
    if "r = Inr ()" "c' = clean_slots run (bump f (c\<lparr>bc_dev := d, dev_dirty := True\<rparr>))"
  proof -
    have "bt_get (bc_map c) b' = Some i' \<and> devblk m' c b' = s_data (slots c ! i')" if rn: "(b', i') \<in> set run" for b' i'
    proof -
      obtain k where k: "k < n" "run ! k = (b', i')" using mem [of b' i'] rn by blast
      then have "b' = b + k" using rb(2) [OF k(1)] by simp
      then show ?thesis using ok [OF rn] m'(4) [OF \<open>r = Inr ()\<close> k(1)] slice [OF k(1)] k(2) by simp
    qed
    from cinv_clean_slots [OF inv m'(1,2) this far that(2)] show ?thesis by blast
  qed
  show "\<exists>m'. cinv dev holds c' m' xs {} \<and> view m' c' = view m c" if c': "c' = c\<lparr>bc_dev := d\<rparr>"
  proof -
    have dev: "devblk m' c' = devblk m' c" by (simp add: devblk_def [abs_def] c' lba_of_def)
    have "s_blk (slots c ! j) \<in> fst ` set run \<Longrightarrow> j \<in> set xs \<Longrightarrow> s_dirty (slots c ! j)" for j
    proof -
      fix j assume "s_blk (slots c ! j) \<in> fst ` set run" "j \<in> set xs"
      then obtain i' where "(s_blk (slots c ! j), i') \<in> set run" by auto
      from ok [OF this] show "s_dirty (slots c ! j)"
        using cbody_map [OF body, of "s_blk (slots c ! j)" j] \<open>j \<in> set xs\<close> by auto
    qed
    then have "j \<in> set xs \<Longrightarrow> \<not> s_dirty (slots c ! j) \<Longrightarrow>
        devblk m' c (s_blk (slots c ! j)) = devblk m c (s_blk (slots c ! j))" for j using far by blast
    then have "cinv dev holds c' m' xs {}"
      using inv m'(1,2) unfolding cinv_def cbody_def lru_def dev by (simp add: c' lba_of_def)
    moreover have "view m' c' = view m c"
    proof (rule view_eqI)
      show "bt_get (bc_map c) b' = None \<Longrightarrow> devblk m' c' b' = devblk m c b'" for b'
        using far [of b'] ok dev by fastforce
    qed (simp_all add: c')
    ultimately show ?thesis by blast
  qed
  have "sec_new (lba_of c b) buf k \<subseteq> dirtyw c k" by (rule run_dirtyw [OF rb(2) ok _ bl buf]) (use rb(1) in simp_all)
  then show "poss d k \<subseteq> cposs poss c k" using write_poss [OF h w, of k] by (auto simp: cposs_def)
qed

text \<open>
  The loop over the dirty blocks.  Whatever fails, nothing is lost; if nothing failed,
  every block of the list is clean.
\<close>

lemma flush_loop_step:
  assumes "cinv dev holds c m xs {}" and "\<And>b i. (b, i) \<in> set ds \<Longrightarrow> bt_get (bc_map c) b = Some i \<and> s_dirty (slots c ! i)"
    and "distinct (map snd ds)" and "flush_loop dev ds err c = (err', c')"
  shows "(\<exists>m'. cinv dev holds c' m' xs {} \<and> view m' c' = view m c) \<and> geo c' = geo c \<and> bc_map c' = bc_map c \<and>
    (\<forall>k. cposs poss c' k \<subseteq> cposs poss c k) \<and> (dev_dirty c \<longrightarrow> dev_dirty c') \<and>
    (\<forall>j < length (slots c). s_dirty (slots c' ! j) \<longrightarrow> s_dirty (slots c ! j) \<and> (err' = None \<longrightarrow> j \<notin> snd ` set ds)) \<and>
    (err' = None \<longrightarrow> err = None) \<and> length (slots c') = length (slots c)"
  using assms
proof (induction "length ds" arbitrary: ds c err m rule: less_induct)
  case less
  show ?case
  proof (cases ds)
    case Nil
    then show ?thesis using less.prems by auto
  next
    case (Cons e ds0)
    obtain b i where e: "e = (b, i)" by (cases e)
    let ?n = "run_len b 1 ds0"
    define run where "run = take ?n ((b, i) # ds0)"
    define rest where "rest = drop ?n ((b, i) # ds0)"
    define buf where "buf = concat (map (\<lambda>(b, i). s_data (slots c ! i)) run)"
    obtain r d where w: "write_sectors dev (bc_dev c) (lba_of c b) buf = (r, d)" by fastforce
    have split: "ds = run @ rest" by (simp add: Cons e run_def rest_def)
    have short: "length rest < length ds" by (simp add: Cons e rest_def run_len_pos)
    have ok: "(b, i) \<in> set run \<Longrightarrow> bt_get (bc_map c) b = Some i \<and> s_dirty (slots c ! i)" for b i
      using less.prems(2) split by auto
    note fr = flush_run [OF less.prems(1) refl run_def ok buf_def w]
    let ?c1 = "case r of Inr _ \<Rightarrow> clean_slots run (bump (\<lambda>s. s\<lparr>writebacks := writebacks s + ?n,
        sectors_written := sectors_written s + ?n * SECTORS_PER_BLOCK\<rparr>) (c\<lparr>bc_dev := d, dev_dirty := True\<rparr>))
      | Inl _ \<Rightarrow> c\<lparr>bc_dev := d\<rparr>"
    define c1 where "c1 = ?c1"
    define err1 where "err1 = (case r of Inr _ \<Rightarrow> err | Inl e \<Rightarrow> (case err of None \<Rightarrow> Some e | Some e0 \<Rightarrow> Some e0))"
    have loop: "flush_loop dev rest err1 c1 = (err', c')"
      using less.prems(4) w by (cases r) (auto simp: Cons e Let_def run_def rest_def buf_def c1_def err1_def)
    obtain m1 where inv1: "cinv dev holds c1 m1 xs {}" and v1: "view m1 c1 = view m c"
      using fr(1,2) by (cases r) (auto simp: c1_def)
    have body: "cbody dev holds c m (set xs) {}" using less.prems(1) by (simp add: cinv_def)
    have frame: "geo c1 = geo c" "bc_map c1 = bc_map c" "length (slots c1) = length (slots c)"
        "dev_dirty c \<longrightarrow> dev_dirty c1" "bc_dev c1 = d"
      by (auto simp: c1_def clean_slots_sel split: sum.split)
    have nth: "j < length (slots c) \<Longrightarrow> s_data (slots c1 ! j) = s_data (slots c ! j) \<and>
        s_dirty (slots c1 ! j) = (s_dirty (slots c ! j) \<and> \<not> (r = Inr () \<and> j \<in> snd ` set run))" for j
      using clean_slots_nth [of j "bump f (c\<lparr>bc_dev := d, dev_dirty := True\<rparr>)" run for f]
      by (cases r) (auto simp: c1_def)
    have len: "bt_get (bc_map c) b = Some j \<Longrightarrow> j < length (slots c)" for b j
      using cbody_map [OF body] cbody_slot [OF body] by blast
    have disj: "snd ` set run \<inter> snd ` set rest = {}" using less.prems(3) split by auto
    have "bt_get (bc_map c1) b = Some i \<and> s_dirty (slots c1 ! i)" if "(b, i) \<in> set rest" for b i
      using less.prems(2) [of b i] that split disj frame(2) nth [of i] len [of b i] by force
    note IH0 = less.hyps [OF short inv1 _ _ loop, OF this]
    have "dirtyw c1 k \<subseteq> dirtyw c k" for k
      by (rule dirtyw_mono) (use frame nth len geo_lba [OF frame(1)] in auto)
    then have p1: "cposs poss c1 k \<subseteq> cposs poss c k" for k using fr(3) [of k] frame(5) by (auto simp: cposs_def)
    have "distinct (map snd rest)" using less.prems(3) split by simp
    then have IH: "(\<exists>m'. cinv dev holds c' m' xs {} \<and> view m' c' = view m1 c1) \<and> geo c' = geo c1 \<and> bc_map c' = bc_map c1 \<and>
      (\<forall>k. cposs poss c' k \<subseteq> cposs poss c1 k) \<and> (dev_dirty c1 \<longrightarrow> dev_dirty c') \<and>
      (\<forall>j < length (slots c1). s_dirty (slots c' ! j) \<longrightarrow> s_dirty (slots c1 ! j) \<and> (err' = None \<longrightarrow> j \<notin> snd ` set rest)) \<and>
      (err' = None \<longrightarrow> err1 = None) \<and> length (slots c') = length (slots c1)"
      by (intro IH0) auto
    have errn: "err1 = None \<longrightarrow> err = None \<and> r = Inr ()" by (auto simp: err1_def split: sum.splits option.splits)
    have "s_dirty (slots c ! j) \<and> (err' = None \<longrightarrow> j \<notin> snd ` set ds)" if "j < length (slots c)" "s_dirty (slots c' ! j)" for j
      using IH that nth [of j] frame(3) errn split by auto
    moreover have "cposs poss c' k \<subseteq> cposs poss c k" for k
    proof -
      have "cposs poss c' k \<subseteq> cposs poss c1 k" using IH by simp
      then show ?thesis using p1 [of k] by simp
    qed
    moreover have "\<exists>m'. cinv dev holds c' m' xs {} \<and> view m' c' = view m c" using IH v1 by simp
    moreover have "geo c' = geo c \<and> bc_map c' = bc_map c \<and> length (slots c') = length (slots c)"
      "dev_dirty c \<longrightarrow> dev_dirty c'" "err' = None \<longrightarrow> err = None" using IH frame errn by simp_all
    ultimately show ?thesis by simp
  qed
qed

theorem bc_flush_step:
  assumes ci: "cache_is dev holds c v" and fl: "bc_flush dev c = (r, c')"
  shows "cstep dev holds poss c c' v none"
    and "r = Inr u \<Longrightarrow> dirty_count c' = 0"
    and "r = Inr u \<Longrightarrow> dev_dirty c \<Longrightarrow> b < nblocks c \<Longrightarrow> k < SECTORS_PER_BLOCK \<Longrightarrow>
      cposs poss c' (lba_of c b + k) \<subseteq> {get_slice (k * SECTOR_SIZE) SECTOR_SIZE (v b)}"
proof -
  obtain m xs where inv: "cinv dev holds c m xs {}" and v: "view m c = v" using ci by (auto simp: cache_is_def)
  have body: "cbody dev holds c m (set xs) {}" using inv by (simp add: cinv_def)
  have bi: "bt_inv (bc_map c)" using body by (simp add: cbody_def)
  have dl: "(b, i) \<in> set (dirty_list c) \<longleftrightarrow> bt_get (bc_map c) b = Some i \<and> s_dirty (slots c ! i)" for b i
    using bt_get_iff [OF bi] by (auto simp: dirty_list_def)
  have "inj_on snd (set (bc_map c))"
  proof (rule inj_onI, clarify)
    fix b i b' i' assume "(b, i) \<in> set (bc_map c)" "(b', i') \<in> set (bc_map c)" "snd (b, i) = snd (b', i')"
    then show "b = b' \<and> i = i'" using cbody_map [OF body] bt_get_iff [OF bi] by (metis snd_conv)
  qed
  then have ds: "distinct (map snd (dirty_list c))"
    using bt_inv_distinct [OF bi] by (auto simp: dirty_list_def distinct_map intro: inj_on_subset distinct_filter)
  obtain e1 c1 where loop: "flush_loop dev (dirty_list c) None c = (e1, c1)" by fastforce
  note fl1 = flush_loop_step [OF inv _ ds loop]
  obtain m1 where inv1: "cinv dev holds c1 m1 xs {}" "view m1 c1 = v" and g1: "geo c1 = geo c" "bc_map c1 = bc_map c"
      "length (slots c1) = length (slots c)"
    and p1: "\<And>k. cposs poss c1 k \<subseteq> cposs poss c k" and dd: "dev_dirty c \<longrightarrow> dev_dirty c1"
    and cl: "\<And>j. j < length (slots c) \<Longrightarrow> s_dirty (slots c1 ! j) \<Longrightarrow> e1 = None \<Longrightarrow>
      s_dirty (slots c ! j) \<and> j \<notin> snd ` set (dirty_list c)"
    using fl1 dl v by auto
  have clean: "e1 = None \<Longrightarrow> bt_get (bc_map c) b = Some i \<Longrightarrow> \<not> s_dirty (slots c1 ! i)" for b i
    using cl [of i] dl [of b i] cbody_map [OF body] cbody_slot [OF body] by force
  have st1: "cstep dev holds poss c c1 v none" using cstepI [OF inv1 g1(1)] p1 by simp
  have h1: "holds (bc_dev c1) m1" using inv1(1) by (simp add: cinv_def cbody_def)
  consider (err) e where "r = Inl e" "c' = c1" | (idle) "r = Inr ()" "c' = c1" "e1 = None" "\<not> dev_dirty c1"
    | (barrier) rr d z f where "flush_dev dev (bc_dev c1) = (rr, d)" "r = rr" "c' = bump f (c1\<lparr>bc_dev := d, dev_dirty := z\<rparr>)"
      "e1 = None"
  proof (cases e1)
    case (Some e)
    then show ?thesis using fl loop by (intro err [of e]) (auto simp: bc_flush_def)
  next
    case None
    obtain rr d where f: "flush_dev dev (bc_dev c1) = (rr, d)" by fastforce
    show ?thesis
    proof (cases "dev_dirty c1")
      case True
      then show ?thesis
      proof (cases rr)
        case (Inl e)
        then show ?thesis using fl loop None True f
          by (intro barrier [OF f, of id "dev_dirty c1"]) (auto simp: bc_flush_def bump_def)
      next
        case (Inr u')
        then show ?thesis using fl loop None True f
          by (intro barrier [OF f, of "\<lambda>s. s\<lparr>flushes := flushes s + 1\<rparr>" False]) (auto simp: bc_flush_def)
      qed
    next
      case False
      then show ?thesis using fl loop None by (intro idle) (auto simp: bc_flush_def)
    qed
  qed
  then have "cstep dev holds poss c c' v none \<and> (r = Inr () \<longrightarrow> dirty_count c' = 0) \<and>
    (r = Inr () \<longrightarrow> dev_dirty c \<longrightarrow> (\<forall>k. cposs poss c' k \<subseteq> {m1 k})) \<and> (r = Inr () \<longrightarrow> e1 = None)"
  proof cases
    case err
    then show ?thesis using st1 by simp
  next
    case idle
    then show ?thesis using st1 dd clean bt_get_iff [OF bi] by (auto simp: dirty_count_def g1 filter_empty_conv)
  next
    case barrier
    note fk = flush_keeps [OF h1 barrier(1)]
    note cd = cinv_dev [OF inv1(1) _ _ refl, of d z]
    have inv2: "cinv dev holds c' m1 xs {}" "view m1 c' = v" and dw: "dirtyw c' = dirtyw c1"
      using cd fk inv1(2) by (auto simp: barrier(3) dirtyw_def [abs_def] lba_of_def)
    have d': "bc_dev c' = d" by (simp add: barrier(3))
    have p2: "cposs poss c' k \<subseteq> cposs poss c k" for k
      using fk [of k] dw p1 [of k] by (auto simp: cposs_def d')
    have "dirtyw c' k = {}" for k using clean [OF barrier(4)] dw by (auto simp: dirtyw_def g1)
    then have "r = Inr () \<Longrightarrow> cposs poss c' k \<subseteq> {m1 k}" for k
      using flush_settles [OF h1, of "()" d k] barrier(1,2) by (simp add: cposs_def d')
    moreover have "dirty_count c' = 0"
      using clean [OF barrier(4)] bt_get_iff [OF bi] by (auto simp: barrier(3) dirty_count_def g1 filter_empty_conv)
    moreover have "cstep dev holds poss c c' v none"
      using cstepI [OF inv2] p2 g1(1) by (simp add: barrier(3))
    ultimately show ?thesis using barrier(4) by simp
  qed
  then show "cstep dev holds poss c c' v none" and "r = Inr u \<Longrightarrow> dirty_count c' = 0" by auto
  assume r: "r = Inr u" "dev_dirty c" and b: "b < nblocks c" and k: "k < SECTORS_PER_BLOCK"
  then have m1: "cposs poss c' (lba_of c b + k) \<subseteq> {m1 (lba_of c b + k)}" and e1: "e1 = None"
    using \<open>cstep dev holds poss c c' v none \<and> _\<close> by auto
  have b1: "b < nblocks c1" "lba_of c1 = lba_of c" using b g1(1) geo_lba [OF g1(1)] by (simp_all add: geo_def)
  have "view m1 c1 b = devblk m1 c1 b"
  proof (cases "bt_get (bc_map c1) b")
    case None
    then show ?thesis by (simp add: view_def)
  next
    case (Some i)
    then have "i \<in> set xs" "s_blk (slots c1 ! i) = b" "\<not> s_dirty (slots c1 ! i)"
      using clean [OF e1, of b i] g1(2) inv1(1) cbody_map [of dev holds c1 m1 "set xs" "{}" b i] by (auto simp: cinv_def)
    then have "s_data (slots c1 ! i) = devblk m1 c1 b" using inv1(1) by (auto simp: cinv_def cbody_def)
    then show ?thesis using Some by (simp add: view_def)
  qed
  then have "v b = concat (map m1 [lba_of c b..<lba_of c b + SECTORS_PER_BLOCK])"
    using inv1(2) b1(2) by (simp add: devblk_def)
  moreover have "length (m1 j) = SECTOR_SIZE" if "j < lba_of c b + SECTORS_PER_BLOCK" for j
    using holds_length [OF h1, of j] that inv1(1) lba_of_gap [OF b1(1), of c1] b1(2) by (auto simp: cinv_def cbody_def)
  then have "get_slice (k * SECTOR_SIZE) SECTOR_SIZE (concat (map m1 [lba_of c b..<lba_of c b + SECTORS_PER_BLOCK])) =
      map m1 [lba_of c b..<lba_of c b + SECTORS_PER_BLOCK] ! k"
    using k by (intro get_slice_concat) auto
  ultimately have "get_slice (k * SECTOR_SIZE) SECTOR_SIZE (v b) = m1 (lba_of c b + k)" using k by simp
  then show "cposs poss c' (lba_of c b + k) \<subseteq> {get_slice (k * SECTOR_SIZE) SECTOR_SIZE (v b)}" using m1 by simp
qed

subsection \<open>Runs of blocks\<close>

lemma insert_run_step:
  assumes "cache_is dev holds c v" and "\<And>k. k < length bs \<Longrightarrow> bs ! k = v (blk + k)"
    and "\<And>k. k < length bs \<Longrightarrow> bt_get (bc_map c) (blk + k) = None" and "blk + length bs \<le> nblocks c"
  shows "cstep dev holds poss c (insert_run dev blk bs c) v none"
  using assms
proof (induction bs arbitrary: blk c)
  case Nil
  then show ?case by (simp add: cstep_refl)
next
  case (Cons b bs)
  obtain m xs where inv: "cinv dev holds c m xs {}" and v: "view m c = v" using Cons.prems(1) by (auto simp: cache_is_def)
  obtain r c1 where ac: "acquire_slot dev c = (r, c1)" by fastforce
  note a = cinv_acquire_slot [OF inv ac]
  show ?case
  proof (cases r)
    case (Inl e)
    then obtain m1 xs1 where "cinv dev holds c1 m1 xs1 {}" "view m1 c1 = v" using a(1) v by auto
    from cstepI [OF this a(2)] show ?thesis using Inl ac a(4) by simp
  next
    case (Inr s)
    then obtain m1 xs1 where i1: "cinv dev holds c1 m1 xs1 {s}" "view m1 c1 = v" using a(1) v by auto
    have nb: "nblocks c1 = nblocks c" using a(2) by (simp add: geo_def)
    have un: "bt_get (bc_map c1) (blk + k) = None" if "k < length (b # bs)" for k
      using a(3) [of "blk + k"] Cons.prems(3) [OF that] by (cases "bt_get (bc_map c1) (blk + k)") auto
    have un0: "bt_get (bc_map c1) blk = None" using un [of 0] by simp
    have blk: "blk < nblocks c1" using Cons.prems(4) nb by simp
    have vb: "b = v blk" using Cons.prems(2) [of 0] by simp
    then have bl: "length b = BLOCK_SIZE" using view_length [OF i1(1) blk] i1(2) by simp
    let ?c2 = "upd_slot s (\<lambda>x. x\<lparr>s_data := b\<rparr>) c1"
    let ?c3 = "install s blk False ?c2"
    note f = cinv_fill [OF i1(1) bl refl]
    have "devblk m1 ?c2 blk = v blk" using i1(2) un0 by (auto simp: view_def devblk_def lba_of_def)
    then have "False \<or> s_data (slots ?c2 ! s) = devblk m1 ?c2 blk" using f(4) vb by simp
    note ins = cinv_install [OF f(1) _ _ this refl]
    have un2: "blk < nblocks ?c2" "bt_get (bc_map ?c2) blk = None" using blk un0 by simp_all
    have "view m1 ?c3 = v" using ins(2) [OF un2] f(2,4) i1(2) vb by simp
    moreover have "cposs poss ?c3 k \<subseteq> cposs poss c k" for k
    proof -
      have "cposs poss ?c3 k \<subseteq> cposs poss ?c2 k"
        using ins(5,6) [OF un2] by (simp only: cposs_def if_False Un_empty_right) blast
      also have "cposs poss ?c2 k = cposs poss c1 k" using f(3) by simp
      finally show ?thesis using a(4) [of k] by blast
    qed
    moreover have "geo ?c3 = geo c" using ins(3) [OF un2] a(2) by simp
    ultimately have st: "cstep dev holds poss c ?c3 v none" using cstepI [OF ins(1) [OF un2]] by simp
    have get3: "bt_get (bc_map ?c3) x = (if x = blk then Some s else bt_get (bc_map c1) x)" for x
      by (simp add: install_def Let_def push_front_def bt_get_insert)
    have "cstep dev holds poss ?c3 (insert_run dev (blk + 1) bs ?c3) v none"
    proof (rule Cons.IH [OF cstep_is [OF st]])
      fix k assume "k < length bs"
      then show "bs ! k = v (blk + 1 + k)" "bt_get (bc_map ?c3) (blk + 1 + k) = None"
        using Cons.prems(2) [of "Suc k"] un [of "Suc k"] get3 [of "blk + 1 + k"] by simp_all
    next
      show "blk + 1 + length bs \<le> nblocks ?c3" using Cons.prems(4) cstep_geo [OF st] by simp
    qed
    then show ?thesis using cstep_trans [OF st] Inr ac by simp
  qed
qed

lemma run_end_spec:
  "run_end c blk j n \<le> j + n"
  "j \<le> k \<Longrightarrow> k < run_end c blk j n \<Longrightarrow> bt_get (bc_map c) (blk + k) = None"
proof -
  have "run_end c blk j n \<le> j + n \<and>
    (\<forall>k. j \<le> k \<longrightarrow> k < run_end c blk j n \<longrightarrow> bt_get (bc_map c) (blk + k) = None)"
  proof (induction c blk j n rule: run_end.induct)
    case (2 c blk j n)
    show ?case
    proof (cases "bt_get (bc_map c) (blk + j) = None")
      case True
      have "bt_get (bc_map c) (blk + k) = None" if "j \<le> k" "k < run_end c blk (j + 1) n" for k
        using 2 [OF True] True that by (cases "k = j") auto
      then show ?thesis using 2 [OF True] True by simp
    next
      case False
      then show ?thesis by auto
    qed
  qed simp
  then show "run_end c blk j n \<le> j + n"
    and "j \<le> k \<Longrightarrow> k < run_end c blk j n \<Longrightarrow> bt_get (bc_map c) (blk + k) = None" by auto
qed

lemma concat_map_upt_split:
  "i \<le> j \<Longrightarrow> concat (map f [a..<a + i]) @ concat (map f [a + i..<a + j]) = concat (map f [a..<a + j])"
  using upt_add_eq_append [of a "a + i" "j - i"] by (simp flip: concat_append map_append)

lemma devblks_concat:
  "concat (map m [lba_of c b..<lba_of c b + n * SECTORS_PER_BLOCK]) = concat (map (devblk m c) [b..<b + n])"
proof (induction n)
  case 0
  then show ?case by simp
next
  case (Suc n)
  have "concat (map m [lba_of c b..<lba_of c b + Suc n * SECTORS_PER_BLOCK]) =
      concat (map m [lba_of c b..<lba_of c b + n * SECTORS_PER_BLOCK]) @ devblk m c (b + n)"
    using concat_map_upt_split [of "n * SECTORS_PER_BLOCK" "Suc n * SECTORS_PER_BLOCK" m "lba_of c b"]
    by (simp add: devblk_def lba_of_add add.commute add.left_commute)
  then show ?case using Suc by simp
qed

lemma blocks_of_concat:
  assumes "\<And>x. x \<in> set xs \<Longrightarrow> length x = BLOCK_SIZE"
  shows "blocks_of (concat xs) = xs"
proof -
  have len: "length (concat xs) div BLOCK_SIZE = length xs"
    using length_concat_const [of xs BLOCK_SIZE] assms block_sizes(4) by simp
  show ?thesis
    by (rule nth_equalityI) (simp_all add: blocks_of_def len get_slice_concat assms)
qed

lemma read_loop_step:
  assumes "cache_is dev holds c v" and "i \<le> n" and "blk + n \<le> nblocks c" and "acc = concat (map v [blk..<blk + i])"
    and "read_loop dev blk n i acc c = (r, c')"
  shows "cstep dev holds poss c c' v none" and "r = Inr out \<Longrightarrow> out = concat (map v [blk..<blk + n])"
proof -
  have "cstep dev holds poss c c' v none \<and> (\<forall>out. r = Inr out \<longrightarrow> out = concat (map v [blk..<blk + n]))"
    using assms
  proof (induction "n - i" arbitrary: i acc c rule: less_induct)
    case less
    show ?case
    proof (cases "i < n")
      case False
      then have "i = n" "r = Inr acc" "c' = c" using less.prems(2,5) read_loop.simps [of dev blk n i acc c] by auto
      then show ?thesis using cstep_refl [OF less.prems(1)] less.prems(4) by simp
    next
      case True
      obtain m xs where inv: "cinv dev holds c m xs {}" and v: "view m c = v" using less.prems(1) by (auto simp: cache_is_def)
      obtain r1 c1 where lk: "lookup (blk + i) c = (r1, c1)" by fastforce
      obtain xs1 where c1: "cinv dev holds c1 m xs1 {}" "view m c1 = v" "geo c1 = geo c" "bc_dev c1 = bc_dev c"
          "bc_map c1 = bc_map c" "r1 = bt_get (bc_map c) (blk + i)" "\<And>s. r1 = Some s \<Longrightarrow> s_data (slots c1 ! s) = v (blk + i)"
          "\<And>k. cposs poss c1 k = cposs poss c k"
        using cinv_lookup [OF inv lk] by (metis v)
      have st1: "cstep dev holds poss c c1 v none" using cstepI [OF c1(1,2,3)] c1(8) by simp
      show ?thesis
      proof (cases r1)
        case (Some s)
        have "acc @ v (blk + i) = concat (map v [blk..<blk + (i + 1)])" using less.prems(4) by simp
        moreover have "read_loop dev blk n (i + 1) (acc @ v (blk + i)) c1 = (r, c')"
          using less.prems(5) True lk Some c1(7) by (simp add: read_loop.simps [of dev blk n i acc c])
        ultimately have "cstep dev holds poss c1 c' v none \<and> (\<forall>out. r = Inr out \<longrightarrow> out = concat (map v [blk..<blk + n]))"
          using less.hyps [of "i + 1" c1 "acc @ v (blk + i)"] True less.prems(3) cstep_is [OF st1] cstep_geo [OF st1] by simp
        then show ?thesis using cstep_trans [OF st1] by auto
      next
        case None
        define j where "j = run_end c1 blk (i + 1) (n - (i + 1))"
        have jj: "run_end c1 blk (Suc i) (n - Suc i) = j" by (simp add: j_def)
        have j: "i < j" "j \<le> n" using run_end_ge [of "i + 1" c1 blk] run_end_spec(1) [of c1 blk "i + 1" "n - (i + 1)"] True
          by (auto simp: j_def Suc_le_eq)
        have un: "bt_get (bc_map c1) (blk + k) = None" if "i \<le> k" "k < j" for k
          using run_end_spec(2) [of "i + 1" k c1 blk "n - (i + 1)"] None c1(5,6) that by (cases "k = i") (auto simp: j_def)
        obtain rr d where rd: "read_sectors dev (bc_dev c1) (lba_of c1 (blk + i)) ((j - i) * BLOCK_SIZE) = (rr, d)" by fastforce
        have h1: "holds (bc_dev c1) m" using c1(1) by (simp add: cinv_def cbody_def)
        note k = read_keeps [OF h1 rd]
        have st2: "cstep dev holds poss c1 (bump f (c1\<lparr>bc_dev := d, dev_dirty := dev_dirty c1\<rparr>)) v none" for f
          using cinv_dev [OF c1(1) _ _ refl, of d "dev_dirty c1"] k c1(2)
          by (auto simp: cstep_def cache_is_def cposs_def)
        show ?thesis
        proof (cases rr)
          case (Inl e)
          then have "r = Inl e" "c' = c1\<lparr>bc_dev := d\<rparr>"
            using less.prems(5) True lk None rd by (simp_all add: read_loop.simps [of dev blk n i acc c] j_def Let_def)
          then have "r = Inl e" "c' = bump id (c1\<lparr>bc_dev := d, dev_dirty := dev_dirty c1\<rparr>)"
            by (simp_all only: bump_def id_def) simp
          then show ?thesis using cstep_trans [OF st1 st2] by auto
        next
          case (Inr buf)
          let ?c2 = "bump (\<lambda>s. s\<lparr>misses := misses s + (j - i),
              sectors_read := sectors_read s + (j - i) * SECTORS_PER_BLOCK\<rparr>) (c1\<lparr>bc_dev := d, dev_dirty := dev_dirty c1\<rparr>)"
          let ?c3 = "if j - i \<le> INSERT_RUN_MAX then insert_run dev (blk + i) (blocks_of buf) ?c2 else ?c2"
          have nb: "nblocks ?c2 = nblocks c" using c1(3) by (simp add: geo_def)
          have "(j - i) * BLOCK_SIZE div SECTOR_SIZE = (j - i) * SECTORS_PER_BLOCK"
            by (simp add: block_sizes(1) SECTOR_SIZE_def)
          then have "buf = concat (map (devblk m c1) [blk + i..<blk + i + (j - i)])"
            using read_returns [OF h1 rd [unfolded Inr]] devblks_concat [of m c1 "blk + i" "j - i"] by simp
          also have "map (devblk m c1) [blk + i..<blk + i + (j - i)] = map v [blk + i..<blk + j]"
          proof (rule map_cong)
            fix x assume "x \<in> set [blk + i..<blk + j]"
            then show "devblk m c1 x = v x" using un [of "x - blk"] c1(2) by (auto simp: view_def)
          qed (use j in simp)
          finally have buf: "buf = concat (map v [blk + i..<blk + j])" .
          have bl: "x \<in> set (map v [blk + i..<blk + j]) \<Longrightarrow> length x = BLOCK_SIZE" for x
            using cache_is_length [OF less.prems(1)] j less.prems(3) by auto
          have bs: "blocks_of buf = map v [blk + i..<blk + j]" unfolding buf by (rule blocks_of_concat) (rule bl)
          have "cstep dev holds poss ?c2 (insert_run dev (blk + i) (blocks_of buf) ?c2) v none"
            unfolding bs by (rule insert_run_step [OF cstep_is [OF st2]])
              (use j less.prems(3) nb un in \<open>auto simp: add.assoc\<close>)
          then have "cstep dev holds poss ?c2 ?c3 v none" using cstep_refl [OF cstep_is [OF st2]] by auto
          then have st3: "cstep dev holds poss c ?c3 v none" using cstep_trans [OF cstep_trans [OF st1 st2]] by auto
          have "acc @ buf = concat (map v [blk..<blk + j])"
            using concat_map_upt_split [of i j v blk] j less.prems(4) buf by simp
          moreover have "read_loop dev blk n j (acc @ buf) ?c3 = (r, c')"
            using less.prems(5) True lk None rd Inr
            by (simp add: read_loop.simps [of dev blk n i acc c] jj Let_def split del: if_split cong: if_cong)
          ultimately have "cstep dev holds poss ?c3 c' v none \<and> (\<forall>out. r = Inr out \<longrightarrow> out = concat (map v [blk..<blk + n]))"
            using less.hyps [of j ?c3 "acc @ buf"] True j less.prems(3) cstep_is [OF st3] cstep_geo [OF st3] by auto
          then show ?thesis using cstep_trans [OF st3] by auto
        qed
      qed
    qed
  qed
  then show "cstep dev holds poss c c' v none" and "r = Inr out \<Longrightarrow> out = concat (map v [blk..<blk + n])" by auto
qed

theorem read_many_step:
  assumes "cache_is dev holds c v" and "read_many dev blk len c = (r, c')"
  shows "cstep dev holds poss c c' v none"
    and "r = Inr out \<Longrightarrow> blk + len div BLOCK_SIZE \<le> nblocks c \<and> out = concat (map v [blk..<blk + len div BLOCK_SIZE])"
proof -
  consider e where "r = Inl e" "c' = c" | "blk + len div BLOCK_SIZE \<le> nblocks c" "read_loop dev blk (len div BLOCK_SIZE) 0 [] c = (r, c')"
    using assms(2) by (auto simp: read_many_def Let_def bc_check_Inr split: if_splits sum.splits)
  then show "cstep dev holds poss c c' v none"
    and "r = Inr out \<Longrightarrow> blk + len div BLOCK_SIZE \<le> nblocks c \<and> out = concat (map v [blk..<blk + len div BLOCK_SIZE])"
    using read_loop_step [OF assms(1), of 0 "len div BLOCK_SIZE" blk "[]"] cstep_refl [OF assms(1)] by (cases, auto)+
qed

text \<open>
  \<open>write_many\<close>.  \<open>vwrite v b xs\<close> is the array with the blocks \<open>xs\<close> stored from \<open>b\<close> on.  A run
  that goes straight to the device and fails drops the cached copies, so nothing stale is
  kept; blocks outside the run keep their content.
\<close>

lemma write_each_step:
  assumes "cache_is dev holds c v" and "\<And>x. x \<in> set bs \<Longrightarrow> length x = BLOCK_SIZE" and "write_each dev blk bs c = (r, c')"
  shows "\<exists>v'. cstep dev holds poss c c' v' (sec_new (lba_of c blk) (concat bs)) \<and>
    (\<forall>b. \<not> (blk \<le> b \<and> b < blk + length bs) \<longrightarrow> v' b = v b) \<and>
    (r = Inr () \<longrightarrow> (\<forall>k < length bs. v' (blk + k) = bs ! k))"
  using assms
proof (induction bs arbitrary: blk c v)
  case Nil
  then show ?case using cstep_mono [OF cstep_refl] by (intro exI [of _ v]) auto
next
  case (Cons x bs)
  obtain r1 c1 where w: "bc_write dev blk x c = (r1, c1)" by fastforce
  have lx: "length x = BLOCK_SIZE" using Cons.prems(2) by simp
  note st = bc_write_step [OF Cons.prems(1) w lx]
  have lb: "length (concat bs) = length bs * BLOCK_SIZE" using length_concat_const [of bs BLOCK_SIZE] Cons.prems(2) by simp
  have sub: "sec_new (lba_of c blk) x k \<subseteq> sec_new (lba_of c blk) (concat (x # bs)) k"
    "sec_new (lba_of c (blk + 1)) (concat bs) k \<subseteq> sec_new (lba_of c blk) (concat (x # bs)) k" for k
    using sec_new_append [OF lx, of "lba_of c blk" "concat bs" k] lba_of_add [of c blk 1] by simp_all
  show ?case
  proof (cases r1)
    case (Inl e)
    then have "r = Inl e" "c' = c1" using Cons.prems(3) w by simp_all
    then show ?thesis using cstep_mono [OF st(1) [OF Inl]] by (intro exI [of _ v]) auto
  next
    case (Inr u)
    then have rest: "write_each dev (blk + 1) bs c1 = (r, c')" using Cons.prems(3) w by simp
    have s1: "cstep dev holds poss c c1 (v(blk := x)) (sec_new (lba_of c blk) x)" using st(2) [OF Inr] by simp
    obtain v' where v': "cstep dev holds poss c1 c' v' (sec_new (lba_of c1 (blk + 1)) (concat bs))"
        "\<forall>b. \<not> (blk + 1 \<le> b \<and> b < blk + 1 + length bs) \<longrightarrow> v' b = (v(blk := x)) b"
        "r = Inr () \<longrightarrow> (\<forall>k < length bs. v' (blk + 1 + k) = bs ! k)"
      using Cons.IH [OF cstep_is [OF s1] _ rest] Cons.prems(2) by (auto simp del: fun_upd_apply)
    have lbc: "lba_of c1 = lba_of c" using cstep_geo [OF s1] by simp
    have "cstep dev holds poss c c' v' (sec_new (lba_of c blk) (concat (x # bs)))"
      by (rule cstep_mono [OF cstep_trans [OF s1 v'(1)]]) (use sub lbc in auto)
    moreover have "\<forall>b. \<not> (blk \<le> b \<and> b < blk + length (x # bs)) \<longrightarrow> v' b = v b" using v'(2) by auto
    moreover have "\<forall>k < length (x # bs). v' (blk + k) = (x # bs) ! k" if "r = Inr ()"
    proof (intro allI impI)
      fix k assume "k < length (x # bs)"
      then show "v' (blk + k) = (x # bs) ! k" using v'(2,3) that by (cases k) auto
    qed
    ultimately show ?thesis by blast
  qed
qed

lemma discard_fold_step:
  assumes "cache_is dev holds c v"
  shows "\<exists>v'. cstep dev holds poss c (fold (\<lambda>k. discard (blk + k)) [0..<n] c) v' none \<and>
    (\<forall>b. \<not> (blk \<le> b \<and> b < blk + n) \<longrightarrow> v' b = v b)"
proof (induction n)
  case 0
  then show ?case using cstep_refl [OF assms] by auto
next
  case (Suc n)
  let ?c = "fold (\<lambda>k. discard (blk + k)) [0..<n] c"
  obtain v1 where v1: "cstep dev holds poss c ?c v1 none" "\<forall>b. \<not> (blk \<le> b \<and> b < blk + n) \<longrightarrow> v1 b = v b"
    using Suc by blast
  obtain x where x: "cstep dev holds poss ?c (discard (blk + n) ?c) (v1(blk + n := x)) none"
    using discard_step(1) [OF cstep_is [OF v1(1)]] by blast
  show ?case
  proof (intro exI conjI)
    show "cstep dev holds poss c (fold (\<lambda>k. discard (blk + k)) [0..<Suc n] c) (v1(blk + n := x)) none"
      using cstep_trans [OF v1(1) x] by simp
  qed (use v1(2) in auto)
qed

end

lemma sync_fold:
  fixes c :: "'d block_cache" and g :: "nat \<Rightarrow> bytes" and blk :: nat
  assumes mp: "\<And>b j. bt_get (bc_map c) b = Some j \<longleftrightarrow> j \<in> S \<and> s_blk (slots c ! j) = b"
    and S: "\<And>j. j \<in> S \<Longrightarrow> j < length (slots c)"
  defines "sync \<equiv> \<lambda>n. fold (\<lambda>k. sync_slot (blk + k) (g k)) [0..<n] c"
  shows "\<exists>ss. sync n = c\<lparr>slots := ss\<rparr> \<and> length ss = length (slots c) \<and>
    (\<forall>j. ss ! j = (if j \<in> S \<and> blk \<le> s_blk (slots c ! j) \<and> s_blk (slots c ! j) < blk + n
       then (slots c ! j)\<lparr>s_data := g (s_blk (slots c ! j) - blk), s_dirty := False, s_tag := 0\<rparr> else slots c ! j))"
proof (induction n)
  case 0
  then show ?case by (intro exI [of _ "slots c"]) (auto simp: sync_def)
next
  case (Suc n)
  then obtain ss where ss: "sync n = c\<lparr>slots := ss\<rparr>" "length ss = length (slots c)"
    "\<And>j. ss ! j = (if j \<in> S \<and> blk \<le> s_blk (slots c ! j) \<and> s_blk (slots c ! j) < blk + n
       then (slots c ! j)\<lparr>s_data := g (s_blk (slots c ! j) - blk), s_dirty := False, s_tag := 0\<rparr> else slots c ! j)"
    by blast
  have step: "sync (Suc n) = sync_slot (blk + n) (g n) (sync n)" by (simp add: sync_def)
  show ?case
  proof (cases "bt_get (bc_map c) (blk + n)")
    case None
    then have "\<not> (j \<in> S \<and> s_blk (slots c ! j) = blk + n)" for j using mp [of "blk + n" j] by simp
    then have eq: "(j \<in> S \<and> blk \<le> s_blk (slots c ! j) \<and> s_blk (slots c ! j) < blk + Suc n) =
        (j \<in> S \<and> blk \<le> s_blk (slots c ! j) \<and> s_blk (slots c ! j) < blk + n)" for j
      by (metis add_Suc_right less_Suc_eq)
    have "sync (Suc n) = c\<lparr>slots := ss\<rparr>" using None by (simp add: step ss(1) sync_slot_def)
    then show ?thesis using ss(2,3) unfolding eq by blast
  next
    case (Some i)
    then have i: "i \<in> S" "s_blk (slots c ! i) = blk + n" using mp [of "blk + n" i] by simp_all
    have other: "j \<noteq> i \<Longrightarrow> (j \<in> S \<and> blk \<le> s_blk (slots c ! j) \<and> s_blk (slots c ! j) < blk + Suc n) =
        (j \<in> S \<and> blk \<le> s_blk (slots c ! j) \<and> s_blk (slots c ! j) < blk + n)" for j
      using mp [of "blk + n" j] Some by (auto simp: less_Suc_eq)
    let ?ss = "ss[i := (ss ! i)\<lparr>s_data := g n, s_dirty := False, s_tag := 0\<rparr>]"
    have "sync (Suc n) = c\<lparr>slots := ?ss\<rparr>" using Some by (simp add: step ss(1) sync_slot_def upd_slot_def)
    moreover have "?ss ! j = (if j \<in> S \<and> blk \<le> s_blk (slots c ! j) \<and> s_blk (slots c ! j) < blk + Suc n
       then (slots c ! j)\<lparr>s_data := g (s_blk (slots c ! j) - blk), s_dirty := False, s_tag := 0\<rparr> else slots c ! j)" for j
    proof (cases "j = i")
      case True
      then show ?thesis using i S [OF i(1)] ss(2,3) by (simp add: nth_list_update)
    next
      case False
      then show ?thesis using other [OF False] ss(3) [of j] by simp
    qed
    ultimately show ?thesis using ss(2) by (intro exI [of _ ?ss]) simp
  qed
qed

text \<open>A run of blocks that has reached the device: cached copies follow it.\<close>

lemma cinv_sync:
  assumes inv: "cinv dev holds c m xs {}" and n: "blk + n \<le> nblocks c"
    and d: "holds d m'" "sector_count dev d = sector_count dev (bc_dev c)"
    and far: "\<And>b'. b' < blk \<or> blk + n \<le> b' \<Longrightarrow> devblk m' c b' = devblk m c b'"
    and here: "\<And>k. k < n \<Longrightarrow> devblk m' c (blk + k) = g k" and len: "\<And>k. k < n \<Longrightarrow> length (g k) = BLOCK_SIZE"
    and c': "c' = fold (\<lambda>k. sync_slot (blk + k) (g k)) [0..<n] (bump f (c\<lparr>bc_dev := d, dev_dirty := z\<rparr>))"
  shows "cinv dev holds c' m' xs {}" and "geo c' = geo c" and "bc_dev c' = d" and "dirtyw c' k \<subseteq> dirtyw c k"
    and "view m' c' b = (if blk \<le> b \<and> b < blk + n then g (b - blk) else view m c b)"
proof -
  have body: "cbody dev holds c m (set xs) {}" and l: "lru c xs" using inv by (auto simp: cinv_def)
  let ?c = "bump f (c\<lparr>bc_dev := d, dev_dirty := z\<rparr>)"
  have mp: "bt_get (bc_map c) b = Some j \<longleftrightarrow> j \<in> set xs \<and> s_blk (slots c ! j) = b" for b j by (rule cbody_map [OF body])
  have in_len: "j \<in> set xs \<Longrightarrow> j < length (slots c)" for j by (rule cbody_slot [OF body])
  obtain ss where ss: "c' = ?c\<lparr>slots := ss\<rparr>" "length ss = length (slots c)"
    "\<And>j. ss ! j = (if j \<in> set xs \<and> blk \<le> s_blk (slots c ! j) \<and> s_blk (slots c ! j) < blk + n
       then (slots c ! j)\<lparr>s_data := g (s_blk (slots c ! j) - blk), s_dirty := False, s_tag := 0\<rparr> else slots c ! j)"
    using sync_fold [of ?c "set xs" blk g n] mp in_len by (auto simp: c')
  show geo: "geo c' = geo c" by (simp add: ss geo_def)
  have frame: "bc_dev c' = d" "nblocks c' = nblocks c" "capacity c' = capacity c" "bc_head c' = bc_head c"
    "bc_tail c' = bc_tail c" "bc_free c' = bc_free c" "bc_map c' = bc_map c" "lba_of c' = lba_of c"
    "slots c' = ss"
    using geo_lba [OF geo] by (simp_all add: ss)
  then show "bc_dev c' = d" by simp
  have dev: "devblk m' c' = devblk m' c" by (simp add: devblk_def [abs_def] frame)
  have near: "blk \<le> b \<Longrightarrow> b < blk + n \<Longrightarrow> devblk m' c b = g (b - blk)" for b using here [of "b - blk"] by simp
  have data: "s_data (ss ! j) = devblk m' c (s_blk (slots c ! j))" if "j \<in> set xs" "\<not> s_dirty (ss ! j)" for j
  proof (cases "blk \<le> s_blk (slots c ! j) \<and> s_blk (slots c ! j) < blk + n")
    case True
    then show ?thesis using near that(1) by (simp add: ss(3))
  next
    case False
    then have eq: "ss ! j = slots c ! j" by (simp only: ss(3) if_False simp_thms)
    then have "s_data (slots c ! j) = devblk m c (s_blk (slots c ! j))" using body that by (simp add: cbody_def)
    then show ?thesis using False far [of "s_blk (slots c ! j)"] eq by (auto simp: not_less)
  qed
  have blen: "length (s_data (ss ! j)) = BLOCK_SIZE" if "j < length (slots c)" for j
    using body that len [of "s_blk (slots c ! j) - blk"] by (auto simp: ss(3) cbody_def)
  have blk: "s_blk (ss ! j) = s_blk (slots c ! j)" "s_prev (ss ! j) = s_prev (slots c ! j)" "s_next (ss ! j) = s_next (slots c ! j)" for j
    by (simp_all add: ss(3))
  have "cbody dev holds c' m' (set xs) {}"
    using body d data blen unfolding cbody_def frame dev ss(2) by (simp add: blk)
  moreover have "lru c' xs" by (rule lru_cong [OF l]) (simp_all add: frame blk ss(2))
  ultimately show "cinv dev holds c' m' xs {}" by (simp add: cinv_def)
  show "dirtyw c' k \<subseteq> dirtyw c k"
    by (rule dirtyw_mono) (auto simp: frame ss(3) split: if_splits)
  show "view m' c' b = (if blk \<le> b \<and> b < blk + n then g (b - blk) else view m c b)"
  proof (cases "bt_get (bc_map c) b")
    case None
    then show ?thesis using near [of b] far [of b] by (auto simp: view_def frame dev)
  next
    case (Some a)
    then have "a \<in> set xs" "s_blk (slots c ! a) = b" using mp by auto
    then show ?thesis using Some by (simp add: view_def frame ss(3))
  qed
qed

lemma unlink_dev: "unlink i (c\<lparr>bc_dev := d\<rparr>) = (unlink i c)\<lparr>bc_dev := d\<rparr>"
  by (simp add: unlink_def upd_slot_def Let_def)

lemma discard_dev: "discard b (c\<lparr>bc_dev := d\<rparr>) = (discard b c)\<lparr>bc_dev := d\<rparr>"
  by (simp add: discard_def Let_def upd_slot_def unlink_def split: option.split)

lemma discard_sel: "bc_dev (discard b c) = bc_dev c" "bc_map (discard b c) = bt_remove b (bc_map c)"
proof -
  show "bc_dev (discard b c) = bc_dev c" by (simp add: discard_def Let_def unlink_def split: option.split)
  show "bc_map (discard b c) = bt_remove b (bc_map c)"
  proof (cases "bt_get (bc_map c) b")
    case None
    then have "filter (\<lambda>e. fst e \<noteq> b) (bc_map c) = bc_map c"
      by (auto simp: map_of_eq_None_iff intro!: filter_True)
    then show ?thesis using None by (simp add: discard_def bt_remove_def)
  next
    case (Some i)
    then show ?thesis by (simp add: discard_def Let_def unlink_def)
  qed
qed

lemma discard_fold_dev:
  "fold (\<lambda>k. discard (blk + k)) ks (c\<lparr>bc_dev := d\<rparr>) = (fold (\<lambda>k. discard (blk + k)) ks c)\<lparr>bc_dev := d\<rparr>"
  "bc_dev (fold (\<lambda>k. discard (blk + k)) ks c) = bc_dev c"
  by (induction ks arbitrary: c) (simp_all add: discard_dev discard_sel)

lemma discard_fold_map:
  "bt_get (bc_map (fold (\<lambda>k. discard (blk + k)) [0..<n] c)) b =
    (if blk \<le> b \<and> b < blk + n then None else bt_get (bc_map c) b)"
  by (induction n) (auto simp: discard_sel bt_get_remove)

lemma cinv_dev_change:
  assumes inv: "cinv dev holds c m xs {}" and d: "holds d m'" "sector_count dev d = sector_count dev (bc_dev c)"
    and far: "\<And>b. bt_get (bc_map c) b \<noteq> None \<Longrightarrow> devblk m' c b = devblk m c b" and c': "c' = c\<lparr>bc_dev := d\<rparr>"
  shows "cinv dev holds c' m' xs {}"
    and "view m' c' b = (if bt_get (bc_map c) b = None then devblk m' c b else view m c b)" and "dirtyw c' = dirtyw c"
proof -
  have dev: "devblk m' c' = devblk m' c" by (simp add: devblk_def [abs_def] c' lba_of_def)
  have body: "cbody dev holds c m (set xs) {}" using inv by (simp add: cinv_def)
  have "devblk m' c (s_blk (slots c ! j)) = devblk m c (s_blk (slots c ! j))" if "j \<in> set xs" for j
    using far [of "s_blk (slots c ! j)"] cbody_map [OF body, of "s_blk (slots c ! j)" j] that by simp
  then show "cinv dev holds c' m' xs {}"
    using inv d unfolding cinv_def cbody_def lru_def dev by (simp add: c' lba_of_def)
  show "view m' c' b = (if bt_get (bc_map c) b = None then devblk m' c b else view m c b)"
    unfolding view_def dev by (auto simp: c')
  show "dirtyw c' = dirtyw c" by (simp add: dirtyw_def [abs_def] c')
qed

context block_device
begin

lemma concat_blocks_of: "length data = n * BLOCK_SIZE \<Longrightarrow> concat (blocks_of data) = data"
  using concat_slices [of BLOCK_SIZE data n] block_sizes(4) by (simp add: blocks_of_def)

lemma blocks_of_length:
  assumes "length data = n * BLOCK_SIZE"
  shows "length (blocks_of data) = n" and "x \<in> set (blocks_of data) \<Longrightarrow> length x = BLOCK_SIZE"
    and "k < n \<Longrightarrow> blocks_of data ! k = get_slice (k * BLOCK_SIZE) BLOCK_SIZE data"
    and "k < n \<Longrightarrow> length (get_slice (k * BLOCK_SIZE) BLOCK_SIZE data) = BLOCK_SIZE"
proof -
  have n: "length data div BLOCK_SIZE = n" using assms block_sizes(4) by simp
  show len: "k < n \<Longrightarrow> length (get_slice (k * BLOCK_SIZE) BLOCK_SIZE data) = BLOCK_SIZE" for k
    using mult_le_mono1 [of "Suc k" n BLOCK_SIZE] assms by (simp add: min_def)
  show "length (blocks_of data) = n" and "k < n \<Longrightarrow> blocks_of data ! k = get_slice (k * BLOCK_SIZE) BLOCK_SIZE data"
    by (simp_all add: blocks_of_def n)
  show "x \<in> set (blocks_of data) \<Longrightarrow> length x = BLOCK_SIZE" using len by (auto simp: blocks_of_def n)
qed

theorem write_many_step:
  assumes ci: "cache_is dev holds c v" and w: "write_many dev blk data c = (r, c')"
  shows "\<exists>v'. cstep dev holds poss c c' v' (sec_new (lba_of c blk) data) \<and>
    (\<forall>b. \<not> (blk \<le> b \<and> b < blk + length data div BLOCK_SIZE) \<longrightarrow> v' b = v b) \<and>
    (r = Inr () \<longrightarrow> length data mod BLOCK_SIZE = 0 \<and> blk + length data div BLOCK_SIZE \<le> nblocks c \<and>
       (\<forall>k < length data div BLOCK_SIZE. v' (blk + k) = get_slice (k * BLOCK_SIZE) BLOCK_SIZE data))"
proof -
  let ?n = "length data div BLOCK_SIZE"
  consider (bad) e where "r = Inl e" "c' = c"
    | (short) "length data mod BLOCK_SIZE = 0" "blk + ?n \<le> nblocks c" "write_each dev blk (blocks_of data) c = (r, c')"
    | (long) rr d where "length data mod BLOCK_SIZE = 0" "blk + ?n \<le> nblocks c"
        "write_sectors dev (bc_dev c) (lba_of c blk) data = (rr, d)"
        "(r, c') = (case rr of Inl e \<Rightarrow> (Inl e, fold (\<lambda>k. discard (blk + k)) [0..<?n] (c\<lparr>bc_dev := d\<rparr>))
          | Inr _ \<Rightarrow> (Inr (), fold (\<lambda>k. sync_slot (blk + k) (get_slice (k * BLOCK_SIZE) BLOCK_SIZE data)) [0..<?n]
              (bump (\<lambda>s. s\<lparr>sectors_written := sectors_written s + ?n * SECTORS_PER_BLOCK\<rparr>) (c\<lparr>bc_dev := d, dev_dirty := True\<rparr>))))"
  proof -
    obtain rr d where ws: "write_sectors dev (bc_dev c) (lba_of c blk) data = (rr, d)" by fastforce
    consider "length data mod BLOCK_SIZE \<noteq> 0" | "length data mod BLOCK_SIZE = 0" "bc_check c blk ?n = Inl OutOfRange"
      | "length data mod BLOCK_SIZE = 0" "bc_check c blk ?n = Inr ()" using bc_check_cases [of c blk ?n] by blast
    then show ?thesis
    proof cases
      case 1
      then show ?thesis using w by (intro bad [of BadLength]) (auto simp: write_many_def)
    next
      case 2
      then show ?thesis using w by (intro bad [of OutOfRange]) (auto simp: write_many_def Let_def)
    next
      case 3
      then have fit: "blk + ?n \<le> nblocks c" by (simp add: bc_check_Inr)
      show ?thesis
      proof (cases "DIRECT_WRITE_MIN \<le> ?n")
        case True
        then show ?thesis using w 3 ws by (intro long [OF 3(1) fit ws]) (auto simp: write_many_def Let_def split: sum.split)
      next
        case False
        then show ?thesis using w 3 by (intro short [OF 3(1) fit]) (auto simp: write_many_def Let_def)
      qed
    qed
  qed
  then show ?thesis
  proof cases
    case bad
    then show ?thesis using cstep_mono [OF cstep_refl [OF ci]] by (intro exI [of _ v]) auto
  next
    case short
    then have len: "length data = ?n * BLOCK_SIZE" by (simp add: minus_mod_eq_div_mult [symmetric])
    note bl = blocks_of_length [OF len]
    show ?thesis
      using write_each_step [OF ci bl(2) short(3)] bl(1,3) short(1,2) by (simp add: concat_blocks_of [OF len])
  next
    case long
    then have len: "length data = ?n * BLOCK_SIZE" by (simp add: minus_mod_eq_div_mult [symmetric])
    note bl = blocks_of_length [OF len]
    obtain m xs where inv: "cinv dev holds c m xs {}" and v: "view m c = v" using ci by (auto simp: cache_is_def)
    have h: "holds (bc_dev c) m" using inv by (simp add: cinv_def cbody_def)
    obtain m' where m': "holds d m'" "sector_count dev d = sector_count dev (bc_dev c)"
        "\<And>b'. b' < blk \<or> blk + ?n \<le> b' \<Longrightarrow> devblk m' c b' = devblk m c b'"
        "\<And>k. rr = Inr () \<Longrightarrow> k < ?n \<Longrightarrow> devblk m' c (blk + k) = get_slice (k * BLOCK_SIZE) BLOCK_SIZE data"
      using devblk_write [OF h len long(3)] by blast
    note p = write_poss [OF h long(3)]
    show ?thesis
    proof (cases rr)
      case (Inr u)
      let ?f = "\<lambda>s. s\<lparr>sectors_written := sectors_written s + ?n * SECTORS_PER_BLOCK\<rparr>"
      have c': "c' = fold (\<lambda>k. sync_slot (blk + k) (get_slice (k * BLOCK_SIZE) BLOCK_SIZE data)) [0..<?n]
          (bump ?f (c\<lparr>bc_dev := d, dev_dirty := True\<rparr>))" and r: "r = Inr ()" using long(4) Inr by simp_all
      have "devblk m' c (blk + k) = get_slice (k * BLOCK_SIZE) BLOCK_SIZE data" if "k < ?n" for k using m'(4) that Inr by simp
      note s = cinv_sync [OF inv long(2) m'(1,2,3) this bl(4) c']
      have "cposs poss c' k \<subseteq> cposs poss c k \<union> sec_new (lba_of c blk) data k" for k
        using p [of k] s(4) [of k] by (auto simp: cposs_def s(3))
      then have "cstep dev holds poss c c' (view m' c') (sec_new (lba_of c blk) data)"
        using cstepI [OF s(1) refl s(2)] by blast
      then show ?thesis using s(5) long(1,2) v by (intro exI [of _ "view m' c'"]) auto
    next
      case (Inl e)
      let ?c1 = "fold (\<lambda>k. discard (blk + k)) [0..<?n] c"
      have r: "r = Inl e" and c': "c' = ?c1\<lparr>bc_dev := d\<rparr>" using long(4) Inl by (simp_all add: discard_fold_dev)
      obtain v1 where v1: "cstep dev holds poss c ?c1 v1 none" "\<forall>b. \<not> (blk \<le> b \<and> b < blk + ?n) \<longrightarrow> v1 b = v b"
        using discard_fold_step [OF ci] by blast
      obtain m1 xs1 where i1: "cinv dev holds ?c1 m1 xs1 {}" "view m1 ?c1 = v1" using v1(1) by (auto simp: cstep_def cache_is_def)
      have h1: "holds (bc_dev ?c1) m1" and bd: "bc_dev ?c1 = bc_dev c" using i1(1) discard_fold_dev(2) by (auto simp: cinv_def cbody_def)
      have wr1: "write_sectors dev (bc_dev ?c1) (lba_of ?c1 blk) data = (rr, d)"
        using long(3) bd cstep_geo [OF v1(1)] by simp
      obtain m2 where m2: "holds d m2" "sector_count dev d = sector_count dev (bc_dev ?c1)"
          "\<And>b'. b' < blk \<or> blk + ?n \<le> b' \<Longrightarrow> devblk m2 ?c1 b' = devblk m1 ?c1 b'"
        using devblk_write [OF h1 len wr1] by blast
      have un: "bt_get (bc_map ?c1) b \<noteq> None \<Longrightarrow> b < blk \<or> blk + ?n \<le> b" for b
        by (auto simp: discard_fold_map split: if_splits)
      have far: "bt_get (bc_map ?c1) b \<noteq> None \<Longrightarrow> devblk m2 ?c1 b = devblk m1 ?c1 b" for b using un [of b] m2(3) [of b] by blast
      note cd = cinv_dev_change [OF i1(1) m2(1,2) far c']
      have vw: "view m2 c' b = v b" if "\<not> (blk \<le> b \<and> b < blk + ?n)" for b
      proof -
        have "view m2 c' b = view m1 ?c1 b"
          using cd(2) [of b] m2(3) [of b] that by (cases "bt_get (bc_map ?c1) b") (auto simp: view_def)
        then show ?thesis using that v1(2) i1(2) by simp
      qed
      have "cposs poss c' k \<subseteq> cposs poss c k \<union> sec_new (lba_of c blk) data k" for k
        using p [of k] v1(1) cd(3) bd unfolding cstep_def by (auto simp: cposs_def c')
      moreover have "geo c' = geo c" using cstep_geo [OF v1(1)] by (simp add: c')
      ultimately have "cstep dev holds poss c c' (view m2 c') (sec_new (lba_of c blk) data)"
        using cstepI [OF cd(1) refl] by blast
      then show ?thesis using vw by (intro exI [of _ "view m2 c'"]) (simp add: r)
    qed
  qed
qed

end

end
