(* ===== verification/Fs3Core.thy ===== *)
theory Fs3Core
  imports Bits Layout CacheOps
begin

text \<open>
  The core of OJFS v3: the types of \<^verbatim>\<open>fs3/mod.rs\<close>, bitmap images (\<^verbatim>\<open>fs3/bitmap.rs\<close>),
  superblock detection (\<^verbatim>\<open>fs3/superblock.rs\<close>), block access through the transaction overlay
  (\<^verbatim>\<open>fs3/mount/meta.rs\<close>), transactions and the journal (\<^verbatim>\<open>fs3/mount/txn.rs\<close>) and its
  replay (\<^verbatim>\<open>fs3/mount.rs\<close>).  A method of \<open>Fs3<D>\<close> takes the device dictionary first and
  returns the filesystem it leaves, on the error path too.
\<close>

subsection \<open>Types\<close>

datatype fs_error = NotFound | Exists | NotDir | IsDir | NotEmpty | InvalidName | NameTooLong
  | InvalidPath | Reserved | InvalidMove | NoSpace | NoInodes | TooBig | TxTooLarge | TooSmall
  | BadSuperblock | Corrupt string | Poisoned | Io io_error

datatype detected = V3 | V2 | Blank | Unknown

record format_options =
  fo_uuid :: bytes
  fo_now :: nat
  fo_inode_count :: "nat option"
  fo_journal_blocks :: "nat option"
  fo_cache_blocks :: "nat option"

definition format_options_new :: "bytes \<Rightarrow> nat \<Rightarrow> format_options" where
  "format_options_new uuid now = \<lparr>fo_uuid = uuid, fo_now = now, fo_inode_count = None,
     fo_journal_blocks = None, fo_cache_blocks = None\<rparr>"

record statfs =
  sf_block_size :: nat
  sf_total_blocks :: nat
  sf_free_blocks :: nat
  sf_data_blocks :: nat
  sf_total_inodes :: nat
  sf_free_inodes :: nat

definition free_bytes :: "statfs \<Rightarrow> nat" where
  "free_bytes s = sf_free_blocks s * sf_block_size s"

definition data_bytes :: "statfs \<Rightarrow> nat" where
  "data_bytes s = sf_data_blocks s * sf_block_size s"

record txrec =
  tx_active :: bool
  tx_meta :: "(nat, bytes) btree"
  tx_touched_bb :: "nat list"
  tx_touched_ib :: "nat list"
  tx_blog :: "(nat \<times> nat \<times> bool) list"
  tx_ilog :: "(nat \<times> bool) list"
  tx_to_free :: "(nat \<times> nat) list"
  tx_data :: "(nat \<times> nat) list"
  tx_free_blocks0 :: nat
  tx_free_inodes0 :: nat
  tx_hint0 :: nat

definition tx_idle :: txrec where
  "tx_idle = \<lparr>tx_active = False, tx_meta = [], tx_touched_bb = [], tx_touched_ib = [], tx_blog = [],
     tx_ilog = [], tx_to_free = [], tx_data = [], tx_free_blocks0 = 0, tx_free_inodes0 = 0, tx_hint0 = 0\<rparr>"

record 'd fs3 =
  f_cache :: "'d block_cache"
  f_sb :: superblock
  f_geo :: geometry
  f_bbits :: bitmap
  f_ibits :: bitmap
  f_free_blocks :: nat
  f_free_inodes :: nat
  f_alloc_hint :: nat
  f_seq :: nat
  f_tx :: txrec
  f_poisoned :: bool
  f_commits :: nat

definition DEFAULT_CACHE_BLOCKS :: nat where "DEFAULT_CACHE_BLOCKS = 128"
definition MAX_FILE_BYTES :: nat where "MAX_FILE_BYTES = (u32_max - 1) * BLOCK_SIZE"
definition V2_MAGIC :: bytes where "V2_MAGIC = [0x4F, 0x4A, 0x46, 0x32]"

text \<open>\<open>?\<close> on a cache call: \<open>IoError\<close> becomes \<open>FsError::Io\<close>.\<close>

definition lift_io :: "('d block_cache, io_error, 'a) res \<Rightarrow> 'd fs3 \<Rightarrow> ('d fs3, fs_error, 'a) res" where
  "lift_io r fs = (case r of (Inl e, c) \<Rightarrow> (Inl (Io e), fs\<lparr>f_cache := c\<rparr>) | (Inr x, c) \<Rightarrow> (Inr x, fs\<lparr>f_cache := c\<rparr>))"

definition cache_io :: "('d block_cache, io_error, 'a) res \<Rightarrow> ('d block_cache, fs_error, 'a) res" where
  "cache_io r = (case r of (Inl e, c) \<Rightarrow> (Inl (Io e), c) | (Inr x, c) \<Rightarrow> (Inr x, c))"

abbreviation tx_upd :: "(txrec \<Rightarrow> txrec) \<Rightarrow> 'd fs3 \<Rightarrow> 'd fs3" where
  "tx_upd f fs \<equiv> fs\<lparr>f_tx := f (f_tx fs)\<rparr>"

subsection \<open>Bitmap blocks\<close>

definition bitmap_image :: "bitmap \<Rightarrow> nat \<Rightarrow> bytes" where
  "bitmap_image words idx =
     (let first = idx * BITMAP_WORDS_PER_BLOCK;
          b = fold (\<lambda>k b. put_slice (8 + 8 * k)
                (le_bytes 8 (unat (if first + k < length words then words ! (first + k) else - 1 :: 64 word))) b)
              [0..<BITMAP_WORDS_PER_BLOCK] (replicate BLOCK_SIZE 0)
      in wr32 b 0 (unat (crc32 (drop 4 b))))"

definition load_bitmap_block :: "bytes \<Rightarrow> nat \<Rightarrow> bitmap \<Rightarrow> fs_error + bitmap" where
  "load_bitmap_block b idx words =
     (if rd32 b 0 \<noteq> unat (crc32 (get_slice 4 (BLOCK_SIZE - 4) b)) then Inl (Corrupt ''bitmap checksum'')
      else let first = idx * BITMAP_WORDS_PER_BLOCK in
        Inr (fold (\<lambda>k ws. if first + k < length ws
               then ws[first + k := word_of_nat (le_nat (get_slice (8 + 8 * k) 8 b))] else ws)
             [0..<BITMAP_WORDS_PER_BLOCK] words))"

definition verify_typed :: "bytes \<Rightarrow> bool \<Rightarrow> nat \<Rightarrow> fs_error + unit" where
  "verify_typed b ext owner =
     (if rd32 b 0 \<noteq> unat (crc32 (drop 4 b)) then Inl (Corrupt ''block checksum'')
      else if ext then
        if get_slice 4 4 b \<noteq> EXT_MAGIC \<or> rd32 b 16 \<noteq> owner then Inl (Corrupt ''extent block header'') else Inr ()
      else if get_slice 4 4 b \<noteq> DIR_MAGIC \<or> rd32 b 8 \<noteq> owner \<or> BLOCK_SIZE - 16 < rd16 b 12
        then Inl (Corrupt ''directory block header'') else Inr ())"

subsection \<open>Detection\<close>

datatype sb_state = Valid superblock | Damaged | Absent

definition blocks_for :: "nat \<Rightarrow> nat" where
  "blocks_for sectors = min ((sectors - FS_START_LBA) div SECTORS_PER_BLOCK) u32_max"

definition read_sb_state :: "'d blockdevice \<Rightarrow> 'd \<Rightarrow> ('d, io_error, sb_state) res" where
  "read_sb_state dev d =
     (let tb = blocks_for (sector_count dev d) in
      if tb = 0 then (Inr Absent, d)
      else
        bindr (read_sectors dev d FS_START_LBA SECTOR_SIZE) (\<lambda>s d.
          let first = (case sb_decode s of
                Some sb \<Rightarrow> if total_blocks (sb_geo sb) \<le> tb then Inr sb else Inl True
              | None \<Rightarrow> Inl (get_slice 4 4 s = MAGIC))
          in case first of
              Inr sb \<Rightarrow> (Inr (Valid sb), d)
            | Inl damaged \<Rightarrow>
                let backup = FS_START_LBA + (tb - 1) * SECTORS_PER_BLOCK in
                bindr (read_sectors dev d backup SECTOR_SIZE) (\<lambda>s d.
                  let second = (case sb_decode s of
                        Some sb \<Rightarrow> if total_blocks (sb_geo sb) = tb then Inr sb else Inl True
                      | None \<Rightarrow> Inl (damaged \<or> get_slice 4 4 s = MAGIC))
                  in case second of
                      Inr sb \<Rightarrow> (Inr (Valid sb), d)
                    | Inl damaged \<Rightarrow> (Inr (if damaged then Damaged else Absent), d))))"

definition detect :: "'d blockdevice \<Rightarrow> 'd \<Rightarrow> ('d, io_error, detected) res" where
  "detect dev d =
     bindr (read_sb_state dev d) (\<lambda>st d.
       case st of
         Valid _ \<Rightarrow> (Inr V3, d)
       | Damaged \<Rightarrow> (Inr Unknown, d)
       | Absent \<Rightarrow>
           let n = min (sector_count dev d) (FS_START_LBA + SECTORS_PER_BLOCK) in
           if n = 0 then (Inr Blank, d)
           else bindr (read_sectors dev d 0 (n * SECTOR_SIZE)) (\<lambda>buf d.
             if get_slice 0 4 buf = V2_MAGIC then (Inr V2, d)
             else if list_all (\<lambda>x. x = 0) buf then (Inr Blank, d)
             else (Inr Unknown, d)))"

subsection \<open>Metadata blocks\<close>

definition ready :: "'d fs3 \<Rightarrow> fs_error + unit" where
  "ready fs = (if f_poisoned fs then Inl Poisoned else Inr ())"

definition is_data_block :: "'d fs3 \<Rightarrow> nat \<Rightarrow> bool" where
  "is_data_block fs b \<longleftrightarrow> data_start (f_geo fs) \<le> b \<and> b < backup_sb (f_geo fs)"

definition meta_get :: "'d blockdevice \<Rightarrow> nat \<Rightarrow> 'd fs3 \<Rightarrow> ('d fs3, fs_error, bytes) res" where
  "meta_get dev blk fs =
     (case bt_get (tx_meta (f_tx fs)) blk of
        Some b \<Rightarrow> (Inr b, fs)
      | None \<Rightarrow> lift_io (bc_get dev blk (f_cache fs)) fs)"

definition put_overlay :: "nat \<Rightarrow> bytes \<Rightarrow> 'd fs3 \<Rightarrow> 'd fs3" where
  "put_overlay blk b fs = tx_upd (\<lambda>t. t\<lparr>tx_meta := bt_insert blk b (tx_meta t)\<rparr>) fs"

text \<open>\<open>meta_mut\<close> hands out a reference into the overlay; the caller stores with \<open>put_overlay\<close>.\<close>

definition meta_mut :: "'d blockdevice \<Rightarrow> nat \<Rightarrow> 'd fs3 \<Rightarrow> ('d fs3, fs_error, bytes) res" where
  "meta_mut dev blk fs =
     bindr (if bt_get (tx_meta (f_tx fs)) blk = None then
              if journal_blocks (f_geo fs) \<le> length (tx_meta (f_tx fs)) then (Inl TxTooLarge, fs)
              else bindr (lift_io (bc_read dev blk (f_cache fs)) fs) (\<lambda>b fs. (Inr (), put_overlay blk b fs))
            else (Inr (), fs)) (\<lambda>_ fs.
       case bt_get (tx_meta (f_tx fs)) blk of
         Some b \<Rightarrow> (Inr b, fs)
       | None \<Rightarrow> (Inl (Corrupt ''transaction overlay''), fs))"

definition put_meta :: "nat \<Rightarrow> bytes \<Rightarrow> 'd fs3 \<Rightarrow> ('d fs3, fs_error, unit) res" where
  "put_meta blk img fs =
     (if bt_get (tx_meta (f_tx fs)) blk = None \<and> journal_blocks (f_geo fs) \<le> length (tx_meta (f_tx fs))
      then (Inl TxTooLarge, fs)
      else (Inr (), put_overlay blk img fs))"

definition typed_block :: "'d blockdevice \<Rightarrow> nat \<Rightarrow> bool \<Rightarrow> nat \<Rightarrow> 'd fs3 \<Rightarrow> ('d fs3, fs_error, bytes) res" where
  "typed_block dev blk ext owner fs =
     (if \<not> is_data_block fs blk then (Inl (Corrupt ''metadata block out of range''), fs)
      else case bt_get (tx_meta (f_tx fs)) blk of
          Some b \<Rightarrow> (Inr b, fs)
        | None \<Rightarrow>
            let want = (if ext then 2 else 1) in
            bindr (lift_io (bc_get_tagged dev blk (f_cache fs)) fs) (\<lambda>(b, tag) fs.
              bindr (if tag = want then (Inr False, fs)
                     else case verify_typed b ext owner of
                         Inl e \<Rightarrow> (Inl e, fs)
                       | Inr _ \<Rightarrow> (Inr True, fs)) (\<lambda>verified fs.
                let fs = (if verified then fs\<lparr>f_cache := bc_set_tag blk want (f_cache fs)\<rparr> else fs)
                in lift_io (bc_get dev blk (f_cache fs)) fs)))"

definition free_meta_block :: "nat \<Rightarrow> 'd fs3 \<Rightarrow> 'd fs3" where
  "free_meta_block blk fs =
     tx_upd (\<lambda>t. t\<lparr>tx_meta := bt_remove blk (tx_meta t), tx_to_free := tx_to_free t @ [(blk, 1)]\<rparr>) fs"

subsection \<open>The block allocator\<close>

definition mark_range :: "nat \<Rightarrow> nat \<Rightarrow> bool \<Rightarrow> 'd fs3 \<Rightarrow> ('d fs3, fs_error, unit) res" where
  "mark_range start len used fs =
     (if len = 0 then (Inr (), fs)
      else case checked_add 32 start len of
          None \<Rightarrow> (Inl (Corrupt ''block range overflow''), fs)
        | Some e \<Rightarrow>
            if start < data_start (f_geo fs) \<or> backup_sb (f_geo fs) < e
            then (Inl (Corrupt ''block range outside the data region''), fs)
            else if list_ex (\<lambda>b. bits_get (f_bbits fs) b = used) [start..<e]
            then (Inl (Corrupt ''block allocated or freed twice''), fs)
            else
              let bits = fold (\<lambda>b v. if used then bits_set v b else bits_clear v b) [start..<e] (f_bbits fs);
                  touched = fold bs_insert [start div BITS_PER_BITMAP_BLOCK..<(e - 1) div BITS_PER_BITMAP_BLOCK + 1]
                    (tx_touched_bb (f_tx fs))
              in (Inr (), fs\<lparr>f_bbits := bits,
                    f_tx := (f_tx fs)\<lparr>tx_touched_bb := touched, tx_blog := tx_blog (f_tx fs) @ [(start, len, used)]\<rparr>,
                    f_free_blocks := (if used then f_free_blocks fs - len else sat_add32 (f_free_blocks fs) len)\<rparr>))"

fun mark_runs :: "(nat \<times> nat) list \<Rightarrow> bool \<Rightarrow> 'd fs3 \<Rightarrow> ('d fs3, fs_error, unit) res" where
  "mark_runs [] used fs = (Inr (), fs)"
| "mark_runs ((s, l) # rs) used fs = bindr (mark_range s l used fs) (\<lambda>_ fs. mark_runs rs used fs)"

text \<open>
  The fragmented case: free runs from \<open>p\<close> on, until \<open>remaining\<close> blocks are found.  One unit
  of fuel per position is enough, since each iteration moves \<open>p\<close> past a run it has taken.
\<close>

fun take_runs :: "nat \<Rightarrow> bitmap \<Rightarrow> nat \<Rightarrow> nat \<Rightarrow> nat \<Rightarrow> (nat \<times> nat) list \<Rightarrow> nat \<times> (nat \<times> nat) list" where
  "take_runs 0 v p to remaining runs = (remaining, runs)"
| "take_runs (Suc fuel) v p to remaining runs =
     (if 0 < remaining then
        (case next_free v p to of
           None \<Rightarrow> (remaining, runs)
         | Some s \<Rightarrow>
             let e = (case next_used v s to of None \<Rightarrow> to | Some e \<Rightarrow> e);
                 taken = min (e - s) remaining
             in take_runs fuel v (s + taken) to (remaining - taken) (runs @ [(s, taken)]))
      else (remaining, runs))"

definition alloc_blocks :: "nat \<Rightarrow> nat \<Rightarrow> 'd fs3 \<Rightarrow> ('d fs3, fs_error, (nat \<times> nat) list) res" where
  "alloc_blocks want hint fs =
     (if want = 0 then (Inr [], fs)
      else if f_free_blocks fs < want then (Inl NoSpace, fs)
      else
        let lo = data_start (f_geo fs); hi = backup_sb (f_geo fs);
            hint = (if hint < lo \<or> hi \<le> hint then lo else hint);
            start = (case find_run (f_bbits fs) hint hi want of
                Some s \<Rightarrow> Some s | None \<Rightarrow> find_run (f_bbits fs) lo hi want)
        in case start of
            Some s \<Rightarrow>
              bindr (mark_range s want True fs) (\<lambda>_ fs. (Inr [(s, want)], fs\<lparr>f_alloc_hint := u32_add s want\<rparr>))
          | None \<Rightarrow>
              let (rem1, runs1) = take_runs (Suc (hi - hint)) (f_bbits fs) hint hi want [];
                  (rem2, runs2) = take_runs (Suc (hint - lo)) (f_bbits fs) lo hint rem1 runs1
              in if 0 < rem2 then (Inl NoSpace, fs)
                 else bindr (mark_runs runs2 True fs) (\<lambda>_ fs.
                   (Inr runs2, if runs2 = [] then fs
                     else fs\<lparr>f_alloc_hint := u32_add (fst (last runs2)) (snd (last runs2))\<rparr>)))"

subsection \<open>Transactions\<close>

definition tx_begin :: "'d fs3 \<Rightarrow> ('d fs3, fs_error, unit) res" where
  "tx_begin fs =
     (case ready fs of
        Inl e \<Rightarrow> (Inl e, fs)
      | Inr _ \<Rightarrow> (Inr (), fs\<lparr>f_tx := tx_idle\<lparr>tx_active := True, tx_free_blocks0 := f_free_blocks fs,
          tx_free_inodes0 := f_free_inodes fs, tx_hint0 := f_alloc_hint fs\<rparr>\<rparr>))"

definition undo_range :: "nat \<times> nat \<times> bool \<Rightarrow> bitmap \<Rightarrow> bitmap" where
  "undo_range e v =
     (case e of (s, l, now) \<Rightarrow> fold (\<lambda>b v. if now then bits_clear v b else bits_set v b) [s..<u32_add s l] v)"

definition undo_bit :: "nat \<times> bool \<Rightarrow> bitmap \<Rightarrow> bitmap" where
  "undo_bit e v = (case e of (i, now) \<Rightarrow> if now then bits_clear v i else bits_set v i)"

definition tx_abort :: "'d fs3 \<Rightarrow> 'd fs3" where
  "tx_abort fs =
     (let tx = f_tx fs in
      fs\<lparr>f_tx := tx_idle,
         f_bbits := fold undo_range (rev (tx_blog tx)) (f_bbits fs),
         f_ibits := fold undo_bit (rev (tx_ilog tx)) (f_ibits fs),
         f_free_blocks := tx_free_blocks0 tx,
         f_free_inodes := tx_free_inodes0 tx,
         f_alloc_hint := tx_hint0 tx,
         f_cache := fold (\<lambda>(s, l). fold discard [s..<u32_add s l]) (tx_data tx) (f_cache fs)\<rparr>)"

fun put_images :: "(nat \<Rightarrow> nat) \<Rightarrow> ('d fs3 \<Rightarrow> bitmap) \<Rightarrow> nat list \<Rightarrow> 'd fs3 \<Rightarrow> ('d fs3, fs_error, unit) res" where
  "put_images at bits [] fs = (Inr (), fs)"
| "put_images at bits (i # is) fs =
     bindr (put_meta (at i) (bitmap_image (bits fs) i) fs) (\<lambda>_ fs. put_images at bits is fs)"

definition prepare_commit :: "'d fs3 \<Rightarrow> ('d fs3, fs_error, unit) res" where
  "prepare_commit fs =
     (let frees = tx_to_free (f_tx fs); fs = tx_upd (\<lambda>t. t\<lparr>tx_to_free := []\<rparr>) fs in
      bindr (mark_runs frees False fs) (\<lambda>_ fs.
      bindr (put_images (\<lambda>i. u32_add (bbitmap_start (f_geo fs)) i) f_bbits (tx_touched_bb (f_tx fs)) fs) (\<lambda>_ fs.
      bindr (put_images (\<lambda>i. u32_add (ibitmap_start (f_geo fs)) i) f_ibits (tx_touched_ib (f_tx fs)) fs) (\<lambda>_ fs.
        if journal_blocks (f_geo fs) < length (tx_meta (f_tx fs)) then (Inl TxTooLarge, fs) else (Inr (), fs)))))"

text \<open>\<open>write_journal\<close>, on the cache: the payload, the commit record, the home locations, the empty record.\<close>

fun write_blocks :: "'d blockdevice \<Rightarrow> (nat \<times> bytes \<times> nat) list \<Rightarrow> 'd block_cache \<Rightarrow> ('d block_cache, io_error, unit) res" where
  "write_blocks dev [] c = (Inr (), c)"
| "write_blocks dev ((b, data, tag) # ws) c = bindr (write_direct dev b data tag c) (\<lambda>_ c. write_blocks dev ws c)"

definition payload_writes :: "geometry \<Rightarrow> bytes list \<Rightarrow> (nat \<times> bytes \<times> nat) list" where
  "payload_writes g blocks = map (\<lambda>(i, b). (u32_add (jpayload g) (as_u32 i), b, 0)) (zip [0..<length blocks] blocks)"

definition home_tag :: "bytes \<Rightarrow> nat" where
  "home_tag b = (if get_slice 4 4 b = DIR_MAGIC then 1 else if get_slice 4 4 b = EXT_MAGIC then 2 else 0)"

definition home_writes :: "nat list \<Rightarrow> bytes list \<Rightarrow> (nat \<times> bytes \<times> nat) list" where
  "home_writes targets blocks = map (\<lambda>(t, b). (t, b, home_tag b)) (zip targets blocks)"

definition journal_steps :: "'d blockdevice \<Rightarrow> geometry \<Rightarrow> nat \<Rightarrow> nat list \<Rightarrow> bytes list \<Rightarrow> 'd block_cache \<Rightarrow>
    ('d block_cache, io_error, unit) res" where
  "journal_steps dev g seq targets blocks c =
     bindr (write_blocks dev (payload_writes g blocks) c) (\<lambda>_ c.
     bindr (bc_flush dev c) (\<lambda>_ c.
     bindr (write_direct dev (jhdr g) (build_journal_header seq targets blocks) 0 c) (\<lambda>_ c.
     bindr (bc_flush dev c) (\<lambda>_ c.
     bindr (write_blocks dev (home_writes targets blocks) c) (\<lambda>_ c.
     bindr (bc_flush dev c) (\<lambda>_ c.
     bindr (write_direct dev (jhdr g) (build_journal_header seq [] []) 0 c) (\<lambda>_ c.
     bc_flush dev c)))))))"

definition write_journal :: "'d blockdevice \<Rightarrow> 'd fs3 \<Rightarrow> ('d fs3, fs_error, unit) res" where
  "write_journal dev fs =
     (let targets = bt_keys (tx_meta (f_tx fs)); blocks = bt_values (tx_meta (f_tx fs));
          seq = (f_seq fs + 1) mod 2 ^ 64
      in bindr (lift_io (journal_steps dev (f_geo fs) seq targets blocks (f_cache fs)) fs) (\<lambda>_ fs.
           (Inr (), fs\<lparr>f_seq := seq\<rparr>)))"

definition tx_commit :: "'d blockdevice \<Rightarrow> 'd fs3 \<Rightarrow> ('d fs3, fs_error, unit) res" where
  "tx_commit dev fs =
     (case prepare_commit fs of
        (Inl e, fs) \<Rightarrow> (Inl e, tx_abort fs)
      | (Inr _, fs) \<Rightarrow>
          if tx_meta (f_tx fs) = [] then (Inr (), fs\<lparr>f_tx := tx_idle\<rparr>)
          else (case write_journal dev fs of
              (Inr _, fs) \<Rightarrow> (Inr (), fs\<lparr>f_commits := f_commits fs + 1, f_tx := tx_idle\<rparr>)
            | (Inl e, fs) \<Rightarrow> (Inl e, fs\<lparr>f_poisoned := True, f_tx := tx_idle\<rparr>)))"

definition txn :: "'d blockdevice \<Rightarrow> ('d fs3 \<Rightarrow> ('d fs3, fs_error, 'r) res) \<Rightarrow> 'd fs3 \<Rightarrow> ('d fs3, fs_error, 'r) res" where
  "txn dev f fs =
     bindr (tx_begin fs) (\<lambda>_ fs.
       case f fs of
         (Inr r, fs) \<Rightarrow> bindr (tx_commit dev fs) (\<lambda>_ fs. (Inr r, fs))
       | (Inl e, fs) \<Rightarrow> (Inl e, tx_abort fs))"

subsection \<open>Replay\<close>

definition replay_journal :: "'d blockdevice \<Rightarrow> geometry \<Rightarrow> 'd block_cache \<Rightarrow> ('d block_cache, fs_error, nat) res" where
  "replay_journal dev g c =
     bindr (cache_io (bc_read dev (jhdr g) c)) (\<lambda>h c.
       case parse_journal_header h (journal_blocks g) of
         None \<Rightarrow> (Inr 0, c)
       | Some parsed \<Rightarrow>
           let n = length (jh_targets parsed) in
           if n = 0 then (Inr (jh_seq parsed), c)
           else bindr (cache_io (read_many dev (jpayload g) (n * BLOCK_SIZE) c)) (\<lambda>payload c.
             if \<not> journal_crc_ok h payload then (Inr (jh_seq parsed), c)
             else if list_ex (\<lambda>t. t < bbitmap_start g \<or> backup_sb g \<le> t) (jh_targets parsed)
             then (Inl (Corrupt ''journal target out of range''), c)
             else
               bindr (cache_io (write_blocks dev (map (\<lambda>(i, t). (t, get_slice (i * BLOCK_SIZE) BLOCK_SIZE payload, 0))
                   (zip [0..<n] (jh_targets parsed))) c)) (\<lambda>_ c.
               bindr (cache_io (bc_flush dev c)) (\<lambda>_ c.
               bindr (cache_io (write_direct dev (jhdr g) (build_journal_header (jh_seq parsed) [] []) 0 c)) (\<lambda>_ c.
               bindr (cache_io (bc_flush dev c)) (\<lambda>_ c.
                 (Inr (jh_seq parsed), c)))))))"

end
