(* ===== verification/Inode.thy ===== *)
theory Inode
  imports Layout
begin

text \<open>
  \<^verbatim>\<open>kitsune_core/src/storage/fs3/inode.rs\<close>: extents and inodes, their encoding into a
  512-byte slot and the decoding that checks it.
\<close>

subsection \<open>The code\<close>

definition INLINE_EXTENTS :: nat where "INLINE_EXTENTS = 12"
definition EXTENT_SIZE :: nat where "EXTENT_SIZE = 12"
definition EXTENTS_PER_BLOCK :: nat where "EXTENTS_PER_BLOCK = (4096 - 24) div EXTENT_SIZE"
definition MAX_NAME :: nat where "MAX_NAME = 255"
definition FLAG_TRASHED :: u8 where "FLAG_TRASHED = 1"
definition OFF_TRASH_NAME :: nat where "OFF_TRASH_NAME = 224"
definition OFF_GID :: nat where "OFF_GID = 484"
definition OFF_INLINE :: nat where "OFF_INLINE = 80"

lemmas inode_consts = INLINE_EXTENTS_def EXTENT_SIZE_def EXTENTS_PER_BLOCK_def MAX_NAME_def FLAG_TRASHED_def
  OFF_TRASH_NAME_def OFF_GID_def OFF_INLINE_def

datatype kind = File | Dir

definition kind_to_u8 :: "kind \<Rightarrow> u8" where
  "kind_to_u8 k = (case k of File \<Rightarrow> 1 | Dir \<Rightarrow> 2)"

definition kind_from_u8 :: "u8 \<Rightarrow> kind option" where
  "kind_from_u8 v = (if v = 1 then Some File else if v = 2 then Some Dir else None)"

record extent =
  lblk :: nat
  elen :: nat
  pblk :: nat

definition extent_default :: extent where
  "extent_default = \<lparr>lblk = 0, elen = 0, pblk = 0\<rparr>"

definition lend :: "extent \<Rightarrow> nat" where "lend e = lblk e + elen e"
definition pend :: "extent \<Rightarrow> nat" where "pend e = pblk e + elen e"

definition extent_encode :: "extent \<Rightarrow> nat \<Rightarrow> bytes \<Rightarrow> bytes" where
  "extent_encode e at b = wr32 (wr32 (wr32 b at (lblk e)) (at + 4) (elen e)) (at + 8) (pblk e)"

definition extent_decode :: "bytes \<Rightarrow> nat \<Rightarrow> extent" where
  "extent_decode b at = \<lparr>lblk = rd32 b at, elen = rd32 b (at + 4), pblk = rd32 b (at + 8)\<rparr>"

record inode =
  i_kind :: kind
  i_flags :: u8
  i_mode :: nat
  i_uid :: nat
  i_gid :: nat
  i_nlink :: nat
  i_size :: nat
  i_ctime :: nat
  i_mtime :: nat
  i_nblocks :: nat
  i_nextents :: nat
  i_ext_chain :: nat
  i_parent :: nat
  i_nentries :: nat
  i_trash_parent :: nat
  i_trash_time :: nat
  i_trash_pctime :: nat
  i_trash_name :: bytes
  i_inline :: "extent list"

definition inode_new :: "kind \<Rightarrow> nat \<Rightarrow> nat \<Rightarrow> inode" where
  "inode_new k now parent =
     \<lparr>i_kind = k, i_flags = 0, i_mode = (if k = Dir then 493 else 420), i_uid = 0, i_gid = 0, i_nlink = 1,
      i_size = 0, i_ctime = now, i_mtime = now, i_nblocks = 0, i_nextents = 0, i_ext_chain = 0,
      i_parent = parent, i_nentries = 0, i_trash_parent = 0, i_trash_time = 0, i_trash_pctime = 0,
      i_trash_name = [], i_inline = replicate INLINE_EXTENTS extent_default\<rparr>"

definition encode_extents :: "nat \<Rightarrow> extent list \<Rightarrow> bytes \<Rightarrow> bytes" where
  "encode_extents at es b = fold (\<lambda>(i, e). extent_encode e (at + i * EXTENT_SIZE)) (zip [0..<length es] es) b"

definition inode_encode :: "inode \<Rightarrow> bytes" where
  "inode_encode n =
     (let b = replicate INODE_SIZE 0;
          b = put_slice 4 [kind_to_u8 (i_kind n)] b;
          b = put_slice 5 [i_flags n] b;
          b = wr16 b 6 (i_mode n);
          b = wr32 b 8 (i_uid n);
          b = wr32 b OFF_GID (i_gid n);
          b = wr32 b 12 (i_nlink n);
          b = wr64 b 16 (i_size n);
          b = wr64 b 24 (i_ctime n);
          b = wr64 b 32 (i_mtime n);
          b = wr32 b 40 (i_nblocks n);
          b = wr32 b 44 (i_nextents n);
          b = wr32 b 48 (i_ext_chain n);
          b = wr32 b 52 (i_parent n);
          b = wr32 b 56 (i_nentries n);
          b = wr32 b 60 (i_trash_parent n);
          b = wr64 b 64 (i_trash_time n);
          k = min (length (i_trash_name n)) MAX_NAME;
          b = put_slice 72 [word_of_nat k] b;
          b = wr32 b 76 (i_trash_pctime n);
          b = encode_extents OFF_INLINE (i_inline n) b;
          b = put_slice OFF_TRASH_NAME (take k (i_trash_name n)) b;
          c = crc32 (drop 4 b)
      in wr32 b 0 (unat c))"

definition inode_decode :: "bytes \<Rightarrow> inode option" where
  "inode_decode b0 =
     (if length b0 < INODE_SIZE then None
      else let b = take INODE_SIZE b0 in
        if rd32 b 0 \<noteq> unat (crc32 (drop 4 b)) then None
        else case kind_from_u8 (b ! 4) of
            None \<Rightarrow> None
          | Some k \<Rightarrow>
              let flags = b ! 5 in
              if flags AND NOT FLAG_TRASHED \<noteq> 0 then None
              else
                let tn = unat (b ! 72) in
                Some \<lparr>i_kind = k, i_flags = flags, i_mode = rd16 b 6, i_uid = rd32 b 8, i_gid = rd32 b OFF_GID,
                  i_nlink = rd32 b 12, i_size = rd64 b 16, i_ctime = rd64 b 24, i_mtime = rd64 b 32,
                  i_nblocks = rd32 b 40, i_nextents = rd32 b 44, i_ext_chain = rd32 b 48, i_parent = rd32 b 52,
                  i_nentries = rd32 b 56, i_trash_parent = rd32 b 60, i_trash_time = rd64 b 64,
                  i_trash_pctime = rd32 b 76, i_trash_name = get_slice OFF_TRASH_NAME tn b,
                  i_inline = map (\<lambda>i. extent_decode b (OFF_INLINE + i * EXTENT_SIZE)) [0..<INLINE_EXTENTS]\<rparr>)"

subsection \<open>Extents read back\<close>

fun ext_fields :: "nat \<Rightarrow> extent list \<Rightarrow> (nat \<times> bytes) list" where
  "ext_fields at [] = []"
| "ext_fields at (e # es) = (at, le_bytes 4 (lblk e)) # (at + 4, le_bytes 4 (elen e)) # (at + 8, le_bytes 4 (pblk e)) #
     ext_fields (at + EXTENT_SIZE) es"

lemma encode_extents_Cons:
  "encode_extents at (e # es) b = encode_extents (at + EXTENT_SIZE) es (extent_encode e at b)"
proof -
  have "zip [0..<length (e # es)] (e # es) = (0, e) # map (\<lambda>(i, e). (Suc i, e)) (zip [0..<length es] es)"
    by (simp add: upt_conv_Cons zip_map1 [symmetric] map_Suc_upt [symmetric] del: upt_Suc map_Suc_upt)
  then show ?thesis
    by (simp add: encode_extents_def fold_map o_def case_prod_unfold algebra_simps del: upt_Suc)
qed

lemma encode_extents_put_all: "encode_extents at es b = put_all (ext_fields at es) b"
proof (induction es arbitrary: at b)
  case Nil
  then show ?case by (simp add: encode_extents_def)
next
  case (Cons e es)
  then show ?case by (simp add: encode_extents_Cons extent_encode_def wr32_def)
qed

lemma ext_fields_pos:
  "w \<in> set (ext_fields at es) \<Longrightarrow> at \<le> fst w \<and> fst w + length (snd w) \<le> at + length es * EXTENT_SIZE"
proof (induction es arbitrary: at)
  case (Cons e es)
  then show ?case using Cons.IH [of "at + EXTENT_SIZE"] by (fastforce simp: EXTENT_SIZE_def)
qed simp

lemma ext_fields_apart: "sorted_wrt apart (ext_fields at es)"
proof (induction es arbitrary: at)
  case (Cons e es)
  show ?case
    using Cons.IH [of "at + EXTENT_SIZE"] ext_fields_pos [of _ "at + EXTENT_SIZE" es]
    by (auto simp: apart_def EXTENT_SIZE_def dest!: ext_fields_pos)
qed simp

lemma ext_fields_mem:
  "i < length es \<Longrightarrow> (at + i * EXTENT_SIZE, le_bytes 4 (lblk (es ! i))) \<in> set (ext_fields at es) \<and>
    (at + i * EXTENT_SIZE + 4, le_bytes 4 (elen (es ! i))) \<in> set (ext_fields at es) \<and>
    (at + i * EXTENT_SIZE + 8, le_bytes 4 (pblk (es ! i))) \<in> set (ext_fields at es)"
proof (induction es arbitrary: at i)
  case (Cons e es)
  show ?case
  proof (cases i)
    case 0
    then show ?thesis by simp
  next
    case (Suc j)
    then show ?thesis using Cons.IH [of j "at + EXTENT_SIZE"] Cons.prems by (simp add: add.assoc)
  qed
qed simp

definition extent_wf :: "extent \<Rightarrow> bool" where
  "extent_wf e \<longleftrightarrow> lblk e < 2 ^ 32 \<and> elen e < 2 ^ 32 \<and> pblk e < 2 ^ 32"

text \<open>Extents written by \<open>encode_extents\<close> among other fields are read back by \<open>extent_decode\<close>.\<close>

lemma extent_decode_put_all:
  assumes "fits (length b) ws" and "sorted_wrt apart ws" and "set (ext_fields at es) \<subseteq> set ws" and "i < length es"
    and "extent_wf (es ! i)"
  shows "extent_decode (put_all ws b) (at + i * EXTENT_SIZE) = es ! i"
proof -
  have "le_nat (get_slice j 4 (put_all ws b)) = v" if "(j, le_bytes 4 v) \<in> set (ext_fields at es)" "v < 2 ^ 32" for j v
    using put_all_get [OF assms(1,2), of j "le_bytes 4 v" 4] assms(3) that by auto
  then show ?thesis
    using ext_fields_mem [OF assms(4), of at] assms(5) by (simp add: extent_decode_def rd32_def extent_wf_def)
qed

subsection \<open>The inode round trip\<close>

definition inode_wf :: "inode \<Rightarrow> bool" where
  "inode_wf n \<longleftrightarrow> i_flags n AND NOT FLAG_TRASHED = 0 \<and> i_mode n < 2 ^ 16 \<and> i_uid n < 2 ^ 32 \<and> i_gid n < 2 ^ 32 \<and>
     i_nlink n < 2 ^ 32 \<and> i_size n < 2 ^ 64 \<and> i_ctime n < 2 ^ 64 \<and> i_mtime n < 2 ^ 64 \<and> i_nblocks n < 2 ^ 32 \<and>
     i_nextents n < 2 ^ 32 \<and> i_ext_chain n < 2 ^ 32 \<and> i_parent n < 2 ^ 32 \<and> i_nentries n < 2 ^ 32 \<and>
     i_trash_parent n < 2 ^ 32 \<and> i_trash_time n < 2 ^ 64 \<and> i_trash_pctime n < 2 ^ 32 \<and>
     length (i_trash_name n) \<le> MAX_NAME \<and> length (i_inline n) = INLINE_EXTENTS \<and> list_all extent_wf (i_inline n)"

definition inode_head :: "inode \<Rightarrow> (nat \<times> bytes) list" where
  "inode_head n =
     [(4, [kind_to_u8 (i_kind n)]), (5, [i_flags n]), (6, le_bytes 2 (i_mode n)), (8, le_bytes 4 (i_uid n)),
      (484, le_bytes 4 (i_gid n)), (12, le_bytes 4 (i_nlink n)), (16, le_bytes 8 (i_size n)),
      (24, le_bytes 8 (i_ctime n)), (32, le_bytes 8 (i_mtime n)), (40, le_bytes 4 (i_nblocks n)),
      (44, le_bytes 4 (i_nextents n)), (48, le_bytes 4 (i_ext_chain n)), (52, le_bytes 4 (i_parent n)),
      (56, le_bytes 4 (i_nentries n)), (60, le_bytes 4 (i_trash_parent n)), (64, le_bytes 8 (i_trash_time n)),
      (72, [word_of_nat (length (i_trash_name n))]), (76, le_bytes 4 (i_trash_pctime n))]"

definition inode_fields :: "inode \<Rightarrow> (nat \<times> bytes) list" where
  "inode_fields n = inode_head n @ ext_fields 80 (i_inline n) @ [(224, i_trash_name n)]"

lemma inode_head_ok:
  "fits INODE_SIZE (inode_head n)" "sorted_wrt apart (inode_head n)"
  "w \<in> set (inode_head n) \<Longrightarrow> fst w + length (snd w) \<le> 80 \<or> 484 \<le> fst w"
  by (auto simp: inode_head_def INODE_SIZE_def apart_def)

lemma inode_fields_ok:
  assumes "inode_wf n"
  shows "fits INODE_SIZE (inode_fields n)" and "sorted_wrt apart (inode_fields n)"
proof -
  have len: "length (i_inline n) = 12" "length (i_trash_name n) \<le> 255" using assms by (auto simp: inode_wf_def inode_consts)
  have ext: "80 \<le> fst w \<and> fst w + length (snd w) \<le> 224" if "w \<in> set (ext_fields 80 (i_inline n))" for w
    using ext_fields_pos [OF that] len(1) by (simp add: EXTENT_SIZE_def)
  show "fits INODE_SIZE (inode_fields n)"
    using inode_head_ok(1) [of n] len(2) ext by (force simp: inode_fields_def fits_def list_all_iff INODE_SIZE_def)
  show "sorted_wrt apart (inode_fields n)"
    using inode_head_ok(2) [of n] inode_head_ok(3) [of _ n] ext_fields_apart [of 80 "i_inline n"] ext len(2)
    by (fastforce simp: inode_fields_def sorted_wrt_append apart_def)
qed

lemma inode_encode_fields:
  assumes "inode_wf n"
  shows "inode_encode n = (let b = put_all (inode_fields n) (replicate INODE_SIZE 0) in wr32 b 0 (unat (crc32 (drop 4 b))))"
proof -
  have "min (length (i_trash_name n)) MAX_NAME = length (i_trash_name n)" using assms by (simp add: inode_wf_def)
  then show ?thesis
    by (simp add: inode_encode_def Let_def inode_fields_def inode_head_def put_all_append encode_extents_put_all
        wr16_def wr32_def wr64_def inode_consts)
qed

lemma length_inode_encode: "inode_wf n \<Longrightarrow> length (inode_encode n) = INODE_SIZE"
  using length_put_all [of "replicate INODE_SIZE 0" "inode_fields n"] inode_fields_ok(1) [of n]
  by (simp add: inode_encode_fields Let_def INODE_SIZE_def)

lemma inode_decode_encode:
  assumes "inode_wf n"
  shows "inode_decode (inode_encode n) = Some n"
proof -
  define b where "b = put_all (inode_fields n) (replicate INODE_SIZE 0)"
  define e where "e = wr32 b 0 (unat (crc32 (drop 4 b)))"
  have enc: "inode_encode n = e" using inode_encode_fields [OF assms] by (simp add: b_def e_def Let_def)
  note ok = inode_fields_ok [OF assms]
  have lb: "length b = INODE_SIZE" using length_put_all [of "replicate INODE_SIZE 0" "inode_fields n"] ok(1) by (simp add: b_def)
  then have le: "length e = INODE_SIZE" by (simp add: e_def INODE_SIZE_def)
  have field: "get_slice i (length xs) b = xs" if "(i, xs) \<in> set (inode_fields n)" for i xs
    unfolding b_def by (rule put_all_get) (use ok that in simp_all)
  have num: "le_nat (get_slice i k b) = v" if "(i, le_bytes k v) \<in> set (inode_fields n)" "v < 256 ^ k" for i k v
    using field [OF that(1)] that(2) by simp
  have sl: "get_slice i k e = get_slice i k b" if "4 \<le> i" for i k
    using lb that by (simp add: e_def INODE_SIZE_def)
  have r: "rd32 e i = v" if "(i, le_bytes 4 v) \<in> set (inode_fields n)" "v < 2 ^ 32" "4 \<le> i" for i v
    using num [OF that(1)] sl [OF that(3)] that(2) by (simp add: rd32_def)
  have r64: "rd64 e i = v" if "(i, le_bytes 8 v) \<in> set (inode_fields n)" "v < 2 ^ 64" "4 \<le> i" for i v
    using num [OF that(1)] sl [OF that(3)] that(2) by (simp add: rd64_def)
  have byte: "e ! i = x" if "(i, [x]) \<in> set (inode_fields n)" "4 \<le> i" "i < INODE_SIZE" for i x
  proof -
    have "get_slice i 1 e = [x]" using field [OF that(1)] sl [OF that(2)] by simp
    then have "get_slice i 1 e ! 0 = x" by simp
    then show ?thesis using le that(3) by simp
  qed
  have head: "w \<in> set (inode_fields n)" if "w \<in> set (inode_head n)" for w using that by (simp add: inode_fields_def)
  have kinds: "e ! 4 = kind_to_u8 (i_kind n)" "e ! 5 = i_flags n" "e ! 72 = word_of_nat (length (i_trash_name n))"
    by (rule byte; simp add: inode_fields_def inode_head_def INODE_SIZE_def)+
  have mode: "rd16 e 6 = i_mode n"
    using num [of 6 2 "i_mode n"] sl [of 6 2] assms by (simp add: rd16_def inode_fields_def inode_head_def inode_wf_def)
  have wf: "i_uid n < 2 ^ 32" "i_gid n < 2 ^ 32" "i_nlink n < 2 ^ 32" "i_nblocks n < 2 ^ 32" "i_nextents n < 2 ^ 32"
    "i_ext_chain n < 2 ^ 32" "i_parent n < 2 ^ 32" "i_nentries n < 2 ^ 32" "i_trash_parent n < 2 ^ 32" "i_trash_pctime n < 2 ^ 32"
    "i_size n < 2 ^ 64" "i_ctime n < 2 ^ 64" "i_mtime n < 2 ^ 64" "i_trash_time n < 2 ^ 64"
    using assms by (simp_all add: inode_wf_def)
  have ints: "rd32 e 8 = i_uid n" "rd32 e 484 = i_gid n" "rd32 e 12 = i_nlink n" "rd32 e 40 = i_nblocks n" "rd32 e 44 = i_nextents n"
    "rd32 e 48 = i_ext_chain n" "rd32 e 52 = i_parent n" "rd32 e 56 = i_nentries n" "rd32 e 60 = i_trash_parent n"
    "rd32 e 76 = i_trash_pctime n"
    by (rule r; (rule head; simp add: inode_head_def | use wf in simp))+
  have longs: "rd64 e 16 = i_size n" "rd64 e 24 = i_ctime n" "rd64 e 32 = i_mtime n" "rd64 e 64 = i_trash_time n"
    by (rule r64; (rule head; simp add: inode_head_def | use wf in simp))+
  have tn: "unat (e ! 72) = length (i_trash_name n)"
    using assms by (simp add: kinds unat_byte_of_nat inode_wf_def MAX_NAME_def)
  have name: "get_slice 224 (length (i_trash_name n)) e = i_trash_name n"
    using field [of 224 "i_trash_name n"] sl [of 224] by (simp add: inode_fields_def)
  have inl: "map (\<lambda>i. extent_decode e (80 + i * EXTENT_SIZE)) [0..<INLINE_EXTENTS] = i_inline n"
  proof (rule nth_equalityI)
    fix i assume "i < length (map (\<lambda>i. extent_decode e (80 + i * EXTENT_SIZE)) [0..<INLINE_EXTENTS])"
    then have i: "i < length (i_inline n)" using assms by (simp add: inode_wf_def)
    then have "extent_wf (i_inline n ! i)" using assms by (simp add: inode_wf_def list_all_iff)
    then have "extent_decode b (80 + i * EXTENT_SIZE) = i_inline n ! i"
      unfolding b_def by (intro extent_decode_put_all) (use ok i in \<open>auto simp: inode_fields_def\<close>)
    moreover have "extent_decode e (80 + i * EXTENT_SIZE) = extent_decode b (80 + i * EXTENT_SIZE)"
      by (simp add: extent_decode_def rd32_def sl)
    ultimately show "map (\<lambda>i. extent_decode e (80 + i * EXTENT_SIZE)) [0..<INLINE_EXTENTS] ! i = i_inline n ! i"
      using i assms by (simp add: inode_wf_def)
  qed (use assms in \<open>simp add: inode_wf_def\<close>)
  have crc: "rd32 e 0 = unat (crc32 (drop 4 e))" using lb by (simp add: e_def INODE_SIZE_def)
  have kd: "kind_from_u8 (kind_to_u8 (i_kind n)) = Some (i_kind n)"
    by (cases "i_kind n") (simp_all add: kind_from_u8_def kind_to_u8_def)
  have fl: "i_flags n AND NOT FLAG_TRASHED = 0" using assms by (simp add: inode_wf_def)
  show ?thesis
    unfolding enc inode_decode_def using le crc kd fl
    by (simp add: Let_def kinds mode ints longs tn [unfolded kinds] name inl OFF_TRASH_NAME_def OFF_GID_def OFF_INLINE_def)
qed

text \<open>C15: A well-formed inode survives encoding into its slot and decoding; the slot is exactly full.\<close>

theorem inode_roundtrip:
  assumes "inode_wf n"
  shows "inode_decode (inode_encode n) = Some n \<and> length (inode_encode n) = INODE_SIZE"
  using inode_decode_encode [OF assms] length_inode_encode [OF assms] by simp

definition trashed_dir :: inode where
  "trashed_dir = (inode_new Dir 7 1)\<lparr>i_flags := 1, i_trash_name := [65, 66], i_size := 4096\<rparr>"

lemma trashed_dir_wf: "inode_wf trashed_dir"
  by (simp add: trashed_dir_def inode_wf_def inode_new_def inode_consts extent_default_def extent_wf_def list_all_iff)

theorem inode_roundtrip_witness:
  "inode_decode (inode_encode trashed_dir) = Some trashed_dir \<and> length (inode_encode trashed_dir) = INODE_SIZE"
  by (rule inode_roundtrip [OF trashed_dir_wf])

lemma decoded_inode_wf:
  assumes "inode_decode b = Some n"
  shows "inode_wf n \<and> INODE_SIZE \<le> length b"
proof -
  have "length (get_slice OFF_TRASH_NAME (unat x) (take INODE_SIZE b)) \<le> MAX_NAME" for x :: u8
    using unat_byte_less [of x] by (simp add: MAX_NAME_def)
  moreover have "list_all extent_wf (map (\<lambda>i. extent_decode (take INODE_SIZE b) (OFF_INLINE + i * EXTENT_SIZE)) [0..<INLINE_EXTENTS])"
    using rd_less(2) by (simp add: list_all_iff extent_wf_def extent_decode_def)
  ultimately show ?thesis
    using assms rd_less by (auto simp: inode_decode_def inode_wf_def Let_def split: if_splits option.splits)
qed



end
