(* ===== verification/Extent.thy ===== *)
theory Extent
  imports Inode
begin

text \<open>
  The pure helpers of \<^verbatim>\<open>kitsune_core/src/storage/fs3/extent.rs\<close>: looking a logical block up in
  a list of extents, merging neighbours, remapping a range and cutting the tail.  The
  meaning of a list is the relation \<open>maps\<close> between logical and physical blocks.
\<close>

subsection \<open>The code\<close>

text \<open>
  \<open>partition_point\<close> by bisection finds the end of the leading run of elements that satisfy
  the predicate, on a list that is partitioned by it, as a sorted list of extents is.
\<close>

definition map_block :: "extent list \<Rightarrow> nat \<Rightarrow> nat option" where
  "map_block exts lb =
     (let i = length (takeWhile (\<lambda>e. lend e \<le> lb) exts) in
      if i < length exts then
        let e = exts ! i in
        if lblk e \<le> lb then Some (u32_add (pblk e) (lb - lblk e)) else None
      else None)"

definition coalesce_push :: "extent list \<Rightarrow> extent \<Rightarrow> extent list" where
  "coalesce_push out e =
     (if out \<noteq> [] \<and> lend (last out) = lblk e \<and> pend (last out) = pblk e
      then butlast out @ [(last out)\<lparr>elen := u32_add (elen (last out)) (elen e)\<rparr>]
      else out @ [e])"

definition coalesce :: "extent list \<Rightarrow> extent list" where
  "coalesce exts = foldl coalesce_push [] exts"

text \<open>What one pass of the loop of \<open>remap\<close> pushes on \<open>out\<close> and on \<open>freed\<close> for an extent.\<close>

definition remap_keep :: "nat \<Rightarrow> nat \<Rightarrow> extent \<Rightarrow> extent list" where
  "remap_keep s t e =
     (if lend e \<le> s \<or> t \<le> lblk e then [e]
      else (if lblk e < s then [\<lparr>lblk = lblk e, elen = as_u32 (s - lblk e), pblk = pblk e\<rparr>] else []) @
           (if t < lend e then [\<lparr>lblk = as_u32 t, elen = as_u32 (lend e - t), pblk = u32_add (pblk e) (as_u32 (t - lblk e))\<rparr>]
            else []))"

definition remap_free :: "nat \<Rightarrow> nat \<Rightarrow> extent \<Rightarrow> (nat \<times> nat) list" where
  "remap_free s t e =
     (if lend e \<le> s \<or> t \<le> lblk e then []
      else let ov_s = max (lblk e) s; ov_e = min (lend e) t
        in [(u32_add (pblk e) (as_u32 (ov_s - lblk e)), as_u32 (ov_e - ov_s))])"

fun lay_runs :: "nat \<Rightarrow> (nat \<times> nat) list \<Rightarrow> extent list" where
  "lay_runs cur [] = []"
| "lay_runs cur ((p, l) # rs) = \<lparr>lblk = cur, elen = l, pblk = p\<rparr> # lay_runs (u32_add cur l) rs"

definition remap :: "extent list \<Rightarrow> nat \<Rightarrow> nat \<Rightarrow> (nat \<times> nat) list \<Rightarrow> (nat \<times> nat) list \<Rightarrow>
    extent list \<times> (nat \<times> nat) list" where
  "remap exts lb n new_runs freed =
     (let s = lb; t = lb + n;
          out = concat (map (remap_keep s t) exts) @ lay_runs lb new_runs
      in (coalesce (sort_key lblk out), freed @ concat (map (remap_free s t) exts)))"

definition cut_keep :: "nat \<Rightarrow> extent \<Rightarrow> extent list" where
  "cut_keep keep e =
     (if keep \<le> lblk e then []
      else if keep < lend e then [\<lparr>lblk = lblk e, elen = keep - lblk e, pblk = pblk e\<rparr>]
      else [e])"

definition cut_free :: "nat \<Rightarrow> extent \<Rightarrow> (nat \<times> nat) list" where
  "cut_free keep e =
     (if keep \<le> lblk e then [(pblk e, elen e)]
      else if keep < lend e then let k = keep - lblk e in [(u32_add (pblk e) k, elen e - k)]
      else [])"

definition cut_tail :: "extent list \<Rightarrow> nat \<Rightarrow> (nat \<times> nat) list \<Rightarrow> extent list \<times> (nat \<times> nat) list" where
  "cut_tail exts keep freed =
     (concat (map (cut_keep keep) exts), freed @ concat (map (cut_free keep) exts))"

subsection \<open>The meaning of a list of extents\<close>

definition covers :: "extent \<Rightarrow> nat \<Rightarrow> bool" where
  "covers e x \<longleftrightarrow> lblk e \<le> x \<and> x < lend e"

definition maps :: "extent list \<Rightarrow> nat \<Rightarrow> nat \<Rightarrow> bool" where
  "maps exts x p \<longleftrightarrow> (\<exists>e \<in> set exts. covers e x \<and> p = pblk e + (x - lblk e))"

text \<open>Non-empty, inside 32 bits, sorted and disjoint: what \<open>load_extents\<close> checks.\<close>

definition ext_ok :: "extent \<Rightarrow> bool" where
  "ext_ok e \<longleftrightarrow> 0 < elen e \<and> lend e < 2 ^ 32 \<and> pend e < 2 ^ 32"

definition exts_ok :: "extent list \<Rightarrow> bool" where
  "exts_ok exts \<longleftrightarrow> list_all ext_ok exts \<and> sorted_wrt (\<lambda>a b. lend a \<le> lblk b) exts"

definition runs_in :: "(nat \<times> nat) list \<Rightarrow> nat set" where
  "runs_in rs = (\<Union>(p, l) \<in> set rs. {p..<p + l})"

lemma exts_ok_simps [simp]:
  "exts_ok []" "exts_ok (e # es) \<longleftrightarrow> ext_ok e \<and> (\<forall>a \<in> set es. lend e \<le> lblk a) \<and> exts_ok es"
  by (auto simp: exts_ok_def)

lemma exts_ok_append:
  "exts_ok (xs @ ys) \<longleftrightarrow> exts_ok xs \<and> exts_ok ys \<and> (\<forall>a \<in> set xs. \<forall>b \<in> set ys. lend a \<le> lblk b)"
  by (auto simp: exts_ok_def sorted_wrt_append)

lemma maps_simps [simp]:
  "\<not> maps [] x p" "maps (e # es) x p \<longleftrightarrow> (covers e x \<and> p = pblk e + (x - lblk e)) \<or> maps es x p"
  "maps (xs @ ys) x p \<longleftrightarrow> maps xs x p \<or> maps ys x p"
  by (auto simp: maps_def)

lemma runs_in_simps [simp]: "runs_in [] = {}" "runs_in ((p, l) # rs) = {p..<p + l} \<union> runs_in rs"
  "runs_in (xs @ ys) = runs_in xs \<union> runs_in ys"
  by (auto simp: runs_in_def)

lemma map_block_correct:
  assumes "exts_ok exts"
  shows "map_block exts x = Some p \<longleftrightarrow> maps exts x p"
  using assms
proof (induction exts)
  case Nil
  then show ?case by (simp add: map_block_def)
next
  case (Cons e es)
  have ok: "ext_ok e" "exts_ok es" "\<And>a. a \<in> set es \<Longrightarrow> lend e \<le> lblk a" using Cons.prems by auto
  show ?case
  proof (cases "lend e \<le> x")
    case True
    then have "map_block (e # es) x = map_block es x" by (simp add: map_block_def Let_def)
    then show ?thesis using Cons.IH [OF ok(2)] True by (simp add: covers_def)
  next
    case False
    then have mb: "map_block (e # es) x = (if lblk e \<le> x then Some (u32_add (pblk e) (x - lblk e)) else None)"
      by (simp add: map_block_def Let_def)
    have "pblk e + (x - lblk e) < 2 ^ 32" if "lblk e \<le> x" using ok(1) False that unfolding ext_ok_def lend_def pend_def by linarith
    moreover have "\<not> maps es x p" using ok(3) False by (fastforce simp: maps_def covers_def)
    ultimately show ?thesis using False by (auto simp: mb covers_def)
  qed
qed

subsection \<open>Cutting the tail\<close>

lemma cut_one:
  assumes "ext_ok e"
  shows "exts_ok (cut_keep keep e)" and "maps (cut_keep keep e) x p \<longleftrightarrow> maps [e] x p \<and> x < keep"
    and "q \<in> runs_in (cut_free keep e) \<longleftrightarrow> (\<exists>x \<ge> keep. maps [e] x q)" and "a \<in> set (cut_keep keep e) \<Longrightarrow> lblk e \<le> lblk a \<and> lend a \<le> lend e"
proof -
  have e: "0 < elen e" "lblk e + elen e < 2 ^ 32" "pblk e + elen e < 2 ^ 32" using assms by (auto simp: ext_ok_def lend_def pend_def)
  show "exts_ok (cut_keep keep e)" using e by (auto simp: cut_keep_def ext_ok_def lend_def pend_def)
  show "maps (cut_keep keep e) x p \<longleftrightarrow> maps [e] x p \<and> x < keep" using e by (auto simp: cut_keep_def covers_def lend_def)
  show "a \<in> set (cut_keep keep e) \<Longrightarrow> lblk e \<le> lblk a \<and> lend a \<le> lend e" by (auto simp: cut_keep_def lend_def split: if_splits)
  have add: "u32_add (pblk e) (keep - lblk e) = pblk e + (keep - lblk e)" if "keep < lblk e + elen e" "lblk e < keep"
    by (rule u32_add_small) (use e that in linarith)
  show "q \<in> runs_in (cut_free keep e) \<longleftrightarrow> (\<exists>x \<ge> keep. maps [e] x q)"
  proof
    assume "q \<in> runs_in (cut_free keep e)"
    then have "maps [e] (lblk e + (q - pblk e)) q \<and> keep \<le> lblk e + (q - pblk e)"
      using e add by (auto simp: cut_free_def covers_def lend_def Let_def split: if_splits)
    then show "\<exists>x \<ge> keep. maps [e] x q" by blast
  next
    assume "\<exists>x \<ge> keep. maps [e] x q"
    then show "q \<in> runs_in (cut_free keep e)"
      using e add by (auto simp: cut_free_def covers_def lend_def Let_def)
  qed
qed

lemma cut_tail_correct:
  assumes "exts_ok exts" and "cut_tail exts keep freed = (exts', freed')"
  shows "exts_ok exts'" and "maps exts' x p \<longleftrightarrow> maps exts x p \<and> x < keep"
    and "runs_in freed' = runs_in freed \<union> {p. \<exists>x \<ge> keep. maps exts x p}"
proof -
  have eq: "exts' = concat (map (cut_keep keep) exts)" "freed' = freed @ concat (map (cut_free keep) exts)"
    using assms(2) by (simp_all add: cut_tail_def)
  have "exts_ok (concat (map (cut_keep keep) exts)) \<and>
    (maps (concat (map (cut_keep keep) exts)) x p \<longleftrightarrow> maps exts x p \<and> x < keep) \<and>
    runs_in (concat (map (cut_free keep) exts)) = {p. \<exists>x \<ge> keep. maps exts x p} \<and>
    (\<forall>a \<in> set (concat (map (cut_keep keep) exts)). \<exists>e \<in> set exts. lblk e \<le> lblk a)"
    using assms(1)
  proof (induction exts)
    case (Cons e es)
    have ok: "ext_ok e" "exts_ok es" "\<And>a. a \<in> set es \<Longrightarrow> lend e \<le> lblk a" using Cons.prems by auto
    note IH = Cons.IH [OF ok(2)] and one = cut_one [where keep = keep, OF ok(1)]
    have "lend a \<le> lblk b" if "a \<in> set (cut_keep keep e)" "b \<in> set (concat (map (cut_keep keep) es))" for a b
      using one(4) [OF that(1)] IH that(2) ok(3) by (meson le_trans)
    then have "exts_ok (concat (map (cut_keep keep) (e # es)))"
      using IH one(1) by (simp add: exts_ok_append)
    moreover have "\<forall>a \<in> set (concat (map (cut_keep keep) (e # es))). \<exists>e' \<in> set (e # es). lblk e' \<le> lblk a"
      using IH one(4) by auto
    moreover have "runs_in (concat (map (cut_free keep) (e # es))) = {p. \<exists>x \<ge> keep. maps (e # es) x p}"
      using IH one(3) by auto
    ultimately show ?case using IH one(2) by auto
  qed simp
  then show "exts_ok exts'" and "maps exts' x p \<longleftrightarrow> maps exts x p \<and> x < keep"
    and "runs_in freed' = runs_in freed \<union> {p. \<exists>x \<ge> keep. maps exts x p}" by (simp_all add: eq)
qed

subsection \<open>Merging neighbours\<close>

lemma coalesce_push_ok:
  assumes "exts_ok (out @ e # es)"
  shows "exts_ok (coalesce_push out e @ es)" and "maps (coalesce_push out e @ es) x p \<longleftrightarrow> maps (out @ e # es) x p"
proof -
  have "exts_ok (coalesce_push out e @ es) \<and> (maps (coalesce_push out e @ es) x p \<longleftrightarrow> maps (out @ e # es) x p)"
  proof (cases "out \<noteq> [] \<and> lend (last out) = lblk e \<and> pend (last out) = pblk e")
    case True
    define l where "l = last out"
    have out: "out = butlast out @ [l]" using True by (simp add: l_def)
    define l' where "l' = l\<lparr>elen := u32_add (elen l) (elen e)\<rparr>"
    have adj: "lblk l + elen l = lblk e" "pblk l + elen l = pblk e" using True by (auto simp: l_def lend_def pend_def)
    have "exts_ok ((butlast out @ [l]) @ e # es)" using assms out by simp
    then have ok: "ext_ok l" "ext_ok e" "exts_ok (butlast out)" "exts_ok es"
      and ord: "\<And>a. a \<in> set (butlast out) \<Longrightarrow> lend a \<le> lblk l" "\<And>b. b \<in> set es \<Longrightarrow> lend e \<le> lblk b"
        "\<And>a b. a \<in> set (butlast out) \<Longrightarrow> b \<in> set es \<Longrightarrow> lend a \<le> lblk b"
      by (auto simp: exts_ok_append)
    have "elen l + elen e < 2 ^ 32" using ok(2) adj unfolding ext_ok_def lend_def pend_def by linarith
    then have l': "lblk l' = lblk l" "elen l' = elen l + elen e" "pblk l' = pblk l" by (simp_all add: l'_def)
    have push: "coalesce_push out e = butlast out @ [l']" using True by (simp add: coalesce_push_def l'_def l_def)
    have "ext_ok l'" "lend l' = lend e" using ok(1,2) adj by (auto simp: ext_ok_def l' lend_def pend_def)
    then have "exts_ok (coalesce_push out e @ es)"
      using ok ord by (auto simp: push exts_ok_append l')
    moreover have "maps (coalesce_push out e @ es) x p \<longleftrightarrow> maps (out @ e # es) x p"
    proof -
      have "maps [l'] x p \<longleftrightarrow> maps [l] x p \<or> maps [e] x p" using adj by (auto simp: covers_def lend_def l')
      moreover have "maps out x p \<longleftrightarrow> maps (butlast out) x p \<or> maps [l] x p" by (subst out) simp
      ultimately show ?thesis by (auto simp: push)
    qed
    ultimately show ?thesis by simp
  next
    case False
    then show ?thesis using assms by (auto simp: coalesce_push_def)
  qed
  then show "exts_ok (coalesce_push out e @ es)" and "maps (coalesce_push out e @ es) x p \<longleftrightarrow> maps (out @ e # es) x p" by simp_all
qed

lemma coalesce_correct:
  assumes "exts_ok exts"
  shows "exts_ok (coalesce exts)" and "maps (coalesce exts) x p \<longleftrightarrow> maps exts x p"
proof -
  have "exts_ok (foldl coalesce_push out es) \<and> (maps (foldl coalesce_push out es) x p \<longleftrightarrow> maps (out @ es) x p)"
    if "exts_ok (out @ es)" for out es
    using that
  proof (induction es arbitrary: out)
    case (Cons e es)
    show ?case using Cons.IH [OF coalesce_push_ok(1) [OF Cons.prems]] coalesce_push_ok(2) [OF Cons.prems, of x p] by simp
  qed simp
  from this [of "[]" exts] assms show "exts_ok (coalesce exts)" and "maps (coalesce exts) x p \<longleftrightarrow> maps exts x p"
    by (simp_all add: coalesce_def)
qed

subsection \<open>Remapping a range\<close>

lemma remap_one:
  assumes "ext_ok e" and "s < t" and "t < 2 ^ 32"
  shows "exts_ok (remap_keep s t e)" and "maps (remap_keep s t e) x p \<longleftrightarrow> maps [e] x p \<and> \<not> (s \<le> x \<and> x < t)"
    and "q \<in> runs_in (remap_free s t e) \<longleftrightarrow> (\<exists>x. s \<le> x \<and> x < t \<and> maps [e] x q)"
    and "a \<in> set (remap_keep s t e) \<Longrightarrow> lblk e \<le> lblk a \<and> lend a \<le> lend e \<and> (lend a \<le> s \<or> t \<le> lblk a)"
proof -
  have e: "0 < elen e" "lblk e + elen e < 2 ^ 32" "pblk e + elen e < 2 ^ 32" using assms(1) by (auto simp: ext_ok_def lend_def pend_def)
  have small: "as_u32 t = t" "lblk e < s \<Longrightarrow> as_u32 (s - lblk e) = s - lblk e" "as_u32 (lend e - t) = lend e - t"
    "as_u32 (t - lblk e) = t - lblk e"
    using assms(2,3) e by (simp_all add: lend_def)
  have add: "u32_add (pblk e) (t - lblk e) = pblk e + (t - lblk e)" if "t < lblk e + elen e"
    by (rule u32_add_small) (use e that in linarith)
  have addf: "u32_add (pblk e) (as_u32 (max (lblk e) s - lblk e)) = pblk e + (max (lblk e) s - lblk e)"
    "as_u32 (min (lend e) t - max (lblk e) s) = min (lend e) t - max (lblk e) s" if "s < lblk e + elen e"
  proof -
    have d: "max (lblk e) s - lblk e \<le> elen e" using that by (cases "lblk e \<le> s") simp_all
    then have "max (lblk e) s - lblk e < 2 ^ 32" "pblk e + (max (lblk e) s - lblk e) < 2 ^ 32" using e by linarith+
    then show "u32_add (pblk e) (as_u32 (max (lblk e) s - lblk e)) = pblk e + (max (lblk e) s - lblk e)" by simp
    show "as_u32 (min (lend e) t - max (lblk e) s) = min (lend e) t - max (lblk e) s"
      by (rule as_u32_small) (use e in \<open>simp add: lend_def\<close>)
  qed
  show "exts_ok (remap_keep s t e)"
    using e small add assms(2,3) by (auto simp: remap_keep_def ext_ok_def lend_def pend_def)
  show "maps (remap_keep s t e) x p \<longleftrightarrow> maps [e] x p \<and> \<not> (s \<le> x \<and> x < t)"
    using e small add assms(2) by (auto simp: remap_keep_def covers_def lend_def)
  show "a \<in> set (remap_keep s t e) \<Longrightarrow> lblk e \<le> lblk a \<and> lend a \<le> lend e \<and> (lend a \<le> s \<or> t \<le> lblk a)"
    using small by (auto simp: remap_keep_def lend_def split: if_splits)
  show "q \<in> runs_in (remap_free s t e) \<longleftrightarrow> (\<exists>x. s \<le> x \<and> x < t \<and> maps [e] x q)"
  proof (cases "lend e \<le> s \<or> t \<le> lblk e")
    case True
    then show ?thesis by (auto simp: remap_free_def covers_def)
  next
    case False
    then have ov: "s < lblk e + elen e" "lblk e < t" by (auto simp: lend_def)
    have fr: "runs_in (remap_free s t e) = {pblk e + (max (lblk e) s - lblk e)..<pblk e + (max (lblk e) s - lblk e) + (min (lend e) t - max (lblk e) s)}"
      using False addf [OF ov(1)] by (simp add: remap_free_def Let_def)
    show ?thesis
    proof
      assume "q \<in> runs_in (remap_free s t e)"
      then have "s \<le> lblk e + (q - pblk e) \<and> lblk e + (q - pblk e) < t \<and> maps [e] (lblk e + (q - pblk e)) q"
        using ov by (auto simp: fr covers_def lend_def max_def min_def split: if_splits)
      then show "\<exists>x. s \<le> x \<and> x < t \<and> maps [e] x q" by blast
    next
      assume "\<exists>x. s \<le> x \<and> x < t \<and> maps [e] x q"
      then obtain x where x: "s \<le> x" "x < t" "lblk e \<le> x" "x < lblk e + elen e" "q = pblk e + (x - lblk e)"
        by (auto simp: covers_def lend_def)
      then show "q \<in> runs_in (remap_free s t e)" by (auto simp: fr lend_def max_def min_def)
    qed
  qed
qed

lemma remap_kept:
  assumes "exts_ok exts" and "s < t" and "t < 2 ^ 32"
  shows "exts_ok (concat (map (remap_keep s t) exts))"
    and "maps (concat (map (remap_keep s t) exts)) x p \<longleftrightarrow> maps exts x p \<and> \<not> (s \<le> x \<and> x < t)"
    and "runs_in (concat (map (remap_free s t) exts)) = {q. \<exists>x. s \<le> x \<and> x < t \<and> maps exts x q}"
    and "a \<in> set (concat (map (remap_keep s t) exts)) \<Longrightarrow> lend a \<le> s \<or> t \<le> lblk a"
proof -
  have "exts_ok (concat (map (remap_keep s t) exts)) \<and>
    (maps (concat (map (remap_keep s t) exts)) x p \<longleftrightarrow> maps exts x p \<and> \<not> (s \<le> x \<and> x < t)) \<and>
    runs_in (concat (map (remap_free s t) exts)) = {q. \<exists>x. s \<le> x \<and> x < t \<and> maps exts x q} \<and>
    (\<forall>a \<in> set (concat (map (remap_keep s t) exts)). (lend a \<le> s \<or> t \<le> lblk a) \<and> (\<exists>e \<in> set exts. lblk e \<le> lblk a))"
    using assms(1)
  proof (induction exts)
    case (Cons e es)
    have ok: "ext_ok e" "exts_ok es" "\<And>a. a \<in> set es \<Longrightarrow> lend e \<le> lblk a" using Cons.prems by auto
    note IH = Cons.IH [OF ok(2)] and one = remap_one [OF ok(1) assms(2,3)]
    have "lend a \<le> lblk b" if "a \<in> set (remap_keep s t e)" "b \<in> set (concat (map (remap_keep s t) es))" for a b
      using one(4) [OF that(1)] IH that(2) ok(3) by (meson le_trans)
    then have "exts_ok (concat (map (remap_keep s t) (e # es)))" using IH one(1) by (simp add: exts_ok_append)
    moreover have "\<forall>a \<in> set (concat (map (remap_keep s t) (e # es))). (lend a \<le> s \<or> t \<le> lblk a) \<and> (\<exists>e' \<in> set (e # es). lblk e' \<le> lblk a)"
      using IH one(4) by (fastforce simp del: set_concat)
    moreover have "runs_in (concat (map (remap_free s t) (e # es))) = {q. \<exists>x. s \<le> x \<and> x < t \<and> maps (e # es) x q}"
      using IH one(3) by auto
    ultimately show ?case using IH one(2) by auto
  qed simp
  then show "exts_ok (concat (map (remap_keep s t) exts))"
    and "maps (concat (map (remap_keep s t) exts)) x p \<longleftrightarrow> maps exts x p \<and> \<not> (s \<le> x \<and> x < t)"
    and "runs_in (concat (map (remap_free s t) exts)) = {q. \<exists>x. s \<le> x \<and> x < t \<and> maps exts x q}"
    and "a \<in> set (concat (map (remap_keep s t) exts)) \<Longrightarrow> lend a \<le> s \<or> t \<le> lblk a" by blast+
qed

text \<open>The blocks of a list of runs, in order.\<close>

definition run_blocks_of :: "(nat \<times> nat) list \<Rightarrow> nat list" where
  "run_blocks_of rs = concat (map (\<lambda>(p, l). [p..<p + l]) rs)"

definition runs_ok :: "(nat \<times> nat) list \<Rightarrow> bool" where
  "runs_ok rs \<longleftrightarrow> list_all (\<lambda>(p, l). 0 < l \<and> p + l < 2 ^ 32) rs"

lemma lay_runs_ok:
  assumes "runs_ok rs" and "cur + length (run_blocks_of rs) < 2 ^ 32"
  shows "exts_ok (lay_runs cur rs)"
    and "a \<in> set (lay_runs cur rs) \<Longrightarrow> cur \<le> lblk a \<and> lend a \<le> cur + length (run_blocks_of rs)"
    and "maps (lay_runs cur rs) x p \<longleftrightarrow> cur \<le> x \<and> x < cur + length (run_blocks_of rs) \<and> p = run_blocks_of rs ! (x - cur)"
proof -
  have "exts_ok (lay_runs cur rs) \<and>
    (\<forall>a \<in> set (lay_runs cur rs). cur \<le> lblk a \<and> lend a \<le> cur + length (run_blocks_of rs)) \<and>
    (maps (lay_runs cur rs) x p \<longleftrightarrow> cur \<le> x \<and> x < cur + length (run_blocks_of rs) \<and> p = run_blocks_of rs ! (x - cur))"
    using assms
  proof (induction rs arbitrary: cur)
    case Nil
    then show ?case by (simp add: run_blocks_of_def)
  next
    case (Cons r rs)
    obtain q l where r: "r = (q, l)" by (cases r)
    have ql: "0 < l" "q + l < 2 ^ 32" "runs_ok rs" using Cons.prems(1) by (auto simp: r runs_ok_def)
    have bl: "run_blocks_of (r # rs) = [q..<q + l] @ run_blocks_of rs" by (simp add: r run_blocks_of_def)
    have len: "cur + l + length (run_blocks_of rs) < 2 ^ 32" using Cons.prems(2) by (simp add: bl)
    then have add: "u32_add cur l = cur + l" by simp
    have IH: "exts_ok (lay_runs (cur + l) rs)"
      "\<And>a. a \<in> set (lay_runs (cur + l) rs) \<Longrightarrow> cur + l \<le> lblk a \<and> lend a \<le> cur + l + length (run_blocks_of rs)"
      "maps (lay_runs (cur + l) rs) x p \<longleftrightarrow> cur + l \<le> x \<and> x < cur + l + length (run_blocks_of rs) \<and> p = run_blocks_of rs ! (x - (cur + l))"
      using Cons.IH [OF ql(3) len] by auto
    have "exts_ok (lay_runs cur (r # rs))"
      using IH(1,2) ql len by (auto simp: r add ext_ok_def lend_def pend_def)
    moreover have "cur \<le> lblk a \<and> lend a \<le> cur + length (run_blocks_of (r # rs))" if "a \<in> set (lay_runs cur (r # rs))" for a
      using that IH(2) by (fastforce simp: r add bl lend_def run_blocks_of_def)
    moreover have "maps (lay_runs cur (r # rs)) x p \<longleftrightarrow>
      cur \<le> x \<and> x < cur + length (run_blocks_of (r # rs)) \<and> p = run_blocks_of (r # rs) ! (x - cur)"
      unfolding bl using IH(3) by (auto simp: r add covers_def lend_def nth_append)
    ultimately show ?case by blast
  qed
  then show "exts_ok (lay_runs cur rs)"
    and "a \<in> set (lay_runs cur rs) \<Longrightarrow> cur \<le> lblk a \<and> lend a \<le> cur + length (run_blocks_of rs)"
    and "maps (lay_runs cur rs) x p \<longleftrightarrow> cur \<le> x \<and> x < cur + length (run_blocks_of rs) \<and> p = run_blocks_of rs ! (x - cur)"
    by blast+
qed

text \<open>Disjoint extents, sorted by their first block, are in order.\<close>

lemma sort_exts_ok:
  assumes "list_all ext_ok xs" and "distinct xs"
    and "\<And>a b. a \<in> set xs \<Longrightarrow> b \<in> set xs \<Longrightarrow> a \<noteq> b \<Longrightarrow> lend a \<le> lblk b \<or> lend b \<le> lblk a"
  shows "exts_ok (sort_key lblk xs)"
proof -
  let ?ys = "sort_key lblk xs"
  have "lend (?ys ! i) \<le> lblk (?ys ! j)" if "i < j" "j < length ?ys" for i j
  proof -
    have "lblk (?ys ! i) \<le> lblk (?ys ! j)" using sorted_nth_mono [OF sorted_sort_key, of i j lblk xs] that by simp
    moreover have "?ys ! i \<noteq> ?ys ! j" using assms(2) that by (simp add: nth_eq_iff_index_eq)
    moreover have m: "?ys ! i \<in> set xs" "?ys ! j \<in> set xs" using that nth_mem [of i ?ys] nth_mem [of j ?ys] by auto
    moreover have "0 < elen (?ys ! j)" using assms(1) m(2) by (auto simp: list_all_iff ext_ok_def)
    ultimately show ?thesis using assms(3) [OF m] by (auto simp: lend_def)
  qed
  then show ?thesis using assms(1) by (simp add: exts_ok_def sorted_wrt_iff_nth_less list_all_iff)
qed

lemma exts_ok_distinct:
  assumes "exts_ok xs"
  shows "list_all ext_ok xs" and "distinct xs"
    and "a \<in> set xs \<Longrightarrow> b \<in> set xs \<Longrightarrow> a \<noteq> b \<Longrightarrow> lend a \<le> lblk b \<or> lend b \<le> lblk a"
proof -
  show "list_all ext_ok xs" using assms by (simp add: exts_ok_def)
  have "distinct xs \<and> (\<forall>a \<in> set xs. \<forall>b \<in> set xs. a \<noteq> b \<longrightarrow> lend a \<le> lblk b \<or> lend b \<le> lblk a)"
    using assms
  proof (induction xs)
    case (Cons x xs)
    then have "x \<notin> set xs" by (auto simp: ext_ok_def lend_def)
    then show ?case using Cons by auto
  qed simp
  then show "distinct xs" and "a \<in> set xs \<Longrightarrow> b \<in> set xs \<Longrightarrow> a \<noteq> b \<Longrightarrow> lend a \<le> lblk b \<or> lend b \<le> lblk a" by auto
qed

lemma sort_two_ok:
  assumes "exts_ok k" and "exts_ok l"
    and sep: "\<And>a b. a \<in> set k \<Longrightarrow> b \<in> set l \<Longrightarrow> lend a \<le> lblk b \<or> lend b \<le> lblk a"
  shows "exts_ok (sort_key lblk (k @ l))"
proof -
  note dk = exts_ok_distinct [OF assms(1)] and dl = exts_ok_distinct [OF assms(2)]
  have "a \<noteq> b" if "a \<in> set k" "b \<in> set l" for a b
  proof -
    have "0 < elen a" using dk(1) that(1) by (auto simp: list_all_iff ext_ok_def)
    then show ?thesis using sep [OF that] by (auto simp: lend_def)
  qed
  then have "distinct (k @ l)" using dk(2) dl(2) by auto
  moreover have "lend a \<le> lblk b \<or> lend b \<le> lblk a" if "a \<in> set (k @ l)" "b \<in> set (k @ l)" "a \<noteq> b" for a b
    using that dk(3) dl(3) sep by (metis Un_iff set_append)
  ultimately show ?thesis using dk(1) dl(1) by (intro sort_exts_ok) auto
qed

lemma remap_correct:
  assumes "exts_ok exts" and "runs_ok runs" and "length (run_blocks_of runs) = n" and "0 < n" and "lb + n < 2 ^ 32"
    and "remap exts lb n runs freed = (exts', freed')"
  shows "exts_ok exts'"
    and "maps exts' x p \<longleftrightarrow> (if lb \<le> x \<and> x < lb + n then p = run_blocks_of runs ! (x - lb) else maps exts x p)"
    and "runs_in freed' = runs_in freed \<union> {q. \<exists>x. lb \<le> x \<and> x < lb + n \<and> maps exts x q}"
proof -
  let ?k = "concat (map (remap_keep lb (lb + n)) exts)" and ?l = "lay_runs lb runs"
  have st: "lb < lb + n" using assms(4) by simp
  note k = remap_kept [OF assms(1) st assms(5)] and l = lay_runs_ok [OF assms(2), of lb, unfolded assms(3), OF assms(5)]
  have eq: "exts' = coalesce (sort_key lblk (?k @ ?l))" "freed' = freed @ concat (map (remap_free lb (lb + n)) exts)"
    using assms(6) by (simp_all add: remap_def Let_def)
  have ok: "exts_ok (sort_key lblk (?k @ ?l))"
  proof (rule sort_two_ok [OF k(1) l(1)])
    fix a b assume "a \<in> set ?k" "b \<in> set ?l"
    then show "lend a \<le> lblk b \<or> lend b \<le> lblk a" using k(4) [of a] l(2) [of b] by linarith
  qed
  show "exts_ok exts'" unfolding eq by (rule coalesce_correct(1) [OF ok])
  have "maps exts' x p \<longleftrightarrow> maps (?k @ ?l) x p"
    unfolding eq using coalesce_correct(2) [OF ok] by (simp add: maps_def)
  then show "maps exts' x p \<longleftrightarrow> (if lb \<le> x \<and> x < lb + n then p = run_blocks_of runs ! (x - lb) else maps exts x p)"
    using k(2) l(3) by auto
  show "runs_in freed' = runs_in freed \<union> {q. \<exists>x. lb \<le> x \<and> x < lb + n \<and> maps exts x q}"
    unfolding eq using k(3) by simp
qed

subsection \<open>Properties\<close>

text \<open>
  C14: On a sorted, disjoint list \<open>map_block\<close> returns a block exactly when the list maps it, and the
  physical block the list maps it to.
\<close>

theorem map_block_maps:
  assumes "exts_ok exts"
  shows "map_block exts x = Some p \<longleftrightarrow> maps exts x p"
  by (rule map_block_correct [OF assms])

definition two_extents :: "extent list" where
  "two_extents = [\<lparr>lblk = 0, elen = 3, pblk = 100\<rparr>, \<lparr>lblk = 5, elen = 2, pblk = 200\<rparr>]"

lemma two_extents_ok: "exts_ok two_extents"
  by (simp add: two_extents_def ext_ok_def lend_def pend_def)

theorem map_block_maps_witness: "map_block two_extents 6 = Some 201 \<longleftrightarrow> maps two_extents 6 201"
  by (rule map_block_maps [OF two_extents_ok])

text \<open>
  C12: \<open>remap\<close> keeps the list sorted, disjoint and inside 32 bits, sends the remapped logical blocks
  to the new runs in order, leaves every other block where it was, and frees exactly the
  physical blocks that were mapped in the range.
\<close>

theorem remap_spec:
  assumes "exts_ok exts" and "runs_ok runs" and "length (run_blocks_of runs) = n" and "0 < n" and "lb + n < 2 ^ 32"
    and "remap exts lb n runs freed = (exts', freed')"
  shows "exts_ok exts' \<and>
    (\<forall>x p. maps exts' x p \<longleftrightarrow> (if lb \<le> x \<and> x < lb + n then p = run_blocks_of runs ! (x - lb) else maps exts x p)) \<and>
    runs_in freed' = runs_in freed \<union> {q. \<exists>x. lb \<le> x \<and> x < lb + n \<and> maps exts x q}"
  using remap_correct [OF assms] by blast

theorem remap_spec_witness:
  "exts_ok (fst (remap two_extents 2 4 [(300, 2), (400, 2)] [])) \<and>
   maps (fst (remap two_extents 2 4 [(300, 2), (400, 2)] [])) 4 400 \<and>
   (200 \<in> runs_in (snd (remap two_extents 2 4 [(300, 2), (400, 2)] [])))"
proof -
  let ?r = "remap two_extents 2 4 [(300, 2), (400, 2)] []"
  have ok: "runs_ok [(300, 2), (400, 2)]" "run_blocks_of [(300, 2), (400, 2)] = [300, 301, 400, 401]"
    by (simp_all add: runs_ok_def run_blocks_of_def upt_rec)
  have "?r = (fst ?r, snd ?r)" by simp
  from remap_spec [OF two_extents_ok ok(1) _ _ _ this]
  have s: "exts_ok (fst ?r)" "\<And>x p. maps (fst ?r) x p \<longleftrightarrow> (if 2 \<le> x \<and> x < 6 then p = [300, 301, 400, 401] ! (x - 2) else maps two_extents x p)"
    "runs_in (snd ?r) = {q. \<exists>x. 2 \<le> x \<and> x < 6 \<and> maps two_extents x q}" by (simp_all add: ok(2))
  have "maps two_extents 5 200" by (simp add: two_extents_def covers_def lend_def)
  then have "200 \<in> runs_in (snd ?r)" unfolding s(3) by (intro CollectI exI [of _ 5]) simp
  then show ?thesis using s(1,2) by simp
qed

text \<open>
  C13: \<open>cut_tail\<close> keeps the list well formed, forgets exactly the logical blocks from \<open>keep\<close> on and
  frees exactly the physical blocks they had.
\<close>

theorem cut_tail_spec:
  assumes "exts_ok exts" and "cut_tail exts keep freed = (exts', freed')"
  shows "exts_ok exts' \<and> (\<forall>x p. maps exts' x p \<longleftrightarrow> maps exts x p \<and> x < keep) \<and>
    runs_in freed' = runs_in freed \<union> {p. \<exists>x \<ge> keep. maps exts x p}"
  using cut_tail_correct [OF assms] by blast

theorem cut_tail_spec_witness:
  "exts_ok (fst (cut_tail two_extents 2 [])) \<and> \<not> maps (fst (cut_tail two_extents 2 [])) 2 102 \<and>
   102 \<in> runs_in (snd (cut_tail two_extents 2 []))"
proof -
  let ?r = "cut_tail two_extents 2 []"
  have "?r = (fst ?r, snd ?r)" by simp
  from cut_tail_spec [OF two_extents_ok this]
  have s: "exts_ok (fst ?r)" "\<And>x p. maps (fst ?r) x p \<longleftrightarrow> maps two_extents x p \<and> x < 2"
    "runs_in (snd ?r) = {p. \<exists>x \<ge> 2. maps two_extents x p}" by auto
  have "maps two_extents 2 102" by (simp add: two_extents_def covers_def lend_def)
  then have "102 \<in> runs_in (snd ?r)" unfolding s(3) by auto
  then show ?thesis using s(1,2) by simp
qed

end
