(* ===== verification/Inodes.thy ===== *)
theory Inodes
  imports Fs3Core Extent
begin

text \<open>
  Inodes through the transaction overlay (\<^verbatim>\<open>fs3/mount/inodes.rs\<close>) and the extent lists of
  a file, inline and in a chain of extent blocks (the methods of \<^verbatim>\<open>fs3/extent.rs\<close>).
\<close>

subsection \<open>Inodes\<close>

definition inode_loc :: "nat \<Rightarrow> 'd fs3 \<Rightarrow> fs_error + nat \<times> nat" where
  "inode_loc ino fs =
     (if ino = 0 \<or> inode_count (f_geo fs) < ino then Inl NotFound
      else let slot = ino - 1 in
        Inr (u32_add (itable_start (f_geo fs)) (slot div INODES_PER_BLOCK), slot mod INODES_PER_BLOCK * INODE_SIZE))"

definition read_inode :: "'d blockdevice \<Rightarrow> nat \<Rightarrow> 'd fs3 \<Rightarrow> ('d fs3, fs_error, inode) res" where
  "read_inode dev ino fs =
     bindr (inode_loc ino fs, fs) (\<lambda>(blk, off) fs.
       if \<not> bits_get (f_ibits fs) (ino - 1) then (Inl NotFound, fs)
       else bindr (meta_get dev blk fs) (\<lambda>b fs.
         (ok_or (inode_decode (get_slice off INODE_SIZE b)) (Corrupt ''inode checksum''), fs)))"

definition write_inode :: "'d blockdevice \<Rightarrow> nat \<Rightarrow> inode \<Rightarrow> 'd fs3 \<Rightarrow> ('d fs3, fs_error, unit) res" where
  "write_inode dev ino node fs =
     bindr (inode_loc ino fs, fs) (\<lambda>(blk, off) fs.
       bindr (meta_mut dev blk fs) (\<lambda>b fs.
         (Inr (), put_overlay blk (put_slice off (inode_encode node) b) fs)))"

definition alloc_inode :: "'d fs3 \<Rightarrow> ('d fs3, fs_error, nat) res" where
  "alloc_inode fs =
     (case next_free (f_ibits fs) 0 (inode_count (f_geo fs)) of
        None \<Rightarrow> (Inl NoInodes, fs)
      | Some i \<Rightarrow>
          (Inr (i + 1), fs\<lparr>f_ibits := bits_set (f_ibits fs) i,
             f_tx := (f_tx fs)\<lparr>tx_ilog := tx_ilog (f_tx fs) @ [(i, True)],
               tx_touched_ib := bs_insert (i div BITS_PER_BITMAP_BLOCK) (tx_touched_ib (f_tx fs))\<rparr>,
             f_free_inodes := f_free_inodes fs - 1\<rparr>))"

definition free_inode :: "'d blockdevice \<Rightarrow> nat \<Rightarrow> 'd fs3 \<Rightarrow> ('d fs3, fs_error, unit) res" where
  "free_inode dev ino fs =
     (if ino = ROOT_INO \<or> ino = TRASH_INO then (Inl (Corrupt ''freeing a fixed inode''), fs)
      else bindr (inode_loc ino fs, fs) (\<lambda>(blk, off) fs.
        if \<not> bits_get (f_ibits fs) (ino - 1) then (Inl (Corrupt ''double free of an inode''), fs)
        else bindr (meta_mut dev blk fs) (\<lambda>b fs.
          let fs = put_overlay blk (put_slice off (replicate INODE_SIZE 0) b) fs in
          (Inr (), fs\<lparr>f_ibits := bits_clear (f_ibits fs) (ino - 1),
             f_tx := (f_tx fs)\<lparr>tx_ilog := tx_ilog (f_tx fs) @ [(ino - 1, False)],
               tx_touched_ib := bs_insert ((ino - 1) div BITS_PER_BITMAP_BLOCK) (tx_touched_ib (f_tx fs))\<rparr>,
             f_free_inodes := u32_add (f_free_inodes fs) 1\<rparr>))))"

subsection \<open>Extent chains\<close>

text \<open>\<open>left\<close> is \<open>bound - chain.len()\<close>.\<close>

fun walk_chain_loop :: "'d blockdevice \<Rightarrow> nat \<Rightarrow> nat \<Rightarrow> nat \<Rightarrow> nat list \<Rightarrow> 'd fs3 \<Rightarrow> ('d fs3, fs_error, nat list) res" where
  "walk_chain_loop dev ino 0 cur chain fs =
     (if cur \<noteq> 0 then (Inl (Corrupt ''extent chain too long or cyclic''), fs) else (Inr chain, fs))"
| "walk_chain_loop dev ino (Suc left) cur chain fs =
     (if cur \<noteq> 0 then
        bindr (typed_block dev cur True ino fs) (\<lambda>b fs. walk_chain_loop dev ino left (rd32 b 8) (chain @ [cur]) fs)
      else (Inr chain, fs))"

definition walk_chain :: "'d blockdevice \<Rightarrow> nat \<Rightarrow> nat \<Rightarrow> 'd fs3 \<Rightarrow> ('d fs3, fs_error, nat list) res" where
  "walk_chain dev ino first fs =
     walk_chain_loop dev ino (total_blocks (f_geo fs) div EXTENTS_PER_BLOCK + 2) first [] fs"

text \<open>\<open>left\<close> is \<open>n - hops\<close>.\<close>

fun load_chain :: "'d blockdevice \<Rightarrow> nat \<Rightarrow> nat \<Rightarrow> nat \<Rightarrow> nat \<Rightarrow> extent list \<Rightarrow> 'd fs3 \<Rightarrow>
    ('d fs3, fs_error, extent list \<times> nat) res" where
  "load_chain dev ino 0 rest cur out fs =
     (if 0 < rest then (Inl (Corrupt ''extent chain shorter than extent count''), fs) else (Inr (out, cur), fs))"
| "load_chain dev ino (Suc left) rest cur out fs =
     (if 0 < rest then
        if cur = 0 then (Inl (Corrupt ''extent chain shorter than extent count''), fs)
        else bindr (typed_block dev cur True ino fs) (\<lambda>b fs.
          let cnt = rd32 b 12 in
          if cnt = 0 \<or> EXTENTS_PER_BLOCK < cnt \<or> rest < cnt then (Inl (Corrupt ''extent block count''), fs)
          else load_chain dev ino left (rest - cnt) (rd32 b 8)
            (out @ map (\<lambda>k. extent_decode b (24 + k * EXTENT_SIZE)) [0..<cnt]) fs)
      else (Inr (out, cur), fs))"

fun valid_extents :: "geometry \<Rightarrow> nat \<Rightarrow> extent list \<Rightarrow> bool" where
  "valid_extents g prev_end [] = True"
| "valid_extents g prev_end (e # es) =
     (\<not> (elen e = 0 \<or> lblk e < prev_end \<or> u32_max < lend e \<or> pblk e < data_start g \<or> backup_sb g < pend e) \<and>
      valid_extents g (lend e) es)"

definition load_extents :: "'d blockdevice \<Rightarrow> nat \<Rightarrow> inode \<Rightarrow> 'd fs3 \<Rightarrow> ('d fs3, fs_error, extent list) res" where
  "load_extents dev ino node fs =
     (let n = i_nextents node in
      if total_blocks (f_geo fs) < n then (Inl (Corrupt ''absurd extent count''), fs)
      else bindr (load_chain dev ino n (n - INLINE_EXTENTS) (i_ext_chain node)
          (take (min n INLINE_EXTENTS) (i_inline node)) fs) (\<lambda>(out, cur) fs.
        if cur \<noteq> 0 then (Inl (Corrupt ''extent chain longer than extent count''), fs)
        else if \<not> valid_extents (f_geo fs) 0 out then (Inl (Corrupt ''invalid extent''), fs)
        else (Inr out, fs)))"

subsection \<open>Storing extents\<close>

definition ext_image :: "nat \<Rightarrow> nat \<Rightarrow> extent list \<Rightarrow> bytes" where
  "ext_image ino nxt part =
     (let img = replicate BLOCK_SIZE 0;
          img = put_slice 4 EXT_MAGIC img;
          img = wr32 img 8 nxt;
          img = wr32 img 12 (as_u32 (length part));
          img = wr32 img 16 ino;
          img = encode_extents 24 part img
      in wr32 img 0 (unat (crc32 (drop 4 img))))"

fun grow_chain :: "nat \<Rightarrow> nat list \<Rightarrow> 'd fs3 \<Rightarrow> ('d fs3, fs_error, nat list) res" where
  "grow_chain 0 chain fs = (Inr chain, fs)"
| "grow_chain (Suc k) chain fs =
     (let hint = (if chain = [] then f_alloc_hint fs else u32_add (last chain) 1) in
      bindr (alloc_blocks 1 hint fs) (\<lambda>r fs. grow_chain k (chain @ [fst (hd r)]) fs))"

definition chain_part :: "extent list \<Rightarrow> nat \<Rightarrow> extent list" where
  "chain_part rest i = get_slice (i * EXTENTS_PER_BLOCK) (min ((i + 1) * EXTENTS_PER_BLOCK) (length rest) - i * EXTENTS_PER_BLOCK) rest"

fun put_chain :: "'d blockdevice \<Rightarrow> nat \<Rightarrow> nat \<Rightarrow> extent list \<Rightarrow> nat list \<Rightarrow> nat \<Rightarrow> nat list \<Rightarrow> 'd fs3 \<Rightarrow>
    ('d fs3, fs_error, unit) res" where
  "put_chain dev ino nold rest chain i [] fs = (Inr (), fs)"
| "put_chain dev ino nold rest chain i (blk # blks) fs =
     (let img = ext_image ino (if i + 1 < length chain then chain ! (i + 1) else 0) (chain_part rest i) in
      bindr (if i < nold then bindr (meta_get dev blk fs) (\<lambda>b fs. (Inr (b = img), fs)) else (Inr False, fs)) (\<lambda>same fs.
      bindr (if \<not> same then put_meta blk img fs else (Inr (), fs)) (\<lambda>_ fs.
        put_chain dev ino nold rest chain (i + 1) blks fs)))"

definition store_extents :: "'d blockdevice \<Rightarrow> nat \<Rightarrow> inode \<Rightarrow> extent list \<Rightarrow> 'd fs3 \<Rightarrow> ('d fs3, fs_error, inode) res" where
  "store_extents dev ino node exts fs =
     bindr (walk_chain dev ino (i_ext_chain node) fs) (\<lambda>old fs.
       let blocks = sum_list (map elen exts) in
       if u32_max < blocks \<or> u32_max < length exts then (Inl TooBig, fs)
       else
         let inline_n = min (length exts) INLINE_EXTENTS;
             node = node\<lparr>i_nblocks := blocks, i_nextents := length exts,
               i_inline := take inline_n exts @ replicate (INLINE_EXTENTS - inline_n) extent_default\<rparr>;
             rest = drop inline_n exts;
             need = div_ceil (length rest) EXTENTS_PER_BLOCK
         in bindr (grow_chain (need - length (take need old)) (take need old) fs) (\<lambda>chain fs.
              let fs = fold free_meta_block (drop need old) fs in
              bindr (put_chain dev ino (length old) rest chain 0 chain fs) (\<lambda>_ fs.
                (Inr (node\<lparr>i_ext_chain := (if chain = [] then 0 else hd chain)\<rparr>), fs))))"

definition drop_overlay :: "nat \<Rightarrow> nat \<Rightarrow> 'd fs3 \<Rightarrow> 'd fs3" where
  "drop_overlay p l fs = tx_upd (\<lambda>t. t\<lparr>tx_meta := fold (\<lambda>k m. bt_remove (u32_add p k) m) [0..<l] (tx_meta t)\<rparr>) fs"

definition release_extent :: "bool \<Rightarrow> extent \<Rightarrow> 'd fs3 \<Rightarrow> 'd fs3" where
  "release_extent meta e fs =
     (let fs = (if meta then drop_overlay (pblk e) (elen e) fs else fs)
      in tx_upd (\<lambda>t. t\<lparr>tx_to_free := tx_to_free t @ [(pblk e, elen e)]\<rparr>) fs)"

definition release_blocks :: "'d blockdevice \<Rightarrow> nat \<Rightarrow> inode \<Rightarrow> 'd fs3 \<Rightarrow> ('d fs3, fs_error, unit) res" where
  "release_blocks dev ino node fs =
     bindr (load_extents dev ino node fs) (\<lambda>exts fs.
     bindr (walk_chain dev ino (i_ext_chain node) fs) (\<lambda>chain fs.
       let fs = fold (release_extent (i_kind node = Dir)) exts fs
       in (Inr (), fold free_meta_block chain fs)))"

end
