(* ===== verification/Dir.thy ===== *)
theory Dir
  imports Inodes
begin

text \<open>
  Directories (\<^verbatim>\<open>fs3/dir.rs\<close>): blocks of packed variable-length entries, and lookup,
  listing, insertion and removal over the blocks of a directory inode.
\<close>

subsection \<open>Entries of a block\<close>

definition DIR_HDR :: nat where "DIR_HDR = 16"
definition DIR_CAP :: nat where "DIR_CAP = BLOCK_SIZE - DIR_HDR"

record raw_ent =
  re_ino :: nat
  re_kind :: u8
  re_name :: bytes
  re_len :: nat

definition parse_entry :: "bytes \<Rightarrow> nat \<Rightarrow> nat \<Rightarrow> raw_ent option" where
  "parse_entry b off end =
     (if end < off + 6 \<or> length b < end then None
      else let nl = unat (b ! (off + 4)) in
        if nl = 0 \<or> end < off + 6 + nl then None
        else Some \<lparr>re_ino = rd32 b off, re_kind = b ! (off + 5), re_name = get_slice (off + 6) nl b, re_len = 6 + nl\<rparr>)"

definition seal_block :: "bytes \<Rightarrow> bytes" where
  "seal_block b = wr32 b 0 (unat (crc32 (drop 4 b)))"

text \<open>
  The \<open>while off < end\<close> loops of \<open>dir_find\<close>, \<open>dir_insert\<close> and \<open>dir_remove\<close> stop at the
  first entry with the name; the caller decodes the kind.  An entry is at least seven bytes
  long, so the distance to the end decreases.
\<close>

lemma parse_entry_len: "parse_entry b off end = Some e \<Longrightarrow> 6 < re_len e \<and> off + re_len e \<le> end"
  by (auto simp: parse_entry_def Let_def split: if_splits)

function find_entry :: "bytes \<Rightarrow> bytes \<Rightarrow> nat \<Rightarrow> nat \<Rightarrow> fs_error + (nat \<times> raw_ent) option" where
  "find_entry b name off end =
     (if off < end then
        (case parse_entry b off end of
           None \<Rightarrow> Inl (Corrupt ''directory entry'')
         | Some e \<Rightarrow> if re_name e = name then Inr (Some (off, e)) else find_entry b name (off + re_len e) end)
      else Inr None)"
  by auto
termination
  by (relation "measure (\<lambda>(b, name, off, end). end - off)") (auto dest: parse_entry_len)

function list_entries :: "bytes \<Rightarrow> nat \<Rightarrow> nat \<Rightarrow> (bytes \<times> nat \<times> kind) list \<Rightarrow> fs_error + (bytes \<times> nat \<times> kind) list" where
  "list_entries b off end out =
     (if off < end then
        (case parse_entry b off end of
           None \<Rightarrow> Inl (Corrupt ''directory entry'')
         | Some e \<Rightarrow>
             bindp (ok_or (kind_from_u8 (re_kind e)) (Corrupt ''entry kind'')) (\<lambda>kind.
               list_entries b (off + re_len e) end (out @ [(re_name e, re_ino e, kind)])))
      else Inr out)"
  by auto
termination
  by (relation "measure (\<lambda>(b, off, end, out). end - off)") (auto dest: parse_entry_len)

declare find_entry.simps [simp del] list_entries.simps [simp del]

definition dir_end :: "bytes \<Rightarrow> nat" where
  "dir_end b = DIR_HDR + rd16 b 12"

subsection \<open>The blocks of a directory\<close>

fun tile_blocks :: "extent list \<Rightarrow> nat \<Rightarrow> nat list \<Rightarrow> fs_error + nat list" where
  "tile_blocks [] expect blocks = Inr blocks"
| "tile_blocks (e # es) expect blocks =
     (if lblk e \<noteq> expect then Inl (Corrupt ''hole in a directory'')
      else tile_blocks es (lend e) (blocks @ map (u32_add (pblk e)) [0..<elen e]))"

definition dir_phys_blocks :: "'d blockdevice \<Rightarrow> nat \<Rightarrow> inode \<Rightarrow> 'd fs3 \<Rightarrow> ('d fs3, fs_error, nat list) res" where
  "dir_phys_blocks dev ino dir fs =
     bindr (load_extents dev ino dir fs) (\<lambda>exts fs.
     bindr (tile_blocks exts 0 [], fs) (\<lambda>blocks fs.
       if length blocks \<noteq> i_nblocks dir then (Inl (Corrupt ''directory block count''), fs)
       else (Inr blocks, fs)))"

fun dir_find_in :: "'d blockdevice \<Rightarrow> nat \<Rightarrow> bytes \<Rightarrow> nat list \<Rightarrow> 'd fs3 \<Rightarrow>
    ('d fs3, fs_error, (nat \<times> kind) option) res" where
  "dir_find_in dev dir_ino name [] fs = (Inr None, fs)"
| "dir_find_in dev dir_ino name (pb # pbs) fs =
     bindr (typed_block dev pb False dir_ino fs) (\<lambda>b fs.
     bindr (find_entry b name DIR_HDR (dir_end b), fs) (\<lambda>hit fs.
       case hit of
         Some (off, e) \<Rightarrow>
           bindr (ok_or (kind_from_u8 (re_kind e)) (Corrupt ''entry kind''), fs) (\<lambda>kind fs.
             (Inr (Some (re_ino e, kind)), fs))
       | None \<Rightarrow> dir_find_in dev dir_ino name pbs fs))"

definition dir_find :: "'d blockdevice \<Rightarrow> nat \<Rightarrow> inode \<Rightarrow> bytes \<Rightarrow> 'd fs3 \<Rightarrow> ('d fs3, fs_error, (nat \<times> kind) option) res" where
  "dir_find dev dir_ino dir name fs =
     (if i_kind dir \<noteq> Dir then (Inl NotDir, fs)
      else bindr (dir_phys_blocks dev dir_ino dir fs) (\<lambda>blocks fs. dir_find_in dev dir_ino name blocks fs))"

fun dir_list_in :: "'d blockdevice \<Rightarrow> nat \<Rightarrow> nat list \<Rightarrow> (bytes \<times> nat \<times> kind) list \<Rightarrow> 'd fs3 \<Rightarrow>
    ('d fs3, fs_error, (bytes \<times> nat \<times> kind) list) res" where
  "dir_list_in dev dir_ino [] out fs = (Inr out, fs)"
| "dir_list_in dev dir_ino (pb # pbs) out fs =
     bindr (typed_block dev pb False dir_ino fs) (\<lambda>b fs.
     bindr (list_entries b DIR_HDR (dir_end b) out, fs) (\<lambda>out fs. dir_list_in dev dir_ino pbs out fs))"

definition dir_list :: "'d blockdevice \<Rightarrow> nat \<Rightarrow> 'd fs3 \<Rightarrow> ('d fs3, fs_error, (bytes \<times> nat \<times> kind) list) res" where
  "dir_list dev dir_ino fs =
     bindr (read_inode dev dir_ino fs) (\<lambda>dir fs.
       if i_kind dir \<noteq> Dir then (Inl NotDir, fs)
       else bindr (dir_phys_blocks dev dir_ino dir fs) (\<lambda>blocks fs. dir_list_in dev dir_ino blocks [] fs))"

subsection \<open>Insertion\<close>

fun scan_room :: "'d blockdevice \<Rightarrow> nat \<Rightarrow> bytes \<Rightarrow> nat \<Rightarrow> nat list \<Rightarrow> nat option \<Rightarrow> 'd fs3 \<Rightarrow>
    ('d fs3, fs_error, nat option) res" where
  "scan_room dev dir_ino name need [] room fs = (Inr room, fs)"
| "scan_room dev dir_ino name need (pb # pbs) room fs =
     bindr (typed_block dev pb False dir_ino fs) (\<lambda>b fs.
       let used = rd16 b 12 in
       bindr (find_entry b name DIR_HDR (DIR_HDR + used), fs) (\<lambda>hit fs.
         if hit \<noteq> None then (Inl Exists, fs)
         else scan_room dev dir_ino name need pbs
           (if room = None \<and> used + need \<le> DIR_CAP then Some pb else room) fs))"

definition write_entry :: "bytes \<Rightarrow> nat \<Rightarrow> kind \<Rightarrow> nat \<Rightarrow> bytes \<Rightarrow> bytes" where
  "write_entry name ino kind used b =
     (let p = DIR_HDR + used;
          b = wr32 b p ino;
          b = b[p + 4 := word_of_nat (length name)];
          b = b[p + 5 := kind_to_u8 kind]
      in put_slice (p + 6) name b)"

definition insert_image :: "bytes \<Rightarrow> nat \<Rightarrow> kind \<Rightarrow> bytes \<Rightarrow> bytes" where
  "insert_image name ino kind b =
     (let used = rd16 b 12;
          b = write_entry name ino kind used b;
          b = wr16 b 12 (used + (6 + length name));
          cnt = rd16 b 14;
          b = wr16 b 14 (min (cnt + 1) (2 ^ 16 - 1))
      in seal_block b)"

definition dir_image :: "nat \<Rightarrow> bytes \<Rightarrow> nat \<Rightarrow> kind \<Rightarrow> bytes" where
  "dir_image dir_ino name ino kind =
     (let img = replicate BLOCK_SIZE 0;
          img = put_slice 4 DIR_MAGIC img;
          img = wr32 img 8 dir_ino;
          img = write_entry name ino kind 0 img;
          img = wr16 img 12 (6 + length name);
          img = wr16 img 14 1
      in seal_block img)"

definition append_block :: "extent list \<Rightarrow> nat \<Rightarrow> nat \<Rightarrow> extent list" where
  "append_block exts lb pb =
     (if exts \<noteq> [] \<and> lend (last exts) = lb \<and> pend (last exts) = pb
      then butlast exts @ [(last exts)\<lparr>elen := u32_add (elen (last exts)) 1\<rparr>]
      else exts @ [\<lparr>lblk = lb, elen = 1, pblk = pb\<rparr>])"

definition dir_insert :: "'d blockdevice \<Rightarrow> nat \<Rightarrow> bytes \<Rightarrow> nat \<Rightarrow> kind \<Rightarrow> nat \<Rightarrow> 'd fs3 \<Rightarrow> ('d fs3, fs_error, unit) res" where
  "dir_insert dev dir_ino name ino kind now fs =
     bindr (read_inode dev dir_ino fs) (\<lambda>dir fs.
       if i_kind dir \<noteq> Dir then (Inl NotDir, fs)
       else bindr (dir_phys_blocks dev dir_ino dir fs) (\<lambda>blocks fs.
         let need = 6 + length name in
         bindr (scan_room dev dir_ino name need blocks None fs) (\<lambda>room fs.
         bindr (case room of
             Some pb \<Rightarrow>
               bindr (meta_mut dev pb fs) (\<lambda>b fs. (Inr dir, put_overlay pb (insert_image name ino kind b) fs))
           | None \<Rightarrow>
               let hint = (if blocks = [] then f_alloc_hint fs else u32_add (last blocks) 1) in
               bindr (alloc_blocks 1 hint fs) (\<lambda>r fs.
                 let pb = fst (hd r) in
                 bindr (load_extents dev dir_ino dir fs) (\<lambda>exts fs.
                 bindr (store_extents dev dir_ino dir (append_block exts (i_nblocks dir) pb) fs) (\<lambda>dir fs.
                   let dir = dir\<lparr>i_size := i_nblocks dir * BLOCK_SIZE\<rparr> in
                   bindr (put_meta pb (dir_image dir_ino name ino kind) fs) (\<lambda>_ fs. (Inr dir, fs)))))) (\<lambda>dir fs.
           write_inode dev dir_ino (dir\<lparr>i_nentries := sat_add32 (i_nentries dir) 1, i_mtime := now\<rparr>) fs))))"

subsection \<open>Removal\<close>

definition remove_image :: "nat \<Rightarrow> nat \<Rightarrow> bytes \<Rightarrow> bytes" where
  "remove_image off len b =
     (let used = rd16 b 12;
          end = DIR_HDR + used;
          b = put_slice off (get_slice (off + len) (end - (off + len)) b) b;
          b = put_slice (end - len) (replicate len 0) b;
          b = wr16 b 12 (used - len);
          cnt = rd16 b 14;
          b = wr16 b 14 (cnt - 1)
      in seal_block b)"

text \<open>The number of leading blocks to keep: trailing blocks with no entry are given back.\<close>

fun trim_empty :: "'d blockdevice \<Rightarrow> nat \<Rightarrow> nat list \<Rightarrow> nat \<Rightarrow> 'd fs3 \<Rightarrow> ('d fs3, fs_error, nat) res" where
  "trim_empty dev dir_ino blocks 0 fs = (Inr 0, fs)"
| "trim_empty dev dir_ino blocks (Suc keep) fs =
     bindr (typed_block dev (blocks ! keep) False dir_ino fs) (\<lambda>tb fs.
       if rd16 tb 12 \<noteq> 0 then (Inr (Suc keep), fs) else trim_empty dev dir_ino blocks keep fs)"

definition free_run_of :: "nat \<times> nat \<Rightarrow> 'd fs3 \<Rightarrow> 'd fs3" where
  "free_run_of r fs =
     (case r of (s, l) \<Rightarrow> tx_upd (\<lambda>t. t\<lparr>tx_to_free := tx_to_free t @ [(s, l)]\<rparr>) (drop_overlay s l fs))"

definition shrink_dir :: "'d blockdevice \<Rightarrow> nat \<Rightarrow> inode \<Rightarrow> nat list \<Rightarrow> 'd fs3 \<Rightarrow> ('d fs3, fs_error, inode) res" where
  "shrink_dir dev dir_ino dir blocks fs =
     bindr (trim_empty dev dir_ino blocks (length blocks) fs) (\<lambda>keep fs.
       if keep < length blocks then
         bindr (load_extents dev dir_ino dir fs) (\<lambda>exts fs.
           let (exts, freed) = cut_tail exts (as_u32 keep) [];
               fs = fold free_run_of freed fs
           in bindr (store_extents dev dir_ino dir exts fs) (\<lambda>dir fs.
                (Inr (dir\<lparr>i_size := i_nblocks dir * BLOCK_SIZE\<rparr>), fs)))
       else (Inr dir, fs))"

definition remove_hit :: "'d blockdevice \<Rightarrow> nat \<Rightarrow> inode \<Rightarrow> nat list \<Rightarrow> nat \<Rightarrow> nat \<Rightarrow> nat \<Rightarrow> 'd fs3 \<Rightarrow> ('d fs3, fs_error, unit) res" where
  "remove_hit dev dir_ino dir blocks pb off len fs =
     bindr (meta_mut dev pb fs) (\<lambda>b fs.
       let used = rd16 b 12;
           fs = put_overlay pb (remove_image off len b) fs
       in bindr (if used = len then shrink_dir dev dir_ino dir blocks fs else (Inr dir, fs)) (\<lambda>dir fs.
            if i_nentries dir = 0 then (Inl (Corrupt ''directory entry count''), fs)
            else write_inode dev dir_ino (dir\<lparr>i_nentries := i_nentries dir - 1\<rparr>) fs))"

fun dir_remove_in :: "'d blockdevice \<Rightarrow> nat \<Rightarrow> inode \<Rightarrow> nat list \<Rightarrow> bytes \<Rightarrow> nat list \<Rightarrow> 'd fs3 \<Rightarrow>
    ('d fs3, fs_error, nat \<times> kind) res" where
  "dir_remove_in dev dir_ino dir blocks name [] fs = (Inl NotFound, fs)"
| "dir_remove_in dev dir_ino dir blocks name (pb # pbs) fs =
     bindr (typed_block dev pb False dir_ino fs) (\<lambda>b fs.
     bindr (find_entry b name DIR_HDR (dir_end b), fs) (\<lambda>hit fs.
       case hit of
         None \<Rightarrow> dir_remove_in dev dir_ino dir blocks name pbs fs
       | Some (off, e) \<Rightarrow>
           bindr (ok_or (kind_from_u8 (re_kind e)) (Corrupt ''entry kind''), fs) (\<lambda>kind fs.
           bindr (remove_hit dev dir_ino dir blocks pb off (re_len e) fs) (\<lambda>_ fs. (Inr (re_ino e, kind), fs)))))"

definition dir_remove :: "'d blockdevice \<Rightarrow> nat \<Rightarrow> bytes \<Rightarrow> 'd fs3 \<Rightarrow> ('d fs3, fs_error, nat \<times> kind) res" where
  "dir_remove dev dir_ino name fs =
     bindr (read_inode dev dir_ino fs) (\<lambda>dir fs.
       if i_kind dir \<noteq> Dir then (Inl NotDir, fs)
       else bindr (dir_phys_blocks dev dir_ino dir fs) (\<lambda>blocks fs. dir_remove_in dev dir_ino dir blocks name blocks fs))"

end
