(* ===== verification/Mount.thy ===== *)
theory Mount
  imports Dir
begin

text \<open>
  Formatting and mounting a volume (\<^verbatim>\<open>fs3/mount.rs\<close>).  A constructor takes the device by
  value; the model returns the device it leaves, which on success is also the device inside the
  filesystem, so that a failed format or mount can be followed by another on the same disk.
\<close>

definition dev_io :: "('d, io_error, 'a) res \<Rightarrow> 'd block_cache \<Rightarrow> ('d block_cache, fs_error, 'a) res" where
  "dev_io r c = (case r of (Inl e, d) \<Rightarrow> (Inl (Io e), c\<lparr>bc_dev := d\<rparr>) | (Inr x, d) \<Rightarrow> (Inr x, c\<lparr>bc_dev := d\<rparr>))"

text \<open>A result on the cache, and one on the filesystem, seen as a result on the device.\<close>

definition cache_res :: "('d block_cache, fs_error, 'a) res \<Rightarrow> ('d, fs_error, 'a) res" where
  "cache_res r = (fst r, bc_dev (snd r))"

definition fs_res :: "('d fs3, fs_error, 'a) res \<Rightarrow> ('d, fs_error, 'd fs3) res" where
  "fs_res r = (case r of (Inl e, fs) \<Rightarrow> (Inl e, bc_dev (f_cache fs)) | (Inr _, fs) \<Rightarrow> (Inr fs, bc_dev (f_cache fs)))"

subsection \<open>Opening\<close>

text \<open>The loop \<open>for i in 0..n\<close> over the raw bitmap blocks.\<close>

fun load_bitmaps :: "bytes \<Rightarrow> nat list \<Rightarrow> bitmap \<Rightarrow> fs_error + bitmap" where
  "load_bitmaps raw [] bits = Inr bits"
| "load_bitmaps raw (i # is) bits =
     bindp (load_bitmap_block (get_slice (i * BLOCK_SIZE) BLOCK_SIZE raw) i bits) (\<lambda>bits. load_bitmaps raw is bits)"

definition open_bitmap :: "'d blockdevice \<Rightarrow> nat \<Rightarrow> nat \<Rightarrow> nat \<Rightarrow> 'd block_cache \<Rightarrow> ('d block_cache, fs_error, bitmap) res" where
  "open_bitmap dev start blocks n c =
     bindr (cache_io (read_many dev start (blocks * BLOCK_SIZE) c)) (\<lambda>raw c.
     bindr (load_bitmaps raw [0..<blocks] (bits_new n), c) (\<lambda>bits c. (Inr (fix_padding bits n), c)))"

definition open_with_cache :: "'d blockdevice \<Rightarrow> superblock \<Rightarrow> 'd block_cache \<Rightarrow> ('d block_cache, fs_error, 'd fs3) res" where
  "open_with_cache dev sb c =
     (let g = sb_geo sb in
      if nblocks c < total_blocks g then (Inl BadSuperblock, c)
      else bindr (replay_journal dev g c) (\<lambda>seq c.
      bindr (open_bitmap dev (bbitmap_start g) (bbitmap_blocks g) (total_blocks g) c) (\<lambda>bbits c.
      bindr (open_bitmap dev (ibitmap_start g) (ibitmap_blocks g) (inode_count g) c) (\<lambda>ibits c.
        if next_free bbits 0 (data_start g) \<noteq> None \<or> \<not> bits_get bbits (backup_sb g)
        then (Inl (Corrupt ''bitmap leaves the metadata uncovered''), c)
        else if \<not> bits_get ibits (ROOT_INO - 1) \<or> \<not> bits_get ibits (TRASH_INO - 1)
        then (Inl (Corrupt ''root/trash inode not allocated''), c)
        else
          (Inr \<lparr>f_cache = c, f_sb = sb, f_geo = g, f_bbits = bbits, f_ibits = ibits,
             f_free_blocks = count_free bbits (total_blocks g), f_free_inodes = count_free ibits (inode_count g),
             f_alloc_hint = data_start g, f_seq = seq, f_tx = tx_idle, f_poisoned = False, f_commits = 0\<rparr>, c)))))"

definition validate_roots :: "'d blockdevice \<Rightarrow> 'd fs3 \<Rightarrow> ('d fs3, fs_error, unit) res" where
  "validate_roots dev fs =
     bindr (read_inode dev ROOT_INO fs) (\<lambda>root fs.
       if i_kind root \<noteq> Dir \<or> i_parent root \<noteq> ROOT_INO then (Inl (Corrupt ''bad root inode''), fs)
       else bindr (read_inode dev TRASH_INO fs) (\<lambda>trash fs.
         if i_kind trash \<noteq> Dir \<or> i_parent trash \<noteq> ROOT_INO then (Inl (Corrupt ''bad trash inode''), fs)
         else bindr (dir_find dev ROOT_INO root TRASH_NAME fs) (\<lambda>r fs.
           if r = Some (TRASH_INO, Dir) then (Inr (), fs)
           else (Inl (Corrupt ''root has no .trash entry''), fs))))"

definition mount_with :: "'d blockdevice \<Rightarrow> nat \<Rightarrow> 'd \<Rightarrow> ('d, fs_error, 'd fs3) res" where
  "mount_with dev cache_blocks d =
     (case read_sb_state dev d of
        (Inl e, d) \<Rightarrow> (Inl (Io e), d)
      | (Inr (Valid sb), d) \<Rightarrow>
          bindr (cache_res (open_with_cache dev sb (bc_new dev d FS_START_LBA (total_blocks (sb_geo sb)) cache_blocks)))
            (\<lambda>fs _. fs_res (validate_roots dev fs))
      | (Inr _, d) \<Rightarrow> (Inl BadSuperblock, d))"

definition mount :: "'d blockdevice \<Rightarrow> 'd \<Rightarrow> ('d, fs_error, 'd fs3) res" where
  "mount dev d = mount_with dev DEFAULT_CACHE_BLOCKS d"

subsection \<open>Formatting\<close>

definition format_geometry :: "nat \<Rightarrow> format_options \<Rightarrow> fs_error + geometry" where
  "format_geometry sectors opts =
     (if sectors < MIN_DISK_SECTORS then Inl TooSmall
      else
        let tot = blocks_for sectors;
            (dj, di) = geometry_defaults tot;
            j = (case fo_journal_blocks opts of Some j \<Rightarrow> j | None \<Rightarrow> dj)
        in bindp (ok_or (checked_mul 32 (div_ceil (case fo_inode_count opts of Some i \<Rightarrow> i | None \<Rightarrow> di) INODES_PER_BLOCK)
              INODES_PER_BLOCK) TooSmall) (\<lambda>ino.
            ok_or (geometry_compute tot j ino) TooSmall))"

definition fresh_bbits :: "geometry \<Rightarrow> bitmap" where
  "fresh_bbits g = bits_set (fold (\<lambda>b v. bits_set v b) [0..<data_start g] (bits_new (total_blocks g))) (backup_sb g)"

definition fresh_ibits :: "geometry \<Rightarrow> bitmap" where
  "fresh_ibits g = bits_set (bits_set (bits_new (inode_count g)) (ROOT_INO - 1)) (TRASH_INO - 1)"

definition bitmap_writes :: "nat \<Rightarrow> nat \<Rightarrow> bitmap \<Rightarrow> (nat \<times> bytes \<times> nat) list" where
  "bitmap_writes start blocks bits = map (\<lambda>i. (u32_add start i, bitmap_image bits i, 0)) [0..<blocks]"

definition format_blank :: "'d blockdevice \<Rightarrow> geometry \<Rightarrow> 'd block_cache \<Rightarrow> ('d block_cache, fs_error, unit) res" where
  "format_blank dev g c =
     (let zero = replicate SECTOR_SIZE 0;
          backup = FS_START_LBA + backup_sb g * SECTORS_PER_BLOCK
      in bindr (dev_io (write_sectors dev (bc_dev c) FS_START_LBA zero) c) (\<lambda>_ c.
         bindr (dev_io (write_sectors dev (bc_dev c) backup zero) c) (\<lambda>_ c.
         bindr (dev_io (flush_dev dev (bc_dev c)) c) (\<lambda>_ c.
         bindr (cache_io (write_direct dev (jhdr g) (build_journal_header 0 [] []) 0 c)) (\<lambda>_ c.
         bindr (cache_io (write_blocks dev (bitmap_writes (bbitmap_start g) (bbitmap_blocks g) (fresh_bbits g)) c)) (\<lambda>_ c.
         bindr (cache_io (write_blocks dev (bitmap_writes (ibitmap_start g) (ibitmap_blocks g) (fresh_ibits g)) c)) (\<lambda>_ c.
         cache_io (bc_flush dev c))))))))"

definition make_roots :: "'d blockdevice \<Rightarrow> nat \<Rightarrow> 'd fs3 \<Rightarrow> ('d fs3, fs_error, unit) res" where
  "make_roots dev now fs =
     (let root = (inode_new Dir now ROOT_INO)\<lparr>i_nlink := 1\<rparr>; trash = inode_new Dir now ROOT_INO in
      bindr (write_inode dev ROOT_INO root fs) (\<lambda>_ fs.
      bindr (write_inode dev TRASH_INO trash fs) (\<lambda>_ fs.
        dir_insert dev ROOT_INO TRASH_NAME TRASH_INO Dir now fs)))"

definition format_unsealed :: "'d blockdevice \<Rightarrow> format_options \<Rightarrow> 'd \<Rightarrow> ('d, fs_error, 'd fs3) res" where
  "format_unsealed dev opts d =
     bindr (format_geometry (sector_count dev d) opts, d) (\<lambda>g d.
       let sb = \<lparr>sb_uuid = fo_uuid opts, sb_created = fo_now opts, sb_geo = g\<rparr>;
           cache = bc_new dev d FS_START_LBA (total_blocks g)
             (case fo_cache_blocks opts of Some n \<Rightarrow> n | None \<Rightarrow> DEFAULT_CACHE_BLOCKS)
       in bindr (cache_res (bindr (format_blank dev g cache) (\<lambda>_ c. open_with_cache dev sb c))) (\<lambda>fs _.
            fs_res (bindr (txn dev (make_roots dev (fo_now opts)) fs) (\<lambda>_ fs. validate_roots dev fs))))"

definition fs_dev_io :: "('d, io_error, 'a) res \<Rightarrow> 'd fs3 \<Rightarrow> ('d fs3, fs_error, 'a) res" where
  "fs_dev_io r fs = (case dev_io r (f_cache fs) of (x, c) \<Rightarrow> (x, fs\<lparr>f_cache := c\<rparr>))"

definition seal :: "'d blockdevice \<Rightarrow> 'd fs3 \<Rightarrow> ('d fs3, fs_error, unit) res" where
  "seal dev fs =
     bindr (lift_io (bc_flush dev (f_cache fs)) fs) (\<lambda>_ fs.
       let enc = sb_encode (f_sb fs);
           backup = FS_START_LBA + backup_sb (f_geo fs) * SECTORS_PER_BLOCK
       in bindr (fs_dev_io (write_sectors dev (bc_dev (f_cache fs)) FS_START_LBA enc) fs) (\<lambda>_ fs.
          bindr (fs_dev_io (flush_dev dev (bc_dev (f_cache fs))) fs) (\<lambda>_ fs.
          bindr (fs_dev_io (write_sectors dev (bc_dev (f_cache fs)) backup enc) fs) (\<lambda>_ fs.
          fs_dev_io (flush_dev dev (bc_dev (f_cache fs))) fs))))"

definition format :: "'d blockdevice \<Rightarrow> format_options \<Rightarrow> 'd \<Rightarrow> ('d, fs_error, 'd fs3) res" where
  "format dev opts d = bindr (format_unsealed dev opts d) (\<lambda>fs _. fs_res (seal dev fs))"

subsection \<open>Accessors\<close>

definition into_device :: "'d fs3 \<Rightarrow> 'd" where
  "into_device fs = bc_dev (f_cache fs)"

definition statfs_of :: "'d fs3 \<Rightarrow> statfs" where
  "statfs_of fs =
     \<lparr>sf_block_size = BLOCK_SIZE, sf_total_blocks = total_blocks (f_geo fs), sf_free_blocks = f_free_blocks fs,
      sf_data_blocks = total_blocks (f_geo fs) - data_start (f_geo fs) - 1,
      sf_total_inodes = inode_count (f_geo fs), sf_free_inodes = f_free_inodes fs\<rparr>"

definition reset_cache_stats :: "'d fs3 \<Rightarrow> 'd fs3" where
  "reset_cache_stats fs = fs\<lparr>f_cache := reset_stats (f_cache fs)\<rparr>"

definition sync :: "'d blockdevice \<Rightarrow> 'd fs3 \<Rightarrow> ('d fs3, fs_error, unit) res" where
  "sync dev fs = bindr (ready fs, fs) (\<lambda>_ fs. lift_io (bc_flush dev (f_cache fs)) fs)"

end
