(* ===== verification/Ops.thy ===== *)
theory Ops
  imports Mount
begin

unbundle bit_operations_syntax

text \<open>
  The public operations of the filesystem: paths and the namespace (\<^verbatim>\<open>fs3/ops.rs\<close>), file
  data (\<^verbatim>\<open>ops/data.rs\<close>), removal and renaming (\<^verbatim>\<open>ops/removal.rs\<close>) and the trash
  (\<^verbatim>\<open>ops/trash.rs\<close>).  The operations carry the prefix \<open>fs_\<close> where the plain name is
  taken.
\<close>

subsection \<open>Paths\<close>

definition MAX_PATH :: nat where "MAX_PATH = 4096"
definition MAX_READ_FILE :: nat where "MAX_READ_FILE = 64 * 1024 * 1024"
definition WRITE_CHUNK :: nat where "WRITE_CHUNK = 256"

abbreviation slash :: u8 where "slash \<equiv> 0x2F"
abbreviation dot :: u8 where "dot \<equiv> 0x2E"

definition check_name :: "bytes \<Rightarrow> fs_error + unit" where
  "check_name name =
     (if name = [] \<or> name = [dot] \<or> name = [dot, dot] \<or> list_ex (\<lambda>c. c = slash \<or> c = 0) name then Inl InvalidName
      else if MAX_NAME < length name then Inl NameTooLong
      else Inr ())"

text \<open>\<open>split(|&b| b == b'/')\<close>: the pieces between separators, at least one.\<close>

fun split_slash :: "bytes \<Rightarrow> bytes list" where
  "split_slash [] = [[]]"
| "split_slash (c # cs) =
     (if c = slash then [] # split_slash cs
      else case split_slash cs of p # ps \<Rightarrow> (c # p) # ps | [] \<Rightarrow> [[c]])"

fun check_comps :: "bytes list \<Rightarrow> fs_error + bytes list" where
  "check_comps [] = Inr []"
| "check_comps (c # cs) =
     (if c = [] \<or> c = [dot] \<or> c = [dot, dot] then Inl InvalidPath
      else if 0 \<in> set c then Inl InvalidName
      else if MAX_NAME < length c then Inl NameTooLong
      else bindp (check_comps cs) (\<lambda>out. Inr (c # out)))"

definition split_path :: "bytes \<Rightarrow> fs_error + bytes list" where
  "split_path path =
     (if path = [] \<or> MAX_PATH < length path \<or> hd path \<noteq> slash then Inl InvalidPath
      else if path = [slash] then Inr []
      else check_comps (split_slash (tl path)))"

record resolved =
  rs_ino :: nat
  rs_in_trash :: bool

record parent_ref =
  pr_dir :: nat
  pr_name :: bytes
  pr_in_trash :: bool

definition check_mutable :: "parent_ref \<Rightarrow> fs_error + unit" where
  "check_mutable p =
     (if pr_in_trash p \<or> (pr_dir p = ROOT_INO \<and> pr_name p = TRASH_NAME) then Inl Reserved else Inr ())"

fun walk_from :: "'d blockdevice \<Rightarrow> bytes list \<Rightarrow> nat \<Rightarrow> bool \<Rightarrow> 'd fs3 \<Rightarrow> ('d fs3, fs_error, resolved) res" where
  "walk_from dev [] cur in_trash fs = (Inr \<lparr>rs_ino = cur, rs_in_trash = in_trash\<rparr>, fs)"
| "walk_from dev (c # cs) cur in_trash fs =
     bindr (read_inode dev cur fs) (\<lambda>dir fs.
     bindr (dir_find dev cur dir c fs) (\<lambda>hit fs.
     bindr (ok_or hit NotFound, fs) (\<lambda>(next, _) fs.
       walk_from dev cs next (in_trash \<or> (next = TRASH_INO \<and> cur = ROOT_INO)) fs)))"

definition walk :: "'d blockdevice \<Rightarrow> bytes list \<Rightarrow> 'd fs3 \<Rightarrow> ('d fs3, fs_error, resolved) res" where
  "walk dev comps fs = walk_from dev comps ROOT_INO False fs"

definition resolve_parent :: "'d blockdevice \<Rightarrow> bytes \<Rightarrow> 'd fs3 \<Rightarrow> ('d fs3, fs_error, parent_ref) res" where
  "resolve_parent dev path fs =
     bindr (split_path path, fs) (\<lambda>comps fs.
       if comps = [] then (Inl InvalidPath, fs)
       else bindr (walk dev (butlast comps) fs) (\<lambda>r fs.
         (Inr \<lparr>pr_dir = rs_ino r, pr_name = last comps, pr_in_trash = rs_in_trash r\<rparr>, fs)))"

definition entry :: "'d blockdevice \<Rightarrow> nat \<Rightarrow> bytes \<Rightarrow> 'd fs3 \<Rightarrow> ('d fs3, fs_error, (nat \<times> kind) option) res" where
  "entry dev dir name fs = bindr (read_inode dev dir fs) (\<lambda>d fs. dir_find dev dir d name fs)"

definition read_child :: "'d blockdevice \<Rightarrow> nat \<Rightarrow> 'd fs3 \<Rightarrow> ('d fs3, fs_error, inode) res" where
  "read_child dev ino fs =
     (case read_inode dev ino fs of
        (Inl NotFound, fs) \<Rightarrow> (Inl (Corrupt ''directory entry points at a free inode''), fs)
      | r \<Rightarrow> r)"

definition fs_lookup :: "'d blockdevice \<Rightarrow> bytes \<Rightarrow> 'd fs3 \<Rightarrow> ('d fs3, fs_error, nat) res" where
  "fs_lookup dev path fs =
     bindr (ready fs, fs) (\<lambda>_ fs.
     bindr (split_path path, fs) (\<lambda>comps fs.
     bindr (walk dev comps fs) (\<lambda>r fs. (Inr (rs_ino r), fs))))"

definition fs_open :: "'d blockdevice \<Rightarrow> bytes \<Rightarrow> 'd fs3 \<Rightarrow> ('d fs3, fs_error, nat) res" where
  "fs_open dev path fs =
     bindr (fs_lookup dev path fs) (\<lambda>ino fs.
     bindr (read_child dev ino fs) (\<lambda>n fs.
       case i_kind n of File \<Rightarrow> (Inr ino, fs) | Dir \<Rightarrow> (Inl IsDir, fs)))"

subsection \<open>Metadata\<close>

record stat =
  st_ino :: nat
  st_kind :: kind
  st_size :: nat
  st_ctime :: nat
  st_mtime :: nat
  st_mode :: nat
  st_uid :: nat
  st_gid :: nat
  st_nlink :: nat
  st_blocks :: nat
  st_parent :: nat

record dir_entry =
  de_name :: bytes
  de_ino :: nat
  de_kind :: kind
  de_size :: nat
  de_mtime :: nat

record trash_entry =
  te_trash_name :: bytes
  te_orig_name :: bytes
  te_orig_parent :: nat
  te_ino :: nat
  te_kind :: kind
  te_size :: nat
  te_deleted_at :: nat

definition stat_of :: "nat \<Rightarrow> inode \<Rightarrow> stat" where
  "stat_of ino n =
     \<lparr>st_ino = ino, st_kind = i_kind n, st_size = i_size n, st_ctime = i_ctime n, st_mtime = i_mtime n,
      st_mode = i_mode n, st_uid = i_uid n, st_gid = i_gid n, st_nlink = i_nlink n, st_blocks = i_nblocks n,
      st_parent = i_parent n\<rparr>"

definition stat_ino :: "'d blockdevice \<Rightarrow> nat \<Rightarrow> 'd fs3 \<Rightarrow> ('d fs3, fs_error, stat) res" where
  "stat_ino dev ino fs =
     bindr (ready fs, fs) (\<lambda>_ fs. bindr (read_inode dev ino fs) (\<lambda>n fs. (Inr (stat_of ino n), fs)))"

definition fs_stat :: "'d blockdevice \<Rightarrow> bytes \<Rightarrow> 'd fs3 \<Rightarrow> ('d fs3, fs_error, stat) res" where
  "fs_stat dev path fs = bindr (fs_lookup dev path fs) (\<lambda>ino fs. stat_ino dev ino fs)"

text \<open>\<open>left\<close> is \<open>inode_count - steps\<close>.\<close>

fun path_loop :: "'d blockdevice \<Rightarrow> nat \<Rightarrow> nat \<Rightarrow> bytes list \<Rightarrow> 'd fs3 \<Rightarrow> ('d fs3, fs_error, bytes list) res" where
  "path_loop dev 0 cur names fs =
     (if cur \<noteq> ROOT_INO then (Inl (Corrupt ''parent chain loops''), fs) else (Inr names, fs))"
| "path_loop dev (Suc left) cur names fs =
     (if cur \<noteq> ROOT_INO then
        bindr (read_inode dev cur fs) (\<lambda>node fs.
        bindr (dir_list dev (i_parent node) fs) (\<lambda>es fs.
        bindr (ok_or (find (\<lambda>(_, i, _). i = cur) es) (Corrupt ''inode missing from its parent''), fs) (\<lambda>found fs.
          path_loop dev left (i_parent node) (names @ [fst found]) fs)))
      else (Inr names, fs))"

definition path_of :: "'d blockdevice \<Rightarrow> nat \<Rightarrow> 'd fs3 \<Rightarrow> ('d fs3, fs_error, bytes) res" where
  "path_of dev ino fs =
     bindr (ready fs, fs) (\<lambda>_ fs.
       if ino = ROOT_INO then (Inr [slash], fs)
       else bindr (path_loop dev (inode_count (f_geo fs)) ino [] fs) (\<lambda>names fs.
         (Inr (concat (map (\<lambda>n. slash # n) (rev names))), fs)))"

fun live_loop :: "'d blockdevice \<Rightarrow> nat \<Rightarrow> nat \<Rightarrow> nat \<Rightarrow> 'd fs3 \<Rightarrow> bool \<times> 'd fs3" where
  "live_loop dev ino left cur fs =
     (case read_inode dev cur fs of
        (Inl _, fs) \<Rightarrow> (False, fs)
      | (Inr n, fs) \<Rightarrow>
          if cur = ino \<and> i_kind n \<noteq> Dir then (False, fs)
          else if cur = ROOT_INO then (True, fs)
          else if cur = TRASH_INO then (False, fs)
          else (case left of 0 \<Rightarrow> (False, fs) | Suc left \<Rightarrow> live_loop dev ino left (i_parent n) fs))"

declare live_loop.simps [simp del]

definition is_live_dir :: "'d blockdevice \<Rightarrow> nat \<Rightarrow> 'd fs3 \<Rightarrow> bool \<times> 'd fs3" where
  "is_live_dir dev ino fs = live_loop dev ino (inode_count (f_geo fs)) ino fs"

subsection \<open>Namespace\<close>

definition new_node :: "'d blockdevice \<Rightarrow> nat \<Rightarrow> bytes \<Rightarrow> kind \<Rightarrow> nat \<Rightarrow> 'd fs3 \<Rightarrow> ('d fs3, fs_error, nat) res" where
  "new_node dev pdir name kind now fs =
     bindr (read_inode dev pdir fs) (\<lambda>p fs.
       if i_kind p \<noteq> Dir then (Inl NotDir, fs)
       else bindr (alloc_inode fs) (\<lambda>ino fs.
       bindr (write_inode dev ino (inode_new kind now pdir) fs) (\<lambda>_ fs.
       bindr (dir_insert dev pdir name ino kind now fs) (\<lambda>_ fs. (Inr ino, fs)))))"

text \<open>\<open>self.ready()\<close>, \<open>resolve_parent\<close>, \<open>check_name\<close>, \<open>check_mutable\<close>: how a path that will be created is resolved.\<close>

definition target_of :: "'d blockdevice \<Rightarrow> bytes \<Rightarrow> 'd fs3 \<Rightarrow> ('d fs3, fs_error, parent_ref) res" where
  "target_of dev path fs =
     bindr (ready fs, fs) (\<lambda>_ fs.
     bindr (resolve_parent dev path fs) (\<lambda>p fs.
     bindr (check_name (pr_name p), fs) (\<lambda>_ fs.
     bindr (check_mutable p, fs) (\<lambda>_ fs. (Inr p, fs)))))"

definition fs_create :: "'d blockdevice \<Rightarrow> bytes \<Rightarrow> nat \<Rightarrow> 'd fs3 \<Rightarrow> ('d fs3, fs_error, nat) res" where
  "fs_create dev path now fs =
     bindr (target_of dev path fs) (\<lambda>p fs. txn dev (new_node dev (pr_dir p) (pr_name p) File now) fs)"

definition fs_mkdir :: "'d blockdevice \<Rightarrow> bytes \<Rightarrow> nat \<Rightarrow> 'd fs3 \<Rightarrow> ('d fs3, fs_error, nat) res" where
  "fs_mkdir dev path now fs =
     bindr (target_of dev path fs) (\<lambda>p fs. txn dev (new_node dev (pr_dir p) (pr_name p) Dir now) fs)"

definition set_owner :: "'d blockdevice \<Rightarrow> bytes \<Rightarrow> nat option \<Rightarrow> nat option \<Rightarrow> nat option \<Rightarrow> 'd fs3 \<Rightarrow> ('d fs3, fs_error, unit) res" where
  "set_owner dev path uid gid mode fs =
     bindr (ready fs, fs) (\<lambda>_ fs.
     bindr (fs_lookup dev path fs) (\<lambda>ino fs.
       txn dev (\<lambda>fs. bindr (read_inode dev ino fs) (\<lambda>n fs.
         let n = (case uid of Some u \<Rightarrow> n\<lparr>i_uid := u\<rparr> | None \<Rightarrow> n);
             n = (case gid of Some g \<Rightarrow> n\<lparr>i_gid := g\<rparr> | None \<Rightarrow> n);
             n = (case mode of Some m \<Rightarrow> n\<lparr>i_mode := m AND 1023\<rparr> | None \<Rightarrow> n)
         in write_inode dev ino n fs)) fs))"

fun readdir_in :: "'d blockdevice \<Rightarrow> nat \<Rightarrow> (bytes \<times> nat \<times> kind) list \<Rightarrow> dir_entry list \<Rightarrow> 'd fs3 \<Rightarrow>
    ('d fs3, fs_error, dir_entry list) res" where
  "readdir_in dev dir [] out fs = (Inr out, fs)"
| "readdir_in dev dir ((name, ino, kind) # es) out fs =
     (if dir = ROOT_INO \<and> ino = TRASH_INO then readdir_in dev dir es out fs
      else bindr (read_child dev ino fs) (\<lambda>n fs.
        readdir_in dev dir es (out @ [\<lparr>de_name = name, de_ino = ino, de_kind = kind, de_size = i_size n, de_mtime = i_mtime n\<rparr>]) fs))"

definition readdir :: "'d blockdevice \<Rightarrow> bytes \<Rightarrow> 'd fs3 \<Rightarrow> ('d fs3, fs_error, dir_entry list) res" where
  "readdir dev path fs =
     bindr (ready fs, fs) (\<lambda>_ fs.
     bindr (split_path path, fs) (\<lambda>comps fs.
     bindr (walk dev comps fs) (\<lambda>r fs.
     bindr (dir_list dev (rs_ino r) fs) (\<lambda>es fs. readdir_in dev (rs_ino r) es [] fs))))"

definition readdir_names :: "'d blockdevice \<Rightarrow> bytes \<Rightarrow> 'd fs3 \<Rightarrow> ('d fs3, fs_error, (bytes \<times> kind) list) res" where
  "readdir_names dev path fs =
     bindr (ready fs, fs) (\<lambda>_ fs.
     bindr (split_path path, fs) (\<lambda>comps fs.
     bindr (walk dev comps fs) (\<lambda>r fs.
     bindr (dir_list dev (rs_ino r) fs) (\<lambda>es fs.
       (Inr (map (\<lambda>(name, _, kind). (name, kind))
          (filter (\<lambda>(_, ino, _). \<not> (rs_ino r = ROOT_INO \<and> ino = TRASH_INO)) es)), fs)))))"

subsection \<open>Reading\<close>

text \<open>
  The buffer is an argument and a result; after an error the caller's buffer holds what was read
  so far, which no caller uses.
\<close>

function read_chunks :: "'d blockdevice \<Rightarrow> extent \<Rightarrow> nat \<Rightarrow> nat \<Rightarrow> nat \<Rightarrow> nat \<Rightarrow> bytes \<Rightarrow> 'd fs3 \<Rightarrow> ('d fs3, fs_error, bytes) res" where
  "read_chunks dev e off end b lb buf fs =
     (if lb < b then
        let c = min (b - lb) WRITE_CHUNK;
            pb = pblk e + (lb - lblk e)
        in bindr (lift_io (read_many dev pb (c * BLOCK_SIZE) (f_cache fs)) fs) (\<lambda>scratch fs.
             let s = max (lb * BLOCK_SIZE) off;
                 t = min ((lb + c) * BLOCK_SIZE) end;
                 buf = put_slice (s - off) (get_slice (s - lb * BLOCK_SIZE) (t - s) scratch) buf
             in read_chunks dev e off end b (lb + c) buf fs)
      else (Inr buf, fs))"
  by auto
termination
  by (relation "measure (\<lambda>(dev, e, off, end, b, lb, buf, fs). b - lb)") (auto simp: WRITE_CHUNK_def)

declare read_chunks.simps [simp del]

fun read_extents :: "'d blockdevice \<Rightarrow> nat \<Rightarrow> nat \<Rightarrow> nat \<Rightarrow> nat \<Rightarrow> extent list \<Rightarrow> bytes \<Rightarrow> 'd fs3 \<Rightarrow> ('d fs3, fs_error, bytes) res" where
  "read_extents dev off end first lastb [] buf fs = (Inr buf, fs)"
| "read_extents dev off end first lastb (e # es) buf fs =
     (if lend e \<le> first then read_extents dev off end first lastb es buf fs
      else if lastb < lblk e then (Inr buf, fs)
      else bindr (read_chunks dev e off end (min (lend e) (lastb + 1)) (max (lblk e) first) buf fs) (\<lambda>buf fs.
        read_extents dev off end first lastb es buf fs))"

definition read_at :: "'d blockdevice \<Rightarrow> nat \<Rightarrow> nat \<Rightarrow> bytes \<Rightarrow> 'd fs3 \<Rightarrow> ('d fs3, fs_error, nat \<times> bytes) res" where
  "read_at dev ino off buf fs =
     bindr (ready fs, fs) (\<lambda>_ fs.
     bindr (read_inode dev ino fs) (\<lambda>node fs.
       if i_kind node \<noteq> File then (Inl IsDir, fs)
       else if i_size node \<le> off \<or> buf = [] then (Inr (0, buf), fs)
       else
         let n = min (length buf) (i_size node - off);
             end = off + n;
             first = off div BLOCK_SIZE; lastb = (end - 1) div BLOCK_SIZE
         in bindr (load_extents dev ino node fs) (\<lambda>exts fs.
            bindr (read_extents dev off end first lastb exts (replicate n 0) fs) (\<lambda>out fs.
              (Inr (n, out @ drop n buf), fs)))))"

definition read_file :: "'d blockdevice \<Rightarrow> bytes \<Rightarrow> 'd fs3 \<Rightarrow> ('d fs3, fs_error, bytes) res" where
  "read_file dev path fs =
     bindr (fs_open dev path fs) (\<lambda>ino fs.
     bindr (read_child dev ino fs) (\<lambda>node fs.
       if MAX_READ_FILE < i_size node then (Inl TooBig, fs)
       else bindr (read_at dev ino 0 (replicate (i_size node) 0) fs) (\<lambda>(n, v) fs. (Inr (take n v), fs))))"

subsection \<open>Writing\<close>

text \<open>The bytes of logical block \<open>cur\<close>: the old block around the new bytes.\<close>

definition old_block :: "'d blockdevice \<Rightarrow> extent list \<Rightarrow> bool \<Rightarrow> nat \<Rightarrow> 'd fs3 \<Rightarrow> ('d fs3, fs_error, bytes) res" where
  "old_block dev exts part cur fs =
     (if part
      then (case map_block exts cur of
          Some old \<Rightarrow> lift_io (bc_read dev old (f_cache fs)) fs
        | None \<Rightarrow> (Inr (replicate BLOCK_SIZE 0), fs))
      else (Inr (replicate BLOCK_SIZE 0), fs))"

definition fill_block :: "'d blockdevice \<Rightarrow> extent list \<Rightarrow> nat \<Rightarrow> nat \<Rightarrow> bytes \<Rightarrow> nat \<Rightarrow> 'd fs3 \<Rightarrow> ('d fs3, fs_error, bytes) res" where
  "fill_block dev exts off end data cur fs =
     (let bstart = cur * BLOCK_SIZE;
          bend = bstart + BLOCK_SIZE;
          s = max bstart off; e = min bend end
      in bindr (old_block dev exts (bstart < s \<or> e < bend) cur fs) (\<lambda>dst fs.
           (Inr (put_slice (s - bstart) (get_slice (s - off) (e - s) data) dst), fs)))"

fun fill_blocks :: "'d blockdevice \<Rightarrow> extent list \<Rightarrow> nat \<Rightarrow> nat \<Rightarrow> bytes \<Rightarrow> nat \<Rightarrow> nat list \<Rightarrow> bytes \<Rightarrow> 'd fs3 \<Rightarrow> ('d fs3, fs_error, bytes) res" where
  "fill_blocks dev exts off end data lb [] buf fs = (Inr buf, fs)"
| "fill_blocks dev exts off end data lb (k # ks) buf fs =
     bindr (fill_block dev exts off end data (u32_add lb k) fs) (\<lambda>dst fs.
       fill_blocks dev exts off end data lb ks (put_slice (k * BLOCK_SIZE) dst buf) fs)"

function write_chunks :: "'d blockdevice \<Rightarrow> extent list \<Rightarrow> nat \<Rightarrow> nat \<Rightarrow> bytes \<Rightarrow> nat \<Rightarrow> nat \<Rightarrow> nat \<Rightarrow> nat \<Rightarrow> 'd fs3 \<Rightarrow> ('d fs3, fs_error, nat) res" where
  "write_chunks dev exts off end data pstart plen written lb fs =
     (if written < plen then
        let c = min (plen - written) WRITE_CHUNK in
        bindr (fill_blocks dev exts off end data lb [0..<c] (replicate (c * BLOCK_SIZE) 0) fs) (\<lambda>buf fs.
        bindr (lift_io (write_many dev (u32_add pstart written) buf (f_cache fs)) fs) (\<lambda>_ fs.
          write_chunks dev exts off end data pstart plen (written + c) (u32_add lb c) fs))
      else (Inr lb, fs))"
  by auto
termination
  by (relation "measure (\<lambda>(dev, exts, off, end, data, pstart, plen, written, lb, fs). plen - written)")
    (auto simp: WRITE_CHUNK_def)

declare write_chunks.simps [simp del]

fun write_runs :: "'d blockdevice \<Rightarrow> extent list \<Rightarrow> nat \<Rightarrow> nat \<Rightarrow> bytes \<Rightarrow> (nat \<times> nat) list \<Rightarrow> nat \<Rightarrow> 'd fs3 \<Rightarrow> ('d fs3, fs_error, unit) res" where
  "write_runs dev exts off end data [] lb fs = (Inr (), fs)"
| "write_runs dev exts off end data ((pstart, plen) # rs) lb fs =
     bindr (write_chunks dev exts off end data pstart plen 0 lb fs) (\<lambda>lb fs. write_runs dev exts off end data rs lb fs)"

abbreviation tx_free_runs :: "(nat \<times> nat) list \<Rightarrow> 'd fs3 \<Rightarrow> 'd fs3" where
  "tx_free_runs freed fs \<equiv> tx_upd (\<lambda>t. t\<lparr>tx_to_free := tx_to_free t @ freed\<rparr>) fs"

definition write_inner :: "'d blockdevice \<Rightarrow> nat \<Rightarrow> nat \<Rightarrow> bytes \<Rightarrow> nat \<Rightarrow> 'd fs3 \<Rightarrow> ('d fs3, fs_error, unit) res" where
  "write_inner dev ino off data now fs =
     bindr (read_inode dev ino fs) (\<lambda>node fs.
       if i_kind node \<noteq> File then (Inl IsDir, fs)
       else if data = [] then (Inr (), fs)
       else bindr (ok_or (checked_add 64 off (length data)) TooBig, fs) (\<lambda>end fs.
         if MAX_FILE_BYTES < end then (Inl TooBig, fs)
         else
           let first_lb = as_u32 (off div BLOCK_SIZE);
               last_lb = as_u32 ((end - 1) div BLOCK_SIZE);
               nlb = last_lb - first_lb + 1
           in bindr (load_extents dev ino node fs) (\<lambda>exts fs.
                let hint = (case map_block exts first_lb of
                    Some p \<Rightarrow> p
                  | None \<Rightarrow> if exts \<noteq> [] then min (u32_add (pblk (last exts)) (elen (last exts))) (u32_max - 1)
                      else f_alloc_hint fs)
                in bindr (alloc_blocks nlb hint fs) (\<lambda>runs fs.
                   let fs = tx_upd (\<lambda>t. t\<lparr>tx_data := tx_data t @ runs\<rparr>) fs in
                   bindr (write_runs dev exts off end data runs first_lb fs) (\<lambda>_ fs.
                   let (exts, freed) = remap exts first_lb nlb runs [];
                       fs = tx_free_runs freed fs;
                       node = node\<lparr>i_size := max (i_size node) end, i_mtime := now\<rparr>
                   in bindr (store_extents dev ino node exts fs) (\<lambda>node fs. write_inode dev ino node fs))))))"

definition zero_tail :: "'d blockdevice \<Rightarrow> nat \<Rightarrow> extent list \<times> (nat \<times> nat) list \<Rightarrow> 'd fs3 \<Rightarrow>
    ('d fs3, fs_error, extent list \<times> (nat \<times> nat) list) res" where
  "zero_tail dev sz ef fs =
     (case ef of (exts, freed) \<Rightarrow>
        if sz mod BLOCK_SIZE = 0 then (Inr (exts, freed), fs)
        else let lb = as_u32 (sz div BLOCK_SIZE) in
          (case map_block exts lb of
             None \<Rightarrow> (Inr (exts, freed), fs)
           | Some old \<Rightarrow>
               bindr (alloc_blocks 1 old fs) (\<lambda>r fs.
                 let np = fst (hd r);
                     fs = tx_upd (\<lambda>t. t\<lparr>tx_data := tx_data t @ [(np, 1)]\<rparr>) fs
                 in bindr (lift_io (bc_read dev old (f_cache fs)) fs) (\<lambda>tmp fs.
                      let z = sz mod BLOCK_SIZE;
                          tmp = put_slice z (replicate (BLOCK_SIZE - z) 0) tmp
                      in bindr (lift_io (bc_write dev np tmp (f_cache fs)) fs) (\<lambda>_ fs.
                           (Inr (remap exts lb 1 [(np, 1)] freed), fs))))))"

definition truncate_inner :: "'d blockdevice \<Rightarrow> nat \<Rightarrow> nat \<Rightarrow> nat \<Rightarrow> 'd fs3 \<Rightarrow> ('d fs3, fs_error, unit) res" where
  "truncate_inner dev ino sz now fs =
     bindr (read_inode dev ino fs) (\<lambda>node fs.
       if i_kind node \<noteq> File then (Inl IsDir, fs)
       else if MAX_FILE_BYTES < sz then (Inl TooBig, fs)
       else if sz = i_size node then (Inr (), fs)
       else if i_size node < sz then write_inode dev ino (node\<lparr>i_size := sz, i_mtime := now\<rparr>) fs
       else
         let keep = as_u32 (div_ceil sz BLOCK_SIZE) in
         bindr (load_extents dev ino node fs) (\<lambda>exts fs.
         bindr (zero_tail dev sz (cut_tail exts keep []) fs) (\<lambda>(exts, freed) fs.
           let fs = tx_free_runs freed fs;
               node = node\<lparr>i_size := sz, i_mtime := now\<rparr>
           in bindr (store_extents dev ino node exts fs) (\<lambda>node fs. write_inode dev ino node fs))))"

definition write_at :: "'d blockdevice \<Rightarrow> nat \<Rightarrow> nat \<Rightarrow> bytes \<Rightarrow> nat \<Rightarrow> 'd fs3 \<Rightarrow> ('d fs3, fs_error, unit) res" where
  "write_at dev ino off data now fs =
     bindr (ready fs, fs) (\<lambda>_ fs. txn dev (write_inner dev ino off data now) fs)"

definition fs_append :: "'d blockdevice \<Rightarrow> nat \<Rightarrow> bytes \<Rightarrow> nat \<Rightarrow> 'd fs3 \<Rightarrow> ('d fs3, fs_error, unit) res" where
  "fs_append dev ino data now fs =
     bindr (ready fs, fs) (\<lambda>_ fs.
       txn dev (\<lambda>fs. bindr (read_inode dev ino fs) (\<lambda>node fs. write_inner dev ino (i_size node) data now fs)) fs)"

definition fs_truncate :: "'d blockdevice \<Rightarrow> nat \<Rightarrow> nat \<Rightarrow> nat \<Rightarrow> 'd fs3 \<Rightarrow> ('d fs3, fs_error, unit) res" where
  "fs_truncate dev ino sz now fs =
     bindr (ready fs, fs) (\<lambda>_ fs. txn dev (truncate_inner dev ino sz now) fs)"

definition write_file :: "'d blockdevice \<Rightarrow> bytes \<Rightarrow> bytes \<Rightarrow> nat \<Rightarrow> 'd fs3 \<Rightarrow> ('d fs3, fs_error, unit) res" where
  "write_file dev path data now fs =
     bindr (target_of dev path fs) (\<lambda>p fs.
       txn dev (\<lambda>fs.
         bindr (entry dev (pr_dir p) (pr_name p) fs) (\<lambda>hit fs.
         bindr (case hit of
             Some (i, File) \<Rightarrow> bindr (truncate_inner dev i 0 now fs) (\<lambda>_ fs. (Inr i, fs))
           | Some (_, Dir) \<Rightarrow> (Inl IsDir, fs)
           | None \<Rightarrow> new_node dev (pr_dir p) (pr_name p) File now fs) (\<lambda>ino fs.
           write_inner dev ino 0 data now fs))) fs)"

end
