(* ===== verification/Removal.thy ===== *)
theory Removal
  imports Ops
begin

unbundle bit_operations_syntax

text \<open>
  Removing and renaming (\<^verbatim>\<open>fs3/ops/removal.rs\<close>) and the trash (\<^verbatim>\<open>fs3/ops/trash.rs\<close>).
\<close>

subsection \<open>Removal\<close>

definition release_inode :: "'d blockdevice \<Rightarrow> nat \<Rightarrow> 'd fs3 \<Rightarrow> ('d fs3, fs_error, unit) res" where
  "release_inode dev ino fs =
     bindr (read_child dev ino fs) (\<lambda>n fs.
     bindr (if i_kind n = Dir then bindr (dir_list dev ino fs) (\<lambda>es fs. (Inr (es \<noteq> []), fs)) else (Inr False, fs))
       (\<lambda>occupied fs.
       if occupied then (Inl NotEmpty, fs)
       else bindr (release_blocks dev ino n fs) (\<lambda>_ fs. free_inode dev ino fs)))"

definition remove_entry :: "'d blockdevice \<Rightarrow> nat \<Rightarrow> bytes \<Rightarrow> nat \<Rightarrow> 'd fs3 \<Rightarrow> ('d fs3, fs_error, unit) res" where
  "remove_entry dev pdir name ino fs =
     bindr (dir_remove dev pdir name fs) (\<lambda>(got, _) fs.
       if got \<noteq> ino then (Inl (Corrupt ''directory entry changed under us''), fs)
       else release_inode dev ino fs)"

text \<open>\<open>self.ready()\<close>, \<open>resolve_parent\<close>, \<open>check_mutable\<close>: how a path that will be removed is resolved.\<close>

definition victim_of :: "'d blockdevice \<Rightarrow> bytes \<Rightarrow> 'd fs3 \<Rightarrow> ('d fs3, fs_error, parent_ref) res" where
  "victim_of dev path fs =
     bindr (ready fs, fs) (\<lambda>_ fs.
     bindr (resolve_parent dev path fs) (\<lambda>p fs.
     bindr (check_mutable p, fs) (\<lambda>_ fs. (Inr p, fs))))"

text \<open>\<open>self.entry(dir, name)?.ok_or(NotFound)?\<close>.\<close>

definition entry_of :: "'d blockdevice \<Rightarrow> nat \<Rightarrow> bytes \<Rightarrow> 'd fs3 \<Rightarrow> ('d fs3, fs_error, nat \<times> kind) res" where
  "entry_of dev dir name fs = bindr (entry dev dir name fs) (\<lambda>hit fs. (ok_or hit NotFound, fs))"

definition fs_remove :: "'d blockdevice \<Rightarrow> bytes \<Rightarrow> 'd fs3 \<Rightarrow> ('d fs3, fs_error, unit) res" where
  "fs_remove dev path fs =
     bindr (victim_of dev path fs) (\<lambda>p fs.
       txn dev (\<lambda>fs. bindr (entry_of dev (pr_dir p) (pr_name p) fs) (\<lambda>(ino, kind) fs.
         if kind = Dir then (Inl IsDir, fs) else remove_entry dev (pr_dir p) (pr_name p) ino fs)) fs)"

definition fs_rmdir :: "'d blockdevice \<Rightarrow> bytes \<Rightarrow> 'd fs3 \<Rightarrow> ('d fs3, fs_error, unit) res" where
  "fs_rmdir dev path fs =
     bindr (victim_of dev path fs) (\<lambda>p fs.
       txn dev (\<lambda>fs. bindr (entry_of dev (pr_dir p) (pr_name p) fs) (\<lambda>(ino, kind) fs.
         if kind \<noteq> Dir then (Inl NotDir, fs) else remove_entry dev (pr_dir p) (pr_name p) ino fs)) fs)"

text \<open>
  One pass over the entries of a directory: its files are removed, each in a transaction of its
  own, and the first subdirectory is returned to be pushed on the stack.
\<close>

fun purge_entries :: "'d blockdevice \<Rightarrow> nat \<Rightarrow> (bytes \<times> nat \<times> kind) list \<Rightarrow> (nat \<times> nat \<times> bytes) option \<Rightarrow> 'd fs3 \<Rightarrow>
    ('d fs3, fs_error, (nat \<times> nat \<times> bytes) option) res" where
  "purge_entries dev dir [] pushed fs = (Inr pushed, fs)"
| "purge_entries dev dir ((n, i, k) # es) pushed fs =
     (if k = File then bindr (txn dev (remove_entry dev dir n i) fs) (\<lambda>_ fs. purge_entries dev dir es pushed fs)
      else purge_entries dev dir es (if pushed = None then Some (i, dir, n) else pushed) fs)"

text \<open>The stack has its top at the head.\<close>

fun purge_loop :: "'d blockdevice \<Rightarrow> nat \<Rightarrow> (nat \<times> nat \<times> bytes) list \<Rightarrow> 'd fs3 \<Rightarrow> ('d fs3, fs_error, unit) res" where
  "purge_loop dev budget [] fs = (Inr (), fs)"
| "purge_loop dev 0 (t # stack) fs = (Inl (Corrupt ''directory tree never ends''), fs)"
| "purge_loop dev (Suc budget) ((dir, parent, dname) # stack) fs =
     bindr (dir_list dev dir fs) (\<lambda>entries fs.
       if entries = [] then
         bindr (txn dev (remove_entry dev parent dname dir) fs) (\<lambda>_ fs. purge_loop dev budget stack fs)
       else bindr (purge_entries dev dir entries None fs) (\<lambda>pushed fs.
         purge_loop dev budget (case pushed of None \<Rightarrow> (dir, parent, dname) # stack
           | Some t \<Rightarrow> t # (dir, parent, dname) # stack) fs))"

definition purge_tree :: "'d blockdevice \<Rightarrow> nat \<Rightarrow> bytes \<Rightarrow> nat \<Rightarrow> kind \<Rightarrow> 'd fs3 \<Rightarrow> ('d fs3, fs_error, unit) res" where
  "purge_tree dev pdir name ino kind fs =
     (if kind = File then txn dev (remove_entry dev pdir name ino) fs
      else purge_loop dev (inode_count (f_geo fs) * 4 + 16) [(ino, pdir, name)] fs)"

definition remove_all :: "'d blockdevice \<Rightarrow> bytes \<Rightarrow> 'd fs3 \<Rightarrow> ('d fs3, fs_error, unit) res" where
  "remove_all dev path fs =
     bindr (victim_of dev path fs) (\<lambda>p fs.
     bindr (entry_of dev (pr_dir p) (pr_name p) fs) (\<lambda>(ino, kind) fs.
       purge_tree dev (pr_dir p) (pr_name p) ino kind fs))"

subsection \<open>Renaming\<close>

text \<open>The climb from the destination to the root; \<open>left\<close> is \<open>inode_count - steps\<close>.\<close>

fun climb :: "'d blockdevice \<Rightarrow> nat \<Rightarrow> nat \<Rightarrow> nat \<Rightarrow> 'd fs3 \<Rightarrow> ('d fs3, fs_error, unit) res" where
  "climb dev ino 0 cur fs =
     (if cur = ROOT_INO then (Inr (), fs)
      else if cur = ino then (Inl InvalidMove, fs)
      else (Inl (Corrupt ''parent chain loops''), fs))"
| "climb dev ino (Suc left) cur fs =
     (if cur = ROOT_INO then (Inr (), fs)
      else if cur = ino then (Inl InvalidMove, fs)
      else bindr (read_child dev cur fs) (\<lambda>n fs. climb dev ino left (i_parent n) fs))"

definition move_entry :: "'d blockdevice \<Rightarrow> parent_ref \<Rightarrow> parent_ref \<Rightarrow> nat \<Rightarrow> 'd fs3 \<Rightarrow> ('d fs3, fs_error, unit) res" where
  "move_entry dev s d now fs =
     bindr (entry_of dev (pr_dir s) (pr_name s) fs) (\<lambda>(ino, kind) fs.
       if pr_dir s = pr_dir d \<and> pr_name s = pr_name d then (Inr (), fs)
       else bindr (read_inode dev (pr_dir d) fs) (\<lambda>dd fs.
         if i_kind dd \<noteq> Dir then (Inl NotDir, fs)
         else bindr (dir_find dev (pr_dir d) dd (pr_name d) fs) (\<lambda>hit fs.
           if hit \<noteq> None then (Inl Exists, fs)
           else bindr (if kind = Dir
               then bindr (climb dev ino (inode_count (f_geo fs)) (pr_dir d) fs) (\<lambda>_ fs.
                 if ino = ROOT_INO then (Inl InvalidMove, fs) else (Inr (), fs))
               else (Inr (), fs)) (\<lambda>_ fs.
             bindr (dir_remove dev (pr_dir s) (pr_name s) fs) (\<lambda>_ fs.
             bindr (dir_insert dev (pr_dir d) (pr_name d) ino kind now fs) (\<lambda>_ fs.
             bindr (read_child dev ino fs) (\<lambda>n fs.
               write_inode dev ino (n\<lparr>i_parent := pr_dir d\<rparr>) fs)))))))"

definition rename :: "'d blockdevice \<Rightarrow> bytes \<Rightarrow> bytes \<Rightarrow> nat \<Rightarrow> 'd fs3 \<Rightarrow> ('d fs3, fs_error, unit) res" where
  "rename dev src dst now fs =
     bindr (ready fs, fs) (\<lambda>_ fs.
     bindr (resolve_parent dev src fs) (\<lambda>s fs.
     bindr (resolve_parent dev dst fs) (\<lambda>d fs.
     bindr (check_name (pr_name d), fs) (\<lambda>_ fs.
     bindr (check_mutable s, fs) (\<lambda>_ fs.
     bindr (check_mutable d, fs) (\<lambda>_ fs. txn dev (move_entry dev s d now) fs))))))"

subsection \<open>The trash\<close>

text \<open>\<open>format!("{n}")\<close>: the decimal digits of a number.\<close>

fun decimal :: "nat \<Rightarrow> bytes" where
  "decimal n = (if n < 10 then [word_of_nat (48 + n)] else decimal (n div 10) @ [word_of_nat (48 + n mod 10)])"

declare decimal.simps [simp del]

definition trash_candidate :: "bytes \<Rightarrow> nat \<Rightarrow> bytes" where
  "trash_candidate name n =
     (let suffix = 0x7E # decimal n; keep = MAX_NAME - length suffix
      in take (min (length name) keep) name @ suffix)"

fun trash_names :: "'d blockdevice \<Rightarrow> bytes \<Rightarrow> nat \<Rightarrow> nat \<Rightarrow> 'd fs3 \<Rightarrow> ('d fs3, fs_error, bytes) res" where
  "trash_names dev name n 0 fs = (Inl Exists, fs)"
| "trash_names dev name n (Suc left) fs =
     bindr (entry dev TRASH_INO (trash_candidate name n) fs) (\<lambda>hit fs.
       if hit = None then (Inr (trash_candidate name n), fs) else trash_names dev name (n + 1) left fs)"

definition unique_trash_name :: "'d blockdevice \<Rightarrow> bytes \<Rightarrow> 'd fs3 \<Rightarrow> ('d fs3, fs_error, bytes) res" where
  "unique_trash_name dev name fs =
     bindr (entry dev TRASH_INO name fs) (\<lambda>hit fs.
       if hit = None then (Inr name, fs) else trash_names dev name 2 (100000 - 1) fs)"

definition trash_entry_of :: "'d blockdevice \<Rightarrow> parent_ref \<Rightarrow> nat \<Rightarrow> 'd fs3 \<Rightarrow> ('d fs3, fs_error, unit) res" where
  "trash_entry_of dev p now fs =
     bindr (entry_of dev (pr_dir p) (pr_name p) fs) (\<lambda>(ino, kind) fs.
     bindr (unique_trash_name dev (pr_name p) fs) (\<lambda>tname fs.
     bindr (dir_remove dev (pr_dir p) (pr_name p) fs) (\<lambda>_ fs.
     bindr (dir_insert dev TRASH_INO tname ino kind now fs) (\<lambda>_ fs.
     bindr (read_child dev ino fs) (\<lambda>n fs.
     bindr (read_inode dev (pr_dir p) fs) (\<lambda>pn fs.
       write_inode dev ino (n\<lparr>i_flags := i_flags n OR FLAG_TRASHED, i_trash_parent := pr_dir p, i_trash_time := now,
         i_trash_pctime := as_u32 (i_ctime pn), i_trash_name := pr_name p, i_parent := TRASH_INO\<rparr>) fs))))))"

definition fs_trash :: "'d blockdevice \<Rightarrow> bytes \<Rightarrow> nat \<Rightarrow> 'd fs3 \<Rightarrow> ('d fs3, fs_error, unit) res" where
  "fs_trash dev path now fs = bindr (victim_of dev path fs) (\<lambda>p fs. txn dev (trash_entry_of dev p now) fs)"

definition is_trashed :: "inode \<Rightarrow> bool" where
  "is_trashed n \<longleftrightarrow> i_flags n AND FLAG_TRASHED \<noteq> 0 \<and> i_trash_name n \<noteq> []"

fun trash_list_in :: "'d blockdevice \<Rightarrow> (bytes \<times> nat \<times> kind) list \<Rightarrow> trash_entry list \<Rightarrow> 'd fs3 \<Rightarrow>
    ('d fs3, fs_error, trash_entry list) res" where
  "trash_list_in dev [] out fs = (Inr out, fs)"
| "trash_list_in dev ((name, ino, kind) # es) out fs =
     bindr (read_child dev ino fs) (\<lambda>n fs.
       trash_list_in dev es (out @ [\<lparr>te_trash_name = name,
         te_orig_name = (if is_trashed n then i_trash_name n else name),
         te_orig_parent = (if is_trashed n then i_trash_parent n else ROOT_INO),
         te_ino = ino, te_kind = kind, te_size = i_size n, te_deleted_at = i_trash_time n\<rparr>]) fs)"

definition trash_list :: "'d blockdevice \<Rightarrow> 'd fs3 \<Rightarrow> ('d fs3, fs_error, trash_entry list) res" where
  "trash_list dev fs =
     bindr (ready fs, fs) (\<lambda>_ fs. bindr (dir_list dev TRASH_INO fs) (\<lambda>es fs. trash_list_in dev es [] fs))"

definition restore_target :: "'d blockdevice \<Rightarrow> inode \<Rightarrow> bytes \<Rightarrow> 'd fs3 \<Rightarrow> ('d fs3, fs_error, nat \<times> bytes) res" where
  "restore_target dev n trash_name fs =
     (if is_trashed n then
        (case is_live_dir dev (i_trash_parent n) fs of
           (False, fs) \<Rightarrow> (Inr (ROOT_INO, i_trash_name n), fs)
         | (True, fs) \<Rightarrow>
             bindr (read_inode dev (i_trash_parent n) fs) (\<lambda>p fs.
               (Inr (if as_u32 (i_ctime p) = i_trash_pctime n then i_trash_parent n else ROOT_INO, i_trash_name n), fs)))
      else (Inr (ROOT_INO, trash_name), fs))"

definition restore_entry :: "'d blockdevice \<Rightarrow> bytes \<Rightarrow> nat \<Rightarrow> 'd fs3 \<Rightarrow> ('d fs3, fs_error, bytes) res" where
  "restore_entry dev trash_name now fs =
     bindr (entry_of dev TRASH_INO trash_name fs) (\<lambda>(ino, kind) fs.
     bindr (read_child dev ino fs) (\<lambda>n fs.
     bindr (restore_target dev n trash_name fs) (\<lambda>(dest, name) fs.
       if dest = ROOT_INO \<and> name = TRASH_NAME then (Inl Reserved, fs)
       else bindr (entry dev dest name fs) (\<lambda>hit fs.
         if hit \<noteq> None then (Inl Exists, fs)
         else bindr (dir_remove dev TRASH_INO trash_name fs) (\<lambda>_ fs.
         bindr (dir_insert dev dest name ino kind now fs) (\<lambda>_ fs.
         bindr (write_inode dev ino (n\<lparr>i_flags := i_flags n AND NOT FLAG_TRASHED, i_parent := dest, i_trash_parent := 0,
           i_trash_time := 0, i_trash_pctime := 0, i_trash_name := []\<rparr>) fs) (\<lambda>_ fs.
           path_of dev ino fs)))))))"

definition trash_restore :: "'d blockdevice \<Rightarrow> bytes \<Rightarrow> nat \<Rightarrow> 'd fs3 \<Rightarrow> ('d fs3, fs_error, bytes) res" where
  "trash_restore dev trash_name now fs =
     bindr (ready fs, fs) (\<lambda>_ fs. txn dev (restore_entry dev trash_name now) fs)"

definition trash_purge :: "'d blockdevice \<Rightarrow> bytes \<Rightarrow> 'd fs3 \<Rightarrow> ('d fs3, fs_error, unit) res" where
  "trash_purge dev trash_name fs =
     bindr (ready fs, fs) (\<lambda>_ fs.
     bindr (entry_of dev TRASH_INO trash_name fs) (\<lambda>(ino, kind) fs.
       purge_tree dev TRASH_INO trash_name ino kind fs))"

fun purge_all :: "'d blockdevice \<Rightarrow> (bytes \<times> nat \<times> kind) list \<Rightarrow> 'd fs3 \<Rightarrow> ('d fs3, fs_error, unit) res" where
  "purge_all dev [] fs = (Inr (), fs)"
| "purge_all dev ((name, ino, kind) # es) fs =
     bindr (purge_tree dev TRASH_INO name ino kind fs) (\<lambda>_ fs. purge_all dev es fs)"

definition empty_trash :: "'d blockdevice \<Rightarrow> 'd fs3 \<Rightarrow> ('d fs3, fs_error, unit) res" where
  "empty_trash dev fs =
     bindr (ready fs, fs) (\<lambda>_ fs. bindr (dir_list dev TRASH_INO fs) (\<lambda>es fs. purge_all dev es fs))"

end
