(* ===== verification/Fsck.thy ===== *)
theory Fsck
  imports Removal
begin

unbundle bit_operations_syntax

text \<open>
  The consistency checker (\<^verbatim>\<open>fs3/fsck.rs\<close>).  Its six numbered steps are one definition each;
  the walk of step 4 is a recursive function whose termination proof is the argument of the
  source comment: every inode is expanded at most once, cycles included.
\<close>

subsection \<open>The report\<close>

definition MAX_ISSUES :: nat where "MAX_ISSUES = 64"

record fsck_issue =
  fi_what :: string
  fi_ino :: nat
  fi_block :: nat

record fsck_report =
  fr_issues :: "fsck_issue list"
  fr_total_issues :: nat
  fr_inodes_checked :: nat
  fr_files :: nat
  fr_dirs :: nat
  fr_extents :: nat
  fr_data_blocks :: nat

definition report_default :: fsck_report where
  "report_default = \<lparr>fr_issues = [], fr_total_issues = 0, fr_inodes_checked = 0, fr_files = 0, fr_dirs = 0,
     fr_extents = 0, fr_data_blocks = 0\<rparr>"

definition is_clean :: "fsck_report \<Rightarrow> bool" where
  "is_clean r \<longleftrightarrow> fr_total_issues r = 0"

definition has_issue :: "fsck_report \<Rightarrow> string \<Rightarrow> bool" where
  "has_issue r what \<longleftrightarrow> list_ex (\<lambda>i. fi_what i = what) (fr_issues r)"

definition rep_add :: "string \<Rightarrow> nat \<Rightarrow> nat \<Rightarrow> fsck_report \<Rightarrow> fsck_report" where
  "rep_add what ino block r =
     (let r = r\<lparr>fr_total_issues := fr_total_issues r + 1\<rparr> in
      if length (fr_issues r) < MAX_ISSUES
      then r\<lparr>fr_issues := fr_issues r @ [\<lparr>fi_what = what, fi_ino = ino, fi_block = block\<rparr>]\<rparr> else r)"

definition rep_add_if :: "bool \<Rightarrow> string \<Rightarrow> nat \<Rightarrow> nat \<Rightarrow> fsck_report \<Rightarrow> fsck_report" where
  "rep_add_if c what ino block r = (if c then rep_add what ino block r else r)"

text \<open>\<open>match r { Ok(x) => x, Err(Io(e)) => return Err(Io(e)), Err(_) => ... }\<close>: \<open>None\<close> is the last arm.\<close>

definition soft :: "('d fs3, fs_error, 'a) res \<Rightarrow> ('d fs3, fs_error, 'a option) res" where
  "soft r = (case r of (Inr x, fs) \<Rightarrow> (Inr (Some x), fs) | (Inl (Io e), fs) \<Rightarrow> (Inl (Io e), fs) | (Inl _, fs) \<Rightarrow> (Inr None, fs))"

subsection \<open>Steps 1 and 2: the journal and the bitmaps\<close>

definition fsck_journal :: "'d blockdevice \<Rightarrow> fsck_report \<Rightarrow> 'd fs3 \<Rightarrow> ('d fs3, fs_error, fsck_report) res" where
  "fsck_journal dev rep fs =
     (let g = f_geo fs in
      bindr (lift_io (bc_read dev (jhdr g) (f_cache fs)) fs) (\<lambda>h fs.
        case parse_journal_header h (journal_blocks g) of
          None \<Rightarrow> (Inr rep, fs)
        | Some p \<Rightarrow>
            let n = length (jh_targets p) in
            if 0 < n then
              bindr (lift_io (read_many dev (jpayload g) (n * BLOCK_SIZE) (f_cache fs)) fs) (\<lambda>payload fs.
                (Inr (rep_add_if (journal_crc_ok h payload) ''journal holds a committed, unretired transaction'' 0 (jhdr g) rep), fs))
            else (Inr rep, fs)))"

definition fsck_bitmap_block :: "string \<Rightarrow> nat \<Rightarrow> bytes \<Rightarrow> nat \<Rightarrow> bitmap \<times> fsck_report \<Rightarrow> bitmap \<times> fsck_report" where
  "fsck_bitmap_block what start raw i br =
     (case br of (bits, rep) \<Rightarrow>
        case load_bitmap_block (get_slice (i * BLOCK_SIZE) BLOCK_SIZE raw) i bits of
          Inl _ \<Rightarrow> (bits, rep_add what 0 (u32_add start i) rep)
        | Inr bits \<Rightarrow> (bits, rep))"

definition fsck_bitmap :: "'d blockdevice \<Rightarrow> string \<Rightarrow> nat \<Rightarrow> nat \<Rightarrow> nat \<Rightarrow> fsck_report \<Rightarrow> 'd fs3 \<Rightarrow>
    ('d fs3, fs_error, bitmap \<times> fsck_report) res" where
  "fsck_bitmap dev what start blocks n rep fs =
     bindr (lift_io (read_many dev start (blocks * BLOCK_SIZE) (f_cache fs)) fs) (\<lambda>raw fs.
       let (bits, rep) = fold (fsck_bitmap_block what start raw) [0..<blocks] (bits_new n, rep)
       in (Inr (fix_padding bits n, rep), fs))"

definition fsck_bitmaps :: "'d blockdevice \<Rightarrow> fsck_report \<Rightarrow> 'd fs3 \<Rightarrow> ('d fs3, fs_error, bitmap \<times> bitmap \<times> fsck_report) res" where
  "fsck_bitmaps dev rep fs =
     (let g = f_geo fs in
      bindr (fsck_bitmap dev ''block bitmap checksum'' (bbitmap_start g) (bbitmap_blocks g) (total_blocks g) rep fs) (\<lambda>(disk_b, rep) fs.
      bindr (fsck_bitmap dev ''inode bitmap checksum'' (ibitmap_start g) (ibitmap_blocks g) (inode_count g) rep fs) (\<lambda>(disk_i, rep) fs.
        let rep = rep_add_if (disk_b \<noteq> f_bbits fs \<or> disk_i \<noteq> f_ibits fs) ''in-memory bitmaps differ from the medium'' 0 0 rep;
            rep = rep_add_if (f_free_blocks fs \<noteq> count_free disk_b (total_blocks g)) ''free block counter'' 0 0 rep;
            rep = rep_add_if (f_free_inodes fs \<noteq> count_free disk_i (inode_count g)) ''free inode counter'' 0 0 rep
        in (Inr (disk_b, disk_i, rep), fs))))"

subsection \<open>Step 4: the walk\<close>

record walk_state =
  ws_refs :: "nat list"
  ws_visited :: "nat list"
  ws_stack :: "nat list"
  ws_saw_trash :: nat
  ws_rep :: fsck_report

abbreviation ws_add :: "string \<Rightarrow> nat \<Rightarrow> nat \<Rightarrow> walk_state \<Rightarrow> walk_state" where
  "ws_add what ino block w \<equiv> w\<lparr>ws_rep := rep_add what ino block (ws_rep w)\<rparr>"

abbreviation ws_add_if :: "bool \<Rightarrow> string \<Rightarrow> nat \<Rightarrow> nat \<Rightarrow> walk_state \<Rightarrow> walk_state" where
  "ws_add_if c what ino block w \<equiv> w\<lparr>ws_rep := rep_add_if c what ino block (ws_rep w)\<rparr>"

definition fsck_child :: "nat \<Rightarrow> nat \<Rightarrow> kind \<Rightarrow> inode \<Rightarrow> walk_state \<Rightarrow> walk_state" where
  "fsck_child dir_ino ino kind child w =
     (let w = ws_add_if (i_kind child \<noteq> kind) ''entry kind differs from inode kind'' ino 0 w;
          w = ws_add_if (i_parent child \<noteq> dir_ino) ''inode parent pointer'' ino 0 w;
          w = ws_add_if (i_nlink child \<noteq> 1) ''link count'' ino 0 w;
          flagged = (i_flags child AND FLAG_TRASHED \<noteq> 0);
          w = ws_add_if ((dir_ino = TRASH_INO) \<noteq> flagged) ''trash flag disagrees with the location'' ino 0 w;
          w = ws_add_if (flagged \<and> i_trash_name child = []) ''trashed entry lacks its original name'' ino 0 w
      in if i_kind child = Dir then w\<lparr>ws_stack := ino # ws_stack w\<rparr>
         else w\<lparr>ws_visited := ws_visited w @ [ino], ws_rep := (ws_rep w)\<lparr>fr_files := fr_files (ws_rep w) + 1\<rparr>\<rparr>)"

definition fsck_name :: "nat \<Rightarrow> bytes list \<Rightarrow> bytes \<Rightarrow> walk_state \<Rightarrow> walk_state" where
  "fsck_name dir_ino names name w =
     (let w = ws_add_if (check_name name \<noteq> Inr ()) ''invalid name in directory'' dir_ino 0 w
      in ws_add_if (name \<in> set names) ''duplicate name in directory'' dir_ino 0 w)"

definition fsck_trash_name :: "nat \<Rightarrow> bytes \<Rightarrow> nat \<Rightarrow> walk_state \<Rightarrow> walk_state" where
  "fsck_trash_name dir_ino name ino w =
     (if dir_ino = ROOT_INO \<and> name = TRASH_NAME
      then ws_add_if (ino \<noteq> TRASH_INO) ''.trash entry is not the trash inode'' ino 0 (w\<lparr>ws_saw_trash := ws_saw_trash w + 1\<rparr>)
      else w)"

text \<open>\<open>refs\<close> has \<open>n_ino + 1\<close> cells, so \<open>n_ino\<close> is its length less one.\<close>

definition fsck_entry :: "'d blockdevice \<Rightarrow> bitmap \<Rightarrow> nat \<Rightarrow> bytes list \<Rightarrow> bytes \<times> nat \<times> kind \<Rightarrow> walk_state \<Rightarrow> 'd fs3 \<Rightarrow>
    ('d fs3, fs_error, walk_state) res" where
  "fsck_entry dev disk_i dir_ino names e w fs =
     (case e of (name, ino, kind) \<Rightarrow>
        let w = fsck_name dir_ino names name w in
        if ino = 0 \<or> length (ws_refs w) - 1 < ino \<or> \<not> bits_get disk_i (ino - 1)
        then (Inr (ws_add ''entry points at an unallocated inode'' ino 0 w), fs)
        else
          let w = fsck_trash_name dir_ino name ino w;
              n = min (ws_refs w ! ino + 1) 255;
              w = w\<lparr>ws_refs := (ws_refs w)[ino := n]\<rparr>
          in if 1 < n then (Inr (ws_add ''inode referenced more than once'' ino 0 w), fs)
             else bindr (soft (read_inode dev ino fs)) (\<lambda>child fs.
               case child of
                 None \<Rightarrow> (Inr (ws_add ''inode checksum'' ino 0 w), fs)
               | Some child \<Rightarrow> (Inr (fsck_child dir_ino ino kind child w), fs)))"

fun fsck_entries :: "'d blockdevice \<Rightarrow> bitmap \<Rightarrow> nat \<Rightarrow> bytes list \<Rightarrow> (bytes \<times> nat \<times> kind) list \<Rightarrow> walk_state \<Rightarrow> 'd fs3 \<Rightarrow>
    ('d fs3, fs_error, walk_state) res" where
  "fsck_entries dev disk_i dir_ino names [] w fs = (Inr w, fs)"
| "fsck_entries dev disk_i dir_ino names (e # es) w fs =
     bindr (fsck_entry dev disk_i dir_ino names e w fs) (\<lambda>w fs. fsck_entries dev disk_i dir_ino (fst e # names) es w fs)"

text \<open>The body of the loop, for the directory popped from the stack.\<close>

definition fsck_dir :: "'d blockdevice \<Rightarrow> bitmap \<Rightarrow> nat \<Rightarrow> walk_state \<Rightarrow> 'd fs3 \<Rightarrow> ('d fs3, fs_error, walk_state) res" where
  "fsck_dir dev disk_i dir_ino w fs =
     (let w = w\<lparr>ws_visited := ws_visited w @ [dir_ino]\<rparr> in
      bindr (soft (read_inode dev dir_ino fs)) (\<lambda>dir fs.
        case dir of
          None \<Rightarrow> (Inr (ws_add ''directory inode unreadable'' dir_ino 0 w), fs)
        | Some dir \<Rightarrow>
            if i_kind dir \<noteq> Dir then (Inr (ws_add ''directory entry expects a directory'' dir_ino 0 w), fs)
            else
              let w = w\<lparr>ws_rep := (ws_rep w)\<lparr>fr_dirs := fr_dirs (ws_rep w) + 1\<rparr>\<rparr>;
                  w = ws_add_if (i_size dir \<noteq> i_nblocks dir * BLOCK_SIZE) ''directory size != blocks'' dir_ino 0 w
              in bindr (soft (dir_list dev dir_ino fs)) (\<lambda>entries fs.
                   case entries of
                     None \<Rightarrow> (Inr (ws_add ''directory content unreadable'' dir_ino 0 w), fs)
                   | Some entries \<Rightarrow>
                       fsck_entries dev disk_i dir_ino [] entries
                         (ws_add_if (length entries \<noteq> i_nentries dir) ''directory entry count'' dir_ino 0 w) fs)))"

text \<open>Inodes not yet referenced, plus directories on the stack: what the walk still has to do.\<close>

definition walk_left :: "walk_state \<Rightarrow> nat" where
  "walk_left w = length (filter (\<lambda>n. n = 0) (ws_refs w)) + length (ws_stack w)"

lemma filter_update_le:
  "i < length xs \<Longrightarrow> xs ! i = 0 \<Longrightarrow> 0 < v \<Longrightarrow> length (filter (\<lambda>n. n = 0) (xs[i := v])) + 1 = length (filter (\<lambda>n. n = (0 :: nat)) xs)"
proof (induction xs arbitrary: i)
  case (Cons x xs)
  then show ?case by (cases i) auto
qed simp

lemma filter_update_pos:
  "0 < xs ! i \<Longrightarrow> 0 < v \<Longrightarrow> length (filter (\<lambda>n. n = 0) (xs[i := v])) = length (filter (\<lambda>n. n = (0 :: nat)) xs)"
proof (induction xs arbitrary: i)
  case (Cons x xs)
  then show ?case by (cases i) auto
qed simp

lemma fsck_steps_refs [simp]:
  "ws_refs (fsck_child d i k c w) = ws_refs w" "ws_refs (fsck_name d ns n w) = ws_refs w"
  "ws_refs (fsck_trash_name d n i w) = ws_refs w"
  by (simp_all add: fsck_child_def fsck_name_def fsck_trash_name_def Let_def)

lemma fsck_steps_stack [simp]:
  "ws_stack (fsck_name d ns n w) = ws_stack w" "ws_stack (fsck_trash_name d n i w) = ws_stack w"
  by (simp_all add: fsck_name_def fsck_trash_name_def Let_def)

lemma fsck_child_stack: "length (ws_stack (fsck_child d i k c w)) \<le> Suc (length (ws_stack w))"
  by (simp add: fsck_child_def Let_def)

lemma fsck_entry_left:
  assumes "fsck_entry dev disk_i dir_ino names (name, ino, kind) w fs = (Inr w', fs')"
  shows "walk_left w' \<le> walk_left w"
proof -
  define w1 where "w1 = fsck_trash_name dir_ino name ino (fsck_name dir_ino names name w)"
  have w1: "ws_refs w1 = ws_refs w" "ws_stack w1 = ws_stack w"
    by (simp_all add: w1_def)
  consider "ws_refs w' = ws_refs w \<and> ws_stack w' = ws_stack w"
    | "ino < length (ws_refs w)" "0 < ws_refs w ! ino" "ws_stack w' = ws_stack w"
      "ws_refs w' = (ws_refs w)[ino := min (ws_refs w ! ino + 1) 255]"
    | "ino < length (ws_refs w)" "ws_refs w ! ino = 0" "length (ws_stack w') \<le> length (ws_stack w) + 1"
      "ws_refs w' = (ws_refs w)[ino := 1]"
  proof -
    have *: "(case child of None \<Rightarrow> (Inr (ws_add what ino 0 v), s) | Some child \<Rightarrow> (Inr (fsck_child dir_ino ino kind child v), s)) = (Inr w', fs') \<Longrightarrow>
        length (ws_stack w') \<le> length (ws_stack v) + 1 \<and> ws_refs w' = ws_refs v" for child v s what
      by (auto simp: fsck_child_stack split: option.splits)
    show thesis
    proof (cases "ino = 0 \<or> length (ws_refs w) - 1 < ino \<or> \<not> bits_get disk_i (ino - 1)")
      case True
      with assms have "ws_refs w' = ws_refs w \<and> ws_stack w' = ws_stack w"
        by (auto simp: fsck_entry_def Let_def)
      then show thesis by (rule that(1))
    next
      case False
      then have i: "ino < length (ws_refs w)" by auto
      show thesis
      proof (cases "ws_refs w ! ino = 0")
        case True
        from assms False True have "length (ws_stack w') \<le> length (ws_stack w) + 1 \<and> ws_refs w' = (ws_refs w)[ino := 1]"
          by (auto simp: fsck_entry_def Let_def w1_def [symmetric] w1 dest!: * elim!: bindr_InrE)
        with i True that(3) show thesis by blast
      next
        case pos: False
        with assms False have "ws_stack w' = ws_stack w \<and> ws_refs w' = (ws_refs w)[ino := min (ws_refs w ! ino + 1) 255]"
          by (auto simp: fsck_entry_def Let_def w1_def [symmetric] w1)
        with i pos that(2) show thesis by simp
      qed
    qed
  qed
  then show ?thesis
  proof cases
    case 2
    then show ?thesis by (simp add: walk_left_def filter_update_pos)
  next
    case 3
    then show ?thesis using filter_update_le [OF 3(1,2), of 1] by (simp add: walk_left_def)
  qed (simp add: walk_left_def)
qed

lemma fsck_entries_left:
  "fsck_entries dev disk_i dir_ino names es w fs = (Inr w', fs') \<Longrightarrow> walk_left w' \<le> walk_left w"
proof (induction es arbitrary: names w fs)
  case (Cons e es)
  then show ?case
    by (cases e) (auto simp: bindr_Inr_iff dest!: fsck_entry_left intro: le_trans)
qed simp

lemma fsck_dir_left:
  assumes "fsck_dir dev disk_i dir_ino w fs = (Inr w', fs')"
  shows "walk_left w' \<le> walk_left w"
proof -
  have add: "walk_left (w\<lparr>ws_visited := v, ws_rep := r\<rparr>) = walk_left w" for v r
    by (simp add: walk_left_def)
  show ?thesis
    using assms unfolding fsck_dir_def Let_def
    by (elim bindr_InrE) (auto simp: add elim!: bindr_InrE split: option.splits if_splits dest!: fsck_entries_left)
qed

function fsck_walk :: "'d blockdevice \<Rightarrow> bitmap \<Rightarrow> walk_state \<Rightarrow> 'd fs3 \<Rightarrow> ('d fs3, fs_error, walk_state) res" where
  "fsck_walk dev disk_i w fs =
     (case ws_stack w of
        [] \<Rightarrow> (Inr w, fs)
      | dir_ino # stack \<Rightarrow>
          bindr (fsck_dir dev disk_i dir_ino (w\<lparr>ws_stack := stack\<rparr>) fs) (\<lambda>w fs. fsck_walk dev disk_i w fs))"
  by auto
termination
proof (relation "measure (\<lambda>(dev, disk_i, w, fs). walk_left w)", goal_cases)
  case (2 dev disk_i w fs dir_ino stack w' fs')
  then have "walk_left w' \<le> walk_left (w\<lparr>ws_stack := stack\<rparr>)"
    by (intro fsck_dir_left) auto
  with 2 show ?case by (simp add: walk_left_def)
qed simp

declare fsck_walk.simps [simp del]

definition fsck_tree :: "'d blockdevice \<Rightarrow> bitmap \<Rightarrow> fsck_report \<Rightarrow> 'd fs3 \<Rightarrow> ('d fs3, fs_error, walk_state) res" where
  "fsck_tree dev disk_i rep fs =
     bindr (fsck_walk dev disk_i \<lparr>ws_refs = (replicate (inode_count (f_geo fs) + 1) 0)[ROOT_INO := 1], ws_visited = [],
         ws_stack = [ROOT_INO], ws_saw_trash = 0, ws_rep = rep\<rparr> fs) (\<lambda>w fs.
       (Inr (ws_add_if (ws_saw_trash w \<noteq> 1) ''root must hold exactly one .trash entry'' ROOT_INO 0 w), fs))"

subsection \<open>Step 5: extents, sizes and ownership\<close>

definition claim_block :: "nat \<Rightarrow> nat \<Rightarrow> bitmap \<times> fsck_report \<Rightarrow> bitmap \<times> fsck_report" where
  "claim_block ino b cr =
     (case cr of (claimed, rep) \<Rightarrow>
        if bits_get claimed b then (claimed, rep_add ''block owned by two structures'' ino b rep)
        else (bits_set claimed b, rep\<lparr>fr_data_blocks := fr_data_blocks rep + 1\<rparr>))"

definition claim_all :: "nat \<Rightarrow> extent list \<Rightarrow> nat list \<Rightarrow> bitmap \<times> fsck_report \<Rightarrow> bitmap \<times> fsck_report" where
  "claim_all ino exts chain cr =
     fold (claim_block ino) chain
       (fold (\<lambda>e. fold (claim_block ino) [pblk e..<u32_add (pblk e) (elen e)]) exts cr)"

definition fsck_counts :: "nat \<Rightarrow> inode \<Rightarrow> extent list \<Rightarrow> nat list \<Rightarrow> fsck_report \<Rightarrow> fsck_report" where
  "fsck_counts ino node exts chain rep =
     (let rep = rep_add_if (sum_list (map elen exts) \<noteq> i_nblocks node) ''nblocks != sum of extent lengths'' ino 0 rep;
          rep = rep_add_if (i_nextents node \<noteq> length exts) ''nextents'' ino 0 rep;
          want_chain = length exts - INLINE_EXTENTS
      in rep_add_if (length chain \<noteq> div_ceil want_chain EXTENTS_PER_BLOCK) ''extent chain length'' ino 0 rep)"

definition fsck_tail :: "'d blockdevice \<Rightarrow> nat \<Rightarrow> inode \<Rightarrow> extent list \<Rightarrow> fsck_report \<Rightarrow> 'd fs3 \<Rightarrow> ('d fs3, fs_error, fsck_report) res" where
  "fsck_tail dev ino node exts rep fs =
     (if i_kind node \<noteq> File then (Inr rep, fs)
      else
        let need = div_ceil (i_size node) BLOCK_SIZE;
            rep = rep_add_if (exts \<noteq> [] \<and> need < lend (last exts)) ''extent beyond end of file'' ino 0 rep;
            rem = i_size node mod BLOCK_SIZE
        in if rem = 0 then (Inr rep, fs)
           else (case map_block exts (as_u32 (i_size node div BLOCK_SIZE)) of
               None \<Rightarrow> (Inr rep, fs)
             | Some pb \<Rightarrow>
                 bindr (lift_io (bc_read dev pb (f_cache fs)) fs) (\<lambda>blk fs.
                   (Inr (rep_add_if (list_ex (\<lambda>x. x \<noteq> 0) (drop rem blk)) ''non-zero bytes past end of file'' ino pb rep), fs))))"

definition fsck_inode :: "'d blockdevice \<Rightarrow> nat \<Rightarrow> bitmap \<times> fsck_report \<Rightarrow> 'd fs3 \<Rightarrow> ('d fs3, fs_error, bitmap \<times> fsck_report) res" where
  "fsck_inode dev ino cr fs =
     (case cr of (claimed, rep) \<Rightarrow>
        let rep = rep\<lparr>fr_inodes_checked := fr_inodes_checked rep + 1\<rparr> in
        bindr (soft (read_inode dev ino fs)) (\<lambda>node fs.
          case node of
            None \<Rightarrow> (Inr (claimed, rep), fs)
          | Some node \<Rightarrow>
              bindr (soft (load_extents dev ino node fs)) (\<lambda>exts fs.
                case exts of
                  None \<Rightarrow> (Inr (claimed, rep_add ''extent list invalid'' ino 0 rep), fs)
                | Some exts \<Rightarrow>
                    bindr (soft (walk_chain dev ino (i_ext_chain node) fs)) (\<lambda>chain fs.
                      case chain of
                        None \<Rightarrow> (Inr (claimed, rep_add ''extent chain invalid'' ino 0 rep), fs)
                      | Some chain \<Rightarrow>
                          let rep = rep\<lparr>fr_extents := fr_extents rep + length exts\<rparr>;
                              (claimed, rep) = claim_all ino exts chain (claimed, rep)
                          in bindr (fsck_tail dev ino node exts (fsck_counts ino node exts chain rep) fs) (\<lambda>rep fs.
                               (Inr (claimed, rep), fs))))))"

fun fsck_inodes :: "'d blockdevice \<Rightarrow> nat list \<Rightarrow> bitmap \<times> fsck_report \<Rightarrow> 'd fs3 \<Rightarrow> ('d fs3, fs_error, bitmap \<times> fsck_report) res" where
  "fsck_inodes dev [] cr fs = (Inr cr, fs)"
| "fsck_inodes dev (ino # inos) cr fs = bindr (fsck_inode dev ino cr fs) (\<lambda>cr fs. fsck_inodes dev inos cr fs)"

subsection \<open>Step 6: orphans and leaks\<close>

definition fsck_orphans :: "bitmap \<Rightarrow> nat list \<Rightarrow> nat \<Rightarrow> fsck_report \<Rightarrow> fsck_report" where
  "fsck_orphans disk_i refs n rep =
     fold (\<lambda>ino. rep_add_if (bits_get disk_i (ino - 1) \<and> refs ! ino = 0) ''allocated inode is unreachable'' ino 0) [1..<n + 1] rep"

definition fsck_word :: "bitmap \<Rightarrow> bitmap \<Rightarrow> nat \<Rightarrow> nat \<Rightarrow> fsck_report \<Rightarrow> fsck_report" where
  "fsck_word claimed disk_b n word rep =
     (if claimed ! word \<noteq> disk_b ! word then
        let diff = claimed ! word XOR disk_b ! word;
            b = word * 64 + trailing_zeros diff
        in if b < n then
             if bits_get claimed b then rep_add ''block in use but marked free'' 0 b rep
             else rep_add ''block marked used but unowned (leak)'' 0 b rep
           else rep
      else rep)"

definition fsck_leaks :: "bitmap \<Rightarrow> bitmap \<Rightarrow> nat \<Rightarrow> fsck_report \<Rightarrow> fsck_report" where
  "fsck_leaks claimed disk_b n rep = fold (fsck_word claimed disk_b n) [0..<length claimed] rep"

subsection \<open>The checker\<close>

definition fsck :: "'d blockdevice \<Rightarrow> 'd fs3 \<Rightarrow> ('d fs3, fs_error, fsck_report) res" where
  "fsck dev fs =
     bindr (ready fs, fs) (\<lambda>_ fs.
     bindr (fsck_journal dev report_default fs) (\<lambda>rep fs.
     bindr (fsck_bitmaps dev rep fs) (\<lambda>(disk_b, disk_i, rep) fs.
     bindr (fsck_tree dev disk_i rep fs) (\<lambda>w fs.
     bindr (fsck_inodes dev (ws_visited w) (fresh_bbits (f_geo fs), ws_rep w) fs) (\<lambda>(claimed, rep) fs.
       let rep = fsck_orphans disk_i (ws_refs w) (inode_count (f_geo fs)) rep
       in (Inr (fsck_leaks claimed disk_b (total_blocks (f_geo fs)) rep), fs))))))"

definition mount_verified :: "'d blockdevice \<Rightarrow> 'd \<Rightarrow> ('d, fs_error, 'd fs3) res" where
  "mount_verified dev d =
     bindr (mount dev d) (\<lambda>fs _.
       case fsck dev fs of
         (Inl e, fs) \<Rightarrow> (Inl e, bc_dev (f_cache fs))
       | (Inr rep, fs) \<Rightarrow>
           if is_clean rep then (Inr fs, bc_dev (f_cache fs))
           else (Inl (Corrupt ''fsck found problems''), bc_dev (f_cache fs)))"

end
