(* ===== verification/TxInv.thy ===== *)
theory TxInv
  imports Fsck
begin

text \<open>
  What every operation of the filesystem keeps.  A property of the filesystem state that the
  primitive steps of a transaction keep (cache reads, overlay writes, allocation, data writes to
  blocks the transaction has allocated) is kept by every operation built from them.  The
  primitives and their laws are the locale \<open>tx_invariant\<close>; the operations are proved once, inside
  it.
\<close>

named_theorems keep_intros \<open>what an operation leaves satisfies the invariant\<close>

subsection \<open>Sequencing\<close>

text \<open>\<open>ends I r\<close>: the state that \<open>r\<close> leaves, on success and on error, satisfies \<open>I\<close>.\<close>

definition ends :: "('s \<Rightarrow> bool) \<Rightarrow> ('s, 'e, 'a) res \<Rightarrow> bool" where
  "ends I r \<longleftrightarrow> I (snd r)"

lemma ends_ret [simp]: "ends I (x, s) = I s"
  by (simp add: ends_def)

lemma ends_bindr [keep_intros]:
  assumes "ends I r" and "\<And>x s. I s \<Longrightarrow> r = (Inr x, s) \<Longrightarrow> ends I (k x s)"
  shows "ends I (bindr r k)"
  using assms by (cases r) (auto simp: ends_def bindr_def split: sum.splits)

lemma ends_if [keep_intros]: "(b \<Longrightarrow> ends I r) \<Longrightarrow> (\<not> b \<Longrightarrow> ends I r') \<Longrightarrow> ends I (if b then r else r')"
  by simp

lemma ends_option [keep_intros]:
  "(x = None \<Longrightarrow> ends I r) \<Longrightarrow> (\<And>y. x = Some y \<Longrightarrow> ends I (f y)) \<Longrightarrow> ends I (case x of None \<Rightarrow> r | Some y \<Rightarrow> f y)"
  by (cases x) auto

lemma ends_prod [keep_intros]: "(\<And>a b. p = (a, b) \<Longrightarrow> ends I (f a b)) \<Longrightarrow> ends I (case p of (a, b) \<Rightarrow> f a b)"
  by (cases p) auto

lemma ends_prod_app [keep_intros]: "(\<And>a b. p = (a, b) \<Longrightarrow> ends I (f a b s)) \<Longrightarrow> ends I ((case p of (a, b) \<Rightarrow> f a b) s)"
  by (cases p) auto

lemma ends_sum [keep_intros]:
  "(\<And>e. x = Inl e \<Longrightarrow> ends I (f e)) \<Longrightarrow> (\<And>y. x = Inr y \<Longrightarrow> ends I (g y)) \<Longrightarrow> ends I (case x of Inl e \<Rightarrow> f e | Inr y \<Rightarrow> g y)"
  by (cases x) auto

lemma ends_let [keep_intros]: "(\<And>y. y = x \<Longrightarrow> ends I (f y)) \<Longrightarrow> ends I (let y = x in f y)"
  by simp

lemma ends_kind [keep_intros]:
  "(k = File \<Longrightarrow> ends I r) \<Longrightarrow> (k = Dir \<Longrightarrow> ends I r') \<Longrightarrow> ends I (case k of File \<Rightarrow> r | Dir \<Rightarrow> r')"
  by (cases k) auto

lemma ends_lift_io: "ends I (lift_io r fs) = I (fs\<lparr>f_cache := snd r\<rparr>)"
  by (cases r) (auto simp: lift_io_def ends_def split: sum.splits)

lemma runs_in_mem: "(p, l) \<in> set rs \<Longrightarrow> k < l \<Longrightarrow> p + k \<in> runs_in rs"
  by (auto simp: runs_in_def intro!: bexI [of _ "(p, l)"])

definition data_block :: "'d fs3 \<Rightarrow> nat \<Rightarrow> bool" where
  "data_block fs b \<longleftrightarrow> b \<in> runs_in (tx_data (f_tx fs))"

abbreviation add_data :: "(nat \<times> nat) list \<Rightarrow> 'd fs3 \<Rightarrow> 'd fs3" where
  "add_data runs fs \<equiv> tx_upd (\<lambda>t. t\<lparr>tx_data := tx_data t @ runs\<rparr>) fs"

abbreviation log_inode :: "nat \<Rightarrow> bool \<Rightarrow> 'd fs3 \<Rightarrow> txrec" where
  "log_inode i now fs \<equiv> (f_tx fs)\<lparr>tx_ilog := tx_ilog (f_tx fs) @ [(i, now)],
     tx_touched_ib := bs_insert (i div BITS_PER_BITMAP_BLOCK) (tx_touched_ib (f_tx fs))\<rparr>"

lemma ends_conj: "ends I r \<Longrightarrow> ends J r \<Longrightarrow> ends (\<lambda>s. I s \<and> J s) r"
  by (simp add: ends_def)

lemma endsD: "ends I (x, s) \<Longrightarrow> I s"
  by simp

text \<open>Cache operations leave the transaction as it is.\<close>

abbreviation same_tx :: "txrec \<Rightarrow> 'd fs3 \<Rightarrow> bool" where
  "same_tx T \<equiv> \<lambda>s. f_tx s = T"

lemma same_tx_io: "f_tx fs = T \<Longrightarrow> ends (same_tx T) (lift_io r fs)"
  by (simp add: ends_lift_io)

lemma same_tx_fill_block: "f_tx fs = T \<Longrightarrow> ends (same_tx T) (fill_block dev exts off en data cur fs)"
  unfolding fill_block_def old_block_def Let_def by (intro keep_intros same_tx_io) auto

lemma same_tx_fill_blocks: "f_tx fs = T \<Longrightarrow> ends (same_tx T) (fill_blocks dev exts off en data lb ks buf fs)"
proof (induction ks arbitrary: buf fs)
  case (Cons k ks)
  show ?case unfolding fill_blocks.simps using Cons.prems by (intro ends_bindr same_tx_fill_block Cons.IH)
qed simp

subsection \<open>The primitive steps\<close>

text \<open>Reading: what the operations that only look keep.\<close>

locale read_invariant =
  fixes dev :: "'d blockdevice" and I :: "'d fs3 \<Rightarrow> bool"
  assumes io_read: "I fs \<Longrightarrow> I (fs\<lparr>f_cache := snd (bc_read dev b (f_cache fs))\<rparr>)"
    and io_get: "I fs \<Longrightarrow> I (fs\<lparr>f_cache := snd (bc_get dev b (f_cache fs))\<rparr>)"
    and io_get_tagged: "I fs \<Longrightarrow> I (fs\<lparr>f_cache := snd (bc_get_tagged dev b (f_cache fs))\<rparr>)"
    and io_set_tag: "I fs \<Longrightarrow> I (fs\<lparr>f_cache := bc_set_tag b t (f_cache fs)\<rparr>)"
    and io_read_many: "I fs \<Longrightarrow> I (fs\<lparr>f_cache := snd (read_many dev b n (f_cache fs))\<rparr>)"
begin

lemma keep_io [keep_intros]:
  "I fs \<Longrightarrow> ends I (lift_io (bc_read dev b (f_cache fs)) fs)"
  "I fs \<Longrightarrow> ends I (lift_io (bc_get dev b (f_cache fs)) fs)"
  "I fs \<Longrightarrow> ends I (lift_io (bc_get_tagged dev b (f_cache fs)) fs)"
  "I fs \<Longrightarrow> ends I (lift_io (read_many dev b n (f_cache fs)) fs)"
  by (simp_all add: ends_lift_io io_read io_get io_get_tagged io_read_many)

lemma keep_pure [keep_intros]: "I fs \<Longrightarrow> ends I (x, fs)"
  by simp

lemma keep_fold: "I fs \<Longrightarrow> (\<And>x s. I s \<Longrightarrow> I (f x s)) \<Longrightarrow> I (fold f xs fs)"
  by (induction xs arbitrary: fs) auto

lemma keep_meta_get [keep_intros]: "I fs \<Longrightarrow> ends I (meta_get dev b fs)"
  unfolding meta_get_def by (intro keep_intros)

lemma keep_typed_block [keep_intros]: "I fs \<Longrightarrow> ends I (typed_block dev b e ow fs)"
  unfolding typed_block_def by (intro keep_intros) (auto intro: io_set_tag)

lemma keep_read_inode [keep_intros]: "I fs \<Longrightarrow> ends I (read_inode dev ino fs)"
  unfolding read_inode_def by (intro keep_intros)

lemma keep_walk_chain_loop [keep_intros]: "I fs \<Longrightarrow> ends I (walk_chain_loop dev ino n cur chain fs)"
proof (induction n arbitrary: cur chain fs)
  case (Suc n)
  then show ?case by (simp add: ends_bindr keep_typed_block)
qed simp

lemma keep_walk_chain [keep_intros]: "I fs \<Longrightarrow> ends I (walk_chain dev ino cur fs)"
  unfolding walk_chain_def by (intro keep_intros)

lemma keep_load_chain [keep_intros]: "I fs \<Longrightarrow> ends I (load_chain dev ino n rest cur out fs)"
proof (induction n arbitrary: rest cur out fs)
  case (Suc n)
  then show ?case by (simp add: Let_def ends_bindr keep_typed_block)
qed simp

lemma keep_load_extents [keep_intros]: "I fs \<Longrightarrow> ends I (load_extents dev ino node fs)"
  unfolding load_extents_def Let_def by (intro keep_intros)

lemma keep_dir_phys_blocks [keep_intros]: "I fs \<Longrightarrow> ends I (dir_phys_blocks dev ino dir fs)"
  unfolding dir_phys_blocks_def by (intro keep_intros)

lemma keep_dir_find_in [keep_intros]: "I fs \<Longrightarrow> ends I (dir_find_in dev ino name pbs fs)"
proof (induction pbs arbitrary: fs)
  case (Cons b pbs)
  show ?case unfolding dir_find_in.simps using Cons.prems by (intro keep_intros Cons.IH)
qed simp

lemma keep_dir_find [keep_intros]: "I fs \<Longrightarrow> ends I (dir_find dev ino dir name fs)"
  unfolding dir_find_def by (intro keep_intros)

lemma keep_dir_list_in [keep_intros]: "I fs \<Longrightarrow> ends I (dir_list_in dev ino pbs out fs)"
proof (induction pbs arbitrary: out fs)
  case (Cons b pbs)
  show ?case unfolding dir_list_in.simps using Cons.prems by (intro keep_intros Cons.IH)
qed simp

lemma keep_dir_list [keep_intros]: "I fs \<Longrightarrow> ends I (dir_list dev ino fs)"
  unfolding dir_list_def by (intro keep_intros)

lemma keep_scan_room [keep_intros]: "I fs \<Longrightarrow> ends I (scan_room dev ino name need pbs room fs)"
proof (induction pbs arbitrary: room fs)
  case (Cons b pbs)
  show ?case unfolding scan_room.simps Let_def using Cons.prems by (intro keep_intros Cons.IH)
qed simp

lemma keep_trim_empty [keep_intros]: "I fs \<Longrightarrow> ends I (trim_empty dev ino blocks keep fs)"
proof (induction keep arbitrary: fs)
  case (Suc n)
  show ?case unfolding trim_empty.simps using Suc.prems by (intro keep_intros Suc.IH)
qed simp

lemma keep_walk_from [keep_intros]: "I fs \<Longrightarrow> ends I (walk_from dev cs cur tr fs)"
proof (induction cs arbitrary: cur tr fs)
  case (Cons c cs)
  show ?case unfolding walk_from.simps using Cons.prems by (intro keep_intros Cons.IH)
qed simp

lemma keep_walk [keep_intros]: "I fs \<Longrightarrow> ends I (walk dev cs fs)"
  unfolding walk_def by (intro keep_intros)

lemma keep_resolve_parent [keep_intros]: "I fs \<Longrightarrow> ends I (resolve_parent dev path fs)"
  unfolding resolve_parent_def by (intro keep_intros)

lemma keep_entry [keep_intros]: "I fs \<Longrightarrow> ends I (entry dev dir name fs)"
  unfolding entry_def by (intro keep_intros)

lemma keep_read_child [keep_intros]: "I fs \<Longrightarrow> ends I (read_child dev ino fs)"
  using keep_read_inode [of fs ino] unfolding read_child_def
  by (cases "read_inode dev ino fs") (auto split: sum.splits fs_error.splits)

lemma keep_fs_lookup [keep_intros]: "I fs \<Longrightarrow> ends I (fs_lookup dev path fs)"
  unfolding fs_lookup_def by (intro keep_intros)

lemma keep_fs_open [keep_intros]: "I fs \<Longrightarrow> ends I (fs_open dev path fs)"
  unfolding fs_open_def by (intro keep_intros)

lemma keep_stat_ino [keep_intros]: "I fs \<Longrightarrow> ends I (stat_ino dev ino fs)"
  unfolding stat_ino_def by (intro keep_intros)

lemma keep_fs_stat [keep_intros]: "I fs \<Longrightarrow> ends I (fs_stat dev path fs)"
  unfolding fs_stat_def by (intro keep_intros)

lemma keep_path_loop [keep_intros]: "I fs \<Longrightarrow> ends I (path_loop dev n cur names fs)"
proof (induction n arbitrary: cur names fs)
  case (Suc n)
  show ?case unfolding path_loop.simps using Suc.prems by (intro keep_intros Suc.IH)
qed simp

lemma keep_path_of [keep_intros]: "I fs \<Longrightarrow> ends I (path_of dev ino fs)"
  unfolding path_of_def by (intro keep_intros)

lemma keep_live_loop: "I fs \<Longrightarrow> I (snd (live_loop dev ino n cur fs))"
proof (induction n arbitrary: cur fs)
  case 0
  then show ?case using keep_read_inode [of fs cur]
    by (auto simp: live_loop.simps [of dev ino 0] ends_def split: prod.splits sum.splits)
next
  case (Suc n)
  then show ?case using keep_read_inode [of fs cur]
    by (auto simp: live_loop.simps [of dev ino "Suc n"] ends_def split: prod.splits sum.splits)
qed

lemma keep_is_live_dir: "I fs \<Longrightarrow> I (snd (is_live_dir dev ino fs))"
  unfolding is_live_dir_def by (rule keep_live_loop)

lemma keep_readdir_in [keep_intros]: "I fs \<Longrightarrow> ends I (readdir_in dev dir es out fs)"
proof (induction es arbitrary: out fs)
  case (Cons e es)
  obtain name ino kind where "e = (name, ino, kind)" by (cases e)
  then show ?case
    using Cons.prems by (simp only: readdir_in.simps) (intro keep_intros Cons.IH)
qed simp

lemma keep_readdir [keep_intros]: "I fs \<Longrightarrow> ends I (readdir dev path fs)"
  unfolding readdir_def by (intro keep_intros)

lemma keep_readdir_names [keep_intros]: "I fs \<Longrightarrow> ends I (readdir_names dev path fs)"
  unfolding readdir_names_def by (intro keep_intros)

lemma keep_target_of [keep_intros]: "I fs \<Longrightarrow> ends I (target_of dev path fs)"
  unfolding target_of_def by (intro keep_intros)

lemma keep_read_chunks [keep_intros]: "I fs \<Longrightarrow> ends I (read_chunks dev e off en b lb buf fs)"
proof (induction "b - lb" arbitrary: lb buf fs rule: less_induct)
  case less
  show ?case
    unfolding read_chunks.simps [of dev e off en b lb] Let_def using less.prems
    by (intro keep_intros less.hyps) (auto simp: WRITE_CHUNK_def)
qed

lemma keep_read_extents [keep_intros]: "I fs \<Longrightarrow> ends I (read_extents dev off en first lastb es buf fs)"
proof (induction es arbitrary: buf fs)
  case (Cons e es)
  show ?case unfolding read_extents.simps using Cons.prems by (intro keep_intros Cons.IH)
qed simp

lemma keep_read_at [keep_intros]: "I fs \<Longrightarrow> ends I (read_at dev ino off buf fs)"
  unfolding read_at_def Let_def by (intro keep_intros)

lemma keep_read_file [keep_intros]: "I fs \<Longrightarrow> ends I (read_file dev path fs)"
  unfolding read_file_def by (intro keep_intros)

lemma keep_fill_block [keep_intros]: "I fs \<Longrightarrow> ends I (fill_block dev exts off en data cur fs)"
  unfolding fill_block_def old_block_def Let_def by (intro keep_intros)

lemma keep_fill_blocks [keep_intros]: "I fs \<Longrightarrow> ends I (fill_blocks dev exts off en data lb ks buf fs)"
proof (induction ks arbitrary: buf fs)
  case (Cons k ks)
  show ?case unfolding fill_blocks.simps using Cons.prems by (intro keep_intros Cons.IH)
qed simp

lemma keep_victim_of [keep_intros]: "I fs \<Longrightarrow> ends I (victim_of dev path fs)"
  unfolding victim_of_def by (intro keep_intros)

lemma keep_entry_of [keep_intros]: "I fs \<Longrightarrow> ends I (entry_of dev dir name fs)"
  unfolding entry_of_def by (intro keep_intros)

lemma keep_climb [keep_intros]: "I fs \<Longrightarrow> ends I (climb dev ino n cur fs)"
proof (induction n arbitrary: cur fs)
  case (Suc n)
  show ?case unfolding climb.simps using Suc.prems by (intro keep_intros Suc.IH)
qed simp

lemma keep_trash_names [keep_intros]: "I fs \<Longrightarrow> ends I (trash_names dev name i n fs)"
proof (induction n arbitrary: i fs)
  case (Suc n)
  show ?case unfolding trash_names.simps using Suc.prems by (intro keep_intros Suc.IH)
qed simp

lemma keep_unique_trash_name [keep_intros]: "I fs \<Longrightarrow> ends I (unique_trash_name dev name fs)"
  unfolding unique_trash_name_def by (intro keep_intros)

lemma keep_trash_list_in [keep_intros]: "I fs \<Longrightarrow> ends I (trash_list_in dev es out fs)"
proof (induction es arbitrary: out fs)
  case (Cons e es)
  obtain name ino kind where "e = (name, ino, kind)" by (cases e)
  then show ?case
    using Cons.prems by (simp only: trash_list_in.simps) (intro keep_intros Cons.IH)
qed simp

lemma keep_trash_list [keep_intros]: "I fs \<Longrightarrow> ends I (trash_list dev fs)"
  unfolding trash_list_def by (intro keep_intros)

lemma keep_restore_target [keep_intros]: "I fs \<Longrightarrow> ends I (restore_target dev n name fs)"
proof -
  assume i: "I fs"
  obtain b s where l: "is_live_dir dev (i_trash_parent n) fs = (b, s)" by fastforce
  have "I s" using keep_is_live_dir [OF i, of "i_trash_parent n"] by (simp add: l)
  then show ?thesis
    using i unfolding restore_target_def l by (cases b) (auto intro!: ends_bindr keep_read_inode)
qed

lemma keep_validate_roots [keep_intros]: "I fs \<Longrightarrow> ends I (validate_roots dev fs)"
  unfolding validate_roots_def by (intro keep_intros)

lemma keep_soft [keep_intros]: "ends I r \<Longrightarrow> ends I (soft r)"
  by (cases r) (auto simp: soft_def split: sum.splits fs_error.splits)

lemma keep_fsck_journal [keep_intros]: "I fs \<Longrightarrow> ends I (fsck_journal dev rep fs)"
  unfolding fsck_journal_def Let_def by (intro keep_intros)

lemma keep_fsck_bitmap [keep_intros]: "I fs \<Longrightarrow> ends I (fsck_bitmap dev what start blocks n rep fs)"
  unfolding fsck_bitmap_def Let_def by (intro keep_intros)

lemma keep_fsck_bitmaps [keep_intros]: "I fs \<Longrightarrow> ends I (fsck_bitmaps dev rep fs)"
  unfolding fsck_bitmaps_def Let_def by (intro keep_intros)

lemma keep_fsck_entry [keep_intros]: "I fs \<Longrightarrow> ends I (fsck_entry dev disk_i dir names e w fs)"
  unfolding fsck_entry_def Let_def by (intro keep_intros)

lemma keep_fsck_entries [keep_intros]: "I fs \<Longrightarrow> ends I (fsck_entries dev disk_i dir names es w fs)"
proof (induction es arbitrary: names w fs)
  case (Cons e es)
  show ?case unfolding fsck_entries.simps using Cons.prems by (intro keep_intros Cons.IH)
qed simp

lemma keep_fsck_dir [keep_intros]: "I fs \<Longrightarrow> ends I (fsck_dir dev disk_i dir w fs)"
  unfolding fsck_dir_def Let_def by (intro keep_intros)

lemma keep_fsck_walk [keep_intros]: "I fs \<Longrightarrow> ends I (fsck_walk dev disk_i w fs)"
proof (induction "walk_left w" arbitrary: w fs rule: less_induct)
  case less
  show ?case
  proof (cases "ws_stack w")
    case Nil
    then show ?thesis using less.prems by (simp add: fsck_walk.simps [of dev disk_i w])
  next
    case (Cons d stack)
    have "walk_left w' < walk_left w" if "fsck_dir dev disk_i d (w\<lparr>ws_stack := stack\<rparr>) fs = (Inr w', s)" for w' s
      using fsck_dir_left [OF that] Cons by (simp add: walk_left_def)
    then show ?thesis
      using less.prems Cons
      by (simp add: fsck_walk.simps [of dev disk_i w]) (intro ends_bindr keep_fsck_dir less.hyps)
  qed
qed

lemma keep_fsck_tree [keep_intros]: "I fs \<Longrightarrow> ends I (fsck_tree dev disk_i rep fs)"
  unfolding fsck_tree_def by (intro keep_intros)

lemma keep_fsck_tail [keep_intros]: "I fs \<Longrightarrow> ends I (fsck_tail dev ino node exts rep fs)"
  unfolding fsck_tail_def Let_def by (intro keep_intros)

lemma keep_fsck_inode [keep_intros]: "I fs \<Longrightarrow> ends I (fsck_inode dev ino cr fs)"
  unfolding fsck_inode_def Let_def by (intro keep_intros)

lemma keep_fsck_inodes [keep_intros]: "I fs \<Longrightarrow> ends I (fsck_inodes dev inos cr fs)"
proof (induction inos arbitrary: cr fs)
  case (Cons i inos)
  show ?case unfolding fsck_inodes.simps using Cons.prems by (intro keep_intros Cons.IH)
qed simp

lemma keep_fsck [keep_intros]: "I fs \<Longrightarrow> ends I (fsck dev fs)"
  unfolding fsck_def Let_def by (intro keep_intros)

end

text \<open>
  The steps that change the filesystem.  \<open>tracks\<close> says whether the invariant speaks about the
  contents of blocks: if so, data writes are only required to keep it on blocks of the runs the
  transaction has recorded in \<open>tx.data\<close>.
\<close>

locale tx_invariant = read_invariant dev I
  for dev :: "'d blockdevice" and I :: "'d fs3 \<Rightarrow> bool" +
  fixes tracks :: bool
  assumes io_length: "tracks \<Longrightarrow> I fs \<Longrightarrow> bc_read dev b (f_cache fs) = (Inr x, c) \<Longrightarrow> length x = BLOCK_SIZE"
    and io_write_many: "I fs \<Longrightarrow> (tracks \<Longrightarrow> \<forall>k < length buf div BLOCK_SIZE. data_block fs (b + k)) \<Longrightarrow>
      I (fs\<lparr>f_cache := snd (write_many dev b buf (f_cache fs))\<rparr>)"
    and io_write: "I fs \<Longrightarrow> (tracks \<Longrightarrow> data_block fs b \<and> length buf = BLOCK_SIZE) \<Longrightarrow>
      I (fs\<lparr>f_cache := snd (bc_write dev b buf (f_cache fs))\<rparr>)"
    and overlay: "I fs \<Longrightarrow> bt_get (tx_meta (f_tx fs)) b \<noteq> None \<or> length (tx_meta (f_tx fs)) < journal_blocks (f_geo fs) \<Longrightarrow>
      I (put_overlay b img fs)"
    and overlay_free: "I fs \<Longrightarrow> I (free_meta_block b fs)"
    and overlay_drop: "I fs \<Longrightarrow> I (drop_overlay p l fs)"
    and to_free: "I fs \<Longrightarrow> I (tx_free_runs runs fs)"
    and alloc: "I fs \<Longrightarrow> I (snd (alloc_blocks n h fs))"
    and alloc_data: "I fs \<Longrightarrow> alloc_blocks n h fs = (Inr runs, fs') \<Longrightarrow> I (add_data runs fs')"
    and alloc_one: "I fs \<Longrightarrow> alloc_blocks 1 h fs = (Inr runs, fs') \<Longrightarrow> I (add_data [(fst (hd runs), 1)] fs')"
    and alloc_range: "tracks \<Longrightarrow> I fs \<Longrightarrow> alloc_blocks n h fs = (Inr runs, fs') \<Longrightarrow> (p, l) \<in> set runs \<Longrightarrow> p + l < 2 ^ 32"
    and ialloc: "I fs \<Longrightarrow> I (snd (alloc_inode fs))"
    and ifree: "I fs \<Longrightarrow> ino \<noteq> ROOT_INO \<Longrightarrow> ino \<noteq> TRASH_INO \<Longrightarrow> inode_loc ino fs = Inr loc \<Longrightarrow>
      bits_get (f_ibits fs) (ino - 1) \<Longrightarrow>
      I (fs\<lparr>f_ibits := bits_clear (f_ibits fs) (ino - 1), f_tx := log_inode (ino - 1) False fs,
            f_free_inodes := u32_add (f_free_inodes fs) 1\<rparr>)"
begin

lemma keep_alloc [keep_intros]: "I fs \<Longrightarrow> ends I (alloc_blocks n h fs)" "I fs \<Longrightarrow> ends I (alloc_inode fs)"
  by (simp_all add: ends_def alloc ialloc)

lemma keep_put_meta [keep_intros]: "I fs \<Longrightarrow> ends I (put_meta b img fs)"
  unfolding put_meta_def by (auto simp: not_le intro!: overlay)

lemma meta_mut_present:
  "meta_mut dev b fs = (Inr x, fs') \<Longrightarrow> bt_get (tx_meta (f_tx fs')) b \<noteq> None"
  unfolding meta_mut_def by (elim bindr_InrE) (auto split: option.splits)

lemma keep_meta_mut [keep_intros]: "I fs \<Longrightarrow> ends I (meta_mut dev b fs)"
proof -
  have "ends I (bindr (lift_io (bc_read dev b (f_cache fs)) fs) (\<lambda>x fs. (Inr (), put_overlay b x fs)))"
    if "I fs" "length (tx_meta (f_tx fs)) < journal_blocks (f_geo fs)"
    using that by (intro ends_bindr keep_io) (auto simp: lift_io_def intro!: overlay split: prod.splits sum.splits)
  then show "I fs \<Longrightarrow> ends I (meta_mut dev b fs)"
    unfolding meta_mut_def by (intro keep_intros) (auto simp: not_le)
qed

lemma keep_overlay:
  "meta_mut dev b fs = (Inr x, fs') \<Longrightarrow> I fs' \<Longrightarrow> I (put_overlay b img fs')"
  using meta_mut_present by (blast intro: overlay)

subsection \<open>Inodes and extents\<close>

lemma keep_write_inode [keep_intros]: "I fs \<Longrightarrow> ends I (write_inode dev ino node fs)"
  unfolding write_inode_def by (intro keep_intros) (auto dest: keep_overlay)

lemma meta_mut_frame:
  assumes "meta_mut dev b fs = (Inr x, fs')"
  shows "f_geo fs' = f_geo fs" and "f_ibits fs' = f_ibits fs"
  using assms unfolding meta_mut_def
  by (elim bindr_InrE; auto simp: lift_io_def put_overlay_def elim!: bindr_InrE split: if_splits option.splits sum.splits prod.splits)+

lemma keep_free_inode [keep_intros]: "I fs \<Longrightarrow> ends I (free_inode dev ino fs)"
proof -
  assume i: "I fs"
  have "I (let fs = put_overlay blk img s in fs\<lparr>f_ibits := bits_clear (f_ibits fs) (ino - 1), f_tx := log_inode (ino - 1) False fs,
            f_free_inodes := u32_add (f_free_inodes fs) 1\<rparr>)"
    if "ino \<noteq> ROOT_INO" "ino \<noteq> TRASH_INO" "inode_loc ino fs = Inr (blk, off)" "bits_get (f_ibits fs) (ino - 1)"
      "meta_mut dev blk fs = (Inr x, s)" "I s" for blk off x s img
  proof -
    have "inode_loc ino (put_overlay blk img s) = inode_loc ino fs"
      unfolding inode_loc_def using meta_mut_frame [OF that(5)] by (simp add: put_overlay_def)
    then have "inode_loc ino (put_overlay blk img s) = Inr (blk, off)"
      using that(3) by simp
    moreover have "bits_get (f_ibits (put_overlay blk img s)) (ino - 1)"
      using that(4) meta_mut_frame [OF that(5)] by (simp add: put_overlay_def)
    ultimately show ?thesis
      using ifree [OF keep_overlay [OF that(5,6)] that(1,2)] by (simp add: Let_def)
  qed
  note upd = this
  show ?thesis
    unfolding free_inode_def using i
    by (intro keep_intros) (auto simp: Let_def dest: upd [unfolded Let_def] intro: keep_meta_mut)
qed

lemma keep_grow_chain [keep_intros]: "I fs \<Longrightarrow> ends I (grow_chain n chain fs)"
proof (induction n arbitrary: chain fs)
  case (Suc n)
  then show ?case by (simp add: Let_def ends_bindr keep_alloc)
qed simp

lemma keep_put_chain [keep_intros]: "I fs \<Longrightarrow> ends I (put_chain dev ino nold rest chain i blks fs)"
proof (induction blks arbitrary: i fs)
  case (Cons b blks)
  show ?case
    unfolding put_chain.simps Let_def using Cons.prems by (intro keep_intros Cons.IH)
qed simp

lemma keep_store_extents [keep_intros]: "I fs \<Longrightarrow> ends I (store_extents dev ino node exts fs)"
  unfolding store_extents_def Let_def
  by (intro keep_intros keep_fold) (auto intro: overlay_free)

lemma keep_release_extent: "I fs \<Longrightarrow> I (release_extent m e fs)"
  using to_free [of "drop_overlay (pblk e) (elen e) fs"] by (auto simp: release_extent_def Let_def intro: to_free overlay_drop)

lemma keep_release_blocks [keep_intros]: "I fs \<Longrightarrow> ends I (release_blocks dev ino node fs)"
  unfolding release_blocks_def Let_def
  by (intro keep_intros keep_fold) (auto intro: keep_release_extent overlay_free)

subsection \<open>Directories\<close>

lemma keep_dir_insert [keep_intros]: "I fs \<Longrightarrow> ends I (dir_insert dev ino name i k now fs)"
  unfolding dir_insert_def Let_def by (intro keep_intros) (auto dest: keep_overlay)

lemma keep_free_run_of: "I fs \<Longrightarrow> I (free_run_of r fs)"
  using to_free [OF overlay_drop] by (cases r) (simp add: free_run_of_def)

lemma keep_shrink_dir [keep_intros]: "I fs \<Longrightarrow> ends I (shrink_dir dev ino dir blocks fs)"
  unfolding shrink_dir_def Let_def by (intro keep_intros keep_fold) (auto intro: keep_free_run_of)

lemma keep_remove_hit [keep_intros]: "I fs \<Longrightarrow> ends I (remove_hit dev ino dir blocks pb off len fs)"
  unfolding remove_hit_def Let_def by (intro keep_intros) (auto dest: keep_overlay)

lemma keep_dir_remove_in [keep_intros]: "I fs \<Longrightarrow> ends I (dir_remove_in dev ino dir blocks name pbs fs)"
proof (induction pbs arbitrary: fs)
  case (Cons b pbs)
  show ?case unfolding dir_remove_in.simps using Cons.prems by (intro keep_intros Cons.IH)
qed simp

lemma keep_dir_remove [keep_intros]: "I fs \<Longrightarrow> ends I (dir_remove dev ino name fs)"
  unfolding dir_remove_def by (intro keep_intros)

subsection \<open>Paths and metadata\<close>

lemma keep_new_node [keep_intros]: "I fs \<Longrightarrow> ends I (new_node dev pdir name kind now fs)"
  unfolding new_node_def by (intro keep_intros)

subsection \<open>File data\<close>

lemma old_block_length:
  assumes "old_block dev exts part cur fs = (Inr dst, fs')" and "I fs" and tracks
  shows "length dst = BLOCK_SIZE"
  using assms io_length [OF assms(3,2)] unfolding old_block_def
  by (auto simp: lift_io_def split: if_splits option.splits prod.splits sum.splits)

lemma fill_block_length:
  assumes "fill_block dev exts off en data cur fs = (Inr dst, fs')" and "I fs" and tracks
  shows "length dst = BLOCK_SIZE"
proof -
  define s e where "s = max (cur * BLOCK_SIZE) off" and "e = min (cur * BLOCK_SIZE + BLOCK_SIZE) en"
  obtain old where old: "old_block dev exts (cur * BLOCK_SIZE < s \<or> e < cur * BLOCK_SIZE + BLOCK_SIZE) cur fs = (Inr old, fs')"
    and dst: "dst = put_slice (s - cur * BLOCK_SIZE) (get_slice (s - off) (e - s) data) old"
    using assms(1) unfolding fill_block_def Let_def s_def e_def by (auto elim!: bindr_InrE)
  have "get_slice (s - off) (e - s) data = [] \<or> s - cur * BLOCK_SIZE + length (get_slice (s - off) (e - s) data) \<le> BLOCK_SIZE"
    by (cases "e \<le> s") (auto simp: get_slice_def s_def e_def)
  then show ?thesis
    using old_block_length [OF old assms(2,3)] by (auto simp: dst) (simp add: put_slice_def)
qed

lemma fill_blocks_length:
  assumes tracks
  shows "fill_blocks dev exts off en data lb ks buf fs = (Inr buf', fs') \<Longrightarrow> I fs \<Longrightarrow>
    (\<And>k. k \<in> set ks \<Longrightarrow> (k + 1) * BLOCK_SIZE \<le> length buf) \<Longrightarrow> length buf' = length buf"
proof (induction ks arbitrary: buf fs)
  case (Cons k ks)
  obtain dst s where d: "fill_block dev exts off en data (u32_add lb k) fs = (Inr dst, s)"
    and r: "fill_blocks dev exts off en data lb ks (put_slice (k * BLOCK_SIZE) dst buf) s = (Inr buf', fs')"
    using Cons.prems(1) by (auto simp: bindr_Inr_iff)
  have s: "I s" using keep_fill_block [OF Cons.prems(2)] d by (metis endsD)
  have len: "length (put_slice (k * BLOCK_SIZE) dst buf) = length buf"
    using fill_block_length [OF d Cons.prems(2) assms] Cons.prems(3) [of k] by simp
  show ?case using Cons.IH [OF r s] Cons.prems(3) by (simp add: len)
qed auto

lemma keep_write_chunks:
  assumes "I fs" and "f_tx fs = T"
    and "tracks \<Longrightarrow> (\<forall>k < plen. pstart + k \<in> runs_in (tx_data T)) \<and> pstart + plen < 2 ^ 32"
  shows "ends (\<lambda>s. I s \<and> f_tx s = T) (write_chunks dev exts off en data pstart plen w lb fs)"
  using assms(1,2)
proof (induction "plen - w" arbitrary: w lb fs rule: less_induct)
  case less
  let ?c = "min (plen - w) WRITE_CHUNK"
  let ?fill = "fill_blocks dev exts off en data lb [0..<?c] (replicate (?c * BLOCK_SIZE) 0) fs"
  have fill: "ends (\<lambda>s. I s \<and> f_tx s = T) ?fill"
    using less.prems by (intro ends_conj keep_fill_blocks same_tx_fill_blocks)
  have wr: "ends (\<lambda>s. I s \<and> f_tx s = T) (lift_io (write_many dev (u32_add pstart w) buf (f_cache s)) s)"
    if f: "?fill = (Inr buf, s)" and w: "w < plen" and s: "I s \<and> f_tx s = T" for buf s
  proof -
    have "\<forall>k < length buf div BLOCK_SIZE. data_block s (u32_add pstart w + k)" if tracks
    proof -
      have "(k + 1) * BLOCK_SIZE \<le> ?c * BLOCK_SIZE" if "k \<in> set [0..<?c]" for k
        using that by (intro mult_le_mono1) auto
      then have "length buf = ?c * BLOCK_SIZE"
        using fill_blocks_length [OF that f less.prems(1)] by simp
      then have "length buf div BLOCK_SIZE = ?c" by (simp add: BLOCK_SIZE_def)
      then show ?thesis
        using assms(3) [OF that] w s by (auto simp: data_block_def add.assoc)
    qed
    then show ?thesis using s io_write_many [of s buf "u32_add pstart w"] by (simp add: ends_lift_io)
  qed
  have dec: "plen - (w + ?c) < plen - w" if "w < plen" using that by (auto simp: WRITE_CHUNK_def)
  show ?case
    unfolding write_chunks.simps [of dev exts off en data pstart plen w] Let_def
    by (intro ends_if ends_bindr fill wr less.hyps dec) (use less.prems in auto)
qed

lemma keep_write_runs:
  assumes "tracks \<Longrightarrow> (\<forall>(p, l) \<in> set runs. (p, l) \<in> set (tx_data T) \<and> p + l < 2 ^ 32)"
  shows "I fs \<Longrightarrow> f_tx fs = T \<Longrightarrow> ends (\<lambda>s. I s \<and> f_tx s = T) (write_runs dev exts off en data runs lb fs)"
  using assms
proof (induction runs arbitrary: lb fs)
  case (Cons r rs)
  obtain p l where r: "r = (p, l)" by (cases r)
  have "(\<forall>k < l. p + k \<in> runs_in (tx_data T)) \<and> p + l < 2 ^ 32" if tracks
    using Cons.prems(3) [OF that] by (auto simp: r intro: runs_in_mem)
  then show ?case
    unfolding r write_runs.simps using Cons.prems
    by (intro ends_bindr keep_write_chunks Cons.IH) auto
qed simp

lemma keep_write_inner [keep_intros]: "I fs \<Longrightarrow> ends I (write_inner dev ino off data now fs)"
proof -
  have run: "ends I (write_runs dev exts off en data runs lb (add_data runs s))"
    if "alloc_blocks n h fs = (Inr runs, s)" "I fs" for exts en runs lb n h s and fs :: "'d fs3"
  proof -
    have "ends (\<lambda>x. I x \<and> f_tx x = f_tx (add_data runs s)) (write_runs dev exts off en data runs lb (add_data runs s))"
      using alloc_data [OF that(2,1)] alloc_range [OF _ that(2,1)] by (intro keep_write_runs) auto
    then show ?thesis by (simp add: ends_def)
  qed
  show "I fs \<Longrightarrow> ends I (write_inner dev ino off data now fs)"
    unfolding write_inner_def Let_def
    by (intro keep_intros to_free; (rule run; assumption)?)
qed

lemma keep_zero_tail [keep_intros]: "I fs \<Longrightarrow> ends I (zero_tail dev sz ef fs)"
proof -
  have wr: "ends I (lift_io (bc_write dev (fst (hd r)) (put_slice (sz mod BLOCK_SIZE) (replicate (BLOCK_SIZE - sz mod BLOCK_SIZE) 0) tmp)
      (f_cache s)) s)"
    if a: "alloc_blocks 1 old fs = (Inr r, s0)" and i: "I fs"
      and rd: "lift_io (bc_read dev old (f_cache (add_data [(fst (hd r), 1)] s0))) (add_data [(fst (hd r), 1)] s0) = (Inr tmp, s)"
      and s: "I s" for old fs r s0 tmp s
  proof -
    have "data_block s (fst (hd r))" using rd
      by (auto simp: data_block_def lift_io_def split: prod.splits sum.splits)
    moreover have "length tmp = BLOCK_SIZE" if tracks
      using rd io_length [OF that alloc_one [OF i a], of old tmp] by (auto simp: lift_io_def split: prod.splits sum.splits)
    moreover have "sz mod BLOCK_SIZE \<le> BLOCK_SIZE" by (simp add: BLOCK_SIZE_def)
    ultimately show ?thesis using s by (auto simp: ends_lift_io intro!: io_write)
  qed
  show "I fs \<Longrightarrow> ends I (zero_tail dev sz ef fs)"
    unfolding zero_tail_def Let_def
    by (intro keep_intros; (erule (1) alloc_one | (rule wr; assumption))?)
qed

lemma keep_truncate_inner [keep_intros]: "I fs \<Longrightarrow> ends I (truncate_inner dev ino sz now fs)"
  unfolding truncate_inner_def Let_def
  by (intro keep_intros to_free)

subsection \<open>Removal and the trash\<close>

lemma keep_release_inode [keep_intros]: "I fs \<Longrightarrow> ends I (release_inode dev ino fs)"
  unfolding release_inode_def by (intro keep_intros)

lemma keep_remove_entry [keep_intros]: "I fs \<Longrightarrow> ends I (remove_entry dev pdir name ino fs)"
  unfolding remove_entry_def by (intro keep_intros)

lemma keep_move_entry [keep_intros]: "I fs \<Longrightarrow> ends I (move_entry dev s d now fs)"
  unfolding move_entry_def by (intro keep_intros)

lemma keep_trash_entry_of [keep_intros]: "I fs \<Longrightarrow> ends I (trash_entry_of dev p now fs)"
  unfolding trash_entry_of_def by (intro keep_intros)

lemma keep_restore_entry [keep_intros]: "I fs \<Longrightarrow> ends I (restore_entry dev name now fs)"
  unfolding restore_entry_def by (intro keep_intros)

lemma keep_make_roots [keep_intros]: "I fs \<Longrightarrow> ends I (make_roots dev now fs)"
  unfolding make_roots_def Let_def by (intro keep_intros)

end

end
