(* ===== verification/Rollback.thy ===== *)
theory Rollback
  imports TxInv
begin

text \<open>
  The allocation state: bitmaps, counters and the undo log of a transaction.  The counters are
  the number of clear bits, the fixed metadata and the fixed inodes stay allocated, the overlay
  fits the journal, and undoing the log gives back the bitmaps from before the transaction.
\<close>

subsection \<open>Ranges of bits\<close>

definition mark :: "bool \<Rightarrow> nat \<Rightarrow> bitmap \<Rightarrow> bitmap" where
  "mark used b v = (if used then bits_set v b else bits_clear v b)"

lemma mark_eq: "(\<lambda>b v. if used then bits_set v b else bits_clear v b) = mark used"
  by (simp add: mark_def fun_eq_iff)

lemma length_mark [simp]: "length (mark used b v) = length v"
  by (simp add: mark_def)

lemma length_mark_fold [simp]: "length (fold (mark used) bs v) = length v"
  by (induction bs arbitrary: v) auto

lemma bits_get_mark_fold:
  "(\<And>b. b \<in> set bs \<Longrightarrow> b < 64 * length v) \<Longrightarrow>
    bits_get (fold (mark used) bs v) j = (if j \<in> set bs then used else bits_get v j)"
proof (induction bs arbitrary: v)
  case (Cons b bs)
  have "b div 64 < length v" using Cons.prems [of b] by (simp add: div_less_iff_less_mult mult.commute)
  then show ?case using Cons.IH [of "mark used b v"] Cons.prems by (auto simp: mark_def bits_get_set bits_get_clear)
qed simp

lemma length_undo_range [simp]: "length (undo_range e v) = length v"
proof (cases e)
  case (fields s l now)
  have "undo_range e v = fold (mark (\<not> now)) [s..<u32_add s l] v"
    by (cases now) (simp_all add: undo_range_def fields mark_eq [symmetric])
  then show ?thesis by simp
qed

lemma undo_mark:
  assumes "\<And>b. s \<le> b \<Longrightarrow> b < s + l \<Longrightarrow> bits_get v b \<noteq> used" and "s + l \<le> 64 * length v" and "s + l < 2 ^ 32"
  shows "undo_range (s, l, used) (fold (mark used) [s..<s + l] v) = v"
proof -
  have "undo_range (s, l, used) w = fold (mark (\<not> used)) [s..<s + l] w" for w
    using assms(3) by (cases used) (simp_all add: undo_range_def mark_eq [symmetric])
  moreover have get: "s + l \<le> 64 * length w \<Longrightarrow>
      bits_get (fold (mark u) [s..<s + l] w) j = (if s \<le> j \<and> j < s + l then u else bits_get w j)" for u w j
    by (subst bits_get_mark_fold) auto
  have "fold (mark (\<not> used)) [s..<s + l] (fold (mark used) [s..<s + l] v) = v"
  proof (rule bits_eq_iff)
    show "bits_get (fold (mark (\<not> used)) [s..<s + l] (fold (mark used) [s..<s + l] v)) i = bits_get v i" for i
      using assms(1) [of i] assms(2) get [of v used] get [of "fold (mark used) [s..<s + l] v" "\<not> used"] by auto
  qed simp
  ultimately show ?thesis by simp
qed

subsection \<open>The invariant\<close>

abbreviation free_set :: "bitmap \<Rightarrow> nat \<Rightarrow> nat set" where
  "free_set v n \<equiv> {i. i < n \<and> \<not> bits_get v i}"

definition alloc_ok :: "'d fs3 \<Rightarrow> bool" where
  "alloc_ok fs \<longleftrightarrow>
     (let g = f_geo fs in
      geo_ok g \<and> length (f_bbits fs) = div_ceil (total_blocks g) 64 \<and> length (f_ibits fs) = div_ceil (inode_count g) 64 \<and>
      f_free_blocks fs = card (free_set (f_bbits fs) (total_blocks g)) \<and>
      f_free_inodes fs = card (free_set (f_ibits fs) (inode_count g)) \<and>
      (\<forall>b < data_start g. bits_get (f_bbits fs) b) \<and> bits_get (f_bbits fs) (backup_sb g) \<and>
      bits_get (f_ibits fs) (ROOT_INO - 1) \<and> bits_get (f_ibits fs) (TRASH_INO - 1) \<and>
      bt_inv (tx_meta (f_tx fs)) \<and> length (tx_meta (f_tx fs)) \<le> journal_blocks g)"

definition undone :: "'d fs3 \<Rightarrow> 'd fs3 \<Rightarrow> bool" where
  "undone fs0 fs \<longleftrightarrow>
     f_geo fs = f_geo fs0 \<and> f_sb fs = f_sb fs0 \<and> f_seq fs = f_seq fs0 \<and> f_poisoned fs = f_poisoned fs0 \<and>
     f_commits fs = f_commits fs0 \<and>
     fold undo_range (rev (tx_blog (f_tx fs))) (f_bbits fs) = f_bbits fs0 \<and>
     fold undo_bit (rev (tx_ilog (f_tx fs))) (f_ibits fs) = f_ibits fs0 \<and>
     tx_free_blocks0 (f_tx fs) = f_free_blocks fs0 \<and> tx_free_inodes0 (f_tx fs) = f_free_inodes fs0 \<and>
     tx_hint0 (f_tx fs) = f_alloc_hint fs0"

text \<open>What a transaction in progress on \<open>fs0\<close> keeps.\<close>

definition tx_inv :: "'d fs3 \<Rightarrow> 'd fs3 \<Rightarrow> bool" where
  "tx_inv fs0 fs \<longleftrightarrow> alloc_ok fs \<and> undone fs0 fs"

lemma tx_inv_cache [simp]: "tx_inv fs0 (fs\<lparr>f_cache := c\<rparr>) = tx_inv fs0 fs"
  by (simp add: tx_inv_def alloc_ok_def undone_def)

lemma tx_inv_hint [simp]: "tx_inv fs0 (fs\<lparr>f_alloc_hint := h\<rparr>) = tx_inv fs0 fs"
  by (simp add: tx_inv_def alloc_ok_def undone_def)

lemma tx_inv_lists [simp]:
  "tx_inv fs0 (fs\<lparr>f_tx := (f_tx fs)\<lparr>tx_to_free := xs\<rparr>\<rparr>) = tx_inv fs0 fs"
  "tx_inv fs0 (fs\<lparr>f_tx := (f_tx fs)\<lparr>tx_data := xs\<rparr>\<rparr>) = tx_inv fs0 fs"
  by (simp_all add: tx_inv_def alloc_ok_def undone_def)

lemma tx_inv_meta:
  assumes "tx_inv fs0 fs" and "bt_inv m" and "length m \<le> journal_blocks (f_geo fs)"
  shows "tx_inv fs0 (fs\<lparr>f_tx := (f_tx fs)\<lparr>tx_meta := m\<rparr>\<rparr>)"
  using assms by (auto simp: tx_inv_def alloc_ok_def undone_def Let_def)

lemma tx_inv_overlay:
  assumes "tx_inv fs0 fs"
    and "bt_get (tx_meta (f_tx fs)) b \<noteq> None \<or> length (tx_meta (f_tx fs)) < journal_blocks (f_geo fs)"
  shows "tx_inv fs0 (put_overlay b img fs)"
proof -
  have "bt_inv (tx_meta (f_tx fs))" "length (tx_meta (f_tx fs)) \<le> journal_blocks (f_geo fs)"
    using assms(1) by (auto simp: tx_inv_def alloc_ok_def Let_def)
  then show ?thesis
    unfolding put_overlay_def using assms bt_length_insert [where m = "tx_meta (f_tx fs)" and k = b and v = img]
    by (intro tx_inv_meta bt_inv_insert) auto
qed

lemma tx_inv_remove: "tx_inv fs0 fs \<Longrightarrow> tx_inv fs0 (fs\<lparr>f_tx := (f_tx fs)\<lparr>tx_meta := bt_remove b (tx_meta (f_tx fs))\<rparr>\<rparr>)"
  by (intro tx_inv_meta bt_inv_remove)
    (auto simp: tx_inv_def alloc_ok_def Let_def bt_remove_def intro: le_trans [OF length_filter_le])

lemma tx_inv_free_meta: "tx_inv fs0 fs \<Longrightarrow> tx_inv fs0 (free_meta_block b fs)"
  using tx_inv_lists(1) [where fs = "fs\<lparr>f_tx := (f_tx fs)\<lparr>tx_meta := bt_remove b (tx_meta (f_tx fs))\<rparr>\<rparr>"] tx_inv_remove
  by (simp add: free_meta_block_def)

lemma tx_inv_drop: "tx_inv fs0 fs \<Longrightarrow> tx_inv fs0 (drop_overlay p l fs)"
proof -
  have "bt_inv (fold (\<lambda>k. bt_remove (u32_add p k)) ks m) \<and> length (fold (\<lambda>k. bt_remove (u32_add p k)) ks m) \<le> length m"
    if "bt_inv m" for ks :: "nat list" and m :: "(nat, bytes) btree"
    using that
  proof (induction ks arbitrary: m)
    case (Cons k ks)
    have "length (bt_remove (u32_add p k) m) \<le> length m" by (simp add: bt_remove_def)
    then show ?case using Cons.IH [OF bt_inv_remove [OF Cons.prems], of "u32_add p k"] by simp
  qed simp
  note dropped = this
  assume "tx_inv fs0 fs"
  then show ?thesis
    unfolding drop_overlay_def using dropped [of "tx_meta (f_tx fs)" "[0..<l]"]
    by (intro tx_inv_meta) (auto simp: tx_inv_def alloc_ok_def Let_def)
qed

subsection \<open>The allocator\<close>

lemma mark_range_cases:
  assumes "mark_range s l used fs = (r, fs')"
  obtains (same) "fs' = fs" "l = 0 \<or> (\<exists>e. r = Inl e)"
  | (marked) t where "r = Inr ()" "0 < l" "data_start (f_geo fs) \<le> s" "s + l \<le> backup_sb (f_geo fs)" "s + l < 2 ^ 32"
      "\<And>b. s \<le> b \<Longrightarrow> b < s + l \<Longrightarrow> bits_get (f_bbits fs) b \<noteq> used"
      "fs' = fs\<lparr>f_bbits := fold (mark used) [s..<s + l] (f_bbits fs),
         f_tx := (f_tx fs)\<lparr>tx_touched_bb := t, tx_blog := tx_blog (f_tx fs) @ [(s, l, used)]\<rparr>,
         f_free_blocks := (if used then f_free_blocks fs - l else sat_add32 (f_free_blocks fs) l)\<rparr>"
proof -
  consider "l = 0" | "0 < l" "2 ^ 32 \<le> s + l"
    | "0 < l" "s + l < 2 ^ 32" "s < data_start (f_geo fs) \<or> backup_sb (f_geo fs) < s + l"
    | "0 < l" "s + l < 2 ^ 32" "\<not> (s < data_start (f_geo fs) \<or> backup_sb (f_geo fs) < s + l)"
      "list_ex (\<lambda>b. bits_get (f_bbits fs) b = used) [s..<s + l]"
    | "0 < l" "s + l < 2 ^ 32" "\<not> (s < data_start (f_geo fs) \<or> backup_sb (f_geo fs) < s + l)"
      "\<not> list_ex (\<lambda>b. bits_get (f_bbits fs) b = used) [s..<s + l]"
    by linarith
  then show thesis
  proof cases
    case 5
    then have "\<And>b. s \<le> b \<Longrightarrow> b < s + l \<Longrightarrow> bits_get (f_bbits fs) b \<noteq> used"
      by (auto simp: list_ex_iff)
    with 5 show thesis
      using assms by (intro marked) (auto simp: mark_range_def Let_def checked_add_def mark_eq)
  qed (use assms in \<open>auto simp: mark_range_def checked_add_def intro!: same\<close>)
qed

lemma free_set_mark:
  assumes "length v = div_ceil n 64" and "s + l \<le> n"
    and "\<And>b. s \<le> b \<Longrightarrow> b < s + l \<Longrightarrow> bits_get v b \<noteq> used"
  shows "card (free_set (fold (mark used) [s..<s + l] v) n) =
    (if used then card (free_set v n) - l else card (free_set v n) + l)"
proof -
  have "n \<le> 64 * length v" using div_ceil_bounds(1) [of 64 n] by (simp add: assms(1) mult.commute)
  then have get: "bits_get (fold (mark used) [s..<s + l] v) j = (if s \<le> j \<and> j < s + l then used else bits_get v j)" for j
    using assms(2) by (subst bits_get_mark_fold) auto
  show ?thesis
  proof (cases used)
    case True
    have "free_set (fold (mark used) [s..<s + l] v) n = free_set v n - {s..<s + l}"
      unfolding get by (auto simp: True)
    moreover have "{s..<s + l} \<subseteq> free_set v n" using assms(2,3) True by auto
    ultimately show ?thesis by (simp add: True card_Diff_subset)
  next
    case False
    have "free_set (fold (mark used) [s..<s + l] v) n = free_set v n \<union> {s..<s + l}"
      unfolding get using assms(2) by (auto simp: False)
    moreover have "free_set v n \<inter> {s..<s + l} = {}" using assms(3) False by auto
    ultimately show ?thesis by (simp add: False card_Un_disjoint)
  qed
qed

lemma tx_inv_mark_range:
  assumes "tx_inv fs0 fs" and "mark_range s l used fs = (r, fs')"
  shows "tx_inv fs0 fs'"
  using assms(2)
proof (cases rule: mark_range_cases)
  case same
  then show ?thesis using assms(1) by simp
next
  case (marked t)
  let ?g = "f_geo fs" and ?v = "f_bbits fs"
  let ?w = "fold (mark used) [s..<s + l] ?v"
  have ok: "alloc_ok fs" and un: "undone fs0 fs" using assms(1) by (simp_all add: tx_inv_def)
  have g: "geo_ok ?g" "length ?v = div_ceil (total_blocks ?g) 64" using ok by (auto simp: alloc_ok_def Let_def)
  have fit: "total_blocks ?g \<le> 64 * length ?v" using div_ceil_bounds(1) [of 64 "total_blocks ?g"] by (simp add: g(2) mult.commute)
  have hi: "s + l \<le> total_blocks ?g" using marked(4) by (simp add: backup_sb_def)
  have get: "bits_get ?w j = (if s \<le> j \<and> j < s + l then used else bits_get ?v j)" for j
    using fit hi by (subst bits_get_mark_fold) auto
  have card: "card (free_set ?w (total_blocks ?g)) =
      (if used then card (free_set ?v (total_blocks ?g)) - l else card (free_set ?v (total_blocks ?g)) + l)"
    by (rule free_set_mark) (use g hi marked(6) in auto)
  have "card (free_set ?w (total_blocks ?g)) \<le> card {..<total_blocks ?g}" by (rule card_mono) auto
  then have "card (free_set ?w (total_blocks ?g)) < 2 ^ 32" using g(1) by (simp add: geo_ok_def)
  then have cnt: "(if used then f_free_blocks fs - l else sat_add32 (f_free_blocks fs) l) = card (free_set ?w (total_blocks ?g))"
    using ok card by (auto simp: alloc_ok_def Let_def sat_add32_def)
  have "bits_get ?w b" if "b < data_start ?g \<or> b = backup_sb ?g" for b
    using that ok marked(3,4) by (auto simp: get alloc_ok_def Let_def)
  then have "alloc_ok fs'" using ok cnt unfolding marked(7) by (simp add: alloc_ok_def Let_def)
  moreover have "undo_range (s, l, used) ?w = ?v"
    by (rule undo_mark) (use marked fit hi in auto)
  then have "undone fs0 fs'" using un unfolding marked(7) by (simp add: undone_def)
  ultimately show ?thesis by (simp add: tx_inv_def)
qed

lemma tx_inv_mark_runs: "tx_inv fs0 fs \<Longrightarrow> ends (tx_inv fs0) (mark_runs rs used fs)"
proof (induction rs arbitrary: fs)
  case (Cons r rs)
  have "ends (tx_inv fs0) (mark_range (fst r) (snd r) used fs)"
    using tx_inv_mark_range [OF Cons.prems] by (metis ends_def prod.collapse)
  then show ?case
    by (cases r) (auto intro!: ends_bindr Cons.IH)
qed simp

lemma tx_inv_alloc: "tx_inv fs0 fs \<Longrightarrow> ends (tx_inv fs0) (alloc_blocks n h fs)"
proof -
  have "ends (tx_inv fs0) (mark_range s l True fs)" if "tx_inv fs0 fs" for s l and fs :: "'a fs3"
    using tx_inv_mark_range [OF that] by (metis ends_def prod.collapse)
  then show "tx_inv fs0 fs \<Longrightarrow> ends (tx_inv fs0) (alloc_blocks n h fs)"
    unfolding alloc_blocks_def Let_def by (intro keep_intros tx_inv_mark_runs) auto
qed

subsection \<open>Inodes\<close>

lemma inode_bit:
  assumes "tx_inv fs0 fs" and "i < inode_count (f_geo fs)" and "bits_get (f_ibits fs) i \<noteq> now"
    and "\<not> now \<Longrightarrow> i \<noteq> ROOT_INO - 1 \<and> i \<noteq> TRASH_INO - 1"
    and "n = (if now then f_free_inodes fs - 1 else u32_add (f_free_inodes fs) 1)"
  shows "tx_inv fs0 (fs\<lparr>f_ibits := mark now i (f_ibits fs), f_tx := log_inode i now fs, f_free_inodes := n\<rparr>)"
proof -
  let ?g = "f_geo fs" and ?v = "f_ibits fs"
  let ?w = "mark now i ?v"
  have ok: "alloc_ok fs" and un: "undone fs0 fs" using assms(1) by (simp_all add: tx_inv_def)
  have len: "length ?v = div_ceil (inode_count ?g) 64" and small: "inode_count ?g < 2 ^ 32"
    using ok by (auto simp: alloc_ok_def geo_ok_def Let_def)
  have i: "i < 64 * length ?v"
    using assms(2) div_ceil_bounds(1) [of 64 "inode_count ?g"] by (simp add: len mult.commute)
  then have get: "bits_get ?w j = (if j = i then now else bits_get ?v j)" for j
    by (auto simp: mark_def bits_get_set bits_get_clear div_less_iff_less_mult mult.commute)
  have card: "card (free_set ?w (inode_count ?g)) = (if now then card (free_set ?v (inode_count ?g)) - 1 else card (free_set ?v (inode_count ?g)) + 1)"
    using free_set_mark [of ?v "inode_count ?g" i 1 now] len assms(2,3) by (auto simp: less_Suc_eq_le le_antisym)
  have "card (free_set ?w (inode_count ?g)) \<le> card {..<inode_count ?g}" by (rule card_mono) auto
  then have "n = card (free_set ?w (inode_count ?g))"
    using card ok assms(5) small by (auto simp: alloc_ok_def Let_def)
  moreover have "undo_bit (i, now) ?w = ?v"
    using i assms(3) bits_set_clear [where i = i and v = ?v] by (cases now) (auto simp: undo_bit_def mark_def)
  ultimately show ?thesis
    using ok un assms(4) by (auto simp: tx_inv_def alloc_ok_def undone_def Let_def get)
qed

lemma tx_inv_alloc_inode: "tx_inv fs0 fs \<Longrightarrow> ends (tx_inv fs0) (alloc_inode fs)"
proof -
  assume inv: "tx_inv fs0 fs"
  have len: "inode_count (f_geo fs) \<le> 64 * length (f_ibits fs)" "inode_count (f_geo fs) < 2 ^ 32"
    using inv div_ceil_bounds(1) [of 64 "inode_count (f_geo fs)"]
    by (auto simp: tx_inv_def alloc_ok_def geo_ok_def Let_def mult.commute)
  show ?thesis
  proof (cases "next_free (f_ibits fs) 0 (inode_count (f_geo fs))")
    case None
    then show ?thesis using inv by (simp add: alloc_inode_def)
  next
    case (Some i)
    then have "i < inode_count (f_geo fs)" "\<not> bits_get (f_ibits fs) i"
      using next_with_spec [OF len, of 0 False] by (auto simp: next_free_def first_with_def)
    then show ?thesis
      using Some inode_bit [OF inv, of i True] by (simp add: alloc_inode_def mark_def)
  qed
qed

lemma tx_inv_free_inode:
  assumes "tx_inv fs0 fs" and "ino \<noteq> ROOT_INO" and "ino \<noteq> TRASH_INO" and "inode_loc ino fs = Inr loc"
    and "bits_get (f_ibits fs) (ino - 1)"
  shows "tx_inv fs0 (fs\<lparr>f_ibits := bits_clear (f_ibits fs) (ino - 1), f_tx := log_inode (ino - 1) False fs,
    f_free_inodes := u32_add (f_free_inodes fs) 1\<rparr>)"
proof -
  have "0 < ino" "ino \<le> inode_count (f_geo fs)" using assms(4) by (auto simp: inode_loc_def split: if_splits)
  then show ?thesis
    using inode_bit [OF assms(1), of "ino - 1" False] assms(2,3,5) by (auto simp: mark_def ROOT_INO_def TRASH_INO_def)
qed

text \<open>The operations of the filesystem keep the invariant of the transaction they run in.\<close>

interpretation rollback: tx_invariant dev "tx_inv fs0" False
  for dev :: "'d blockdevice" and fs0 :: "'d fs3"
proof (unfold_locales, goal_cases)
  case (9 fs b img) then show ?case by (rule tx_inv_overlay)
next
  case (10 fs b) then show ?case by (rule tx_inv_free_meta)
next
  case (11 fs p l) then show ?case by (rule tx_inv_drop)
next
  case (13 fs n h) then show ?case using tx_inv_alloc [of fs0 fs n h] by (simp add: ends_def)
next
  case (14 fs n h runs fs') then show ?case using tx_inv_alloc [of fs0 fs n h] by simp
next
  case (15 fs h runs fs') then show ?case using tx_inv_alloc [of fs0 fs 1 h] by simp
next
  case (17 fs) then show ?case using tx_inv_alloc_inode [of fs0 fs] by (simp add: ends_def)
next
  case (18 fs ino loc) then show ?case by (intro tx_inv_free_inode) auto
qed simp_all

end
