(* ===== verification/Journal.thy ===== *)
theory Journal
  imports Fs3Core
begin

text \<open>
  The commit protocol of OJFS v3 against power loss.  \<open>recover\<close> is what mounting does to the
  array of blocks it finds; \<open>replay_journal\<close> refines it.  Whatever an interrupted commit
  leaves on the medium, recovering it gives the blocks of before the transaction or of
  after it.
\<close>

subsection \<open>Blocks of an image\<close>

definition sector :: "nat \<Rightarrow> bytes \<Rightarrow> bytes" where
  "sector k x = get_slice (k * SECTOR_SIZE) SECTOR_SIZE x"

lemma block_eqI:
  assumes "length x = BLOCK_SIZE" and "length y = BLOCK_SIZE"
    and "\<And>k. k < SECTORS_PER_BLOCK \<Longrightarrow> sector k x = sector k y"
  shows "x = y"
proof -
  have "x = concat (map (\<lambda>k. sector k x) [0..<SECTORS_PER_BLOCK])" if "length x = BLOCK_SIZE" for x
    using concat_slices [of SECTOR_SIZE x SECTORS_PER_BLOCK] that by (simp add: sector_def block_sizes(1))
  moreover have "map (\<lambda>k. sector k x) [0..<SECTORS_PER_BLOCK] = map (\<lambda>k. sector k y) [0..<SECTORS_PER_BLOCK]"
    using assms(3) by simp
  ultimately show ?thesis using assms(1,2) by metis
qed

lemma sector_devblk:
  assumes "\<And>k. k < SECTORS_PER_BLOCK \<Longrightarrow> length (m (lba_of c b + k)) = SECTOR_SIZE" and "k < SECTORS_PER_BLOCK"
  shows "sector k (devblk m c b) = m (lba_of c b + k)"
proof -
  have "get_slice (k * SECTOR_SIZE) SECTOR_SIZE (concat (map m [lba_of c b..<lba_of c b + SECTORS_PER_BLOCK])) =
      map m [lba_of c b..<lba_of c b + SECTORS_PER_BLOCK] ! k"
  proof (rule get_slice_concat)
    fix x assume "x \<in> set (map m [lba_of c b..<lba_of c b + SECTORS_PER_BLOCK])"
    then obtain j where j: "lba_of c b \<le> j" "j < lba_of c b + SECTORS_PER_BLOCK" "x = m j" by auto
    then show "length x = SECTOR_SIZE" using assms(1) [of "j - lba_of c b"] by simp
  qed (use assms(2) in simp)
  then show ?thesis using assms(2) by (simp add: sector_def devblk_def)
qed

text \<open>The sectors of different blocks are different sectors.\<close>

lemma sec_new_block:
  assumes "length data = BLOCK_SIZE" and "k < SECTORS_PER_BLOCK"
  shows "sec_new (lba_of c b) data (lba_of c b' + k) = (if b = b' then {sector k data} else {})"
proof -
  have n: "nsec data = SECTORS_PER_BLOCK" using assms(1) by (simp add: SECTORS_PER_BLOCK_def)
  consider "b = b'" | "b < b'" | "b' < b" by linarith
  then show ?thesis
  proof cases
    case 1
    then show ?thesis using assms(2) by (simp add: sec_new_def n sector_def)
  next
    case 2
    then show ?thesis using lba_of_gap [OF 2, of c] by (simp add: sec_new_def n)
  next
    case 3
    then show ?thesis using lba_of_gap [OF 3, of c] assms(2) by (simp add: sec_new_def n)
  qed
qed

text \<open>\<open>image P m\<close>: \<open>m\<close> is a medium a power cut may leave, sector by sector.\<close>

definition image_of :: "(nat \<Rightarrow> bytes set) \<Rightarrow> (nat \<Rightarrow> bytes) \<Rightarrow> bool" where
  "image_of P m \<longleftrightarrow> (\<forall>i. m i \<in> P i)"

definition settled :: "(nat \<Rightarrow> bytes set) \<Rightarrow> 'd block_cache \<Rightarrow> nat \<Rightarrow> bytes \<Rightarrow> bool" where
  "settled P c b x \<longleftrightarrow> (\<forall>k < SECTORS_PER_BLOCK. P (lba_of c b + k) \<subseteq> {sector k x})"

lemma settled_image:
  assumes "settled P c b x" and "image_of P m" and "length x = BLOCK_SIZE"
  shows "devblk m c b = x"
proof -
  have eq: "m (lba_of c b + k) = sector k x" if "k < SECTORS_PER_BLOCK" for k
    using assms(1,2) that by (auto simp: settled_def image_of_def)
  have "devblk m c b = concat (map (\<lambda>k. sector k x) [0..<SECTORS_PER_BLOCK])"
  proof -
    have "map m [lba_of c b..<lba_of c b + SECTORS_PER_BLOCK] = map (\<lambda>k. sector k x) [0..<SECTORS_PER_BLOCK]"
      by (rule nth_equalityI) (simp_all add: eq)
    then show ?thesis by (simp add: devblk_def)
  qed
  also have "\<dots> = x" using concat_slices [of SECTOR_SIZE x SECTORS_PER_BLOCK] assms(3) by (simp add: sector_def block_sizes(1))
  finally show ?thesis .
qed

lemma settled_mono:
  assumes "settled P c b x" and "\<And>k. k < SECTORS_PER_BLOCK \<Longrightarrow> P' (lba_of c b + k) \<subseteq> P (lba_of c b + k)"
  shows "settled P' c b x"
  using assms unfolding settled_def by blast

subsection \<open>Runs of direct writes\<close>

definition vput :: "(nat \<times> bytes \<times> nat) list \<Rightarrow> (nat \<Rightarrow> bytes) \<Rightarrow> nat \<Rightarrow> bytes" where
  "vput ws v = fold (\<lambda>(b, data, tag) v. v(b := data)) ws v"

definition blk_ok :: "(nat \<times> bytes \<times> nat) list \<Rightarrow> bool" where
  "blk_ok ws \<longleftrightarrow> (\<forall>w \<in> set ws. length (fst (snd w)) = BLOCK_SIZE)"

definition wnew :: "'d block_cache \<Rightarrow> (nat \<times> bytes \<times> nat) list \<Rightarrow> nat \<Rightarrow> bytes set" where
  "wnew c ws i = (\<Union>w \<in> set ws. sec_new (lba_of c (fst w)) (fst (snd w)) i)"

lemma vput_simps [simp]: "vput [] v = v" "vput ((b, data, tag) # ws) v = vput ws (v(b := data))"
  by (simp_all add: vput_def)

lemma vput_other: "b \<notin> fst ` set ws \<Longrightarrow> vput ws v b = v b"
  by (induction ws arbitrary: v) auto

lemma vput_at:
  assumes "distinct (map fst ws)" and "(b, data, tag) \<in> set ws"
  shows "vput ws v b = data"
  using assms
proof (induction ws arbitrary: v)
  case Nil
  then show ?case by simp
next
  case (Cons w ws)
  then show ?case
  proof (cases "(b, data, tag) \<in> set ws")
    case True
    then show ?thesis using Cons by (cases w) auto
  next
    case False
    then have "w = (b, data, tag)" using Cons.prems(2) by auto
    then show ?thesis using Cons.prems(1) vput_other [of b ws] by simp
  qed
qed

lemma wnew_block:
  assumes "blk_ok ws" and "k < SECTORS_PER_BLOCK"
  shows "wnew c ws (lba_of c b + k) \<subseteq> {sector k data |data tag. (b, data, tag) \<in> set ws}"
proof
  fix x assume "x \<in> wnew c ws (lba_of c b + k)"
  then obtain b' data tag where w: "(b', data, tag) \<in> set ws" "x \<in> sec_new (lba_of c b') data (lba_of c b + k)"
    by (auto simp: wnew_def)
  have "length data = BLOCK_SIZE" using assms(1) w(1) by (auto simp: blk_ok_def)
  then show "x \<in> {sector k data |data tag. (b, data, tag) \<in> set ws}"
    using sec_new_block [of data k c b' b] assms(2) w by (auto split: if_splits)
qed

lemma wnew_other: "blk_ok ws \<Longrightarrow> k < SECTORS_PER_BLOCK \<Longrightarrow> b \<notin> fst ` set ws \<Longrightarrow> wnew c ws (lba_of c b + k) = {}"
  using wnew_block [of ws k c b] by force

text \<open>\<open>mixed x y z\<close>: each sector of \<open>z\<close> is that of \<open>x\<close> or that of \<open>y\<close>, a torn block write.\<close>

definition mixed :: "bytes \<Rightarrow> bytes \<Rightarrow> bytes \<Rightarrow> bool" where
  "mixed x y z \<longleftrightarrow> length z = BLOCK_SIZE \<and> (\<forall>k < SECTORS_PER_BLOCK. sector k z \<in> {sector k x, sector k y})"

lemma length_sector: "length x = BLOCK_SIZE \<Longrightarrow> k < SECTORS_PER_BLOCK \<Longrightarrow> length (sector k x) = SECTOR_SIZE"
  by (simp add: sector_def SECTORS_PER_BLOCK_def BLOCK_SIZE_def SECTOR_SIZE_def)

lemma image_mixed:
  assumes "\<And>k. k < SECTORS_PER_BLOCK \<Longrightarrow> P (lba_of c b + k) \<subseteq> {sector k x, sector k y}" and "image_of P m"
    and "length x = BLOCK_SIZE" and "length y = BLOCK_SIZE"
  shows "mixed x y (devblk m c b)"
proof -
  have at: "m (lba_of c b + k) \<in> {sector k x, sector k y}" if "k < SECTORS_PER_BLOCK" for k
    using assms(1) [OF that] assms(2) by (auto simp: image_of_def)
  have len: "length (m (lba_of c b + k)) = SECTOR_SIZE" if "k < SECTORS_PER_BLOCK" for k
    using at [OF that] length_sector [OF assms(3) that] length_sector [OF assms(4) that] by auto
  have "length (devblk m c b) = sum_list (map (\<lambda>j. length (m j)) [lba_of c b..<lba_of c b + SECTORS_PER_BLOCK])"
    by (simp add: devblk_def length_concat o_def)
  also have "map (\<lambda>j. length (m j)) [lba_of c b..<lba_of c b + SECTORS_PER_BLOCK] = replicate SECTORS_PER_BLOCK SECTOR_SIZE"
    by (rule nth_equalityI) (simp_all add: len)
  finally have "length (devblk m c b) = BLOCK_SIZE" by (simp add: sum_list_replicate SECTORS_PER_BLOCK_def BLOCK_SIZE_def SECTOR_SIZE_def)
  then show ?thesis using at sector_devblk [of m c b] len by (simp add: mixed_def)
qed

lemma mixed_same: "mixed x x z \<Longrightarrow> length x = BLOCK_SIZE \<Longrightarrow> z = x"
  by (rule block_eqI) (auto simp: mixed_def)

lemma mixed_swap: "mixed x y z \<longleftrightarrow> mixed y x z"
  by (auto simp: mixed_def)

text \<open>
  The blocks an image of the medium shows after a run of direct writes on a settled medium,
  whether the run completed or not.
\<close>

lemma image_after:
  assumes "settled P c b x" and "\<And>i. P' i \<subseteq> P i \<union> wnew c ws i" and "image_of P' m" and "blk_ok ws"
    and "length x = BLOCK_SIZE"
  shows "b \<notin> fst ` set ws \<Longrightarrow> devblk m c b = x"
    and "distinct (map fst ws) \<Longrightarrow> (b, data, tag) \<in> set ws \<Longrightarrow> mixed x data (devblk m c b)"
proof -
  assume b: "b \<notin> fst ` set ws"
  have "settled P' c b x"
  proof (rule settled_mono [OF assms(1)])
    fix k assume k: "k < SECTORS_PER_BLOCK"
    show "P' (lba_of c b + k) \<subseteq> P (lba_of c b + k)"
      using assms(2) [of "lba_of c b + k"] wnew_other [OF assms(4) k b, of c] by auto
  qed
  then show "devblk m c b = x" by (rule settled_image [OF _ assms(3,5)])
next
  assume d: "distinct (map fst ws)" and w: "(b, data, tag) \<in> set ws"
  show "mixed x data (devblk m c b)"
  proof (rule image_mixed [OF _ assms(3) assms(5)])
    fix k assume k: "k < SECTORS_PER_BLOCK"
    have "data' = data" if "(b, data', tag') \<in> set ws" for data' tag'
      using d w that by (metis Pair_inject eq_key_imp_eq_value)
    then have "wnew c ws (lba_of c b + k) \<subseteq> {sector k data}"
      using wnew_block [OF assms(4) k, of c b] by auto
    then show "P' (lba_of c b + k) \<subseteq> {sector k x, sector k data}"
      using assms(1,2) k unfolding settled_def by blast
  next
    show "length data = BLOCK_SIZE" using assms(4) w by (auto simp: blk_ok_def)
  qed
qed

text \<open>\<open>all_settled\<close>: a power cut leaves exactly the blocks the cache presents.\<close>

definition all_settled :: "'d blockdevice \<Rightarrow> ('d \<Rightarrow> (nat \<Rightarrow> bytes) \<Rightarrow> bool) \<Rightarrow> ('d \<Rightarrow> nat \<Rightarrow> bytes set) \<Rightarrow>
    'd block_cache \<Rightarrow> (nat \<Rightarrow> bytes) \<Rightarrow> bool" where
  "all_settled dev holds poss c v \<longleftrightarrow>
     cache_is dev holds c v \<and> (\<forall>b < nblocks c. settled (cposs poss c) c b (v b))"

subsection \<open>Recovery\<close>

text \<open>
  What \<open>replay_journal\<close> does to the array of blocks it finds: an empty, unreadable or torn
  commit record is ignored; a complete one is copied home and cleared.
\<close>

definition home_of :: "nat list \<Rightarrow> bytes \<Rightarrow> (nat \<times> bytes \<times> nat) list" where
  "home_of targets payload =
     map (\<lambda>(i, t). (t, get_slice (i * BLOCK_SIZE) BLOCK_SIZE payload, 0)) (zip [0..<length targets] targets)"

definition recover :: "geometry \<Rightarrow> (nat \<Rightarrow> bytes) \<Rightarrow> fs_error + nat \<times> (nat \<Rightarrow> bytes)" where
  "recover g v =
     (case parse_journal_header (v (jhdr g)) (journal_blocks g) of
        None \<Rightarrow> Inr (0, v)
      | Some p \<Rightarrow>
          let n = length (jh_targets p); payload = concat (map v [jpayload g..<jpayload g + n]) in
          if n = 0 \<or> \<not> journal_crc_ok (v (jhdr g)) payload then Inr (jh_seq p, v)
          else if list_ex (\<lambda>t. t < bbitmap_start g \<or> backup_sb g \<le> t) (jh_targets p)
          then Inl (Corrupt ''journal target out of range'')
          else Inr (jh_seq p, (vput (home_of (jh_targets p) payload) v)(jhdr g := build_journal_header (jh_seq p) [] [])))"

text \<open>\<open>pending\<close>: a complete commit record.  Only the journal region matters to it.\<close>

definition pending :: "geometry \<Rightarrow> (nat \<Rightarrow> bytes) \<Rightarrow> journal_header \<Rightarrow> bool" where
  "pending g v p \<longleftrightarrow> parse_journal_header (v (jhdr g)) (journal_blocks g) = Some p \<and> jh_targets p \<noteq> [] \<and>
     journal_crc_ok (v (jhdr g)) (concat (map v [jpayload g..<jpayload g + length (jh_targets p)]))"

definition in_range :: "geometry \<Rightarrow> nat list \<Rightarrow> bool" where
  "in_range g targets \<longleftrightarrow> (\<forall>t \<in> set targets. bbitmap_start g \<le> t \<and> t < backup_sb g)"

definition jarea :: "geometry \<Rightarrow> nat set" where
  "jarea g = insert (jhdr g) {jpayload g..<jpayload g + journal_blocks g}"

definition payload_of :: "geometry \<Rightarrow> (nat \<Rightarrow> bytes) \<Rightarrow> nat \<Rightarrow> bytes" where
  "payload_of g v n = concat (map v [jpayload g..<jpayload g + n])"

lemma recover_ignored: "(\<And>p. \<not> pending g v p) \<Longrightarrow> \<exists>s. recover g v = Inr (s, v)"
  by (auto simp: recover_def pending_def Let_def split: option.splits)

lemma recover_pending:
  "pending g v p \<Longrightarrow> in_range g (jh_targets p) \<Longrightarrow> recover g v =
    Inr (jh_seq p, (vput (home_of (jh_targets p) (payload_of g v (length (jh_targets p)))) v)
      (jhdr g := build_journal_header (jh_seq p) [] []))"
  by (auto simp: recover_def pending_def in_range_def payload_of_def Let_def list_ex_iff)

lemma parse_targets: "parse_journal_header h n = Some p \<Longrightarrow> length (jh_targets p) \<le> n"
  by (auto simp: parse_journal_header_def Let_def split: if_splits)

lemma payload_cong:
  "(\<And>b. b \<in> jarea g \<Longrightarrow> v' b = v b) \<Longrightarrow> n \<le> journal_blocks g \<Longrightarrow> payload_of g v' n = payload_of g v n"
  unfolding payload_of_def by (rule arg_cong [of _ _ concat]) (auto simp: jarea_def)

lemma pending_cong:
  assumes "\<And>b. b \<in> jarea g \<Longrightarrow> v' b = v b"
  shows "pending g v' p = pending g v p"
proof -
  have h: "v' (jhdr g) = v (jhdr g)" using assms by (simp add: jarea_def)
  show ?thesis
  proof (cases "parse_journal_header (v (jhdr g)) (journal_blocks g) = Some p")
    case True
    then show ?thesis using payload_cong [OF assms parse_targets [OF True]]
      by (simp add: pending_def h payload_of_def)
  next
    case False
    then show ?thesis by (simp add: pending_def h)
  qed
qed

lemma geo_journal:
  assumes "geo_ok g"
  shows "b \<in> jarea g \<Longrightarrow> b < bbitmap_start g" and "b \<in> jarea g \<Longrightarrow> b < total_blocks g"
    and "jhdr g \<notin> {jpayload g..<x}" and "journal_blocks g \<le> MAX_JOURNAL_BLOCKS"
    and "jpayload g + journal_blocks g \<le> total_blocks g" and "jhdr g \<in> jarea g"
  using assms by (auto simp: geo_ok_def jarea_def)

lemma length_payload_of:
  assumes "\<And>b. b \<in> jarea g \<Longrightarrow> length (v b) = BLOCK_SIZE" and "n \<le> journal_blocks g"
  shows "length (payload_of g v n) = n * BLOCK_SIZE"
proof -
  have "map (\<lambda>b. length (v b)) [jpayload g..<jpayload g + n] = replicate n BLOCK_SIZE"
    by (rule nth_equalityI) (use assms in \<open>simp_all add: jarea_def\<close>)
  then show ?thesis by (simp add: payload_of_def length_concat o_def sum_list_replicate)
qed

lemma home_of_props:
  shows "fst ` set (home_of targets payload) = set targets"
    and "length payload = length targets * BLOCK_SIZE \<Longrightarrow> blk_ok (home_of targets payload)"
    and "targets \<noteq> [] \<Longrightarrow> home_of targets payload \<noteq> []"
proof -
  show "fst ` set (home_of targets payload) = set targets"
    by (force simp: home_of_def set_zip in_set_conv_nth image_iff)
  show "targets \<noteq> [] \<Longrightarrow> home_of targets payload \<noteq> []"
    by (cases targets) (simp_all add: home_of_def upt_conv_Cons)
  assume len: "length payload = length targets * BLOCK_SIZE"
  have le: "i * BLOCK_SIZE + BLOCK_SIZE \<le> length payload" if "i < length targets" for i
    unfolding len using that by (metis Suc_leI add.commute mult_Suc mult_le_mono1)
  then have "length (get_slice (i * BLOCK_SIZE) BLOCK_SIZE payload) = BLOCK_SIZE" if "i < length targets" for i
    using le [OF that] by simp
  then show "blk_ok (home_of targets payload)"
    by (auto simp: blk_ok_def home_of_def set_zip simp del: length_get_slice)
qed

text \<open>The last half of a commit, and all of a replay: home locations, then the empty record.\<close>

definition apply_home :: "'d blockdevice \<Rightarrow> geometry \<Rightarrow> nat \<Rightarrow> (nat \<times> bytes \<times> nat) list \<Rightarrow> 'd block_cache \<Rightarrow>
    ('d block_cache, io_error, unit) res" where
  "apply_home dev g seq ws c =
     bindr (bindr (write_blocks dev ws c) (\<lambda>_ c. bc_flush dev c)) (\<lambda>_ c.
     bindr (write_blocks dev [(jhdr g, build_journal_header seq [] [], 0)] c) (\<lambda>_ c. bc_flush dev c))"

lemma bindr_assoc: "bindr (bindr r f) h = bindr r (\<lambda>x s. bindr (f x s) h)"
  by (cases r) (auto simp: bindr_def split: sum.splits)

lemma cache_io_bindr: "bindr (cache_io r) (\<lambda>x c. cache_io (f x c)) = cache_io (bindr r f)"
  by (cases r) (auto simp: bindr_def cache_io_def split: sum.splits)

lemma cache_io_ret: "bindr (cache_io r) (\<lambda>u c. (Inr x, c)) = cache_io (bindr r (\<lambda>u c. (Inr x, c)))"
  by (cases r) (auto simp: bindr_def cache_io_def split: sum.splits)

lemma write_direct_blocks: "write_direct dev b data tag c = write_blocks dev [(b, data, tag)] c"
  by (cases "write_direct dev b data tag c"; cases "fst (write_direct dev b data tag c)") auto

lemma replay_journal_alt:
  "replay_journal dev g c =
     bindr (cache_io (bc_read dev (jhdr g) c)) (\<lambda>h c.
       case parse_journal_header h (journal_blocks g) of
         None \<Rightarrow> (Inr 0, c)
       | Some p \<Rightarrow>
           if jh_targets p = [] then (Inr (jh_seq p), c)
           else bindr (cache_io (read_many dev (jpayload g) (length (jh_targets p) * BLOCK_SIZE) c)) (\<lambda>payload c.
             if \<not> journal_crc_ok h payload then (Inr (jh_seq p), c)
             else if \<not> in_range g (jh_targets p) then (Inl (Corrupt ''journal target out of range''), c)
             else cache_io (bindr (apply_home dev g (jh_seq p) (home_of (jh_targets p) payload) c)
               (\<lambda>_ c. (Inr (jh_seq p), c)))))"
proof -
  have rng: "list_ex (\<lambda>t. t < bbitmap_start g \<or> backup_sb g \<le> t) ts = (\<not> in_range g ts)" for ts
    by (simp add: list_ex_iff in_range_def) (meson linorder_not_le)
  show ?thesis
    unfolding replay_journal_def apply_home_def write_direct_blocks [of dev] home_of_def [symmetric]
      rng cache_io_bindr cache_io_ret bindr_assoc Let_def length_0_conv ..
qed

lemma journal_steps_alt:
  "journal_steps dev g seq targets blocks c =
     bindr (bindr (write_blocks dev (payload_writes g blocks) c) (\<lambda>_ c. bc_flush dev c)) (\<lambda>_ c.
     bindr (bindr (write_blocks dev [(jhdr g, build_journal_header seq targets blocks, 0)] c) (\<lambda>_ c. bc_flush dev c)) (\<lambda>_ c.
       apply_home dev g seq (home_writes targets blocks) c))"
  unfolding journal_steps_def apply_home_def write_direct_blocks [of dev] bindr_assoc ..

subsection \<open>Torn records\<close>

text \<open>
  \<open>torn_safe g v y\<close>: a commit record half overwritten by \<open>y\<close> is not taken for a complete one,
  which the checksum over header and payload is there for.  When the record fits in one
  sector nothing has to be assumed of the checksum.
\<close>

definition torn_safe :: "geometry \<Rightarrow> (nat \<Rightarrow> bytes) \<Rightarrow> bytes \<Rightarrow> bool" where
  "torn_safe g v y \<longleftrightarrow> (\<forall>h. mixed (v (jhdr g)) y h \<longrightarrow> h = v (jhdr g) \<or> h = y \<or> (\<forall>p. \<not> pending g (v(jhdr g := h)) p))"

lemma mixed_one_sector:
  assumes "mixed x y h" and "length x = BLOCK_SIZE" and "length y = BLOCK_SIZE"
    and "\<And>k. 0 < k \<Longrightarrow> k < SECTORS_PER_BLOCK \<Longrightarrow> sector k x = sector k y"
  shows "h = x \<or> h = y"
proof -
  have h: "length h = BLOCK_SIZE" "\<And>k. k < SECTORS_PER_BLOCK \<Longrightarrow> sector k h \<in> {sector k x, sector k y}"
    using assms(1) by (auto simp: mixed_def)
  consider "sector 0 h = sector 0 x" | "sector 0 h = sector 0 y" using h(2) [of 0] by (auto simp: SECTORS_PER_BLOCK_def BLOCK_SIZE_def SECTOR_SIZE_def)
  then show ?thesis
  proof cases
    case 1
    have "sector k h = sector k x" if "k < SECTORS_PER_BLOCK" for k
      using h(2) [OF that] assms(4) [of k] that 1 by (cases "k = 0") auto
    then show ?thesis using block_eqI [OF h(1) assms(2)] by blast
  next
    case 2
    have "sector k h = sector k y" if "k < SECTORS_PER_BLOCK" for k
      using h(2) [OF that] assms(4) [of k] that 2 by (cases "k = 0") auto
    then show ?thesis using block_eqI [OF h(1) assms(3)] by blast
  qed
qed

lemma torn_safe_small:
  assumes "v (jhdr g) = build_journal_header s targets blocks" and "24 + 4 * length targets \<le> SECTOR_SIZE"
    and "24 + 4 * length targets' \<le> SECTOR_SIZE"
  shows "torn_safe g v (build_journal_header s' targets' blocks')"
proof -
  have l: "length targets \<le> MAX_JOURNAL_BLOCKS" "length targets' \<le> MAX_JOURNAL_BLOCKS"
    using assms(2,3) by (simp_all add: layout_consts)
  have eq: "sector k (build_journal_header s targets blocks) = sector k (build_journal_header s' targets' blocks')"
    if "0 < k" "k < SECTORS_PER_BLOCK" for k
  proof -
    have "SECTOR_SIZE \<le> k * SECTOR_SIZE" "k * SECTOR_SIZE + SECTOR_SIZE \<le> BLOCK_SIZE"
      using that by (simp_all add: SECTORS_PER_BLOCK_def BLOCK_SIZE_def SECTOR_SIZE_def)
    then show ?thesis using header_tail_zero [OF assms(2)] header_tail_zero [OF assms(3)] by (simp add: sector_def)
  qed
  show ?thesis
    unfolding torn_safe_def assms(1) using mixed_one_sector [OF _ _ _ eq] l length_journal_header by blast
qed

lemma empty_not_pending:
  assumes "v (jhdr g) = build_journal_header s [] []" and "s < 2 ^ 64" and "geo_ok g"
  shows "\<not> pending g v p"
  using journal_header_roundtrip [of "[]" "journal_blocks g" s "[]"] geo_journal(4) [OF assms(3)] assms(1,2)
  by (auto simp: pending_def)

lemma vput_eq: "b \<in> fst ` set ws \<Longrightarrow> vput ws v b = vput ws v' b"
proof (induction ws arbitrary: v v')
  case (Cons w ws)
  obtain x y z where w: "w = (x, y, z)" by (cases w)
  show ?case
  proof (cases "b \<in> fst ` set ws")
    case True
    then show ?thesis using Cons.IH by (simp add: w)
  next
    case False
    then show ?thesis using Cons.prems vput_other [OF False] by (simp add: w)
  qed
qed simp

text \<open>Recovering an image that still has the record, or that has lost it after the home writes.\<close>

lemma recover_home:
  assumes "geo_ok g" and "pending g v p" and "in_range g (jh_targets p)" and "fst ` set ws = set (jh_targets p)"
    and "\<And>x. vput ws x = vput (home_of (jh_targets p) (payload_of g v (length (jh_targets p)))) x"
    and "\<And>b. b \<in> jarea g \<Longrightarrow> V b = v b" and "\<And>b. b < n \<Longrightarrow> b \<notin> jarea g \<Longrightarrow> b \<notin> set (jh_targets p) \<Longrightarrow> V b = v b"
  shows "\<exists>s V'. recover g V = Inr (s, V') \<and> (\<forall>b < n. b \<notin> jarea g \<longrightarrow> V' b = vput ws v b)"
proof -
  have pl: "payload_of g V (length (jh_targets p)) = payload_of g v (length (jh_targets p))"
    by (rule payload_cong [OF assms(6)]) (use assms(2) parse_targets in \<open>auto simp: pending_def\<close>)
  have "pending g V p" using pending_cong [OF assms(6)] assms(2) by simp
  from recover_pending [OF this assms(3)]
  have rec: "recover g V = Inr (jh_seq p, (vput ws V)(jhdr g := build_journal_header (jh_seq p) [] []))"
    by (simp add: pl assms(5))
  have "((vput ws V)(jhdr g := build_journal_header (jh_seq p) [] [])) b = vput ws v b" if "b < n" "b \<notin> jarea g" for b
  proof -
    have "b \<noteq> jhdr g" using that(2) geo_journal(6) [OF assms(1)] by auto
    moreover have "vput ws V b = vput ws v b"
    proof (cases "b \<in> fst ` set ws")
      case True
      then show ?thesis by (rule vput_eq)
    next
      case False
      then show ?thesis using assms(7) [OF that] vput_other [OF False] by (simp add: assms(4))
    qed
    ultimately show ?thesis by simp
  qed
  then show ?thesis using rec by blast
qed

subsection \<open>What a commit writes\<close>

definition tx_ok :: "geometry \<Rightarrow> nat list \<Rightarrow> bytes list \<Rightarrow> bool" where
  "tx_ok g targets blocks \<longleftrightarrow> targets \<noteq> [] \<and> distinct targets \<and> length blocks = length targets \<and>
     length targets \<le> journal_blocks g \<and> in_range g targets \<and> list_all (\<lambda>b. length b = BLOCK_SIZE) blocks"

lemma payload_writes_props:
  assumes "geo_ok g" and "tx_ok g targets blocks"
  shows "blk_ok (payload_writes g blocks)" and "payload_writes g blocks \<noteq> []"
    and "fst ` set (payload_writes g blocks) = {jpayload g..<jpayload g + length targets}"
    and "map (vput (payload_writes g blocks) v) [jpayload g..<jpayload g + length targets] = blocks"
proof -
  have len: "length blocks = length targets" "length targets \<le> journal_blocks g" "\<And>b. b \<in> set blocks \<Longrightarrow> length b = BLOCK_SIZE"
    using assms(2) by (auto simp: tx_ok_def list_all_iff)
  have ad: "u32_add (jpayload g) (as_u32 i) = jpayload g + i" if "i < length blocks" for i
    using assms(1) that len by (simp add: geo_ok_def u32_add_def)
  have eq: "payload_writes g blocks = map (\<lambda>i. (jpayload g + i, blocks ! i, 0)) [0..<length blocks]"
    by (rule nth_equalityI) (simp_all add: payload_writes_def ad)
  show "blk_ok (payload_writes g blocks)" using len by (auto simp: eq blk_ok_def)
  show "payload_writes g blocks \<noteq> []" using assms(2) by (auto simp: eq tx_ok_def)
  show "fst ` set (payload_writes g blocks) = {jpayload g..<jpayload g + length targets}"
  proof -
    have "fst ` set (payload_writes g blocks) = (\<lambda>i. jpayload g + i) ` {0..<length targets}"
      by (simp add: eq len(1) image_image)
    then show ?thesis by (simp add: add.commute)
  qed
  have d: "distinct (map fst (payload_writes g blocks))" by (simp add: eq o_def distinct_map)
  show "map (vput (payload_writes g blocks) v) [jpayload g..<jpayload g + length targets] = blocks"
  proof (rule nth_equalityI)
    fix i assume "i < length (map (vput (payload_writes g blocks) v) [jpayload g..<jpayload g + length targets])"
    then have i: "i < length targets" by simp
    then have "(jpayload g + i, blocks ! i, 0) \<in> set (payload_writes g blocks)" by (auto simp: eq len(1))
    then show "map (vput (payload_writes g blocks) v) [jpayload g..<jpayload g + length targets] ! i = blocks ! i"
      using vput_at [OF d] i by simp
  qed (simp add: len)
qed

lemma home_writes_props:
  assumes "tx_ok g targets blocks"
  shows "blk_ok (home_writes targets blocks)" and "home_writes targets blocks \<noteq> []"
    and "fst ` set (home_writes targets blocks) = set targets"
    and "vput (home_writes targets blocks) v = vput (home_of targets (concat blocks)) v"
proof -
  have len: "length blocks = length targets" "\<And>b. b \<in> set blocks \<Longrightarrow> length b = BLOCK_SIZE" "targets \<noteq> []"
    using assms by (auto simp: tx_ok_def list_all_iff)
  show "blk_ok (home_writes targets blocks)" using len(2) by (auto simp: home_writes_def blk_ok_def dest: set_zip_rightD)
  show "home_writes targets blocks \<noteq> []" using len(1,3) by (cases blocks; cases targets) (auto simp: home_writes_def)
  have m: "map fst (home_writes targets blocks) = targets" using len(1) by (simp add: home_writes_def o_def split_def)
  then show "fst ` set (home_writes targets blocks) = set targets" by (metis list.set_map)
  have v: "vput (map (\<lambda>(t, b). (t, b, f b)) xs) v = fold (\<lambda>(t, b) v. v(t := b)) xs v" for f :: "bytes \<Rightarrow> nat" and xs v
    by (induction xs arbitrary: v) auto
  have ho: "home_of targets (concat blocks) = map (\<lambda>(t, b). (t, b, 0)) (zip targets blocks)"
    by (rule nth_equalityI) (use len in \<open>simp_all add: home_of_def get_slice_concat\<close>)
  show "vput (home_writes targets blocks) v = vput (home_of targets (concat blocks)) v"
    unfolding ho home_writes_def v ..
qed

text \<open>What is known of the device when a write has failed: it still holds something, and covers the blocks.\<close>

definition dev_ok :: "'d blockdevice \<Rightarrow> ('d \<Rightarrow> (nat \<Rightarrow> bytes) \<Rightarrow> bool) \<Rightarrow> 'd block_cache \<Rightarrow> bool" where
  "dev_ok dev holds c \<longleftrightarrow> (\<exists>m. holds (bc_dev c) m) \<and> lba_of c (nblocks c) \<le> sector_count dev (bc_dev c)"

lemma cache_is_dev_ok: "cache_is dev holds c v \<Longrightarrow> dev_ok dev holds c"
  by (auto simp: cache_is_def dev_ok_def cinv_def cbody_def)

context block_device
begin

lemma write_direct_dev_ok:
  assumes "cache_is dev holds c v" and "write_direct dev b data tag c = (r, c')"
  shows "dev_ok dev holds c'"
proof (cases "bc_check c b 1")
  case (Inl e)
  then show ?thesis using assms cache_is_dev_ok by (auto simp: write_direct_def)
next
  case (Inr u)
  obtain rr d where w: "write_sectors dev (bc_dev c) (lba_of c b) data = (rr, d)" by fastforce
  obtain m where m: "holds (bc_dev c) m" and s: "lba_of c (nblocks c) \<le> sector_count dev (bc_dev c)"
    using cache_is_dev_ok [OF assms(1)] by (auto simp: dev_ok_def)
  have d: "sector_count dev d = sector_count dev (bc_dev c)" "\<exists>m'. holds d m'"
    using write_keeps [OF m w] by blast+
  have "bc_dev c' = d" "lba_of c' = lba_of c" "nblocks c' = nblocks c"
    using assms(2) Inr w
    by (cases rr; auto simp: write_direct_def Let_def lba_of_def [abs_def] bump_def split: option.splits)+
  then show ?thesis using d s by (simp add: dev_ok_def)
qed

lemma write_blocks_step:
  assumes "cache_is dev holds c v" and "blk_ok ws" and "write_blocks dev ws c = (r, c')"
  shows "geo c' = geo c \<and> dev_ok dev holds c' \<and> (\<forall>i. cposs poss c' i \<subseteq> cposs poss c i \<union> wnew c ws i) \<and>
    (r = Inr () \<longrightarrow> cache_is dev holds c' (vput ws v) \<and> (ws \<noteq> [] \<longrightarrow> dev_dirty c') \<and>
      (\<forall>w \<in> set ws. fst w < nblocks c))"
  using assms
proof (induction ws arbitrary: c v)
  case Nil
  then show ?case using cache_is_dev_ok by auto
next
  case (Cons w ws)
  obtain b data tag where w: "w = (b, data, tag)" by (cases w)
  have len: "length data = BLOCK_SIZE" and ok: "blk_ok ws" using Cons.prems(2) by (auto simp: w blk_ok_def)
  obtain r1 c1 where d: "write_direct dev b data tag c = (r1, c1)" by fastforce
  note s = write_direct_step [OF Cons.prems(1) d len]
  show ?case
  proof (cases r1)
    case (Inl e)
    then have "r = Inl e" "c' = c1" using Cons.prems(3) d by (simp_all add: w)
    then show ?thesis using s(1,2) write_direct_dev_ok [OF Cons.prems(1) d] by (fastforce simp: wnew_def w)
  next
    case (Inr u)
    then have rest: "write_blocks dev ws c1 = (r, c')" using Cons.prems(3) d by (simp add: w)
    have s1: "b < nblocks c" "dev_dirty c1" "cache_is dev holds c1 (v(b := data))"
      using s(3) [OF Inr] by (auto simp: cstep_def)
    note IH = Cons.IH [OF s1(3) ok rest]
    have lba: "lba_of c1 = lba_of c" "nblocks c1 = nblocks c" using geo_lba [OF s(1)] s(1) by (simp_all add: geo_def)
    have "cposs poss c' i \<subseteq> cposs poss c i \<union> wnew c (w # ws) i" for i
    proof -
      have "cposs poss c' i \<subseteq> cposs poss c1 i \<union> wnew c1 ws i" using IH by simp
      moreover have "wnew c1 ws i = wnew c ws i" by (simp add: wnew_def lba)
      ultimately show ?thesis using s(2) [of i] by (auto simp: wnew_def w)
    qed
    moreover have "dev_dirty c'" if "r = Inr ()"
      using IH that s1(2) rest by (cases ws) auto
    moreover have "\<forall>w \<in> set (w # ws). fst w < nblocks c" if "r = Inr ()"
      using IH that s1(1) lba(2) by (simp add: w)
    moreover have "cache_is dev holds c' (vput (w # ws) v)" if "r = Inr ()"
      using IH that unfolding w vput_simps by blast
    moreover have "geo c' = geo c" "dev_ok dev holds c'" using IH s(1) by simp_all
    ultimately show ?thesis by blast
  qed
qed

text \<open>A run of direct writes closed by a flush: nothing but the run reaches the medium, and a success settles it.\<close>

lemma barrier:
  assumes "cache_is dev holds c v" and "blk_ok ws" and "ws \<noteq> []"
    and "bindr (write_blocks dev ws c) (\<lambda>_ c. bc_flush dev c) = (r, c')"
  shows "geo c' = geo c" and "cposs poss c' i \<subseteq> cposs poss c i \<union> wnew c ws i"
    and "r = Inr u \<Longrightarrow> all_settled dev holds poss c' (vput ws v) \<and> (\<forall>w \<in> set ws. fst w < nblocks c)"
    and "dev_ok dev holds c'"
proof -
  obtain r1 c1 where w: "write_blocks dev ws c = (r1, c1)" by fastforce
  note s = write_blocks_step [OF assms(1,2) w]
  have "geo c' = geo c \<and> cposs poss c' i \<subseteq> cposs poss c i \<union> wnew c ws i \<and>
    (r = Inr () \<longrightarrow> all_settled dev holds poss c' (vput ws v) \<and> (\<forall>w \<in> set ws. fst w < nblocks c)) \<and> dev_ok dev holds c'"
  proof (cases r1)
    case (Inl e)
    then show ?thesis using s w assms(4) by auto
  next
    case (Inr u)
    then have fl: "bc_flush dev c1 = (r, c')" using w assms(4) by simp
    have ci: "cache_is dev holds c1 (vput ws v)" and dd: "dev_dirty c1" and rg: "\<forall>w \<in> set ws. fst w < nblocks c"
      using s Inr assms(3) by auto
    note f = bc_flush_step [OF ci fl]
    have g: "nblocks c' = nblocks c1" "lba_of c' = lba_of c1" "geo c' = geo c1" using cstep_geo [OF f(1)] by auto
    have "all_settled dev holds poss c' (vput ws v)" if "r = Inr ()"
      using f(3) [OF that dd] cstep_is [OF f(1)] g by (simp add: all_settled_def settled_def sector_def)
    moreover have "cposs poss c' i \<subseteq> cposs poss c1 i" using f(1) by (simp add: cstep_def)
    moreover have "dev_ok dev holds c'" using cstep_is [OF f(1)] by (rule cache_is_dev_ok)
    ultimately show ?thesis using s g(3) rg by auto
  qed
  then show "geo c' = geo c" and "cposs poss c' i \<subseteq> cposs poss c i \<union> wnew c ws i"
    and "r = Inr u \<Longrightarrow> all_settled dev holds poss c' (vput ws v) \<and> (\<forall>w \<in> set ws. fst w < nblocks c)"
    and "dev_ok dev holds c'" by simp_all
qed

lemma apply_home_step:
  assumes "cache_is dev holds c v" and "blk_ok ws" and "ws \<noteq> []" and "apply_home dev g seq ws c = (r, c')"
  shows "geo c' = geo c"
    and "r = Inr u \<Longrightarrow> all_settled dev holds poss c' ((vput ws v)(jhdr g := build_journal_header seq [] []))"
    and "dev_ok dev holds c'"
proof -
  let ?w = "[(jhdr g, build_journal_header seq [] [], 0)]"
  have ok: "blk_ok ?w" "?w \<noteq> []" by (simp_all add: blk_ok_def)
  obtain r1 c1 where b1: "bindr (write_blocks dev ws c) (\<lambda>_ c. bc_flush dev c) = (r1, c1)" by fastforce
  note s1 = barrier [OF assms(1-3) b1]
  have "geo c' = geo c \<and> (r = Inr () \<longrightarrow> all_settled dev holds poss c' ((vput ws v)(jhdr g := build_journal_header seq [] []))) \<and>
    dev_ok dev holds c'"
  proof (cases r1)
    case (Inl e)
    then show ?thesis using s1(1,4) b1 assms(4) by (auto simp: apply_home_def)
  next
    case (Inr u)
    then have b2: "bindr (write_blocks dev ?w c1) (\<lambda>_ c. bc_flush dev c) = (r, c')"
      using b1 assms(4) by (simp add: apply_home_def)
    have "cache_is dev holds c1 (vput ws v)" using s1(3) [OF Inr] by (simp add: all_settled_def)
    from barrier [OF this ok b2] show ?thesis using s1(1) by auto
  qed
  then show "geo c' = geo c"
    and "r = Inr u \<Longrightarrow> all_settled dev holds poss c' ((vput ws v)(jhdr g := build_journal_header seq [] []))"
    and "dev_ok dev holds c'" by simp_all
qed

lemma replay_refines_recover:
  assumes "cache_is dev holds c v" and "geo_ok g" and "total_blocks g \<le> nblocks c" and "replay_journal dev g c = (r, c')"
  shows "geo c' = geo c"
    and "r = Inr s \<Longrightarrow> \<exists>v'. recover g v = Inr (s, v') \<and> cache_is dev holds c' v'"
    and "r = Inl (Corrupt e) \<Longrightarrow> recover g v = Inl (Corrupt e) \<and> cache_is dev holds c' v"
proof -
  have "geo c' = geo c \<and> (\<forall>s. r = Inr s \<longrightarrow> (\<exists>v'. recover g v = Inr (s, v') \<and> cache_is dev holds c' v')) \<and>
    (\<forall>e. r = Inl (Corrupt e) \<longrightarrow> recover g v = Inl (Corrupt e) \<and> cache_is dev holds c' v)"
  proof -
    obtain r1 c1 where rd: "bc_read dev (jhdr g) c = (r1, c1)" by fastforce
    note s1 = bc_read_step [OF assms(1) rd]
    have ci1: "cache_is dev holds c1 v" and g1: "geo c1 = geo c" "nblocks c1 = nblocks c"
      using s1(1) cstep_geo [OF s1(1)] by (auto simp: cstep_def)
    show ?thesis
    proof (cases r1)
      case (Inl e)
      then show ?thesis using assms(4) rd g1 by (auto simp: replay_journal_alt cache_io_def)
    next
      case (Inr h)
      then have h: "h = v (jhdr g)" using s1(2) by simp
      show ?thesis
      proof (cases "parse_journal_header h (journal_blocks g)")
        case None
        then show ?thesis using assms(4) rd g1 Inr h ci1 by (auto simp: replay_journal_alt cache_io_def recover_def)
      next
        case (Some p)
        define n where "n = length (jh_targets p)"
        have n: "n \<le> journal_blocks g" using parse_targets [OF Some] by (simp add: n_def)
        have lens: "length (v b) = BLOCK_SIZE" if "b \<in> jarea g" for b
          using cache_is_length [OF assms(1)] geo_journal(2) [OF assms(2) that] assms(3) by simp
        note rec = recover_def [of g v, folded h, unfolded Some, simplified, folded n_def payload_of_def]
        show ?thesis
        proof (cases "n = 0")
          case True
          then show ?thesis using assms(4) rd g1 Inr Some ci1
            by (auto simp: replay_journal_alt cache_io_def rec n_def)
        next
          case False
          obtain r2 c2 where rm: "read_many dev (jpayload g) (n * BLOCK_SIZE) c1 = (r2, c2)" by fastforce
          note s2 = read_many_step [OF ci1 rm]
          have ci2: "cache_is dev holds c2 v" and g2: "geo c2 = geo c"
            using s2(1) g1 by (auto simp: cstep_def)
          have nn: "jh_targets p \<noteq> []" "length (jh_targets p) = n" using False by (auto simp: n_def)
          show ?thesis
          proof (cases r2)
            case (Inl e)
            then show ?thesis using assms(4) rd rm g2 Inr Some nn
              by (auto simp: replay_journal_alt cache_io_def)
          next
            case (Inr pay)
            then have pay: "pay = payload_of g v n"
              using s2(2) by (simp add: payload_of_def BLOCK_SIZE_def)
            let ?ws = "home_of (jh_targets p) pay"
            have ok: "blk_ok ?ws" "?ws \<noteq> []"
              using home_of_props(2) [of pay "jh_targets p"] home_of_props(3) [of "jh_targets p" pay] length_payload_of [OF lens n] nn by (simp_all add: pay)
            obtain r3 c3 where ah: "apply_home dev g (jh_seq p) ?ws c2 = (r3, c3)" by fastforce
            note s3 = apply_home_step [OF ci2 ok ah]
            have run: "(r, c') = (if \<not> journal_crc_ok h pay then (Inr (jh_seq p), c2)
              else if \<not> in_range g (jh_targets p) then (Inl (Corrupt ''journal target out of range''), c2)
              else (case r3 of Inl e \<Rightarrow> Inl (Io e) | Inr _ \<Rightarrow> Inr (jh_seq p), c3))"
              unfolding assms(4) [symmetric] replay_journal_alt rd \<open>r1 = Inr h\<close>
              using Some nn rm Inr ah by (simp add: cache_io_def bindr_def split: sum.split)
            show ?thesis
            proof (cases "journal_crc_ok h pay \<and> in_range g (jh_targets p)")
              case True
              have lr: "\<not> list_ex (\<lambda>t. t < bbitmap_start g \<or> backup_sb g \<le> t) (jh_targets p)"
                using True by (auto simp: list_ex_iff in_range_def)
              show ?thesis using run True nn s3 g2 False lr
                by (cases r3) (auto simp: rec pay all_settled_def)
            next
              case bad: False
              have "in_range g (jh_targets p) \<longleftrightarrow> \<not> list_ex (\<lambda>t. t < bbitmap_start g \<or> backup_sb g \<le> t) (jh_targets p)"
                by (simp add: list_ex_iff in_range_def) (meson linorder_not_le)
              then show ?thesis using run bad nn g2 ci2 False by (auto simp: rec pay split: if_splits)
            qed
          qed
        qed
      qed
    qed
  qed
  then show "geo c' = geo c"
    and "r = Inr s \<Longrightarrow> \<exists>v'. recover g v = Inr (s, v') \<and> cache_is dev holds c' v'"
    and "r = Inl (Corrupt e) \<Longrightarrow> recover g v = Inl (Corrupt e) \<and> cache_is dev holds c' v" by blast+
qed

lemma home_crash:
  assumes "geo_ok g" and "total_blocks g \<le> nblocks c" and "all_settled dev holds poss c v" and "pending g v p"
    and "in_range g (jh_targets p)" and "blk_ok ws" and "ws \<noteq> []" and "fst ` set ws = set (jh_targets p)"
    and "\<And>x. vput ws x = vput (home_of (jh_targets p) (payload_of g v (length (jh_targets p)))) x"
    and "torn_safe g v (build_journal_header seq [] [])" and "seq < 2 ^ 64"
    and "apply_home dev g seq ws c = (r, c')" and "image_of (cposs poss c') m"
  shows "\<exists>s V'. recover g (devblk m c) = Inr (s, V') \<and> (\<forall>b < nblocks c. b \<notin> jarea g \<longrightarrow> V' b = vput ws v b)"
proof -
  let ?H = "build_journal_header seq [] []" and ?V = "devblk m c"
  let ?w = "[(jhdr g, ?H, 0)] :: (nat \<times> bytes \<times> nat) list"
  have ok: "blk_ok ?w" "?w \<noteq> []" by (simp_all add: blk_ok_def)
  have ci: "cache_is dev holds c v" and st: "\<And>b. b < nblocks c \<Longrightarrow> settled (cposs poss c) c b (v b)"
    using assms(3) by (auto simp: all_settled_def)
  have area: "b < nblocks c" "b \<notin> set (jh_targets p)" if "b \<in> jarea g" for b
    using geo_journal(1,2) [OF assms(1) that] assms(2,5) by (auto simp: in_range_def)
  obtain r1 c1 where b1: "bindr (write_blocks dev ws c) (\<lambda>_ c. bc_flush dev c) = (r1, c1)" by fastforce
  note s1 = barrier [OF ci assms(6,7) b1]
  note home = recover_home [OF assms(1,4,5,8,9)]
  show ?thesis
  proof (cases r1)
    case (Inl e)
    then have [simp]: "c' = c1" using b1 assms(12) by (simp add: apply_home_def)
    have "?V b = v b" if "b < nblocks c" "b \<notin> set (jh_targets p)" for b
      using image_after(1) [OF st [OF that(1)] s1(2), of m] assms(6,8,13) cache_is_length [OF ci that(1)] that(2) by auto
    then show ?thesis using home [of ?V "nblocks c"] area by blast
  next
    case (Inr u)
    then have b2: "bindr (write_blocks dev ?w c1) (\<lambda>_ c. bc_flush dev c) = (r, c')"
      using b1 assms(12) by (simp add: apply_home_def)
    have as1: "all_settled dev holds poss c1 (vput ws v)" using s1(3) [OF Inr] by simp
    have ci1: "cache_is dev holds c1 (vput ws v)" using as1 by (simp add: all_settled_def)
    note s2 = barrier [OF ci1 ok b2]
    have lba: "lba_of c1 = lba_of c" "nblocks c1 = nblocks c" using geo_lba [OF s1(1)] s1(1) by (simp_all add: geo_def)
    have dv: "devblk m c1 b = ?V b" for b by (simp add: devblk_def lba)
    have st1: "settled (cposs poss c1) c1 b (vput ws v b)" if "b < nblocks c" for b
      using as1 that by (simp add: all_settled_def lba)
    have len1: "length (vput ws v b) = BLOCK_SIZE" if "b < nblocks c" for b
      using cache_is_length [OF ci1, of b] that by (simp add: lba)
    have V: "?V b = vput ws v b" if "b < nblocks c" "b \<noteq> jhdr g" for b
      using image_after(1) [OF st1 [OF that(1)] s2(2) assms(13) ok(1) len1 [OF that(1)]] that(2) by (simp add: dv)
    have jh: "jhdr g < nblocks c" "jhdr g \<notin> set (jh_targets p)" using area geo_journal(6) [OF assms(1)] by auto
    have same: "vput ws v b = v b" if "b \<in> jarea g" for b using vput_other area(2) [OF that] by (simp add: assms(8))
    have mx: "mixed (v (jhdr g)) ?H (?V (jhdr g))"
      using image_after(2) [OF st1 [OF jh(1)] s2(2) assms(13) ok(1) len1 [OF jh(1)], of ?H 0]
        same [OF geo_journal(6) [OF assms(1)]] by (simp add: dv)
    show ?thesis
    proof (cases "?V (jhdr g) = v (jhdr g)")
      case True
      have "?V b = v b" if "b \<in> jarea g" for b
        using V [OF area(1) [OF that]] same [OF that] True by (cases "b = jhdr g") auto
      moreover have "?V b = v b" if "b < nblocks c" "b \<notin> jarea g" "b \<notin> set (jh_targets p)" for b
        using V [OF that(1)] vput_other [of b ws v] that(2,3) geo_journal(6) [OF assms(1)] assms(8) by auto
      ultimately show ?thesis using home [of ?V "nblocks c"] by blast
    next
      case False
      have eq: "?V b = (v(jhdr g := ?V (jhdr g))) b" if "b \<in> jarea g" for b
        using V [OF area(1) [OF that]] same [OF that] by simp
      have "\<not> pending g ?V q" for q
      proof (cases "?V (jhdr g) = ?H")
        case True
        then show ?thesis using empty_not_pending [of ?V g seq] assms(1,11) by simp
      next
        case h: False
        have "pending g ?V q = pending g (v(jhdr g := ?V (jhdr g))) q" by (rule pending_cong) (rule eq)
        then show ?thesis using h assms(10) mx False unfolding torn_safe_def by blast
      qed
      then obtain s where "recover g ?V = Inr (s, ?V)" using recover_ignored by blast
      then show ?thesis using V geo_journal(6) [OF assms(1)] by blast
    qed
  qed
qed

text \<open>
  The commit protocol: whatever happens during \<open>journal_steps\<close>, recovering what is left on the
  medium gives the old contents of the blocks that were settled before, or the new contents
  of every block.
\<close>

lemma commit_crash:
  assumes "geo_ok g" and "total_blocks g \<le> nblocks c" and "cache_is dev holds c v" and "tx_ok g targets blocks"
    and "seq < 2 ^ 64" and "v (jhdr g) = build_journal_header s0 [] []" and "s0 < 2 ^ 64"
    and "\<And>b. b \<in> insert (jhdr g) K \<Longrightarrow> settled (cposs poss c) c b (v b)"
    and "K \<inter> jarea g = {}" and "K \<subseteq> {..<nblocks c}"
    and "\<And>w. payload_of g w (length targets) = concat blocks \<Longrightarrow> w (jhdr g) = v (jhdr g) \<Longrightarrow>
      torn_safe g w (build_journal_header seq targets blocks)"
    and "\<And>w. payload_of g w (length targets) = concat blocks \<Longrightarrow> w (jhdr g) = build_journal_header seq targets blocks \<Longrightarrow>
      torn_safe g w (build_journal_header seq [] [])"
    and "journal_steps dev g seq targets blocks c = (r, c')" and "image_of (cposs poss c') m"
  shows "\<exists>s V'. recover g (devblk m c) = Inr (s, V') \<and>
    ((r \<noteq> Inr () \<and> (\<forall>b \<in> K. V' b = v b)) \<or>
     (\<forall>b < nblocks c. b \<notin> jarea g \<longrightarrow> V' b = vput (home_writes targets blocks) v b))"
proof -
  let ?p = "payload_writes g blocks" and ?H = "build_journal_header seq targets blocks" and ?V = "devblk m c"
  let ?w = "[(jhdr g, ?H, 0)] :: (nat \<times> bytes \<times> nat) list"
  let ?v1 = "vput ?p v"
  let ?v2 = "?v1(jhdr g := ?H)"
  note pw = payload_writes_props [OF assms(1,4)] and hw = home_writes_props [OF assms(4)]
  have n: "length targets \<le> journal_blocks g" "in_range g targets" "targets \<noteq> []" using assms(4) by (auto simp: tx_ok_def)
  have lH: "length ?H = BLOCK_SIZE" using n(1) geo_journal(4) [OF assms(1)] by simp
  have ok: "blk_ok ?w" "?w \<noteq> []" using lH by (simp_all add: blk_ok_def)
  have jh: "jhdr g \<in> jarea g" "jhdr g < nblocks c" "jhdr g \<notin> fst ` set ?p"
    using geo_journal(6) [OF assms(1)] geo_journal(2) [OF assms(1), of "jhdr g"] assms(2)
      geo_journal(3) [OF assms(1)] pw(3) by (simp_all del: atLeastLessThan_iff)
  have parea: "b \<in> jarea g" if "b \<in> fst ` set ?p" for b using that pw(3) n(1) by (auto simp: jarea_def)
  have len: "length (v b) = BLOCK_SIZE" if "b < nblocks c" for b using cache_is_length [OF assms(3) that] .
  obtain r1 c1 where b1: "bindr (write_blocks dev ?p c) (\<lambda>_ c. bc_flush dev c) = (r1, c1)" by fastforce
  note s1 = barrier [OF assms(3) pw(1,2) b1]
  have old: "\<exists>s V'. recover g ?V = Inr (s, V') \<and> (\<forall>b \<in> K. V' b = v b)"
    if "\<And>b. b \<in> K \<Longrightarrow> ?V b = v b" "\<And>q. \<not> pending g ?V q"
    using recover_ignored [of g ?V] that by blast
  show ?thesis
  proof (cases r1)
    case (Inl e)
    then have [simp]: "c' = c1" "r = Inl e" using b1 assms(13) by (simp_all add: journal_steps_alt)
    have V: "?V b = v b" if "b \<in> insert (jhdr g) K" for b
    proof -
      have "b < nblocks c" using that jh(2) assms(10) by auto
      moreover have "b \<notin> fst ` set ?p" using that jh(3) assms(9) parea [of b] by (metis IntI empty_iff insert_iff)
      ultimately show ?thesis using image_after(1) [OF assms(8) [OF that] s1(2), of m] pw(1) assms(14) len by auto
    qed
    have "\<not> pending g ?V q" for q using empty_not_pending [of ?V g s0] V assms(1,6,7) by simp
    then show ?thesis using old V by auto
  next
    case (Inr u)
    obtain r2 c2 where b2: "bindr (write_blocks dev ?w c1) (\<lambda>_ c. bc_flush dev c) = (r2, c2)" by fastforce
    have as1: "all_settled dev holds poss c1 ?v1" using s1(3) [OF Inr] by simp
    then have ci1: "cache_is dev holds c1 ?v1" by (simp add: all_settled_def)
    note s2 = barrier [OF ci1 ok b2]
    have lba: "lba_of c1 = lba_of c" "nblocks c1 = nblocks c" using geo_lba [OF s1(1)] s1(1) by (simp_all add: geo_def)
    have dv: "devblk m c1 b = ?V b" for b by (simp add: devblk_def lba)
    have st1: "settled (cposs poss c1) c1 b (?v1 b)" and len1: "length (?v1 b) = BLOCK_SIZE" if "b < nblocks c" for b
      using as1 that cache_is_length [OF ci1, of b] by (simp_all add: all_settled_def lba)
    have v1: "?v1 b = v b" if "b \<notin> jarea g \<or> b = jhdr g" for b using vput_other parea jh(3) that by blast
    have pay: "payload_of g ?v1 (length targets) = concat blocks" using pw(4) by (simp add: payload_of_def)
    have ts: "torn_safe g ?v1 ?H" by (rule assms(11)) (simp_all add: pay v1)
    let ?q = "\<lparr>jh_seq = seq, jh_targets = targets\<rparr>"
    have pay2: "payload_of g ?v2 (length targets) = concat blocks"
      using pay geo_journal(3) [OF assms(1)] by (simp add: payload_of_def map_fun_upd)
    have tg: "t < 2 ^ 32" if "t \<in> set targets" for t
      using n(2) that assms(1) by (auto simp: in_range_def geo_ok_def backup_sb_def)
    have "parse_journal_header ?H (journal_blocks g) = Some ?q"
      by (rule journal_header_roundtrip) (use n(1) geo_journal(4) [OF assms(1)] assms(5) tg in simp_all)
    moreover have "journal_crc_ok ?H (concat blocks)"
      by (rule journal_header_crc) (use n(1) geo_journal(4) [OF assms(1)] in simp)
    ultimately have pd: "pending g ?v2 ?q" using pay2 n(3) by (simp add: pending_def payload_of_def)
    have area: "b < nblocks c" if "b \<in> jarea g" for b using geo_journal(2) [OF assms(1) that] assms(2) by simp
    have rh: "\<exists>s V'. recover g V = Inr (s, V') \<and> (\<forall>b < nblocks c. b \<notin> jarea g \<longrightarrow> V' b = vput (home_writes targets blocks) ?v2 b)"
      if "\<And>b. b \<in> jarea g \<Longrightarrow> V b = ?v2 b" "\<And>b. b < nblocks c \<Longrightarrow> b \<notin> jarea g \<Longrightarrow> V b = ?v2 b" for V
      by (rule recover_home [OF assms(1) pd]) (use n(2) hw(3,4) pay2 that in simp_all)
    have fin: "vput (home_writes targets blocks) ?v2 b = vput (home_writes targets blocks) v b" if "b \<notin> jarea g" for b
      using vput_eq [of b "home_writes targets blocks" ?v2 v] vput_other [of b "home_writes targets blocks"] v1 [of b] that jh(1)
      by (cases "b \<in> fst ` set (home_writes targets blocks)") auto
    show ?thesis
    proof (cases r2)
      case (Inl e)
      then have [simp]: "c' = c2" "r = Inl e" using b1 b2 \<open>r1 = Inr u\<close> assms(13) by (simp_all add: journal_steps_alt)
      have V: "?V b = ?v1 b" if "b < nblocks c" "b \<noteq> jhdr g" for b
        using image_after(1) [OF st1 [OF that(1)] s2(2), of m] ok(1) assms(14) len1 [OF that(1)] that(2) by (simp add: dv)
      have mx: "mixed (v (jhdr g)) ?H (?V (jhdr g))"
        using image_after(2) [OF st1 [OF jh(2)] s2(2), of m ?H 0] ok(1) assms(14) len1 [OF jh(2)] v1 by (simp add: dv)
      have eq: "?V b = (?v1(jhdr g := ?V (jhdr g))) b" if "b \<in> jarea g" for b
        using V [OF area [OF that]] by simp
      show ?thesis
      proof (cases "?V (jhdr g) = ?H")
        case True
        have "\<exists>s V'. recover g ?V = Inr (s, V') \<and> (\<forall>b < nblocks c. b \<notin> jarea g \<longrightarrow> V' b = vput (home_writes targets blocks) ?v2 b)"
          by (rule rh) (use eq V True jh(1) in auto)
        then show ?thesis using fin by auto
      next
        case False
        have "\<not> pending g ?V q" for q
        proof (cases "?V (jhdr g) = v (jhdr g)")
          case True
          then show ?thesis using empty_not_pending [of ?V g s0] assms(1,6,7) by simp
        next
          case h: False
          have "pending g ?V q = pending g (?v1(jhdr g := ?V (jhdr g))) q" by (rule pending_cong) (rule eq)
          then show ?thesis using h ts mx False v1 unfolding torn_safe_def by auto
        qed
        moreover have "?V b = v b" if "b \<in> K" for b
        proof -
          have "b \<notin> jarea g" "b < nblocks c" "b \<noteq> jhdr g" using that assms(9,10) jh(1) by auto
          then show ?thesis using V v1 by simp
        qed
        ultimately show ?thesis using old by auto
      qed
    next
      case (Inr u')
      then have ah: "apply_home dev g seq (home_writes targets blocks) c2 = (r, c')"
        using b1 b2 \<open>r1 = Inr u\<close> assms(13) by (simp add: journal_steps_alt)
      have as2: "all_settled dev holds poss c2 ?v2" using s2(3) [OF Inr] by simp
      have lba2: "lba_of c2 = lba_of c" "nblocks c2 = nblocks c" using geo_lba [OF s2(1)] s2(1) by (simp_all add: geo_def lba)
      have "devblk m c2 = ?V" by (simp add: devblk_def lba2 fun_eq_iff)
      moreover have "torn_safe g ?v2 (build_journal_header seq [] [])" by (rule assms(12)) (simp_all add: pay2)
      ultimately show ?thesis
        using home_crash [OF assms(1) _ as2 pd _ hw(1,2) _ _ _ assms(5) ah assms(14)] assms(2) n(2) hw(3,4) fin
        by (simp add: lba2 pay2) blast
    qed
  qed
qed

text \<open>A commit that reports success has made every block durable.\<close>

lemma commit_success:
  assumes "geo_ok g" and "total_blocks g \<le> nblocks c" and "cache_is dev holds c v" and "tx_ok g targets blocks"
    and "journal_steps dev g seq targets blocks c = (r, c')"
  shows "geo c' = geo c" and "dev_ok dev holds c'"
    and "r = Inr u \<Longrightarrow> all_settled dev holds poss c' ((vput (home_writes targets blocks)
      ((vput (payload_writes g blocks) v)(jhdr g := build_journal_header seq targets blocks)))
      (jhdr g := build_journal_header seq [] []))"
proof -
  let ?p = "payload_writes g blocks" and ?H = "build_journal_header seq targets blocks"
  let ?w = "[(jhdr g, ?H, 0)] :: (nat \<times> bytes \<times> nat) list"
  note pw = payload_writes_props [OF assms(1,4)] and hw = home_writes_props [OF assms(4)]
  have ok: "blk_ok ?w" "?w \<noteq> []" using assms(4) geo_journal(4) [OF assms(1)] by (simp_all add: blk_ok_def tx_ok_def)
  obtain r1 c1 where b1: "bindr (write_blocks dev ?p c) (\<lambda>_ c. bc_flush dev c) = (r1, c1)" by fastforce
  note s1 = barrier [OF assms(3) pw(1,2) b1]
  have "geo c' = geo c \<and> dev_ok dev holds c' \<and> (r = Inr () \<longrightarrow> all_settled dev holds poss c'
    ((vput (home_writes targets blocks) ((vput ?p v)(jhdr g := ?H)))(jhdr g := build_journal_header seq [] [])))"
  proof (cases r1)
    case (Inl e)
    then show ?thesis using s1(1,4) b1 assms(5) by (auto simp: journal_steps_alt)
  next
    case (Inr u)
    have ci1: "cache_is dev holds c1 (vput ?p v)" using s1(3) [OF Inr] by (simp add: all_settled_def)
    obtain r2 c2 where b2: "bindr (write_blocks dev ?w c1) (\<lambda>_ c. bc_flush dev c) = (r2, c2)" by fastforce
    note s2 = barrier [OF ci1 ok b2]
    show ?thesis
    proof (cases r2)
      case (Inl e)
      then show ?thesis using s1(1) s2(1,4) b1 b2 \<open>r1 = Inr u\<close> assms(5) by (auto simp: journal_steps_alt)
    next
      case (Inr u')
      have ci2: "cache_is dev holds c2 ((vput ?p v)(jhdr g := ?H))" using s2(3) [OF Inr] by (simp add: all_settled_def)
      have ah: "apply_home dev g seq (home_writes targets blocks) c2 = (r, c')"
        using b1 b2 \<open>r1 = Inr u\<close> Inr assms(5) by (simp add: journal_steps_alt)
      note s3 = apply_home_step [OF ci2 hw(1,2) ah]
      show ?thesis using s1(1) s2(1) s3 by auto
    qed
  qed
  then show "geo c' = geo c" and "dev_ok dev holds c'"
    and "r = Inr u \<Longrightarrow> all_settled dev holds poss c' ((vput (home_writes targets blocks)
      ((vput (payload_writes g blocks) v)(jhdr g := build_journal_header seq targets blocks)))
      (jhdr g := build_journal_header seq [] []))" by simp_all
qed

end

end
