(* ===== verification/CacheLive.thy ===== *)
theory CacheLive
  imports CacheOps
begin

text \<open>
  More of the block cache: a new cache presents what its device holds, the bound on the
  blocks it keeps, and liveness: on a device that serves every request in range, so does
  the cache.
\<close>

lemma bc_new_is:
  assumes "holds d m" and "base \<le> sector_count dev d" and "cap < NIL"
  shows "cache_is dev holds (bc_new dev d base n cap) (devblk m (bc_new dev d base n cap))"
proof -
  let ?c = "bc_new dev d base n cap"
  have sel: "bc_dev ?c = d" "slots ?c = []" "bc_free ?c = []" "bc_map ?c = []" "bc_head ?c = NIL" "bc_tail ?c = NIL"
    "capacity ?c = max cap 1" "base_lba ?c = base" "nblocks ?c = min n ((sector_count dev d - base) div SECTORS_PER_BLOCK)"
    by (simp_all add: bc_new_def Let_def)
  have "lba_of ?c (nblocks ?c) \<le> sector_count dev d"
  proof -
    have "nblocks ?c * SECTORS_PER_BLOCK \<le> (sector_count dev d - base) div SECTORS_PER_BLOCK * SECTORS_PER_BLOCK"
      by (rule mult_le_mono1) (simp add: sel)
    also have "\<dots> \<le> sector_count dev d - base" by (rule div_times_less_eq_dividend)
    finally show ?thesis using assms(2) by (simp add: lba_of_def sel)
  qed
  then have "cinv dev holds ?c m [] {}"
    using assms(1,3) by (simp add: cinv_def cbody_def lru_def sel bt_inv_def hd_or_def last_or_def NIL_def)
  moreover have "view m ?c = devblk m ?c" by (simp add: view_def fun_eq_iff sel)
  ultimately show ?thesis by (auto simp: cache_is_def)
qed

lemma slots_inj:
  assumes body: "cbody dev holds c m S H"
  shows "inj_on snd (set (bc_map c))"
proof (rule inj_onI, clarify)
  have bi: "bt_inv (bc_map c)" using body by (simp add: cbody_def)
  fix b i b' i' assume "(b, i) \<in> set (bc_map c)" "(b', i') \<in> set (bc_map c)" "snd (b, i) = snd (b', i')"
  then show "b = b' \<and> i = i'" using cbody_map [OF body] bt_get_iff [OF bi] by (metis snd_conv)
qed

text \<open>The cache never keeps more blocks than its capacity.\<close>

lemma cache_is_cached:
  assumes "cache_is dev holds c v"
  shows "cached c \<le> capacity c"
proof -
  obtain m xs where inv: "cinv dev holds c m xs {}" using assms by (auto simp: cache_is_def)
  then have body: "cbody dev holds c m (set xs) {}" by (simp add: cinv_def)
  have bi: "bt_inv (bc_map c)" using body by (simp add: cbody_def)
  have "inj_on snd (set (bc_map c))" by (rule slots_inj [OF body])
  moreover have "distinct (bc_map c)" using bt_inv_distinct [OF bi] by (simp add: distinct_map)
  ultimately have "distinct (map snd (bc_map c))" by (simp add: distinct_map)
  moreover have "set (map snd (bc_map c)) \<subseteq> {..<length (slots c)}"
    using cbody_map [OF body] cbody_slot [OF body] bt_get_iff [OF bi] by fastforce
  ultimately have "length (map snd (bc_map c)) \<le> length (slots c)"
    by (metis card_lessThan card_mono distinct_card finite_lessThan)
  then show ?thesis using body by (simp add: cached_def cbody_def)
qed

context block_device
begin

lemma bc_get_step:
  assumes "cache_is dev holds c v" and "bc_get dev b c = (r, c')"
  shows "cstep dev holds poss c c' v none" and "r = Inr x \<Longrightarrow> x = v b \<and> b < nblocks c"
  using bc_read_step [OF assms(1), of b r c'] assms(2) by (simp_all add: bc_get_def bc_read_def)

end

subsection \<open>Liveness\<close>

lemma run_end_stop: "run_end c blk a k = j \<Longrightarrow> run_end c blk a (j - a) = j"
proof (induction c blk a k arbitrary: j rule: run_end.induct)
  case (2 c blk a k)
  show ?case
  proof (cases "bt_get (bc_map c) (blk + a) = None")
    case True
    then have e: "run_end c blk (a + 1) k = j" using "2.prems" by simp
    then have "a + 1 \<le> j" using run_end_ge [of "a + 1" c blk k] by simp
    then have "j - a = Suc (j - (a + 1))" by simp
    then show ?thesis using "2.IH" [OF True e] True by simp
  next
    case False
    then have "j = a" using "2.prems" by (simp split: if_splits)
    then show ?thesis by simp
  qed
qed simp

context reliable_device
begin

lemma cinv_read_ok:
  assumes "cinv dev holds c m xs H" and "b + n \<le> nblocks c"
  shows "\<exists>buf d. read_sectors dev (bc_dev c) (lba_of c b) (n * BLOCK_SIZE) = (Inr buf, d)"
proof -
  have h: "holds (bc_dev c) m" and s: "lba_of c (nblocks c) \<le> sector_count dev (bc_dev c)"
    using assms(1) by (auto simp: cinv_def cbody_def)
  have "lba_of c b + n * SECTORS_PER_BLOCK \<le> sector_count dev (bc_dev c)"
    using lba_of_mono [OF assms(2), of c] s by (simp add: lba_of_add)
  then show ?thesis
    using read_succeeds [OF h, of "n * SECTORS_PER_BLOCK" "n * BLOCK_SIZE" "lba_of c b"] by (simp add: block_sizes(1))
qed

lemma cinv_write_ok:
  assumes "cinv dev holds c m xs H" and "b + n \<le> nblocks c" and "length data = n * BLOCK_SIZE"
  shows "\<exists>d. write_sectors dev (bc_dev c) (lba_of c b) data = (Inr (), d)"
proof -
  have h: "holds (bc_dev c) m" and s: "lba_of c (nblocks c) \<le> sector_count dev (bc_dev c)"
    using assms(1) by (auto simp: cinv_def cbody_def)
  have "lba_of c b + nsec data \<le> sector_count dev (bc_dev c)"
    using lba_of_mono [OF assms(2), of c] s by (simp add: lba_of_add nsec_blocks [OF assms(3)])
  moreover have "length data mod SECTOR_SIZE = 0" by (simp add: assms(3) block_sizes(1))
  ultimately show ?thesis by (intro write_succeeds [OF h])
qed

lemma acquire_slot_ok:
  assumes "cinv dev holds c m xs {}"
  shows "\<exists>i c'. acquire_slot dev c = (Inr i, c')"
proof (cases "bc_free c = [] \<and> \<not> length (slots c) < capacity c")
  case True
  have body: "cbody dev holds c m (set xs) {}" and l: "lru c xs" using assms by (auto simp: cinv_def)
  have "set xs = {..<length (slots c)}" "1 \<le> length (slots c)" using body True by (auto simp: cbody_def)
  then have "xs \<noteq> []" by (metis empty_set lessThan_empty_iff not_one_le_zero)
  then have i: "bc_tail c \<in> set xs" using l by (auto simp: lru_def last_or_def)
  then have "s_blk (slots c ! bc_tail c) + 1 \<le> nblocks c" "length (s_data (slots c ! bc_tail c)) = 1 * BLOCK_SIZE"
    using body cbody_slot [OF body i] by (auto simp: cbody_def Suc_le_eq)
  from cinv_write_ok [OF assms this]
  obtain d where "write_sectors dev (bc_dev c) (lba_of c (s_blk (slots c ! bc_tail c))) (s_data (slots c ! bc_tail c)) = (Inr (), d)"
    by blast
  then show ?thesis using True by (auto simp: acquire_slot_def write_back_def Let_def)
next
  case False
  then show ?thesis by (auto simp: acquire_slot_def)
qed

lemma load_ok:
  assumes "cache_is dev holds c v" and "b < nblocks c" and "nblocks c < 2 ^ 64"
  shows "\<exists>i c'. load dev b c = (Inr i, c')"
proof -
  obtain m xs where inv: "cinv dev holds c m xs {}" using assms(1) by (auto simp: cache_is_def)
  have ck: "bc_check c b 1 = Inr ()" using bc_check_Inr [of c b 1 "()"] assms(2,3) by simp
  obtain r1 c1 where lk: "lookup b c = (r1, c1)" by fastforce
  obtain xs1 where c1: "cinv dev holds c1 m xs1 {}" "geo c1 = geo c"
    using cinv_lookup [OF inv lk] by metis
  show ?thesis
  proof (cases r1)
    case (Some i)
    then show ?thesis using ck lk by (simp add: load_def)
  next
    case None
    let ?c1 = "bump (\<lambda>s. s\<lparr>misses := misses s + 1\<rparr>) c1"
    have inv1: "cinv dev holds ?c1 m xs1 {}" using c1(1) by simp
    obtain i c2 where ac: "acquire_slot dev ?c1 = (Inr i, c2)" using acquire_slot_ok [OF inv1] by blast
    note a = cinv_acquire_slot [OF inv1 ac]
    obtain m2 xs2 where c2: "cinv dev holds c2 m2 xs2 {i}" using a(1) by auto
    have "b + 1 \<le> nblocks c2" using a(2) c1(2) assms(2) by (simp add: geo_def)
    from cinv_read_ok [OF c2 this] obtain buf d where
      "read_sectors dev (bc_dev c2) (lba_of c2 b) BLOCK_SIZE = (Inr buf, d)" by auto
    then show ?thesis using ck lk None ac by (simp add: load_def)
  qed
qed

lemma bc_read_ok:
  assumes "cache_is dev holds c v" and "b < nblocks c" and "nblocks c < 2 ^ 64"
  shows "\<exists>c'. bc_read dev b c = (Inr (v b), c')"
proof -
  obtain i c' where "load dev b c = (Inr i, c')" using load_ok [OF assms] by blast
  then have rd: "bc_read dev b c = (Inr (s_data (slots c' ! i)), c')" by (simp add: bc_read_def)
  show ?thesis using bc_read_step(2) [OF assms(1) rd] rd by auto
qed

lemma write_direct_ok:
  assumes "cache_is dev holds c v" and "b < nblocks c" and "nblocks c < 2 ^ 64" and "length data = BLOCK_SIZE"
  shows "\<exists>c'. write_direct dev b data tag c = (Inr (), c')"
proof -
  obtain m xs where inv: "cinv dev holds c m xs {}" using assms(1) by (auto simp: cache_is_def)
  have ck: "bc_check c b 1 = Inr ()" using bc_check_Inr [of c b 1 "()"] assms(2,3) by simp
  obtain d where "write_sectors dev (bc_dev c) (lba_of c b) data = (Inr (), d)"
    using cinv_write_ok [OF inv, of b 1 data] assms(2,4) by auto
  then show ?thesis using ck by (simp add: write_direct_def Let_def)
qed

lemma read_loop_ok:
  assumes "cache_is dev holds c v" and "i \<le> n" and "blk + n \<le> nblocks c"
  shows "\<exists>out c'. read_loop dev blk n i acc c = (Inr out, c')"
  using assms
proof (induction "n - i" arbitrary: i acc c rule: less_induct)
  case less
  show ?case
  proof (cases "i < n")
    case False
    then show ?thesis by (simp add: read_loop.simps)
  next
    case True
    obtain m xs where inv: "cinv dev holds c m xs {}" and v: "view m c = v" using less.prems(1) by (auto simp: cache_is_def)
    obtain r1 c1 where lk: "lookup (blk + i) c = (r1, c1)" by fastforce
    obtain xs1 where c1: "cinv dev holds c1 m xs1 {}" "view m c1 = view m c" "geo c1 = geo c"
      using cinv_lookup [OF inv lk] by metis
    show ?thesis
    proof (cases r1)
      case (Some s)
      have "cache_is dev holds c1 v" using c1 v by (auto simp: cache_is_def)
      then show ?thesis
        using less.hyps [of "i + 1" c1 "acc @ s_data (slots c1 ! s)"] True less.prems(3) lk Some c1(3)
        by (simp add: read_loop.simps [of dev blk n i acc c] geo_def)
    next
      case None
      define j where "j = run_end c1 blk (i + 1) (n - (i + 1))"
      have j: "i < j" "j \<le> n" using run_end_ge [of "i + 1" c1 blk] run_end_spec(1) [of c1 blk "i + 1" "n - (i + 1)"] True
        by (auto simp: j_def Suc_le_eq)
      have jj: "run_end c1 blk (Suc i) (n - Suc i) = j" "run_end c1 blk (Suc i) (j - Suc i) = j"
        using run_end_stop [of c1 blk "i + 1" "n - (i + 1)" j] by (simp_all add: j_def)
      have "blk + i + (j - i) \<le> nblocks c1" using j less.prems(3) c1(3) by (simp add: geo_def)
      from cinv_read_ok [OF c1(1) this] obtain buf d
        where rd: "read_sectors dev (bc_dev c1) (lba_of c1 (blk + i)) ((j - i) * BLOCK_SIZE) = (Inr buf, d)" by blast
      let ?c2 = "bump (\<lambda>s. s\<lparr>misses := misses s + (j - i),
          sectors_read := sectors_read s + (j - i) * SECTORS_PER_BLOCK\<rparr>) (c1\<lparr>bc_dev := d\<rparr>)"
      define c3 where "c3 = (if j - i \<le> INSERT_RUN_MAX then insert_run dev (blk + i) (blocks_of buf) ?c2 else ?c2)"
      have step: "read_loop dev blk n i acc c = read_loop dev blk n j (acc @ buf) c3" for acc
        using True lk None rd
        by (simp add: read_loop.simps [of dev blk n i acc c] jj(1) Let_def c3_def split del: if_split cong: if_cong)
      have one: "read_loop dev blk j i (concat (map v [blk..<blk + i])) c = (Inr (concat (map v [blk..<blk + i]) @ buf), c3)"
        using j(1) lk None rd
        by (simp add: read_loop.simps [of dev blk j i _ c] read_loop.simps [of dev blk j j] jj(2) Let_def c3_def
            split del: if_split cong: if_cong)
      have st: "cstep dev holds poss c c3 v none"
        using read_loop_step(1) [OF less.prems(1) _ _ refl one] j less.prems(3) by simp
      show ?thesis
        unfolding step using less.hyps [of j c3 "acc @ buf"] True j less.prems(3) cstep_is [OF st] cstep_geo [OF st] by simp
    qed
  qed
qed

lemma read_many_ok:
  assumes "cache_is dev holds c v" and "blk + n \<le> nblocks c" and "nblocks c < 2 ^ 64"
  shows "\<exists>c'. read_many dev blk (n * BLOCK_SIZE) c = (Inr (concat (map v [blk..<blk + n])), c')"
proof -
  have ck: "bc_check c blk n = Inr ()" using bc_check_Inr [of c blk n "()"] assms(2,3) by simp
  have n: "n * BLOCK_SIZE div BLOCK_SIZE = n" using block_sizes(4) by simp
  obtain out c' where "read_loop dev blk n 0 [] c = (Inr out, c')" using read_loop_ok [OF assms(1) _ assms(2)] by blast
  then have rd: "read_many dev blk (n * BLOCK_SIZE) c = (Inr out, c')" by (simp add: read_many_def ck n Let_def)
  show ?thesis using read_many_step(2) [OF assms(1) rd] rd n by auto
qed

lemma flush_loop_ok:
  assumes "cinv dev holds c m xs {}" and "\<And>b i. (b, i) \<in> set ds \<Longrightarrow> bt_get (bc_map c) b = Some i \<and> s_dirty (slots c ! i)"
    and "distinct (map snd ds)"
  shows "fst (flush_loop dev ds None c) = None"
  using assms
proof (induction "length ds" arbitrary: ds c m rule: less_induct)
  case less
  show ?case
  proof (cases ds)
    case Nil
    then show ?thesis by simp
  next
    case (Cons e ds0)
    obtain b i where e: "e = (b, i)" by (cases e)
    let ?n = "run_len b 1 ds0"
    define run where "run = take ?n ((b, i) # ds0)"
    define rest where "rest = drop ?n ((b, i) # ds0)"
    define buf where "buf = concat (map (\<lambda>(b, i). s_data (slots c ! i)) run)"
    have split: "ds = run @ rest" by (simp add: Cons e run_def rest_def)
    have short: "length rest < length ds" by (simp add: Cons e rest_def run_len_pos)
    have ok: "(b, i) \<in> set run \<Longrightarrow> bt_get (bc_map c) b = Some i \<and> s_dirty (slots c ! i)" for b i
      using less.prems(2) split by auto
    note rb = run_blocks [OF refl run_def]
    have body: "cbody dev holds c m (set xs) {}" using less.prems(1) by (simp add: cinv_def)
    have len: "j < length (slots c) \<and> b < nblocks c" if g: "bt_get (bc_map c) b = Some j" for b j
    proof -
      have j: "j \<in> set xs" "s_blk (slots c ! j) = b" using cbody_map [OF body] g by auto
      then show ?thesis using cbody_slot [OF body j(1)] body by (auto simp: cbody_def)
    qed
    have sd: "length (s_data (slots c ! j)) = BLOCK_SIZE" if "j < length (slots c)" for j
      using body that by (simp add: cbody_def)
    have "length x = BLOCK_SIZE" if x: "x \<in> set (map (\<lambda>(b, i). s_data (slots c ! i)) run)" for x
    proof -
      obtain b' i' where p: "(b', i') \<in> set run" "x = s_data (slots c ! i')" using x by auto
      then show ?thesis using ok [OF p(1)] len [of b' i'] sd [of i'] by blast
    qed
    then have lb: "length buf = ?n * BLOCK_SIZE"
      unfolding buf_def using length_concat_const [of "map (\<lambda>(b, i). s_data (slots c ! i)) run" BLOCK_SIZE] rb(1) by simp
    have "b + ?n \<le> nblocks c"
    proof -
      have p: "0 < ?n" using run_len_pos [of b ds0] by simp
      have "run ! (?n - 1) \<in> set run" using rb(1) p by simp
      moreover have "fst (run ! (?n - 1)) = b + (?n - 1)" using rb(2) [of "?n - 1"] p by simp
      ultimately have "bt_get (bc_map c) (b + (?n - 1)) \<noteq> None" using ok by (metis option.distinct(1) prod.collapse)
      then have "b + (?n - 1) < nblocks c" using len by auto
      then show ?thesis using p by simp
    qed
    from cinv_write_ok [OF less.prems(1) this lb] obtain d
      where w: "write_sectors dev (bc_dev c) (lba_of c b) buf = (Inr (), d)" by blast
    define c1 where "c1 = clean_slots run (bump (\<lambda>s. s\<lparr>writebacks := writebacks s + ?n,
        sectors_written := sectors_written s + ?n * SECTORS_PER_BLOCK\<rparr>) (c\<lparr>bc_dev := d, dev_dirty := True\<rparr>))"
    have loop: "flush_loop dev ds None c = flush_loop dev rest None c1"
      using w by (auto simp: Cons e Let_def run_def rest_def buf_def c1_def)
    obtain m1 where inv1: "cinv dev holds c1 m1 xs {}"
      using flush_run(1) [OF less.prems(1) refl run_def ok buf_def w refl c1_def] by auto
    have nth: "j < length (slots c) \<Longrightarrow> s_dirty (slots c1 ! j) = (s_dirty (slots c ! j) \<and> j \<notin> snd ` set run)" for j
      using clean_slots_nth [of j "bump f (c\<lparr>bc_dev := d, dev_dirty := True\<rparr>)" run for f] by (simp add: c1_def)
    have mp: "bc_map c1 = bc_map c" by (simp add: c1_def clean_slots_sel)
    have disj: "snd ` set run \<inter> snd ` set rest = {}" using less.prems(3) split by auto
    have "bt_get (bc_map c1) b = Some i \<and> s_dirty (slots c1 ! i)" if "(b, i) \<in> set rest" for b i
      using less.prems(2) [of b i] that split disj mp nth [of i] len [of b i] by force
    then show ?thesis unfolding loop using less.hyps [OF short inv1] less.prems(3) split by simp
  qed
qed

lemma bc_flush_ok:
  assumes "cache_is dev holds c v"
  shows "\<exists>c'. bc_flush dev c = (Inr (), c')"
proof -
  obtain m xs where inv: "cinv dev holds c m xs {}" and v: "view m c = v" using assms by (auto simp: cache_is_def)
  have body: "cbody dev holds c m (set xs) {}" using inv by (simp add: cinv_def)
  have bi: "bt_inv (bc_map c)" using body by (simp add: cbody_def)
  have dl: "(b, i) \<in> set (dirty_list c) \<Longrightarrow> bt_get (bc_map c) b = Some i \<and> s_dirty (slots c ! i)" for b i
    using bt_get_iff [OF bi] by (auto simp: dirty_list_def)
  have ds: "distinct (map snd (dirty_list c))"
    using slots_inj [OF body] bt_inv_distinct [OF bi] by (auto simp: dirty_list_def distinct_map intro: inj_on_subset distinct_filter)
  obtain e1 c1 where loop: "flush_loop dev (dirty_list c) None c = (e1, c1)" by fastforce
  have e1: "e1 = None" using flush_loop_ok [OF inv dl ds] loop by simp
  have "\<exists>m'. cinv dev holds c1 m' xs {} \<and> view m' c1 = view m c" using flush_loop_step [OF inv dl ds loop] by simp
  then obtain m1 where "cinv dev holds c1 m1 xs {}" by blast
  then have "holds (bc_dev c1) m1" by (simp add: cinv_def cbody_def)
  from flush_succeeds [OF this] show ?thesis using loop e1 by (auto simp: bc_flush_def)
qed

end

subsection \<open>Concrete caches\<close>

text \<open>
  A cache over a disk with given blocks, the power going after \<open>k\<close> events: the instance
  the properties are applied to.
\<close>

definition disk_of :: "bytes list \<Rightarrow> ram_disk" where
  "disk_of bs = \<lparr>rd_data = concat bs, rd_counters = counters_default, rd_min_written_lba = None\<rparr>"

definition cache_of :: "bytes list \<Rightarrow> nat \<Rightarrow> ram_disk block_cache" where
  "cache_of bs cap = bc_new ram_dev (disk_of bs) 0 (length bs) cap"

definition failing_cache_of :: "nat \<Rightarrow> bytes list \<Rightarrow> nat \<Rightarrow> ram_disk faulty_disk block_cache" where
  "failing_cache_of k bs cap = bc_new (faulty_dev ram_dev) (fd_crash_after k (fd_new (disk_of bs))) 0 (length bs) cap"

definition blocks_ok :: "bytes list \<Rightarrow> bool" where
  "blocks_ok bs \<longleftrightarrow> (\<forall>b \<in> set bs. length b = BLOCK_SIZE) \<and> length bs * BLOCK_SIZE < 2 ^ 64"

lemma disk_of_ok:
  assumes "blocks_ok bs"
  shows "ram_holds (disk_of bs) (ram_sec (disk_of bs))" and "ram_sector_count (disk_of bs) = length bs * SECTORS_PER_BLOCK"
proof -
  have len: "length (concat bs) = length bs * BLOCK_SIZE"
    using length_concat_const [of bs BLOCK_SIZE] assms by (simp add: blocks_ok_def)
  show "ram_sector_count (disk_of bs) = length bs * SECTORS_PER_BLOCK"
    by (simp add: ram_dev_def ram_sector_count_def disk_of_def len block_sizes(1) SECTOR_SIZE_def)
  show "ram_holds (disk_of bs) (ram_sec (disk_of bs))"
    using assms by (simp add: ram_holds_def ram_good_def disk_of_def len blocks_ok_def block_sizes(1))
qed

lemma devblk_disk_of:
  assumes "blocks_ok bs" and "b < length bs" and "base_lba c = 0"
  shows "devblk (ram_sec (disk_of bs)) c b = bs ! b"
proof -
  have sec: "ram_sec (disk_of bs) (b * SECTORS_PER_BLOCK + k) = get_slice (k * SECTOR_SIZE) SECTOR_SIZE (bs ! b)"
    if "k < SECTORS_PER_BLOCK" for k
  proof -
    have sl: "get_slice (b * BLOCK_SIZE) BLOCK_SIZE (concat bs) = bs ! b"
      by (rule get_slice_concat) (use assms(1,2) in \<open>auto simp: blocks_ok_def\<close>)
    have "get_slice (k * SECTOR_SIZE) SECTOR_SIZE (get_slice (b * BLOCK_SIZE) BLOCK_SIZE (concat bs)) =
        get_slice (b * BLOCK_SIZE + k * SECTOR_SIZE) SECTOR_SIZE (concat bs)"
    proof -
      have "k * SECTOR_SIZE + SECTOR_SIZE \<le> BLOCK_SIZE"
        using that by (simp add: SECTORS_PER_BLOCK_def BLOCK_SIZE_def SECTOR_SIZE_def)
      then show ?thesis by (simp add: get_slice_def drop_take min_def add.commute)
    qed
    then show ?thesis unfolding sl by (simp add: ram_sec_def disk_of_def block_sizes(1) algebra_simps)
  qed
  have "map (ram_sec (disk_of bs)) [lba_of c b..<lba_of c b + SECTORS_PER_BLOCK] =
      map (\<lambda>k. get_slice (k * SECTOR_SIZE) SECTOR_SIZE (bs ! b)) [0..<SECTORS_PER_BLOCK]"
    by (rule nth_equalityI) (simp_all add: sec lba_of_def assms(3))
  moreover have "length (bs ! b) = SECTORS_PER_BLOCK * SECTOR_SIZE"
    using assms(1,2) by (simp add: blocks_ok_def block_sizes(1))
  ultimately show ?thesis using concat_slices [of SECTOR_SIZE "bs ! b" SECTORS_PER_BLOCK] by (simp add: devblk_def)
qed

lemma cache_of_is:
  assumes "blocks_ok bs" and "cap < NIL"
  shows "\<exists>v. cache_is ram_dev ram_holds (cache_of bs cap) v \<and> (\<forall>b < length bs. v b = bs ! b)"
    and "nblocks (cache_of bs cap) = length bs"
proof -
  note d = disk_of_ok [OF assms(1)]
  have b0: "base_lba (cache_of bs cap) = 0" by (simp add: cache_of_def bc_new_def Let_def)
  show "nblocks (cache_of bs cap) = length bs"
    using block_sizes(2) by (simp add: cache_of_def bc_new_def Let_def d(2))
  have "cache_is ram_dev ram_holds (cache_of bs cap) (devblk (ram_sec (disk_of bs)) (cache_of bs cap))"
    unfolding cache_of_def by (rule bc_new_is) (use d(1) assms(2) in simp_all)
  then show "\<exists>v. cache_is ram_dev ram_holds (cache_of bs cap) v \<and> (\<forall>b < length bs. v b = bs ! b)"
    using devblk_disk_of [OF assms(1) _ b0] by blast
qed

lemma failing_cache_of_is:
  assumes "blocks_ok bs" and "cap < NIL"
  shows "\<exists>v. cache_is (faulty_dev ram_dev) (fd_holds ram_dev ram_holds) (failing_cache_of k bs cap) v \<and>
      (\<forall>b < length bs. v b = bs ! b)"
    and "nblocks (failing_cache_of k bs cap) = length bs"
    and "b < length bs \<Longrightarrow> j < SECTORS_PER_BLOCK \<Longrightarrow>
      cposs (fd_poss ram_poss) (failing_cache_of k bs cap) (lba_of (failing_cache_of k bs cap) b + j) \<subseteq>
        {get_slice (j * SECTOR_SIZE) SECTOR_SIZE (bs ! b)}"
proof -
  let ?c = "failing_cache_of k bs cap"
  note d = disk_of_ok [OF assms(1)]
  have b0: "base_lba ?c = 0" by (simp add: failing_cache_of_def bc_new_def Let_def)
  have sc: "sector_count (faulty_dev ram_dev) (fd_crash_after k (fd_new (disk_of bs))) = length bs * SECTORS_PER_BLOCK"
    by (simp add: faulty_dev_def fd_sector_count_def fd_crash_after_def fd_new_def d(2))
  have h: "fd_holds ram_dev ram_holds (fd_crash_after k (fd_new (disk_of bs))) (ram_sec (disk_of bs))"
    using d(1) by (simp add: fd_holds_def fd_wf_def fd_crash_after_def fd_new_def pend_over_def)
  show "nblocks ?c = length bs"
    using block_sizes(2) by (simp add: failing_cache_of_def bc_new_def Let_def sc)
  have "cache_is (faulty_dev ram_dev) (fd_holds ram_dev ram_holds) ?c (devblk (ram_sec (disk_of bs)) ?c)"
    unfolding failing_cache_of_def by (rule bc_new_is) (use h assms(2) in simp_all)
  then show "\<exists>v. cache_is (faulty_dev ram_dev) (fd_holds ram_dev ram_holds) ?c v \<and> (\<forall>b < length bs. v b = bs ! b)"
    using devblk_disk_of [OF assms(1) _ b0] by blast
  assume b: "b < length bs" and j: "j < SECTORS_PER_BLOCK"
  have "length (ram_sec (disk_of bs) i) = SECTOR_SIZE" if "i < length bs * SECTORS_PER_BLOCK" for i
    using ram.holds_length [OF d(1)] that d(2) by simp
  moreover have "b * SECTORS_PER_BLOCK + SECTORS_PER_BLOCK \<le> length bs * SECTORS_PER_BLOCK"
    using mult_le_mono1 [of "Suc b" "length bs" SECTORS_PER_BLOCK] b by simp
  ultimately have "get_slice (j * SECTOR_SIZE) SECTOR_SIZE
      (concat (map (ram_sec (disk_of bs)) [lba_of ?c b..<lba_of ?c b + SECTORS_PER_BLOCK])) =
      map (ram_sec (disk_of bs)) [lba_of ?c b..<lba_of ?c b + SECTORS_PER_BLOCK] ! j"
    using j by (intro get_slice_concat) (auto simp: lba_of_def b0)
  then have "get_slice (j * SECTOR_SIZE) SECTOR_SIZE (bs ! b) = ram_sec (disk_of bs) (lba_of ?c b + j)"
    using devblk_disk_of [OF assms(1) b b0] j by (simp add: devblk_def)
  moreover have "cposs (fd_poss ram_poss) ?c i = {ram_sec (disk_of bs) i}" for i
    by (simp add: cposs_def dirtyw_def failing_cache_of_def bc_new_def Let_def fd_poss_def ram_poss_def
        fd_crash_after_def fd_new_def)
  ultimately show "cposs (fd_poss ram_poss) ?c (lba_of ?c b + j) \<subseteq> {get_slice (j * SECTOR_SIZE) SECTOR_SIZE (bs ! b)}"
    by simp
qed

subsection \<open>Properties\<close>

text \<open>
  C6: Over a disk that may fail or lose power, the cache behaves as a map from block numbers to
  blocks: a read that succeeds returns the block of the map and changes nothing, a multi-block read
  returns the blocks in order, a write that succeeds changes that block only and one that fails
  changes nothing, a flush changes nothing and leaves no dirty block; and it never keeps more
  blocks than its capacity.
\<close>

theorem cache_refines_block_map:
  assumes "cache_is (faulty_dev ram_dev) (fd_holds ram_dev ram_holds) c v"
    and "bc_read (faulty_dev ram_dev) b c = (rr, c1)" and "read_many (faulty_dev ram_dev) blk len c = (rm, c2)"
    and "bc_write (faulty_dev ram_dev) b data c = (rw, c3)" and "length data = BLOCK_SIZE"
    and "bc_flush (faulty_dev ram_dev) c = (rf, c4)"
  shows "cache_is (faulty_dev ram_dev) (fd_holds ram_dev ram_holds) c1 v \<and> (\<forall>x. rr = Inr x \<longrightarrow> x = v b) \<and>
    cache_is (faulty_dev ram_dev) (fd_holds ram_dev ram_holds) c2 v \<and>
    (\<forall>out. rm = Inr out \<longrightarrow> out = concat (map v [blk..<blk + len div BLOCK_SIZE])) \<and>
    cache_is (faulty_dev ram_dev) (fd_holds ram_dev ram_holds) c3 (case rw of Inl _ \<Rightarrow> v | Inr _ \<Rightarrow> v(b := data)) \<and>
    cache_is (faulty_dev ram_dev) (fd_holds ram_dev ram_holds) c4 v \<and> (rf = Inr () \<longrightarrow> dirty_count c4 = 0) \<and>
    cached c \<le> capacity c"
  using fram.bc_read_step(1,2) [OF assms(1,2)] fram.read_many_step(1,2) [OF assms(1,3)]
    fram.bc_write_step(1,2) [OF assms(1,4,5)] fram.bc_flush_step(1,2) [OF assms(1,6)] cache_is_cached [OF assms(1)]
  by (cases rw) (auto dest: cstep_is)

definition two_blocks :: "bytes list" where
  "two_blocks = [replicate BLOCK_SIZE 0, replicate BLOCK_SIZE 9]"

lemma two_blocks_ok: "blocks_ok two_blocks" "(1 :: nat) < NIL" "length two_blocks = 2" "two_blocks ! 1 = replicate BLOCK_SIZE 9"
  by (auto simp: two_blocks_def blocks_ok_def NIL_def BLOCK_SIZE_def)

theorem cache_refines_block_map_witness:
  "\<exists>v. cache_is (faulty_dev ram_dev) (fd_holds ram_dev ram_holds) (failing_cache_of 3 two_blocks 1) v \<and>
    v 1 = replicate BLOCK_SIZE 9 \<and> cached (failing_cache_of 3 two_blocks 1) \<le> capacity (failing_cache_of 3 two_blocks 1) \<and>
    cache_is (faulty_dev ram_dev) (fd_holds ram_dev ram_holds) (snd (bc_read (faulty_dev ram_dev) 1 (failing_cache_of 3 two_blocks 1))) v"
proof -
  let ?c = "failing_cache_of 3 two_blocks 1" and ?z = "replicate BLOCK_SIZE 0 :: bytes"
  obtain v where v: "cache_is (faulty_dev ram_dev) (fd_holds ram_dev ram_holds) ?c v" "\<forall>b < length two_blocks. v b = two_blocks ! b"
    using failing_cache_of_is(1) [OF two_blocks_ok(1,2), of 3] by blast
  have "v 1 = replicate BLOCK_SIZE 9" using v(2) two_blocks_ok(3,4) by simp
  moreover note cache_refines_block_map [where data = ?z and b = 1 and blk = 0 and len = BLOCK_SIZE, OF v(1) prod.collapse [symmetric]
      prod.collapse [symmetric] prod.collapse [symmetric] _ prod.collapse [symmetric]]
  ultimately show ?thesis using v(1) by (intro exI [of _ v]) simp
qed

text \<open>
  C7: On a disk that works, every read and every flush of the cache succeeds, evictions of dirty
  blocks included.
\<close>

theorem cache_reads_succeed:
  assumes "cache_is ram_dev ram_holds c v" and "b < nblocks c" and "blk + n \<le> nblocks c" and "nblocks c < 2 ^ 64"
  shows "(\<exists>c'. bc_read ram_dev b c = (Inr (v b), c')) \<and>
    (\<exists>c'. read_many ram_dev blk (n * BLOCK_SIZE) c = (Inr (concat (map v [blk..<blk + n])), c')) \<and>
    (\<exists>c'. bc_flush ram_dev c = (Inr (), c') \<and> dirty_count c' = 0)"
proof -
  obtain c' where f: "bc_flush ram_dev c = (Inr (), c')" using ram.bc_flush_ok [OF assms(1)] by blast
  show ?thesis
    using ram.bc_read_ok [OF assms(1,2,4)] ram.read_many_ok [OF assms(1,3,4)] f ram.bc_flush_step(2) [OF assms(1) f] by blast
qed

theorem cache_reads_succeed_witness:
  "\<exists>c'. bc_read ram_dev 1 (cache_of two_blocks 1) = (Inr (replicate BLOCK_SIZE 9), c')"
proof -
  obtain v where v: "cache_is ram_dev ram_holds (cache_of two_blocks 1) v" "\<forall>b < length two_blocks. v b = two_blocks ! b"
    using cache_of_is(1) [OF two_blocks_ok(1,2)] by blast
  have n: "nblocks (cache_of two_blocks 1) = 2" using cache_of_is(2) [OF two_blocks_ok(1,2)] two_blocks_ok(3) by simp
  have "v 1 = replicate BLOCK_SIZE 9" using v(2) two_blocks_ok(3,4) by simp
  then show ?thesis using cache_reads_succeed [OF v(1), of 1 0 2] by (simp add: n [unfolded One_nat_def])
qed

end
