(* ===== verification/Recovery.thy ===== *)
theory Recovery
  imports Journal CacheLive
begin

text \<open>
  Power loss end to end: a commit runs over a faulty disk, the power goes at any point,
  the medium is mounted again through a fresh cache and the journal is replayed.
\<close>

subsection \<open>Replay on a device that serves every request\<close>

context reliable_device
begin

lemma write_blocks_ok:
  assumes "cache_is dev holds c v" and "blk_ok ws" and "\<forall>w \<in> set ws. fst w < nblocks c" and "nblocks c < 2 ^ 64"
  shows "\<exists>c'. write_blocks dev ws c = (Inr (), c')"
  using assms
proof (induction ws arbitrary: c v)
  case (Cons w ws)
  obtain b data tag where w: "w = (b, data, tag)" by (cases w)
  have len: "length data = BLOCK_SIZE" and ok: "blk_ok ws" using Cons.prems(2) by (auto simp: w blk_ok_def)
  obtain c1 where d: "write_direct dev b data tag c = (Inr (), c1)"
    using write_direct_ok [OF Cons.prems(1) _ Cons.prems(4) len] Cons.prems(3) w by fastforce
  have st: "cstep dev holds poss c c1 (v(b := data)) (sec_new (lba_of c b) data)"
    using write_direct_step(3) [OF Cons.prems(1) d len] by simp
  have "nblocks c1 = nblocks c" using cstep_geo [OF st] by simp
  then show ?case using Cons.IH [OF cstep_is [OF st] ok] Cons.prems(3,4) d by (simp add: w)
qed simp

lemma apply_home_ok:
  assumes "cache_is dev holds c v" and "blk_ok ws" and "ws \<noteq> []" and "\<forall>w \<in> set ws. fst w < nblocks c"
    and "nblocks c < 2 ^ 64" and "jhdr g < nblocks c"
  shows "\<exists>c'. apply_home dev g seq ws c = (Inr (), c')"
proof -
  let ?w = "[(jhdr g, build_journal_header seq [] [], 0)] :: (nat \<times> bytes \<times> nat) list"
  have okw: "blk_ok ?w" by (simp add: blk_ok_def)
  obtain c1 where w1: "write_blocks dev ws c = (Inr (), c1)" using write_blocks_ok [OF assms(1,2,4,5)] by blast
  note s1 = write_blocks_step [OF assms(1,2) w1]
  have ci1: "cache_is dev holds c1 (vput ws v)" using s1 by simp
  obtain c2 where f2: "bc_flush dev c1 = (Inr (), c2)" using bc_flush_ok [OF ci1] by blast
  note s2 = bc_flush_step(1) [OF ci1 f2]
  have nb: "nblocks c2 = nblocks c" using s1 cstep_geo [OF s2] by (simp add: geo_def)
  obtain c3 where w3: "write_blocks dev ?w c2 = (Inr (), c3)"
    using write_blocks_ok [OF cstep_is [OF s2] okw] nb assms(5,6) by auto
  have "cache_is dev holds c3 (vput ?w (vput ws v))" using write_blocks_step [OF cstep_is [OF s2] okw w3] by blast
  then obtain c4 where "bc_flush dev c3 = (Inr (), c4)" using bc_flush_ok by blast
  then show ?thesis using w1 f2 w3 by (simp add: apply_home_def del: write_blocks.simps)
qed

lemma replay_succeeds:
  assumes "cache_is dev holds c v" and "geo_ok g" and "total_blocks g \<le> nblocks c" and "nblocks c < 2 ^ 64"
    and "recover g v = Inr (s, v')"
  shows "\<exists>c'. replay_journal dev g c = (Inr s, c') \<and> cache_is dev holds c' v'"
proof -
  have area: "b < nblocks c" if "b \<in> jarea g" for b using geo_journal(2) [OF assms(2) that] assms(3) by simp
  have jh: "jhdr g < nblocks c" using area geo_journal(6) [OF assms(2)] by simp
  obtain c1 where rd: "bc_read dev (jhdr g) c = (Inr (v (jhdr g)), c1)" using bc_read_ok [OF assms(1) jh assms(4)] by blast
  note s1 = bc_read_step(1) [OF assms(1) rd]
  have nb1: "nblocks c1 = nblocks c" using cstep_geo [OF s1] by simp
  have "\<exists>s' c'. replay_journal dev g c = (Inr s', c')"
  proof (cases "parse_journal_header (v (jhdr g)) (journal_blocks g)")
    case None
    then show ?thesis using rd by (simp add: replay_journal_alt cache_io_def)
  next
    case (Some p)
    let ?n = "length (jh_targets p)"
    have n: "?n \<le> journal_blocks g" by (rule parse_targets [OF Some])
    show ?thesis
    proof (cases "jh_targets p = []")
      case True
      then show ?thesis using rd Some by (simp add: replay_journal_alt cache_io_def)
    next
      case False
      have "jpayload g + ?n \<le> nblocks c1" using geo_journal(5) [OF assms(2)] n nb1 assms(3) by simp
      then obtain c2 where rm: "read_many dev (jpayload g) (?n * BLOCK_SIZE) c1 = (Inr (payload_of g v ?n), c2)"
        using read_many_ok [OF cstep_is [OF s1]] nb1 assms(4) by (auto simp: payload_of_def)
      note s2 = read_many_step(1) [OF cstep_is [OF s1] rm]
      have nb2: "nblocks c2 = nblocks c" using cstep_geo [OF s2] nb1 by simp
      show ?thesis
      proof (cases "journal_crc_ok (v (jhdr g)) (payload_of g v ?n)")
        case crc: True
        have rng: "in_range g (jh_targets p)"
        proof (rule ccontr)
          assume "\<not> in_range g (jh_targets p)"
          then have "list_ex (\<lambda>t. t < bbitmap_start g \<or> backup_sb g \<le> t) (jh_targets p)"
            by (simp add: list_ex_iff in_range_def) (meson linorder_not_le)
          then show False using assms(5) Some False crc by (simp add: recover_def Let_def payload_of_def)
        qed
        have lens: "length (payload_of g v ?n) = ?n * BLOCK_SIZE"
          by (rule length_payload_of [OF _ n]) (use cache_is_length [OF assms(1)] area in auto)
        let ?ws = "home_of (jh_targets p) (payload_of g v ?n)"
        have "fst w < nblocks c2" if "w \<in> set ?ws" for w
        proof -
          have "fst w \<in> set (jh_targets p)" using home_of_props(1) that by fastforce
          then show ?thesis using rng assms(3) nb2 by (auto simp: in_range_def backup_sb_def)
        qed
        then obtain c3 where "apply_home dev g (jh_seq p) ?ws c2 = (Inr (), c3)"
          using apply_home_ok [OF cstep_is [OF s2] home_of_props(2) [OF lens] home_of_props(3) [OF False]] nb2 assms(4) jh
          by fastforce
        then show ?thesis using rd Some False rm crc rng by (simp add: replay_journal_alt cache_io_def)
      next
        case crc: False
        then show ?thesis using rd Some False rm by (simp add: replay_journal_alt cache_io_def)
      qed
    qed
  qed
  then obtain s' c' where run: "replay_journal dev g c = (Inr s', c')" by blast
  then show ?thesis using replay_refines_recover(2) [OF assms(1-3) run refl] assms(5) by auto
qed

end

subsection \<open>Replay interrupted\<close>

lemma vput_cong: "V b = v b \<Longrightarrow> vput ws V b = vput ws v b"
  using vput_eq [of b ws V v] vput_other [of b ws] by (cases "b \<in> fst ` set ws") auto

lemma recover_agree:
  assumes "geo_ok g" and "\<And>b. b < n \<Longrightarrow> V b = v b" and "total_blocks g \<le> n" and "recover g v = Inr (s, v')"
  shows "\<exists>V'. recover g V = Inr (s, V') \<and> (\<forall>b < n. V' b = v' b)"
proof -
  have area: "V b = v b" if "b \<in> jarea g" for b using assms(2,3) geo_journal(2) [OF assms(1) that] by simp
  have h: "V (jhdr g) = v (jhdr g)" by (rule area [OF geo_journal(6) [OF assms(1)]])
  show ?thesis
  proof (cases "parse_journal_header (v (jhdr g)) (journal_blocks g)")
    case None
    then show ?thesis using assms(2,4) by (auto simp: recover_def h)
  next
    case (Some p)
    have pl: "payload_of g V (length (jh_targets p)) = payload_of g v (length (jh_targets p))"
      by (rule payload_cong [OF area parse_targets [OF Some]])
    show ?thesis
      using assms(4) Some assms(2) vput_cong [of V _ v]
      by (auto simp: recover_def h Let_def payload_of_def [symmetric] pl split: if_splits)
  qed
qed

context block_device
begin

lemma all_settled_step:
  assumes "all_settled dev holds poss c v" and "cstep dev holds poss c c' v none"
  shows "all_settled dev holds poss c' v"
proof -
  note g = cstep_geo [OF assms(2)]
  have sub: "cposs poss c' k \<subseteq> cposs poss c k" for k using assms(2) by (simp add: cstep_def)
  have "settled (cposs poss c') c' b (v b)" if "b < nblocks c'" for b
    using assms(1) that g sub unfolding all_settled_def settled_def by (metis subset_trans)
  then show ?thesis using cstep_is [OF assms(2)] by (simp add: all_settled_def)
qed

lemma all_settled_image:
  assumes "all_settled dev holds poss c v" and "image_of (cposs poss c) m" and "b < nblocks c"
  shows "devblk m c b = v b"
  using settled_image [of "cposs poss c" c b "v b" m] assms cache_is_length [of c v b] by (auto simp: all_settled_def)

lemma replay_crash:
  assumes "geo_ok g" and "total_blocks g \<le> nblocks c" and "all_settled dev holds poss c v" and "recover g v = Inr (s, v')"
    and "\<And>p. pending g v p \<Longrightarrow> torn_safe g v (build_journal_header (jh_seq p) [] [])"
    and "replay_journal dev g c = (r, c')"
  shows "dev_ok dev holds c'" and "geo c' = geo c" and "image_of (cposs poss c') m \<Longrightarrow>
    \<exists>s V'. recover g (devblk m c) = Inr (s, V') \<and> (\<forall>b < nblocks c. b \<notin> jarea g \<longrightarrow> V' b = v' b)"
proof -
  have ci: "cache_is dev holds c v" using assms(3) by (simp add: all_settled_def)
  have geo: "geo c' = geo c" by (rule replay_refines_recover(1) [OF ci assms(1,2,6)])
  show "geo c' = geo c" by (rule geo)
  have quiet: "dev_ok dev holds c' \<and> (image_of (cposs poss c') m \<longrightarrow>
      (\<exists>s V'. recover g (devblk m c) = Inr (s, V') \<and> (\<forall>b < nblocks c. b \<notin> jarea g \<longrightarrow> V' b = v' b)))"
    if st: "cstep dev holds poss c c' v none"
  proof -
    note as = all_settled_step [OF assms(3) st]
    have "devblk m c' = devblk m c" "nblocks c' = nblocks c" using cstep_geo [OF st] by (simp_all add: devblk_def [abs_def])
    then have "devblk m c b = v b" if "image_of (cposs poss c') m" "b < nblocks c" for b
      using all_settled_image [OF as that(1)] that(2) by simp
    then show ?thesis
      using recover_agree [OF assms(1) _ assms(2,4), of "devblk m c"] cache_is_dev_ok [OF cstep_is [OF st]] by blast
  qed
  obtain r1 c1 where rd: "bc_read dev (jhdr g) c = (r1, c1)" by fastforce
  note s1 = bc_read_step [OF ci rd]
  have "dev_ok dev holds c' \<and> (image_of (cposs poss c') m \<longrightarrow>
      (\<exists>s V'. recover g (devblk m c) = Inr (s, V') \<and> (\<forall>b < nblocks c. b \<notin> jarea g \<longrightarrow> V' b = v' b)))"
  proof (cases r1)
    case (Inl e)
    then have "c' = c1" using assms(6) rd by (simp add: replay_journal_alt cache_io_def)
    then show ?thesis using quiet s1(1) by simp
  next
    case (Inr h)
    then have h: "h = v (jhdr g)" using s1(2) by simp
    show ?thesis
    proof (cases "parse_journal_header h (journal_blocks g)")
      case None
      then have "c' = c1" using assms(6) rd Inr by (simp add: replay_journal_alt cache_io_def)
      then show ?thesis using quiet s1(1) by simp
    next
      case (Some p)
      let ?n = "length (jh_targets p)"
      have n: "?n \<le> journal_blocks g" by (rule parse_targets [OF Some])
      show ?thesis
      proof (cases "jh_targets p = []")
        case True
        then have "c' = c1" using assms(6) rd Inr Some by (simp add: replay_journal_alt cache_io_def)
        then show ?thesis using quiet s1(1) by simp
      next
        case False
        obtain r2 c2 where rm: "read_many dev (jpayload g) (?n * BLOCK_SIZE) c1 = (r2, c2)" by fastforce
        note s2 = read_many_step [OF cstep_is [OF s1(1)] rm]
        have st2: "cstep dev holds poss c c2 v none" using cstep_trans [OF s1(1) s2(1)] by simp
        show ?thesis
        proof (cases r2)
          case (Inl e)
          then have "c' = c2" using assms(6) rd \<open>r1 = Inr h\<close> Some False rm by (simp add: replay_journal_alt cache_io_def)
          then show ?thesis using quiet st2 by simp
        next
          case (Inr pay)
          then have pay: "pay = payload_of g v ?n" using s2(2) by (simp add: payload_of_def BLOCK_SIZE_def)
          show ?thesis
          proof (cases "journal_crc_ok h pay \<and> in_range g (jh_targets p)")
            case ok: False
            then have "c' = c2" using assms(6) rd \<open>r1 = Inr h\<close> Some False rm Inr
              by (auto simp: replay_journal_alt cache_io_def split: if_splits)
            then show ?thesis using quiet st2 by simp
          next
            case ok: True
            let ?ws = "home_of (jh_targets p) pay"
            have pd: "pending g v p" using Some False ok by (simp add: pending_def h pay payload_of_def)
            have lens: "length pay = ?n * BLOCK_SIZE" unfolding pay
              by (rule length_payload_of [OF _ n]) (use cache_is_length [OF ci] geo_journal(2) [OF assms(1)] assms(2) in fastforce)
            obtain r3 c3 where ah: "apply_home dev g (jh_seq p) ?ws c2 = (r3, c3)" by fastforce
            have c': "c' = c3" using assms(6) rd \<open>r1 = Inr h\<close> Some False rm Inr ok ah
              by (cases r3) (auto simp: replay_journal_alt cache_io_def)
            have seq: "jh_seq p < 2 ^ 64" using Some rd_less(3) [of h 8] by (auto simp: parse_journal_header_def Let_def split: if_splits)
            have g2: "nblocks c2 = nblocks c" "devblk m c2 = devblk m c" using cstep_geo [OF st2] by (simp_all add: devblk_def [abs_def])
            have v': "v' b = vput ?ws v b" if "b \<notin> jarea g" for b
              using recover_pending [OF pd] ok assms(4) that geo_journal(6) [OF assms(1)] by (auto simp: pay)
            have okw: "blk_ok ?ws" "?ws \<noteq> []" using home_of_props(2) [OF lens] home_of_props(3) [OF False] .
            have "dev_ok dev holds c'" using apply_home_step(3) [OF cstep_is [OF st2] okw ah] by (simp add: c')
            moreover have "\<exists>s V'. recover g (devblk m c) = Inr (s, V') \<and> (\<forall>b < nblocks c. b \<notin> jarea g \<longrightarrow> V' b = v' b)"
              if "image_of (cposs poss c') m"
              using home_crash [where m = m, OF assms(1) _ all_settled_step [OF assms(3) st2] pd _ okw home_of_props(1) _ assms(5) [OF pd] seq ah]
                that ok assms(2) by (simp add: g2 v' pay c')
            ultimately show ?thesis by blast
          qed
        qed
      qed
    qed
  qed
  then show "dev_ok dev holds c'" and "image_of (cposs poss c') m \<Longrightarrow>
    \<exists>s V'. recover g (devblk m c) = Inr (s, V') \<and> (\<forall>b < nblocks c. b \<notin> jarea g \<longrightarrow> V' b = v' b)" by blast+
qed

end

subsection \<open>Mounting what is left\<close>

text \<open>
  The device a power cut leaves behind a cache over a faulty disk, opened through a new
  cache: it presents an image of what the old cache could have left.
\<close>

abbreviation fram_is :: "ram_disk faulty_disk block_cache \<Rightarrow> (nat \<Rightarrow> bytes) \<Rightarrow> bool" where
  "fram_is \<equiv> cache_is (faulty_dev ram_dev) (fd_holds ram_dev ram_holds)"

abbreviation fram_left :: "ram_disk faulty_disk block_cache \<Rightarrow> nat \<Rightarrow> bytes set" where
  "fram_left \<equiv> cposs (fd_poss ram_poss)"

definition reopen :: "ram_disk faulty_disk block_cache \<Rightarrow> nat \<Rightarrow> ram_disk block_cache" where
  "reopen c cap = bc_new ram_dev (fd_into_inner ram_dev (bc_dev c)) (base_lba c) (nblocks c) cap"

lemma reopen_image:
  assumes "dev_ok (faulty_dev ram_dev) (fd_holds ram_dev ram_holds) c" and "cap < NIL"
  shows "\<exists>m. image_of (fram_left c) m \<and> cache_is ram_dev ram_holds (reopen c cap) (devblk m c) \<and>
    nblocks (reopen c cap) = nblocks c"
proof -
  obtain m0 where m0: "fd_holds ram_dev ram_holds (bc_dev c) m0"
    and cover: "lba_of c (nblocks c) \<le> sector_count ram_dev (fd_inner (bc_dev c))"
    using assms(1) by (auto simp: dev_ok_def faulty_dev_def fd_sector_count_def)
  obtain m where m: "ram_holds (fd_into_inner ram_dev (bc_dev c)) m" "\<And>i. m i \<in> fd_poss ram_poss (bc_dev c) i"
      "sector_count ram_dev (fd_into_inner ram_dev (bc_dev c)) = sector_count ram_dev (fd_inner (bc_dev c))"
    using ram.fd_into_inner_image [OF m0] by blast
  have base: "base_lba c \<le> sector_count ram_dev (fd_into_inner ram_dev (bc_dev c))"
    using cover m(3) by (simp add: lba_of_def)
  have "nblocks c * SECTORS_PER_BLOCK \<le> sector_count ram_dev (fd_into_inner ram_dev (bc_dev c)) - base_lba c"
    using cover m(3) by (simp add: lba_of_def)
  then have "nblocks c \<le> (sector_count ram_dev (fd_into_inner ram_dev (bc_dev c)) - base_lba c) div SECTORS_PER_BLOCK"
    by (simp add: less_eq_div_iff_mult_less_eq block_sizes(2))
  then have nb: "nblocks (reopen c cap) = nblocks c" by (simp add: reopen_def bc_new_def Let_def)
  have "base_lba (reopen c cap) = base_lba c" by (simp add: reopen_def bc_new_def Let_def)
  then have "devblk m (reopen c cap) = devblk m c" by (simp add: devblk_def lba_of_def fun_eq_iff)
  then have "cache_is ram_dev ram_holds (reopen c cap) (devblk m c)"
    using bc_new_is [of ram_holds, OF m(1) base assms(2), of "nblocks c"] by (simp add: reopen_def)
  moreover have "image_of (fram_left c) m" using m(2) by (auto simp: image_of_def cposs_def)
  ultimately show ?thesis using nb by blast
qed

text \<open>
  \<open>crc_catches\<close>: a torn commit record is told from a complete one.  It holds of itself for a
  transaction whose record fits in one sector (122 blocks).
\<close>

definition crc_catches :: "geometry \<Rightarrow> bytes \<Rightarrow> nat \<Rightarrow> nat list \<Rightarrow> bytes list \<Rightarrow> bool" where
  "crc_catches g h0 seq targets blocks \<longleftrightarrow>
     (\<forall>w. payload_of g w (length targets) = concat blocks \<longrightarrow>
        (w (jhdr g) = h0 \<longrightarrow> torn_safe g w (build_journal_header seq targets blocks)) \<and>
        (w (jhdr g) = build_journal_header seq targets blocks \<longrightarrow> torn_safe g w (build_journal_header seq [] [])))"

lemma crc_catches_small:
  assumes "24 + 4 * length targets \<le> SECTOR_SIZE"
  shows "crc_catches g (build_journal_header s0 [] []) seq targets blocks"
proof -
  have "24 + 4 * length ([] :: nat list) \<le> SECTOR_SIZE" by (simp add: SECTOR_SIZE_def)
  then show ?thesis using torn_safe_small [OF _ _ assms] torn_safe_small [OF _ assms]
    unfolding crc_catches_def by blast
qed


text \<open>An eleven-block filesystem whose power goes after five sector writes.\<close>

definition small_geo :: geometry where
  "small_geo = \<lparr>total_blocks = 11, journal_blocks = 1, inode_count = 8, jhdr = 1, jpayload = 2, bbitmap_start = 3,
     bbitmap_blocks = 1, ibitmap_start = 4, ibitmap_blocks = 1, itable_start = 5, itable_blocks = 1, data_start = 6\<rparr>"

definition zero_block :: bytes where
  "zero_block = replicate BLOCK_SIZE 0"

definition small_blocks :: "bytes list" where
  "small_blocks = [zero_block, build_journal_header 0 [] []] @ replicate 9 zero_block"

lemma small_geo_ok: "geo_ok small_geo"
  by (simp add: geo_ok_def small_geo_def layout_consts div_ceil_def)

lemma small_blocks_ok: "blocks_ok small_blocks" "length small_blocks = 11" "small_blocks ! 1 = build_journal_header 0 [] []"
  by (auto simp: blocks_ok_def small_blocks_def zero_block_def BLOCK_SIZE_def)

lemma small_tx_ok: "tx_ok small_geo [5] [replicate BLOCK_SIZE 7]"
  by (simp add: tx_ok_def in_range_def small_geo_def backup_sb_def)

lemma small_area: "jarea small_geo = {1, 2}"
  by (auto simp: jarea_def small_geo_def)



definition logged_blocks :: "bytes list" where
  "logged_blocks = [zero_block, build_journal_header 3 [5] [replicate BLOCK_SIZE 7], replicate BLOCK_SIZE 7] @ replicate 8 zero_block"




end
