(* ===== verification/FsInv.thy ===== *)
theory FsInv
  imports Rollback Recovery
begin

text \<open>
  Every public operation, on every device, keeps the filesystem state consistent, and one that
  fails leaves it as it was.
\<close>

subsection \<open>Transactions\<close>

text \<open>Between operations no transaction is open.\<close>

definition fs_ok :: "'d fs3 \<Rightarrow> bool" where
  "fs_ok fs \<longleftrightarrow> alloc_ok fs \<and> f_tx fs = tx_idle"

lemma fs_ok_cache [simp]: "fs_ok (fs\<lparr>f_cache := c\<rparr>) = fs_ok fs"
  by (simp add: fs_ok_def alloc_ok_def)

lemma tx_begin_cases:
  assumes "fs_ok fs" and "tx_begin fs = (r, fs')"
  shows "(r = Inl Poisoned \<and> f_poisoned fs \<and> fs' = fs) \<or> (r = Inr () \<and> tx_inv fs fs')"
  using assms
  by (auto simp: tx_begin_def ready_def fs_ok_def tx_inv_def alloc_ok_def undone_def tx_idle_def Let_def split: if_splits)

lemma tx_abort_undo:
  assumes "tx_inv fs0 fs"
  shows "\<exists>c. tx_abort fs = fs0\<lparr>f_cache := c, f_tx := tx_idle\<rparr>"
  by (rule exI [of _ "f_cache (tx_abort fs)"], rule fs3.equality)
    (use assms in \<open>auto simp: tx_inv_def undone_def tx_abort_def Let_def\<close>)

lemma tx_inv_put_images: "tx_inv fs0 fs \<Longrightarrow> ends (tx_inv fs0) (put_images at bits is fs)"
proof (induction "is" arbitrary: fs)
  case (Cons i "is")
  show ?case unfolding put_images.simps using Cons.prems by (intro ends_bindr rollback.keep_put_meta Cons.IH)
qed simp

lemma tx_inv_prepare_commit: "tx_inv fs0 fs \<Longrightarrow> ends (tx_inv fs0) (prepare_commit fs)"
  unfolding prepare_commit_def Let_def
  by (intro ends_bindr tx_inv_mark_runs tx_inv_put_images ends_if) auto

lemma fs_ok_idle: "tx_inv fs0 fs \<Longrightarrow> fs_ok (fs\<lparr>f_tx := tx_idle\<rparr>)"
  by (auto simp: fs_ok_def tx_inv_def alloc_ok_def tx_idle_def Let_def)

lemma write_journal_frame:
  assumes "write_journal dev fs = (r, fs')"
  shows "fs' = fs\<lparr>f_cache := f_cache fs', f_seq := f_seq fs'\<rparr>"
  using assms by (auto simp: write_journal_def Let_def lift_io_def bindr_def split: prod.splits sum.splits)

lemma tx_commit_cases:
  assumes "tx_inv fs0 fs" and "tx_commit dev fs = (r, fs')"
  shows "(\<exists>e c. r = Inl e \<and> fs' = fs0\<lparr>f_cache := c, f_tx := tx_idle\<rparr>) \<or> (\<exists>e. r = Inl e \<and> f_poisoned fs' \<and> fs_ok fs') \<or>
    (r = Inr () \<and> fs_ok fs')"
proof -
  obtain pr fs1 where p: "prepare_commit fs = (pr, fs1)" by fastforce
  have i: "tx_inv fs0 fs1" using tx_inv_prepare_commit [OF assms(1)] p by (metis endsD)
  have "alloc_ok (fs1\<lparr>f_tx := tx_idle\<rparr>)" using fs_ok_idle [OF i] by (simp add: fs_ok_def)
  then have ok: "fs_ok (fs1\<lparr>f_cache := c, f_seq := s, f_commits := n, f_tx := tx_idle\<rparr>)"
    "fs_ok (fs1\<lparr>f_cache := c, f_seq := s, f_poisoned := b, f_tx := tx_idle\<rparr>)" for c s n b
    by (simp_all add: fs_ok_def alloc_ok_def)
  show ?thesis
  proof (cases pr)
    case (Inl e)
    then show ?thesis using assms(2) p tx_abort_undo [OF i] by (auto simp: tx_commit_def)
  next
    case Inr
    show ?thesis
    proof (cases "tx_meta (f_tx fs1) = []")
      case True
      then show ?thesis using assms(2) p Inr fs_ok_idle [OF i] by (auto simp: tx_commit_def)
    next
      case False
      obtain jr fs2 where j: "write_journal dev fs1 = (jr, fs2)" by fastforce
      then obtain c s where fs2: "fs2 = fs1\<lparr>f_cache := c, f_seq := s\<rparr>" using write_journal_frame by blast
      show ?thesis
        using assms(2) p Inr False j ok by (cases jr) (auto simp: tx_commit_def fs2)
    qed
  qed
qed

subsection \<open>Operations that only read\<close>

definition only_cache :: "'d fs3 \<Rightarrow> 'd fs3 \<Rightarrow> bool" where
  "only_cache fs0 fs \<longleftrightarrow> fs\<lparr>f_cache := f_cache fs0\<rparr> = fs0"

lemma only_cache_refl [simp]: "only_cache fs fs"
  by (simp add: only_cache_def)

lemma only_cache_upd [simp]: "only_cache fs0 (fs\<lparr>f_cache := c\<rparr>) = only_cache fs0 fs"
  by (simp add: only_cache_def)

lemma only_cache_eq: "only_cache fs0 fs \<Longrightarrow> fs = fs0\<lparr>f_cache := f_cache fs\<rparr>"
  unfolding only_cache_def by (metis fs3.select_convs(1) fs3.surjective fs3.update_convs(1))

interpretation reads: read_invariant dev "only_cache fs0" for dev :: "'d blockdevice" and fs0 :: "'d fs3"
  by unfold_locales simp_all

subsection \<open>A transaction as a whole\<close>

text \<open>What an operation in one transaction leaves: a consistent state, and on failure the state before it or a poisoned one.\<close>

definition atomic_end :: "'d fs3 \<Rightarrow> ('d fs3, fs_error, 'a) res \<Rightarrow> bool" where
  "atomic_end fs r \<longleftrightarrow> fs_ok (snd r) \<and> (case fst r of Inl _ \<Rightarrow> f_poisoned (snd r) \<or> only_cache fs (snd r) | Inr _ \<Rightarrow> True)"

lemma atomic_read: "fs_ok fs \<Longrightarrow> ends (only_cache fs) r \<Longrightarrow> atomic_end fs r"
  by (cases r) (auto simp: atomic_end_def dest!: only_cache_eq split: sum.splits; metis fs_ok_cache)

lemma txn_atomic:
  assumes ok: "fs_ok fs" and f: "\<And>s. tx_inv fs s \<Longrightarrow> ends (tx_inv fs) (f s)"
  shows "atomic_end fs (txn dev f fs)"
proof -
  have undo: "fs_ok (fs\<lparr>f_cache := c, f_tx := tx_idle\<rparr>) \<and> only_cache fs (fs\<lparr>f_cache := c, f_tx := tx_idle\<rparr>)" for c
    using ok by (auto simp: fs_ok_def alloc_ok_def Let_def only_cache_def)
  obtain br fs1 where b: "tx_begin fs = (br, fs1)" by fastforce
  consider "br = Inl Poisoned" "f_poisoned fs" "fs1 = fs" | "br = Inr ()" "tx_inv fs fs1"
    using tx_begin_cases [OF ok b] by blast
  then show ?thesis
  proof cases
    case 1
    then show ?thesis using ok b by (simp add: txn_def atomic_end_def)
  next
    case 2
    obtain r fs2 where r: "f fs1 = (r, fs2)" by fastforce
    have i: "tx_inv fs fs2" using f [OF 2(2)] r by (simp add: ends_def)
    show ?thesis
    proof (cases r)
      case (Inl e)
      then show ?thesis using 2 b r tx_abort_undo [OF i] undo by (auto simp: txn_def atomic_end_def)
    next
      case (Inr x)
      obtain cr fs3 where c: "tx_commit dev fs2 = (cr, fs3)" by fastforce
      show ?thesis
        using tx_commit_cases [OF i c] 2 b r Inr c undo by (auto simp: txn_def atomic_end_def)
    qed
  qed
qed

lemma atomic_bindr:
  assumes "fs_ok fs" and "ends (only_cache fs) r" and "\<And>x s. only_cache fs s \<Longrightarrow> fs_ok s \<Longrightarrow> atomic_end s (k x s)"
  shows "atomic_end fs (bindr r k)"
proof (cases r)
  case (Pair v s)
  have s: "only_cache fs s" using assms(2) by (simp add: Pair)
  then have ok: "fs_ok s" using assms(1) only_cache_eq [OF s] fs_ok_cache by metis
  have "only_cache fs s'" if "only_cache s s'" for s'
    using that s unfolding only_cache_def by (metis fs3.update_convs(1) fs3.surjective)
  note trans = this
  show ?thesis
  proof (cases v)
    case (Inr x)
    then show ?thesis
      using assms(3) [OF s ok, of x] trans [of "snd (k x s)"] by (auto simp: Pair atomic_end_def split: sum.splits)
  qed (use s ok in \<open>simp add: Pair atomic_end_def\<close>)
qed

lemma atomic_bindr_refl:
  assumes "fs_ok fs" and "\<And>x. atomic_end fs (k x fs)"
  shows "atomic_end fs (bindr (v, fs) k)"
  using assms by (cases v) (auto simp: atomic_end_def)

subsection \<open>The public operations\<close>

datatype fs_op =
    OpLookup bytes | OpOpen bytes | OpStat bytes | OpStatIno nat | OpPathOf nat | OpReaddir bytes | OpReaddirNames bytes
  | OpReadAt nat nat bytes | OpReadFile bytes | OpTrashList | OpFsck | OpSync
  | OpCreate bytes nat | OpMkdir bytes nat | OpSetOwner bytes "nat option" "nat option" "nat option"
  | OpWriteAt nat nat bytes nat | OpAppend nat bytes nat | OpTruncate nat nat nat | OpWriteFile bytes bytes nat
  | OpRemove bytes | OpRmdir bytes | OpRename bytes bytes nat | OpTrash bytes nat | OpTrashRestore bytes nat
  | OpRemoveAll bytes | OpTrashPurge bytes | OpEmptyTrash

definition outcome :: "('d fs3, fs_error, 'a) res \<Rightarrow> ('d fs3, fs_error, unit) res" where
  "outcome r = (case r of (Inl e, fs) \<Rightarrow> (Inl e, fs) | (Inr _, fs) \<Rightarrow> (Inr (), fs))"

fun run_op :: "'d blockdevice \<Rightarrow> fs_op \<Rightarrow> 'd fs3 \<Rightarrow> ('d fs3, fs_error, unit) res" where
  "run_op dev (OpLookup p) fs = outcome (fs_lookup dev p fs)"
| "run_op dev (OpOpen p) fs = outcome (fs_open dev p fs)"
| "run_op dev (OpStat p) fs = outcome (fs_stat dev p fs)"
| "run_op dev (OpStatIno i) fs = outcome (stat_ino dev i fs)"
| "run_op dev (OpPathOf i) fs = outcome (path_of dev i fs)"
| "run_op dev (OpReaddir p) fs = outcome (readdir dev p fs)"
| "run_op dev (OpReaddirNames p) fs = outcome (readdir_names dev p fs)"
| "run_op dev (OpReadAt i off buf) fs = outcome (read_at dev i off buf fs)"
| "run_op dev (OpReadFile p) fs = outcome (read_file dev p fs)"
| "run_op dev OpTrashList fs = outcome (trash_list dev fs)"
| "run_op dev OpFsck fs = outcome (fsck dev fs)"
| "run_op dev OpSync fs = outcome (sync dev fs)"
| "run_op dev (OpCreate p now) fs = outcome (fs_create dev p now fs)"
| "run_op dev (OpMkdir p now) fs = outcome (fs_mkdir dev p now fs)"
| "run_op dev (OpSetOwner p u g m) fs = outcome (set_owner dev p u g m fs)"
| "run_op dev (OpWriteAt i off data now) fs = outcome (write_at dev i off data now fs)"
| "run_op dev (OpAppend i data now) fs = outcome (fs_append dev i data now fs)"
| "run_op dev (OpTruncate i n now) fs = outcome (fs_truncate dev i n now fs)"
| "run_op dev (OpWriteFile p data now) fs = outcome (write_file dev p data now fs)"
| "run_op dev (OpRemove p) fs = outcome (fs_remove dev p fs)"
| "run_op dev (OpRmdir p) fs = outcome (fs_rmdir dev p fs)"
| "run_op dev (OpRename p q now) fs = outcome (rename dev p q now fs)"
| "run_op dev (OpTrash p now) fs = outcome (fs_trash dev p now fs)"
| "run_op dev (OpTrashRestore n now) fs = outcome (trash_restore dev n now fs)"
| "run_op dev (OpRemoveAll p) fs = outcome (remove_all dev p fs)"
| "run_op dev (OpTrashPurge n) fs = outcome (trash_purge dev n fs)"
| "run_op dev OpEmptyTrash fs = outcome (empty_trash dev fs)"

text \<open>The operations that run in at most one transaction; the others delete a tree item by item.\<close>

fun one_txn :: "fs_op \<Rightarrow> bool" where
  "one_txn (OpRemoveAll _) = False"
| "one_txn (OpTrashPurge _) = False"
| "one_txn OpEmptyTrash = False"
| "one_txn _ = True"

lemma atomic_done [simp]: "atomic_end fs (outcome r) = atomic_end fs r"
  by (cases r) (auto simp: outcome_def atomic_end_def split: sum.splits)

named_theorems atomic_ops \<open>operations that run in one transaction\<close>

lemmas atomic_rules = atomic_bindr txn_atomic keep_intros only_cache_refl

lemma atomic_fs_create [atomic_ops]: "fs_ok fs \<Longrightarrow> atomic_end fs (fs_create dev p now fs)"
  unfolding fs_create_def by (intro atomic_rules)

lemma atomic_fs_mkdir [atomic_ops]: "fs_ok fs \<Longrightarrow> atomic_end fs (fs_mkdir dev p now fs)"
  unfolding fs_mkdir_def by (intro atomic_rules)

lemma atomic_set_owner [atomic_ops]: "fs_ok fs \<Longrightarrow> atomic_end fs (set_owner dev p u g m fs)"
  unfolding set_owner_def Let_def by (intro atomic_rules)

lemma atomic_write_at [atomic_ops]: "fs_ok fs \<Longrightarrow> atomic_end fs (write_at dev i off data now fs)"
  unfolding write_at_def by (intro atomic_rules)

lemma atomic_fs_append [atomic_ops]: "fs_ok fs \<Longrightarrow> atomic_end fs (fs_append dev i data now fs)"
  unfolding fs_append_def by (intro atomic_rules)

lemma atomic_fs_truncate [atomic_ops]: "fs_ok fs \<Longrightarrow> atomic_end fs (fs_truncate dev i n now fs)"
  unfolding fs_truncate_def by (intro atomic_rules)

lemma atomic_write_file [atomic_ops]: "fs_ok fs \<Longrightarrow> atomic_end fs (write_file dev p data now fs)"
  unfolding write_file_def by (intro atomic_rules)

lemma atomic_fs_remove [atomic_ops]: "fs_ok fs \<Longrightarrow> atomic_end fs (fs_remove dev p fs)"
  unfolding fs_remove_def by (intro atomic_rules)

lemma atomic_fs_rmdir [atomic_ops]: "fs_ok fs \<Longrightarrow> atomic_end fs (fs_rmdir dev p fs)"
  unfolding fs_rmdir_def by (intro atomic_rules)

lemma atomic_rename [atomic_ops]: "fs_ok fs \<Longrightarrow> atomic_end fs (rename dev p q now fs)"
  unfolding rename_def by (intro atomic_rules)

lemma atomic_fs_trash [atomic_ops]: "fs_ok fs \<Longrightarrow> atomic_end fs (fs_trash dev p now fs)"
  unfolding fs_trash_def by (intro atomic_rules)

lemma atomic_trash_restore [atomic_ops]: "fs_ok fs \<Longrightarrow> atomic_end fs (trash_restore dev n now fs)"
  unfolding trash_restore_def by (intro atomic_rules)

lemma only_cache_sync: "ends (only_cache fs) (sync dev fs)"
  unfolding sync_def by (intro ends_bindr) (auto simp: ends_lift_io)

lemma run_op_atomic:
  assumes "fs_ok fs" and "one_txn p"
  shows "atomic_end fs (run_op dev p fs)"
  using assms by (cases p) (auto simp: atomic_ops intro!: atomic_read keep_intros only_cache_sync)

subsection \<open>Deleting trees\<close>

interpretation idle: read_invariant dev fs_ok for dev :: "'d blockdevice"
  by unfold_locales simp_all

lemma atomic_ends: "atomic_end fs r \<Longrightarrow> ends fs_ok r"
  by (simp add: atomic_end_def ends_def)

lemma ok_txn_remove [keep_intros]: "fs_ok fs \<Longrightarrow> ends fs_ok (txn dev (remove_entry dev d n i) fs)"
  by (rule atomic_ends [of fs]) (intro atomic_rules)

lemma ok_purge_entries [keep_intros]: "fs_ok fs \<Longrightarrow> ends fs_ok (purge_entries dev dir es pushed fs)"
proof (induction es arbitrary: pushed fs)
  case (Cons e es)
  obtain n i k where "e = (n, i, k)" by (cases e)
  then show ?case
    using Cons.prems by (simp only: purge_entries.simps) (intro keep_intros Cons.IH)
qed simp

lemma ok_purge_loop [keep_intros]: "fs_ok fs \<Longrightarrow> ends fs_ok (purge_loop dev budget stack fs)"
proof (induction budget arbitrary: stack fs)
  case 0
  then show ?case by (cases stack) simp_all
next
  case (Suc budget)
  then show ?case
    by (cases stack; cases "hd stack") (auto intro!: keep_intros)
qed

lemma ok_purge_tree [keep_intros]: "fs_ok fs \<Longrightarrow> ends fs_ok (purge_tree dev pdir name ino kind fs)"
  unfolding purge_tree_def by (intro keep_intros)

lemma ok_purge_all [keep_intros]: "fs_ok fs \<Longrightarrow> ends fs_ok (purge_all dev es fs)"
proof (induction es arbitrary: fs)
  case (Cons e es)
  obtain n i k where "e = (n, i, k)" by (cases e)
  then show ?case
    using Cons.prems by (simp only: purge_all.simps) (intro keep_intros Cons.IH)
qed simp

lemma ok_deletes [keep_intros]:
  "fs_ok fs \<Longrightarrow> ends fs_ok (remove_all dev p fs)" "fs_ok fs \<Longrightarrow> ends fs_ok (trash_purge dev n fs)"
  "fs_ok fs \<Longrightarrow> ends fs_ok (empty_trash dev fs)"
  unfolding remove_all_def trash_purge_def empty_trash_def by (intro keep_intros; assumption)+

lemma ends_outcome [simp]: "ends I (outcome r) = ends I r"
  by (cases r) (auto simp: outcome_def ends_def split: sum.splits)

lemma run_op_ok: "fs_ok fs \<Longrightarrow> ends fs_ok (run_op dev p fs)"
proof (cases "one_txn p")
  case True
  then show "fs_ok fs \<Longrightarrow> ends fs_ok (run_op dev p fs)" by (blast intro: run_op_atomic atomic_ends)
next
  case False
  then show "fs_ok fs \<Longrightarrow> ends fs_ok (run_op dev p fs)" by (cases p) (auto intro: ok_deletes)
qed

subsection \<open>Mounting and formatting\<close>

lemma length_load_bitmaps: "load_bitmaps raw is v = Inr w \<Longrightarrow> length w = length v"
proof (induction "is" arbitrary: v)
  case (Cons i "is")
  have len: "length (fold (\<lambda>k ws. if c k ws then ws[f k := x k] else ws) ks u) = length u" for c f x ks and u :: bitmap
    by (induction ks arbitrary: u) auto
  from Cons.prems obtain u where "load_bitmap_block (get_slice (i * BLOCK_SIZE) BLOCK_SIZE raw) i v = Inr u" "load_bitmaps raw is u = Inr w"
    by (auto simp: bindp_Inr_iff)
  then show ?case using Cons.IH len by (auto simp: load_bitmap_block_def Let_def split: if_splits)
qed simp

lemma open_bitmap_length:
  "open_bitmap dev start n nbits c = (Inr v, c') \<Longrightarrow> length v = div_ceil nbits 64"
  unfolding open_bitmap_def by (elim bindr_InrE) (auto dest: length_load_bitmaps)

lemma open_with_cache_ok:
  assumes "open_with_cache dev sb c = (Inr fs, c')" and "geo_ok (sb_geo sb)"
  shows "fs_ok fs"
proof -
  let ?g = "sb_geo sb"
  obtain bb ib where lb: "length bb = div_ceil (total_blocks ?g) 64" and li: "length ib = div_ceil (inode_count ?g) 64"
    and nf: "next_free bb 0 (data_start ?g) = None" "bits_get bb (backup_sb ?g)" "bits_get ib (ROOT_INO - 1)" "bits_get ib (TRASH_INO - 1)"
    and fs: "f_geo fs = ?g" "f_bbits fs = bb" "f_ibits fs = ib" "f_free_blocks fs = count_free bb (total_blocks ?g)"
      "f_free_inodes fs = count_free ib (inode_count ?g)" "f_tx fs = tx_idle"
    using assms(1) unfolding open_with_cache_def Let_def
    by (auto elim!: bindr_InrE dest!: open_bitmap_length split: if_splits)
  have "data_start ?g \<le> 64 * length bb" "data_start ?g < 2 ^ 32"
    using assms(2) div_ceil_bounds(1) [of 64 "total_blocks ?g"] by (auto simp: geo_ok_def lb)
  then have "bits_get bb b" if "b < data_start ?g" for b
    using next_with_spec [of "data_start ?g" bb 0 False] nf(1) that by (auto simp: next_free_def first_with_def)
  then show ?thesis
    using assms(2) lb li nf fs count_free_spec [OF lb] count_free_spec [OF li]
    by (auto simp: fs_ok_def alloc_ok_def Let_def tx_idle_def)
qed

lemma read_sb_state_ok:
  assumes "read_sb_state dev d = (Inr (Valid sb), d')"
  shows "geo_ok (sb_geo sb)"
  using assms unfolding read_sb_state_def Let_def
  by (auto elim!: bindr_InrE split: if_splits option.splits sum.splits) (erule sb_decode_ok)+

text \<open>What a constructor of a filesystem promises.\<close>

definition gives :: "('d fs3 \<Rightarrow> bool) \<Rightarrow> ('d, fs_error, 'd fs3) res \<Rightarrow> bool" where
  "gives P r \<longleftrightarrow> (case fst r of Inl _ \<Rightarrow> True | Inr fs \<Rightarrow> P fs \<and> snd r = bc_dev (f_cache fs))"

lemma gives_fs_res: "ends P r \<Longrightarrow> gives P (fs_res r)"
  by (cases r) (auto simp: gives_def fs_res_def ends_def split: sum.splits)

lemma gives_bindr:
  "(\<And>x s. r = (Inr x, s) \<Longrightarrow> gives P (k x s)) \<Longrightarrow> gives P (bindr r k)"
  by (cases r) (auto simp: bindr_def gives_def split: sum.splits)

lemma mount_with_ok: "gives fs_ok (mount_with dev n d)"
proof -
  have "gives fs_ok (bindr (cache_res (open_with_cache dev sb c)) (\<lambda>fs _. fs_res (validate_roots dev fs)))"
    if "read_sb_state dev d = (Inr (Valid sb), d')" for sb d' c
  proof (rule gives_bindr)
    fix fs s
    assume "cache_res (open_with_cache dev sb c) = (Inr fs, s)"
    then have "fs_ok fs"
      by (cases "open_with_cache dev sb c") (auto simp: cache_res_def intro: open_with_cache_ok read_sb_state_ok [OF that])
    then show "gives fs_ok (fs_res (validate_roots dev fs))"
      by (intro gives_fs_res keep_intros)
  qed
  then show ?thesis
    by (auto simp: mount_with_def gives_def [of _ "(Inl _, _)"] split: prod.splits sum.splits sb_state.splits)
qed

lemma format_geometry_ok: "format_geometry n opts = Inr g \<Longrightarrow> geo_ok g"
  unfolding format_geometry_def Let_def
  by (auto simp: bindp_Inr_iff checked_mul_def blocks_for_def dest!: geometry_compute_ok(1) split: if_splits prod.splits)

lemma cache_res_open:
  assumes "cache_res (bindr r (\<lambda>_ c. open_with_cache dev sb c)) = (Inr fs, s)" and "geo_ok (sb_geo sb)"
  shows "fs_ok fs"
  using assms by (cases r) (auto simp: cache_res_def bindr_def prod_eq_iff split: sum.splits intro: open_with_cache_ok prod_eqI)

lemma format_unsealed_ok: "gives fs_ok (format_unsealed dev opts d)"
proof -
  have roots: "ends fs_ok (txn dev (make_roots dev now) fs)" if "fs_ok fs" for now and fs :: "'a fs3"
    using that by (intro atomic_ends [of fs] atomic_rules)
  show ?thesis
    unfolding format_unsealed_def Let_def
    by (intro gives_bindr gives_fs_res ends_bindr roots keep_intros)
      (erule cache_res_open, auto dest: format_geometry_ok)
qed

lemma format_ok: "gives fs_ok (format dev opts d)"
proof -
  have "ends fs_ok (seal dev fs)" if "fs_ok fs" for fs :: "'a fs3"
    using that unfolding seal_def Let_def fs_dev_io_def by (intro ends_bindr) (auto simp: ends_lift_io split: prod.splits)
  then show ?thesis
    using format_unsealed_ok [of dev opts d] unfolding format_def by (intro gives_bindr gives_fs_res) (auto simp: gives_def)
qed

lemma mount_verified_ok: "gives fs_ok (mount_verified dev d)"
proof -
  have "gives fs_ok (case fsck dev fs of (Inl e, fs) \<Rightarrow> (Inl e, bc_dev (f_cache fs))
      | (Inr rep, fs) \<Rightarrow> if is_clean rep then (Inr fs, bc_dev (f_cache fs)) else (Inl x, bc_dev (f_cache fs)))"
    if "fs_ok fs" for fs x
    using idle.keep_fsck [OF that, of dev] by (cases "fsck dev fs") (auto simp: gives_def ends_def split: sum.splits)
  then show ?thesis
    using mount_with_ok [of dev DEFAULT_CACHE_BLOCKS d]
    unfolding mount_verified_def mount_def by (intro gives_bindr) (auto simp: gives_def)
qed

subsection \<open>A fresh small volume\<close>

text \<open>A volume with the geometry \<open>small_geo\<close>, as formatting leaves its bitmaps, over any cache.\<close>

definition small_fs :: "'d block_cache \<Rightarrow> 'd fs3" where
  "small_fs c = \<lparr>f_cache = c, f_sb = \<lparr>sb_uuid = replicate 16 0, sb_created = 0, sb_geo = small_geo\<rparr>, f_geo = small_geo,
     f_bbits = fresh_bbits small_geo, f_ibits = fresh_ibits small_geo,
     f_free_blocks = count_free (fresh_bbits small_geo) 11, f_free_inodes = count_free (fresh_ibits small_geo) 8,
     f_alloc_hint = 6, f_seq = 0, f_tx = tx_idle, f_poisoned = False, f_commits = 0\<rparr>"

lemma fresh_bbits_mark:
  "fresh_bbits g = bits_set (fold (mark True) [0..<data_start g] (bits_new (total_blocks g))) (backup_sb g)"
  by (simp add: fresh_bbits_def mark_eq [of True, symmetric])

lemma length_fresh [simp]:
  "length (fresh_bbits g) = div_ceil (total_blocks g) 64" "length (fresh_ibits g) = div_ceil (inode_count g) 64"
  by (simp_all add: fresh_bbits_mark fresh_ibits_def)

lemma bits_get_fresh_bbits:
  assumes "geo_ok g"
  shows "bits_get (fresh_bbits g) b \<longleftrightarrow> b < data_start g \<or> b = backup_sb g \<or> (total_blocks g \<le> b \<and> b < 64 * div_ceil (total_blocks g) 64)"
proof -
  have n: "total_blocks g \<le> 64 * div_ceil (total_blocks g) 64" "data_start g < total_blocks g"
    using div_ceil_bounds(1) [of 64 "total_blocks g"] assms by (auto simp: geo_ok_def)
  have "bits_get (fold (mark True) [0..<data_start g] (bits_new (total_blocks g))) b =
      (b < data_start g \<or> (total_blocks g \<le> b \<and> b < 64 * div_ceil (total_blocks g) 64))"
    using n by (subst bits_get_mark_fold) (auto simp: bits_get_new)
  then show ?thesis
    using n by (auto simp: fresh_bbits_mark bits_get_set backup_sb_def div_less_iff_less_mult mult.commute)
qed

lemma small_fs_ok: "fs_ok (small_fs c)"
proof -
  have "count_free (fresh_bbits small_geo) 11 = card (free_set (fresh_bbits small_geo) 11)"
    "count_free (fresh_ibits small_geo) 8 = card (free_set (fresh_ibits small_geo) 8)"
    by (rule count_free_spec, simp add: small_geo_def)+
  moreover have "bits_get (fresh_ibits small_geo) 0" "bits_get (fresh_ibits small_geo) 1"
    by (simp_all add: fresh_ibits_def bits_get_set small_geo_def ROOT_INO_def TRASH_INO_def div_ceil_def)
  moreover have "bits_get (fresh_bbits small_geo) b" if "b < 6 \<or> b = 10" for b
    using that unfolding bits_get_fresh_bbits [OF small_geo_ok] by (auto simp: small_geo_def backup_sb_def)
  ultimately show ?thesis
    using small_geo_ok
    by (auto simp: fs_ok_def alloc_ok_def Let_def small_fs_def tx_idle_def backup_sb_def ROOT_INO_def TRASH_INO_def)
      (simp_all add: small_geo_def)
qed

subsection \<open>Properties\<close>

text \<open>
  C2: Whatever the device does, and whichever public operations are run in whichever order, a
  volume that was mounted, mounted with a check, or formatted stays consistent between operations:
  no transaction is left open, the free-block and free-inode counters are the number of clear bits
  of the bitmaps, the superblocks, journal, bitmaps, inode table and the two fixed inodes stay
  allocated, and the overlay is empty and sorted.
\<close>

theorem volume_stays_consistent:
  "gives (\<lambda>fs. fs_ok (fold (\<lambda>p s. snd (run_op dev p s)) ops fs)) (mount_with dev n d) \<and>
   gives (\<lambda>fs. fs_ok (fold (\<lambda>p s. snd (run_op dev p s)) ops fs)) (mount_verified dev d) \<and>
   gives (\<lambda>fs. fs_ok (fold (\<lambda>p s. snd (run_op dev p s)) ops fs)) (format dev opts d)"
proof -
  have "fs_ok (fold (\<lambda>p s. snd (run_op dev p s)) ops fs)" if "fs_ok fs" for fs
    using that by (induction ops arbitrary: fs) (simp_all add: run_op_ok [unfolded ends_def])
  then have "gives (\<lambda>fs. fs_ok (fold (\<lambda>p s. snd (run_op dev p s)) ops fs)) r" if "gives fs_ok r" for r
    using that by (auto simp: gives_def split: sum.splits)
  note * = this
  show ?thesis by (intro conjI * mount_with_ok mount_verified_ok format_ok)
qed



text \<open>C23: A poisoned filesystem refuses every operation and does nothing.\<close>

theorem poisoned_refuses:
  assumes "f_poisoned fs"
  shows "run_op dev p fs = (Inl Poisoned, fs)"
proof -
  have r: "ready fs = Inl Poisoned" using assms by (simp add: ready_def)
  note defs = fs_lookup_def fs_open_def fs_stat_def stat_ino_def path_of_def readdir_def readdir_names_def read_at_def
    read_file_def trash_list_def fsck_def sync_def fs_create_def fs_mkdir_def target_of_def set_owner_def write_at_def
    fs_append_def fs_truncate_def write_file_def victim_of_def fs_remove_def fs_rmdir_def rename_def fs_trash_def
    trash_restore_def remove_all_def trash_purge_def empty_trash_def
  show ?thesis by (cases p) (simp_all add: defs r outcome_def)
qed

theorem poisoned_refuses_witness:
  "run_op ram_dev OpEmptyTrash ((small_fs (cache_of [] 1))\<lparr>f_poisoned := True\<rparr>) =
     (Inl Poisoned, (small_fs (cache_of [] 1))\<lparr>f_poisoned := True\<rparr>)"
  by (rule poisoned_refuses) simp

end
