(* ===== verification/Alloc.thy ===== *)
theory Alloc
  imports FsInv
begin

text \<open>
  The block allocator (\<open>alloc_blocks\<close> of \<^verbatim>\<open>fs3/mount/inodes.rs\<close>): what it hands out is free,
  in the data region and as much as was asked for, and it fails only when there is not enough.
\<close>

subsection \<open>Collecting free runs\<close>

definition free_list :: "bitmap \<Rightarrow> nat \<Rightarrow> nat \<Rightarrow> nat list" where
  "free_list v p to = filter (\<lambda>b. \<not> bits_get v b) [p..<to]"

lemma run_blocks_simps [simp]:
  "run_blocks_of [] = []" "run_blocks_of ((p, l) # rs) = [p..<p + l] @ run_blocks_of rs"
  "run_blocks_of (rs @ rs') = run_blocks_of rs @ run_blocks_of rs'"
  by (simp_all add: run_blocks_of_def)

lemma set_run_blocks: "set (run_blocks_of rs) = runs_in rs"
  by (auto simp: run_blocks_of_def runs_in_def)

lemma runs_ok_simps [simp]: "runs_ok []" "runs_ok ((p, l) # rs) \<longleftrightarrow> 0 < l \<and> p + l < 2 ^ 32 \<and> runs_ok rs"
  by (simp_all add: runs_ok_def)

lemma free_list_run:
  assumes "p \<le> s" and "s + n \<le> to" and "\<And>k. p \<le> k \<Longrightarrow> k < s \<Longrightarrow> bits_get v k" and "\<And>k. s \<le> k \<Longrightarrow> k < s + n \<Longrightarrow> \<not> bits_get v k"
  shows "free_list v p to = [s..<s + n] @ free_list v (s + n) to"
proof -
  have "[p..<to] = [p..<s] @ [s..<s + n] @ [s + n..<to]"
    using assms(1,2) upt_add_eq_append [of p s "to - s"] upt_add_eq_append [of s "s + n" "to - (s + n)"] by simp
  moreover have "filter (\<lambda>b. \<not> bits_get v b) [p..<s] = []" using assms(3) by (auto simp: filter_empty_conv)
  moreover have "filter (\<lambda>b. \<not> bits_get v b) [s..<s + n] = [s..<s + n]" using assms(4) by (auto intro: filter_True)
  ultimately show ?thesis by (simp add: free_list_def)
qed

definition free_end :: "bitmap \<Rightarrow> nat \<Rightarrow> nat \<Rightarrow> nat" where
  "free_end v s to = (case next_used v s to of None \<Rightarrow> to | Some e \<Rightarrow> e)"

lemma free_end_spec:
  assumes "to \<le> 64 * length v" and "to < 2 ^ 32" and "s < to" and "\<not> bits_get v s"
  shows "s < free_end v s to" and "free_end v s to \<le> to" and "\<And>k. s \<le> k \<Longrightarrow> k < free_end v s to \<Longrightarrow> \<not> bits_get v k"
proof -
  have f: "first_with v s to True (next_used v s to)"
    using next_with_spec [OF assms(1,2), of s True] by (simp add: next_used_def)
  have "s < free_end v s to \<and> free_end v s to \<le> to \<and> (\<forall>k. s \<le> k \<longrightarrow> k < free_end v s to \<longrightarrow> \<not> bits_get v k)"
  proof (cases "next_used v s to")
    case None
    then show ?thesis using f assms(3) by (simp add: first_with_def free_end_def)
  next
    case (Some e)
    then have "s \<le> e" "e < to" "bits_get v e" "\<forall>j. s \<le> j \<longrightarrow> j < e \<longrightarrow> \<not> bits_get v j"
      using f by (simp_all add: first_with_def)
    moreover from this have "s \<noteq> e" using assms(4) by blast
    ultimately show ?thesis using Some by (simp add: free_end_def)
  qed
  then show "s < free_end v s to" and "free_end v s to \<le> to" and "\<And>k. s \<le> k \<Longrightarrow> k < free_end v s to \<Longrightarrow> \<not> bits_get v k"
    by blast+
qed

lemma next_free_None:
  assumes "to \<le> 64 * length v" and "to < 2 ^ 32" and "next_free v p to = None"
  shows "free_list v p to = []"
  using next_with_spec [OF assms(1,2), of p False] assms(3)
  by (auto simp: next_free_def first_with_def free_list_def filter_empty_conv)

lemma next_free_Some:
  assumes "to \<le> 64 * length v" and "to < 2 ^ 32" and "next_free v p to = Some s"
  shows "p \<le> s" and "s < to" and "\<not> bits_get v s" and "\<And>k. p \<le> k \<Longrightarrow> k < s \<Longrightarrow> bits_get v k"
  using next_with_spec [OF assms(1,2), of p False] assms(3)
  by (simp_all add: next_free_def first_with_def)

lemma take_runs_spec:
  assumes "to \<le> 64 * length v" and "to < 2 ^ 32"
  shows "to - p < fuel \<Longrightarrow> \<exists>new. take_runs fuel v p to rem runs = (rem - length (free_list v p to), runs @ new) \<and>
    run_blocks_of new = take rem (free_list v p to) \<and> runs_ok new"
proof (induction fuel arbitrary: p rem runs)
  case (Suc fuel)
  show ?case
  proof (cases "next_free v p to")
    case None
    then show ?thesis using next_free_None [OF assms None] by simp
  next
    case (Some s)
    note s = next_free_Some [OF assms Some]
    note e = free_end_spec [OF assms s(2,3)]
    define n where "n = min (free_end v s to - s) rem"
    have ne: "s + n \<le> free_end v s to" using e(1) by (simp add: n_def)
    have split: "free_list v p to = [s..<s + n] @ free_list v (s + n) to"
    proof (rule free_list_run [OF s(1) _ s(4)])
      show "s + n \<le> to" using ne e(2) by simp
      show "\<not> bits_get v k" if "s \<le> k" "k < s + n" for k using e(3) [OF that(1)] that(2) ne by simp
    qed
    show ?thesis
    proof (cases "0 < rem")
      case True
      have n: "0 < n" "n \<le> rem" "s + n \<le> to" using True e(1) ne e(2) by (simp_all add: n_def)
      then have "to - (s + n) < fuel" using Suc.prems s(1,2) by linarith
      then obtain new where new: "take_runs fuel v (s + n) to (rem - n) (runs @ [(s, n)]) =
          (rem - n - length (free_list v (s + n) to), (runs @ [(s, n)]) @ new)"
        "run_blocks_of new = take (rem - n) (free_list v (s + n) to)" "runs_ok new"
        using Suc.IH by blast
      have "take_runs (Suc fuel) v p to rem runs = take_runs fuel v (s + n) to (rem - n) (runs @ [(s, n)])"
        using True Some by (simp add: Let_def free_end_def [symmetric] n_def)
      moreover have "rem - n - length (free_list v (s + n) to) = rem - length (free_list v p to)"
        "take rem (free_list v p to) = [s..<s + n] @ take (rem - n) (free_list v (s + n) to)"
        using n(2) by (simp_all add: split)
      moreover have "s + n < 2 ^ 32" using n(3) assms(2) by simp
      ultimately show ?thesis using new n(1) by (intro exI [of _ "(s, n) # new"]) simp
    qed simp
  qed
qed simp

lemma free_list_full: "length (free_list v 0 n) = card (free_set v n)"
proof -
  have "distinct (free_list v 0 n)" "set (free_list v 0 n) = free_set v n" by (auto simp: free_list_def)
  then show ?thesis using distinct_card by metis
qed

subsection \<open>Marking runs\<close>

lemma mark_range_ok:
  assumes "data_start (f_geo fs) \<le> s" and "s + l \<le> backup_sb (f_geo fs)" and "s + l < 2 ^ 32" and "0 < l"
    and "\<And>b. s \<le> b \<Longrightarrow> b < s + l \<Longrightarrow> bits_get (f_bbits fs) b \<noteq> used"
  shows "\<exists>fs'. mark_range s l used fs = (Inr (), fs')"
  using assms by (auto simp: mark_range_def checked_add_def list_ex_iff Let_def)

definition others_same :: "'d fs3 \<Rightarrow> 'd fs3 \<Rightarrow> bool" where
  "others_same fs fs' \<longleftrightarrow> f_geo fs' = f_geo fs \<and> f_cache fs' = f_cache fs \<and> f_ibits fs' = f_ibits fs \<and> f_sb fs' = f_sb fs \<and>
     f_poisoned fs' = f_poisoned fs \<and> tx_meta (f_tx fs') = tx_meta (f_tx fs) \<and> tx_data (f_tx fs') = tx_data (f_tx fs) \<and>
     tx_to_free (f_tx fs') = tx_to_free (f_tx fs) \<and> length (f_bbits fs') = length (f_bbits fs)"

lemma others_same_refl [simp]: "others_same fs fs"
  by (simp add: others_same_def)

lemma others_same_trans: "others_same a b \<Longrightarrow> others_same b c \<Longrightarrow> others_same a c"
  by (simp add: others_same_def)

lemma mark_range_effect:
  assumes "mark_range s l used fs = (Inr u, fs')" and "backup_sb (f_geo fs) \<le> 64 * length (f_bbits fs)"
  shows "others_same fs fs'" and "bits_get (f_bbits fs') b = (if s \<le> b \<and> b < s + l then used else bits_get (f_bbits fs) b)"
    and "0 < l \<Longrightarrow> data_start (f_geo fs) \<le> s \<and> s + l \<le> backup_sb (f_geo fs) \<and> s + l < 2 ^ 32"
    and "s \<le> b \<Longrightarrow> b < s + l \<Longrightarrow> bits_get (f_bbits fs) b \<noteq> used"
proof -
  have "others_same fs fs' \<and> bits_get (f_bbits fs') b = (if s \<le> b \<and> b < s + l then used else bits_get (f_bbits fs) b) \<and>
    (0 < l \<longrightarrow> data_start (f_geo fs) \<le> s \<and> s + l \<le> backup_sb (f_geo fs) \<and> s + l < 2 ^ 32) \<and>
    (s \<le> b \<and> b < s + l \<longrightarrow> bits_get (f_bbits fs) b \<noteq> used)"
    using assms(1)
  proof (cases rule: mark_range_cases)
    case (marked t)
    have "bits_get (fold (mark used) [s..<s + l] (f_bbits fs)) b = (if s \<le> b \<and> b < s + l then used else bits_get (f_bbits fs) b)"
      using marked(4) assms(2) by (subst bits_get_mark_fold) auto
    then show ?thesis using marked by (auto simp: others_same_def)
  qed auto
  then show "others_same fs fs'" and "bits_get (f_bbits fs') b = (if s \<le> b \<and> b < s + l then used else bits_get (f_bbits fs) b)"
    and "0 < l \<Longrightarrow> data_start (f_geo fs) \<le> s \<and> s + l \<le> backup_sb (f_geo fs) \<and> s + l < 2 ^ 32"
    and "s \<le> b \<Longrightarrow> b < s + l \<Longrightarrow> bits_get (f_bbits fs) b \<noteq> used" by blast+
qed

lemma mark_runs_spec:
  assumes "runs_ok rs" and "distinct (run_blocks_of rs)" and "backup_sb (f_geo fs) \<le> 64 * length (f_bbits fs)"
    and "\<And>b. b \<in> runs_in rs \<Longrightarrow> data_start (f_geo fs) \<le> b \<and> b < backup_sb (f_geo fs) \<and> \<not> bits_get (f_bbits fs) b"
  shows "\<exists>fs'. mark_runs rs True fs = (Inr (), fs') \<and> others_same fs fs' \<and>
    (\<forall>b. bits_get (f_bbits fs') b \<longleftrightarrow> bits_get (f_bbits fs) b \<or> b \<in> runs_in rs)"
  using assms
proof (induction rs arbitrary: fs)
  case (Cons r rs)
  obtain s l where r: "r = (s, l)" by (cases r)
  have l: "0 < l" "s + l < 2 ^ 32" "runs_ok rs" using Cons.prems(1) by (auto simp: r)
  have in_r: "data_start (f_geo fs) \<le> b \<and> b < backup_sb (f_geo fs) \<and> \<not> bits_get (f_bbits fs) b" if "s \<le> b" "b < s + l" for b
    using Cons.prems(4) [of b] that by (auto simp: r)
  have "s + l - 1 < backup_sb (f_geo fs)" using in_r [of "s + l - 1"] l(1) by simp
  then have "data_start (f_geo fs) \<le> s" "s + l \<le> backup_sb (f_geo fs)" using in_r [of s] l(1) by simp_all
  then obtain fs1 where m: "mark_range s l True fs = (Inr (), fs1)"
    using mark_range_ok [of fs s l True] in_r l(1,2) by blast
  note e = mark_range_effect [OF m Cons.prems(3)]
  have dis: "b \<notin> {s..<s + l}" if "b \<in> runs_in rs" for b
    using Cons.prems(2) that by (auto simp: r set_run_blocks)
  have "\<exists>fs'. mark_runs rs True fs1 = (Inr (), fs') \<and> others_same fs1 fs' \<and>
    (\<forall>b. bits_get (f_bbits fs') b \<longleftrightarrow> bits_get (f_bbits fs1) b \<or> b \<in> runs_in rs)"
  proof (rule Cons.IH [OF l(3)])
    show "distinct (run_blocks_of rs)" using Cons.prems(2) by (simp add: r)
    show "backup_sb (f_geo fs1) \<le> 64 * length (f_bbits fs1)" using e(1) Cons.prems(3) by (simp add: others_same_def)
    show "data_start (f_geo fs1) \<le> b \<and> b < backup_sb (f_geo fs1) \<and> \<not> bits_get (f_bbits fs1) b" if "b \<in> runs_in rs" for b
      using Cons.prems(4) [of b] e(1) dis [OF that] that by (auto simp: e(2) others_same_def r)
  qed
  then show ?case using m e(1,2) by (auto simp: r intro: others_same_trans)
qed simp

subsection \<open>Allocation\<close>

lemma mark_runs_single: "mark_runs [(s, l)] used fs = mark_range s l used fs"
  by (simp add: bindr_def split: prod.splits sum.splits)

lemma free_list_split: "a \<le> m \<Longrightarrow> m \<le> b \<Longrightarrow> free_list v a b = free_list v a m @ free_list v m b"
  using upt_add_eq_append [of a m "b - m"] by (simp add: free_list_def)

lemma set_free_list: "set (free_list v a b) = {i. a \<le> i \<and> i < b \<and> \<not> bits_get v i}"
  by (auto simp: free_list_def)

lemma distinct_free_list [simp]: "distinct (free_list v a b)"
  by (simp add: free_list_def)

lemma alloc_ok_bounds:
  assumes "alloc_ok fs"
  shows "data_start (f_geo fs) < backup_sb (f_geo fs)" and "backup_sb (f_geo fs) < 2 ^ 32"
    and "backup_sb (f_geo fs) \<le> 64 * length (f_bbits fs)"
  using assms div_ceil_bounds(1) [of 64 "total_blocks (f_geo fs)"]
  by (auto simp: alloc_ok_def geo_ok_def Let_def backup_sb_def)

text \<open>Every free block is in the data region, so the counter is the number of free blocks there.\<close>

lemma alloc_ok_free:
  assumes "alloc_ok fs"
  shows "f_free_blocks fs = length (free_list (f_bbits fs) (data_start (f_geo fs)) (backup_sb (f_geo fs)))"
proof -
  let ?L = "free_list (f_bbits fs) (data_start (f_geo fs)) (backup_sb (f_geo fs))"
  have t: "total_blocks (f_geo fs) = Suc (backup_sb (f_geo fs))"
    using assms by (auto simp: alloc_ok_def geo_ok_def Let_def backup_sb_def)
  have "free_set (f_bbits fs) (total_blocks (f_geo fs)) = set ?L"
    using assms unfolding t set_free_list by (auto simp: alloc_ok_def Let_def not_less less_Suc_eq)
  then show ?thesis
    using assms distinct_card [of ?L] by (simp add: alloc_ok_def Let_def)
qed

text \<open>What an allocation of \<open>n\<close> blocks promises.\<close>

definition allocated :: "nat \<Rightarrow> (nat \<times> nat) list \<Rightarrow> 'd fs3 \<Rightarrow> 'd fs3 \<Rightarrow> bool" where
  "allocated n rs fs fs' \<longleftrightarrow>
     distinct (run_blocks_of rs) \<and> length (run_blocks_of rs) = n \<and> runs_ok rs \<and>
     (\<forall>b \<in> set (run_blocks_of rs). is_data_block fs b \<and> \<not> bits_get (f_bbits fs) b) \<and>
     (\<forall>b. bits_get (f_bbits fs') b \<longleftrightarrow> bits_get (f_bbits fs) b \<or> b \<in> set (run_blocks_of rs)) \<and>
     others_same fs fs'"

lemma mark_runs_allocated:
  assumes "alloc_ok fs" and "runs_ok rs" and "distinct (run_blocks_of rs)" and "length (run_blocks_of rs) = n"
    and "\<And>b. b \<in> set (run_blocks_of rs) \<Longrightarrow> is_data_block fs b \<and> \<not> bits_get (f_bbits fs) b"
  shows "\<exists>fs'. mark_runs rs True fs = (Inr (), fs') \<and> allocated n rs fs fs'"
  using mark_runs_spec [OF assms(2,3) alloc_ok_bounds(3) [OF assms(1)]] assms(2-5)
  by (auto simp: set_run_blocks is_data_block_def allocated_def)

lemma allocated_hint [simp]: "allocated n rs fs (fs'\<lparr>f_alloc_hint := h\<rparr>) = allocated n rs fs fs'"
  by (simp add: allocated_def others_same_def)

lemma alloc_found:
  assumes "alloc_ok fs" and "find_run (f_bbits fs) p (backup_sb (f_geo fs)) n = Some s" and "0 < n" and "data_start (f_geo fs) \<le> p"
  shows "\<exists>fs'. mark_range s n True fs = (Inr (), fs') \<and> allocated n [(s, n)] fs fs'"
proof -
  note b = alloc_ok_bounds [OF assms(1)]
  have r: "p \<le> s" "free_run (f_bbits fs) (backup_sb (f_geo fs)) n s"
    using find_run_spec(1) [OF b(3,2) assms(3,2)] by simp_all
  have "\<exists>fs'. mark_runs [(s, n)] True fs = (Inr (), fs') \<and> allocated n [(s, n)] fs fs'"
    using r b assms(3,4) by (intro mark_runs_allocated assms(1)) (auto simp: free_run_def is_data_block_def)
  then show ?thesis by (simp only: mark_runs_single)
qed

lemma alloc_scattered:
  assumes "alloc_ok fs" and "n \<le> f_free_blocks fs" and "data_start (f_geo fs) \<le> h" and "h < backup_sb (f_geo fs)"
  shows "\<exists>rem1 runs1 rs fs'.
    take_runs (Suc (backup_sb (f_geo fs) - h)) (f_bbits fs) h (backup_sb (f_geo fs)) n [] = (rem1, runs1) \<and>
    take_runs (Suc (h - data_start (f_geo fs))) (f_bbits fs) (data_start (f_geo fs)) h rem1 runs1 = (0, rs) \<and>
    mark_runs rs True fs = (Inr (), fs') \<and> allocated n rs fs fs'"
proof -
  let ?lo = "data_start (f_geo fs)" and ?hi = "backup_sb (f_geo fs)" and ?v = "f_bbits fs"
  let ?L1 = "free_list ?v h ?hi" and ?L2 = "free_list ?v ?lo h"
  note b = alloc_ok_bounds [OF assms(1)]
  have h: "h \<le> 64 * length ?v" "h < 2 ^ 32" using b assms(4) by simp_all
  obtain new1 where t1: "take_runs (Suc (?hi - h)) ?v h ?hi n [] = (n - length ?L1, new1)"
    "run_blocks_of new1 = take n ?L1" "runs_ok new1"
    using take_runs_spec [OF b(3,2), of h "Suc (?hi - h)" n "[]"] by auto
  obtain new2 where t2: "take_runs (Suc (h - ?lo)) ?v ?lo h (n - length ?L1) new1 = (n - length ?L1 - length ?L2, new1 @ new2)"
    "run_blocks_of new2 = take (n - length ?L1) ?L2" "runs_ok new2"
    using take_runs_spec [OF h, of ?lo "Suc (h - ?lo)" "n - length ?L1" new1] by auto
  have all: "run_blocks_of (new1 @ new2) = take n (?L1 @ ?L2)" by (simp add: t1(2) t2(2))
  have enough: "n \<le> length ?L1 + length ?L2"
    using assms(2-4) alloc_ok_free [OF assms(1)] free_list_split [of ?lo h ?hi ?v] by simp
  have "\<exists>fs'. mark_runs (new1 @ new2) True fs = (Inr (), fs') \<and> allocated n (new1 @ new2) fs fs'"
  proof (rule mark_runs_allocated [OF assms(1)])
    show "runs_ok (new1 @ new2)" using t1(3) t2(3) by (simp add: runs_ok_def)
    have "distinct (?L1 @ ?L2)" by (auto simp: set_free_list)
    then show "distinct (run_blocks_of (new1 @ new2))" unfolding all by (rule distinct_take)
    show "length (run_blocks_of (new1 @ new2)) = n" unfolding all using enough by simp
    show "is_data_block fs b \<and> \<not> bits_get ?v b" if "b \<in> set (run_blocks_of (new1 @ new2))" for b
      using that [unfolded all, THEN in_set_takeD] assms(3,4) by (auto simp: set_free_list is_data_block_def)
  qed
  then show ?thesis using t1(1) t2(1) enough by auto
qed

lemma alloc_blocks_cases:
  assumes "alloc_ok fs"
  shows "(f_free_blocks fs < n \<and> alloc_blocks n h fs = (Inl NoSpace, fs)) \<or>
    (n \<le> f_free_blocks fs \<and> (\<exists>rs fs'. alloc_blocks n h fs = (Inr rs, fs') \<and> allocated n rs fs fs'))"
proof -
  let ?lo = "data_start (f_geo fs)" and ?hi = "backup_sb (f_geo fs)" and ?v = "f_bbits fs"
  define h' where "h' = (if h < ?lo \<or> ?hi \<le> h then ?lo else h)"
  have h': "?lo \<le> h'" "h' < ?hi" using alloc_ok_bounds(1) [OF assms] by (auto simp: h'_def)
  define st where "st = (case find_run ?v h' ?hi n of Some s \<Rightarrow> Some s | None \<Rightarrow> find_run ?v ?lo ?hi n)"
  consider "n = 0" | "0 < n" "f_free_blocks fs < n" | "0 < n" "n \<le> f_free_blocks fs" by linarith
  then show ?thesis
  proof cases
    case 1
    then show ?thesis by (auto simp: alloc_blocks_def allocated_def)
  next
    case 3
    have d: "alloc_blocks n h fs = (case st of
        Some s \<Rightarrow> bindr (mark_range s n True fs) (\<lambda>_ fs. (Inr [(s, n)], fs\<lparr>f_alloc_hint := u32_add s n\<rparr>))
      | None \<Rightarrow> let (rem1, runs1) = take_runs (Suc (?hi - h')) ?v h' ?hi n [];
                  (rem2, runs2) = take_runs (Suc (h' - ?lo)) ?v ?lo h' rem1 runs1
              in if 0 < rem2 then (Inl NoSpace, fs)
                 else bindr (mark_runs runs2 True fs) (\<lambda>_ fs.
                   (Inr runs2, if runs2 = [] then fs
                     else fs\<lparr>f_alloc_hint := u32_add (fst (last runs2)) (snd (last runs2))\<rparr>)))"
      using 3 unfolding alloc_blocks_def Let_def h'_def [symmetric] st_def [symmetric] by simp
    show ?thesis
    proof (cases st)
      case None
      then show ?thesis
        using alloc_scattered [OF assms 3(2) h'] 3(2) by (auto simp: d simp del: take_runs.simps)
    next
      case (Some s)
      then obtain p where p: "?lo \<le> p" "find_run ?v p ?hi n = Some s"
        using h'(1) by (auto simp: st_def split: option.splits)
      then show ?thesis using alloc_found [OF assms p(2) 3(1) p(1)] 3(2) Some by (auto simp: d)
    qed
  qed (simp add: alloc_blocks_def)
qed

lemma alloc_blocks_ok:
  assumes "alloc_ok fs" and "alloc_blocks n h fs = (r, fs')"
  shows "alloc_ok fs'"
proof -
  let ?fs0 = "fs\<lparr>f_bbits := fold undo_range (rev (tx_blog (f_tx fs))) (f_bbits fs),
    f_ibits := fold undo_bit (rev (tx_ilog (f_tx fs))) (f_ibits fs), f_free_blocks := tx_free_blocks0 (f_tx fs),
    f_free_inodes := tx_free_inodes0 (f_tx fs), f_alloc_hint := tx_hint0 (f_tx fs)\<rparr>"
  have "tx_inv ?fs0 fs" using assms(1) by (simp add: tx_inv_def undone_def)
  from tx_inv_alloc [OF this, of n h] show ?thesis using assms(2) by (simp add: ends_def tx_inv_def)
qed

subsection \<open>Properties\<close>

text \<open>
  C11: On a volume whose counters are right, \<open>alloc_blocks\<close> fails exactly when fewer blocks are free
  than asked for, and then changes nothing; otherwise it hands out runs that hold exactly as many
  distinct blocks as asked for, every one free before and inside the data region, marks exactly
  those, changes no other part of the volume, and leaves the counters right.
\<close>

theorem alloc_blocks_exact:
  assumes "alloc_ok fs"
  shows "case alloc_blocks n h fs of
      (Inl e, fs') \<Rightarrow> e = NoSpace \<and> f_free_blocks fs < n \<and> fs' = fs
    | (Inr rs, fs') \<Rightarrow> allocated n rs fs fs' \<and> alloc_ok fs' \<and> f_free_blocks fs' + n = f_free_blocks fs"
proof -
  have "f_free_blocks fs' + n = f_free_blocks fs" if a: "allocated n rs fs fs'" and ok: "alloc_ok fs'" for rs fs'
  proof -
    let ?L = "\<lambda>fs. free_list (f_bbits fs) (data_start (f_geo fs)) (backup_sb (f_geo fs))"
    let ?R = "set (run_blocks_of rs)"
    have "set (?L fs') \<inter> ?R = {}" "set (?L fs') \<union> ?R = set (?L fs)"
      using a by (auto simp: allocated_def others_same_def set_free_list is_data_block_def)
    then have "card (set (?L fs)) = card (set (?L fs')) + card ?R"
      using card_Un_disjoint [of "set (?L fs')" ?R] by simp
    then show ?thesis
      using a alloc_ok_free [OF assms] alloc_ok_free [OF ok]
      by (simp add: distinct_card allocated_def)
  qed
  then show ?thesis
    using alloc_blocks_cases [OF assms, of n h] alloc_blocks_ok [OF assms, of n h] by auto
qed

theorem alloc_blocks_exact_witness:
  "case alloc_blocks 2 9 (small_fs (cache_of [] 1)) of
      (Inl e, fs') \<Rightarrow> e = NoSpace \<and> f_free_blocks (small_fs (cache_of [] 1)) < 2 \<and> fs' = small_fs (cache_of [] 1)
    | (Inr rs, fs') \<Rightarrow> allocated 2 rs (small_fs (cache_of [] 1)) fs' \<and> alloc_ok fs' \<and>
        f_free_blocks fs' + 2 = f_free_blocks (small_fs (cache_of [] 1))"
  by (rule alloc_blocks_exact) (rule small_fs_ok [unfolded fs_ok_def, THEN conjunct1])

end
