(* ===== verification/Volume.thy ===== *)
theory Volume
  imports Alloc
begin

text \<open>
  The blocks of a volume as the operations see them: the overlay of the transaction in progress
  over what the cache presents.  On a device that works, reading an inode, an extent list or the
  bytes of a file returns what those blocks say and changes nothing but the cache.
\<close>

subsection \<open>Reading steps\<close>

definition lview :: "(nat \<Rightarrow> bytes) \<Rightarrow> 'd fs3 \<Rightarrow> nat \<Rightarrow> bytes" where
  "lview v fs b = (case bt_get (tx_meta (f_tx fs)) b of Some x \<Rightarrow> x | None \<Rightarrow> v b)"

definition vol :: "'d blockdevice \<Rightarrow> ('d \<Rightarrow> (nat \<Rightarrow> bytes) \<Rightarrow> bool) \<Rightarrow> (nat \<Rightarrow> bytes) \<Rightarrow> 'd fs3 \<Rightarrow> bool" where
  "vol dev holds v fs \<longleftrightarrow> cache_is dev holds (f_cache fs) v \<and> geo_ok (f_geo fs) \<and>
     total_blocks (f_geo fs) \<le> nblocks (f_cache fs) \<and> nblocks (f_cache fs) < 2 ^ 64"

text \<open>\<open>yields \<dots> fs r x\<close>: the step ends with \<open>x\<close> and has only worked on the cache.\<close>

definition yields :: "'d blockdevice \<Rightarrow> ('d \<Rightarrow> (nat \<Rightarrow> bytes) \<Rightarrow> bool) \<Rightarrow> (nat \<Rightarrow> bytes) \<Rightarrow> 'd fs3 \<Rightarrow>
    ('d fs3, fs_error, 'a) res \<Rightarrow> fs_error + 'a \<Rightarrow> bool" where
  "yields dev holds v fs r x \<longleftrightarrow>
     (\<exists>c. r = (x, fs\<lparr>f_cache := c\<rparr>) \<and> cache_is dev holds c v \<and> nblocks c = nblocks (f_cache fs))"

lemma lview_cache [simp]: "lview v (fs\<lparr>f_cache := c\<rparr>) = lview v fs"
  by (simp add: lview_def fun_eq_iff)

lemma vol_cache: "vol dev holds v fs \<Longrightarrow> cache_is dev holds c v' \<Longrightarrow> nblocks c = nblocks (f_cache fs) \<Longrightarrow>
    vol dev holds v' (fs\<lparr>f_cache := c\<rparr>)"
  by (simp add: vol_def)

lemma vol_overlay [simp]: "vol dev holds v (fs\<lparr>f_tx := t\<rparr>) = vol dev holds v fs"
  by (simp add: vol_def)

lemma yields_pure: "vol dev holds v fs \<Longrightarrow> yields dev holds v fs (x, fs) x"
  by (auto simp: yields_def vol_def intro: exI [of _ "f_cache fs"])

lemma yields_bindr:
  assumes "yields dev holds v fs r (Inr x)" and "vol dev holds v fs"
    and "\<And>c. vol dev holds v (fs\<lparr>f_cache := c\<rparr>) \<Longrightarrow> yields dev holds v (fs\<lparr>f_cache := c\<rparr>) (k x (fs\<lparr>f_cache := c\<rparr>)) y"
  shows "yields dev holds v fs (bindr r k) y"
proof -
  obtain c where c: "r = (Inr x, fs\<lparr>f_cache := c\<rparr>)" "cache_is dev holds c v" "nblocks c = nblocks (f_cache fs)"
    using assms(1) by (auto simp: yields_def)
  then have "yields dev holds v (fs\<lparr>f_cache := c\<rparr>) (k x (fs\<lparr>f_cache := c\<rparr>)) y"
    using assms(2) by (intro assms(3) vol_cache)
  then show ?thesis using c by (auto simp: yields_def)
qed

lemma yields_bindr_Inl:
  "yields dev holds v fs r (Inl e) \<Longrightarrow> yields dev holds v fs (bindr r k) (Inl e)"
  by (auto simp: yields_def)

lemma yieldsE:
  assumes "yields dev holds v fs r x" and "vol dev holds v fs"
  obtains c where "r = (x, fs\<lparr>f_cache := c\<rparr>)" and "vol dev holds v (fs\<lparr>f_cache := c\<rparr>)"
proof -
  obtain c where c: "r = (x, fs\<lparr>f_cache := c\<rparr>)" "cache_is dev holds c v" "nblocks c = nblocks (f_cache fs)"
    using assms(1) by (auto simp: yields_def)
  from that [OF c(1) vol_cache [OF assms(2) c(2,3)]] show thesis .
qed

lemma set_tag_is:
  assumes "cache_is dev holds c v"
  shows "cache_is dev holds (bc_set_tag b t c) v" and "nblocks (bc_set_tag b t c) = nblocks c"
proof -
  obtain m xs where inv: "cinv dev holds c m xs {}" and v: "view m c = v" using assms by (auto simp: cache_is_def)
  show "nblocks (bc_set_tag b t c) = nblocks c" by (simp add: bc_set_tag_def split: option.splits)
  show "cache_is dev holds (bc_set_tag b t c) v"
  proof (cases "bt_get (bc_map c) b")
    case None
    then show ?thesis using assms by (simp add: bc_set_tag_def)
  next
    case (Some i)
    have body: "cbody dev holds c m (set xs) {}" using inv by (simp add: cinv_def)
    have i: "i \<in> set xs" "s_blk (slots c ! i) = b" "i < length (slots c)"
      using cbody_map [OF body, of b i] Some cbody_slot [OF body] by auto
    let ?s = "slots c ! i"
    have eq: "bc_set_tag b t c = upd_slot i (\<lambda>s. s\<lparr>s_data := s_data ?s, s_dirty := s_dirty ?s, s_tag := t\<rparr>) c"
      using Some by (simp add: bc_set_tag_def upd_slot_def)
    have "length (s_data ?s) = BLOCK_SIZE" "s_dirty ?s \<or> s_data ?s = devblk m c b"
      using body i by (auto simp: cbody_def)
    note u = cinv_update [OF inv Some this eq]
    have "view m (bc_set_tag b t c) = view m c" unfolding u(2) using Some by (auto simp: view_def fun_eq_iff)
    then show ?thesis using u(1) v by (auto simp: cache_is_def)
  qed
qed

lemma geo_ok_sizes:
  assumes "geo_ok g"
  shows "backup_sb g < total_blocks g" and "data_start g < backup_sb g" and "itable_start g + itable_blocks g = data_start g"
    and "total_blocks g < 2 ^ 32" and "inode_count g < 2 ^ 32" and "ibitmap_start g + ibitmap_blocks g = itable_start g"
    and "bbitmap_start g + bbitmap_blocks g = ibitmap_start g" and "2 \<le> bbitmap_start g"
  using assms by (auto simp: geo_ok_def backup_sb_def)

context reliable_device
begin

lemma gets_io:
  assumes "vol dev holds v fs" and "b < total_blocks (f_geo fs)"
  shows "yields dev holds v fs (lift_io (bc_get dev b (f_cache fs)) fs) (Inr (v b))"
    and "yields dev holds v fs (lift_io (bc_read dev b (f_cache fs)) fs) (Inr (v b))"
proof -
  have ci: "cache_is dev holds (f_cache fs) v" and b: "b < nblocks (f_cache fs)" "nblocks (f_cache fs) < 2 ^ 64"
    using assms by (auto simp: vol_def)
  obtain c where c: "bc_read dev b (f_cache fs) = (Inr (v b), c)" using bc_read_ok [OF ci b] by blast
  have "cache_is dev holds c v \<and> nblocks c = nblocks (f_cache fs)"
    using bc_read_step(1) [OF ci c] by (auto dest: cstep_is cstep_geo)
  then show "yields dev holds v fs (lift_io (bc_read dev b (f_cache fs)) fs) (Inr (v b))"
    using c by (auto simp: lift_io_def yields_def)
  then show "yields dev holds v fs (lift_io (bc_get dev b (f_cache fs)) fs) (Inr (v b))"
    by (simp add: bc_get_def bc_read_def)
qed

lemma gets_tagged:
  assumes "vol dev holds v fs" and "b < total_blocks (f_geo fs)"
  shows "\<exists>t. yields dev holds v fs (lift_io (bc_get_tagged dev b (f_cache fs)) fs) (Inr (v b, t))"
proof -
  have ci: "cache_is dev holds (f_cache fs) v" and b: "b < nblocks (f_cache fs)" "nblocks (f_cache fs) < 2 ^ 64"
    using assms by (auto simp: vol_def)
  obtain i c where "load dev b (f_cache fs) = (Inr i, c)" using load_ok [OF ci b] by blast
  then have g: "bc_get_tagged dev b (f_cache fs) = (Inr (s_data (slots c ! i), s_tag (slots c ! i)), c)"
    by (simp add: bc_get_tagged_def)
  have "cache_is dev holds c v \<and> nblocks c = nblocks (f_cache fs)"
    using bc_get_tagged_step(1) [OF ci g] by (auto dest: cstep_is cstep_geo)
  then show ?thesis
    using g bc_get_tagged_step(2) [OF ci g refl] by (auto simp: lift_io_def yields_def)
qed

lemma gets_many:
  assumes "vol dev holds v fs" and "b + n \<le> total_blocks (f_geo fs)"
  shows "yields dev holds v fs (lift_io (read_many dev b (n * BLOCK_SIZE) (f_cache fs)) fs) (Inr (concat (map v [b..<b + n])))"
proof -
  have ci: "cache_is dev holds (f_cache fs) v" and b: "b + n \<le> nblocks (f_cache fs)" "nblocks (f_cache fs) < 2 ^ 64"
    using assms by (auto simp: vol_def)
  obtain c where c: "read_many dev b (n * BLOCK_SIZE) (f_cache fs) = (Inr (concat (map v [b..<b + n])), c)"
    using read_many_ok [OF ci b] by blast
  have "cache_is dev holds c v \<and> nblocks c = nblocks (f_cache fs)"
    using read_many_step(1) [OF ci c] by (auto dest: cstep_is cstep_geo)
  then show ?thesis using c by (auto simp: lift_io_def yields_def)
qed

lemma gets_meta:
  assumes "vol dev holds v fs" and "b < total_blocks (f_geo fs)"
  shows "yields dev holds v fs (meta_get dev b fs) (Inr (lview v fs b))"
  using gets_io(1) [OF assms] yields_pure [OF assms(1)]
  by (auto simp: meta_get_def lview_def split: option.splits)

lemma gets_typed:
  assumes "vol dev holds v fs" and "is_data_block fs b" and "verify_typed (lview v fs b) ext owner = Inr ()"
  shows "yields dev holds v fs (typed_block dev b ext owner fs) (Inr (lview v fs b))"
proof (cases "bt_get (tx_meta (f_tx fs)) b")
  case None
  have b: "b < total_blocks (f_geo fs)"
    using assms(1,2) geo_ok_sizes(1) [of "f_geo fs"] by (auto simp: vol_def is_data_block_def)
  have lv: "lview v fs b = v b" using None by (simp add: lview_def)
  obtain t where t: "yields dev holds v fs (lift_io (bc_get_tagged dev b (f_cache fs)) fs) (Inr (v b, t))"
    using gets_tagged [OF assms(1) b] by blast
  define want :: nat where "want = (if ext then 2 else 1)"
  have step: "yields dev holds v (fs\<lparr>f_cache := c\<rparr>)
      (bindr (if t = want then (Inr False, fs\<lparr>f_cache := c\<rparr>)
              else case verify_typed (v b) ext owner of Inl e \<Rightarrow> (Inl e, fs\<lparr>f_cache := c\<rparr>) | Inr _ \<Rightarrow> (Inr True, fs\<lparr>f_cache := c\<rparr>))
        (\<lambda>verified fs. let fs = (if verified then fs\<lparr>f_cache := bc_set_tag b want (f_cache fs)\<rparr> else fs)
                in lift_io (bc_get dev b (f_cache fs)) fs)) (Inr (v b))"
    if c: "vol dev holds v (fs\<lparr>f_cache := c\<rparr>)" for c
  proof -
    have "cache_is dev holds c v" using c by (simp add: vol_def)
    note s = set_tag_is [OF this, of b want]
    have v2: "vol dev holds v (fs\<lparr>f_cache := bc_set_tag b want c\<rparr>)"
      using vol_cache [OF c s(1)] s(2) by simp
    show ?thesis
      using gets_io(1) [OF c, of b] gets_io(1) [OF v2, of b] b assms(3) s(2)
      by (auto simp: lv yields_def)
  qed
  show ?thesis
    unfolding typed_block_def lv if_not_P [OF not_not [THEN iffD2, OF assms(2)]] None option.case want_def [symmetric] Let_def [of want]
    by (rule yields_bindr [OF t assms(1)]) (use step in \<open>simp only: prod.case\<close>)
next
  case (Some x)
  then show ?thesis using assms(1,2) by (simp add: typed_block_def lview_def yields_pure)
qed

end

subsection \<open>What the blocks say\<close>

definition inode_blk :: "geometry \<Rightarrow> nat \<Rightarrow> nat" where
  "inode_blk g ino = itable_start g + (ino - 1) div INODES_PER_BLOCK"

definition inode_off :: "nat \<Rightarrow> nat" where
  "inode_off ino = (ino - 1) mod INODES_PER_BLOCK * INODE_SIZE"

definition inode_in :: "geometry \<Rightarrow> (nat \<Rightarrow> bytes) \<Rightarrow> nat \<Rightarrow> inode option" where
  "inode_in g V ino = inode_decode (get_slice (inode_off ino) INODE_SIZE (V (inode_blk g ino)))"

text \<open>The blocks \<open>bs\<close>, linked from \<open>cur\<close> on, hold the extents \<open>rest\<close>.\<close>

fun chain_in :: "geometry \<Rightarrow> (nat \<Rightarrow> bytes) \<Rightarrow> nat \<Rightarrow> nat list \<Rightarrow> extent list \<Rightarrow> nat \<Rightarrow> bool" where
  "chain_in g V ino [] rest cur \<longleftrightarrow> rest = [] \<and> cur = 0"
| "chain_in g V ino (b # bs) rest cur \<longleftrightarrow>
     cur = b \<and> data_start g \<le> b \<and> b < backup_sb g \<and> verify_typed (V b) True ino = Inr () \<and>
     (let cnt = rd32 (V b) 12 in
      0 < cnt \<and> cnt \<le> EXTENTS_PER_BLOCK \<and> cnt \<le> length rest \<and>
      map (\<lambda>k. extent_decode (V b) (24 + k * EXTENT_SIZE)) [0..<cnt] = take cnt rest \<and>
      chain_in g V ino bs (drop cnt rest) (rd32 (V b) 8))"

definition exts_in :: "geometry \<Rightarrow> (nat \<Rightarrow> bytes) \<Rightarrow> nat \<Rightarrow> inode \<Rightarrow> extent list \<Rightarrow> nat list \<Rightarrow> bool" where
  "exts_in g V ino node exts chain \<longleftrightarrow>
     length exts = i_nextents node \<and> length exts \<le> total_blocks g \<and>
     take (length exts) (i_inline node) = take INLINE_EXTENTS exts \<and> length (i_inline node) = INLINE_EXTENTS \<and>
     valid_extents g 0 exts \<and> chain_in g V ino chain (drop INLINE_EXTENTS exts) (i_ext_chain node) \<and>
     length chain \<le> total_blocks g div EXTENTS_PER_BLOCK + 2"

lemma chain_in_cong: "(\<And>b. b \<in> set bs \<Longrightarrow> V' b = V b) \<Longrightarrow> chain_in g V' ino bs rest cur = chain_in g V ino bs rest cur"
  by (induction bs arbitrary: rest cur) (simp_all add: Let_def)

lemma chain_in_range: "chain_in g V ino bs rest cur \<Longrightarrow> b \<in> set bs \<Longrightarrow> data_start g \<le> b \<and> b < backup_sb g"
  by (induction bs arbitrary: rest cur) (auto simp: Let_def)

lemma chain_in_length: "chain_in g V ino bs rest cur \<Longrightarrow> length bs \<le> length rest"
  by (induction bs arbitrary: rest cur) (auto simp: Let_def Suc_le_eq, fastforce)

lemma inode_loc_eq:
  assumes "geo_ok (f_geo fs)" and "0 < ino" and "ino \<le> inode_count (f_geo fs)"
  shows "inode_loc ino fs = Inr (inode_blk (f_geo fs) ino, inode_off ino)"
    and "itable_start (f_geo fs) \<le> inode_blk (f_geo fs) ino" and "inode_blk (f_geo fs) ino < data_start (f_geo fs)"
proof -
  let ?g = "f_geo fs"
  have "ino - 1 < itable_blocks ?g * INODES_PER_BLOCK" using assms by (simp add: geo_ok_def)
  then have "(ino - 1) div INODES_PER_BLOCK < itable_blocks ?g" by (simp add: less_mult_imp_div_less)
  then show lt: "inode_blk ?g ino < data_start ?g"
    using geo_ok_sizes(3) [OF assms(1)] by (simp add: inode_blk_def)
  show "itable_start ?g \<le> inode_blk ?g ino" by (simp add: inode_blk_def)
  have "inode_blk ?g ino < 2 ^ 32" using lt geo_ok_sizes(1,2,4) [OF assms(1)] by linarith
  then show "inode_loc ino fs = Inr (inode_blk ?g ino, inode_off ino)"
    using assms(2,3) by (simp add: inode_loc_def inode_blk_def inode_off_def Let_def)
qed

lemma valid_extents_iff:
  "valid_extents g p exts \<longleftrightarrow> (\<forall>e \<in> set exts. 0 < elen e \<and> p \<le> lblk e \<and> lend e \<le> u32_max \<and> data_start g \<le> pblk e \<and> pend e \<le> backup_sb g) \<and>
    sorted_wrt (\<lambda>a b. lend a \<le> lblk b) exts"
proof (induction exts arbitrary: p)
  case (Cons e es)
  show ?case unfolding valid_extents.simps Cons.IH by (auto simp: lend_def not_less)
qed simp

lemma valid_extents_ok:
  assumes "geo_ok g"
  shows "valid_extents g 0 exts \<longleftrightarrow> exts_ok exts \<and> (\<forall>e \<in> set exts. data_start g \<le> pblk e \<and> pend e \<le> backup_sb g)"
  using geo_ok_sizes(1,4) [OF assms] by (fastforce simp: valid_extents_iff exts_ok_def list_all_iff ext_ok_def)

context reliable_device
begin

lemma gets_inode:
  assumes "vol dev holds v fs" and "0 < ino" and "ino \<le> inode_count (f_geo fs)" and "bits_get (f_ibits fs) (ino - 1)"
    and "inode_in (f_geo fs) (lview v fs) ino = Some node"
  shows "yields dev holds v fs (read_inode dev ino fs) (Inr node)"
proof -
  have g: "geo_ok (f_geo fs)" using assms(1) by (simp add: vol_def)
  note l = inode_loc_eq [OF g assms(2,3)]
  have b: "inode_blk (f_geo fs) ino < total_blocks (f_geo fs)" using l(3) geo_ok_sizes(1,2) [OF g] by linarith
  show ?thesis
    unfolding read_inode_def l(1) using assms(4,5)
    by (auto simp: ok_or_def inode_in_def intro!: yields_bindr [OF gets_meta [OF assms(1) b] assms(1)] yields_pure)
qed

lemma gets_load_chain:
  assumes "vol dev holds v fs" and "chain_in (f_geo fs) (lview v fs) ino bs rest cur" and "length rest \<le> left"
  shows "yields dev holds v fs (load_chain dev ino left (length rest) cur out fs) (Inr (out @ rest, 0))"
  using assms
proof (induction bs arbitrary: rest cur left out fs)
  case Nil
  then show ?case by (cases left) (auto intro: yields_pure)
next
  case (Cons b bs)
  let ?b = "lview v fs b" and ?g = "f_geo fs"
  let ?cnt = "rd32 ?b 12"
  have c: "cur = b" "data_start ?g \<le> b" "b < backup_sb ?g" "verify_typed ?b True ino = Inr ()"
    "0 < ?cnt" "?cnt \<le> EXTENTS_PER_BLOCK" "?cnt \<le> length rest"
    "map (\<lambda>k. extent_decode ?b (24 + k * EXTENT_SIZE)) [0..<?cnt] = take ?cnt rest"
    "chain_in ?g (lview v fs) ino bs (drop ?cnt rest) (rd32 ?b 8)"
    using Cons.prems(2) by (simp_all add: Let_def)
  obtain k where k: "left = Suc k" "length (drop ?cnt rest) \<le> k" using c(5,7) Cons.prems(3) by (cases left) auto
  have "b \<noteq> 0" using c(2) Cons.prems(1) geo_ok_sizes(3,6,7,8) [of ?g] by (auto simp: vol_def)
  have t: "yields dev holds v fs (typed_block dev b True ino fs) (Inr ?b)"
    by (rule gets_typed [OF Cons.prems(1) _ c(4)]) (use c(2,3) in \<open>simp add: is_data_block_def\<close>)
  have "yields dev holds v (fs\<lparr>f_cache := x\<rparr>) (load_chain dev ino k (length rest - ?cnt) (rd32 ?b 8) (out @ take ?cnt rest) (fs\<lparr>f_cache := x\<rparr>))
      (Inr (out @ rest, 0))" if "vol dev holds v (fs\<lparr>f_cache := x\<rparr>)" for x
    using Cons.IH [OF that, of "drop ?cnt rest" "rd32 ?b 8" k "out @ take ?cnt rest"] c(9) k(2) by simp
  then show ?case
    using c(1,5,6,7) \<open>b \<noteq> 0\<close> by (auto simp: k(1) Let_def c(8) intro!: yields_bindr [OF t Cons.prems(1)])
qed

lemma gets_load_extents:
  assumes "vol dev holds v fs" and "exts_in (f_geo fs) (lview v fs) ino node exts chain"
  shows "yields dev holds v fs (load_extents dev ino node fs) (Inr exts)"
proof -
  have e: "length exts = i_nextents node" "length exts \<le> total_blocks (f_geo fs)" "take (length exts) (i_inline node) = take INLINE_EXTENTS exts"
    "length (i_inline node) = INLINE_EXTENTS" "valid_extents (f_geo fs) 0 exts"
    "chain_in (f_geo fs) (lview v fs) ino chain (drop INLINE_EXTENTS exts) (i_ext_chain node)"
    using assms(2) unfolding exts_in_def by blast+
  have inl: "take (min (length exts) INLINE_EXTENTS) (i_inline node) = take INLINE_EXTENTS exts"
    using e(3,4) by (metis min.idem take_all_iff take_take order_refl)
  have "yields dev holds v fs (load_chain dev ino (length exts) (length exts - INLINE_EXTENTS) (i_ext_chain node) (take INLINE_EXTENTS exts) fs)
      (Inr (exts, 0))"
    using gets_load_chain [OF assms(1) e(6), of "length exts" "take INLINE_EXTENTS exts"] by simp
  note load = this [unfolded e(1)]
  show ?thesis
    unfolding load_extents_def Let_def using e(1,2,5) inl by (auto intro!: yields_bindr [OF load assms(1)] yields_pure)
qed

lemma gets_walk_loop:
  assumes "vol dev holds v fs" and "chain_in (f_geo fs) (lview v fs) ino bs rest cur" and "length bs \<le> left"
  shows "yields dev holds v fs (walk_chain_loop dev ino left cur acc fs) (Inr (acc @ bs))"
  using assms
proof (induction bs arbitrary: rest cur left acc fs)
  case Nil
  then show ?case by (cases left) (auto intro: yields_pure)
next
  case (Cons b bs)
  obtain k where k: "left = Suc k" "length bs \<le> k" using Cons.prems(3) by (cases left) auto
  have c: "cur = b" "is_data_block fs b" "verify_typed (lview v fs b) True ino = Inr ()"
    "chain_in (f_geo fs) (lview v fs) ino bs (drop (rd32 (lview v fs b) 12) rest) (rd32 (lview v fs b) 8)"
    using Cons.prems(2) by (simp_all add: Let_def is_data_block_def)
  have "b \<noteq> 0" using c(2) Cons.prems(1) geo_ok_sizes(3,6,7,8) [of "f_geo fs"] by (auto simp: vol_def is_data_block_def)
  have "yields dev holds v (fs\<lparr>f_cache := x\<rparr>) (walk_chain_loop dev ino k (rd32 (lview v fs b) 8) (acc @ [b]) (fs\<lparr>f_cache := x\<rparr>)) (Inr (acc @ b # bs))"
    if "vol dev holds v (fs\<lparr>f_cache := x\<rparr>)" for x
    using Cons.IH [OF that, of "drop (rd32 (lview v fs b) 12) rest" "rd32 (lview v fs b) 8" k "acc @ [b]"] c(4) k(2) by simp
  then show ?case
    using c(1) \<open>b \<noteq> 0\<close> by (auto simp: k(1) intro!: yields_bindr [OF gets_typed [OF Cons.prems(1) c(2,3)] Cons.prems(1)])
qed

lemma gets_walk_chain:
  assumes "vol dev holds v fs" and "exts_in (f_geo fs) (lview v fs) ino node exts chain"
  shows "yields dev holds v fs (walk_chain dev ino (i_ext_chain node) fs) (Inr chain)"
  using gets_walk_loop [OF assms(1), of ino chain "drop INLINE_EXTENTS exts" "i_ext_chain node" _ "[]"] assms(2)
  unfolding exts_in_def walk_chain_def append_Nil by blast

end

subsection \<open>The bytes of a file\<close>

definition file_byte :: "(nat \<Rightarrow> bytes) \<Rightarrow> extent list \<Rightarrow> nat \<Rightarrow> u8" where
  "file_byte v exts p = (case map_block exts (p div BLOCK_SIZE) of Some b \<Rightarrow> v b ! (p mod BLOCK_SIZE) | None \<Rightarrow> 0)"

text \<open>The buffer at file offset \<open>off\<close> with the blocks \<open>lo..hi\<close> replaced by what \<open>f\<close> says.\<close>

definition overlaid :: "(nat \<Rightarrow> u8) \<Rightarrow> nat \<Rightarrow> nat \<Rightarrow> nat \<Rightarrow> bytes \<Rightarrow> bytes" where
  "overlaid f lo hi off buf =
     map (\<lambda>j. if lo \<le> (off + j) div BLOCK_SIZE \<and> (off + j) div BLOCK_SIZE < hi then f (off + j) else buf ! j) [0..<length buf]"

lemma length_overlaid [simp]: "length (overlaid f lo hi off buf) = length buf"
  by (simp add: overlaid_def)

lemma nth_overlaid:
  "j < length buf \<Longrightarrow> overlaid f lo hi off buf ! j =
     (if lo \<le> (off + j) div BLOCK_SIZE \<and> (off + j) div BLOCK_SIZE < hi then f (off + j) else buf ! j)"
  by (simp add: overlaid_def)

lemma overlaid_overlaid:
  "a \<le> b \<Longrightarrow> b \<le> c \<Longrightarrow> overlaid f b c off (overlaid f a b off buf) = overlaid f a c off buf"
  by (rule nth_equalityI) (auto simp: nth_overlaid)

lemma overlaid_empty: "hi \<le> lo \<Longrightarrow> overlaid f lo hi off buf = buf"
  by (rule nth_equalityI) (auto simp: nth_overlaid)

lemma overlaid_cong:
  "(\<And>p. lo \<le> p div BLOCK_SIZE \<Longrightarrow> p div BLOCK_SIZE < hi \<Longrightarrow> f p = f' p) \<Longrightarrow> overlaid f lo hi off buf = overlaid f' lo hi off buf"
  by (rule nth_equalityI) (auto simp: nth_overlaid)

lemma nth_concat_blocks:
  assumes "\<And>x. x \<in> set xss \<Longrightarrow> length x = k" and "i < length xss * k"
  shows "concat xss ! i = xss ! (i div k) ! (i mod k)"
proof -
  have k: "0 < k" using assms(2) by (cases k) auto
  have d: "i div k < length xss" using assms(2) by (simp add: less_mult_imp_div_less)
  have "get_slice (i div k * k) k (concat xss) ! (i mod k) = concat xss ! (i div k * k + i mod k)"
    using k assms(2) length_concat_const [OF assms(1)] by (intro nth_get_slice) simp_all
  then show ?thesis using get_slice_concat [OF assms(1) d] by simp
qed

text \<open>A slice of consecutive blocks put into the buffer.\<close>

lemma window:
  fixes x y e off j :: nat
  assumes "off < y" and "x < e" and "off + j < e"
  shows "(x \<le> off + j \<and> off + j < y) = (max x off - off \<le> j \<and> j < max x off - off + (min y e - max x off))"
  using assms by (cases "x \<le> off"; cases "y \<le> e") auto

lemma div_mult_self_diff: "a * b \<le> n \<Longrightarrow> 0 < b \<Longrightarrow> (n - a * b) div b = n div b - (a :: nat)"
  by (metis add_diff_cancel_left' add_diff_inverse_nat div_mult_self3 not_less less_not_refl2)

lemma mod_mult_self_diff: "a * b \<le> n \<Longrightarrow> (n - a * b) mod b = n mod (b :: nat)"
  by (metis add_diff_inverse_nat mod_mult_self3 not_less)

lemma put_blocks_overlaid:
  assumes "\<And>k. k < c \<Longrightarrow> length (v (pb + k)) = BLOCK_SIZE" and "end = off + length buf"
    and "off < (lb + c) * BLOCK_SIZE" and "lb * BLOCK_SIZE < end"
    and s: "s = max (lb * BLOCK_SIZE) off" and t: "t = min ((lb + c) * BLOCK_SIZE) end"
  shows "put_slice (s - off) (get_slice (s - lb * BLOCK_SIZE) (t - s) (concat (map v [pb..<pb + c]))) buf =
    overlaid (\<lambda>p. v (pb + (p div BLOCK_SIZE - lb)) ! (p mod BLOCK_SIZE)) lb (lb + c) off buf"
proof -
  let ?B = "BLOCK_SIZE" and ?bs = "map v [pb..<pb + c]"
  let ?sl = "get_slice (s - lb * ?B) (t - s) (concat ?bs)"
  have B: "0 < ?B" by (simp add: BLOCK_SIZE_def)
  have blk: "length x = ?B" if x: "x \<in> set ?bs" for x
  proof -
    obtain y where y: "x = v y" "pb \<le> y" "y < pb + c" using x by auto
    then show ?thesis using assms(1) [of "y - pb"] by simp
  qed
  have len: "length (concat ?bs) = c * ?B" using length_concat_const [of ?bs, OF blk] by simp
  have "s \<le> t" unfolding s t using assms(2-4) by (simp add: algebra_simps)
  moreover have "t \<le> lb * ?B + c * ?B" "t \<le> end" "off \<le> s" "lb * ?B \<le> s" unfolding s t by (simp_all add: add_mult_distrib)
  moreover obtain X where X: "X = lb * ?B" by simp
  ultimately have st: "s \<le> t" "t \<le> X + c * ?B" "t \<le> end" "off \<le> s" "X \<le> s" by simp_all
  have sl: "length ?sl = t - s" using st len X by simp
  have fit: "s - off + (t - s) \<le> length buf" using st assms(2) by linarith
  show ?thesis
  proof (rule nth_equalityI)
    show "length (put_slice (s - off) ?sl buf) = length (overlaid (\<lambda>p. v (pb + (p div ?B - lb)) ! (p mod ?B)) lb (lb + c) off buf)"
      using fit by (simp add: sl)
    fix j assume "j < length (put_slice (s - off) ?sl buf)"
    then have j: "j < length buf" using fit by (simp add: sl)
    have "off + j < end" using j assms(2) by linarith
    note w = window [OF assms(3,4) this, folded s t]
    have iff: "(lb \<le> (off + j) div ?B \<and> (off + j) div ?B < lb + c) = (s - off \<le> j \<and> j < s - off + (t - s))"
      unfolding less_eq_div_iff_mult_less_eq [OF B] div_less_iff_less_mult [OF B] by (rule w)
    have at: "?sl ! (j - (s - off)) = v (pb + ((off + j) div ?B - lb)) ! ((off + j) mod ?B)"
      if r: "s - off \<le> j" "j < s - off + (t - s)"
    proof -
      have i: "s - X + (j - (s - off)) = off + j - X" "off + j - X < c * ?B" "X \<le> off + j"
        using r st by linarith+
      have "?sl ! (j - (s - off)) = concat ?bs ! (off + j - X)"
        unfolding X [symmetric] i(1) [symmetric] by (rule nth_get_slice) (use r i len in linarith)+
      also have "\<dots> = ?bs ! ((off + j - X) div ?B) ! ((off + j - X) mod ?B)"
        by (rule nth_concat_blocks [of ?bs, OF blk]) (use i(2) in simp_all)
      also have "(off + j - X) div ?B = (off + j) div ?B - lb" using i(3) B unfolding X by (rule div_mult_self_diff)
      also have "(off + j - X) mod ?B = (off + j) mod ?B" using i(3) unfolding X by (rule mod_mult_self_diff)
      moreover have "(off + j) div ?B - lb < c" using iff [THEN iffD2, OF conjI [OF r]] by linarith
      ultimately show ?thesis by simp
    qed
    show "put_slice (s - off) ?sl buf ! j = overlaid (\<lambda>p. v (pb + (p div ?B - lb)) ! (p mod ?B)) lb (lb + c) off buf ! j"
    proof -
      have "put_slice (s - off) ?sl buf ! j = (if s - off \<le> j \<and> j < s - off + (t - s) then ?sl ! (j - (s - off)) else buf ! j)"
        unfolding nth_put_slice [of "s - off" ?sl buf j, unfolded sl, OF fit j] by auto
      then show ?thesis unfolding nth_overlaid [OF j] iff using at by presburger
    qed
  qed
qed

lemma file_byte_cover:
  assumes "exts_ok exts" and "e \<in> set exts" and "covers e (p div BLOCK_SIZE)"
  shows "file_byte v exts p = v (pblk e + (p div BLOCK_SIZE - lblk e)) ! (p mod BLOCK_SIZE)"
proof -
  have "maps exts (p div BLOCK_SIZE) (pblk e + (p div BLOCK_SIZE - lblk e))" using assms(2,3) by (auto simp: maps_def)
  then show ?thesis by (simp add: file_byte_def map_block_correct [OF assms(1), THEN iffD2])
qed

lemma file_byte_hole:
  "exts_ok exts \<Longrightarrow> \<not> (\<exists>e \<in> set exts. covers e (p div BLOCK_SIZE)) \<Longrightarrow> file_byte v exts p = 0"
  using map_block_correct [of exts] by (auto simp: file_byte_def maps_def split: option.splits)

lemma file_byte_cons:
  assumes "exts_ok (e # es)" and "lend e \<le> p div BLOCK_SIZE"
  shows "file_byte v (e # es) p = file_byte v es p"
  using assms by (auto simp: file_byte_def map_block_def Let_def split: option.splits)

lemma file_byte_above:
  assumes "exts_ok es" and "\<forall>a \<in> set es. q \<le> lblk a" and "p div BLOCK_SIZE < q"
  shows "file_byte v es p = 0"
  using assms by (intro file_byte_hole) (auto simp: covers_def)

text \<open>The file with inode number \<open>ino\<close>, its extents and the blocks its extent chain is stored in.\<close>

definition file_at :: "(nat \<Rightarrow> bytes) \<Rightarrow> 'd fs3 \<Rightarrow> nat \<Rightarrow> inode \<Rightarrow> extent list \<Rightarrow> nat list \<Rightarrow> bool" where
  "file_at v fs ino node exts chain \<longleftrightarrow>
     0 < ino \<and> ino \<le> inode_count (f_geo fs) \<and> bits_get (f_ibits fs) (ino - 1) \<and>
     inode_in (f_geo fs) (lview v fs) ino = Some node \<and> i_kind node = File \<and>
     exts_in (f_geo fs) (lview v fs) ino node exts chain"

definition covered :: "extent list \<Rightarrow> nat \<Rightarrow> bool" where
  "covered es p = list_ex (\<lambda>e. covers e (p div BLOCK_SIZE)) es"

definition filled :: "(nat \<Rightarrow> bytes) \<Rightarrow> extent list \<Rightarrow> nat \<Rightarrow> bytes \<Rightarrow> bytes" where
  "filled v es off buf =
     map (\<lambda>j. if covered es (off + j) then file_byte v es (off + j) else buf ! j) [0..<length buf]"

lemma length_filled [simp]: "length (filled v es off buf) = length buf"
  by (simp add: filled_def)

lemma nth_filled:
  "j < length buf \<Longrightarrow> filled v es off buf ! j = (if covered es (off + j) then file_byte v es (off + j) else buf ! j)"
  by (simp add: filled_def)

lemma filled_Nil: "filled v [] off buf = buf"
  by (rule nth_equalityI) (simp_all add: nth_filled covered_def)

lemma filled_cong:
  assumes "\<And>j. j < length buf \<Longrightarrow> covered es (off + j) = covered es' (off + j)"
    and "\<And>j. j < length buf \<Longrightarrow> covered es' (off + j) \<Longrightarrow> file_byte v es (off + j) = file_byte v es' (off + j)"
  shows "filled v es off buf = filled v es' off buf"
  using assms by (intro nth_equalityI) (simp_all add: nth_filled)

lemma filled_zeros:
  assumes "exts_ok es"
  shows "filled v es off (replicate n 0) = map (file_byte v es) [off..<off + n]"
proof (rule nth_equalityI)
  fix j assume "j < length (filled v es off (replicate n 0))"
  then show "filled v es off (replicate n 0) ! j = map (file_byte v es) [off..<off + n] ! j"
    using file_byte_hole [OF assms, of "off + j" v] by (auto simp: nth_filled covered_def list_ex_iff)
qed simp

context reliable_device
begin

lemma gets_chunks:
  assumes "vol dev holds v fs" and "ext_ok e" and "data_start (f_geo fs) \<le> pblk e" and "pend e \<le> backup_sb (f_geo fs)"
    and "lblk e \<le> lb" and "b \<le> lend e" and "end = off + length buf"
    and "lb < b \<Longrightarrow> off < (lb + 1) * BLOCK_SIZE" and "lb < b \<Longrightarrow> (b - 1) * BLOCK_SIZE < end"
  shows "yields dev holds v fs (read_chunks dev e off end b lb buf fs)
    (Inr (overlaid (\<lambda>p. v (pblk e + (p div BLOCK_SIZE - lblk e)) ! (p mod BLOCK_SIZE)) lb b off buf))"
  using assms(1,5-9,3,4)
proof (induction "b - lb" arbitrary: lb buf fs rule: less_induct)
  case less
  let ?f = "\<lambda>p. v (pblk e + (p div BLOCK_SIZE - lblk e)) ! (p mod BLOCK_SIZE)"
  show ?case
  proof (cases "lb < b")
    case False
    then show ?thesis using less.prems(1) by (simp add: read_chunks.simps overlaid_empty yields_pure)
  next
    case True
    define c where "c = min (b - lb) WRITE_CHUNK"
    define pb where "pb = pblk e + (lb - lblk e)"
    define s where "s = max (lb * BLOCK_SIZE) off"
    define t where "t = min ((lb + c) * BLOCK_SIZE) end"
    let ?buf = "overlaid ?f lb (lb + c) off buf"
    have c: "0 < c" "lb + c \<le> b" using True by (auto simp: c_def WRITE_CHUNK_def)
    have g: "geo_ok (f_geo fs)" and ci: "cache_is dev holds (f_cache fs) v" "total_blocks (f_geo fs) \<le> nblocks (f_cache fs)"
      using less.prems(1) by (auto simp: vol_def)
    have "pb + c \<le> pend e" using less.prems(2,3) c by (simp add: pb_def pend_def lend_def)
    then have pb: "pb + c \<le> total_blocks (f_geo fs)" using less.prems(8) geo_ok_sizes(1) [OF g] by linarith
    have "lb * BLOCK_SIZE \<le> (b - 1) * BLOCK_SIZE" "(lb + 1) * BLOCK_SIZE \<le> (lb + c) * BLOCK_SIZE"
      by (rule mult_le_mono1; use True c in linarith)+
    then have w: "off < (lb + c) * BLOCK_SIZE" "lb * BLOCK_SIZE < end"
      using less.prems(5,6) True by linarith+
    have len: "length (v (pb + k)) = BLOCK_SIZE" if "k < c" for k
      using cache_is_length [OF ci(1)] that pb ci(2) by simp
    have "put_slice (s - off) (get_slice (s - lb * BLOCK_SIZE) (t - s) (concat (map v [pb..<pb + c]))) buf =
        overlaid (\<lambda>p. v (pb + (p div BLOCK_SIZE - lb)) ! (p mod BLOCK_SIZE)) lb (lb + c) off buf"
      by (rule put_blocks_overlaid [of c v pb "end" off buf lb s t, OF len less.prems(4) w s_def t_def])
    also have "\<dots> = ?buf" using less.prems(2) by (intro overlaid_cong) (simp add: pb_def)
    finally have put: "put_slice (s - off) (get_slice (s - lb * BLOCK_SIZE) (t - s) (concat (map v [pb..<pb + c]))) buf = ?buf" .
    have "yields dev holds v (fs\<lparr>f_cache := x\<rparr>) (read_chunks dev e off end b (lb + c) ?buf (fs\<lparr>f_cache := x\<rparr>)) (Inr (overlaid ?f lb b off buf))"
      if x: "vol dev holds v (fs\<lparr>f_cache := x\<rparr>)" for x
    proof -
      have "off < (lb + c + 1) * BLOCK_SIZE" using w(1) by (simp add: add_mult_distrib)
      then show ?thesis
        using less.hyps [of "lb + c" "fs\<lparr>f_cache := x\<rparr>" ?buf] c less.prems x
        by (simp add: overlaid_overlaid)
    qed
    then show ?thesis
      using True unfolding read_chunks.simps [of dev e off "end" b lb] Let_def c_def [symmetric] pb_def [symmetric] s_def [symmetric] t_def [symmetric]
      by (auto simp: put intro!: yields_bindr [OF gets_many [OF less.prems(1) pb] less.prems(1)])
  qed
qed

text \<open>
  The extents that meet the blocks \<open>first..lastb\<close> of the request, one after the other: the bytes
  they cover become the file's.
\<close>

lemma gets_extents:
  assumes "vol dev holds v fs" and "exts_ok es" and "\<forall>e \<in> set es. data_start (f_geo fs) \<le> pblk e \<and> pend e \<le> backup_sb (f_geo fs)"
    and "end = off + length buf" and "first = off div BLOCK_SIZE" and "lastb = (end - 1) div BLOCK_SIZE" and "off < end"
  shows "yields dev holds v fs (read_extents dev off end first lastb es buf fs) (Inr (filled v es off buf))"
  using assms
proof (induction es arbitrary: buf fs)
  case Nil
  then show ?case by (simp add: yields_pure filled_Nil)
next
  case (Cons e es)
  have ok: "ext_ok e" "\<forall>a \<in> set es. lend e \<le> lblk a" "exts_ok es" using Cons.prems(2) by auto
  have q: "first \<le> (off + j) div BLOCK_SIZE" "(off + j) div BLOCK_SIZE \<le> lastb" if "j < length buf" for j
    using that Cons.prems(4-7) by (auto intro!: div_le_mono)
  consider (before) "lend e \<le> first" | (after) "first < lend e" "lastb < lblk e" | (meets) "first < lend e" "lblk e \<le> lastb" by linarith
  then show ?case
  proof cases
    case before
    have "filled v (e # es) off buf = filled v es off buf"
    proof (rule filled_cong)
      fix j assume "j < length buf"
      then have "lend e \<le> (off + j) div BLOCK_SIZE" using before q(1) [of j] by simp
      then show "covered (e # es) (off + j) = covered es (off + j)" "file_byte v (e # es) (off + j) = file_byte v es (off + j)"
        using file_byte_cons [OF Cons.prems(2), of "off + j" v] by (auto simp: covered_def covers_def)
    qed
    then show ?thesis using Cons.IH [OF Cons.prems(1) ok(3) _ Cons.prems(4-7)] Cons.prems(3) before by simp
  next
    case after
    have "filled v (e # es) off buf = filled v [] off buf"
    proof (rule filled_cong)
      fix j assume j: "j < length buf"
      have "\<not> covers a ((off + j) div BLOCK_SIZE)" if "a \<in> set (e # es)" for a
        using after q(2) [OF j] ok(2) that by (fastforce simp: covers_def lend_def)
      then show "covered (e # es) (off + j) = covered [] (off + j)" by (auto simp: covered_def list_ex_iff)
      then show "covered [] (off + j) \<Longrightarrow> file_byte v (e # es) (off + j) = file_byte v [] (off + j)" by (simp add: covered_def)
    qed
    then show ?thesis using after Cons.prems(1) by (simp add: filled_Nil yields_pure)
  next
    case meets
    let ?b = "min (lend e) (lastb + 1)" and ?lb = "max (lblk e) first"
    let ?f = "\<lambda>p. v (pblk e + (p div BLOCK_SIZE - lblk e)) ! (p mod BLOCK_SIZE)"
    define buf1 where "buf1 = overlaid ?f ?lb ?b off buf"
    have at: "buf1 ! j = (if covers e ((off + j) div BLOCK_SIZE) then ?f (off + j) else buf ! j)" if "j < length buf" for j
      unfolding buf1_def nth_overlaid [OF that] using q [OF that] by (auto simp: covers_def)
    have len: "length buf1 = length buf" by (simp add: buf1_def)
    have one: "yields dev holds v fs (read_chunks dev e off end ?b ?lb buf fs) (Inr buf1)"
      unfolding buf1_def
    proof (rule gets_chunks [OF Cons.prems(1) ok(1)])
      show "data_start (f_geo fs) \<le> pblk e" "pend e \<le> backup_sb (f_geo fs)" using Cons.prems(3) by auto
      have "off < (first + 1) * BLOCK_SIZE" unfolding Cons.prems(5) by (simp add: BLOCK_SIZE_def)
      moreover have "(first + 1) * BLOCK_SIZE \<le> (?lb + 1) * BLOCK_SIZE" by (rule mult_le_mono1) simp
      ultimately show "off < (?lb + 1) * BLOCK_SIZE" by linarith
      have "(?b - 1) * BLOCK_SIZE \<le> lastb * BLOCK_SIZE" by (rule mult_le_mono1) simp
      also have "\<dots> \<le> end - 1" unfolding Cons.prems(6) by (rule div_times_less_eq_dividend)
      finally show "(?b - 1) * BLOCK_SIZE < end" using Cons.prems(7) by linarith
    qed (use Cons.prems(4) in auto)
    have "filled v es off buf1 = filled v (e # es) off buf"
    proof (rule nth_equalityI)
      fix j assume "j < length (filled v es off buf1)"
      then have j: "j < length buf" "j < length buf1" by (simp_all add: len)
      let ?q = "(off + j) div BLOCK_SIZE"
      have "file_byte v (e # es) (off + j) = ?f (off + j)" if "covers e ?q"
        using file_byte_cover [OF Cons.prems(2) _ that, of v] by simp
      moreover have "\<not> covered es (off + j)" if "covers e ?q"
        using that ok(2) by (fastforce simp: covered_def list_ex_iff covers_def)
      moreover have "file_byte v (e # es) (off + j) = file_byte v es (off + j)" if "covered es (off + j)"
      proof (rule file_byte_cons [OF Cons.prems(2)])
        show "lend e \<le> ?q" using that ok(2) by (fastforce simp: covered_def list_ex_iff covers_def)
      qed
      ultimately show "filled v es off buf1 ! j = filled v (e # es) off buf ! j"
        unfolding nth_filled [OF j(1)] nth_filled [OF j(2)] at [OF j(1)] by (auto simp: covered_def)
    qed (simp add: len)
    then have "yields dev holds v (fs\<lparr>f_cache := c\<rparr>) (read_extents dev off end first lastb es buf1 (fs\<lparr>f_cache := c\<rparr>)) (Inr (filled v (e # es) off buf))"
      if "vol dev holds v (fs\<lparr>f_cache := c\<rparr>)" for c
      using Cons.IH [OF that ok(3) _ _ Cons.prems(5-7), of buf1] Cons.prems(3,4) len by simp
    then have "yields dev holds v fs (bindr (read_chunks dev e off end ?b ?lb buf fs) (\<lambda>buf fs. read_extents dev off end first lastb es buf fs))
        (Inr (filled v (e # es) off buf))"
      by (rule yields_bindr [OF one Cons.prems(1)])
    then show ?thesis using meets by simp
  qed
qed

lemma gets_read_at:
  assumes "vol dev holds v fs" and "\<not> f_poisoned fs" and "file_at v fs ino node exts chain" and "n = min (length buf) (i_size node - off)"
  shows "yields dev holds v fs (read_at dev ino off buf fs) (Inr (n, map (file_byte v exts) [off..<off + n] @ drop n buf))"
proof -
  have f: "0 < ino" "ino \<le> inode_count (f_geo fs)" "bits_get (f_ibits fs) (ino - 1)"
    "inode_in (f_geo fs) (lview v fs) ino = Some node" "i_kind node = File" "exts_in (f_geo fs) (lview v fs) ino node exts chain"
    using assms(3) unfolding file_at_def by blast+
  have g: "geo_ok (f_geo fs)" using assms(1) by (simp add: vol_def)
  have ok: "exts_ok exts" "\<forall>e \<in> set exts. data_start (f_geo fs) \<le> pblk e \<and> pend e \<le> backup_sb (f_geo fs)"
    using f(6) valid_extents_ok [OF g] by (auto simp: exts_in_def)
  note inode = gets_inode [OF assms(1) f(1-4)]
  show ?thesis
  proof (cases "n = 0")
    case True
    then have "i_size node \<le> off \<or> buf = []" using assms(4) by (auto simp: min_def split: if_splits)
    then show ?thesis
      using assms(2) f(5) True by (auto simp: read_at_def ready_def intro!: yields_bindr [OF inode assms(1)] yields_pure)
  next
    case False
    let ?fs = "\<lambda>c. fs\<lparr>f_cache := c\<rparr>"
    have ext: "yields dev holds v (?fs c) (load_extents dev ino node (?fs c)) (Inr exts)" if "vol dev holds v (?fs c)" for c
      using gets_load_extents [OF that, of ino node exts chain] f(6) by simp
    have data: "yields dev holds v (?fs c) (read_extents dev off (off + n) (off div BLOCK_SIZE) ((off + n - 1) div BLOCK_SIZE) exts (replicate n 0) (?fs c))
        (Inr (map (file_byte v exts) [off..<off + n]))" if "vol dev holds v (?fs c)" for c
      using gets_extents [OF that ok(1), of "off + n" off "replicate n 0" "off div BLOCK_SIZE" "(off + n - 1) div BLOCK_SIZE"]
        ok(2) False by (simp add: filled_zeros [OF ok(1)])
    have n: "\<not> (i_size node \<le> off \<or> buf = [])" using False assms(4) by auto
    show ?thesis
      unfolding read_at_def ready_def using assms(2) f(5) n
      by (auto simp: Let_def assms(4) [symmetric]
          intro!: yields_bindr [OF inode assms(1)] yields_bindr [OF ext] yields_bindr [OF data [unfolded One_nat_def]] yields_pure)
  qed
qed

end

subsection \<open>A small volume with a file\<close>

text \<open>File 3: one block of nines at block 6, four more bytes of a hole.\<close>

definition small_file :: inode where
  "small_file = (inode_new File 0 ROOT_INO)\<lparr>i_size := 4100, i_nblocks := 1, i_nextents := 1,
     i_inline := \<lparr>lblk = 0, elen = 1, pblk = 6\<rparr> # replicate 11 extent_default\<rparr>"

abbreviation small_exts :: "extent list" where
  "small_exts \<equiv> [\<lparr>lblk = 0, elen = 1, pblk = 6\<rparr>]"

definition file_blocks :: "bytes list" where
  "file_blocks = small_blocks[5 := put_slice 1024 (inode_encode small_file) zero_block, 6 := replicate BLOCK_SIZE 9]"

definition file_fs :: "ram_disk fs3" where
  "file_fs = (small_fs (cache_of file_blocks 4))\<lparr>f_bbits := bits_set (fresh_bbits small_geo) 6, f_ibits := bits_set (fresh_ibits small_geo) 2,
     f_free_blocks := count_free (bits_set (fresh_bbits small_geo) 6) 11, f_free_inodes := count_free (bits_set (fresh_ibits small_geo) 2) 8\<rparr>"

lemma small_file_wf: "inode_wf small_file"
  by (simp add: inode_wf_def small_file_def inode_new_def inode_consts extent_wf_def extent_default_def ROOT_INO_def list_all_iff)

lemma file_blocks_ok: "blocks_ok file_blocks" "length file_blocks = 11"
  "file_blocks ! 5 = put_slice 1024 (inode_encode small_file) zero_block" "file_blocks ! 6 = replicate BLOCK_SIZE 9"
proof -
  have "length (put_slice 1024 (inode_encode small_file) zero_block) = BLOCK_SIZE"
    using length_inode_encode [OF small_file_wf] by (simp add: zero_block_def INODE_SIZE_def BLOCK_SIZE_def)
  then show "blocks_ok file_blocks" "length file_blocks = 11"
    using small_blocks_ok(1,2)
    by (auto simp: blocks_ok_def file_blocks_def dest!: set_update_subset_insert [THEN subsetD])
  show "file_blocks ! 5 = put_slice 1024 (inode_encode small_file) zero_block" "file_blocks ! 6 = replicate BLOCK_SIZE 9"
    using small_blocks_ok(2) by (simp_all add: file_blocks_def)
qed

lemma file_fs_sel [simp]:
  "f_cache file_fs = cache_of file_blocks 4" "f_geo file_fs = small_geo" "f_tx file_fs = tx_idle" "\<not> f_poisoned file_fs"
  "f_ibits file_fs = bits_set (fresh_ibits small_geo) 2" "f_bbits file_fs = bits_set (fresh_bbits small_geo) 6"
  by (simp_all add: file_fs_def small_fs_def)

lemma file_fs_at:
  "\<exists>v. vol ram_dev ram_holds v file_fs \<and> file_at v file_fs 3 small_file small_exts [] \<and> (\<forall>b < 11. v b = file_blocks ! b)"
proof -
  note b = file_blocks_ok
  have cap: "(4 :: nat) < NIL" by (simp add: NIL_def)
  obtain v where v: "cache_is ram_dev ram_holds (cache_of file_blocks 4) v" "\<forall>b < 11. v b = file_blocks ! b"
    using cache_of_is(1) [OF b(1) cap] b(2) by auto
  have "nblocks (cache_of file_blocks 4) = 11" using cache_of_is(2) [OF b(1) cap] b(2) by simp
  then have vol: "vol ram_dev ram_holds v file_fs" using v(1) small_geo_ok by (simp add: vol_def small_geo_def)
  have "get_slice 1024 512 (v 5) = inode_encode small_file"
    using v(2) b(3) length_inode_encode [OF small_file_wf] by (simp add: zero_block_def INODE_SIZE_def BLOCK_SIZE_def)
  then have "inode_in small_geo v 3 = Some small_file"
    using inode_decode_encode [OF small_file_wf]
    by (simp add: inode_in_def inode_blk_def inode_off_def layout_consts small_geo_def)
  moreover have "lview v file_fs = v" by (simp add: lview_def fun_eq_iff tx_idle_def)
  moreover have "bits_get (f_ibits file_fs) 2" by (simp add: bits_get_set) (simp add: small_geo_def div_ceil_def)
  moreover have "exts_in small_geo v 3 small_file small_exts []"
    by (simp add: exts_in_def small_file_def small_geo_def inode_consts lend_def pend_def backup_sb_def inode_new_def)
  ultimately have "file_at v file_fs 3 small_file small_exts []"
    by (simp add: file_at_def small_geo_def) (simp add: small_file_def inode_new_def)
  then show ?thesis using vol v(2) by blast
qed

subsection \<open>Properties\<close>

text \<open>
  C8: Reading a file on a disk that works returns its bytes: from the blocks its extents map, zero
  in holes, up to the end of the file or of the buffer, whose rest is left as it was; and reading
  changes nothing but the cache.
\<close>

theorem read_at_returns_bytes:
  assumes "vol ram_dev ram_holds v fs" and "\<not> f_poisoned fs" and "file_at v fs ino node exts chain"
  shows "\<exists>c. let n = min (length buf) (i_size node - off) in
    read_at ram_dev ino off buf fs = (Inr (n, map (file_byte v exts) [off..<off + n] @ drop n buf), fs\<lparr>f_cache := c\<rparr>) \<and>
    vol ram_dev ram_holds v (fs\<lparr>f_cache := c\<rparr>)"
  using ram.gets_read_at [OF assms refl, where buf = buf and off = off] assms(1) by (auto simp: Let_def elim!: yieldsE)

theorem read_at_returns_bytes_witness:
  "\<exists>c. read_at ram_dev 3 4094 [1, 1, 1, 1, 1, 1, 1, 1] file_fs = (Inr (6, [9, 9, 0, 0, 0, 0, 1, 1]), file_fs\<lparr>f_cache := c\<rparr>)"
proof -
  obtain v where v: "vol ram_dev ram_holds v file_fs" "file_at v file_fs 3 small_file small_exts []" "\<forall>b < 11. v b = file_blocks ! b"
    using file_fs_at by blast
  have v6: "v 6 = replicate BLOCK_SIZE 9" using v(3) file_blocks_ok(4) by simp
  have "map (file_byte v small_exts) [4094..<4100] = [9, 9, 0, 0, 0, 0]"
    by (simp add: upt_rec file_byte_def map_block_def lend_def v6 BLOCK_SIZE_def)
  then show ?thesis
    using read_at_returns_bytes [OF v(1) _ v(2), of "[1, 1, 1, 1, 1, 1, 1, 1]" 4094] by (auto simp: Let_def small_file_def)
qed

end
