(* ===== verification/Store.thy ===== *)
theory Store
  imports Volume
begin

text \<open>
  Storing an extent list and an inode through the transaction overlay: what \<open>store_extents\<close> and
  \<open>write_inode\<close> leave is what \<open>load_extents\<close> and \<open>read_inode\<close> read back.
\<close>

subsection \<open>Extent blocks\<close>

definition ext_ws :: "nat \<Rightarrow> nat \<Rightarrow> extent list \<Rightarrow> (nat \<times> bytes) list" where
  "ext_ws ino nxt part =
     [(4, EXT_MAGIC), (8, le_bytes 4 nxt), (12, le_bytes 4 (length part)), (16, le_bytes 4 ino)] @ ext_fields 24 part"

lemma ext_image_fields:
  assumes "length part \<le> EXTENTS_PER_BLOCK" and "ws = ext_ws ino nxt part"
  shows "ext_image ino nxt part = (let b = put_all ws (replicate BLOCK_SIZE 0) in wr32 b 0 (unat (crc32 (drop 4 b))))"
    and "fits BLOCK_SIZE ws" and "sorted_wrt apart ws" and "w \<in> set ws \<Longrightarrow> 4 \<le> fst w"
proof -
  have n: "length part * EXTENT_SIZE \<le> 4072" using assms(1) by (simp add: inode_consts)
  have p: "24 \<le> fst w \<and> fst w + length (snd w) \<le> BLOCK_SIZE" if "w \<in> set (ext_fields 24 part)" for w
    using ext_fields_pos [OF that] n by (simp add: BLOCK_SIZE_def)
  have "as_u32 (length part) = length part" using n by (simp add: EXTENT_SIZE_def)
  then show "ext_image ino nxt part = (let b = put_all ws (replicate BLOCK_SIZE 0) in wr32 b 0 (unat (crc32 (drop 4 b))))"
    by (simp add: ext_image_def assms(2) ext_ws_def encode_extents_put_all wr32_def Let_def)
  have len: "length EXT_MAGIC = 4" by (simp add: EXT_MAGIC_def)
  show "fits BLOCK_SIZE ws" using p len by (auto simp: assms(2) ext_ws_def fits_def list_all_iff BLOCK_SIZE_def)
  show "sorted_wrt apart ws" using ext_fields_apart [of 24 part] p len by (fastforce simp: assms(2) ext_ws_def sorted_wrt_append apart_def)
  show "w \<in> set ws \<Longrightarrow> 4 \<le> fst w" using p [of w] by (fastforce simp: assms(2) ext_ws_def)
qed

lemma ext_image_reads:
  assumes "length part \<le> EXTENTS_PER_BLOCK" and "list_all extent_wf part" and "nxt < 2 ^ 32" and "ino < 2 ^ 32"
  defines "img \<equiv> ext_image ino nxt part"
  shows "length img = BLOCK_SIZE" and "verify_typed img True ino = Inr ()" and "rd32 img 8 = nxt" and "rd32 img 12 = length part"
    and "map (\<lambda>k. extent_decode img (24 + k * EXTENT_SIZE)) [0..<length part] = part"
proof -
  let ?ws = "ext_ws ino nxt part"
  define b where "b = put_all ?ws (replicate BLOCK_SIZE 0)"
  note f = ext_image_fields [OF assms(1) refl, where ino = ino and nxt = nxt]
  have fit: "fits (length (replicate BLOCK_SIZE (0 :: u8))) ?ws" using f(2) by simp
  have len: "length b = BLOCK_SIZE" using length_put_all [OF fit] by (simp add: b_def)
  have img: "img = wr32 b 0 (unat (crc32 (drop 4 b)))" using f(1) by (simp add: img_def b_def Let_def)
  show "length img = BLOCK_SIZE" using len by (simp add: img BLOCK_SIZE_def)
  have get: "get_slice i n img = xs" if "(i, xs) \<in> set ?ws" "n = length xs" for i xs n
  proof -
    have "4 \<le> i" using f(4) [OF that(1)] by simp
    then have "get_slice i n img = get_slice i n b" using len by (simp add: img BLOCK_SIZE_def)
    then show ?thesis using put_all_get [OF fit f(3) that] by (simp add: b_def)
  qed
  have "length part \<le> 339" using assms(1) by (simp add: inode_consts)
  then show r: "rd32 img 8 = nxt" "rd32 img 12 = length part"
    using get [of 8 "le_bytes 4 nxt" 4] get [of 12 "le_bytes 4 (length part)" 4] assms(3) by (simp_all add: rd32_def ext_ws_def)
  have "rd32 img 16 = ino" "get_slice 4 4 img = EXT_MAGIC"
    using get [of 16 "le_bytes 4 ino" 4] get [of 4 EXT_MAGIC 4] assms(4) by (simp_all add: rd32_def EXT_MAGIC_def ext_ws_def)
  moreover have "rd32 img 0 = unat (crc32 (drop 4 img))"
    using len unsigned_less [of "crc32 (drop 4 b)"] by (simp add: img BLOCK_SIZE_def)
  ultimately show "verify_typed img True ino = Inr ()" by (simp add: verify_typed_def)
  show "map (\<lambda>k. extent_decode img (24 + k * EXTENT_SIZE)) [0..<length part] = part"
  proof (rule nth_equalityI)
    fix k assume "k < length (map (\<lambda>k. extent_decode img (24 + k * EXTENT_SIZE)) [0..<length part])"
    then have k: "k < length part" by simp
    have "extent_decode b (24 + k * EXTENT_SIZE) = part ! k"
      unfolding b_def using assms(2) k by (intro extent_decode_put_all [OF fit f(3)]) (auto simp: list_all_iff ext_ws_def)
    moreover have "extent_decode img (24 + k * EXTENT_SIZE) = extent_decode b (24 + k * EXTENT_SIZE)"
      using len by (simp add: extent_decode_def img BLOCK_SIZE_def)
    ultimately show "map (\<lambda>k. extent_decode img (24 + k * EXTENT_SIZE)) [0..<length part] ! k = part ! k" using k by simp
  qed simp
qed

text \<open>A chain of such blocks holds the extents it was made from.\<close>

definition chain_img :: "nat \<Rightarrow> extent list \<Rightarrow> nat list \<Rightarrow> nat \<Rightarrow> bytes" where
  "chain_img ino rest chain i = ext_image ino (if i + 1 < length chain then chain ! (i + 1) else 0) (chain_part rest i)"

lemma chain_part_eq: "chain_part rest i = take EXTENTS_PER_BLOCK (drop (i * EXTENTS_PER_BLOCK) rest)"
  unfolding chain_part_def get_slice_def
  by (cases "length rest \<le> (i + 1) * EXTENTS_PER_BLOCK") (simp_all add: min_def add_mult_distrib)

lemma chain_in_images:
  assumes "list_all extent_wf rest" and "ino < 2 ^ 32" and "length chain = div_ceil (length rest) EXTENTS_PER_BLOCK"
    and "\<And>b. b \<in> set chain \<Longrightarrow> data_start g \<le> b \<and> b < backup_sb g \<and> b < 2 ^ 32"
    and "\<And>i. i < length chain \<Longrightarrow> V (chain ! i) = chain_img ino rest chain i"
  shows "i \<le> length chain \<Longrightarrow> chain_in g V ino (drop i chain) (drop (i * EXTENTS_PER_BLOCK) rest) (if i < length chain then chain ! i else 0)"
proof (induction "length chain - i" arbitrary: i)
  case 0
  have "0 < EXTENTS_PER_BLOCK" by (simp add: inode_consts)
  then show ?case using 0 assms(3) div_ceil_bounds(1) [of EXTENTS_PER_BLOCK "length rest"] by simp
next
  case (Suc n)
  let ?E = "EXTENTS_PER_BLOCK" and ?part = "chain_part rest i" and ?b = "chain ! i"
  have E: "0 < ?E" by (simp add: inode_consts)
  have i: "i < length chain" "n = length chain - Suc i" using Suc.hyps(2) by simp_all
  have "(i + 1) * ?E \<le> length chain * ?E" using i(1) by (intro mult_le_mono1) simp
  then have "i * ?E < length rest"
    using div_ceil_bounds(2) [OF E, of "length rest"] assms(3) by (simp add: add_mult_distrib)
  then have part: "length ?part \<le> length rest - i * ?E" "0 < length ?part" "length ?part \<le> ?E"
    "take (length ?part) (drop (i * ?E) rest) = ?part" "drop (length ?part) (drop (i * ?E) rest) = drop (Suc i * ?E) rest"
    using E by (auto simp: chain_part_eq min_def add.commute)
  have wf: "list_all extent_wf ?part" using assms(1) by (auto simp: chain_part_eq list_all_iff dest: in_set_takeD in_set_dropD)
  have nxt: "(if i + 1 < length chain then chain ! (i + 1) else 0) < 2 ^ 32" using assms(4) [OF nth_mem, of "i + 1"] by simp
  note img = ext_image_reads [OF part(3) wf nxt assms(2), folded chain_img_def]
  have "drop i chain = ?b # drop (Suc i) chain" using i(1) by (simp add: Cons_nth_drop_Suc)
  then show ?case
    using Suc.hyps(1) [OF i(2)] i(1) assms(4) [OF nth_mem [OF i(1)]] img part assms(5) [OF i(1)]
    by (cases "Suc i < length chain") (simp_all add: Let_def)
qed

subsection \<open>Steps on the overlay\<close>

definition meta_ok :: "'d fs3 \<Rightarrow> bool" where
  "meta_ok fs \<longleftrightarrow> bt_inv (tx_meta (f_tx fs)) \<and>
     (\<forall>b x. bt_get (tx_meta (f_tx fs)) b = Some x \<longrightarrow>
        length x = BLOCK_SIZE \<and> bbitmap_start (f_geo fs) \<le> b \<and> b < backup_sb (f_geo fs))"

abbreviation overlaid_blocks :: "'d fs3 \<Rightarrow> nat set" where
  "overlaid_blocks fs \<equiv> dom (bt_get (tx_meta (f_tx fs)))"

text \<open>A step that works on the cache and the overlay only.\<close>

definition meta_step :: "'d fs3 \<Rightarrow> 'd fs3 \<Rightarrow> bool" where
  "meta_step fs fs' \<longleftrightarrow> f_geo fs' = f_geo fs \<and> f_bbits fs' = f_bbits fs \<and> f_ibits fs' = f_ibits fs \<and>
     f_poisoned fs' = f_poisoned fs \<and> f_sb fs' = f_sb fs \<and> tx_to_free (f_tx fs') = tx_to_free (f_tx fs) \<and>
     f_free_blocks fs' = f_free_blocks fs"

lemma meta_step_refl [simp]: "meta_step fs fs" "meta_step fs (fs\<lparr>f_cache := c\<rparr>)"
  by (simp_all add: meta_step_def)

lemma meta_step_trans: "meta_step a b \<Longrightarrow> meta_step b c \<Longrightarrow> meta_step a c"
  by (simp add: meta_step_def)

lemma meta_ok_cache [simp]: "meta_ok (fs\<lparr>f_cache := c\<rparr>) = meta_ok fs"
  by (simp add: meta_ok_def)

lemma put_overlay_effect:
  "lview v (put_overlay b x fs) = (lview v fs)(b := x)" "meta_step fs (put_overlay b x fs)"
  "f_geo (put_overlay b x fs) = f_geo fs" "overlaid_blocks (put_overlay b x fs) = insert b (overlaid_blocks fs)"
  "vol dev holds v (put_overlay b x fs) = vol dev holds v fs"
  by (auto simp: lview_def put_overlay_def bt_get_insert meta_step_def vol_def fun_eq_iff)

lemma meta_ok_put:
  assumes "meta_ok fs" and "length x = BLOCK_SIZE" and "bbitmap_start (f_geo fs) \<le> b" and "b < backup_sb (f_geo fs)"
  shows "meta_ok (put_overlay b x fs)"
  using assms by (auto simp: meta_ok_def put_overlay_def bt_get_insert bt_inv_insert)

text \<open>What a step on the overlay does to the blocks seen through it.\<close>

definition puts :: "'d blockdevice \<Rightarrow> ('d \<Rightarrow> (nat \<Rightarrow> bytes) \<Rightarrow> bool) \<Rightarrow> (nat \<Rightarrow> bytes) \<Rightarrow> 'd fs3 \<Rightarrow> 'd fs3 \<Rightarrow>
    (nat \<Rightarrow> bytes) \<Rightarrow> nat set \<Rightarrow> bool" where
  "puts dev holds v fs fs' V B \<longleftrightarrow> vol dev holds v fs' \<and> meta_ok fs' \<and> meta_step fs fs' \<and> lview v fs' = V \<and>
     overlaid_blocks fs' \<subseteq> overlaid_blocks fs \<union> B"

lemma putsD:
  assumes "puts dev holds v fs fs' V B"
  shows "vol dev holds v fs'" and "meta_ok fs'" and "meta_step fs fs'" and "lview v fs' = V"
    and "overlaid_blocks fs' \<subseteq> overlaid_blocks fs \<union> B" and "f_geo fs' = f_geo fs"
  using assms by (auto simp: puts_def meta_step_def)

lemma puts_trans:
  "puts dev holds v a b V B \<Longrightarrow> puts dev holds v b c V' B' \<Longrightarrow> puts dev holds v a c V' (B \<union> B')"
  unfolding puts_def using meta_step_trans by blast

lemma puts_overlay:
  assumes "vol dev holds v fs" and "meta_ok fs" and "length x = BLOCK_SIZE" and "bbitmap_start (f_geo fs) \<le> b" and "b < backup_sb (f_geo fs)"
  shows "puts dev holds v fs (put_overlay b x fs) ((lview v fs)(b := x)) {b}"
  unfolding puts_def put_overlay_effect using assms meta_ok_put [OF assms(2-5)] put_overlay_effect(2) by simp

context block_device
begin

lemma lview_length:
  assumes "vol dev holds v fs" and "meta_ok fs" and "b < total_blocks (f_geo fs)"
  shows "length (lview v fs b) = BLOCK_SIZE"
proof (cases "bt_get (tx_meta (f_tx fs)) b")
  case None
  then show ?thesis using cache_is_length [of "f_cache fs" v b] assms by (simp add: lview_def vol_def)
next
  case (Some x)
  then show ?thesis using assms(2) by (simp add: lview_def meta_ok_def)
qed

lemma meta_mut_puts:
  assumes "vol dev holds v fs" and "meta_ok fs" and "bbitmap_start (f_geo fs) \<le> b" and "b < backup_sb (f_geo fs)"
    and "meta_mut dev b fs = (Inr x, fs')"
  shows "x = lview v fs b \<and> puts dev holds v fs fs' (lview v fs) {b}"
proof (cases "bt_get (tx_meta (f_tx fs)) b")
  case (Some y)
  then show ?thesis using assms by (auto simp: meta_mut_def lview_def puts_def)
next
  case None
  have ci: "cache_is dev holds (f_cache fs) v" using assms(1) by (simp add: vol_def)
  obtain y c where r: "bc_read dev b (f_cache fs) = (Inr y, c)" "x = y" "fs' = put_overlay b y (fs\<lparr>f_cache := c\<rparr>)"
    using assms(5) None
    by (cases "bc_read dev b (f_cache fs)")
      (auto simp: meta_mut_def lift_io_def put_overlay_def bt_get_insert split: if_splits sum.splits)
  note s = bc_read_step [OF ci r(1)]
  have y: "y = v b" using s(2) by simp
  have vol: "vol dev holds v (fs\<lparr>f_cache := c\<rparr>)"
    using vol_cache [OF assms(1)] s(1) by (auto dest: cstep_is cstep_geo)
  have lv: "lview v fs b = y" using None y by (simp add: lview_def)
  have "b < total_blocks (f_geo fs)" using assms(1,4) geo_ok_sizes(1) [of "f_geo fs"] by (simp add: vol_def)
  then have "length y = BLOCK_SIZE" using lview_length [OF assms(1,2)] lv by auto
  then have "puts dev holds v (fs\<lparr>f_cache := c\<rparr>) fs' ((lview v fs)(b := y)) {b}"
    using puts_overlay [OF vol, of y b] assms(2-4) r(3) by simp
  moreover have "(lview v fs)(b := y) = lview v fs" using lv by auto
  ultimately show ?thesis using lv r(2) by (simp add: puts_def meta_step_def)
qed

lemma put_meta_puts:
  assumes "vol dev holds v fs" and "meta_ok fs" and "bbitmap_start (f_geo fs) \<le> b" and "b < backup_sb (f_geo fs)"
    and "length x = BLOCK_SIZE" and "put_meta b x fs = (Inr u, fs')"
  shows "puts dev holds v fs fs' ((lview v fs)(b := x)) {b}"
  using puts_overlay [OF assms(1,2,5,3,4)] assms(6) by (auto simp: put_meta_def split: if_splits)

lemma write_inode_puts:
  assumes "vol dev holds v fs" and "meta_ok fs" and "0 < ino" and "ino \<le> inode_count (f_geo fs)" and "inode_wf node"
    and "write_inode dev ino node fs = (Inr u, fs')"
  shows "\<exists>x. puts dev holds v fs fs' ((lview v fs)(inode_blk (f_geo fs) ino := x)) {inode_blk (f_geo fs) ino} \<and>
    inode_in (f_geo fs) (lview v fs') ino = Some node"
proof -
  let ?g = "f_geo fs"
  let ?b = "inode_blk ?g ino" and ?enc = "inode_encode node"
  have g: "geo_ok ?g" using assms(1) by (simp add: vol_def)
  note loc = inode_loc_eq [OF g assms(3,4)]
  have b: "bbitmap_start ?g \<le> ?b" "?b < backup_sb ?g" "?b < total_blocks ?g"
    using loc(2,3) geo_ok_sizes [OF g] by linarith+
  obtain x fs1 where m: "meta_mut dev ?b fs = (Inr x, fs1)" "fs' = put_overlay ?b (put_slice (inode_off ino) ?enc x) fs1"
    using assms(6) unfolding write_inode_def loc(1) by (auto elim!: bindr_InrE)
  note p = meta_mut_puts [OF assms(1,2) b(1,2) m(1)]
  note p1 = putsD [OF p [THEN conjunct2]]
  let ?x = "put_slice (inode_off ino) ?enc x"
  have lx: "length x = BLOCK_SIZE" using lview_length [OF assms(1,2) b(3)] p by simp
  have "(ino - 1) mod INODES_PER_BLOCK < INODES_PER_BLOCK" by (simp add: layout_consts)
  then have off: "inode_off ino + INODE_SIZE \<le> BLOCK_SIZE" by (simp add: inode_off_def layout_consts)
  have lenc: "length ?enc = INODE_SIZE" by (rule length_inode_encode [OF assms(5)])
  have len: "length ?x = BLOCK_SIZE" using lx off lenc by simp
  have s2: "puts dev holds v fs1 fs' ((lview v fs)(?b := ?x)) {?b}"
    using puts_overlay [OF p1(1,2) len, of ?b] b p1(4,6) m(2) by simp
  have "get_slice (inode_off ino) INODE_SIZE ?x = ?enc" using lx off lenc by simp
  then have "inode_in ?g ((lview v fs)(?b := ?x)) ino = Some node"
    using inode_decode_encode [OF assms(5)] by (simp add: inode_in_def)
  then show ?thesis
    using puts_trans [OF p [THEN conjunct2] s2] putsD(4) [OF s2] by auto
qed

end

subsection \<open>Growing, freeing and writing the chain\<close>

lemma run_blocks_Nil: "runs_ok rs \<Longrightarrow> run_blocks_of rs = [] \<Longrightarrow> rs = []"
  by (cases rs) auto

lemma allocated_one:
  assumes "allocated 1 rs fs fs'"
  shows "\<exists>b. rs = [(b, 1)] \<and> is_data_block fs b \<and> \<not> bits_get (f_bbits fs) b \<and>
    (\<forall>x. bits_get (f_bbits fs') x \<longleftrightarrow> bits_get (f_bbits fs) x \<or> x = b)"
proof -
  have a: "length (run_blocks_of rs) = 1" "runs_ok rs" using assms by (simp_all add: allocated_def)
  then obtain p l rs' where rs: "rs = (p, l) # rs'" by (cases rs) auto
  have "l + length (run_blocks_of rs') = 1" "0 < l" using a by (simp_all add: rs)
  then have "l = 1" "length (run_blocks_of rs') = 0" by linarith+
  then have "rs = [(p, 1)]" using a(2) run_blocks_Nil [of rs'] rs by simp
  then show ?thesis using assms by (auto simp: allocated_def)
qed

text \<open>The allocation of a chain's blocks, one by one.\<close>

definition grown :: "nat list \<Rightarrow> 'd fs3 \<Rightarrow> 'd fs3 \<Rightarrow> bool" where
  "grown new fs fs' \<longleftrightarrow> distinct new \<and> (\<forall>b \<in> set new. is_data_block fs b \<and> \<not> bits_get (f_bbits fs) b) \<and>
     (\<forall>b. bits_get (f_bbits fs') b \<longleftrightarrow> bits_get (f_bbits fs) b \<or> b \<in> set new) \<and> others_same fs fs' \<and> alloc_ok fs'"

lemma grow_chain_grown:
  assumes "alloc_ok fs" and "grow_chain k chain fs = (Inr chain', fs')"
  shows "\<exists>new. chain' = chain @ new \<and> length new = k \<and> grown new fs fs'"
  using assms
proof (induction k arbitrary: chain fs)
  case 0
  then show ?case by (auto simp: grown_def)
next
  case (Suc k)
  obtain h rs fs1 where al: "alloc_blocks 1 h fs = (Inr rs, fs1)" and rec: "grow_chain k (chain @ [fst (hd rs)]) fs1 = (Inr chain', fs')"
    using Suc.prems(2) by (auto simp: Let_def elim!: bindr_InrE)
  have a: "allocated 1 rs fs fs1" using alloc_blocks_cases [OF Suc.prems(1), of 1 h] al by auto
  obtain b where b: "rs = [(b, 1)]" "is_data_block fs b" "\<not> bits_get (f_bbits fs) b"
    "\<forall>x. bits_get (f_bbits fs1) x \<longleftrightarrow> bits_get (f_bbits fs) x \<or> x = b" using allocated_one [OF a] by blast
  have o: "others_same fs fs1" using a by (simp add: allocated_def)
  obtain new where new: "chain' = (chain @ [b]) @ new" "length new = k" "grown new fs1 fs'"
    using Suc.IH [OF alloc_blocks_ok [OF Suc.prems(1) al], of "chain @ [b]"] rec b(1) by auto
  have "is_data_block fs1 x = is_data_block fs x" for x using o by (simp add: is_data_block_def others_same_def)
  then have "grown (b # new) fs fs'"
    using new(3) b(2-4) others_same_trans [OF o] by (auto simp: grown_def)
  then show ?case using new(1,2) by (intro exI [of _ "b # new"]) simp
qed

lemma free_fold:
  "lview v (fold free_meta_block bs fs) b = (if b \<in> set bs then v b else lview v fs b)"
  "vol dev holds v (fold free_meta_block bs fs) = vol dev holds v fs"
  "overlaid_blocks (fold free_meta_block bs fs) = overlaid_blocks fs - set bs"
  "f_geo (fold free_meta_block bs fs) = f_geo fs" "f_bbits (fold free_meta_block bs fs) = f_bbits fs"
  "f_ibits (fold free_meta_block bs fs) = f_ibits fs" "f_poisoned (fold free_meta_block bs fs) = f_poisoned fs"
  "tx_to_free (f_tx (fold free_meta_block bs fs)) = tx_to_free (f_tx fs) @ map (\<lambda>b. (b, 1)) bs"
  "meta_ok fs \<Longrightarrow> meta_ok (fold free_meta_block bs fs)"
proof (induction bs arbitrary: fs)
  case (Cons a bs)
  { case 1 show ?case using Cons(1) [of "free_meta_block a fs"] by (auto simp: lview_def free_meta_block_def bt_get_remove)
  next case 2 show ?case using Cons(2) [of "free_meta_block a fs"] by (simp add: vol_def free_meta_block_def)
  next case 3 show ?case using Cons(3) [of "free_meta_block a fs"] by (auto simp: free_meta_block_def bt_get_remove split: if_splits)
  next case 4 show ?case using Cons(4) [of "free_meta_block a fs"] by (simp add: free_meta_block_def)
  next case 5 show ?case using Cons(5) [of "free_meta_block a fs"] by (simp add: free_meta_block_def)
  next case 6 show ?case using Cons(6) [of "free_meta_block a fs"] by (simp add: free_meta_block_def)
  next case 7 show ?case using Cons(7) [of "free_meta_block a fs"] by (simp add: free_meta_block_def)
  next case 8 show ?case using Cons(8) [of "free_meta_block a fs"] by (simp add: free_meta_block_def)
  next case 9
    then have "meta_ok (free_meta_block a fs)"
      by (auto simp: meta_ok_def free_meta_block_def bt_get_remove bt_inv_remove split: if_splits)
    then show ?case using Cons(9) by simp }
qed (simp_all)

context block_device
begin

lemma meta_get_value:
  assumes "vol dev holds v fs" and "meta_get dev b fs = (Inr x, fs')"
  shows "x = lview v fs b \<and> (\<exists>c. fs' = fs\<lparr>f_cache := c\<rparr> \<and> vol dev holds v fs')"
proof (cases "bt_get (tx_meta (f_tx fs)) b")
  case (Some y)
  then show ?thesis using assms by (auto simp: meta_get_def lview_def intro: exI [of _ "f_cache fs"])
next
  case None
  have ci: "cache_is dev holds (f_cache fs) v" using assms(1) by (simp add: vol_def)
  obtain c where r: "bc_get dev b (f_cache fs) = (Inr x, c)" "fs' = fs\<lparr>f_cache := c\<rparr>"
    using assms(2) None by (cases "bc_get dev b (f_cache fs)") (auto simp: meta_get_def lift_io_def split: sum.splits)
  show ?thesis
    using bc_get_step [OF ci r(1)] vol_cache [OF assms(1)] r(2) None by (auto simp: lview_def dest: cstep_is cstep_geo)
qed

lemma put_chain_puts:
  assumes "vol dev holds v fs" and "meta_ok fs" and "distinct blks" and "\<And>i. length (chain_img ino rest chain i) = BLOCK_SIZE"
    and "\<And>b. b \<in> set blks \<Longrightarrow> bbitmap_start (f_geo fs) \<le> b \<and> b < backup_sb (f_geo fs)"
    and "put_chain dev ino nold rest chain i blks fs = (Inr u, fs')"
  shows "\<exists>V. puts dev holds v fs fs' V (set blks) \<and> (\<forall>k < length blks. V (blks ! k) = chain_img ino rest chain (i + k)) \<and>
    (\<forall>b. b \<notin> set blks \<longrightarrow> V b = lview v fs b)"
  using assms(1-3,5,6)
proof (induction blks arbitrary: i fs)
  case Nil
  then show ?case by (auto simp: puts_def)
next
  case (Cons b blks)
  let ?img = "chain_img ino rest chain i"
  have b: "bbitmap_start (f_geo fs) \<le> b" "b < backup_sb (f_geo fs)" using Cons.prems(4) [of b] by auto
  obtain same fs1 fs2 where st: "(if i < nold then bindr (meta_get dev b fs) (\<lambda>x fs. (Inr (x = ?img), fs)) else (Inr False, fs)) = (Inr same, fs1)"
      "(if \<not> same then put_meta b ?img fs1 else (Inr (), fs1)) = (Inr (), fs2)"
      "put_chain dev ino nold rest chain (i + 1) blks fs2 = (Inr u, fs')"
    using Cons.prems(5) unfolding put_chain.simps Let_def chain_img_def [symmetric] by (elim bindr_InrE) simp
  have s1: "vol dev holds v fs1 \<and> meta_ok fs1 \<and> f_geo fs1 = f_geo fs \<and> lview v fs1 = lview v fs \<and> (same \<longrightarrow> lview v fs b = ?img) \<and>
      meta_step fs fs1 \<and> overlaid_blocks fs1 = overlaid_blocks fs"
    using st(1) Cons.prems(1,2) by (auto split: if_splits elim!: bindr_InrE dest!: meta_get_value [OF Cons.prems(1)])
  have s2: "puts dev holds v fs fs2 ((lview v fs)(b := ?img)) {b}"
  proof (cases same)
    case True
    then have "(lview v fs)(b := ?img) = lview v fs" using s1 by auto
    then show ?thesis using True st(2) s1 by (auto simp: puts_def)
  next
    case False
    then have "put_meta b ?img fs1 = (Inr (), fs2)" using st(2) by simp
    from put_meta_puts [OF _ _ _ _ assms(4) this, of v] s1 b show ?thesis
      by (auto simp: puts_def intro: meta_step_trans)
  qed
  note p2 = putsD [OF s2]
  obtain V where V: "puts dev holds v fs2 fs' V (set blks)" "\<forall>k < length blks. V (blks ! k) = chain_img ino rest chain (i + 1 + k)"
    "\<forall>x. x \<notin> set blks \<longrightarrow> V x = lview v fs2 x"
    using Cons.IH [OF p2(1,2) _ _ st(3)] Cons.prems(3,4) p2(6) by auto
  have "puts dev holds v fs fs' V (set (b # blks))" using puts_trans [OF s2 V(1)] by simp
  moreover have "V ((b # blks) ! k) = chain_img ino rest chain (i + k)" if "k < length (b # blks)" for k
    using that V(2,3) Cons.prems(3) p2(4) by (cases k) auto
  moreover have "V x = lview v fs x" if "x \<notin> set (b # blks)" for x
    using that V(3) p2(4) by simp
  ultimately show ?case by blast
qed

end

subsection \<open>Storing an extent list\<close>

definition head_or :: "nat list \<Rightarrow> nat" where
  "head_or xs = (if xs = [] then 0 else hd xs)"

definition set_exts :: "extent list \<Rightarrow> nat list \<Rightarrow> inode \<Rightarrow> inode" where
  "set_exts exts chain node =
     node\<lparr>i_nblocks := sum_list (map elen exts), i_nextents := length exts,
       i_inline := take INLINE_EXTENTS exts @ replicate (INLINE_EXTENTS - length exts) extent_default,
       i_ext_chain := head_or chain\<rparr>"

definition stored :: "'d blockdevice \<Rightarrow> ('d \<Rightarrow> (nat \<Rightarrow> bytes) \<Rightarrow> bool) \<Rightarrow> (nat \<Rightarrow> bytes) \<Rightarrow> nat \<Rightarrow> extent list \<Rightarrow>
    nat list \<Rightarrow> nat list \<Rightarrow> nat list \<Rightarrow> 'd fs3 \<Rightarrow> 'd fs3 \<Rightarrow> bool" where
  "stored dev holds v ino exts kept dropped new fs fs' \<longleftrightarrow>
     vol dev holds v fs' \<and> meta_ok fs' \<and> f_geo fs' = f_geo fs \<and> f_ibits fs' = f_ibits fs \<and> f_poisoned fs' = f_poisoned fs \<and>
     (\<forall>b. bits_get (f_bbits fs') b \<longleftrightarrow> bits_get (f_bbits fs) b \<or> b \<in> set new) \<and>
     (\<forall>b \<in> set new. is_data_block fs b \<and> \<not> bits_get (f_bbits fs) b) \<and> distinct new \<and>
     tx_to_free (f_tx fs') = tx_to_free (f_tx fs) @ map (\<lambda>b. (b, 1)) dropped \<and>
     overlaid_blocks fs' \<subseteq> overlaid_blocks fs \<union> set kept \<union> set new \<and>
     (\<forall>b. b \<notin> set kept \<union> set dropped \<union> set new \<longrightarrow> lview v fs' b = lview v fs b) \<and>
     length (kept @ new) = div_ceil (length exts - INLINE_EXTENTS) EXTENTS_PER_BLOCK \<and>
     chain_in (f_geo fs) (lview v fs') ino (kept @ new) (drop INLINE_EXTENTS exts) (head_or (kept @ new))"

lemma length_chain_img: "length (chain_img ino rest chain i) = BLOCK_SIZE"
proof -
  have p: "length (chain_part rest i) \<le> EXTENTS_PER_BLOCK" by (simp add: chain_part_eq)
  note f = ext_image_fields [OF p refl]
  show ?thesis
    unfolding chain_img_def f(1) Let_def using f(2) by (simp add: length_put_all BLOCK_SIZE_def)
qed

context reliable_device
begin

lemma store_extents_stored:
  assumes "vol dev holds v fs" and "meta_ok fs" and "alloc_ok fs" and "exts_in (f_geo fs) (lview v fs) ino node0 exts0 chain0"
    and "i_ext_chain node = i_ext_chain node0" and "distinct chain0" and "\<forall>b \<in> set chain0. bits_get (f_bbits fs) b"
    and "list_all extent_wf exts" and "ino < 2 ^ 32" and "store_extents dev ino node exts fs = (Inr node', fs')"
  shows "\<exists>kept dropped new. chain0 = kept @ dropped \<and> node' = set_exts exts (kept @ new) node \<and>
    sum_list (map elen exts) \<le> u32_max \<and> length exts \<le> u32_max \<and> stored dev holds v ino exts kept dropped new fs fs'"
proof -
  let ?g = "f_geo fs" and ?rest = "drop INLINE_EXTENTS exts"
  let ?need = "div_ceil (length exts - INLINE_EXTENTS) EXTENTS_PER_BLOCK"
  let ?kept = "take ?need chain0" and ?dropped = "drop ?need chain0"
  have g: "geo_ok ?g" using assms(1) by (simp add: vol_def)
  have dr: "drop (min (length exts) INLINE_EXTENTS) exts = ?rest" by (simp add: min_def)
  have walk: "yields dev holds v fs (walk_chain dev ino (i_ext_chain node) fs) (Inr chain0)"
    using gets_walk_chain [OF assms(1,4)] assms(5) by simp
  then obtain c where c: "walk_chain dev ino (i_ext_chain node) fs = (Inr chain0, fs\<lparr>f_cache := c\<rparr>)" "vol dev holds v (fs\<lparr>f_cache := c\<rparr>)"
    using assms(1) by (rule yieldsE)
  let ?fs1 = "fs\<lparr>f_cache := c\<rparr>"
  obtain chain fs2 where gr: "grow_chain (?need - length ?kept) ?kept ?fs1 = (Inr chain, fs2)"
      and pc: "put_chain dev ino (length chain0) ?rest chain 0 chain (fold free_meta_block ?dropped fs2) = (Inr (), fs')"
      and lim: "sum_list (map elen exts) \<le> u32_max" "length exts \<le> u32_max" and node': "node' = set_exts exts chain node"
    using assms(10) c(1) dr unfolding store_extents_def Let_def set_exts_def head_or_def
    by (auto simp: min_def elim!: bindr_InrE split: if_splits)
  have ok1: "alloc_ok ?fs1" using assms(3) by (simp add: alloc_ok_def)
  obtain new where new: "chain = ?kept @ new" "length new = ?need - length ?kept" "grown new ?fs1 fs2"
    using grow_chain_grown [OF ok1 gr] by blast
  have nw: "distinct new" "\<And>b. b \<in> set new \<Longrightarrow> is_data_block fs b \<and> \<not> bits_get (f_bbits fs) b"
    "\<And>b. bits_get (f_bbits fs2) b \<longleftrightarrow> bits_get (f_bbits fs) b \<or> b \<in> set new" and o: "others_same ?fs1 fs2" "alloc_ok fs2"
    using new(3) by (auto simp: grown_def is_data_block_def)
  let ?fs3 = "fold free_meta_block ?dropped fs2"
  have sel2: "f_geo fs2 = ?g" "f_ibits fs2 = f_ibits fs" "f_poisoned fs2 = f_poisoned fs" "tx_to_free (f_tx fs2) = tx_to_free (f_tx fs)"
    "lview v fs2 = lview v fs" "overlaid_blocks fs2 = overlaid_blocks fs" "vol dev holds v fs2" "meta_ok fs2"
    using o(1) c(2) assms(2) by (auto simp: others_same_def lview_def fun_eq_iff vol_def meta_ok_def)
  have v3: "vol dev holds v ?fs3" "meta_ok ?fs3" using sel2(7,8) free_fold(2) [of dev holds v ?dropped fs2] free_fold(9) [of fs2] by simp_all
  have disj: "set new \<inter> set chain0 = {}" using nw(2) assms(7) by auto
  have dis: "distinct chain" using new(1) nw(1) assms(6) disj by (auto dest: in_set_takeD)
  have range0: "data_start ?g \<le> b \<and> b < backup_sb ?g" if "b \<in> set chain0" for b
    using assms(4) that by (auto simp: exts_in_def dest: chain_in_range)
  have range: "data_start ?g \<le> b \<and> b < backup_sb ?g \<and> b < 2 ^ 32" if "b \<in> set chain" for b
    using that range0 nw(2) new(1) geo_ok_sizes(1,4) [OF g] by (fastforce simp: is_data_block_def dest: in_set_takeD)
  have "bbitmap_start (f_geo ?fs3) \<le> b \<and> b < backup_sb (f_geo ?fs3)" if "b \<in> set chain" for b
    using range [OF that] geo_ok_sizes(3,6,7) [OF g] by (simp add: free_fold(4) sel2)
  from put_chain_puts [OF v3 dis length_chain_img this pc]
  obtain V where V: "puts dev holds v ?fs3 fs' V (set chain)" "\<forall>k < length chain. V (chain ! k) = chain_img ino ?rest chain k"
    "\<forall>b. b \<notin> set chain \<longrightarrow> V b = lview v ?fs3 b" by auto
  note p = putsD [OF V(1)]
  have len: "length chain = div_ceil (length ?rest) EXTENTS_PER_BLOCK" using new(1,2) by simp
  have wf: "list_all extent_wf ?rest" using assms(8) by (auto simp: list_all_iff dest: in_set_dropD)
  have "chain_in ?g V ino chain ?rest (if 0 < length chain then chain ! 0 else 0)"
    using chain_in_images [OF wf assms(9) len range, of V 0] V(2) by simp
  then have ch: "chain_in ?g V ino chain ?rest (head_or chain)" by (auto simp: head_or_def hd_conv_nth)
  have "stored dev holds v ino exts ?kept ?dropped new fs fs'"
    unfolding stored_def
  proof (intro conjI allI impI ballI)
    show "f_geo fs' = ?g" "f_ibits fs' = f_ibits fs" "f_poisoned fs' = f_poisoned fs"
      "\<And>b. bits_get (f_bbits fs') b \<longleftrightarrow> bits_get (f_bbits fs) b \<or> b \<in> set new"
      "tx_to_free (f_tx fs') = tx_to_free (f_tx fs) @ map (\<lambda>b. (b, 1)) ?dropped"
      using p(3) nw(3) sel2 by (simp_all add: meta_step_def free_fold)
    show "overlaid_blocks fs' \<subseteq> overlaid_blocks fs \<union> set ?kept \<union> set new"
      using p(5) new(1) sel2(6) by (auto simp: free_fold(3))
    show "lview v fs' b = lview v fs b" if "b \<notin> set ?kept \<union> set ?dropped \<union> set new" for b
      using that V(3) p(4) new(1) sel2(5) by (simp add: free_fold(1))
    show "length (?kept @ new) = ?need" using new(2) by simp
    show "chain_in ?g (lview v fs') ino (?kept @ new) ?rest (head_or (?kept @ new))" using ch p(4) new(1) by simp
  qed (use p nw in auto)
  then show ?thesis using lim node' new(1) by (intro exI [of _ ?kept] exI [of _ ?dropped] exI [of _ new]) simp
qed

end

end
