(* ===== verification/Commit.thy ===== *)
theory Commit
  imports Store
begin

text \<open>
  What a successful commit leaves: the blocks of the overlay in their places, the freed blocks free,
  every other block outside the journal and the bitmaps as it was.
\<close>

subsection \<open>The bitmap blocks a transaction has touched\<close>

definition touched_ok :: "'d fs3 \<Rightarrow> bool" where
  "touched_ok fs \<longleftrightarrow> (\<forall>i \<in> set (tx_touched_bb (f_tx fs)). i < bbitmap_blocks (f_geo fs)) \<and>
     (\<forall>i \<in> set (tx_touched_ib (f_tx fs)). i < ibitmap_blocks (f_geo fs))"

lemma set_fold_bs_insert: "set (fold bs_insert xs s) = set xs \<union> set s"
  by (induction xs arbitrary: s) (auto simp: bs_insert_set)

lemma bitmap_block_bound:
  assumes "b < n" and "m = div_ceil n BITS_PER_BITMAP_BLOCK"
  shows "b div BITS_PER_BITMAP_BLOCK < m"
proof -
  have "n \<le> m * BITS_PER_BITMAP_BLOCK" using div_ceil_bounds(1) [of BITS_PER_BITMAP_BLOCK n] by (simp add: assms(2) layout_consts)
  then show ?thesis using assms(1) by (simp add: less_mult_imp_div_less)
qed

lemma mark_range_touched:
  assumes "mark_range s l used fs = (r, fs')"
  shows "f_geo fs' = f_geo fs" and "tx_touched_ib (f_tx fs') = tx_touched_ib (f_tx fs)"
    and "i \<in> set (tx_touched_bb (f_tx fs')) \<Longrightarrow> i \<in> set (tx_touched_bb (f_tx fs)) \<or>
      0 < l \<and> s + l \<le> backup_sb (f_geo fs) \<and> i \<le> (s + l - 1) div BITS_PER_BITMAP_BLOCK"
proof -
  define t where "t = fold bs_insert [s div BITS_PER_BITMAP_BLOCK..<(s + l - 1) div BITS_PER_BITMAP_BLOCK + 1] (tx_touched_bb (f_tx fs))"
  have st: "i \<in> set t \<Longrightarrow> i \<in> set (tx_touched_bb (f_tx fs)) \<or> i \<le> (s + l - 1) div BITS_PER_BITMAP_BLOCK"
    by (auto simp: t_def set_fold_bs_insert less_Suc_eq_le)
  have "fs' = fs \<or> 0 < l \<and> s + l \<le> backup_sb (f_geo fs) \<and> f_geo fs' = f_geo fs \<and>
      tx_touched_ib (f_tx fs') = tx_touched_ib (f_tx fs) \<and> tx_touched_bb (f_tx fs') = t"
    using assms unfolding mark_range_def Let_def checked_add_def t_def
    by (simp only: split: if_splits option.splits) (auto simp: not_less)
  then show "f_geo fs' = f_geo fs" and "tx_touched_ib (f_tx fs') = tx_touched_ib (f_tx fs)"
    and "i \<in> set (tx_touched_bb (f_tx fs')) \<Longrightarrow> i \<in> set (tx_touched_bb (f_tx fs)) \<or>
      0 < l \<and> s + l \<le> backup_sb (f_geo fs) \<and> i \<le> (s + l - 1) div BITS_PER_BITMAP_BLOCK"
    using st by auto
qed

lemma touched_mark_range:
  assumes "geo_ok (f_geo fs)" and "touched_ok fs" and "mark_range s l used fs = (r, fs')"
  shows "touched_ok fs' \<and> f_geo fs' = f_geo fs"
proof -
  have "i < bbitmap_blocks (f_geo fs)" if i: "i \<in> set (tx_touched_bb (f_tx fs'))" for i
  proof (cases "i \<in> set (tx_touched_bb (f_tx fs))")
    case False
    then have l: "0 < l" "s + l \<le> backup_sb (f_geo fs)" "i \<le> (s + l - 1) div BITS_PER_BITMAP_BLOCK"
      using mark_range_touched(3) [OF assms(3) i] by auto
    have "s + l - 1 < total_blocks (f_geo fs)" using l geo_ok_sizes(1) [OF assms(1)] by linarith
    then have "(s + l - 1) div BITS_PER_BITMAP_BLOCK < bbitmap_blocks (f_geo fs)"
      by (rule bitmap_block_bound) (use assms(1) in \<open>simp add: geo_ok_def\<close>)
    then show ?thesis using l(3) by linarith
  qed (use assms(2) in \<open>simp add: touched_ok_def\<close>)
  then show ?thesis
    using assms(2) mark_range_touched(1,2) [OF assms(3)] by (simp add: touched_ok_def)
qed

lemma touched_mark_runs:
  "geo_ok (f_geo fs) \<Longrightarrow> touched_ok fs \<Longrightarrow> mark_runs rs used fs = (r, fs') \<Longrightarrow> touched_ok fs' \<and> f_geo fs' = f_geo fs"
proof (induction rs arbitrary: fs)
  case (Cons a rs)
  obtain s l where a: "a = (s, l)" by (cases a)
  obtain r1 fs1 where m: "mark_range s l used fs = (r1, fs1)" by fastforce
  note t = touched_mark_range [OF Cons.prems(1,2) m]
  show ?case using Cons.prems(3) Cons.IH [of fs1] t m Cons.prems(1) by (cases r1) (auto simp: a)
qed simp

lemma touched_alloc:
  assumes "geo_ok (f_geo fs)" and "touched_ok fs" and "alloc_blocks n h fs = (r, fs')"
  shows "touched_ok fs'"
proof -
  have hint: "touched_ok (fs\<lparr>f_alloc_hint := x\<rparr>) = touched_ok fs" for x and fs :: "'a fs3" by (simp add: touched_ok_def)
  have one: "touched_ok fs'" if "bindr (mark_range s l True fs) (\<lambda>_ fs. (Inr z, fs\<lparr>f_alloc_hint := x\<rparr>)) = (r, fs')" for s l z x
    using that touched_mark_range [OF assms(1,2), of s l True]
    by (cases "mark_range s l True fs") (auto simp: bindr_def hint split: sum.splits)
  have many: "touched_ok fs'" if "bindr (mark_runs rs True fs) (\<lambda>_ fs. (Inr z, if rs = [] then fs else fs\<lparr>f_alloc_hint := x\<rparr>)) = (r, fs')" for rs z x
    using that touched_mark_runs [OF assms(1,2), of rs True]
    by (cases "mark_runs rs True fs") (auto simp: bindr_def hint split: sum.splits if_splits)
  show ?thesis
    using assms(2,3) unfolding alloc_blocks_def Let_def
    by (auto simp del: take_runs.simps split: if_splits option.splits prod.splits intro: one many)
qed

lemma touched_other [simp]:
  "touched_ok (fs\<lparr>f_cache := c\<rparr>) = touched_ok fs" "touched_ok (put_overlay b img fs) = touched_ok fs"
  "touched_ok (free_meta_block b fs) = touched_ok fs" "touched_ok (drop_overlay p l fs) = touched_ok fs"
  by (simp_all add: touched_ok_def put_overlay_def free_meta_block_def drop_overlay_def)

interpretation touched: tx_invariant dev "\<lambda>fs. tx_inv fs0 fs \<and> touched_ok fs" False
  for dev :: "'d blockdevice" and fs0 :: "'d fs3"
proof (unfold_locales, goal_cases)
  case (9 fs b img) then show ?case by (simp add: tx_inv_overlay)
next
  case (10 fs b) then show ?case by (simp add: tx_inv_free_meta)
next
  case (11 fs p l) then show ?case by (simp add: tx_inv_drop)
next
  case (13 fs n h)
  then show ?case
    using tx_inv_alloc [of fs0 fs n h] touched_alloc [of fs n h "fst (alloc_blocks n h fs)" "snd (alloc_blocks n h fs)"]
    by (simp add: ends_def tx_inv_def alloc_ok_def Let_def)
next
  case (14 fs n h runs fs')
  then have "touched_ok fs'" using touched_alloc [of fs n h] by (auto simp: tx_inv_def alloc_ok_def Let_def)
  then show ?case using tx_inv_alloc [of fs0 fs n h] 14 by (simp add: touched_ok_def)
next
  case (15 fs h runs fs')
  then have "touched_ok fs'" using touched_alloc [of fs 1 h] by (auto simp: tx_inv_def alloc_ok_def Let_def)
  then show ?case using tx_inv_alloc [of fs0 fs 1 h] 15 by (simp add: touched_ok_def)
next
  case (17 fs)
  have g: "geo_ok (f_geo fs)" "length (f_ibits fs) = div_ceil (inode_count (f_geo fs)) 64" using 17 by (auto simp: tx_inv_def alloc_ok_def Let_def)
  have len: "inode_count (f_geo fs) \<le> 64 * length (f_ibits fs)" "inode_count (f_geo fs) < 2 ^ 32"
    using g div_ceil_bounds(1) [of 64 "inode_count (f_geo fs)"] geo_ok_sizes(5) [OF g(1)] by (auto simp: mult.commute)
  have "touched_ok (snd (alloc_inode fs))"
  proof (cases "next_free (f_ibits fs) 0 (inode_count (f_geo fs))")
    case (Some i)
    then have "i < inode_count (f_geo fs)" using next_free_Some(2) [OF len] by blast
    then have "i div BITS_PER_BITMAP_BLOCK < ibitmap_blocks (f_geo fs)"
      using bitmap_block_bound [of i "inode_count (f_geo fs)"] g(1) by (simp add: geo_ok_def)
    then show ?thesis using Some 17 by (simp add: alloc_inode_def touched_ok_def bs_insert_set)
  qed (use 17 in \<open>simp add: alloc_inode_def\<close>)
  then show ?case using 17 tx_inv_alloc_inode [of fs0 fs] by (simp add: ends_def)
next
  case (18 fs ino loc)
  have g: "geo_ok (f_geo fs)" using 18(1) by (auto simp: tx_inv_def alloc_ok_def Let_def)
  have "ino - 1 < inode_count (f_geo fs)" using 18(4) by (auto simp: inode_loc_def split: if_splits)
  then have "(ino - 1) div BITS_PER_BITMAP_BLOCK < ibitmap_blocks (f_geo fs)"
    using bitmap_block_bound [of "ino - 1" "inode_count (f_geo fs)"] g by (simp add: geo_ok_def)
  then show ?case
    using tx_inv_free_inode [OF _ 18(2-5)] 18(1) by (simp add: touched_ok_def bs_insert_set)
qed (simp_all add: touched_ok_def)

subsection \<open>Before the journal\<close>

lemma mark_runs_clear:
  assumes "mark_runs rs False fs = (Inr u, fs')" and "backup_sb (f_geo fs) \<le> 64 * length (f_bbits fs)"
  shows "others_same fs fs' \<and> (\<forall>b. bits_get (f_bbits fs') b \<longleftrightarrow> bits_get (f_bbits fs) b \<and> b \<notin> runs_in rs)"
  using assms
proof (induction rs arbitrary: fs)
  case (Cons r rs)
  obtain s l where r: "r = (s, l)" by (cases r)
  obtain fs1 where m: "mark_range s l False fs = (Inr (), fs1)" and rec: "mark_runs rs False fs1 = (Inr u, fs')"
    using Cons.prems(1) by (auto simp: r elim!: bindr_InrE)
  note e = mark_range_effect [OF m Cons.prems(2)]
  have "backup_sb (f_geo fs1) \<le> 64 * length (f_bbits fs1)" using e(1) Cons.prems(2) by (simp add: others_same_def)
  from Cons.IH [OF rec this] show ?case using e(1,2) others_same_trans [OF e(1)] by (auto simp: r)
qed simp

lemma length_bitmap_image: "length (bitmap_image bits i) = BLOCK_SIZE"
proof -
  have "length (fold (\<lambda>k b. put_slice (8 + 8 * k) (le_bytes 8 (f k)) b) ks b) = length b"
    if "\<forall>k \<in> set ks. 16 + 8 * k \<le> length b" for f ks and b :: bytes
    using that by (induction ks arbitrary: b) simp_all
  then show ?thesis by (simp add: bitmap_image_def Let_def layout_consts BITMAP_WORDS_PER_BLOCK_def)
qed

context block_device
begin

lemma put_images_puts:
  assumes "vol dev holds v fs" and "meta_ok fs" and "\<And>i. i \<in> set is \<Longrightarrow> bbitmap_start (f_geo fs) \<le> at i \<and> at i < itable_start (f_geo fs)"
    and "put_images at bits is fs = (Inr u, fs')"
  shows "\<exists>V. puts dev holds v fs fs' V {..<itable_start (f_geo fs)} \<and> (\<forall>b \<ge> itable_start (f_geo fs). V b = lview v fs b)"
  using assms
proof (induction "is" arbitrary: fs)
  case Nil
  then show ?case by (auto simp: puts_def)
next
  case (Cons i "is")
  obtain fs1 where p: "put_meta (at i) (bitmap_image (bits fs) i) fs = (Inr (), fs1)" and rec: "put_images at bits is fs1 = (Inr u, fs')"
    using Cons.prems(4) by (auto elim!: bindr_InrE)
  have g: "geo_ok (f_geo fs)" using Cons.prems(1) by (simp add: vol_def)
  have i: "bbitmap_start (f_geo fs) \<le> at i" "at i < itable_start (f_geo fs)" using Cons.prems(3) by auto
  have "at i < backup_sb (f_geo fs)" using i geo_ok_sizes(2,3) [OF g] by linarith
  note s = put_meta_puts [OF Cons.prems(1,2) i(1) this length_bitmap_image p]
  note q = putsD [OF s]
  obtain V where V: "puts dev holds v fs1 fs' V {..<itable_start (f_geo fs)}" "\<forall>b \<ge> itable_start (f_geo fs). V b = lview v fs1 b"
    using Cons.IH [OF q(1,2) _ rec] Cons.prems(3) q(6) by auto
  have "puts dev holds v fs fs' V {..<itable_start (f_geo fs)}"
    using puts_trans [OF s V(1)] i(2) by (auto simp: puts_def)
  then show ?case using V(2) q(4) i(2) by (intro exI [of _ V]) auto
qed

text \<open>After \<open>prepare_commit\<close> the overlay holds the bitmaps too and the freed blocks are free.\<close>

lemma prepare_commit_effect:
  assumes "vol dev holds v fs" and "meta_ok fs" and "touched_ok fs" and "backup_sb (f_geo fs) \<le> 64 * length (f_bbits fs)"
    and "prepare_commit fs = (Inr u, fs')"
  shows "vol dev holds v fs' \<and> meta_ok fs' \<and> f_geo fs' = f_geo fs \<and> f_ibits fs' = f_ibits fs \<and> f_poisoned fs' = f_poisoned fs \<and>
    (\<forall>b. bits_get (f_bbits fs') b \<longleftrightarrow> bits_get (f_bbits fs) b \<and> b \<notin> runs_in (tx_to_free (f_tx fs))) \<and>
    (\<forall>b \<ge> itable_start (f_geo fs). lview v fs' b = lview v fs b) \<and> length (tx_meta (f_tx fs')) \<le> journal_blocks (f_geo fs)"
proof -
  let ?g = "f_geo fs" and ?fs0 = "tx_upd (\<lambda>t. t\<lparr>tx_to_free := []\<rparr>) fs"
  have g: "geo_ok ?g" using assms(1) by (simp add: vol_def)
  obtain fs1 fs2 where m: "mark_runs (tx_to_free (f_tx fs)) False ?fs0 = (Inr (), fs1)"
    and p1: "put_images (\<lambda>i. u32_add (bbitmap_start (f_geo fs1)) i) f_bbits (tx_touched_bb (f_tx fs1)) fs1 = (Inr (), fs2)"
    and p2: "put_images (\<lambda>i. u32_add (ibitmap_start (f_geo fs2)) i) f_ibits (tx_touched_ib (f_tx fs2)) fs2 = (Inr (), fs')"
    and len: "length (tx_meta (f_tx fs')) \<le> journal_blocks (f_geo fs')"
    using assms(5) unfolding prepare_commit_def Let_def by (auto elim!: bindr_InrE split: if_splits)
  have t1: "touched_ok fs1" "f_geo fs1 = ?g"
    using touched_mark_runs [OF _ _ m] g assms(3) by (auto simp: touched_ok_def)
  note cl = mark_runs_clear [OF m, simplified, OF assms(4)]
  have s1: "vol dev holds v fs1" "meta_ok fs1" "lview v fs1 = lview v fs" "f_ibits fs1 = f_ibits fs" "f_poisoned fs1 = f_poisoned fs"
    using cl assms(1,2) by (auto simp: others_same_def vol_def meta_ok_def lview_def fun_eq_iff)
  have small: "u32_add a i = a + i" if "a + i < itable_start ?g" for a i
    using that geo_ok_sizes(1-4) [OF g] by simp
  have r1: "bbitmap_start (f_geo fs1) \<le> u32_add (bbitmap_start (f_geo fs1)) i \<and> u32_add (bbitmap_start (f_geo fs1)) i < itable_start (f_geo fs1)"
    if "i \<in> set (tx_touched_bb (f_tx fs1))" for i
  proof -
    have "bbitmap_start ?g + i < itable_start ?g" using t1 that geo_ok_sizes(6,7) [OF g] by (fastforce simp: touched_ok_def)
    then show ?thesis using small [of "bbitmap_start ?g" i] t1(2) by simp
  qed
  obtain V1 where V1: "puts dev holds v fs1 fs2 V1 {..<itable_start ?g}" "\<forall>b \<ge> itable_start ?g. V1 b = lview v fs b"
    using put_images_puts [OF s1(1,2) r1 p1] s1(3) t1(2) by auto
  note q1 = putsD [OF V1(1)]
  have same_touched: "tx_touched_ib (f_tx fs2) = tx_touched_ib (f_tx fs1)"
  proof -
    have "tx_touched_ib (f_tx b) = tx_touched_ib (f_tx a)" if "put_images at bits is a = (Inr u, b)" for at bits "is" u and a b :: "'a fs3"
      using that by (induction "is" arbitrary: a) (auto simp: put_meta_def put_overlay_def elim!: bindr_InrE split: if_splits)
    from this [OF p1] show ?thesis .
  qed
  have g2: "f_geo fs2 = ?g" using q1(6) t1(2) by simp
  have r2: "bbitmap_start (f_geo fs2) \<le> u32_add (ibitmap_start (f_geo fs2)) i \<and> u32_add (ibitmap_start (f_geo fs2)) i < itable_start (f_geo fs2)"
    if "i \<in> set (tx_touched_ib (f_tx fs2))" for i
  proof -
    have "i < ibitmap_blocks ?g" using t1 that same_touched by (simp add: touched_ok_def)
    then have "ibitmap_start ?g + i < itable_start ?g" "bbitmap_start ?g \<le> ibitmap_start ?g + i" using geo_ok_sizes(6,7) [OF g] by linarith+
    then show ?thesis using small [of "ibitmap_start ?g" i] g2 by simp
  qed
  obtain V2 where V2: "puts dev holds v fs2 fs' V2 {..<itable_start ?g}" "\<forall>b \<ge> itable_start ?g. V2 b = lview v fs2 b"
    using put_images_puts [OF q1(1,2) r2 p2] g2 by auto
  note q2 = putsD [OF V2(1)]
  show ?thesis
    using q1(3,4) q2 V1(2) V2(2) cl s1(4,5) g2 t1(2) len by (auto simp: meta_step_def)
qed

subsection \<open>The commit\<close>

lemma write_journal_effect:
  assumes "vol dev holds v fs" and "meta_ok fs" and "tx_meta (f_tx fs) \<noteq> []" and "length (tx_meta (f_tx fs)) \<le> journal_blocks (f_geo fs)"
    and "write_journal dev fs = (Inr u, fs')"
  shows "\<exists>v' c s. fs' = fs\<lparr>f_cache := c, f_seq := s\<rparr> \<and> vol dev holds v' fs' \<and> (\<forall>b \<ge> bbitmap_start (f_geo fs). v' b = lview v fs b)"
proof -
  let ?g = "f_geo fs" and ?m = "tx_meta (f_tx fs)"
  let ?T = "bt_keys ?m" and ?B = "bt_values ?m" and ?seq = "(f_seq fs + 1) mod 2 ^ 64"
  have g: "geo_ok ?g" and ci: "cache_is dev holds (f_cache fs) v" "total_blocks ?g \<le> nblocks (f_cache fs)" using assms(1) by (auto simp: vol_def)
  have bi: "bt_inv ?m" using assms(2) by (simp add: meta_ok_def)
  have mem: "(b, x) \<in> set ?m \<Longrightarrow> length x = BLOCK_SIZE \<and> bbitmap_start ?g \<le> b \<and> b < backup_sb ?g" for b x
    using assms(2) bt_get_iff [OF bi] by (auto simp: meta_ok_def)
  have tx: "tx_ok ?g ?T ?B"
    using assms(3,4) bt_inv_distinct [OF bi] mem by (auto simp: tx_ok_def in_range_def list_all_iff)
  obtain c where j: "journal_steps dev ?g ?seq ?T ?B (f_cache fs) = (Inr (), c)" "fs' = fs\<lparr>f_cache := c, f_seq := ?seq\<rparr>"
    using assms(5) by (cases "journal_steps dev ?g ?seq ?T ?B (f_cache fs)")
      (auto simp: write_journal_def Let_def lift_io_def split: sum.splits)
  let ?v1 = "(vput (payload_writes ?g ?B) v)(jhdr ?g := build_journal_header ?seq ?T ?B)"
  let ?v2 = "(vput (home_writes ?T ?B) ?v1)(jhdr ?g := build_journal_header ?seq [] [])"
  note cs = commit_success [OF g ci(2,1) tx j(1)]
  have ci2: "cache_is dev holds c ?v2" "nblocks c = nblocks (f_cache fs)" using cs(1,3) by (simp_all add: all_settled_def geo_def)
  have jg: "jhdr ?g = 1" "jpayload ?g = 2" "bbitmap_start ?g = 2 + journal_blocks ?g" using g by (auto simp: geo_ok_def)
  have hd: "map fst (home_writes ?T ?B) = ?T" by (simp add: home_writes_def o_def split_def zip_map_fst_snd)
  have "?v2 b = lview v fs b" if b: "bbitmap_start ?g \<le> b" for b
  proof (cases "bt_get ?m b")
    case (Some x)
    then have "(b, x) \<in> set ?m" using bt_get_iff [OF bi] by simp
    then have "(b, x) \<in> set (zip ?T ?B)" by (simp add: zip_map_fst_snd)
    then have "(b, x, home_tag x) \<in> set (home_writes ?T ?B)" by (auto simp: home_writes_def)
    then have "vput (home_writes ?T ?B) ?v1 b = x" using vput_at [of "home_writes ?T ?B"] hd bt_inv_distinct [OF bi] by metis
    then show ?thesis using Some b jg by (simp add: lview_def)
  next
    case None
    then have "b \<notin> set ?T" by (simp add: map_of_eq_None_iff)
    then have "vput (home_writes ?T ?B) ?v1 b = ?v1 b" using home_writes_props(3) [OF tx] by (intro vput_other) simp
    moreover have "b \<notin> fst ` set (payload_writes ?g ?B)"
      using payload_writes_props(3) [OF g tx] b jg assms(4) by simp
    ultimately show ?thesis using None b jg vput_other [of b "payload_writes ?g ?B"] by (simp add: lview_def)
  qed
  moreover have "vol dev holds ?v2 fs'" using vol_cache [OF assms(1) ci2] j(2) by (simp add: vol_def)
  ultimately show ?thesis using j(2) by blast
qed

lemma tx_commit_effect:
  assumes "vol dev holds v fs" and "meta_ok fs" and "touched_ok fs" and "backup_sb (f_geo fs) \<le> 64 * length (f_bbits fs)"
    and "tx_commit dev fs = (Inr u, fs')"
  shows "\<exists>v'. vol dev holds v' fs' \<and> f_tx fs' = tx_idle \<and> f_geo fs' = f_geo fs \<and> f_ibits fs' = f_ibits fs \<and> f_poisoned fs' = f_poisoned fs \<and>
    (\<forall>b. bits_get (f_bbits fs') b \<longleftrightarrow> bits_get (f_bbits fs) b \<and> b \<notin> runs_in (tx_to_free (f_tx fs))) \<and>
    (\<forall>b \<ge> itable_start (f_geo fs). v' b = lview v fs b)"
proof -
  obtain fs1 where p: "prepare_commit fs = (Inr (), fs1)"
    using assms(5) by (cases "prepare_commit fs") (auto simp: tx_commit_def split: sum.splits)
  note e = prepare_commit_effect [OF assms(1-4) p]
  have g: "geo_ok (f_geo fs)" using assms(1) by (simp add: vol_def)
  show ?thesis
  proof (cases "tx_meta (f_tx fs1) = []")
    case True
    then have "fs' = fs1\<lparr>f_tx := tx_idle\<rparr>" using assms(5) p by (simp add: tx_commit_def)
    moreover have "lview v fs1 = v" using True by (simp add: lview_def fun_eq_iff)
    ultimately show ?thesis using e by (intro exI [of _ v]) auto
  next
    case False
    then obtain fs2 where j: "write_journal dev fs1 = (Inr (), fs2)" "fs' = fs2\<lparr>f_commits := f_commits fs2 + 1, f_tx := tx_idle\<rparr>"
      using assms(5) p by (cases "write_journal dev fs1") (auto simp: tx_commit_def split: sum.splits)
    obtain v' c s where w: "fs2 = fs1\<lparr>f_cache := c, f_seq := s\<rparr>" "vol dev holds v' fs2" "\<forall>b \<ge> bbitmap_start (f_geo fs1). v' b = lview v fs1 b"
      using write_journal_effect [OF _ _ False _ j(1)] e by metis
    have "v' b = lview v fs b" if "itable_start (f_geo fs) \<le> b" for b
      using that w(3) e geo_ok_sizes(6,7) [OF g] by simp
    then show ?thesis using w(1,2) j(2) e by (intro exI [of _ v']) (auto simp: vol_def)
  qed
qed

end

end
