(* ===== verification/FileWrite.thy ===== *)
theory FileWrite
  imports Commit
begin

text \<open>
  Writing a file: the data goes to fresh blocks, the extents are remapped and stored, the inode is
  rewritten and the transaction committed.  What a successful \<open>write_at\<close> leaves is the file with the
  written range replaced.
\<close>

subsection \<open>The new blocks\<close>

definition phys :: "extent list \<Rightarrow> nat set" where
  "phys exts = {p. \<exists>x. maps exts x p}"

text \<open>The bytes of the file after the write.\<close>

definition new_byte :: "(nat \<Rightarrow> bytes) \<Rightarrow> extent list \<Rightarrow> nat \<Rightarrow> bytes \<Rightarrow> nat \<Rightarrow> u8" where
  "new_byte v exts off data p = (if off \<le> p \<and> p < off + length data then data ! (p - off) else file_byte v exts p)"

definition new_block :: "(nat \<Rightarrow> bytes) \<Rightarrow> extent list \<Rightarrow> nat \<Rightarrow> bytes \<Rightarrow> nat \<Rightarrow> bytes" where
  "new_block v exts off data cur = map (\<lambda>k. new_byte v exts off data (cur * BLOCK_SIZE + k)) [0..<BLOCK_SIZE]"

lemma length_new_block [simp]: "length (new_block v exts off data cur) = BLOCK_SIZE"
  by (simp add: new_block_def)

lemma file_byte_cong:
  assumes "exts_ok exts" and "\<And>b. b \<in> phys exts \<Longrightarrow> v' b = v b"
  shows "file_byte v' exts p = file_byte v exts p"
proof (cases "map_block exts (p div BLOCK_SIZE)")
  case (Some b)
  then have "b \<in> phys exts" using map_block_correct [OF assms(1)] by (auto simp: phys_def)
  then show ?thesis using assms(2) Some by (simp add: file_byte_def)
qed (simp add: file_byte_def)

lemma new_block_cong:
  assumes "exts_ok exts" and "\<And>b. b \<in> phys exts \<Longrightarrow> v' b = v b"
  shows "new_block v' exts off data cur = new_block v exts off data cur"
  using file_byte_cong [of exts v' v, OF assms] by (simp add: new_block_def new_byte_def)

lemma block_pos:
  assumes "k < BLOCK_SIZE"
  shows "(cur * BLOCK_SIZE + k) div BLOCK_SIZE = cur" and "(cur * BLOCK_SIZE + k) mod BLOCK_SIZE = k"
  using assms by simp_all

lemma old_bytes:
  assumes "k < BLOCK_SIZE"
  shows "file_byte v exts (cur * BLOCK_SIZE + k) = (case map_block exts cur of Some b \<Rightarrow> v b ! k | None \<Rightarrow> 0)"
  unfolding file_byte_def block_pos [OF assms] by (rule refl)

lemma phys_range:
  assumes "geo_ok g" and "valid_extents g 0 exts" and "b \<in> phys exts"
  shows "data_start g \<le> b" and "b < backup_sb g"
  using assms by (auto simp: phys_def maps_def covers_def valid_extents_ok lend_def pend_def)

lemma new_block_fill:
  assumes "off < cur * BLOCK_SIZE + BLOCK_SIZE" and "cur * BLOCK_SIZE < off + length data" and "length dst = BLOCK_SIZE" and "data \<noteq> []"
    and "\<And>k. k < BLOCK_SIZE \<Longrightarrow> cur * BLOCK_SIZE + k < off \<or> off + length data \<le> cur * BLOCK_SIZE + k \<Longrightarrow>
      dst ! k = file_byte v exts (cur * BLOCK_SIZE + k)"
    and s: "s = max (cur * BLOCK_SIZE) off" and e: "e = min (cur * BLOCK_SIZE + BLOCK_SIZE) (off + length data)"
  shows "put_slice (s - cur * BLOCK_SIZE) (get_slice (s - off) (e - s) data) dst = new_block v exts off data cur"
proof -
  obtain X where X: "X = cur * BLOCK_SIZE" by simp
  have se: "X \<le> s" "off \<le> s" "s < e" "e \<le> X + BLOCK_SIZE" "e \<le> off + length data"
    using assms(1,2,4) by (auto simp: X s e BLOCK_SIZE_def)
  let ?d = "get_slice (s - off) (e - s) data"
  have ld: "length ?d = e - s" using se by simp
  have fit: "s - X + length ?d \<le> length dst" using se assms(3) by (simp add: ld)
  show ?thesis
  proof (rule nth_equalityI)
    show "length (put_slice (s - cur * BLOCK_SIZE) ?d dst) = length (new_block v exts off data cur)"
      using fit assms(3) by (simp add: X)
    fix k assume "k < length (put_slice (s - cur * BLOCK_SIZE) ?d dst)"
    then have k: "k < BLOCK_SIZE" "k < length dst" using fit assms(3) by (simp_all add: X)
    have nb: "new_block v exts off data cur ! k = (if off \<le> X + k \<and> X + k < off + length data then data ! (X + k - off) else file_byte v exts (X + k))"
      using k(1) by (simp add: new_block_def new_byte_def X)
    have "X + k < off \<Longrightarrow> k < s - X" "off + length data \<le> X + k \<Longrightarrow> \<not> k < s - X + (e - s)" using se by linarith+
    moreover have "off \<le> X + k \<Longrightarrow> \<not> k < s - X" using se s X by (auto simp: max_def split: if_splits)
    moreover have "X + k < off + length data \<Longrightarrow> k < s - X + (e - s)" using se e k(1) X by (auto simp: min_def split: if_splits)
    moreover have "?d ! (k - (s - X)) = data ! (X + k - off)" if "\<not> k < s - X" "k < s - X + (e - s)"
    proof -
      have "s - off + (k - (s - X)) = X + k - off" using that(1) se by linarith
      then show ?thesis using nth_get_slice [of "k - (s - X)" "e - s" "s - off" data] that se by simp
    qed
    ultimately show "put_slice (s - cur * BLOCK_SIZE) ?d dst ! k = new_block v exts off data cur ! k"
      unfolding nb X [symmetric] nth_put_slice [OF fit k(2), unfolded ld]
      using assms(5) [OF k(1), folded X] by (cases "off \<le> X + k"; cases "X + k < off + length data") auto
  qed
qed

context reliable_device
begin

lemma gets_fill_block:
  assumes "vol dev holds v fs" and "valid_extents (f_geo fs) 0 exts" and "data \<noteq> []"
    and "off < cur * BLOCK_SIZE + BLOCK_SIZE" and "cur * BLOCK_SIZE < off + length data"
  shows "yields dev holds v fs (fill_block dev exts off (off + length data) data cur fs) (Inr (new_block v exts off data cur))"
proof -
  let ?B = "BLOCK_SIZE"
  define s where "s = max (cur * ?B) off"
  define e where "e = min (cur * ?B + ?B) (off + length data)"
  define part where "part \<longleftrightarrow> cur * ?B < s \<or> e < cur * ?B + ?B"
  define dst where "dst = (case map_block exts cur of Some b \<Rightarrow> if part then v b else replicate ?B 0 | None \<Rightarrow> replicate ?B 0)"
  have g: "geo_ok (f_geo fs)" and ci: "cache_is dev holds (f_cache fs) v" "total_blocks (f_geo fs) \<le> nblocks (f_cache fs)"
    using assms(1) by (auto simp: vol_def)
  have ok: "exts_ok exts" using assms(2) valid_extents_ok [OF g] by simp
  have bnd: "b < total_blocks (f_geo fs)" if "map_block exts cur = Some b" for b
  proof -
    have "b \<in> phys exts" using that map_block_correct [OF ok] by (auto simp: phys_def)
    then show ?thesis using phys_range(2) [OF g assms(2)] geo_ok_sizes(1) [OF g] by fastforce
  qed
  have old: "yields dev holds v fs (old_block dev exts part cur fs) (Inr dst)"
    using gets_io(2) [OF assms(1) bnd] yields_pure [OF assms(1)]
    by (auto simp: old_block_def dst_def split: option.splits)
  have len: "length dst = ?B"
    using cache_is_length [OF ci(1)] bnd ci(2) by (auto simp: dst_def split: option.splits)
  have "dst ! k = file_byte v exts (cur * ?B + k)" if k: "k < ?B" "cur * ?B + k < off \<or> off + length data \<le> cur * ?B + k" for k
  proof -
    have part using k assms(3) by (auto simp: part_def s_def e_def)
    then show ?thesis using k(1) by (auto simp: old_bytes [OF k(1)] dst_def split: option.splits)
  qed
  note fill = new_block_fill [OF assms(4,5) len assms(3) this s_def e_def]
  show ?thesis
    unfolding fill_block_def Let_def s_def [symmetric] e_def [symmetric] part_def [symmetric]
    by (rule yields_bindr [OF old assms(1)]) (simp add: fill yields_pure)
qed

lemma gets_fill_blocks:
  assumes "vol dev holds v fs" and "valid_extents (f_geo fs) 0 exts" and "data \<noteq> []" and "lb + c \<le> 2 ^ 32" and "j \<le> c"
    and "\<And>k. k < c \<Longrightarrow> off < (lb + k) * BLOCK_SIZE + BLOCK_SIZE \<and> (lb + k) * BLOCK_SIZE < off + length data"
    and "buf = concat (map (\<lambda>k. new_block v exts off data (lb + k)) [0..<j] @ replicate (c - j) (replicate BLOCK_SIZE 0))"
  shows "yields dev holds v fs (fill_blocks dev exts off (off + length data) data lb [j..<c] buf fs)
    (Inr (concat (map (\<lambda>k. new_block v exts off data (lb + k)) [0..<c])))"
  using assms(1,2,5,7)
proof (induction "c - j" arbitrary: j buf fs)
  case 0
  then show ?case by (simp add: yields_pure)
next
  case (Suc n)
  let ?new = "\<lambda>k. new_block v exts off data (lb + k)"
  have j: "j < c" "n = c - Suc j" using Suc.hyps(2) by simp_all
  have up: "[j..<c] = j # [Suc j..<c]" using j(1) by (simp add: upt_conv_Cons)
  have lb: "u32_add lb j = lb + j" using assms(4) j(1) by simp
  have f: "yields dev holds v fs (fill_block dev exts off (off + length data) data (lb + j) fs) (Inr (?new j))"
    using gets_fill_block [OF Suc.prems(1,2) assms(3)] assms(6) [OF j(1)] by simp
  let ?xss = "map ?new [0..<j] @ replicate (c - j) (replicate BLOCK_SIZE 0)"
  have "put_slice (j * BLOCK_SIZE) (?new j) (concat ?xss) = concat (?xss[j := ?new j])"
    by (rule put_slice_concat) (use j(1) in auto)
  also have "?xss[j := ?new j] = map ?new [0..<Suc j] @ replicate (c - Suc j) (replicate BLOCK_SIZE 0)"
    using j(1) by (simp add: list_update_append Suc_diff_Suc [symmetric])
  finally have buf: "put_slice (j * BLOCK_SIZE) (?new j) buf = concat (map ?new [0..<Suc j] @ replicate (c - Suc j) (replicate BLOCK_SIZE 0))"
    using Suc.prems(4) by simp
  show ?case
    unfolding up fill_blocks.simps lb
  proof (rule yields_bindr [OF f Suc.prems(1)])
    fix x assume x: "vol dev holds v (fs\<lparr>f_cache := x\<rparr>)"
    show "yields dev holds v (fs\<lparr>f_cache := x\<rparr>) (fill_blocks dev exts off (off + length data) data lb [Suc j..<c] (put_slice (j * BLOCK_SIZE) (?new j) buf) (fs\<lparr>f_cache := x\<rparr>))
        (Inr (concat (map ?new [0..<c])))"
      by (rule Suc.hyps(1) [OF j(2) x _ _ buf]) (use Suc.prems(2) j(1) in simp_all)
  qed
qed

end

text \<open>The blocks \<open>ps\<close> become the new ones, nothing else changes.\<close>

definition laid :: "(nat \<Rightarrow> bytes) \<Rightarrow> (nat \<Rightarrow> bytes) \<Rightarrow> nat list \<Rightarrow> (nat \<Rightarrow> bytes) \<Rightarrow> bool" where
  "laid v new ps v' \<longleftrightarrow> (\<forall>b. b \<notin> set ps \<longrightarrow> v' b = v b) \<and> (\<forall>k < length ps. v' (ps ! k) = new k)"

lemma laid_append:
  assumes "laid v new ps v1" and "laid v1 (\<lambda>k. new (length ps + k)) qs v2" and "set ps \<inter> set qs = {}"
  shows "laid v new (ps @ qs) v2"
  unfolding laid_def
proof (intro conjI allI impI)
  show "v2 b = v b" if "b \<notin> set (ps @ qs)" for b using that assms(1,2) by (simp add: laid_def)
  show "v2 ((ps @ qs) ! k) = new k" if k: "k < length (ps @ qs)" for k
  proof (cases "k < length ps")
    case True
    then have "ps ! k \<notin> set qs" using assms(3) by (meson disjoint_iff nth_mem)
    then show ?thesis using True assms(1,2) by (simp add: laid_def nth_append)
  next
    case False
    then have "k - length ps < length qs" using k by simp
    then have "v2 (qs ! (k - length ps)) = new (length ps + (k - length ps))" using assms(2) by (simp add: laid_def)
    then show ?thesis using False by (simp add: nth_append)
  qed
qed

lemma laid_cong: "laid v new ps v' \<Longrightarrow> (\<And>k. k < length ps \<Longrightarrow> new k = new' k) \<Longrightarrow> laid v new' ps v'"
  by (simp add: laid_def)

context reliable_device
begin

lemma write_many_laid:
  assumes "vol dev holds v fs" and "\<And>k. k < c \<Longrightarrow> length (new k) = BLOCK_SIZE"
    and "lift_io (write_many dev p (concat (map new [0..<c])) (f_cache fs)) fs = (Inr u, fs')"
  shows "\<exists>x v'. fs' = fs\<lparr>f_cache := x\<rparr> \<and> vol dev holds v' fs' \<and> laid v new [p..<p + c] v'"
proof -
  let ?buf = "concat (map new [0..<c])"
  have ci: "cache_is dev holds (f_cache fs) v" using assms(1) by (simp add: vol_def)
  obtain x where w: "write_many dev p ?buf (f_cache fs) = (Inr (), x)" "fs' = fs\<lparr>f_cache := x\<rparr>"
    using assms(3) by (cases "write_many dev p ?buf (f_cache fs)") (auto simp: lift_io_def split: sum.splits)
  have blk: "y \<in> set (map new [0..<c]) \<Longrightarrow> length y = BLOCK_SIZE" for y using assms(2) by auto
  have B: "0 < BLOCK_SIZE" by (simp add: BLOCK_SIZE_def)
  have n: "length ?buf div BLOCK_SIZE = c" using length_concat_const [of "map new [0..<c]", OF blk] B by simp
  obtain v' where v': "cstep dev holds poss (f_cache fs) x v' (sec_new (lba_of (f_cache fs) p) ?buf)"
    "\<forall>b. \<not> (p \<le> b \<and> b < p + c) \<longrightarrow> v' b = v b" "\<forall>k < c. v' (p + k) = get_slice (k * BLOCK_SIZE) BLOCK_SIZE ?buf"
    using write_many_step [OF ci w(1)] by (auto simp: n)
  have "get_slice (k * BLOCK_SIZE) BLOCK_SIZE ?buf = new k" if "k < c" for k
    using get_slice_concat [of "map new [0..<c]", OF blk, of k] that by simp
  then have "laid v new [p..<p + c] v'" using v'(2,3) by (auto simp: laid_def)
  moreover have "vol dev holds v' fs'" using vol_cache [OF assms(1) cstep_is [OF v'(1)]] cstep_geo [OF v'(1)] w(2) by simp
  ultimately show ?thesis using w(2) by blast
qed

lemma write_chunks_laid:
  assumes "vol dev holds v fs" and "valid_extents (f_geo fs) 0 exts" and "data \<noteq> []"
    and "written \<le> plen" and "lb + (plen - written) < 2 ^ 32" and "pstart + plen < 2 ^ 32"
    and "\<And>k. k < plen - written \<Longrightarrow> off < (lb + k) * BLOCK_SIZE + BLOCK_SIZE \<and> (lb + k) * BLOCK_SIZE < off + length data"
    and "phys exts \<inter> {pstart..<pstart + plen} = {}"
    and "write_chunks dev exts off (off + length data) data pstart plen written lb fs = (Inr lb', fs')"
  shows "lb' = lb + (plen - written) \<and> (\<exists>x v'. fs' = fs\<lparr>f_cache := x\<rparr> \<and> vol dev holds v' fs' \<and>
    laid v (\<lambda>k. new_block v exts off data (lb + k)) [pstart + written..<pstart + plen] v')"
  using assms(1,2,4,5,7,9)
proof (induction "plen - written" arbitrary: written lb v fs rule: less_induct)
  case less
  show ?case
  proof (cases "written < plen")
    case False
    then have "fs' = fs" "lb' = lb" using less.prems(6) by (simp_all add: write_chunks.simps)
    then show ?thesis using False less.prems(1,3) by (auto simp: laid_def intro: exI [of _ "f_cache fs"])
  next
    case True
    define c where "c = min (plen - written) WRITE_CHUNK"
    have c: "0 < c" "c \<le> plen - written" using True by (auto simp: c_def WRITE_CHUNK_def)
    let ?new = "\<lambda>k. new_block v exts off data (lb + k)"
    have "replicate (c * BLOCK_SIZE) (0 :: u8) = concat (replicate c (replicate BLOCK_SIZE 0))"
      by (induction c) (simp_all add: replicate_add)
    then have fb: "yields dev holds v fs (fill_blocks dev exts off (off + length data) data lb [0..<c] (replicate (c * BLOCK_SIZE) 0) fs)
        (Inr (concat (map ?new [0..<c])))"
      using less.prems(4,5) c by (intro gets_fill_blocks [OF less.prems(1,2) assms(3)]) auto
    obtain x where x: "fill_blocks dev exts off (off + length data) data lb [0..<c] (replicate (c * BLOCK_SIZE) 0) fs =
        (Inr (concat (map ?new [0..<c])), fs\<lparr>f_cache := x\<rparr>)" "vol dev holds v (fs\<lparr>f_cache := x\<rparr>)"
      using fb less.prems(1) by (rule yieldsE)
    have ps: "u32_add pstart written = pstart + written" "u32_add lb c = lb + c" using assms(6) True less.prems(4) c by simp_all
    obtain u fs2 where wm: "lift_io (write_many dev (pstart + written) (concat (map ?new [0..<c])) (f_cache (fs\<lparr>f_cache := x\<rparr>))) (fs\<lparr>f_cache := x\<rparr>) = (Inr u, fs2)"
        and rec: "write_chunks dev exts off (off + length data) data pstart plen (written + c) (lb + c) fs2 = (Inr lb', fs')"
      using less.prems(6) True unfolding write_chunks.simps [of dev exts off "off + length data" data pstart plen written lb] Let_def c_def [symmetric] x(1) ps
      by (auto elim!: bindr_InrE)
    obtain y v1 where y: "fs2 = fs\<lparr>f_cache := y\<rparr>" "vol dev holds v1 fs2" "laid v ?new [pstart + written..<pstart + written + c] v1"
      using write_many_laid [OF x(2) _ wm] by auto
    have v1: "v1 b = v b" if "b \<in> phys exts" for b
    proof -
      have "\<not> (pstart \<le> b \<and> b < pstart + plen)" using that assms(8) by auto
      then have "b \<notin> set [pstart + written..<pstart + written + c]" using c by auto
      then show ?thesis using y(3) unfolding laid_def by blast
    qed
    have ok: "exts_ok exts" using less.prems(1,2) valid_extents_ok by (auto simp: vol_def)
    have IH: "lb' = lb + c + (plen - (written + c)) \<and> (\<exists>x v'. fs' = fs2\<lparr>f_cache := x\<rparr> \<and> vol dev holds v' fs' \<and>
        laid v1 (\<lambda>k. new_block v1 exts off data (lb + c + k)) [pstart + (written + c)..<pstart + plen] v')"
    proof (rule less.hyps [OF _ y(2) _ _ _ _ rec])
      show "valid_extents (f_geo fs2) 0 exts" using less.prems(2) y(1) by simp
      show "off < (lb + c + k) * BLOCK_SIZE + BLOCK_SIZE \<and> (lb + c + k) * BLOCK_SIZE < off + length data" if "k < plen - (written + c)" for k
        using less.prems(5) [of "c + k"] that c by (simp add: add.assoc)
    qed (use c less.prems(4) True in auto)
    then obtain z v2 where z: "fs' = fs2\<lparr>f_cache := z\<rparr>" "vol dev holds v2 fs'"
      "laid v1 (\<lambda>k. new_block v1 exts off data (lb + c + k)) [pstart + (written + c)..<pstart + plen] v2" by blast
    have sp: "[pstart + written..<pstart + plen] = [pstart + written..<pstart + written + c] @ [pstart + (written + c)..<pstart + plen]"
      using upt_add_eq_append [of "pstart + written" "pstart + written + c" "plen - (written + c)"] c by (simp add: add.assoc)
    have "laid v ?new [pstart + written..<pstart + plen] v2"
      unfolding sp
    proof (rule laid_append [OF y(3)])
      show "laid v1 (\<lambda>k. ?new (length [pstart + written..<pstart + written + c] + k)) [pstart + (written + c)..<pstart + plen] v2"
        using z(3) new_block_cong [of exts v1 v, OF ok v1] by (simp add: add.assoc)
    qed auto
    then show ?thesis using z(1,2) y(1) IH c by auto
  qed
qed

lemma write_runs_laid:
  assumes "vol dev holds v fs" and "valid_extents (f_geo fs) 0 exts" and "data \<noteq> []" and "runs_ok runs"
    and "distinct (run_blocks_of runs)" and "lb + length (run_blocks_of runs) < 2 ^ 32"
    and "\<And>k. k < length (run_blocks_of runs) \<Longrightarrow> off < (lb + k) * BLOCK_SIZE + BLOCK_SIZE \<and> (lb + k) * BLOCK_SIZE < off + length data"
    and "phys exts \<inter> set (run_blocks_of runs) = {}"
    and "write_runs dev exts off (off + length data) data runs lb fs = (Inr u, fs')"
  shows "\<exists>x v'. fs' = fs\<lparr>f_cache := x\<rparr> \<and> vol dev holds v' fs' \<and>
    laid v (\<lambda>k. new_block v exts off data (lb + k)) (run_blocks_of runs) v'"
  using assms(1,2,4-9)
proof (induction runs arbitrary: lb v fs)
  case Nil
  then show ?case by (auto simp: laid_def intro: exI [of _ "f_cache fs"])
next
  case (Cons r runs)
  obtain p l where r: "r = (p, l)" by (cases r)
  have rl: "0 < l" "p + l < 2 ^ 32" "runs_ok runs" using Cons.prems(3) by (simp_all add: r)
  obtain lb1 fs1 where w: "write_chunks dev exts off (off + length data) data p l 0 lb fs = (Inr lb1, fs1)"
    and rec: "write_runs dev exts off (off + length data) data runs lb1 fs1 = (Inr u, fs')"
    using Cons.prems(8) by (auto simp: r elim!: bindr_InrE)
  have first: "lb1 = lb + l \<and> (\<exists>x v'. fs1 = fs\<lparr>f_cache := x\<rparr> \<and> vol dev holds v' fs1 \<and>
      laid v (\<lambda>k. new_block v exts off data (lb + k)) [p..<p + l] v')"
    using write_chunks_laid [OF Cons.prems(1,2) assms(3) _ _ rl(2) _ _ w] Cons.prems(5-7) by (auto simp: r)
  then obtain x v1 where x: "lb1 = lb + l" "fs1 = fs\<lparr>f_cache := x\<rparr>" "vol dev holds v1 fs1"
    "laid v (\<lambda>k. new_block v exts off data (lb + k)) [p..<p + l] v1" by blast
  have v1: "v1 b = v b" if "b \<in> phys exts" for b
    using x(4) that Cons.prems(7) by (auto simp: laid_def r disjoint_iff)
  have ok: "exts_ok exts" using Cons.prems(1,2) valid_extents_ok by (auto simp: vol_def)
  have "\<exists>x v'. fs' = fs1\<lparr>f_cache := x\<rparr> \<and> vol dev holds v' fs' \<and>
      laid v1 (\<lambda>k. new_block v1 exts off data (lb + l + k)) (run_blocks_of runs) v'"
  proof (rule Cons.IH [OF x(3) _ rl(3) _ _ _ _ rec [unfolded x(1)]])
    show "valid_extents (f_geo fs1) 0 exts" using Cons.prems(2) x(2) by simp
    show "off < (lb + l + k) * BLOCK_SIZE + BLOCK_SIZE \<and> (lb + l + k) * BLOCK_SIZE < off + length data" if "k < length (run_blocks_of runs)" for k
      using Cons.prems(6) [of "l + k"] that by (simp add: r add.assoc)
  qed (use Cons.prems in \<open>auto simp: r\<close>)
  then obtain y v2 where y: "fs' = fs1\<lparr>f_cache := y\<rparr>" "vol dev holds v2 fs'"
    "laid v1 (\<lambda>k. new_block v1 exts off data (lb + l + k)) (run_blocks_of runs) v2" by blast
  have "laid v (\<lambda>k. new_block v exts off data (lb + k)) ([p..<p + l] @ run_blocks_of runs) v2"
  proof (rule laid_append [OF x(4)])
    show "laid v1 (\<lambda>k. new_block v exts off data (lb + (length [p..<p + l] + k))) (run_blocks_of runs) v2"
      using y(3) new_block_cong [of exts v1 v, OF ok v1] by (simp add: add.assoc)
    show "set [p..<p + l] \<inter> set (run_blocks_of runs) = {}" using Cons.prems(4) by (auto simp: r)
  qed
  then show ?case using y(1,2) x(2) by (auto simp: r)
qed

end

subsection \<open>The remapped extents\<close>

definition one_to_one :: "extent list \<Rightarrow> bool" where
  "one_to_one exts \<longleftrightarrow> (\<forall>x y p. maps exts x p \<longrightarrow> maps exts y p \<longrightarrow> x = y)"

lemma phys_ends:
  assumes "exts_ok exts" and "e \<in> set exts"
  shows "pblk e \<in> phys exts" and "pend e - 1 \<in> phys exts" and "0 < elen e"
proof -
  show l: "0 < elen e" using assms by (auto simp: exts_ok_def list_all_iff ext_ok_def)
  have "maps exts (lblk e) (pblk e)" using assms(2) l by (auto simp: maps_def covers_def lend_def intro!: bexI [of _ e])
  then show "pblk e \<in> phys exts" by (auto simp: phys_def)
  have "maps exts (lend e - 1) (pend e - 1)" using assms(2) l by (auto simp: maps_def covers_def lend_def pend_def intro!: bexI [of _ e])
  then show "pend e - 1 \<in> phys exts" by (auto simp: phys_def)
qed

lemma valid_of_phys:
  assumes "geo_ok g" and "exts_ok exts" and "\<And>b. b \<in> phys exts \<Longrightarrow> data_start g \<le> b \<and> b < backup_sb g"
  shows "valid_extents g 0 exts"
proof -
  have "data_start g \<le> pblk e \<and> pend e \<le> backup_sb g" if "e \<in> set exts" for e
    using assms(3) [OF phys_ends(1) [OF assms(2) that]] assms(3) [OF phys_ends(2) [OF assms(2) that]] phys_ends(3) [OF assms(2) that]
    by (auto simp: pend_def)
  then show ?thesis using assms(2) valid_extents_ok [OF assms(1)] by simp
qed

lemma length_le_phys:
  assumes "exts_ok exts" and "one_to_one exts" and "phys exts \<subseteq> {..<n}"
  shows "length exts \<le> n"
proof -
  have "inj_on pblk (set exts)"
  proof (rule inj_onI)
    fix a b assume ab: "a \<in> set exts" "b \<in> set exts" "pblk a = pblk b"
    have "0 < elen a" "0 < elen b" using ab phys_ends(3) [OF assms(1)] by auto
    then have "maps exts (lblk a) (pblk a)" "maps exts (lblk b) (pblk a)"
      using ab by (auto simp: maps_def covers_def lend_def intro: bexI [of _ a] bexI [of _ b])
    then have "lblk a = lblk b" using assms(2) by (auto simp: one_to_one_def)
    then show "a = b" using exts_ok_distinct(3) [OF assms(1) ab(1,2)] \<open>0 < elen a\<close> \<open>0 < elen b\<close> by (auto simp: lend_def)
  qed
  then have "card (pblk ` set exts) = length exts" using exts_ok_distinct(2) [OF assms(1)] by (simp add: card_image distinct_card)
  moreover have "pblk ` set exts \<subseteq> {..<n}" using phys_ends(1) [OF assms(1)] assms(3) by auto
  ultimately show ?thesis using card_mono [of "{..<n}" "pblk ` set exts"] by simp
qed

text \<open>The facts about a remapping that the write needs.\<close>

lemma remap_phys:
  assumes "exts_ok exts" and "one_to_one exts" and "runs_ok runs" and "length (run_blocks_of runs) = n" and "0 < n" and "lb + n < 2 ^ 32"
    and "distinct (run_blocks_of runs)" and "phys exts \<inter> set (run_blocks_of runs) = {}" and "remap exts lb n runs [] = (exts', freed)"
  shows "exts_ok exts'" and "one_to_one exts'" and "phys exts' = (phys exts - runs_in freed) \<union> set (run_blocks_of runs)"
    and "runs_in freed \<subseteq> phys exts"
    and "\<And>x p. maps exts' x p \<longleftrightarrow> (if lb \<le> x \<and> x < lb + n then p = run_blocks_of runs ! (x - lb) else maps exts x p)"
proof -
  let ?rb = "run_blocks_of runs"
  note r = remap_correct [OF assms(1,3-6,9)]
  show "exts_ok exts'" and m: "\<And>x p. maps exts' x p \<longleftrightarrow> (if lb \<le> x \<and> x < lb + n then p = ?rb ! (x - lb) else maps exts x p)"
    by (fact r)+
  have fr: "runs_in freed = {q. \<exists>x. lb \<le> x \<and> x < lb + n \<and> maps exts x q}" using r(3) by simp
  then show "runs_in freed \<subseteq> phys exts" by (auto simp: phys_def)
  have rb: "?rb ! (x - lb) \<in> set ?rb" if "lb \<le> x" "x < lb + n" for x using that assms(4) by simp
  have no: "p \<notin> set ?rb" if "maps exts x p" for x p using that assms(8) by (auto simp: phys_def)
  have clash: False if "maps exts y (?rb ! (x - lb))" "lb \<le> x" "x < lb + n" for x y
    using rb [OF that(2,3)] no [OF that(1)] by blast
  show "one_to_one exts'"
    unfolding one_to_one_def
  proof (intro allI impI)
    fix x y p assume xy: "maps exts' x p" "maps exts' y p"
    show "x = y"
    proof (cases "lb \<le> x \<and> x < lb + n"; cases "lb \<le> y \<and> y < lb + n")
      assume b: "lb \<le> x \<and> x < lb + n" "lb \<le> y \<and> y < lb + n"
      then have "x - lb < length ?rb" "y - lb < length ?rb" using assms(4) by linarith+
      moreover have "?rb ! (x - lb) = ?rb ! (y - lb)" using xy b by (simp add: m)
      ultimately have "x - lb = y - lb" using nth_eq_iff_index_eq [OF assms(7)] by blast
      then show ?thesis using b by linarith
    qed (use xy assms(2) in \<open>auto simp: m one_to_one_def dest: clash\<close>)
  qed
  have "set ?rb = {p. \<exists>x. lb \<le> x \<and> x < lb + n \<and> p = ?rb ! (x - lb)}"
  proof (intro equalityI subsetI)
    fix p assume "p \<in> set ?rb"
    then obtain k where "k < n" "?rb ! k = p" using assms(4) by (auto simp: in_set_conv_nth)
    then show "p \<in> {p. \<exists>x. lb \<le> x \<and> x < lb + n \<and> p = ?rb ! (x - lb)}" by (auto intro!: exI [of _ "lb + k"])
  qed (use rb in auto)
  moreover have "phys exts - runs_in freed = {p. \<exists>x. \<not> (lb \<le> x \<and> x < lb + n) \<and> maps exts x p}"
    using assms(2) unfolding fr phys_def one_to_one_def by blast
  ultimately show "phys exts' = (phys exts - runs_in freed) \<union> set ?rb"
    unfolding phys_def m by auto
qed

text \<open>After the data is written, the remapped extents read as the new bytes.\<close>

lemma remap_bytes:
  assumes "exts_ok exts" and "exts_ok exts'" and "length (run_blocks_of runs) = n"
    and m: "\<And>x p. maps exts' x p \<longleftrightarrow> (if lb \<le> x \<and> x < lb + n then p = run_blocks_of runs ! (x - lb) else maps exts x p)"
    and "laid v (\<lambda>k. new_block v exts off data (lb + k)) (run_blocks_of runs) v'" and "phys exts \<inter> set (run_blocks_of runs) = {}"
    and "\<And>p. off \<le> p \<Longrightarrow> p < off + length data \<Longrightarrow> lb \<le> p div BLOCK_SIZE \<and> p div BLOCK_SIZE < lb + n"
  shows "file_byte v' exts' p = new_byte v exts off data p"
proof (cases "lb \<le> p div BLOCK_SIZE \<and> p div BLOCK_SIZE < lb + n")
  case True
  let ?q = "p div BLOCK_SIZE"
  have "maps exts' ?q (run_blocks_of runs ! (?q - lb))" using True by (simp add: m)
  then have "map_block exts' ?q = Some (run_blocks_of runs ! (?q - lb))" using map_block_correct [OF assms(2)] by simp
  moreover have "v' (run_blocks_of runs ! (?q - lb)) = new_block v exts off data ?q"
  proof -
    have k: "?q - lb < length (run_blocks_of runs)" "lb + (?q - lb) = ?q" using True assms(3) by linarith+
    then show ?thesis using assms(5) unfolding laid_def by metis
  qed
  moreover have "p mod BLOCK_SIZE < BLOCK_SIZE" by (simp add: BLOCK_SIZE_def)
  ultimately show ?thesis by (simp add: file_byte_def new_block_def)
next
  case False
  let ?q = "p div BLOCK_SIZE"
  have "map_block exts' ?q = Some b \<longleftrightarrow> map_block exts ?q = Some b" for b
    unfolding map_block_correct [OF assms(1)] map_block_correct [OF assms(2)] m if_not_P [OF False] ..
  then have eq: "map_block exts' ?q = map_block exts ?q" by (metis not_None_eq)
  have "v' b = v b" if "map_block exts ?q = Some b" for b
  proof -
    have "b \<in> phys exts" using that map_block_correct [OF assms(1)] by (auto simp: phys_def)
    then show ?thesis using assms(5,6) by (auto simp: laid_def)
  qed
  then have "file_byte v' exts' p = file_byte v exts p" by (simp add: file_byte_def eq split: option.splits)
  then show ?thesis using False assms(7) [of p] by (auto simp: new_byte_def)
qed

end
