(* ===== verification/WriteAt.thy ===== *)
theory WriteAt
  imports FileWrite
begin

text \<open>
  \<open>write_at\<close> as a whole: the transaction that writes the data to fresh blocks, remaps the file and
  commits.  The file is then the old one with the range replaced, its blocks are its own again, and
  so the next operation can be reasoned about in the same way.
\<close>

subsection \<open>A file whose blocks are its own\<close>

definition owned :: "bitmap \<Rightarrow> extent list \<Rightarrow> nat list \<Rightarrow> bool" where
  "owned bits exts chain \<longleftrightarrow> distinct chain \<and> one_to_one exts \<and> set chain \<inter> phys exts = {} \<and>
     (\<forall>b \<in> set chain \<union> phys exts. bits_get bits b)"

lemma block_span:
  assumes "0 < n" and "off + n \<le> MAX_FILE_BYTES"
  defines "first \<equiv> off div BLOCK_SIZE" and "lst \<equiv> (off + n - 1) div BLOCK_SIZE"
  shows "as_u32 first = first" and "as_u32 lst = lst" and "first \<le> lst" and "first + (lst - first + 1) < 2 ^ 32"
    and "\<And>k. k < lst - first + 1 \<Longrightarrow> off < (first + k) * BLOCK_SIZE + BLOCK_SIZE \<and> (first + k) * BLOCK_SIZE < off + n"
    and "\<And>p. off \<le> p \<Longrightarrow> p < off + n \<Longrightarrow> first \<le> p div BLOCK_SIZE \<and> p div BLOCK_SIZE < first + (lst - first + 1)"
proof -
  have B: "0 < BLOCK_SIZE" by (simp add: BLOCK_SIZE_def)
  show fl: "first \<le> lst" unfolding first_def lst_def using assms(1) by (intro div_le_mono) simp
  have "off + n - 1 < (u32_max - 1) * BLOCK_SIZE" using assms(1,2) by (simp add: MAX_FILE_BYTES_def)
  then have l: "lst < u32_max - 1" unfolding lst_def by (simp add: div_less_iff_less_mult [OF B])
  then show "as_u32 first = first" "as_u32 lst = lst" "first + (lst - first + 1) < 2 ^ 32" using fl by simp_all
  have lo: "off < first * BLOCK_SIZE + BLOCK_SIZE" unfolding first_def using B by (metis add.commute dividend_less_div_times)
  have hi: "lst * BLOCK_SIZE < off + n" unfolding lst_def using assms(1) div_times_less_eq_dividend [of "off + n - 1" BLOCK_SIZE] by linarith
  show "off < (first + k) * BLOCK_SIZE + BLOCK_SIZE \<and> (first + k) * BLOCK_SIZE < off + n" if "k < lst - first + 1" for k
  proof -
    have "first * BLOCK_SIZE \<le> (first + k) * BLOCK_SIZE" "(first + k) * BLOCK_SIZE \<le> lst * BLOCK_SIZE"
      by (rule mult_le_mono1; use that fl in linarith)+
    then show ?thesis using lo hi by linarith
  qed
  show "first \<le> p div BLOCK_SIZE \<and> p div BLOCK_SIZE < first + (lst - first + 1)" if "off \<le> p" "p < off + n" for p
  proof -
    have "p \<le> off + n - 1" using that by linarith
    then have "p div BLOCK_SIZE \<le> lst" unfolding lst_def by (rule div_le_mono)
    then show ?thesis using div_le_mono [OF that(1), of BLOCK_SIZE] fl unfolding first_def by linarith
  qed
qed

context reliable_device
begin

text \<open>The steps of \<open>write_inner\<close> up to the storing of the extents.\<close>

lemma write_inner_steps:
  assumes "vol dev holds v fs" and "alloc_ok fs" and "file_at v fs ino node exts chain" and "owned (f_bbits fs) exts chain"
    and "data \<noteq> []" and "write_inner dev ino off data now fs = (Inr u, fs')"
  obtains runs v1 fs5 exts' freed node' fs7 n lb where
    "runs_ok runs" "distinct (run_blocks_of runs)" "length (run_blocks_of runs) = n"
    "\<And>b. b \<in> set (run_blocks_of runs) \<Longrightarrow> is_data_block fs b \<and> \<not> bits_get (f_bbits fs) b"
    "\<And>b. bits_get (f_bbits fs5) b \<longleftrightarrow> bits_get (f_bbits fs) b \<or> b \<in> set (run_blocks_of runs)"
    "f_geo fs5 = f_geo fs" "f_ibits fs5 = f_ibits fs" "f_poisoned fs5 = f_poisoned fs" "tx_meta (f_tx fs5) = tx_meta (f_tx fs)"
    "tx_to_free (f_tx fs5) = tx_to_free (f_tx fs)" "vol dev holds v1 fs5" "alloc_ok fs5" "0 < n" "lb + n < 2 ^ 32"
    "laid v (\<lambda>k. new_block v exts off data (lb + k)) (run_blocks_of runs) v1"
    "\<And>p. off \<le> p \<Longrightarrow> p < off + length data \<Longrightarrow> lb \<le> p div BLOCK_SIZE \<and> p div BLOCK_SIZE < lb + n"
    "remap exts lb n runs [] = (exts', freed)" "off + length data \<le> MAX_FILE_BYTES"
    "store_extents dev ino (node\<lparr>i_size := max (i_size node) (off + length data), i_mtime := now\<rparr>) exts' (tx_free_runs freed fs5) = (Inr node', fs7)"
    "write_inode dev ino node' fs7 = (Inr u, fs')"
proof -
  have f: "0 < ino" "ino \<le> inode_count (f_geo fs)" "bits_get (f_ibits fs) (ino - 1)"
    "inode_in (f_geo fs) (lview v fs) ino = Some node" "i_kind node = File" "exts_in (f_geo fs) (lview v fs) ino node exts chain"
    using assms(3) unfolding file_at_def by blast+
  let ?stop = "off + length data"
  obtain c where c: "read_inode dev ino fs = (Inr node, fs\<lparr>f_cache := c\<rparr>)" "vol dev holds v (fs\<lparr>f_cache := c\<rparr>)"
    using gets_inode [OF assms(1) f(1-4)] assms(1) by (rule yieldsE)
  have "yields dev holds v (fs\<lparr>f_cache := c\<rparr>) (load_extents dev ino node (fs\<lparr>f_cache := c\<rparr>)) (Inr exts)"
    using gets_load_extents [OF c(2), of ino node exts chain] f(6) by simp
  then obtain d where d: "load_extents dev ino node (fs\<lparr>f_cache := c\<rparr>) = (Inr exts, fs\<lparr>f_cache := d\<rparr>)" "vol dev holds v (fs\<lparr>f_cache := d\<rparr>)"
    using c(2) by (auto elim!: yieldsE)
  let ?fs2 = "fs\<lparr>f_cache := d\<rparr>"
  define lb where "lb = off div BLOCK_SIZE"
  define n where "n = (?stop - 1) div BLOCK_SIZE - lb + 1"
  have lim: "?stop \<le> MAX_FILE_BYTES"
    using assms(5,6) f(5) unfolding write_inner_def c(1) by (auto simp: checked_add_def ok_or_def Let_def split: if_splits elim!: bindr_InrE)
  have "0 < length data" using assms(5) by simp
  note sp = block_span [OF this lim, folded lb_def, folded n_def]
  have nS: "Suc ((?stop - Suc 0) div BLOCK_SIZE - lb) = n" by (simp add: n_def)
  obtain h runs fs3 fs5 exts' freed node' fs7 where al: "alloc_blocks n h ?fs2 = (Inr runs, fs3)"
    and wr: "write_runs dev exts off ?stop data runs lb (add_data runs fs3) = (Inr (), fs5)"
    and rm: "remap exts lb n runs [] = (exts', freed)"
    and st: "store_extents dev ino (node\<lparr>i_size := max (i_size node) ?stop, i_mtime := now\<rparr>) exts' (tx_free_runs freed fs5) = (Inr node', fs7)"
    and wi: "write_inode dev ino node' fs7 = (Inr u, fs')"
    using assms(5,6) f(5) lim d(1) sp(1,2)
    unfolding write_inner_def c(1) Let_def
    by (auto simp: checked_add_def ok_or_def lb_def [symmetric] nS split: if_splits prod.splits elim!: bindr_InrE)
  have ok2: "alloc_ok ?fs2" using assms(2) by (simp add: alloc_ok_def)
  have a: "allocated n runs ?fs2 fs3" using alloc_blocks_cases [OF ok2, of n h] al by auto
  have ok3: "alloc_ok fs3" by (rule alloc_blocks_ok [OF ok2 al])
  have rb: "runs_ok runs" "distinct (run_blocks_of runs)" "length (run_blocks_of runs) = n"
    "\<And>b. b \<in> set (run_blocks_of runs) \<Longrightarrow> is_data_block fs b \<and> \<not> bits_get (f_bbits fs) b"
    "\<And>b. bits_get (f_bbits fs3) b \<longleftrightarrow> bits_get (f_bbits fs) b \<or> b \<in> set (run_blocks_of runs)" "others_same ?fs2 fs3"
    using a by (auto simp: allocated_def is_data_block_def)
  have vol3: "vol dev holds v (add_data runs fs3)" using d(2) rb(6) by (simp add: others_same_def vol_def)
  have geo3: "f_geo (add_data runs fs3) = f_geo fs" using rb(6) by (simp add: others_same_def)
  have val: "valid_extents (f_geo (add_data runs fs3)) 0 exts" using f(6) unfolding geo3 by (simp add: exts_in_def)
  have ph: "phys exts \<inter> set (run_blocks_of runs) = {}" using assms(4) rb(4) by (auto simp: owned_def)
  have rng: "off < (lb + k) * BLOCK_SIZE + BLOCK_SIZE \<and> (lb + k) * BLOCK_SIZE < ?stop" if "k < length (run_blocks_of runs)" for k
    using sp(5) that rb(3) by simp
  have "lb + length (run_blocks_of runs) < 2 ^ 32" using sp(4) rb(3) by simp
  from write_runs_laid [OF vol3 val assms(5) rb(1,2) this rng ph wr] obtain x v1 where
    x: "fs5 = (add_data runs fs3)\<lparr>f_cache := x\<rparr>" "vol dev holds v1 fs5"
      "laid v (\<lambda>k. new_block v exts off data (lb + k)) (run_blocks_of runs) v1" by blast
  have sel: "f_geo fs5 = f_geo fs" "f_ibits fs5 = f_ibits fs" "f_poisoned fs5 = f_poisoned fs" "tx_meta (f_tx fs5) = tx_meta (f_tx fs)"
    "tx_to_free (f_tx fs5) = tx_to_free (f_tx fs)" "alloc_ok fs5"
    using rb(6) ok3 by (simp_all add: x(1) others_same_def alloc_ok_def)
  have n: "0 < n" by (simp add: n_def)
  show thesis
    by (rule that [OF rb(1-4) _ sel(1-5) x(2) sel(6) n sp(4) x(3) sp(6) rm lim st wi]) (simp_all add: x(1) rb(5))
qed

end

lemma set_exts_wf:
  assumes "inode_wf node" and "list_all extent_wf exts" and "sum_list (map elen exts) \<le> u32_max" and "length exts \<le> u32_max"
    and "\<And>b. b \<in> set chain \<Longrightarrow> b < 2 ^ 32" and "sz < 2 ^ 64" and "now < 2 ^ 64"
  shows "inode_wf (set_exts exts chain (node\<lparr>i_size := sz, i_mtime := now\<rparr>))"
proof -
  have "list_all extent_wf (take INLINE_EXTENTS exts @ replicate (INLINE_EXTENTS - length exts) extent_default)"
    using assms(2) by (auto simp: list_all_iff extent_wf_def extent_default_def dest: in_set_takeD)
  moreover have "head_or chain < 2 ^ 32" using assms(5) by (cases chain) (auto simp: head_or_def)
  moreover have "length (take INLINE_EXTENTS exts @ replicate (INLINE_EXTENTS - length exts) extent_default) = INLINE_EXTENTS" by simp
  ultimately show ?thesis using assms(1,3,4,6,7) by (simp add: inode_wf_def set_exts_def)
qed

lemma exts_extent_wf: "exts_ok exts \<Longrightarrow> list_all extent_wf exts"
  by (auto simp: exts_ok_def list_all_iff ext_ok_def extent_wf_def lend_def pend_def)

lemma set_exts_exts_in:
  assumes "length exts \<le> total_blocks g" and "valid_extents g 0 exts"
    and "chain_in g V ino chain (drop INLINE_EXTENTS exts) (head_or chain)"
    and "length chain = div_ceil (length exts - INLINE_EXTENTS) EXTENTS_PER_BLOCK"
  shows "exts_in g V ino (set_exts exts chain node) exts chain"
proof -
  have E: "0 < EXTENTS_PER_BLOCK" by (simp add: inode_consts)
  have "length chain * EXTENTS_PER_BLOCK < total_blocks g + EXTENTS_PER_BLOCK"
    using div_ceil_bounds(2) [OF E, of "length exts - INLINE_EXTENTS"] assms(1,4) by simp
  also have "\<dots> < (total_blocks g div EXTENTS_PER_BLOCK + 2) * EXTENTS_PER_BLOCK"
    using dividend_less_div_times [OF E, of "total_blocks g"] by (simp add: add_mult_distrib)
  finally have "length chain \<le> total_blocks g div EXTENTS_PER_BLOCK + 2" by (metis less_imp_le mult_less_cancel2)
  moreover have "take (length exts) (take INLINE_EXTENTS exts @ replicate (INLINE_EXTENTS - length exts) extent_default) = take INLINE_EXTENTS exts"
    by (cases "length exts \<le> INLINE_EXTENTS") simp_all
  ultimately show ?thesis using assms by (simp add: exts_in_def set_exts_def)
qed

lemma exts_in_cong:
  assumes "\<And>b. b \<in> set chain \<Longrightarrow> V' b = V b"
  shows "exts_in g V' ino node exts chain = exts_in g V ino node exts chain"
proof -
  have "chain_in g V' ino chain rest cur = chain_in g V ino chain rest cur" for rest cur by (rule chain_in_cong) (rule assms)
  then show ?thesis unfolding exts_in_def by (simp only:)
qed

text \<open>What a successful \<open>write_inner\<close> leaves of the file and of the transaction.\<close>

definition rewritten :: "'d blockdevice \<Rightarrow> ('d \<Rightarrow> (nat \<Rightarrow> bytes) \<Rightarrow> bool) \<Rightarrow> (nat \<Rightarrow> bytes) \<Rightarrow> 'd fs3 \<Rightarrow> nat \<Rightarrow> extent list \<Rightarrow> nat list \<Rightarrow>
    (nat \<Rightarrow> bytes) \<Rightarrow> 'd fs3 \<Rightarrow> extent list \<Rightarrow> nat list \<Rightarrow> bool" where
  "rewritten dev holds v fs ino exts chain v' fs' exts' chain' \<longleftrightarrow>
     vol dev holds v' fs' \<and> meta_ok fs' \<and> f_geo fs' = f_geo fs \<and> f_ibits fs' = f_ibits fs \<and> f_poisoned fs' = f_poisoned fs \<and>
     one_to_one exts' \<and> distinct chain' \<and> set chain' \<inter> phys exts' = {} \<and>
     (\<forall>b. bits_get (f_bbits fs') b \<longleftrightarrow> bits_get (f_bbits fs) b \<or> b \<in> set chain' \<union> phys exts') \<and>
     (\<forall>b \<in> (set chain' \<union> phys exts') - (set chain \<union> phys exts). \<not> bits_get (f_bbits fs) b) \<and>
     runs_in (tx_to_free (f_tx fs')) = (set chain \<union> phys exts) - (set chain' \<union> phys exts') \<and>
     overlaid_blocks fs' \<subseteq> insert (inode_blk (f_geo fs) ino) (set chain') \<and>
     (\<forall>b. b \<notin> phys exts' - phys exts \<longrightarrow> v' b = v b)"

context reliable_device
begin

lemma write_inner_effect:
  assumes "vol dev holds v fs" and "meta_ok fs" and "alloc_ok fs" and "file_at v fs ino node exts chain" and "owned (f_bbits fs) exts chain"
    and "data \<noteq> []" and "now < 2 ^ 64" and "tx_meta (f_tx fs) = []" and "tx_to_free (f_tx fs) = []"
    and "write_inner dev ino off data now fs = (Inr u, fs')"
  shows "\<exists>v' exts' chain' node'. rewritten dev holds v fs ino exts chain v' fs' exts' chain' \<and> file_at v' fs' ino node' exts' chain' \<and>
    i_size node' = max (i_size node) (off + length data) \<and> (\<forall>p. file_byte v' exts' p = new_byte v exts off data p)"
proof -
  let ?g = "f_geo fs" and ?stop = "off + length data"
  have g: "geo_ok ?g" using assms(1) by (simp add: vol_def)
  have f: "0 < ino" "ino \<le> inode_count ?g" "bits_get (f_ibits fs) (ino - 1)"
    "inode_in ?g (lview v fs) ino = Some node" "i_kind node = File" "exts_in ?g (lview v fs) ino node exts chain"
    using assms(4) unfolding file_at_def by blast+
  have lv0: "lview v' fs' = v'" if "tx_meta (f_tx fs') = []" for v' and fs' :: "'a fs3" using that by (simp add: lview_def fun_eq_iff)
  obtain runs v1 fs5 exts' freed node' fs7 n lb where
    rb: "runs_ok runs" "distinct (run_blocks_of runs)" "length (run_blocks_of runs) = n"
    "\<And>b. b \<in> set (run_blocks_of runs) \<Longrightarrow> is_data_block fs b \<and> \<not> bits_get (f_bbits fs) b"
    "\<And>b. bits_get (f_bbits fs5) b \<longleftrightarrow> bits_get (f_bbits fs) b \<or> b \<in> set (run_blocks_of runs)"
    and s5: "f_geo fs5 = f_geo fs" "f_ibits fs5 = f_ibits fs" "f_poisoned fs5 = f_poisoned fs" "tx_meta (f_tx fs5) = tx_meta (f_tx fs)"
    "tx_to_free (f_tx fs5) = tx_to_free (f_tx fs)" "vol dev holds v1 fs5" "alloc_ok fs5" and n: "0 < n" "lb + n < 2 ^ 32"
    and laid: "laid v (\<lambda>k. new_block v exts off data (lb + k)) (run_blocks_of runs) v1"
    and span: "\<And>p. off \<le> p \<Longrightarrow> p < off + length data \<Longrightarrow> lb \<le> p div BLOCK_SIZE \<and> p div BLOCK_SIZE < lb + n"
    and rm: "remap exts lb n runs [] = (exts', freed)" and lim: "?stop \<le> MAX_FILE_BYTES"
    and st: "store_extents dev ino (node\<lparr>i_size := max (i_size node) ?stop, i_mtime := now\<rparr>) exts' (tx_free_runs freed fs5) = (Inr node', fs7)"
    and wi: "write_inode dev ino node' fs7 = (Inr u, fs')"
    by (rule write_inner_steps [OF assms(1,3-6,10)]) blast
  let ?R = "set (run_blocks_of runs)" and ?fs6 = "tx_free_runs freed fs5" and ?node1 = "node\<lparr>i_size := max (i_size node) ?stop, i_mtime := now\<rparr>"
  have ow: "distinct chain" "one_to_one exts" "set chain \<inter> phys exts = {}" "\<And>b. b \<in> set chain \<union> phys exts \<Longrightarrow> bits_get (f_bbits fs) b"
    using assms(5) by (auto simp: owned_def)
  have val: "valid_extents ?g 0 exts" using f(6) by (simp add: exts_in_def)
  have ok: "exts_ok exts" using val valid_extents_ok [OF g] by simp
  have ph: "phys exts \<inter> ?R = {}" using ow(4) rb(4) by auto
  note r = remap_phys [OF ok ow(2) rb(1,3) n rb(2) ph rm]
  have range': "data_start ?g \<le> b \<and> b < backup_sb ?g" if "b \<in> phys exts'" for b
    using that r(3) rb(4) phys_range [OF g val] by (auto simp: is_data_block_def)
  have val': "valid_extents ?g 0 exts'" by (rule valid_of_phys [OF g r(1) range'])
  have "phys exts' \<subseteq> {..<total_blocks ?g}" using range' geo_ok_sizes(1) [OF g] by fastforce
  then have len': "length exts' \<le> total_blocks ?g" by (rule length_le_phys [OF r(1,2)])
  have s6: "vol dev holds v1 ?fs6" "alloc_ok ?fs6" "meta_ok ?fs6" "tx_meta (f_tx ?fs6) = []" "f_geo ?fs6 = ?g"
    using s5 assms(2,8) by (simp_all add: alloc_ok_def meta_ok_def)
  have lv6: "lview v1 ?fs6 = v1" by (rule lv0 [OF s6(4)])
  have chr: "data_start ?g \<le> b \<and> b < backup_sb ?g" if "b \<in> set chain" for b using f(6) that by (auto simp: exts_in_def dest: chain_in_range)
  have v1: "v1 b = v b" if "b \<notin> ?R" for b using laid that by (simp add: laid_def)
  have cc: "exts_in ?g v1 ino node exts chain = exts_in ?g v ino node exts chain"
  proof (rule exts_in_cong)
    fix b assume "b \<in> set chain"
    then have "b \<notin> ?R" using ow(4) [of b] rb(4) [of b] by blast
    then show "v1 b = v b" by (rule v1)
  qed
  have in6: "exts_in (f_geo ?fs6) (lview v1 ?fs6) ino node exts chain"
    using f(6) unfolding s6(5) lv6 lv0 [OF assms(8)] cc .
  have used6: "\<forall>b \<in> set chain. bits_get (f_bbits ?fs6) b" using ow(4) rb(5) by simp
  have ino32: "ino < 2 ^ 32" using f(2) geo_ok_sizes(5) [OF g] by linarith
  obtain kept dropped new where kd: "chain = kept @ dropped" "node' = set_exts exts' (kept @ new) ?node1"
    "sum_list (map elen exts') \<le> u32_max" "length exts' \<le> u32_max" and sto: "stored dev holds v1 ino exts' kept dropped new ?fs6 fs7"
    using store_extents_stored [OF s6(1,3,2) in6 _ ow(1) used6 exts_extent_wf [OF r(1)] ino32 st] by auto
  have t7: "vol dev holds v1 fs7" "meta_ok fs7" "f_geo fs7 = ?g" "f_ibits fs7 = f_ibits fs" "f_poisoned fs7 = f_poisoned fs"
    and b7: "\<And>b. bits_get (f_bbits fs7) b \<longleftrightarrow> bits_get (f_bbits fs) b \<or> b \<in> ?R \<or> b \<in> set new"
    and new: "\<And>b. b \<in> set new \<Longrightarrow> is_data_block fs b \<and> \<not> bits_get (f_bbits fs) b \<and> b \<notin> ?R" "distinct new"
    and fr7: "tx_to_free (f_tx fs7) = freed @ map (\<lambda>b. (b, 1)) dropped" and ov7: "overlaid_blocks fs7 \<subseteq> set kept \<union> set new"
    and len7: "length (kept @ new) = div_ceil (length exts' - INLINE_EXTENTS) EXTENTS_PER_BLOCK"
    and ch7: "chain_in ?g (lview v1 fs7) ino (kept @ new) (drop INLINE_EXTENTS exts') (head_or (kept @ new))"
    using sto s5 s6(4,5) assms(9) rb(5) by (auto simp: stored_def is_data_block_def)
  have nr: "data_start ?g \<le> b \<and> b < backup_sb ?g \<and> b < 2 ^ 32" if "b \<in> set (kept @ new)" for b
    using that chr [of b] new(1) [of b] kd(1) geo_ok_sizes(1,4) [OF g] by (fastforce simp: is_data_block_def)
  have "inode_wf node" using f(4) decoded_inode_wf by (auto simp: inode_in_def)
  then have wf: "inode_wf node'" unfolding kd(2)
  proof (rule set_exts_wf [OF _ exts_extent_wf [OF r(1)] kd(3,4)])
    show "max (i_size node) ?stop < 2 ^ 64" using lim \<open>inode_wf node\<close> by (auto simp: MAX_FILE_BYTES_def BLOCK_SIZE_def inode_wf_def)
  qed (use assms(7) nr in auto)
  obtain x where x: "puts dev holds v1 fs7 fs' ((lview v1 fs7)(inode_blk ?g ino := x)) {inode_blk ?g ino}"
    "inode_in ?g (lview v1 fs') ino = Some node'"
    using write_inode_puts [OF t7(1,2) f(1) _ wf wi] f(2) t7(3) by auto
  note p = putsD [OF x(1)]
  have ib: "inode_blk ?g ino < data_start ?g" using inode_loc_eq(3) [OF g f(1,2)] .
  have "chain_in ?g (lview v1 fs') ino (kept @ new) = chain_in ?g (lview v1 fs7) ino (kept @ new)"
    using nr ib p(4) by (intro ext chain_in_cong) fastforce
  then have ein: "exts_in ?g (lview v1 fs') ino node' exts' (kept @ new)"
    unfolding kd(2) using ch7 by (intro set_exts_exts_in [OF len' val' _ len7]) simp
  have fa: "file_at v1 fs' ino node' exts' (kept @ new)"
    using f(1-3,5) x(2) ein p(3,6) t7(3,4) kd(2) by (simp add: file_at_def meta_step_def set_exts_def)
  have dj: "set kept \<inter> set dropped = {}" "distinct kept" using ow(1) kd(1) by auto
  have nc: "set new \<inter> set chain = {}" "set new \<inter> phys exts = {}" "set new \<inter> ?R = {}" using new(1) ow(4) by auto
  have cr: "set chain \<inter> ?R = {}" using ow(4) rb(4) by blast
  have "rewritten dev holds v fs ino exts chain v1 fs' exts' (kept @ new)"
    unfolding rewritten_def
  proof (intro conjI allI impI ballI)
    show "\<not> bits_get (f_bbits fs) b" if "b \<in> (set (kept @ new) \<union> phys exts') - (set chain \<union> phys exts)" for b
      using that r(3) new(1) rb(4) kd(1) by auto
    show "f_geo fs' = ?g" "f_ibits fs' = f_ibits fs" "f_poisoned fs' = f_poisoned fs" using p(3) t7 by (simp_all add: meta_step_def)
    show "distinct (kept @ new)" using dj nc(1) new(2) kd(1) by auto
    show "set (kept @ new) \<inter> phys exts' = {}" using r(3) ow(3) kd(1) nc cr by auto
    show "bits_get (f_bbits fs') b \<longleftrightarrow> bits_get (f_bbits fs) b \<or> b \<in> set (kept @ new) \<union> phys exts'" for b
      using p(3) b7 [of b] r(3) ow(4) [of b] kd(1) by (auto simp: meta_step_def)
    have "runs_in (tx_to_free (f_tx fs')) = runs_in freed \<union> set dropped"
      using p(3) fr7 by (auto simp: meta_step_def runs_in_def)
    moreover have "(set chain \<union> phys exts) - (set (kept @ new) \<union> phys exts') = runs_in freed \<union> set dropped"
      using r(3,4) kd(1) dj(1) nc ow(3) cr ph by auto
    ultimately show "runs_in (tx_to_free (f_tx fs')) = (set chain \<union> phys exts) - (set (kept @ new) \<union> phys exts')" by simp
    show "overlaid_blocks fs' \<subseteq> insert (inode_blk ?g ino) (set (kept @ new))" using p(5) ov7 by auto
    show "v1 b = v b" if "b \<notin> phys exts' - phys exts" for b using that v1 [of b] r(3) ph by auto
  qed (use p r(2) in auto)
  moreover have "file_byte v1 exts' q = new_byte v exts off data q" for q
    by (rule remap_bytes [OF ok r(1) rb(3) r(5) laid ph span])
  ultimately show ?thesis
    using fa kd(2) by (intro exI [of _ v1] exI [of _ exts'] exI [of _ "kept @ new"] exI [of _ node']) (simp add: set_exts_def)
qed

end

subsection \<open>The whole operation\<close>

text \<open>
  The file after the write: its bytes, its size, blocks of its own, and what was not its own kept.
\<close>

definition write_done :: "'d blockdevice \<Rightarrow> ('d \<Rightarrow> (nat \<Rightarrow> bytes) \<Rightarrow> bool) \<Rightarrow> (nat \<Rightarrow> bytes) \<Rightarrow> 'd fs3 \<Rightarrow> nat \<Rightarrow> inode \<Rightarrow> extent list \<Rightarrow>
    nat list \<Rightarrow> nat \<Rightarrow> bytes \<Rightarrow> 'd fs3 \<Rightarrow> bool" where
  "write_done dv hs v fs ino node exts chain off data fs' \<longleftrightarrow> (\<exists>v' node' exts' chain'.
     vol dv hs v' fs' \<and> fs_ok fs' \<and> \<not> f_poisoned fs' \<and> file_at v' fs' ino node' exts' chain' \<and> owned (f_bbits fs') exts' chain' \<and>
     i_size node' = max (i_size node) (off + length data) \<and> (\<forall>p. file_byte v' exts' p = new_byte v exts off data p) \<and>
     (\<forall>b. is_data_block fs b \<longrightarrow> bits_get (f_bbits fs) b \<longrightarrow> b \<notin> set chain \<union> phys exts \<longrightarrow> v' b = v b \<and> bits_get (f_bbits fs') b))"

context reliable_device
begin

lemma write_at_done:
  assumes "fs_ok fs" and "\<not> f_poisoned fs" and "vol dev holds v fs" and "file_at v fs ino node exts chain" and "owned (f_bbits fs) exts chain"
    and "data \<noteq> []" and "now < 2 ^ 64" and "write_at dev ino off data now fs = (Inr u, fs')"
  shows "write_done dev holds v fs ino node exts chain off data fs'"
proof -
  let ?g = "f_geo fs"
  define t where "t = tx_idle\<lparr>tx_active := True, tx_free_blocks0 := f_free_blocks fs, tx_free_inodes0 := f_free_inodes fs, tx_hint0 := f_alloc_hint fs\<rparr>"
  let ?fs1 = "fs\<lparr>f_tx := t\<rparr>"
  have t: "tx_meta t = []" "tx_to_free t = []" "tx_touched_bb t = []" "tx_touched_ib t = []" by (simp_all add: t_def tx_idle_def)
  have beg: "tx_begin fs = (Inr (), ?fs1)" using assms(2) by (simp add: tx_begin_def ready_def t_def)
  have idle: "f_tx fs = tx_idle" "alloc_ok fs" using assms(1) by (simp_all add: fs_ok_def)
  have inv1: "tx_inv fs ?fs1 \<and> touched_ok ?fs1" using tx_begin_cases [OF assms(1) beg] t by (auto simp: touched_ok_def)
  have g: "geo_ok ?g" using assms(3) by (simp add: vol_def)
  obtain fs2 where wi: "write_inner dev ino off data now ?fs1 = (Inr u, fs2)" and co: "tx_commit dev fs2 = (Inr (), fs')"
    using assms(2,8) beg by (auto simp: write_at_def ready_def txn_def elim!: bindr_InrE split: prod.splits sum.splits)
  have lv: "lview v ?fs1 = v" "lview v fs = v" using t idle by (simp_all add: lview_def fun_eq_iff tx_idle_def)
  have ok1: "alloc_ok ?fs1" "meta_ok ?fs1" using inv1 t by (simp_all add: tx_inv_def meta_ok_def)
  have fa1: "file_at v ?fs1 ino node exts chain" using assms(4) lv by (simp add: file_at_def)
  obtain v1 exts' chain' node' where rw: "rewritten dev holds v ?fs1 ino exts chain v1 fs2 exts' chain'"
    and fa: "file_at v1 fs2 ino node' exts' chain'" and sz: "i_size node' = max (i_size node) (off + length data)"
    and by1: "\<forall>p. file_byte v1 exts' p = new_byte v exts off data p"
    using write_inner_effect [OF _ ok1(2,1) fa1 _ assms(6,7) _ _ wi] assms(3,5) t by auto
  have w: "vol dev holds v1 fs2" "meta_ok fs2" "f_geo fs2 = ?g" "f_ibits fs2 = f_ibits fs" "f_poisoned fs2 = f_poisoned fs"
    "one_to_one exts'" "distinct chain'" "set chain' \<inter> phys exts' = {}"
    "\<And>b. bits_get (f_bbits fs2) b \<longleftrightarrow> bits_get (f_bbits fs) b \<or> b \<in> set chain' \<union> phys exts'"
    "runs_in (tx_to_free (f_tx fs2)) = (set chain \<union> phys exts) - (set chain' \<union> phys exts')"
    "overlaid_blocks fs2 \<subseteq> insert (inode_blk ?g ino) (set chain')" "\<And>b. b \<notin> phys exts' - phys exts \<Longrightarrow> v1 b = v b"
    "\<And>b. b \<in> (set chain' \<union> phys exts') - (set chain \<union> phys exts) \<Longrightarrow> \<not> bits_get (f_bbits fs) b"
    using rw by (auto simp: rewritten_def)
  have inv2: "tx_inv fs fs2 \<and> touched_ok fs2"
    using touched.keep_write_inner [OF inv1, of dev ino off data now] wi by (simp add: ends_def)
  have bb: "backup_sb (f_geo fs2) \<le> 64 * length (f_bbits fs2)" using alloc_ok_bounds(3) inv2 by (auto simp: tx_inv_def)
  obtain v' where c: "vol dev holds v' fs'" "f_tx fs' = tx_idle" "f_geo fs' = ?g" "f_ibits fs' = f_ibits fs" "f_poisoned fs' = f_poisoned fs"
    "\<And>b. bits_get (f_bbits fs') b \<longleftrightarrow> bits_get (f_bbits fs2) b \<and> b \<notin> runs_in (tx_to_free (f_tx fs2))"
    "\<And>b. itable_start ?g \<le> b \<Longrightarrow> v' b = lview v1 fs2 b"
    using tx_commit_effect [OF w(1,2) inv2 [THEN conjunct2] bb co] w(3-5) by auto
  have lv': "lview v' fs' = v'" using c(2) by (simp add: lview_def fun_eq_iff tx_idle_def)
  have f: "0 < ino" "ino \<le> inode_count ?g" "inode_in ?g (lview v1 fs2) ino = Some node'" "exts_in ?g (lview v1 fs2) ino node' exts' chain'"
    "bits_get (f_ibits fs) (ino - 1)" "i_kind node' = File"
    using fa w(3,4) unfolding file_at_def by auto
  note ib = inode_loc_eq(2,3) [OF g f(1,2)]
  have chr: "data_start ?g \<le> b \<and> b < backup_sb ?g" if "b \<in> set chain'" for b using f(4) that by (auto simp: exts_in_def dest: chain_in_range)
  have val: "valid_extents ?g 0 exts'" using f(4) by (simp add: exts_in_def)
  have okx: "exts_ok exts'" using val valid_extents_ok [OF g] by simp
  have phr: "data_start ?g \<le> b" if "b \<in> phys exts'" for b using phys_range(1) [OF g val that] .
  have it: "itable_start ?g \<le> b" if "data_start ?g \<le> b" for b using that geo_ok_sizes(3) [OF g] by linarith
  have "exts_in ?g v' ino node' exts' chain' = exts_in ?g (lview v1 fs2) ino node' exts' chain'"
    using chr it c(7) by (intro exts_in_cong) auto
  then have ein: "exts_in ?g v' ino node' exts' chain'" using f(4) by simp
  have iin: "inode_in ?g v' ino = Some node'" using f(3) c(7) [OF ib(1)] by (simp add: inode_in_def)
  have "file_at v' fs' ino node' exts' chain'" unfolding file_at_def lv' c(3,4) using f(1,2,5,6) ein iin by simp
  moreover have plain: "v' b = v1 b" if "data_start ?g \<le> b" "b \<notin> set chain'" for b
  proof -
    have "b \<notin> overlaid_blocks fs2" using w(11) that ib(2) by auto
    then show ?thesis using c(7) [OF it [OF that(1)]] by (simp add: lview_def domIff)
  qed
  have "file_byte v' exts' p = new_byte v exts off data p" for p
    using file_byte_cong [OF okx, of v' v1 p] plain phr w(8) by1 by fastforce
  moreover have "owned (f_bbits fs') exts' chain'" using c(6) w(6-10) by (auto simp: owned_def)
  moreover have "v' b = v b \<and> bits_get (f_bbits fs') b"
    if b: "is_data_block fs b" "bits_get (f_bbits fs) b" "b \<notin> set chain \<union> phys exts" for b
  proof -
    have no: "b \<notin> set chain'" "b \<notin> phys exts'" using w(13) [of b] b(2,3) by blast+
    have "v' b = v1 b" using plain [OF _ no(1)] b(1) by (simp add: is_data_block_def)
    then show ?thesis using w(9,12) [of b] w(10) c(6) [of b] no b by simp
  qed
  moreover have "fs_ok fs'"
    using run_op_ok [OF assms(1), of dev "OpWriteAt ino off data now"] assms(8) by (simp add: ends_def outcome_def)
  ultimately show ?thesis unfolding write_done_def using c(1,5) assms(2) sz by blast
qed

end

subsection \<open>Properties\<close>

lemma owned_phys_small: "phys small_exts = {6}"
  by (auto simp: phys_def covers_def lend_def)

lemma file_fs_ok: "fs_ok file_fs"
proof -
  have bb: "bits_get (f_bbits file_fs) b \<longleftrightarrow> b < 6 \<or> b = 6 \<or> b = 10 \<or> (11 \<le> b \<and> b < 64)" for b
    by (simp add: bits_get_set bits_get_fresh_bbits [OF small_geo_ok]) (auto simp: small_geo_def div_ceil_def backup_sb_def)
  have ib: "bits_get (f_ibits file_fs) b" if "b < 2" for b
    using that by (auto simp: bits_get_set fresh_ibits_def small_geo_def ROOT_INO_def TRASH_INO_def div_ceil_def less_2_cases_iff)
  have "f_free_blocks file_fs = card (free_set (f_bbits file_fs) 11)" "f_free_inodes file_fs = card (free_set (f_ibits file_fs) 8)"
    using count_free_spec [of "bits_set (fresh_bbits small_geo) 6" 11] count_free_spec [of "bits_set (fresh_ibits small_geo) 2" 8]
    by (simp_all add: file_fs_def small_fs_def) (simp_all add: small_geo_def)
  then show ?thesis
    using bb ib small_geo_ok
    by (simp add: fs_ok_def alloc_ok_def Let_def backup_sb_def ROOT_INO_def TRASH_INO_def tx_idle_def) (simp add: small_geo_def)
qed

lemma file_fs_owned: "owned (f_bbits file_fs) small_exts []"
proof -
  have "bits_get (f_bbits file_fs) 6" by (simp add: bits_get_set) (simp add: small_geo_def div_ceil_def)
  then show ?thesis unfolding owned_def owned_phys_small by (auto simp: one_to_one_def covers_def lend_def)
qed





end
