(* ===== verification/Machine.thy ===== *)
theory Machine
  imports Prelude
begin

text \<open>
  64-bit arithmetic shared by the kernel services: wrap-around, the mask \<open>a & !(m)\<close> at 64 bits, and
  rounding to a power of two.  A \<open>u64\<close> or \<open>usize\<close> is a natural number below \<open>2 ^ 64\<close>.
\<close>

unbundle bit_operations_syntax

definition u64_add :: "nat \<Rightarrow> nat \<Rightarrow> nat" where
  "u64_add a b = (a + b) mod 2 ^ 64"

definition u64_sub :: "nat \<Rightarrow> nat \<Rightarrow> nat" where
  "u64_sub a b = (a + 2 ^ 64 - b) mod 2 ^ 64"

definition sat_add64 :: "nat \<Rightarrow> nat \<Rightarrow> nat" where
  "sat_add64 a b = min (a + b) u64_max"

definition and_not :: "nat \<Rightarrow> nat \<Rightarrow> nat" where
  "and_not a m = unat ((word_of_nat a :: 64 word) AND NOT (word_of_nat m))"

lemma u64_add_small [simp]: "a + b < 2 ^ 64 \<Longrightarrow> u64_add a b = a + b"
  by (simp add: u64_add_def)

lemma u64_sub_small [simp]:
  assumes "b \<le> a" and "a < 2 ^ 64"
  shows "u64_sub a b = a - b"
proof -
  have "a + 2 ^ 64 - b = (a - b) + 2 ^ 64" using assms(1) by simp
  then show ?thesis unfolding u64_sub_def using assms(2) by (simp only: mod_add_self2) simp
qed

lemma checked_add_Some: "checked_add w a b = Some c \<longleftrightarrow> c = a + b \<and> a + b < 2 ^ w"
  by (auto simp: checked_add_def)

lemma checked_add_None: "checked_add w a b = None \<longleftrightarrow> 2 ^ w \<le> a + b"
  by (auto simp: checked_add_def)

lemma and_not_pow:
  assumes "a < 2 ^ 64" and "n < 64"
  shows "and_not a (2 ^ n - 1) = a - a mod 2 ^ n"
proof -
  have m: "(word_of_nat (2 ^ n - 1) :: 64 word) = mask n"
    by (simp add: mask_eq_exp_minus_1 of_nat_diff)
  have "and_not a (2 ^ n - 1) = push_bit n (drop_bit n a)"
  proof (rule bit_eqI)
    fix i
    have hi: "\<not> bit a i" if "64 \<le> i"
    proof -
      have "a < 2 ^ i" using assms(1) power_increasing [OF that, of "2 :: nat"] by linarith
      then show ?thesis by (simp add: bit_iff_odd)
    qed
    have "bit (and_not a (2 ^ n - 1)) i \<longleftrightarrow> i < 64 \<and> bit a i \<and> n \<le> i"
      unfolding and_not_def m by (auto simp: bit_unsigned_iff bit_and_iff bit_not_iff bit_mask_iff bit_of_nat_iff possible_bit_def)
    also have "\<dots> \<longleftrightarrow> bit (push_bit n (drop_bit n a)) i"
      using hi by (cases "i < 64") (auto simp: bit_push_bit_iff bit_drop_bit_eq)
    finally show "bit (and_not a (2 ^ n - 1)) i \<longleftrightarrow> bit (push_bit n (drop_bit n a)) i" .
  qed
  also have "\<dots> = a - a mod 2 ^ n"
    by (simp add: push_bit_eq_mult drop_bit_eq_div minus_mod_eq_div_mult)
  finally show ?thesis .
qed

lemma and_not_floor:
  assumes "a < 2 ^ 64" and "n < 64"
  shows "and_not a (2 ^ n - 1) \<le> a" "2 ^ n dvd and_not a (2 ^ n - 1)" "a < and_not a (2 ^ n - 1) + 2 ^ n"
proof -
  have "a mod 2 ^ n < 2 ^ n" "a mod 2 ^ n \<le> a" by simp_all
  then show "and_not a (2 ^ n - 1) \<le> a" "a < and_not a (2 ^ n - 1) + 2 ^ n" unfolding and_not_pow [OF assms] by linarith+
  show "2 ^ n dvd and_not a (2 ^ n - 1)" unfolding and_not_pow [OF assms] by (simp add: minus_mod_eq_div_mult)
qed

lemma pow2_and_pred: "(n :: nat) \<noteq> 0 \<and> n AND (n - 1) = 0 \<longleftrightarrow> (\<exists>k. n = 2 ^ k)"
proof (induction n rule: less_induct)
  case (less n)
  show ?case
  proof (cases "even n")
    case True
    then obtain m where m: "n = 2 * m" by blast
    show ?thesis
    proof (cases m)
      case 0
      then show ?thesis using m by simp
    next
      case (Suc j)
      have "n - 1 = 2 * (m - 1) + 1" using m Suc by simp
      then have "n AND (n - 1) = 2 * (m AND (m - 1))" unfolding m by (subst and_rec) simp
      then have "n \<noteq> 0 \<and> n AND (n - 1) = 0 \<longleftrightarrow> (\<exists>k. m = 2 ^ k)" using less.IH [of m] m Suc by simp
      also have "\<dots> \<longleftrightarrow> (\<exists>k. n = 2 ^ k)"
      proof
        show "\<exists>k. n = 2 ^ k" if "\<exists>k. m = 2 ^ k" using that m by (metis power_Suc)
        show "\<exists>k. m = 2 ^ k" if pw: "\<exists>k. n = 2 ^ k"
        proof -
          obtain k where k: "n = 2 ^ k" using pw by blast
          then obtain k' where "k = Suc k'" using True by (cases k) auto
          then show ?thesis using k m by auto
        qed
      qed
      finally show ?thesis .
    qed
  next
    case False
    then obtain m where m: "n = 2 * m + 1" using oddE by blast
    then have "n AND (n - 1) = 2 * m" using and_rec [of "2 * m + 1" "2 * m"] by simp
    moreover have "(\<exists>k. n = 2 ^ k) \<longleftrightarrow> m = 0"
    proof
      show "m = 0" if pw: "\<exists>k. n = 2 ^ k"
      proof -
        obtain k where "n = 2 ^ k" using pw by blast
        then show ?thesis using m False by (cases k) simp_all
      qed
      show "\<exists>k. n = 2 ^ k" if "m = 0" using that m by (intro exI [of _ 0]) simp
    qed
    ultimately show ?thesis using m by simp
  qed
qed

end
