(* ===== verification/Paging.thy ===== *)
theory Paging
  imports Machine
begin

text \<open>
  The paging arithmetic of \<^verbatim>\<open>system/paging.rs\<close>: page rounding, the indices of the four table levels,
  what a table entry means to a walk, and the layout of a thread stack above its guard page.
\<close>

definition PAGE_SIZE :: nat where "PAGE_SIZE = 4096"
definition ENTRY_PRESENT :: nat where "ENTRY_PRESENT = 1"
definition ENTRY_HUGE :: nat where "ENTRY_HUGE = 128"
definition ENTRY_ADDR_MASK :: nat where "ENTRY_ADDR_MASK = 0x000ffffffffff000"

definition page_floor :: "nat \<Rightarrow> nat" where
  "page_floor addr = and_not addr (PAGE_SIZE - 1)"

definition page_ceil :: "nat \<Rightarrow> nat option" where
  "page_ceil addr = map_option (\<lambda>v. and_not v (PAGE_SIZE - 1)) (checked_add 64 addr (PAGE_SIZE - 1))"

definition is_canonical :: "nat \<Rightarrow> bool" where
  "is_canonical addr = (let hi = drop_bit 47 addr in hi = 0 \<or> hi = 0x1ffff)"

definition table_indices :: "nat \<Rightarrow> nat list" where
  "table_indices vaddr =
     [drop_bit 39 vaddr AND 0x1ff, drop_bit 30 vaddr AND 0x1ff, drop_bit 21 vaddr AND 0x1ff, drop_bit 12 vaddr AND 0x1ff]"

datatype walk_step = Absent | Huge | Table nat | Leaf nat

definition walk_step_of :: "nat \<Rightarrow> nat \<Rightarrow> walk_step" where
  "walk_step_of level entry =
     (if entry AND ENTRY_PRESENT = 0 then Absent
      else let phys = entry AND ENTRY_ADDR_MASK in
        if level = 1 then Leaf phys
        else if (level = 3 \<or> level = 2) \<and> entry AND ENTRY_HUGE \<noteq> 0 then Huge
        else Table phys)"

definition without_present :: "nat \<Rightarrow> nat" where
  "without_present entry = and_not entry ENTRY_PRESENT"

definition guarded_block_size :: "nat \<Rightarrow> nat option" where
  "guarded_block_size usable =
     (if usable = 0 then None
      else case checked_add 64 usable (PAGE_SIZE - 1) of
          None \<Rightarrow> None
        | Some rounded \<Rightarrow> (case checked_add 64 (rounded div PAGE_SIZE) 1 of
            Some pages \<Rightarrow> checked_mul 64 pages PAGE_SIZE
          | None \<Rightarrow> None))"

record stack_parts =
  guard_start :: nat
  stack_bottom :: nat
  stack_top :: nat

definition stack_regions :: "nat \<Rightarrow> nat \<Rightarrow> stack_parts option" where
  "stack_regions base usable =
     (if base mod PAGE_SIZE \<noteq> 0 then None
      else case guarded_block_size usable of
          None \<Rightarrow> None
        | Some sz \<Rightarrow> (case checked_add 64 base PAGE_SIZE of
            None \<Rightarrow> None
          | Some bottom \<Rightarrow> (case checked_add 64 base sz of
              None \<Rightarrow> None
            | Some tp \<Rightarrow> Some \<lparr>guard_start = base, stack_bottom = bottom, stack_top = tp\<rparr>)))"

definition guard_hit :: "nat \<Rightarrow> nat \<Rightarrow> bool" where
  "guard_hit addr start \<longleftrightarrow> start \<le> addr \<and> addr - start < PAGE_SIZE"

definition initial_rsp :: "nat \<Rightarrow> nat" where
  "initial_rsp tp = u64_sub (and_not tp 0xF) 8"

lemma page_floor_eq: "a < 2 ^ 64 \<Longrightarrow> page_floor a = a - a mod PAGE_SIZE"
  using and_not_pow [of a 12] by (simp add: page_floor_def PAGE_SIZE_def)

lemma page_ceil_eq:
  "page_ceil a = (if a + (PAGE_SIZE - 1) < 2 ^ 64 then Some ((a + (PAGE_SIZE - 1)) div PAGE_SIZE * PAGE_SIZE) else None)"
  using and_not_pow [of "a + (PAGE_SIZE - 1)" 12] by (simp add: page_ceil_def checked_add_def PAGE_SIZE_def minus_mod_eq_div_mult)

lemma without_present_absent: "e < 2 ^ 64 \<Longrightarrow> walk_step_of level (without_present e) = Absent"
  using and_not_pow [of e 1]
  by (simp add: walk_step_of_def without_present_def ENTRY_PRESENT_def and_one_eq even_diff_nat)

text \<open>The four indices and the page offset are the low 48 bits of an address.\<close>

lemma index_bits: "n AND 0x1ff = n mod 512" for n :: nat
  using take_bit_eq_mask [of 9 n] by (simp add: take_bit_eq_mod mask_eq_exp_minus_1)

lemma table_indices_eq:
  "table_indices a = [a div 2 ^ 39 mod 512, a div 2 ^ 30 mod 512, a div 2 ^ 21 mod 512, a div 2 ^ 12 mod 512]"
  by (simp add: table_indices_def index_bits drop_bit_eq_div)

lemma table_indices_pages:
  "table_indices a = (let q = a div 4096 in [q div 2 ^ 27 mod 512, q div 2 ^ 18 mod 512, q div 2 ^ 9 mod 512, q mod 512])"
  by (simp add: table_indices_eq div_mult2_eq [symmetric])

lemma canonical_split:
  assumes "a < 2 ^ 64" and "is_canonical a"
  shows "a div 4096 = (if 256 \<le> hd (table_indices a) then 0xffff * 2 ^ 36 else 0) +
    foldl (\<lambda>acc i. acc * 512 + i) 0 (table_indices a)"
proof -
  define q where "q = a div 4096"
  have t_idx: "table_indices a = [q div 2 ^ 27 mod 512, q div 2 ^ 18 mod 512, q div 2 ^ 9 mod 512, q mod 512]"
    by (simp add: table_indices_pages q_def Let_def)
  define t u where "t = q div 2 ^ 27" and "u = t mod 256"
  have "t div 256 = 0 \<or> t div 256 = 0x1ffff"
    using assms(2) by (simp add: is_canonical_def Let_def drop_bit_eq_div q_def t_def div_mult2_eq [symmetric])
  then have "t = u \<or> t = 0xffff * 512 + (256 + u)"
    using div_mult_mod_eq [of t 256, folded u_def] by auto
  moreover have "u < 256" by (simp add: u_def)
  ultimately have tt: "t = (if 256 \<le> t mod 512 then 0xffff * 512 else 0) + t mod 512"
    using mod_mult_self3 [of "0xffff" 512 "256 + u"] by auto
  have "q div 512 div 512 div 512 = t" by (simp add: t_def div_mult2_eq [symmetric])
  then have "q = ((t * 512 + q div 2 ^ 18 mod 512) * 512 + q div 2 ^ 9 mod 512) * 512 + q mod 512"
    using div_mult_mod_eq [of q 512] div_mult_mod_eq [of "q div 512" 512] div_mult_mod_eq [of "q div 512 div 512" 512]
    by (simp add: div_mult2_eq [symmetric])
  moreover have "p = (if 256 \<le> m then 0xffff * 2 ^ 36 else 0) + foldl (\<lambda>acc i. acc * 512 + i) 0 [m, b, c, d]"
    if "p = ((r * 512 + b) * 512 + c) * 512 + d" "r = (if 256 \<le> m then 0xffff * 512 else 0) + m" for p r m b c d :: nat
    using that by simp
  ultimately show ?thesis
    unfolding t_idx t_def [symmetric] q_def [symmetric] using tt by simp
qed

lemma guarded_block_size_Some:
  assumes "guarded_block_size usable = Some sz"
  shows "0 < usable" "sz = (usable + 4095) div 4096 * 4096 + 4096" "sz < 2 ^ 64"
  using assms by (auto simp: guarded_block_size_def checked_add_def checked_mul_def PAGE_SIZE_def split: if_splits)

lemma initial_rsp_eq: "tp mod 4096 = 0 \<Longrightarrow> 4096 \<le> tp \<Longrightarrow> tp < 2 ^ 64 \<Longrightarrow> initial_rsp tp = tp - 8"
proof -
  assume a: "tp mod 4096 = 0" "4096 \<le> tp" "tp < 2 ^ 64"
  have "(16 :: nat) dvd 4096" by simp
  then have "tp mod 16 = 0" using a(1) dvd_trans [of 16 4096 tp] by (simp add: mod_eq_0_iff_dvd)
  then have "and_not tp 15 = tp" using and_not_pow [of tp 4] a(3) by simp
  then show ?thesis using a by (simp add: initial_rsp_def)
qed

text \<open>
  C27: A guarded stack is laid out as asked: whole pages, at least as many bytes as wanted and less
  than a page more, directly above one guard page; \<open>guard_hit\<close> recognises exactly the addresses of
  the guard page, and a new thread starts with an aligned stack pointer inside its stack.  The
  layout is refused only for a misaligned base, an empty stack or addresses that do not fit.
\<close>

theorem guarded_stack_layout:
  "(case stack_regions base usable of
      Some r \<Rightarrow> guard_start r = base \<and> stack_bottom r = base + PAGE_SIZE \<and> stack_top r < 2 ^ 64 \<and>
        usable \<le> stack_top r - stack_bottom r \<and> stack_top r - stack_bottom r < usable + PAGE_SIZE \<and>
        PAGE_SIZE dvd stack_bottom r \<and> PAGE_SIZE dvd stack_top r \<and>
        (\<forall>a. guard_hit a (guard_start r) = (a \<in> {guard_start r..<stack_bottom r})) \<and>
        initial_rsp (stack_top r) \<in> {stack_bottom r..<stack_top r} \<and> initial_rsp (stack_top r) mod 16 = 8
    | None \<Rightarrow> base mod PAGE_SIZE \<noteq> 0 \<or> usable = 0 \<or> 2 ^ 64 \<le> base + usable + 2 * PAGE_SIZE)"
proof (cases "stack_regions base usable")
  case None
  then show ?thesis
    by (auto simp: stack_regions_def guarded_block_size_def checked_add_def checked_mul_def PAGE_SIZE_def split: if_splits)
next
  case (Some r)
  then obtain sz where b: "base mod 4096 = 0" and sz: "guarded_block_size usable = Some sz" and l: "base + sz < 2 ^ 64"
    and r: "r = \<lparr>guard_start = base, stack_bottom = base + 4096, stack_top = base + sz\<rparr>"
    by (auto simp: stack_regions_def checked_add_def PAGE_SIZE_def split: if_splits option.splits)
  note s = guarded_block_size_Some [OF sz]
  have d: "sz mod 4096 = 0" "usable + 4096 \<le> sz" "sz < usable + 2 * 4096" using s(2) div_mult_mod_eq [of "usable + 4095" 4096] mod_less_divisor [of 4096 "usable + 4095"] by (simp, linarith, linarith)
  then obtain k where k: "base + sz = 4096 * k" using b by (metis dvd_add dvd_def mod_eq_0_iff_dvd)
  then have m: "(base + sz) mod 4096 = 0" by simp
  have p: "initial_rsp (base + sz) = base + sz - 8" using initial_rsp_eq [OF m _ l] d(2) by simp
  have "(base + sz - 8) mod 16 = 8"
  proof -
    have "base + sz - 8 = 8 + 16 * (256 * k - 1)" using k d(2) by simp
    then show ?thesis by simp
  qed
  moreover have "8192 \<le> sz" using s(1) by (simp add: s(2))
  ultimately show ?thesis
    using b d m s(1) l p by (simp add: Some r PAGE_SIZE_def guard_hit_def mod_eq_0_iff_dvd) auto
qed

theorem guarded_stack_layout_witness:
  "stack_regions 8192 5000 = Some \<lparr>guard_start = 8192, stack_bottom = 12288, stack_top = 20480\<rparr> \<and>
    initial_rsp 20480 \<in> {12288..<20480} \<and> initial_rsp 20480 mod 16 = 8"
proof -
  have "stack_regions 8192 5000 = Some \<lparr>guard_start = 8192, stack_bottom = 12288, stack_top = 20480\<rparr>"
    by (simp add: stack_regions_def guarded_block_size_def checked_add_def checked_mul_def PAGE_SIZE_def)
  then show ?thesis using guarded_stack_layout [of 8192 5000] by simp
qed

text \<open>
  C28: The table indices identify the page: two canonical addresses select the same four entries
  exactly when they lie in the same page.
\<close>

theorem table_indices_identify_page:
  assumes "a < 2 ^ 64" and "b < 2 ^ 64" and "is_canonical a" and "is_canonical b"
  shows "(table_indices a = table_indices b \<longleftrightarrow> page_floor a = page_floor b) \<and> list_all (\<lambda>i. i < 512) (table_indices a)"
proof -
  have "table_indices a = table_indices b \<longleftrightarrow> a div 4096 = b div 4096"
  proof
    show "a div 4096 = b div 4096" if "table_indices a = table_indices b"
      using canonical_split [OF assms(1,3)] canonical_split [OF assms(2,4)] that by simp
    show "table_indices a = table_indices b" if "a div 4096 = b div 4096"
      using that by (simp add: table_indices_pages)
  qed
  also have "\<dots> \<longleftrightarrow> page_floor a = page_floor b"
    using assms(1,2) by (simp add: page_floor_eq PAGE_SIZE_def minus_mod_eq_div_mult)
  finally show ?thesis by (simp add: table_indices_eq)
qed

theorem table_indices_identify_page_witness:
  "table_indices 0xffff800000201234 = table_indices 0xffff800000201fff \<longleftrightarrow> page_floor 0xffff800000201234 = page_floor 0xffff800000201fff"
  using table_indices_identify_page [of "0xffff800000201234" "0xffff800000201fff"]
  by (simp add: is_canonical_def drop_bit_eq_div)

end
