(* ===== verification/Frames.thy ===== *)
theory Frames
  imports Paging BTree "HOL-Library.Product_Lexorder"
begin

text \<open>
  The physical frame allocator of \<^verbatim>\<open>system/paging/frames.rs\<close>: usable regions with a bump pointer each and
  an ordered set of returned frames.  The locale \<open>frame_source\<close> states what a client relies on; every
  history of the allocator is one of the set of owned frames it presents.
\<close>

definition LOW_LIMIT :: nat where "LOW_LIMIT = 1048576"

datatype frame_error = Misaligned | OutOfRange | NotAllocated

record frame_region =
  r_start :: nat
  r_end :: nat
  r_next :: nat

record frame_alloc =
  fa_regions :: "frame_region list"
  fa_free :: "nat list"
  fa_total :: nat
  fa_used :: nat

definition trim_region :: "nat \<times> nat \<Rightarrow> (nat \<times> nat) option" where
  "trim_region se = (case se of (s, e) \<Rightarrow>
     let s = max s LOW_LIMIT in
     case map_option (\<lambda>s. and_not s (PAGE_SIZE - 1)) (checked_add 64 s (PAGE_SIZE - 1)) of
       None \<Rightarrow> None
     | Some s \<Rightarrow> let e = and_not e (PAGE_SIZE - 1) in if s < e then Some (s, e) else None)"

definition merge_region :: "nat \<times> nat \<Rightarrow> frame_region list \<Rightarrow> frame_region list" where
  "merge_region se merged = (case se of (s, e) \<Rightarrow>
     if merged \<noteq> [] \<and> s \<le> r_end (last merged)
     then butlast merged @ [(last merged)\<lparr>r_end := max (r_end (last merged)) e\<rparr>]
     else merged @ [\<lparr>r_start = s, r_end = e, r_next = s\<rparr>])"

definition frames_new :: "(nat \<times> nat) list \<Rightarrow> frame_alloc" where
  "frames_new regions =
     (let v = sort (List.map_filter trim_region regions);
          merged = fold merge_region v [];
          frames = foldl (\<lambda>n r. u64_add n ((r_end r - r_start r) div PAGE_SIZE)) 0 merged
      in \<lparr>fa_regions = merged, fa_free = [], fa_total = frames, fa_used = 0\<rparr>)"

fun bump_next :: "frame_region list \<Rightarrow> (nat \<times> frame_region list) option" where
  "bump_next [] = None"
| "bump_next (r # rs) =
     (if r_next r < r_end r then Some (r_next r, r\<lparr>r_next := u64_add (r_next r) PAGE_SIZE\<rparr> # rs)
      else map_option (\<lambda>(f, rs). (f, r # rs)) (bump_next rs))"

definition frames_alloc :: "frame_alloc \<Rightarrow> nat option \<times> frame_alloc" where
  "frames_alloc fa =
     (case fa_free fa of
        f # fs \<Rightarrow> (Some f, fa\<lparr>fa_free := fs, fa_used := u64_add (fa_used fa) 1\<rparr>)
      | [] \<Rightarrow> (case bump_next (fa_regions fa) of
          Some (f, rs) \<Rightarrow> (Some f, fa\<lparr>fa_regions := rs, fa_used := u64_add (fa_used fa) 1\<rparr>)
        | None \<Rightarrow> (None, fa)))"

definition partition_point :: "('a \<Rightarrow> bool) \<Rightarrow> 'a list \<Rightarrow> nat" where
  "partition_point p xs = length (takeWhile p xs)"

definition frames_free :: "nat \<Rightarrow> frame_alloc \<Rightarrow> (frame_error + unit) \<times> frame_alloc" where
  "frames_free frame fa =
     (if frame mod PAGE_SIZE \<noteq> 0 then (Inl Misaligned, fa)
      else let idx = partition_point (\<lambda>r. r_end r \<le> frame) (fa_regions fa) in
        if length (fa_regions fa) \<le> idx then (Inl OutOfRange, fa)
        else let r = fa_regions fa ! idx in
          if frame < r_start r then (Inl OutOfRange, fa)
          else if r_next r \<le> frame \<or> frame \<in> set (fa_free fa) then (Inl NotAllocated, fa)
          else (Inr (), fa\<lparr>fa_free := bs_insert frame (fa_free fa), fa_used := u64_sub (fa_used fa) 1\<rparr>))"

subsection \<open>The contract\<close>

datatype frame_op = AllocFrame | FreeFrame nat
datatype frame_result = Frame nat | NoFrame | Returned | Refused frame_error

text \<open>What the history of a frame source over the usable frames \<open>U\<close> may be when \<open>A\<close> is owned.\<close>

fun fair_history :: "nat set \<Rightarrow> nat set \<Rightarrow> (frame_op \<times> frame_result) list \<Rightarrow> bool" where
  "fair_history U A [] \<longleftrightarrow> True"
| "fair_history U A ((AllocFrame, Frame f) # h) \<longleftrightarrow> f \<in> U \<and> f \<notin> A \<and> fair_history U (insert f A) h"
| "fair_history U A ((AllocFrame, NoFrame) # h) \<longleftrightarrow> A = U \<and> fair_history U A h"
| "fair_history U A ((FreeFrame f, Returned) # h) \<longleftrightarrow> f \<in> A \<and> fair_history U (A - {f}) h"
| "fair_history U A ((FreeFrame f, Refused Misaligned) # h) \<longleftrightarrow> \<not> PAGE_SIZE dvd f \<and> fair_history U A h"
| "fair_history U A ((FreeFrame f, Refused OutOfRange) # h) \<longleftrightarrow> PAGE_SIZE dvd f \<and> f \<notin> U \<and> fair_history U A h"
| "fair_history U A ((FreeFrame f, Refused NotAllocated) # h) \<longleftrightarrow> f \<in> U \<and> f \<notin> A \<and> fair_history U A h"
| "fair_history U A (_ # h) \<longleftrightarrow> False"

definition frame_step :: "frame_op \<Rightarrow> frame_alloc \<Rightarrow> frame_result \<times> frame_alloc" where
  "frame_step p fa = (case p of
     AllocFrame \<Rightarrow> (case frames_alloc fa of (Some f, fa) \<Rightarrow> (Frame f, fa) | (None, fa) \<Rightarrow> (NoFrame, fa))
   | FreeFrame f \<Rightarrow> (case frames_free f fa of (Inr _, fa) \<Rightarrow> (Returned, fa) | (Inl e, fa) \<Rightarrow> (Refused e, fa)))"

fun frame_history :: "('s \<Rightarrow> frame_op \<Rightarrow> frame_result \<times> 's) \<Rightarrow> 's \<Rightarrow> frame_op list \<Rightarrow> (frame_op \<times> frame_result) list \<times> 's" where
  "frame_history step s [] = ([], s)"
| "frame_history step s (p # ps) =
     (let (r, s) = step s p; (h, s) = frame_history step s ps in ((p, r) # h, s))"

locale frame_source =
  fixes ok :: "'s \<Rightarrow> bool"
    and step :: "'s \<Rightarrow> frame_op \<Rightarrow> frame_result \<times> 's"
    and usable :: "'s \<Rightarrow> nat set"
    and owned :: "'s \<Rightarrow> nat set"
  assumes step_fair: "ok s \<Longrightarrow> step s p = (r, s') \<Longrightarrow>
      ok s' \<and> usable s' = usable s \<and> (\<forall>h. fair_history (usable s) (owned s) ((p, r) # h) \<longleftrightarrow> fair_history (usable s) (owned s') h)"
begin

lemma history_fair:
  "ok s \<Longrightarrow> frame_history step s ps = (h, s') \<Longrightarrow> ok s' \<and> usable s' = usable s \<and> fair_history (usable s) (owned s) h"
proof (induction ps arbitrary: s h)
  case (Cons p ps)
  obtain r t where st: "step s p = (r, t)" by fastforce
  obtain h' where h: "frame_history step t ps = (h', s')" "h = (p, r) # h'"
    using Cons.prems(2) st by (auto split: prod.splits)
  show ?case using step_fair [OF Cons.prems(1) st] Cons.IH [OF _ h(1)] h(2) by simp
qed simp

end

subsection \<open>The invariant\<close>

definition page_frames :: "nat \<Rightarrow> nat \<Rightarrow> nat set" where
  "page_frames s e = {f. PAGE_SIZE dvd f \<and> s \<le> f \<and> f < e}"

definition region_ok :: "frame_region \<Rightarrow> bool" where
  "region_ok r \<longleftrightarrow> LOW_LIMIT \<le> r_start r \<and> r_start r \<le> r_next r \<and> r_next r \<le> r_end r \<and> r_start r < r_end r \<and> r_end r < 2 ^ 64 \<and>
     PAGE_SIZE dvd r_start r \<and> PAGE_SIZE dvd r_next r \<and> PAGE_SIZE dvd r_end r"

definition regions_ok :: "frame_region list \<Rightarrow> bool" where
  "regions_ok rs \<longleftrightarrow> list_all region_ok rs \<and> sorted_wrt (\<lambda>a b. r_end a < r_start b) rs"

definition spanned :: "frame_region list \<Rightarrow> nat set" where
  "spanned rs = (\<Union>r \<in> set rs. page_frames (r_start r) (r_end r))"

definition bumped :: "frame_region list \<Rightarrow> nat set" where
  "bumped rs = (\<Union>r \<in> set rs. page_frames (r_start r) (r_next r))"

definition owned_frames :: "frame_alloc \<Rightarrow> nat set" where
  "owned_frames fa = bumped (fa_regions fa) - set (fa_free fa)"

definition frames_ok :: "frame_alloc \<Rightarrow> bool" where
  "frames_ok fa \<longleftrightarrow> regions_ok (fa_regions fa) \<and> sorted_wrt (<) (fa_free fa) \<and> set (fa_free fa) \<subseteq> bumped (fa_regions fa) \<and>
     fa_total fa = card (spanned (fa_regions fa)) \<and> fa_used fa = card (owned_frames fa)"

lemma page_frames_finite [simp]: "finite (page_frames s e)"
  by (rule finite_subset [of _ "{..<e}"]) (auto simp: page_frames_def)

lemma page_frames_empty [simp]: "e \<le> s \<Longrightarrow> page_frames s e = {}"
  by (auto simp: page_frames_def)

lemma page_frames_Suc:
  assumes "PAGE_SIZE dvd s" "PAGE_SIZE dvd n" "s \<le> n"
  shows "page_frames s (n + PAGE_SIZE) = insert n (page_frames s n)"
proof -
  obtain j where n: "n = PAGE_SIZE * j" using assms(2) by blast
  have uniq: "f = n" if f: "PAGE_SIZE dvd f" "n \<le> f" "f < n + PAGE_SIZE" for f
  proof -
    from f(1) obtain k where k: "f = PAGE_SIZE * k" ..
    then show ?thesis using f(2,3) n by (simp add: PAGE_SIZE_def)
  qed
  have pos: "n < n + PAGE_SIZE" by (simp add: PAGE_SIZE_def)
  have only: "PAGE_SIZE dvd f \<and> n \<le> f \<and> f < n + PAGE_SIZE \<longleftrightarrow> f = n" for f
    using uniq [of f] assms(2) pos by blast
  have "f \<in> page_frames s (n + PAGE_SIZE) \<longleftrightarrow> f \<in> insert n (page_frames s n)" for f
    using only [of f] assms(3) pos unfolding page_frames_def insert_iff mem_Collect_eq by linarith
  then show ?thesis by blast
qed

lemma page_frames_card:
  assumes "PAGE_SIZE dvd s" "PAGE_SIZE dvd e" "s \<le> e"
  shows "card (page_frames s e) = (e - s) div PAGE_SIZE"
proof -
  obtain j k where s: "s = PAGE_SIZE * j" and e: "e = PAGE_SIZE * k" using assms(1,2) by (auto elim!: dvdE)
  have jk: "j \<le> k" using assms(3) by (simp add: s e PAGE_SIZE_def)
  have "page_frames s e = (\<lambda>i. PAGE_SIZE * i) ` {j..<k}"
    by (auto simp: page_frames_def s e dvd_def PAGE_SIZE_def)
  then have "card (page_frames s e) = k - j" by (simp add: card_image inj_on_def PAGE_SIZE_def)
  then show ?thesis by (simp add: s e PAGE_SIZE_def flip: diff_mult_distrib2)
qed

lemma regions_simps [simp]:
  "regions_ok []" "spanned [] = {}" "bumped [] = {}"
  "regions_ok (r # rs) \<longleftrightarrow> region_ok r \<and> (\<forall>q \<in> set rs. r_end r < r_start q) \<and> regions_ok rs"
  "spanned (r # rs) = page_frames (r_start r) (r_end r) \<union> spanned rs"
  "bumped (r # rs) = page_frames (r_start r) (r_next r) \<union> bumped rs"
  by (auto simp: regions_ok_def spanned_def bumped_def)

lemma bumped_spanned: "regions_ok rs \<Longrightarrow> bumped rs \<subseteq> spanned rs"
  by (induction rs) (auto simp: region_ok_def page_frames_def)

lemma finite_spanned [simp]: "finite (spanned rs)" "finite (bumped rs)"
  by (simp_all add: spanned_def bumped_def)

lemma spanned_above: "regions_ok rs \<Longrightarrow> \<forall>q \<in> set rs. e < r_start q \<Longrightarrow> f \<in> spanned rs \<Longrightarrow> e < f"
  by (auto simp: spanned_def page_frames_def)

lemma bump_next_effect:
  "regions_ok rs \<Longrightarrow> case bump_next rs of
      None \<Rightarrow> bumped rs = spanned rs
    | Some (f, rs') \<Rightarrow> regions_ok rs' \<and> map r_start rs' = map r_start rs \<and> spanned rs' = spanned rs \<and>
        f \<in> spanned rs \<and> f \<notin> bumped rs \<and> bumped rs' = insert f (bumped rs)"
proof (induction rs)
  case (Cons r rs)
  then have r: "region_ok r" "\<forall>q \<in> set rs. r_end r < r_start q" "regions_ok rs" by auto
  show ?case
  proof (cases "r_next r < r_end r")
    case True
    have room: "r_next r + PAGE_SIZE \<le> r_end r"
    proof -
      obtain j k where "r_next r = PAGE_SIZE * j" "r_end r = PAGE_SIZE * k" using r(1) by (auto simp: region_ok_def elim!: dvdE)
      then show ?thesis using True by (simp add: PAGE_SIZE_def)
    qed
    have "r_next r \<notin> bumped rs"
      using bumped_spanned [OF r(3)] spanned_above [OF r(3,2)] True by (meson less_asym subsetD)
    moreover have "page_frames (r_start r) (r_next r + PAGE_SIZE) = insert (r_next r) (page_frames (r_start r) (r_next r))"
      by (rule page_frames_Suc) (use r(1) in \<open>auto simp: region_ok_def\<close>)
    moreover have "region_ok (r\<lparr>r_next := r_next r + PAGE_SIZE\<rparr>)" "r_next r + PAGE_SIZE < 2 ^ 64"
      using r(1) room by (auto simp: region_ok_def)
    ultimately show ?thesis using True r by (auto simp: page_frames_def region_ok_def)
  next
    case False
    then have e: "r_next r = r_end r" using r(1) by (simp add: region_ok_def)
    show ?thesis
    proof (cases "bump_next rs")
      case None
      then show ?thesis using Cons.IH [OF r(3)] e by simp
    next
      case (Some p)
      then obtain f rs' where p: "bump_next rs = Some (f, rs')" by (cases p) auto
      have ih: "regions_ok rs'" "map r_start rs' = map r_start rs" "spanned rs' = spanned rs" "f \<in> spanned rs" "f \<notin> bumped rs"
        "bumped rs' = insert f (bumped rs)"
        using Cons.IH [OF r(3)] p by auto
      have "r_end r < f" using spanned_above [OF r(3,2) ih(4)] .
      moreover have "\<forall>q \<in> set rs'. r_end r < r_start q" using r(2) ih(2) by (metis (no_types, lifting) image_eqI image_iff list.set_map)
      ultimately show ?thesis using ih r(1) p e by (auto simp: page_frames_def)
    qed
  qed
qed simp

text \<open>The region a frame is looked up in is the one that spans it.\<close>

lemma lookup_region:
  assumes "regions_ok rs" and "PAGE_SIZE dvd f"
  defines "i \<equiv> partition_point (\<lambda>r. r_end r \<le> f) rs"
  shows "f \<in> spanned rs \<longleftrightarrow> i < length rs \<and> r_start (rs ! i) \<le> f"
    and "f \<in> bumped rs \<longleftrightarrow> i < length rs \<and> r_start (rs ! i) \<le> f \<and> f < r_next (rs ! i)"
proof -
  have "(f \<in> spanned rs \<longleftrightarrow> i < length rs \<and> r_start (rs ! i) \<le> f) \<and>
    (f \<in> bumped rs \<longleftrightarrow> i < length rs \<and> r_start (rs ! i) \<le> f \<and> f < r_next (rs ! i))"
    unfolding i_def using assms(1)
  proof (induction rs)
    case (Cons r rs)
    then have r: "region_ok r" "\<forall>q \<in> set rs. r_end r < r_start q" "regions_ok rs" by auto
    show ?case
    proof (cases "r_end r \<le> f")
      case True
      then show ?thesis using Cons.IH [OF r(3)] r(1) by (auto simp: partition_point_def page_frames_def region_ok_def)
    next
      case False
      then have "f \<notin> spanned rs" "f \<notin> bumped rs"
        using spanned_above [OF r(3,2)] bumped_spanned [OF r(3)] by (meson less_asym not_le subsetD)+
      then show ?thesis using False assms(2) r(1) by (auto simp: partition_point_def page_frames_def region_ok_def)
    qed
  qed (simp add: partition_point_def)
  then show "f \<in> spanned rs \<longleftrightarrow> i < length rs \<and> r_start (rs ! i) \<le> f"
    "f \<in> bumped rs \<longleftrightarrow> i < length rs \<and> r_start (rs ! i) \<le> f \<and> f < r_next (rs ! i)" by blast+
qed

lemma spanned_page: "f \<in> spanned rs \<Longrightarrow> PAGE_SIZE dvd f"
  by (auto simp: spanned_def page_frames_def)

lemma owned_spanned: "frames_ok fa \<Longrightarrow> owned_frames fa \<subseteq> spanned (fa_regions fa)"
  using bumped_spanned by (auto simp: frames_ok_def owned_frames_def)

lemma finite_owned [simp]: "finite (owned_frames fa)"
  by (simp add: owned_frames_def)

lemma spanned_small: "regions_ok rs \<Longrightarrow> card (spanned rs) < 2 ^ 64"
proof -
  assume "regions_ok rs"
  then have "spanned rs \<subseteq> {1..<2 ^ 64}" by (fastforce simp: spanned_def page_frames_def regions_ok_def list_all_iff region_ok_def LOW_LIMIT_def)
  then have "card (spanned rs) \<le> card {1..<2 ^ 64 :: nat}" by (rule card_mono [rotated]) simp
  then show ?thesis by simp
qed

lemma used_small: "frames_ok fa \<Longrightarrow> fa_used fa < 2 ^ 64"
  using owned_spanned [of fa] spanned_small [of "fa_regions fa"] card_mono [of "spanned (fa_regions fa)" "owned_frames fa"]
  by (auto simp: frames_ok_def)

lemma frames_alloc_effect:
  assumes "frames_ok fa" and "frames_alloc fa = (r, fa')"
  shows "frames_ok fa' \<and> spanned (fa_regions fa') = spanned (fa_regions fa) \<and>
    (case r of Some f \<Rightarrow> f \<in> spanned (fa_regions fa) \<and> f \<notin> owned_frames fa \<and> owned_frames fa' = insert f (owned_frames fa)
     | None \<Rightarrow> owned_frames fa = spanned (fa_regions fa) \<and> fa' = fa)"
proof -
  have ok: "regions_ok (fa_regions fa)" "sorted_wrt (<) (fa_free fa)" "set (fa_free fa) \<subseteq> bumped (fa_regions fa)"
    "fa_total fa = card (spanned (fa_regions fa))" "fa_used fa = card (owned_frames fa)"
    using assms(1) by (simp_all add: frames_ok_def)
  have grow: "u64_add (fa_used fa) 1 = card (insert f (owned_frames fa))" if f: "f \<in> spanned (fa_regions fa)" "f \<notin> owned_frames fa" for f
  proof -
    have "card (insert f (owned_frames fa)) \<le> card (spanned (fa_regions fa))"
      using f owned_spanned [OF assms(1)] by (intro card_mono) auto
    then show ?thesis using f(2) ok(5) spanned_small [OF ok(1)] by (simp add: u64_add_def)
  qed
  show ?thesis
  proof (cases "fa_free fa")
    case (Cons f fs)
    then have f: "f \<notin> set fs" "sorted_wrt (<) fs" "f \<in> bumped (fa_regions fa)" "set fs \<subseteq> bumped (fa_regions fa)"
      using ok(2,3) by auto
    have o: "f \<notin> owned_frames fa" "owned_frames (fa\<lparr>fa_free := fs, fa_used := u\<rparr>) = insert f (owned_frames fa)" for u
      using Cons f by (auto simp: owned_frames_def)
    show ?thesis
      using assms(2) Cons f o grow [of f] bumped_spanned [OF ok(1)] ok by (auto simp: frames_alloc_def frames_ok_def)
  next
    case Nil
    then have o: "owned_frames fa = bumped (fa_regions fa)" by (simp add: owned_frames_def)
    show ?thesis
    proof (cases "bump_next (fa_regions fa)")
      case None
      then show ?thesis using assms bump_next_effect [OF ok(1)] Nil o by (simp add: frames_alloc_def)
    next
      case (Some p)
      then obtain f rs where p: "bump_next (fa_regions fa) = Some (f, rs)" by (cases p) auto
      have b: "regions_ok rs" "spanned rs = spanned (fa_regions fa)" "f \<in> spanned (fa_regions fa)" "f \<notin> bumped (fa_regions fa)"
        "bumped rs = insert f (bumped (fa_regions fa))"
        using bump_next_effect [OF ok(1)] p by auto
      have "owned_frames (fa\<lparr>fa_regions := rs, fa_used := u\<rparr>) = insert f (owned_frames fa)" for u
        using Nil b(5) by (simp add: owned_frames_def)
      then show ?thesis
        using assms(2) Nil p b o grow [of f] ok by (auto simp: frames_alloc_def frames_ok_def)
    qed
  qed
qed

lemma frames_free_effect:
  assumes "frames_ok fa" and "frames_free f fa = (r, fa')"
  shows "frames_ok fa' \<and> fa_regions fa' = fa_regions fa \<and>
    (case r of Inr _ \<Rightarrow> f \<in> owned_frames fa \<and> owned_frames fa' = owned_frames fa - {f}
     | Inl e \<Rightarrow> fa' = fa \<and> (case e of Misaligned \<Rightarrow> \<not> PAGE_SIZE dvd f
         | OutOfRange \<Rightarrow> PAGE_SIZE dvd f \<and> f \<notin> spanned (fa_regions fa)
         | NotAllocated \<Rightarrow> f \<in> spanned (fa_regions fa) \<and> f \<notin> owned_frames fa))"
proof (cases "PAGE_SIZE dvd f")
  case False
  then show ?thesis using assms by (auto simp: frames_free_def dvd_eq_mod_eq_0)
next
  case True
  have ok: "regions_ok (fa_regions fa)" using assms(1) by (simp add: frames_ok_def)
  note l = lookup_region [OF ok True]
  show ?thesis
  proof (cases "f \<in> owned_frames fa")
    case owned: True
    then have b: "f \<in> bumped (fa_regions fa)" "f \<notin> set (fa_free fa)" by (auto simp: owned_frames_def)
    then have fa': "r = Inr ()" "fa' = fa\<lparr>fa_free := bs_insert f (fa_free fa), fa_used := u64_sub (fa_used fa) 1\<rparr>"
      using assms(2) True l(2) by (auto simp: frames_free_def dvd_eq_mod_eq_0 Let_def)
    have o: "owned_frames fa' = owned_frames fa - {f}" by (auto simp: fa' owned_frames_def bs_insert_set)
    have "0 < card (owned_frames fa)" using owned by (auto simp: card_gt_0_iff)
    then have "u64_sub (fa_used fa) 1 = card (owned_frames fa - {f})"
      using assms(1) owned used_small [OF assms(1)] by (simp add: frames_ok_def)
    then show ?thesis
      using assms(1) b owned o by (auto simp: fa' frames_ok_def bs_insert_set bs_insert_sorted)
  next
    case False
    then show ?thesis
      using assms True l by (auto simp: frames_free_def dvd_eq_mod_eq_0 Let_def owned_frames_def split: if_splits)
  qed
qed

interpretation frames: frame_source frames_ok "\<lambda>fa p. frame_step p fa" "\<lambda>fa. spanned (fa_regions fa)" owned_frames
proof
  fix fa p r fa'
  assume ok: "frames_ok fa" and st: "frame_step p fa = (r, fa')"
  show "frames_ok fa' \<and> spanned (fa_regions fa') = spanned (fa_regions fa) \<and>
    (\<forall>h. fair_history (spanned (fa_regions fa)) (owned_frames fa) ((p, r) # h) \<longleftrightarrow>
      fair_history (spanned (fa_regions fa)) (owned_frames fa') h)"
  proof (cases p)
    case AllocFrame
    obtain x where "frames_alloc fa = (x, fa')" using st AllocFrame by (auto simp: frame_step_def split: prod.splits option.splits)
    then show ?thesis
      using frames_alloc_effect [OF ok] st AllocFrame by (cases x) (auto simp: frame_step_def)
  next
    case (FreeFrame f)
    obtain x where x: "frames_free f fa = (x, fa')" using st FreeFrame by (auto simp: frame_step_def split: prod.splits sum.splits)
    show ?thesis
    proof (cases x)
      case (Inl e)
      then show ?thesis using frames_free_effect [OF ok x] st FreeFrame x by (cases e) (auto simp: frame_step_def)
    next
      case (Inr u)
      then show ?thesis using frames_free_effect [OF ok x] st FreeFrame x by (auto simp: frame_step_def)
    qed
  qed
qed

subsection \<open>Building the allocator\<close>

definition whole_frames :: "(nat \<times> nat) list \<Rightarrow> nat set" where
  "whole_frames regions = {f. PAGE_SIZE dvd f \<and> LOW_LIMIT \<le> f \<and> (\<exists>(s, e) \<in> set regions. s \<le> f \<and> f + PAGE_SIZE \<le> e)}"

definition page_range :: "nat \<times> nat \<Rightarrow> bool" where
  "page_range se \<longleftrightarrow> LOW_LIMIT \<le> fst se \<and> fst se < snd se \<and> snd se < 2 ^ 64 \<and> PAGE_SIZE dvd fst se \<and> PAGE_SIZE dvd snd se"

lemma floor_page:
  assumes "a < 2 ^ 64"
  shows "PAGE_SIZE dvd and_not a (PAGE_SIZE - 1)" "PAGE_SIZE dvd f \<Longrightarrow> f \<le> and_not a (PAGE_SIZE - 1) \<longleftrightarrow> f \<le> a"
proof -
  have p: "and_not a (PAGE_SIZE - 1) = a div PAGE_SIZE * PAGE_SIZE"
    using and_not_pow [OF assms, of 12] by (simp add: PAGE_SIZE_def minus_mod_eq_div_mult)
  show "PAGE_SIZE dvd and_not a (PAGE_SIZE - 1)" unfolding p by simp
  assume "PAGE_SIZE dvd f"
  then obtain k where k: "f = k * PAGE_SIZE" by (auto simp: dvd_def mult.commute)
  show "f \<le> and_not a (PAGE_SIZE - 1) \<longleftrightarrow> f \<le> a"
    unfolding p k using less_eq_div_iff_mult_less_eq [of PAGE_SIZE k a] by (simp add: PAGE_SIZE_def)
qed

lemma page_steps: "PAGE_SIZE dvd f \<Longrightarrow> PAGE_SIZE dvd e \<Longrightarrow> f + PAGE_SIZE \<le> e \<longleftrightarrow> f < e"
proof -
  assume "PAGE_SIZE dvd f" "PAGE_SIZE dvd e"
  then obtain j k where "f = PAGE_SIZE * j" "e = PAGE_SIZE * k" by (auto simp: dvd_def)
  then show ?thesis by (simp add: PAGE_SIZE_def) linarith
qed

lemma trim_region_frames:
  assumes "s < 2 ^ 64" and "e < 2 ^ 64"
  shows "case trim_region (s, e) of
      Some se \<Rightarrow> page_range se \<and> page_frames (fst se) (snd se) = whole_frames [(s, e)]
    | None \<Rightarrow> whole_frames [(s, e)] = {}"
proof -
  let ?s = "max s LOW_LIMIT" and ?e = "and_not e (PAGE_SIZE - 1)"
  have e: "PAGE_SIZE dvd ?e" "?e \<le> e" "\<And>f. PAGE_SIZE dvd f \<Longrightarrow> f + PAGE_SIZE \<le> e \<longleftrightarrow> f < ?e"
    using floor_page [OF assms(2)] page_steps by (auto simp flip: page_steps)
  have up: "f \<le> e \<Longrightarrow> False" if f: "PAGE_SIZE dvd f" "?s \<le> f" "2 ^ 64 \<le> ?s + (PAGE_SIZE - 1)" for f
    using page_steps [of f "2 ^ 64"] f assms(2) by (auto simp: PAGE_SIZE_def)
  show ?thesis
  proof (cases "?s + (PAGE_SIZE - 1) < 2 ^ 64")
    case False
    then have "trim_region (s, e) = None" by (simp add: trim_region_def checked_add_def)
    moreover have "f \<notin> whole_frames [(s, e)]" for f using up [of f] False by (auto simp: whole_frames_def)
    ultimately show ?thesis by auto
  next
    case True
    let ?t = "and_not (?s + (PAGE_SIZE - 1)) (PAGE_SIZE - 1)"
    have t: "PAGE_SIZE dvd ?t" "PAGE_SIZE dvd f \<Longrightarrow> ?t \<le> f \<longleftrightarrow> ?s \<le> f" for f
    proof -
      show d: "PAGE_SIZE dvd ?t" by (rule floor_page) (rule True)
      assume f: "PAGE_SIZE dvd f"
      then have "f + PAGE_SIZE \<le> ?t \<longleftrightarrow> f + PAGE_SIZE \<le> ?s + (PAGE_SIZE - 1)" by (intro floor_page(2) [OF True]) simp
      also have "\<dots> \<longleftrightarrow> f < ?s" by (auto simp: PAGE_SIZE_def)
      finally have "f < ?t \<longleftrightarrow> f < ?s" unfolding page_steps [OF f d] .
      then show "?t \<le> f \<longleftrightarrow> ?s \<le> f" by linarith
    qed
    have w: "whole_frames [(s, e)] = page_frames ?t ?e"
    proof (intro set_eqI)
      show "f \<in> whole_frames [(s, e)] \<longleftrightarrow> f \<in> page_frames ?t ?e" for f
        using t(2) [of f] e(3) [of f] by (auto simp: whole_frames_def page_frames_def)
    qed
    have "LOW_LIMIT \<le> ?t" using t(2) [of ?t] t(1) by simp
    then have "page_range (?t, ?e)" if "?t < ?e" using that t(1) e(1,2) assms(2) by (simp add: page_range_def)
    then show ?thesis using w True by (simp add: trim_region_def checked_add_def Let_def)
  qed
qed

lemma regions_snoc:
  "regions_ok (rs @ [r]) \<longleftrightarrow> regions_ok rs \<and> region_ok r \<and> (\<forall>q \<in> set rs. r_end q < r_start r)"
  "spanned (rs @ [r]) = spanned rs \<union> page_frames (r_start r) (r_end r)"
  by (auto simp: regions_ok_def spanned_def sorted_wrt_append)

definition fresh_regions :: "nat \<Rightarrow> frame_region list \<Rightarrow> bool" where
  "fresh_regions s rs \<longleftrightarrow> regions_ok rs \<and> list_all (\<lambda>r. r_next r = r_start r) rs \<and> (rs \<noteq> [] \<longrightarrow> r_start (last rs) \<le> s)"

lemma merge_region_fresh:
  assumes "fresh_regions s rs" and "page_range (s, e)"
  shows "fresh_regions s (merge_region (s, e) rs) \<and> spanned (merge_region (s, e) rs) = spanned rs \<union> page_frames s e"
proof (cases "rs \<noteq> [] \<and> s \<le> r_end (last rs)")
  case True
  then obtain xs l where rs: "rs = xs @ [l]" by (metis append_butlast_last_id)
  let ?l = "l\<lparr>r_end := max (r_end l) e\<rparr>"
  have l: "region_ok l" "r_start l \<le> s" "s \<le> r_end l" "r_next l = r_start l"
    using assms(1) True by (auto simp: rs fresh_regions_def regions_snoc)
  have "PAGE_SIZE dvd max (r_end l) e" using l(1) assms(2) by (simp add: region_ok_def page_range_def max_def)
  then have "region_ok ?l" using l assms(2) by (auto simp: region_ok_def page_range_def)
  moreover have "page_frames (r_start l) (max (r_end l) e) = page_frames (r_start l) (r_end l) \<union> page_frames s e"
    using l(2,3) by (auto simp: page_frames_def)
  moreover have "merge_region (s, e) rs = xs @ [?l]" using True by (simp add: merge_region_def rs)
  ultimately show ?thesis using assms(1) by (auto simp: fresh_regions_def regions_snoc rs)
next
  case False
  have all: "r_end q < s" if q: "q \<in> set rs" for q
  proof -
    obtain xs l where rs: "rs = xs @ [l]" using q by (metis append_butlast_last_id empty_iff list.set(1))
    have "r_start l \<le> r_end l" using assms(1) by (auto simp: rs fresh_regions_def regions_snoc region_ok_def)
    then show ?thesis using False q assms(1) by (fastforce simp: rs fresh_regions_def regions_snoc)
  qed
  let ?r = "\<lparr>r_start = s, r_end = e, r_next = s\<rparr>"
  have "region_ok ?r" using assms(2) by (simp add: region_ok_def page_range_def)
  moreover have "merge_region (s, e) rs = rs @ [?r]" using False by (auto simp: merge_region_def)
  ultimately show ?thesis using assms(1) all by (auto simp: fresh_regions_def regions_snoc)
qed

lemma merge_all_fresh:
  "sorted v \<Longrightarrow> list_all page_range v \<Longrightarrow> (v \<noteq> [] \<longrightarrow> fresh_regions (fst (hd v)) rs) \<Longrightarrow> regions_ok rs \<Longrightarrow>
    regions_ok (fold merge_region v rs) \<and> (list_all (\<lambda>r. r_next r = r_start r) rs \<longrightarrow> list_all (\<lambda>r. r_next r = r_start r) (fold merge_region v rs)) \<and>
    spanned (fold merge_region v rs) = spanned rs \<union> (\<Union>(s, e) \<in> set v. page_frames s e)"
proof (induction v arbitrary: rs)
  case (Cons se v)
  obtain s e where se: "se = (s, e)" by fastforce
  have m: "fresh_regions s (merge_region (s, e) rs)" "spanned (merge_region (s, e) rs) = spanned rs \<union> page_frames s e"
    using merge_region_fresh [of s rs e] Cons.prems by (simp_all add: se)
  have "fresh_regions (fst (hd v)) (merge_region (s, e) rs)" if "v \<noteq> []"
    using m(1) that Cons.prems(1) by (cases v) (auto simp: fresh_regions_def se less_eq_prod_def)
  then have "regions_ok (fold merge_region v (merge_region (s, e) rs)) \<and>
    list_all (\<lambda>r. r_next r = r_start r) (fold merge_region v (merge_region (s, e) rs)) \<and>
    spanned (fold merge_region v (merge_region (s, e) rs)) = spanned (merge_region (s, e) rs) \<union> (\<Union>(s, e) \<in> set v. page_frames s e)"
    using Cons.IH [of "merge_region (s, e) rs"] Cons.prems m(1) by (simp add: se fresh_regions_def)
  then show ?case using m(2) by (auto simp: se)
qed simp

lemma total_frames:
  "regions_ok rs \<Longrightarrow> n + card (spanned rs) < 2 ^ 64 \<Longrightarrow>
    foldl (\<lambda>n r. u64_add n ((r_end r - r_start r) div PAGE_SIZE)) n rs = n + card (spanned rs)"
proof (induction rs arbitrary: n)
  case (Cons r rs)
  have r: "region_ok r" "\<forall>q \<in> set rs. r_end r < r_start q" "regions_ok rs" using Cons.prems(1) by auto
  have "page_frames (r_start r) (r_end r) \<inter> spanned rs = {}"
    using spanned_above [OF r(3,2)] by (fastforce simp: page_frames_def)
  then have "card (spanned (r # rs)) = card (page_frames (r_start r) (r_end r)) + card (spanned rs)"
    by (simp add: card_Un_disjoint)
  also have "card (page_frames (r_start r) (r_end r)) = (r_end r - r_start r) div PAGE_SIZE"
    using r(1) by (intro page_frames_card) (auto simp: region_ok_def)
  finally show ?case using Cons.IH [OF r(3)] Cons.prems(2) by simp
qed simp

lemma trimmed_frames:
  "\<forall>(s, e) \<in> set regions. s < 2 ^ 64 \<and> e < 2 ^ 64 \<Longrightarrow>
    list_all page_range (List.map_filter trim_region regions) \<and>
    (\<Union>(s, e) \<in> set (List.map_filter trim_region regions). page_frames s e) = whole_frames regions"
proof (induction regions)
  case (Cons se regions)
  obtain s e where se: "se = (s, e)" by fastforce
  have "whole_frames (se # regions) = whole_frames [(s, e)] \<union> whole_frames regions" by (auto simp: whole_frames_def se)
  then show ?case
    using Cons trim_region_frames [of s e] by (cases "trim_region se") (auto simp: se map_filter_simps)
qed (simp add: whole_frames_def map_filter_simps)

lemma frames_new_ok:
  assumes "\<forall>(s, e) \<in> set regions. s < 2 ^ 64 \<and> e < 2 ^ 64"
  shows "frames_ok (frames_new regions)" "spanned (fa_regions (frames_new regions)) = whole_frames regions"
    "owned_frames (frames_new regions) = {}"
proof -
  let ?v = "sort (List.map_filter trim_region regions)"
  let ?m = "fold merge_region ?v []"
  have t: "list_all page_range ?v" "(\<Union>(s, e) \<in> set ?v. page_frames s e) = whole_frames regions"
    using trimmed_frames [OF assms] by (simp_all add: list_all_iff)
  have m: "regions_ok ?m" "list_all (\<lambda>r. r_next r = r_start r) ?m" "spanned ?m = whole_frames regions"
    using merge_all_fresh [OF _ t(1), of "[]"] t(2) by (simp_all add: fresh_regions_def)
  have b: "bumped ?m = {}" using m(2) by (auto simp: bumped_def list_all_iff page_frames_def)
  have f: "frames_new regions = \<lparr>fa_regions = ?m, fa_free = [], fa_total = card (spanned ?m), fa_used = 0\<rparr>"
    using total_frames [OF m(1), of 0] spanned_small [OF m(1)] by (simp add: frames_new_def Let_def)
  show "frames_ok (frames_new regions)" "spanned (fa_regions (frames_new regions)) = whole_frames regions"
    "owned_frames (frames_new regions) = {}"
    using m b by (simp_all add: f frames_ok_def owned_frames_def)
qed

text \<open>
  C25: Over any usable memory ranges, empty, overlapping and unsorted ones included, every history of
  the frame allocator is one of a set of owned frames: an allocation returns a whole page of the
  ranges above 1 MiB that nobody owns and fails only when all of them are owned; a frame is taken
  back exactly when it is owned, and each refusal has the reason it names.  The counters are the
  numbers of frames there are and of frames owned.
\<close>

theorem frame_allocator_refines_ownership:
  assumes "\<forall>(s, e) \<in> set regions. s < 2 ^ 64 \<and> e < 2 ^ 64"
  shows "case frame_history (\<lambda>fa p. frame_step p fa) (frames_new regions) ps of
    (h, fa) \<Rightarrow> fair_history (whole_frames regions) {} h \<and> fa_total fa = card (whole_frames regions) \<and> fa_used fa = card (owned_frames fa)"
proof -
  obtain h fa where h: "frame_history (\<lambda>fa p. frame_step p fa) (frames_new regions) ps = (h, fa)" by fastforce
  from frames.history_fair [OF frames_new_ok(1) [OF assms] h] show ?thesis
    by (simp add: h frames_new_ok(2,3) [OF assms] frames_ok_def)
qed

theorem frame_allocator_refines_ownership_witness:
  "case frame_history (\<lambda>fa p. frame_step p fa) (frames_new [(0x205000, 0x300123), (0, 0x206000)])
      [AllocFrame, AllocFrame, FreeFrame 0x100000, FreeFrame 0x100000, FreeFrame 12, AllocFrame] of
    (h, fa) \<Rightarrow> fair_history (whole_frames [(0x205000, 0x300123), (0, 0x206000)]) {} h \<and>
      fa_total fa = card (whole_frames [(0x205000, 0x300123), (0, 0x206000)]) \<and> fa_used fa = card (owned_frames fa)"
  by (rule frame_allocator_refines_ownership) simp

end
