(* ===== verification/Heap.thy ===== *)
theory Heap
  imports Machine
begin

text \<open>
  The arithmetic of the kernel heap, \<^verbatim>\<open>system/heap.rs\<close>: placing an aligned block in a free region
  without stranding a byte, and the size classes of small blocks.
\<close>

definition align_up :: "nat \<Rightarrow> nat \<Rightarrow> nat" where
  "align_up addr align = and_not (u64_sub (u64_add addr align) 1) (u64_sub align 1)"

definition is_power_of_two :: "nat \<Rightarrow> bool" where
  "is_power_of_two align \<longleftrightarrow> align \<noteq> 0 \<and> align AND (align - 1) = 0"

definition fit_region :: "nat \<Rightarrow> nat \<Rightarrow> nat \<Rightarrow> nat \<Rightarrow> nat \<Rightarrow> (nat \<times> nat) option" where
  "fit_region region_start region_size sz align min_block =
     (let alloc_start = align_up region_start align in
      case checked_add 64 alloc_start sz of
        None \<Rightarrow> None
      | Some alloc_end \<Rightarrow> (case checked_add 64 region_start region_size of
          None \<Rightarrow> None
        | Some region_end \<Rightarrow>
            if region_end < alloc_end then None
            else let excess = region_end - alloc_end in
              if 0 < excess \<and> excess < min_block then None else Some (alloc_start, excess)))"

record fit =
  fit_front :: nat
  fit_start :: nat
  fit_excess :: nat

definition fit_region_split :: "nat \<Rightarrow> nat \<Rightarrow> nat \<Rightarrow> nat \<Rightarrow> nat \<Rightarrow> fit option" where
  "fit_region_split region_start region_size sz align min_block =
     (if region_size < sz \<or> \<not> is_power_of_two align then None
      else case checked_add 64 region_start region_size of
        None \<Rightarrow> None
      | Some region_end \<Rightarrow> (case checked_add 64 region_start (align - 1) of
          None \<Rightarrow> None
        | Some rounded \<Rightarrow>
            let alloc_start = and_not rounded (align - 1) in
            case (if alloc_start \<noteq> region_start \<and> alloc_start - region_start < min_block
                  then checked_add 64 alloc_start align else Some alloc_start) of
              None \<Rightarrow> None
            | Some alloc_start \<Rightarrow> (case checked_add 64 alloc_start sz of
                None \<Rightarrow> None
              | Some alloc_end \<Rightarrow>
                  if region_end < alloc_end then None
                  else let excess = region_end - alloc_end in
                    if 0 < excess \<and> excess < min_block then None
                    else Some \<lparr>fit_front = alloc_start - region_start, fit_start = alloc_start, fit_excess = excess\<rparr>)))"

definition regions_adjacent :: "nat \<Rightarrow> nat \<Rightarrow> nat \<Rightarrow> bool" where
  "regions_adjacent a_start a_size b_start =
     (case checked_add 64 a_start a_size of Some e \<Rightarrow> e = b_start | None \<Rightarrow> False)"

definition adjust_request :: "nat \<Rightarrow> nat \<Rightarrow> nat \<Rightarrow> nat \<Rightarrow> nat \<times> nat" where
  "adjust_request sz align node_size node_align =
     (let align = max align node_align; sz = align_up (max sz node_size) node_align in (sz, align))"

definition SLAB_SIZE :: nat where "SLAB_SIZE = 64 * 1024"
definition SLAB_HEADER :: nat where "SLAB_HEADER = 64"
definition SLAB_CLASSES :: "nat list" where
  "SLAB_CLASSES = [16, 32, 48, 64, 80, 96, 112, 128, 160, 192, 224, 256, 320, 384, 448, 512, 640, 768, 896, 1024,
     1280, 1536, 1792, 2048]"
definition SLAB_MAX :: nat where "SLAB_MAX = 2048"

fun bit_length :: "nat \<Rightarrow> nat" where
  "bit_length n = (if n = 0 then 0 else Suc (bit_length (n div 2)))"

declare bit_length.simps [simp del]

definition leading_zeros :: "nat \<Rightarrow> nat" where
  "leading_zeros n = 64 - bit_length n"

definition slab_class :: "nat \<Rightarrow> nat \<Rightarrow> nat option" where
  "slab_class sz align =
     (if 16 < align \<or> SLAB_MAX < sz then None
      else let sz = max sz 1 in
        Some (if sz \<le> 128 then (sz - 1) div 16
          else let tp = 64 - 1 - leading_zeros (sz - 1);
                   step = push_bit (tp - 2) 1;
                   base = push_bit tp 1;
                   k = (sz - 1 - base) div step
               in 8 + (tp - 7) * 4 + k))"

definition slab_blocks :: "nat \<Rightarrow> nat" where
  "slab_blocks c = (SLAB_SIZE - SLAB_HEADER) div SLAB_CLASSES ! c"

subsection \<open>Alignment\<close>

lemma power_of_two_iff: "is_power_of_two a \<longleftrightarrow> (\<exists>k. a = 2 ^ k)"
  using pow2_and_pred [of a] by (simp add: is_power_of_two_def)

lemma pow2_small: "(2 :: nat) ^ k < 2 ^ 64 \<Longrightarrow> k < 64"
  by (rule power_less_imp_less_exp [of 2]) simp_all

text \<open>Rounding up gives the first multiple at or above the address.\<close>

lemma round_up:
  assumes "is_power_of_two al" and "al < 2 ^ 64" and "a + (al - 1) < 2 ^ 64"
  shows "al dvd and_not (a + (al - 1)) (al - 1)" "a \<le> and_not (a + (al - 1)) (al - 1)"
    "and_not (a + (al - 1)) (al - 1) < a + al" "al dvd a \<Longrightarrow> and_not (a + (al - 1)) (al - 1) = a"
proof -
  obtain k where k: "al = 2 ^ k" using assms(1) by (auto simp: power_of_two_iff)
  have pos: "0 < al" by (simp add: k)
  note f = and_not_floor [OF assms(3) pow2_small, of k, folded k, OF assms(2)]
  show d: "al dvd and_not (a + (al - 1)) (al - 1)" by (rule f(2))
  show up: "a \<le> and_not (a + (al - 1)) (al - 1)" "and_not (a + (al - 1)) (al - 1) < a + al"
    using f(1,3) pos by linarith+
  assume "al dvd a"
  then obtain j where j: "a = al * j" by blast
  obtain m where m: "and_not (a + (al - 1)) (al - 1) = al * m" using d by blast
  have "al * j \<le> al * m" "al * m < al * Suc j" using up [unfolded m] j by simp_all
  then have "j \<le> m" "m < Suc j" using pos nat_mult_le_cancel1 nat_mult_less_cancel1 by blast+
  then have "m = j" by simp
  then show "and_not (a + (al - 1)) (al - 1) = a" using m j by simp
qed

lemma align_up_eq:
  assumes "is_power_of_two al" and "al < 2 ^ 64" and "a + al < 2 ^ 64"
  shows "align_up a al = and_not (a + (al - 1)) (al - 1)"
proof -
  have "0 < al" using assms(1) by (auto simp: power_of_two_iff)
  then show ?thesis using assms by (simp add: align_up_def)
qed

lemma adjust_request_ok:
  assumes "is_power_of_two al" and "al < 2 ^ 64" and "sz < 2 ^ 63" and "adjust_request sz al 16 8 = (sz', al')"
  shows "is_power_of_two al'" "al' < 2 ^ 64" "8 \<le> al'" "al dvd al'" "8 dvd al'" "sz \<le> sz'" "16 \<le> sz'" "8 dvd sz'" "sz' < 2 ^ 63 + 8"
proof -
  have e: "is_power_of_two 8" by (simp add: power_of_two_iff) (rule exI [of _ 3], simp)
  obtain k where k: "al = 2 ^ k" using assms(1) by (auto simp: power_of_two_iff)
  have al': "al' = max al 8" and sz': "sz' = and_not (max sz 16 + 7) 7"
    using assms(3,4) align_up_eq [OF e, of "max sz 16"] by (simp_all add: adjust_request_def max_def)
  have "al' = 2 ^ max k 3" using power_increasing_iff [of "2 :: nat" k 3] by (auto simp: al' k max_def)
  then show "is_power_of_two al'" "al dvd al'" "8 dvd al'"
    using le_imp_power_dvd [of k "max k 3" "2 :: nat"] le_imp_power_dvd [of 3 "max k 3" "2 :: nat"]
    by (auto simp: power_of_two_iff k)
  show "al' < 2 ^ 64" "8 \<le> al'" using assms(2) by (simp_all add: al')
  note r = round_up [OF e, of "max sz 16"]
  show "8 dvd sz'" "sz \<le> sz'" "16 \<le> sz'" "sz' < 2 ^ 63 + 8" using r assms(3) by (auto simp: sz')
qed

subsection \<open>Fitting a block into a region\<close>

text \<open>The first place a block may start: the first aligned address that leaves no gap, or one that can be kept.\<close>

definition good_gap :: "nat \<Rightarrow> nat \<Rightarrow> bool" where
  "good_gap min_block n \<longleftrightarrow> n = 0 \<or> min_block \<le> n"

definition may_start :: "nat \<Rightarrow> nat \<Rightarrow> nat \<Rightarrow> nat \<Rightarrow> bool" where
  "may_start start al mb p \<longleftrightarrow> start \<le> p \<and> al dvd p \<and> good_gap mb (p - start)"

lemma next_multiple: "(al :: nat) dvd p \<Longrightarrow> al dvd q \<Longrightarrow> p < q \<Longrightarrow> p + al \<le> q"
  by (metis add.commute add_le_cancel_left dvd_diff_nat dvd_imp_le le_add_diff_inverse less_or_eq_imp_le zero_less_diff)

definition first_start :: "nat \<Rightarrow> nat \<Rightarrow> nat \<Rightarrow> nat \<Rightarrow> bool" where
  "first_start start al mb p \<longleftrightarrow> may_start start al mb p \<and> (\<forall>q < p. \<not> may_start start al mb q)"

lemma first_start_unique: "first_start start al mb p \<Longrightarrow> first_start start al mb q \<Longrightarrow> p = q"
  unfolding first_start_def by (meson linorder_neqE_nat)

lemma first_start_chosen:
  assumes "is_power_of_two al" and "al < 2 ^ 64" and "al dvd start \<or> mb \<le> al" and "start + (al - 1) < 2 ^ 64"
  defines "a \<equiv> and_not (start + (al - 1)) (al - 1)"
  shows "first_start start al mb (if a \<noteq> start \<and> a - start < mb then a + al else a)"
proof -
  have r: "al dvd a" "start \<le> a" "a < start + al" "al dvd start \<Longrightarrow> a = start"
    using round_up [OF assms(1,2,4)] unfolding a_def by blast+
  have below: "a \<le> q" if q: "al dvd q" "start \<le> q" for q
    using next_multiple [OF q(1) r(1)] q(2) r(3) by linarith
  show ?thesis
  proof (cases "a \<noteq> start \<and> a - start < mb")
    case True
    have "\<not> may_start start al mb q" if q: "q < a + al" for q
    proof
      assume m: "may_start start al mb q"
      then have "q = a" using below [of q] next_multiple [OF r(1), of q] q by (force simp: may_start_def)
      then show False using m True r(2) by (simp add: may_start_def good_gap_def)
    qed
    then show ?thesis using True r assms(3) by (auto simp: first_start_def may_start_def good_gap_def)
  next
    case False
    then show ?thesis using r below by (force simp: first_start_def may_start_def good_gap_def)
  qed
qed

lemma and_not_less: "and_not a m < 2 ^ 64"
  using unsigned_less [of "(word_of_nat a :: 64 word) AND NOT (word_of_nat m)"] by (simp add: and_not_def)

lemma fit_region_split_cases:
  "fit_region_split start len sz al mb = Some f \<longleftrightarrow>
     sz \<le> len \<and> is_power_of_two al \<and> start + len < 2 ^ 64 \<and> start + (al - 1) < 2 ^ 64 \<and>
     (let a = and_not (start + (al - 1)) (al - 1); p = (if a \<noteq> start \<and> a - start < mb then a + al else a) in
       p < 2 ^ 64 \<and> p + sz \<le> start + len \<and> good_gap mb (start + len - (p + sz)) \<and>
       f = \<lparr>fit_front = p - start, fit_start = p, fit_excess = start + len - (p + sz)\<rparr>)"
proof -
  define a where "a = and_not (start + (al - 1)) (al - 1)"
  define p where "p = (if a \<noteq> start \<and> a - start < mb then a + al else a)"
  have a: "a < 2 ^ 64" unfolding a_def by (rule and_not_less)
  have c: "(if a \<noteq> start \<and> a - start < mb then checked_add 64 a al else Some a) = (if p < 2 ^ 64 then Some p else None)"
    using a by (auto simp: p_def checked_add_def)
  show ?thesis
  proof (cases "sz \<le> len \<and> is_power_of_two al \<and> start + len < 2 ^ 64 \<and> start + (al - 1) < 2 ^ 64")
    case False
    then show ?thesis by (auto simp: fit_region_split_def checked_add_def)
  next
    case True
    then have k: "checked_add 64 start len = Some (start + len)" "checked_add 64 start (al - 1) = Some (start + (al - 1))"
      "\<not> (len < sz \<or> \<not> is_power_of_two al)" by (simp_all add: checked_add_def)
    have "fit_region_split start len sz al mb =
      (case (if p < 2 ^ 64 then Some p else None) of None \<Rightarrow> None
       | Some p \<Rightarrow> (case checked_add 64 p sz of None \<Rightarrow> None
         | Some e \<Rightarrow> if start + len < e then None
             else if 0 < start + len - e \<and> start + len - e < mb then None
             else Some \<lparr>fit_front = p - start, fit_start = p, fit_excess = start + len - e\<rparr>))"
      unfolding fit_region_split_def if_not_P [OF k(3)] k(1,2) option.case Let_def a_def [symmetric] c ..
    also have "\<dots> = (if p < 2 ^ 64 \<and> p + sz \<le> start + len \<and> good_gap mb (start + len - (p + sz))
      then Some \<lparr>fit_front = p - start, fit_start = p, fit_excess = start + len - (p + sz)\<rparr> else None)"
    proof (cases "p < 2 ^ 64 \<and> p + sz \<le> start + len")
      case fits: True
      then have "checked_add 64 p sz = Some (p + sz)" using True unfolding checked_add_Some by linarith
      then show ?thesis using fits by (simp add: good_gap_def not_less)
    next
      case False
      then show ?thesis by (auto simp: checked_add_def not_le)
    qed
    finally show ?thesis
      unfolding Let_def a_def [symmetric] p_def [symmetric] using True by auto
  qed
qed

lemma fit_region_split_spec:
  assumes "is_power_of_two al" and "al < 2 ^ 64" and "al dvd start \<or> mb \<le> al"
  shows "fit_region_split start len sz al mb = Some f \<longleftrightarrow>
    start + len < 2 ^ 64 \<and> first_start start al mb (fit_start f) \<and> fit_front f = fit_start f - start \<and>
    fit_start f + sz + fit_excess f = start + len \<and> good_gap mb (fit_excess f)" (is "?L \<longleftrightarrow> ?R")
proof
  let ?a = "and_not (start + (al - 1)) (al - 1)"
  assume L: ?L
  define p where "p = (if ?a \<noteq> start \<and> ?a - start < mb then ?a + al else ?a)"
  have f: "start + len < 2 ^ 64" "start + (al - 1) < 2 ^ 64" "p + sz \<le> start + len" "good_gap mb (start + len - (p + sz))"
    "f = \<lparr>fit_front = p - start, fit_start = p, fit_excess = start + len - (p + sz)\<rparr>"
    using L unfolding fit_region_split_cases Let_def p_def by blast+
  have "first_start start al mb p" unfolding p_def by (rule first_start_chosen [OF assms f(2)])
  then show ?R using f by simp
next
  assume R: ?R
  let ?a = "and_not (start + (al - 1)) (al - 1)"
  have p: "fit_start f < 2 ^ 64" "al dvd fit_start f" "start \<le> fit_start f" using R by (auto simp: first_start_def may_start_def)
  have pos: "0 < al" using assms(1) by (auto simp: power_of_two_iff)
  have "al dvd 2 ^ 64"
    using assms(1,2) pow2_small by (metis le_imp_power_dvd less_imp_le power_of_two_iff)
  then have "fit_start f + al \<le> 2 ^ 64" using next_multiple p(1,2) by blast
  then have s: "start + (al - 1) < 2 ^ 64" using p(3) pos by linarith
  have e: "fit_start f = (if ?a \<noteq> start \<and> ?a - start < mb then ?a + al else ?a)"
    using first_start_unique first_start_chosen [OF assms s] R by blast
  show ?L
    unfolding fit_region_split_cases Let_def e [symmetric]
  proof (intro conjI)
    show "f = \<lparr>fit_front = fit_start f - start, fit_start = fit_start f, fit_excess = start + len - (fit_start f + sz)\<rparr>"
      using R by (cases f) auto
    have "start + len - (fit_start f + sz) = fit_excess f" using R by linarith
    then show "good_gap mb (start + len - (fit_start f + sz))" using R by simp
  qed (use R assms(1) p s in auto)
qed

subsection \<open>Size classes\<close>

lemma bit_length_eq: "2 ^ k \<le> n \<Longrightarrow> n < 2 ^ Suc k \<Longrightarrow> bit_length n = Suc k"
proof (induction k arbitrary: n)
  case 0
  then have "n = 1" by simp
  then show ?case by (simp add: bit_length.simps)
next
  case (Suc k)
  then have "bit_length (n div 2) = Suc k" by simp
  then show ?case using Suc.prems by (subst bit_length.simps) simp
qed

text \<open>
  The class of a size above 128: with \<open>2 ^ t < size \<le> 2 ^ (t + 1)\<close> it is one of four, the size rounded up to a
  multiple of \<open>2 ^ (t - 2)\<close>.
\<close>

lemma slab_class_large:
  assumes "2 ^ t < sz" and "sz \<le> 2 ^ Suc t" and "128 < sz" and "sz \<le> 2048" and "al \<le> 16"
  shows "slab_class sz al = Some (8 + (t - 7) * 4 + (sz - 1 - 2 ^ t) div 2 ^ (t - 2))"
proof -
  have "bit_length (sz - 1) = Suc t" using assms(1,2) by (intro bit_length_eq) auto
  moreover have "(2 :: nat) ^ t < 2 ^ 11" using assms(1,4) by simp
  then have "t < 11" by (rule power_less_imp_less_exp [rotated]) simp
  ultimately show ?thesis
    using assms by (simp add: slab_class_def SLAB_MAX_def leading_zeros_def push_bit_eq_mult max_def)
qed

lemma slab_class_small:
  "16 * c < max sz 1 \<Longrightarrow> sz \<le> 16 * c + 16 \<Longrightarrow> c < 8 \<Longrightarrow> al \<le> 16 \<Longrightarrow> slab_class sz al = Some c"
proof -
  assume a: "16 * c < max sz 1" "sz \<le> 16 * c + 16" "c < 8" "al \<le> 16"
  have "(max sz 1 - 1) div 16 = c" by (rule div_nat_eqI) (use a in auto)
  then show ?thesis using a by (simp add: slab_class_def SLAB_MAX_def Let_def)
qed

lemma pow_quarter: "2 \<le> t \<Longrightarrow> (2 :: nat) ^ t = 4 * 2 ^ (t - 2)"
  by (auto simp: le_iff_add power_add)

lemma slab_class_step:
  assumes "2 ^ t + k * 2 ^ (t - 2) < sz" and "sz \<le> 2 ^ t + Suc k * 2 ^ (t - 2)" and "k < 4" and "7 \<le> t" and "t < 11" and "al \<le> 16"
  shows "slab_class sz al = Some (8 + (t - 7) * 4 + k)"
proof -
  have p: "(2 :: nat) ^ t = 4 * 2 ^ (t - 2)" using assms(4) by (intro pow_quarter) simp
  have "2 ^ t + Suc k * 2 ^ (t - 2) \<le> 2 ^ t + 4 * (2 :: nat) ^ (t - 2)" using assms(3) by (intro add_left_mono mult_le_mono1) simp
  then have top: "sz \<le> 2 ^ Suc t" using le_trans [OF assms(2)] p by simp
  have "2 ^ Suc t \<le> (2 :: nat) ^ 11" by (rule power_increasing) (use assms(5) in simp_all)
  moreover have "(2 :: nat) ^ 7 \<le> 2 ^ t" by (rule power_increasing) (use assms(4) in simp_all)
  moreover have "(sz - 1 - 2 ^ t) div 2 ^ (t - 2) = k" by (rule div_nat_eqI) (use assms(1,2) in \<open>auto simp: algebra_simps\<close>)
  ultimately show ?thesis using slab_class_large [of t sz al] assms top by simp
qed

lemma class_sizes:
  "c < 8 \<Longrightarrow> SLAB_CLASSES ! c = 16 * Suc c"
  "7 \<le> t \<Longrightarrow> t < 11 \<Longrightarrow> k < 4 \<Longrightarrow> SLAB_CLASSES ! (8 + (t - 7) * 4 + k) = 2 ^ t + Suc k * 2 ^ (t - 2)"
  "sorted SLAB_CLASSES" "length SLAB_CLASSES = 24"
proof -
  have "list_all (\<lambda>c. SLAB_CLASSES ! c = 16 * Suc c) [0..<8]" by code_simp
  then show "c < 8 \<Longrightarrow> SLAB_CLASSES ! c = 16 * Suc c" by (simp add: list_all_iff)
  have "list_all (\<lambda>t. list_all (\<lambda>k. SLAB_CLASSES ! (8 + (t - 7) * 4 + k) = 2 ^ t + Suc k * 2 ^ (t - 2)) [0..<4]) [7..<11]"
    by code_simp
  then show "7 \<le> t \<Longrightarrow> t < 11 \<Longrightarrow> k < 4 \<Longrightarrow> SLAB_CLASSES ! (8 + (t - 7) * 4 + k) = 2 ^ t + Suc k * 2 ^ (t - 2)"
    unfolding list_all_iff set_upt atLeastLessThan_iff Ball_def by blast
  show "sorted SLAB_CLASSES" "length SLAB_CLASSES = 24" by (simp_all add: SLAB_CLASSES_def)
qed

lemma find_class:
  assumes "c < 24" and "sz \<le> SLAB_CLASSES ! c" and "c = 0 \<or> SLAB_CLASSES ! (c - 1) < sz"
  shows "find (\<lambda>c. sz \<le> SLAB_CLASSES ! c) [0..<length SLAB_CLASSES] = Some c"
proof -
  have "\<not> sz \<le> SLAB_CLASSES ! j" if j: "j < c" for j
  proof -
    have "j \<le> c - 1" "c - 1 < length SLAB_CLASSES" "SLAB_CLASSES ! (c - 1) < sz" using j assms(1,3) by (auto simp: class_sizes(4))
    then show ?thesis using sorted_nth_mono [OF class_sizes(3)] by (meson leD order.trans)
  qed
  then show ?thesis using assms(1,2) by (auto simp: find_Some_iff class_sizes(4) intro!: exI [of _ c])
qed

text \<open>The class of every size: its block holds the request, and the block of the class below does not.\<close>

lemma slab_class_bounds:
  assumes "al \<le> 16" and "sz \<le> 2048"
  obtains c where "slab_class sz al = Some c" "c < 24" "sz \<le> SLAB_CLASSES ! c" "c = 0 \<or> SLAB_CLASSES ! (c - 1) < sz"
proof (cases "sz \<le> 128")
  case True
  define c where "c = (max sz 1 - 1) div 16"
  have c: "c < 8" "16 * c < max sz 1" "sz \<le> 16 * Suc c"
    using True div_mult_mod_eq [of "max sz 1 - 1" 16] mod_less_divisor [of 16 "max sz 1 - 1"]
    by (auto simp: c_def)
  have "c = 0 \<or> SLAB_CLASSES ! (c - 1) < sz" using class_sizes(1) [of "c - 1"] c by (cases c) auto
  then show ?thesis using that [of c] slab_class_small [of c sz al] class_sizes(1) [of c] c assms(1) by simp
next
  case False
  obtain t where t: "2 ^ t < sz" "sz \<le> 2 ^ Suc t" "7 \<le> t" "t < 11"
  proof -
    consider "sz \<le> 2 ^ 8" | "2 ^ 8 < sz" "sz \<le> 2 ^ 9" | "2 ^ 9 < sz" "sz \<le> 2 ^ 10" | "2 ^ 10 < sz" using not_le by blast
    then show ?thesis
    proof cases
      case 1 then show ?thesis using that [of 7] False by simp
    next
      case 2 then show ?thesis using that [of 8] by simp
    next
      case 3 then show ?thesis using that [of 9] by simp
    next
      case 4 then show ?thesis using that [of 10] assms(2) by simp
    qed
  qed
  define w where "w = (2 :: nat) ^ (t - 2)"
  have w: "0 < w" "(2 :: nat) ^ t = 4 * w" using t(3) pow_quarter [of t] by (simp_all add: w_def)
  define k where "k = (sz - 1 - 2 ^ t) div w"
  have k: "k < 4" using t(1,2) w by (auto simp: k_def less_mult_imp_div_less)
  have b: "2 ^ t + k * w < sz" "sz \<le> 2 ^ t + Suc k * w"
    using t(1) div_mult_mod_eq [of "sz - 1 - 2 ^ t" w, folded k_def] mod_less_divisor [OF w(1), of "sz - 1 - 2 ^ t"]
    unfolding mult_Suc by linarith+
  let ?c = "8 + (t - 7) * 4 + k"
  have "SLAB_CLASSES ! (?c - 1) < sz"
  proof (cases k)
    case 0
    show ?thesis
    proof (cases "t = 7")
      case True
      then show ?thesis using class_sizes(1) [of 7] 0 False by simp
    next
      case False
      have "?c - 1 = 8 + (t - 1 - 7) * 4 + 3" using False t(3) 0 by simp
      moreover have "2 ^ (t - 1) + Suc 3 * 2 ^ (t - 1 - 2) = (2 :: nat) ^ t"
        using pow_quarter [of "t - 1"] power_Suc [of "2 :: nat" "t - 1"] t(3) by simp
      ultimately show ?thesis using class_sizes(2) [of "t - 1" 3] False t 0 b by simp
    qed
  next
    case (Suc j)
    then show ?thesis using class_sizes(2) [of t j] t(3,4) k b(1) by (simp add: w_def add.assoc)
  qed
  then show ?thesis
    using that [of ?c] slab_class_step [of t k sz al] class_sizes(2) [of t k] t k b assms(1) by (simp add: w_def)
qed

text \<open>
  The size class is computed, not searched, and it is the first class of the table that is large
  enough; requests above 2048 bytes or aligned beyond 16 have none.
\<close>

lemma slab_class_is_smallest:
  "slab_class sz al =
    (if al \<le> 16 \<and> sz \<le> SLAB_MAX then find (\<lambda>c. sz \<le> SLAB_CLASSES ! c) [0..<length SLAB_CLASSES] else None)"
proof (cases "al \<le> 16 \<and> sz \<le> 2048")
  case True
  then obtain c where "slab_class sz al = Some c" "c < 24" "sz \<le> SLAB_CLASSES ! c" "c = 0 \<or> SLAB_CLASSES ! (c - 1) < sz"
    using slab_class_bounds [of al sz] by blast
  then show ?thesis using True find_class [of c sz] by (simp add: SLAB_MAX_def)
next
  case False
  then show ?thesis by (auto simp: slab_class_def SLAB_MAX_def)
qed

end
