(* ===== verification/HeapList.thy ===== *)
theory HeapList
  imports Heap
begin

text \<open>
  The linked-list allocator of the kernel heap, \<^verbatim>\<open>kernel/src/allocator.rs\<close>.  The list owns its nodes,
  which lie in the free memory they describe; it is the list of their start addresses and sizes in
  list order, without the sentinel head (of size 0, outside the heap, so never merged).  What a
  client may rely on is the locale \<open>block_allocator\<close>.
\<close>

type_synonym node_list = "(nat \<times> nat) list"

text \<open>The size and alignment of a node (two words).\<close>

definition node_size :: nat where "node_size = 16"
definition node_align :: nat where "node_align = 8"

record layout =
  l_size :: nat
  l_align :: nat

fun merge_with_next :: "node_list \<Rightarrow> node_list" where
  "merge_with_next ((a, n) # (b, m) # rest) =
     (if regions_adjacent a n b then (a, u64_add n m) # rest else (a, n) # (b, m) # rest)"
| "merge_with_next nodes = nodes"

definition add_free_region :: "nat \<Rightarrow> nat \<Rightarrow> node_list \<Rightarrow> node_list" where
  "add_free_region addr sz nodes =
     (let before = takeWhile (\<lambda>node. fst node < addr) nodes;
          after = dropWhile (\<lambda>node. fst node < addr) nodes;
          linked = merge_with_next ((addr, sz) # after)
      in if before = [] then linked
         else butlast before @ merge_with_next (last before # linked))"

definition list_init :: "nat \<Rightarrow> nat \<Rightarrow> node_list" where
  "list_init start sz = add_free_region start sz []"

fun find_region :: "nat \<Rightarrow> nat \<Rightarrow> node_list \<Rightarrow> ((nat \<times> nat) \<times> nat \<times> node_list) option" where
  "find_region sz align [] = None"
| "find_region sz align ((a, n) # rest) =
     (case fit_region_split a n sz align node_size of
        Some f \<Rightarrow> Some ((a, n), fit_start f, rest)
      | None \<Rightarrow> map_option (\<lambda>(region, start, rest). (region, start, (a, n) # rest)) (find_region sz align rest))"

definition list_alloc :: "layout \<Rightarrow> node_list \<Rightarrow> nat option \<times> node_list" where
  "list_alloc l nodes =
     (let (sz, align) = adjust_request (l_size l) (l_align l) node_size node_align in
      case find_region sz align nodes of
        Some ((region_start, region_size), alloc_start, nodes) \<Rightarrow>
          let alloc_end = u64_add alloc_start sz;
              excess = u64_sub (u64_add region_start region_size) alloc_end;
              front = u64_sub alloc_start region_start;
              nodes = (if 0 < front then add_free_region region_start front nodes else nodes);
              nodes = (if 0 < excess then add_free_region alloc_end excess nodes else nodes)
          in (Some alloc_start, nodes)
      | None \<Rightarrow> (None, nodes))"

definition list_dealloc :: "nat \<Rightarrow> layout \<Rightarrow> node_list \<Rightarrow> node_list" where
  "list_dealloc p l nodes =
     (let (sz, _) = adjust_request (l_size l) (l_align l) node_size node_align in add_free_region p sz nodes)"

definition list_free_bytes :: "node_list \<Rightarrow> nat" where
  "list_free_bytes nodes = foldl (\<lambda>t node. u64_add t (snd node)) 0 nodes"

subsection \<open>What a client relies on\<close>

definition layout_ok :: "layout \<Rightarrow> bool" where
  "layout_ok l \<longleftrightarrow> is_power_of_two (l_align l) \<and> l_align l < 2 ^ 64 \<and> l_size l < 2 ^ 63"

definition bytes_at :: "nat \<Rightarrow> nat \<Rightarrow> nat set" where
  "bytes_at p n = {p..<p + n}"

datatype heap_op = HAlloc layout | HFree nat

text \<open>A client: it remembers the blocks it holds and frees only those, with the layout it asked for.\<close>

fun client_step :: "(layout \<Rightarrow> 's \<Rightarrow> nat option \<times> 's) \<Rightarrow> (nat \<Rightarrow> layout \<Rightarrow> 's \<Rightarrow> 's) \<Rightarrow> heap_op \<Rightarrow> (nat \<rightharpoonup> layout) \<times> 's \<Rightarrow> (nat \<rightharpoonup> layout) \<times> 's" where
  "client_step alloc dealloc (HAlloc l) (live, s) =
     (case alloc l s of (Some p, s) \<Rightarrow> (live(p \<mapsto> l), s) | (None, s) \<Rightarrow> (live, s))"
| "client_step alloc dealloc (HFree p) (live, s) =
     (case live p of Some l \<Rightarrow> (live(p := None), dealloc p l s) | None \<Rightarrow> (live, s))"

definition client_run :: "(layout \<Rightarrow> 's \<Rightarrow> nat option \<times> 's) \<Rightarrow> (nat \<Rightarrow> layout \<Rightarrow> 's \<Rightarrow> 's) \<Rightarrow> heap_op list \<Rightarrow> 's \<Rightarrow> (nat \<rightharpoonup> layout) \<times> 's" where
  "client_run alloc dealloc ps s = fold (client_step alloc dealloc) ps (Map.empty, s)"

definition op_ok :: "heap_op \<Rightarrow> bool" where
  "op_ok p = (case p of HAlloc l \<Rightarrow> layout_ok l | HFree _ \<Rightarrow> True)"

locale block_allocator =
  fixes ok :: "'s \<Rightarrow> bool"
    and free :: "'s \<Rightarrow> nat set"
    and alloc :: "layout \<Rightarrow> 's \<Rightarrow> nat option \<times> 's"
    and dealloc :: "nat \<Rightarrow> layout \<Rightarrow> 's \<Rightarrow> 's"
    and room :: "layout \<Rightarrow> nat"
    and arena :: "nat set"
  assumes free_arena: "ok s \<Longrightarrow> free s \<subseteq> arena"
    and room_pos: "layout_ok l \<Longrightarrow> 0 < room l \<and> l_size l \<le> room l"
    and alloc_some: "ok s \<Longrightarrow> layout_ok l \<Longrightarrow> alloc l s = (Some p, s') \<Longrightarrow>
      ok s' \<and> l_align l dvd p \<and> node_align dvd p \<and> bytes_at p (room l) \<subseteq> free s \<and> free s' = free s - bytes_at p (room l)"
    and alloc_none: "ok s \<Longrightarrow> layout_ok l \<Longrightarrow> alloc l s = (None, s') \<Longrightarrow> s' = s"
    and dealloc_ok: "ok s \<Longrightarrow> layout_ok l \<Longrightarrow> node_align dvd p \<Longrightarrow> bytes_at p (room l) \<subseteq> arena \<Longrightarrow> bytes_at p (room l) \<inter> free s = {} \<Longrightarrow>
      ok (dealloc p l s) \<and> free (dealloc p l s) = free s \<union> bytes_at p (room l)"
begin

definition held_bytes :: "(nat \<rightharpoonup> layout) \<Rightarrow> nat set" where
  "held_bytes live = {x. \<exists>p l. live p = Some l \<and> x \<in> bytes_at p (room l)}"

definition held_ok :: "(nat \<rightharpoonup> layout) \<Rightarrow> 's \<Rightarrow> bool" where
  "held_ok live s \<longleftrightarrow> ok s \<and> finite (dom live) \<and>
     (\<forall>p l. live p = Some l \<longrightarrow> layout_ok l \<and> l_align l dvd p \<and> node_align dvd p \<and> bytes_at p (room l) \<inter> free s = {}) \<and>
     (\<forall>p l q m. live p = Some l \<longrightarrow> live q = Some m \<longrightarrow> p \<noteq> q \<longrightarrow> bytes_at p (room l) \<inter> bytes_at q (room m) = {}) \<and>
     free s \<union> held_bytes live = arena"

lemma alloc_held:
  assumes "held_ok live s" and "layout_ok l" and "alloc l s = (Some p, s')"
  shows "live p = None" "held_ok (live(p \<mapsto> l)) s'"
proof -
  have h: "ok s" "finite (dom live)" "free s \<union> held_bytes live = arena"
    and one: "\<And>q m. live q = Some m \<Longrightarrow> layout_ok m \<and> l_align m dvd q \<and> node_align dvd q \<and> bytes_at q (room m) \<inter> free s = {}"
    and two: "\<And>q m q' m'. live q = Some m \<Longrightarrow> live q' = Some m' \<Longrightarrow> q \<noteq> q' \<Longrightarrow> bytes_at q (room m) \<inter> bytes_at q' (room m') = {}"
    using assms(1) unfolding held_ok_def by blast+
  have a: "ok s'" "l_align l dvd p" "node_align dvd p" "bytes_at p (room l) \<subseteq> free s" "free s' = free s - bytes_at p (room l)"
    using alloc_some [OF h(1) assms(2,3)] by blast+
  have "p \<in> bytes_at q (room m)" if "layout_ok m" "q = p" for q m using that room_pos [of m] by (simp add: bytes_at_def)
  then show new: "live p = None" using one a(4) assms(2) by (metis IntI emptyE not_Some_eq subsetD)
  have u: "held_bytes (live(p \<mapsto> l)) = bytes_at p (room l) \<union> held_bytes live" using new by (auto simp: held_bytes_def, metis option.distinct(1))
  have o: "layout_ok m \<and> l_align m dvd q \<and> node_align dvd q \<and> bytes_at q (room m) \<inter> free s' = {}" if m: "(live(p \<mapsto> l)) q = Some m" for q m
  proof (cases "q = p")
    case True
    then show ?thesis using m a assms(2) by auto
  next
    case False
    then show ?thesis using m one [of q m] a(5) by auto
  qed
  have t: "bytes_at q (room m) \<inter> bytes_at q' (room m') = {}"
    if m: "(live(p \<mapsto> l)) q = Some m" "(live(p \<mapsto> l)) q' = Some m'" "q \<noteq> q'" for q m q' m'
  proof (cases "q = p \<or> q' = p")
    case True
    then show ?thesis using m one a(4) by (auto split: if_splits)
  next
    case False
    then show ?thesis using m two [of q m q' m'] by simp
  qed
  show "held_ok (live(p \<mapsto> l)) s'"
    unfolding held_ok_def using a h o t u by (auto simp: h(3) [symmetric])
qed

lemma free_held:
  assumes "held_ok live s" and "live p = Some l"
  shows "held_ok (live(p := None)) (dealloc p l s)"
proof -
  have h: "ok s" "finite (dom live)" "free s \<union> held_bytes live = arena"
    and one: "\<And>q m. live q = Some m \<Longrightarrow> layout_ok m \<and> l_align m dvd q \<and> node_align dvd q \<and> bytes_at q (room m) \<inter> free s = {}"
    and two: "\<And>q m q' m'. live q = Some m \<Longrightarrow> live q' = Some m' \<Longrightarrow> q \<noteq> q' \<Longrightarrow> bytes_at q (room m) \<inter> bytes_at q' (room m') = {}"
    using assms(1) unfolding held_ok_def by blast+
  have in_arena: "bytes_at p (room l) \<subseteq> arena" unfolding h(3) [symmetric] using assms(2) by (auto simp: held_bytes_def)
  have d: "ok (dealloc p l s)" "free (dealloc p l s) = free s \<union> bytes_at p (room l)"
    using dealloc_ok [OF h(1) _ _ in_arena] one [OF assms(2)] by blast+
  have u: "held_bytes (live(p := None)) \<union> bytes_at p (room l) = held_bytes live"
  proof (intro set_eqI)
    show "x \<in> held_bytes (live(p := None)) \<union> bytes_at p (room l) \<longleftrightarrow> x \<in> held_bytes live" for x
      using assms(2) by (cases "x \<in> bytes_at p (room l)") (auto simp: held_bytes_def, metis option.sel)
  qed
  have o: "layout_ok m \<and> l_align m dvd q \<and> node_align dvd q \<and> bytes_at q (room m) \<inter> free (dealloc p l s) = {}"
    if m: "(live(p := None)) q = Some m" for q m
    using m one [of q m] two [of q m p l] assms(2) by (auto simp: d(2) split: if_splits)
  have "free (dealloc p l s) \<union> held_bytes (live(p := None)) = arena"
    using h(3) u d(2) by blast
  moreover have "bytes_at q (room m) \<inter> bytes_at q' (room m') = {}"
    if m: "(live(p := None)) q = Some m" "(live(p := None)) q' = Some m'" "q \<noteq> q'" for q m q' m'
    using m two [of q m q' m'] by (simp split: if_splits)
  ultimately show ?thesis unfolding held_ok_def using d(1) h(2) o by simp
qed

lemma step_held:
  assumes "held_ok live s" and "op_ok p" and "client_step alloc dealloc p (live, s) = (live', s')"
  shows "held_ok live' s'"
proof (cases p)
  case (HAlloc l)
  obtain x t where x: "alloc l s = (x, t)" by fastforce
  show ?thesis
  proof (cases x)
    case None
    then show ?thesis using alloc_none [of s l t] x assms HAlloc by (auto simp: held_ok_def op_ok_def)
  next
    case (Some q)
    then show ?thesis using alloc_held(2) [OF assms(1)] x assms HAlloc by (auto simp: op_ok_def)
  qed
next
  case (HFree q)
  then show ?thesis using free_held [OF assms(1)] assms by (cases "live q") auto
qed

lemma run_held:
  assumes "ok s" and "free s = arena" and "list_all op_ok ps" and "client_run alloc dealloc ps s = (live, s')"
  shows "held_ok live s'"
proof -
  have "held_ok live s \<Longrightarrow> list_all op_ok ps \<Longrightarrow> fold (client_step alloc dealloc) ps (live, s) = (live', s') \<Longrightarrow> held_ok live' s'"
    for live live' s s' ps
  proof (induction ps arbitrary: live s)
    case (Cons p ps)
    obtain l t where "client_step alloc dealloc p (live, s) = (l, t)" by fastforce
    moreover from this have "held_ok l t" using step_held [OF Cons.prems(1), of p] Cons.prems(2) by auto
    ultimately show ?case using Cons.IH [of l t] Cons.prems(2,3) by simp
  qed simp
  moreover have "held_ok Map.empty s" using assms(1,2) by (simp add: held_ok_def held_bytes_def)
  ultimately show ?thesis using assms(3,4) unfolding client_run_def by blast
qed

lemma held_count:
  assumes "held_ok live s" and "finite arena"
  shows "card (free s) + (\<Sum>p \<in> dom live. room (the (live p))) = card arena"
proof -
  have h: "finite (dom live)" "free s \<union> held_bytes live = arena"
    and one: "\<And>q m. live q = Some m \<Longrightarrow> bytes_at q (room m) \<inter> free s = {}"
    and two: "\<And>q m q' m'. live q = Some m \<Longrightarrow> live q' = Some m' \<Longrightarrow> q \<noteq> q' \<Longrightarrow> bytes_at q (room m) \<inter> bytes_at q' (room m') = {}"
    using assms(1) unfolding held_ok_def by blast+
  have u: "held_bytes live = (\<Union>p \<in> dom live. bytes_at p (room (the (live p))))" by (rule set_eqI) (simp add: held_bytes_def dom_def, metis option.sel)
  have "card (held_bytes live) = (\<Sum>p \<in> dom live. card (bytes_at p (room (the (live p)))))"
    unfolding u
  proof (rule card_UN_disjoint)
    show "\<forall>p \<in> dom live. finite (bytes_at p (room (the (live p))))" by (simp add: bytes_at_def)
    show "\<forall>p \<in> dom live. \<forall>q \<in> dom live. p \<noteq> q \<longrightarrow> bytes_at p (room (the (live p))) \<inter> bytes_at q (room (the (live q))) = {}"
      using two by (metis domD option.sel)
  qed (rule h(1))
  also have "\<dots> = (\<Sum>p \<in> dom live. room (the (live p)))" by (simp add: bytes_at_def)
  finally have c: "card (held_bytes live) = (\<Sum>p \<in> dom live. room (the (live p)))" .
  have "free s \<inter> held_bytes live = {}" using one by (auto simp: held_bytes_def)
  then have "card arena = card (free s) + card (held_bytes live)"
    using card_Un_disjoint [of "free s" "held_bytes live"] h(2) assms(2) by (metis finite_Un)
  then show ?thesis using c by simp
qed

end

subsection \<open>The free list\<close>

definition node_ok :: "nat \<Rightarrow> nat \<Rightarrow> nat \<times> nat \<Rightarrow> bool" where
  "node_ok lo hi node \<longleftrightarrow> lo \<le> fst node \<and> fst node + snd node \<le> hi \<and> node_size \<le> snd node \<and> node_align dvd fst node \<and> node_align dvd snd node"

text \<open>Sorted, and with a gap between any two nodes: neighbours have been merged.\<close>

definition nodes_ok :: "nat \<Rightarrow> nat \<Rightarrow> node_list \<Rightarrow> bool" where
  "nodes_ok lo hi nodes \<longleftrightarrow> list_all (node_ok lo hi) nodes \<and> sorted_wrt (\<lambda>x y. fst x + snd x < fst y) nodes \<and> hi < 2 ^ 64"

definition free_set :: "node_list \<Rightarrow> nat set" where
  "free_set nodes = (\<Union>(a, n) \<in> set nodes. bytes_at a n)"

lemma free_set_simps [simp]:
  "free_set [] = {}" "free_set ((a, n) # nodes) = bytes_at a n \<union> free_set nodes" "free_set (xs @ ys) = free_set xs \<union> free_set ys"
  by (auto simp: free_set_def)

lemma nodes_ok_simps [simp]:
  "nodes_ok lo hi [] \<longleftrightarrow> hi < 2 ^ 64"
  "nodes_ok lo hi ((a, n) # nodes) \<longleftrightarrow> node_ok lo hi (a, n) \<and> (\<forall>y \<in> set nodes. a + n < fst y) \<and> nodes_ok lo hi nodes"
  "nodes_ok lo hi (xs @ ys) \<longleftrightarrow> nodes_ok lo hi xs \<and> nodes_ok lo hi ys \<and> (\<forall>x \<in> set xs. \<forall>y \<in> set ys. fst x + snd x < fst y)"
  by (auto simp: nodes_ok_def sorted_wrt_append)

lemma bytes_split: "bytes_at p (n + m) = bytes_at p n \<union> bytes_at (p + n) m"
  by (auto simp: bytes_at_def)

lemma merge_with_next_ok:
  assumes "node_ok lo hi (a, n)" and "nodes_ok lo hi rest" and "\<forall>y \<in> set rest. a + n \<le> fst y"
  shows "nodes_ok lo hi (merge_with_next ((a, n) # rest))" "free_set (merge_with_next ((a, n) # rest)) = bytes_at a n \<union> free_set rest"
    "\<forall>y \<in> set (merge_with_next ((a, n) # rest)). a \<le> fst y"
proof -
  have "nodes_ok lo hi (merge_with_next ((a, n) # rest)) \<and> free_set (merge_with_next ((a, n) # rest)) = bytes_at a n \<union> free_set rest \<and>
    (\<forall>y \<in> set (merge_with_next ((a, n) # rest)). a \<le> fst y)"
  proof (cases rest)
    case Nil
    then show ?thesis using assms by simp
  next
    case (Cons y zs)
    obtain b m where y: "y = (b, m)" by fastforce
    have r: "node_ok lo hi (b, m)" "\<forall>z \<in> set zs. b + m < fst z" "nodes_ok lo hi zs" "a + n \<le> b" "hi < 2 ^ 64"
      using assms(2,3) by (auto simp: Cons y nodes_ok_def)
    show ?thesis
    proof (cases "regions_adjacent a n b")
      case True
      then have e: "b = a + n" by (auto simp: regions_adjacent_def checked_add_def split: if_splits)
      then have s: "u64_add n m = n + m" using r(1,5) by (simp add: node_ok_def)
      have "node_ok lo hi (a, n + m)" using assms(1) r(1) by (auto simp: node_ok_def e)
      then show ?thesis using True r by (auto simp: Cons y s e bytes_split)
    next
      case False
      moreover have "a + n < 2 ^ 64" using r by (simp add: node_ok_def)
      ultimately have "a + n < b" using r(4) by (auto simp: regions_adjacent_def checked_add_def)
      then show ?thesis using False assms(1) r by (fastforce simp: Cons y)
    qed
  qed
  then show "nodes_ok lo hi (merge_with_next ((a, n) # rest))" "free_set (merge_with_next ((a, n) # rest)) = bytes_at a n \<union> free_set rest"
    "\<forall>y \<in> set (merge_with_next ((a, n) # rest)). a \<le> fst y" by blast+
qed

lemma nodes_apart:
  assumes "nodes_ok lo hi nodes" and "bytes_at p n \<inter> free_set nodes = {}" and "0 < n" and "(a, m) \<in> set nodes"
  shows "a < p \<Longrightarrow> a + m \<le> p" "p \<le> a \<Longrightarrow> p + n \<le> a"
proof -
  have d: "bytes_at p n \<inter> bytes_at a m = {}" using assms(2,4) by (auto simp: free_set_def)
  have m: "0 < m" using assms(1,4) by (auto simp: nodes_ok_def list_all_iff node_ok_def node_size_def)
  show "a < p \<Longrightarrow> a + m \<le> p" using d assms(3) by (fastforce simp: bytes_at_def)
  show "p \<le> a \<Longrightarrow> p + n \<le> a" using d m by (fastforce simp: bytes_at_def)
qed

lemma add_free_region_ok:
  assumes "nodes_ok lo hi nodes" and "node_ok lo hi (p, n)" and "bytes_at p n \<inter> free_set nodes = {}"
  shows "nodes_ok lo hi (add_free_region p n nodes)" "free_set (add_free_region p n nodes) = free_set nodes \<union> bytes_at p n"
proof -
  have n: "0 < n" using assms(2) by (simp add: node_ok_def node_size_def)
  define pre post where "pre = takeWhile (\<lambda>x. fst x < p) nodes" and "post = dropWhile (\<lambda>x. fst x < p) nodes"
  have nodes: "nodes = pre @ post" by (simp add: pre_def post_def)
  have ok: "nodes_ok lo hi pre" "nodes_ok lo hi post" using assms(1) by (simp_all add: nodes)
  have below: "fst x < p" if "x \<in> set pre" for x using that set_takeWhileD by (fastforce simp: pre_def)
  have ends: "fst x + snd x \<le> p" if x: "x \<in> set pre" for x
    using nodes_apart(1) [OF assms(1,3) n, of "fst x" "snd x"] below [OF x] x by (simp add: nodes)
  have above: "p + n \<le> fst y" if y: "y \<in> set post" for y
  proof -
    obtain z zs where z: "post = z # zs" using y by (cases post) auto
    have "p \<le> fst z" using hd_dropWhile [of "\<lambda>x. fst x < p" nodes] z by (simp add: post_def [symmetric])
    moreover have "fst z \<le> fst y" using ok(2) y by (cases z) (auto simp: z)
    ultimately show ?thesis using nodes_apart(2) [OF assms(1,3) n, of "fst y" "snd y"] y by (simp add: nodes)
  qed
  let ?l = "merge_with_next ((p, n) # post)"
  note l = merge_with_next_ok [OF assms(2) ok(2)]
  have l': "nodes_ok lo hi ?l" "free_set ?l = bytes_at p n \<union> free_set post" "\<forall>y \<in> set ?l. p \<le> fst y" using l above by blast+
  have e: "add_free_region p n nodes = (if pre = [] then ?l else butlast pre @ merge_with_next (last pre # ?l))"
    by (simp add: add_free_region_def Let_def pre_def post_def)
  have "nodes_ok lo hi (add_free_region p n nodes) \<and> free_set (add_free_region p n nodes) = free_set nodes \<union> bytes_at p n"
  proof (cases pre rule: rev_cases)
    case Nil
    then show ?thesis using l' e nodes by auto
  next
    case (snoc xs y)
    obtain a m where y: "y = (a, m)" by fastforce
    have x: "nodes_ok lo hi xs" "node_ok lo hi (a, m)" "\<forall>x \<in> set xs. fst x + snd x < a" using ok(1) by (auto simp: snoc y)
    have "\<forall>z \<in> set ?l. a + m \<le> fst z" using l'(3) ends [of y] by (auto simp: snoc y)
    then have k: "nodes_ok lo hi (merge_with_next ((a, m) # ?l))" "free_set (merge_with_next ((a, m) # ?l)) = bytes_at a m \<union> free_set ?l"
      "\<forall>z \<in> set (merge_with_next ((a, m) # ?l)). a \<le> fst z"
      using merge_with_next_ok [OF x(2) l'(1)] by blast+
    have "add_free_region p n nodes = xs @ merge_with_next ((a, m) # ?l)" using e by (simp add: snoc y)
    moreover have "\<forall>x \<in> set xs. \<forall>z \<in> set (merge_with_next ((a, m) # ?l)). fst x + snd x < fst z"
      using k(3) x(3) order.strict_trans2 by blast
    ultimately show ?thesis using k(1,2) x(1) l'(2) by (auto simp: nodes snoc y)
  qed
  then show "nodes_ok lo hi (add_free_region p n nodes)" "free_set (add_free_region p n nodes) = free_set nodes \<union> bytes_at p n" by blast+
qed

lemma find_region_Some:
  "find_region sz al nodes = Some ((a, n), p, rest) \<Longrightarrow>
    \<exists>xs ys f. nodes = xs @ (a, n) # ys \<and> rest = xs @ ys \<and> fit_region_split a n sz al node_size = Some f \<and> fit_start f = p"
proof (induction nodes arbitrary: rest)
  case (Cons node nodes)
  obtain b m where node: "node = (b, m)" by fastforce
  show ?case
  proof (cases "fit_region_split b m sz al node_size")
    case None
    then obtain rest' where r: "find_region sz al nodes = Some ((a, n), p, rest')" "rest = node # rest'"
      using Cons.prems by (auto simp: node)
    obtain xs ys f where "nodes = xs @ (a, n) # ys" "rest' = xs @ ys" "fit_region_split a n sz al node_size = Some f" "fit_start f = p"
      using Cons.IH [OF r(1)] by blast
    then have "node # nodes = (node # xs) @ (a, n) # ys" "rest = (node # xs) @ ys" using r(2) by simp_all
    then show ?thesis using \<open>fit_region_split a n sz al node_size = Some f\<close> \<open>fit_start f = p\<close> by blast
  next
    case (Some f)
    then show ?thesis using Cons.prems by (intro exI [of _ "[]"] exI [of _ nodes]) (auto simp: node)
  qed
qed simp

lemma find_region_None: "find_region sz al nodes = None \<Longrightarrow> (a, n) \<in> set nodes \<Longrightarrow> fit_region_split a n sz al node_size = None"
  by (induction nodes) (auto split: option.splits)

text \<open>Carving a block out of a node puts what is left before and after it back on the list.\<close>

lemma carve_ok:
  assumes "nodes_ok lo hi (xs @ (a, n) # ys)" and "a \<le> p" and "p + sz + e = a + n" and "good_gap node_size (p - a)" and "good_gap node_size e"
    and "node_align dvd p" and "node_align dvd sz"
  defines "fl1 \<equiv> (if 0 < p - a then add_free_region a (p - a) (xs @ ys) else xs @ ys)"
  defines "fl2 \<equiv> (if 0 < e then add_free_region (p + sz) e fl1 else fl1)"
  shows "nodes_ok lo hi fl2" "free_set fl2 = free_set (xs @ (a, n) # ys) - bytes_at p sz" "bytes_at p sz \<subseteq> free_set (xs @ (a, n) # ys)"
proof -
  have base: "nodes_ok lo hi (xs @ ys)" and node: "node_ok lo hi (a, n)" and
    gaps: "\<forall>x \<in> set xs. fst x + snd x < a" "\<forall>y \<in> set ys. a + n < fst y"
    using assms(1) by auto
  have apart: "bytes_at a n \<inter> free_set (xs @ ys) = {}"
    using gaps by (fastforce simp: free_set_def bytes_at_def)
  have parts: "bytes_at a n = bytes_at a (p - a) \<union> bytes_at p sz \<union> bytes_at (p + sz) e"
    "bytes_at a (p - a) \<inter> bytes_at p sz = {}" "bytes_at (p + sz) e \<inter> bytes_at p sz = {}" "bytes_at a (p - a) \<inter> bytes_at (p + sz) e = {}"
    using assms(2,3) by (auto simp: bytes_at_def)
  have da: "node_align dvd p - a" using node assms(6) by (simp add: node_ok_def dvd_diff_nat)
  have "e = a + n - (p + sz)" using assms(3) by simp
  then have de: "node_align dvd e" using node assms(6,7) by (simp add: node_ok_def)
  have 1: "nodes_ok lo hi fl1 \<and> free_set fl1 = free_set (xs @ ys) \<union> bytes_at a (p - a)"
  proof (cases "0 < p - a")
    case True
    then have "node_ok lo hi (a, p - a)" using node da assms(2-4) by (auto simp: node_ok_def good_gap_def)
    then show ?thesis
      using add_free_region_ok [OF base, of a "p - a"] apart parts(1) True by (auto simp: fl1_def)
  next
    case False
    then show ?thesis using base by (simp add: fl1_def bytes_at_def)
  qed
  have 2: "nodes_ok lo hi fl2 \<and> free_set fl2 = free_set fl1 \<union> bytes_at (p + sz) e"
  proof (cases "0 < e")
    case True
    then have "node_ok lo hi (p + sz, e)" using node de assms(2,3,5,6,7) by (auto simp: node_ok_def good_gap_def)
    moreover have "bytes_at (p + sz) e \<inter> free_set fl1 = {}" using 1 apart parts by blast
    ultimately show ?thesis using add_free_region_ok [of lo hi fl1 "p + sz" e] 1 True by (simp add: fl2_def)
  next
    case False
    then show ?thesis using 1 by (simp add: fl2_def bytes_at_def)
  qed
  show "nodes_ok lo hi fl2" using 2 by blast
  show "free_set fl2 = free_set (xs @ (a, n) # ys) - bytes_at p sz"
    using 1 2 parts apart by auto
  show "bytes_at p sz \<subseteq> free_set (xs @ (a, n) # ys)" using parts(1) by auto
qed

definition reserved :: "layout \<Rightarrow> nat" where
  "reserved l = fst (adjust_request (l_size l) (l_align l) node_size node_align)"

lemma adjusted:
  assumes "layout_ok l" and "adjust_request (l_size l) (l_align l) node_size node_align = (sz, al)"
  shows "is_power_of_two al" "al < 2 ^ 64" "l_align l dvd al" "node_align dvd al" "l_size l \<le> sz" "node_size \<le> sz" "node_align dvd sz"
    "node_size \<le> al \<or> al = node_align" "reserved l = sz"
proof -
  note a = adjust_request_ok [of "l_align l" "l_size l" sz al]
  have r: "adjust_request (l_size l) (l_align l) 16 8 = (sz, al)" using assms(2) by (simp add: node_size_def node_align_def)
  show "is_power_of_two al" "al < 2 ^ 64" "l_align l dvd al" "node_align dvd al" "l_size l \<le> sz" "node_size \<le> sz" "node_align dvd sz"
    using a r assms(1) by (simp_all add: layout_ok_def node_size_def node_align_def)
  have "8 \<le> al" "is_power_of_two al" using a r assms(1) by (simp_all add: layout_ok_def)
  then obtain k where k: "al = 2 ^ k" "(2 :: nat) ^ 3 \<le> 2 ^ k" by (auto simp: power_of_two_iff)
  then have "3 \<le> k" by (simp only: power_increasing_iff)
  then have "k = 3 \<or> (2 :: nat) ^ 4 \<le> 2 ^ k" by (cases "k = 3") (simp, intro disjI2 power_increasing, simp_all)
  then show "node_size \<le> al \<or> al = node_align" by (auto simp: k(1) node_size_def node_align_def)
  show "reserved l = sz" using assms(2) by (simp add: reserved_def)
qed

lemma list_alloc_some:
  assumes "nodes_ok lo hi nodes" and "layout_ok l" and "list_alloc l nodes = (Some p, nodes')"
  shows "nodes_ok lo hi nodes' \<and> l_align l dvd p \<and> node_align dvd p \<and> bytes_at p (reserved l) \<subseteq> free_set nodes \<and>
    free_set nodes' = free_set nodes - bytes_at p (reserved l)"
proof -
  obtain sz al where r: "adjust_request (l_size l) (l_align l) node_size node_align = (sz, al)" by fastforce
  note ad = adjusted [OF assms(2) r]
  obtain a n rest where f: "find_region sz al nodes = Some ((a, n), p, rest)"
    using assms(3) by (auto simp: list_alloc_def r Let_def split: option.splits)
  obtain xs ys ft where nodes: "nodes = xs @ (a, n) # ys" "rest = xs @ ys" and
    fit: "fit_region_split a n sz al node_size = Some ft" "fit_start ft = p"
    using find_region_Some [OF f] by blast
  have node: "node_ok lo hi (a, n)" "hi < 2 ^ 64" using assms(1) by (auto simp: nodes nodes_ok_def)
  then have "al dvd a \<or> node_size \<le> al" using ad(8) by (auto simp: node_ok_def)
  then have s: "first_start a al node_size p" "p + sz + fit_excess ft = a + n" "good_gap node_size (fit_excess ft)"
    using fit_region_split_spec [OF ad(1,2), of a node_size n sz ft] fit by auto
  have p: "a \<le> p" "al dvd p" "good_gap node_size (p - a)" using s(1) by (auto simp: first_start_def may_start_def)
  have small: "a + n < 2 ^ 64" using node by (simp add: node_ok_def)
  have e: "u64_add p sz = p + sz" "u64_sub (u64_add a n) (p + sz) = fit_excess ft" "u64_sub p a = p - a"
    using s(2) small p(1) by auto
  let ?fl1 = "if 0 < p - a then add_free_region a (p - a) (xs @ ys) else xs @ ys"
  let ?fl2 = "if 0 < fit_excess ft then add_free_region (p + sz) (fit_excess ft) ?fl1 else ?fl1"
  have res: "nodes' = ?fl2" using assms(3) by (simp add: list_alloc_def r f e Let_def nodes(2) split: if_splits)
  have "node_align dvd p" "l_align l dvd p" using p(2) ad(3,4) dvd_trans by blast+
  moreover note carve_ok [OF assms(1) [unfolded nodes(1)] p(1) s(2) p(3) s(3) calculation(1) ad(7)]
  ultimately show ?thesis unfolding res nodes(1) ad(9) by blast
qed

lemma list_alloc_none:
  assumes "list_alloc l nodes = (None, nodes')"
  shows "nodes' = nodes" "(a, n) \<in> set nodes \<Longrightarrow>
    fit_region_split a n (reserved l) (snd (adjust_request (l_size l) (l_align l) node_size node_align)) node_size = None"
proof -
  obtain sz al where r: "adjust_request (l_size l) (l_align l) node_size node_align = (sz, al)" by fastforce
  have "find_region sz al nodes = None" "nodes' = nodes"
    using assms by (auto simp: list_alloc_def r Let_def split: option.splits)
  then show "nodes' = nodes" "(a, n) \<in> set nodes \<Longrightarrow>
    fit_region_split a n (reserved l) (snd (adjust_request (l_size l) (l_align l) node_size node_align)) node_size = None"
    using find_region_None by (simp_all add: r reserved_def)
qed

lemma list_dealloc_ok:
  assumes "nodes_ok lo hi nodes" and "layout_ok l" and "node_align dvd p" and "bytes_at p (reserved l) \<subseteq> bytes_at lo (hi - lo)"
    and "bytes_at p (reserved l) \<inter> free_set nodes = {}"
  shows "nodes_ok lo hi (list_dealloc p l nodes) \<and> free_set (list_dealloc p l nodes) = free_set nodes \<union> bytes_at p (reserved l)"
proof -
  obtain sz al where r: "adjust_request (l_size l) (l_align l) node_size node_align = (sz, al)" by fastforce
  note ad = adjusted [OF assms(2) r]
  have "lo \<le> p" "p + sz \<le> hi"
    using assms(4) ad(6) unfolding ad(9) by (auto simp: bytes_at_def node_size_def dest: ivl_subset [THEN iffD1])
  then have "node_ok lo hi (p, sz)" using assms(3) ad(6,7) by (simp add: node_ok_def)
  then show ?thesis using add_free_region_ok [OF assms(1)] assms(5) unfolding ad(9) by (simp add: list_dealloc_def r)
qed

lemma free_set_arena: "nodes_ok lo hi nodes \<Longrightarrow> free_set nodes \<subseteq> bytes_at lo (hi - lo)"
  by (fastforce simp: nodes_ok_def free_set_def list_all_iff node_ok_def bytes_at_def)

interpretation heap_list: block_allocator "nodes_ok lo hi" free_set list_alloc list_dealloc reserved "bytes_at lo (hi - lo)" for lo hi
proof
  show "0 < reserved l \<and> l_size l \<le> reserved l" if l: "layout_ok l" for l
    using adjusted(5,6,9) [OF l prod.collapse [symmetric]] by (simp add: node_size_def)
  show "nodes_ok lo hi s' \<and> l_align l dvd p \<and> node_align dvd p \<and> bytes_at p (reserved l) \<subseteq> free_set s \<and> free_set s' = free_set s - bytes_at p (reserved l)"
    if "nodes_ok lo hi s" "layout_ok l" "list_alloc l s = (Some p, s')" for s l p s' using that by (rule list_alloc_some)
  show "s' = s" if "nodes_ok lo hi s" "layout_ok l" "list_alloc l s = (None, s')" for s l s' using that(3) by (rule list_alloc_none)
  show "nodes_ok lo hi (list_dealloc p l s) \<and> free_set (list_dealloc p l s) = free_set s \<union> bytes_at p (reserved l)"
    if "nodes_ok lo hi s" "layout_ok l" "node_align dvd p" "bytes_at p (reserved l) \<subseteq> bytes_at lo (hi - lo)" "bytes_at p (reserved l) \<inter> free_set s = {}"
    for s l p using that by (rule list_dealloc_ok)
qed (rule free_set_arena)

text \<open>The node list is determined by the bytes it covers.\<close>

lemma nodes_whole:
  assumes "nodes_ok lo hi nodes" and "free_set nodes = bytes_at lo (hi - lo)" and "lo < hi"
  shows "nodes = [(lo, hi - lo)]"
proof (cases nodes)
  case Nil
  then show ?thesis using assms(2,3) by (auto simp: bytes_at_def)
next
  case (Cons node rest)
  obtain a n where node: "node = (a, n)" by fastforce
  have ok: "lo \<le> a" "a + n \<le> hi" "0 < n" "\<forall>y \<in> set rest. a + n < fst y" "nodes_ok lo hi rest"
    using assms(1) by (auto simp: Cons node node_ok_def node_size_def)
  have below: "a + n < x" if "x \<in> free_set rest" for x using that ok(4) by (fastforce simp: free_set_def bytes_at_def)
  have f: "x \<in> bytes_at a n \<or> x \<in> free_set rest \<longleftrightarrow> lo \<le> x \<and> x < hi" for x
  proof -
    have "x \<in> bytes_at a n \<union> free_set rest \<longleftrightarrow> x \<in> bytes_at lo (hi - lo)" using assms(2) by (simp add: Cons node)
    then show ?thesis using assms(3) by (simp add: bytes_at_def)
  qed
  have "a = lo" using f [of lo] below [of lo] assms(3) ok(1) by (auto simp: bytes_at_def)
  moreover have "a + n = hi" using f [of "a + n"] below [of "a + n"] ok(1,2) by (auto simp: bytes_at_def)
  moreover have "rest = []"
  proof (rule ccontr)
    assume "rest \<noteq> []"
    then obtain b m ys where "rest = (b, m) # ys" by (cases rest) auto
    then have "a + n < b" "b + m \<le> hi" "0 < m" using ok(4,5) by (auto simp: node_ok_def node_size_def)
    then show False using \<open>a + n = hi\<close> by simp
  qed
  ultimately show ?thesis by (simp add: Cons node)
qed

lemma list_free_bytes_card:
  assumes "nodes_ok lo hi nodes"
  shows "list_free_bytes nodes = card (free_set nodes)"
proof -
  have small: "finite (free_set nodes) \<and> card (free_set nodes) < 2 ^ 64" if ok: "nodes_ok lo hi nodes" for nodes
  proof -
    have sub: "free_set nodes \<subseteq> bytes_at lo (hi - lo)" using free_set_arena [OF ok] .
    have fin: "finite (bytes_at lo (hi - lo))" by (simp add: bytes_at_def)
    have "card (free_set nodes) \<le> hi - lo" using card_mono [OF fin sub] by (simp add: bytes_at_def)
    moreover have "hi < 2 ^ 64" using ok by (simp add: nodes_ok_def)
    ultimately show ?thesis using finite_subset [OF sub fin] by simp
  qed
  have "t + card (free_set nodes) < 2 ^ 64 \<Longrightarrow> nodes_ok lo hi nodes \<Longrightarrow>
    foldl (\<lambda>t node. u64_add t (snd node)) t nodes = t + card (free_set nodes)" for t nodes
  proof (induction nodes arbitrary: t)
    case (Cons node nodes)
    obtain a n where node: "node = (a, n)" by fastforce
    have ok: "nodes_ok lo hi nodes" "\<forall>y \<in> set nodes. a + n < fst y" using Cons.prems(2) by (simp_all add: node)
    have "bytes_at a n \<inter> free_set nodes = {}" using ok(2) by (fastforce simp: free_set_def bytes_at_def)
    then have c: "card (free_set (node # nodes)) = n + card (free_set nodes)"
      using small [OF ok(1)] card_Un_disjoint [of "bytes_at a n" "free_set nodes"] by (simp add: node bytes_at_def)
    then have "u64_add t n = t + n" using Cons.prems(1) by simp
    then show ?case using Cons.IH [OF _ ok(1), of "t + n"] Cons.prems(1) c by (simp add: node)
  qed simp
  then show ?thesis using small [OF assms] assms by (simp add: list_free_bytes_def)
qed

text \<open>
  C24: Whatever a client asks for and gives back, the blocks it holds are aligned and large enough,
  lie in the heap and never overlap; the free bytes and the held ones add up to the heap, so none is
  lost; and when everything has been given back the free list is one region, the whole heap again.
\<close>

theorem heap_list_sound:
  assumes "node_align dvd start" and "node_align dvd len" and "node_size \<le> len" and "start + len < 2 ^ 64" and "list_all op_ok ps"
  shows "case client_run list_alloc list_dealloc ps (list_init start len) of (live, nodes) \<Rightarrow>
    (\<forall>p l. live p = Some l \<longrightarrow> l_align l dvd p \<and> l_size l \<le> reserved l \<and> start \<le> p \<and> p + reserved l \<le> start + len) \<and>
    (\<forall>p l q m. live p = Some l \<longrightarrow> live q = Some m \<longrightarrow> p < q \<longrightarrow> p + reserved l \<le> q) \<and>
    list_free_bytes nodes + (\<Sum>p \<in> dom live. reserved (the (live p))) = len \<and>
    (live = Map.empty \<longrightarrow> nodes = [(start, len)])"
proof -
  obtain live nodes where r: "client_run list_alloc list_dealloc ps (list_init start len) = (live, nodes)" by fastforce
  have i: "list_init start len = [(start, len)]" by (simp add: list_init_def add_free_region_def)
  let ?hi = "start + len"
  have ok: "nodes_ok start ?hi [(start, len)]" "free_set [(start, len)] = bytes_at start (?hi - start)"
    using assms by (auto simp: node_ok_def)
  have h: "heap_list.held_ok start ?hi live nodes"
    using heap_list.run_held [OF ok assms(5)] r unfolding i by blast
  then have n: "nodes_ok start ?hi nodes" unfolding heap_list.held_ok_def by blast
  have inside: "bytes_at p (reserved l) \<subseteq> bytes_at start len" if "live p = Some l" for p l
  proof -
    have "free_set nodes \<union> {x. \<exists>p l. live p = Some l \<and> x \<in> bytes_at p (reserved l)} = bytes_at start (?hi - start)"
      using h unfolding heap_list.held_ok_def heap_list.held_bytes_def by blast
    then show ?thesis using that by auto
  qed
  have pos: "0 < reserved l \<and> l_size l \<le> reserved l" if "live p = Some l" for p l
    using h that heap_list.room_pos unfolding heap_list.held_ok_def by blast
  have one: "l_align l dvd p \<and> l_size l \<le> reserved l \<and> start \<le> p \<and> p + reserved l \<le> ?hi" if l: "live p = Some l" for p l
  proof -
    have "l_align l dvd p" using h l unfolding heap_list.held_ok_def by blast
    then show ?thesis using inside [OF l] pos [OF l] by (auto simp: bytes_at_def)
  qed
  have two: "p + reserved l \<le> q" if l: "live p = Some l" "live q = Some m" "p < q" for p l q m
  proof -
    have "bytes_at p (reserved l) \<inter> bytes_at q (reserved m) = {}" using h l unfolding heap_list.held_ok_def by blast
    then have "q \<notin> bytes_at p (reserved l)" using pos [OF l(2)] by (auto simp: bytes_at_def)
    then show ?thesis using l(3) by (simp add: bytes_at_def)
  qed
  have "list_free_bytes nodes + (\<Sum>p \<in> dom live. reserved (the (live p))) = len"
    using heap_list.held_count [OF h] list_free_bytes_card [OF n] by (simp add: bytes_at_def)
  moreover have "nodes = [(start, len)]" if "live = Map.empty"
  proof -
    have "free_set nodes = bytes_at start (?hi - start)"
      using h that unfolding heap_list.held_ok_def heap_list.held_bytes_def by simp
    then show ?thesis using nodes_whole [OF n] assms(3) by (simp add: node_size_def)
  qed
  ultimately show ?thesis unfolding r prod.case using one two by blast
qed

theorem heap_list_sound_witness:
  "case client_run list_alloc list_dealloc [HAlloc \<lparr>l_size = 100, l_align = 64\<rparr>, HAlloc \<lparr>l_size = 3000, l_align = 8\<rparr>, HFree 4096]
      (list_init 4096 65536) of (live, nodes) \<Rightarrow>
    (\<forall>p l. live p = Some l \<longrightarrow> l_align l dvd p \<and> l_size l \<le> reserved l \<and> 4096 \<le> p \<and> p + reserved l \<le> 4096 + 65536) \<and>
    (\<forall>p l q m. live p = Some l \<longrightarrow> live q = Some m \<longrightarrow> p < q \<longrightarrow> p + reserved l \<le> q) \<and>
    list_free_bytes nodes + (\<Sum>p \<in> dom live. reserved (the (live p))) = 65536 \<and>
    (live = Map.empty \<longrightarrow> nodes = [(4096, 65536)])"
  by (rule heap_list_sound) (simp_all add: node_align_def node_size_def op_ok_def layout_ok_def is_power_of_two_def)

lemma fit_found:
  assumes "is_power_of_two al" and "al < 2 ^ 64" and "al dvd a \<or> mb \<le> al" and "a + n < 2 ^ 64" and "sz + al + 2 * mb \<le> n"
  shows "\<exists>f. fit_region_split a n sz al mb = Some f"
proof -
  let ?a = "and_not (a + (al - 1)) (al - 1)"
  have s: "a + (al - 1) < 2 ^ 64" using assms(4,5) by simp
  define p where "p = (if ?a \<noteq> a \<and> ?a - a < mb then ?a + al else ?a)"
  have p: "first_start a al mb p" unfolding p_def by (rule first_start_chosen [OF assms(1,2,3) s])
  have "?a < a + al" by (rule round_up [OF assms(1,2) s])
  then have "p < a + mb + al \<or> p < a + al" unfolding p_def
    by (cases "?a \<noteq> a \<and> ?a - a < mb") (simp_all only: if_True if_False simp_thms, linarith)
  then have e: "p + sz + mb \<le> a + n" using assms(5) by linarith
  let ?f = "\<lparr>fit_front = p - a, fit_start = p, fit_excess = a + n - (p + sz)\<rparr>"
  have "good_gap mb (a + n - (p + sz))" using e unfolding good_gap_def by linarith
  then have "fit_region_split a n sz al mb = Some ?f"
    unfolding fit_region_split_spec [OF assms(1-3)] using assms(4) p e by simp
  then show ?thesis by blast
qed

text \<open>
  C26: A request fails only when no free region has room to spare: one with the reserved bytes, the
  alignment and two nodes more always serves it.
\<close>

theorem heap_list_serves:
  assumes "nodes_ok lo hi nodes" and "layout_ok l" and "(a, n) \<in> set nodes" and "reserved l + max (l_align l) node_align + 2 * node_size \<le> n"
  shows "\<exists>p nodes'. list_alloc l nodes = (Some p, nodes')"
proof -
  obtain sz al where r: "adjust_request (l_size l) (l_align l) node_size node_align = (sz, al)" by fastforce
  note ad = adjusted [OF assms(2) r]
  have al: "al = max (l_align l) node_align" using r by (auto simp: adjust_request_def Let_def)
  have node: "node_ok lo hi (a, n)" "hi < 2 ^ 64" using assms(1,3) by (auto simp: nodes_ok_def list_all_iff)
  have "al dvd a \<or> node_size \<le> al" using ad(8) node(1) by (auto simp: node_ok_def)
  then obtain f where "fit_region_split a n sz al node_size = Some f"
    using fit_found [OF ad(1,2), of a node_size n sz] assms(4) node unfolding ad(9) al by (auto simp: node_ok_def)
  then have "fst (list_alloc l nodes) \<noteq> None"
    using list_alloc_none(2) [of l nodes _ a n] assms(3) r ad(9) by (cases "list_alloc l nodes") auto
  then show ?thesis by (cases "list_alloc l nodes") auto
qed

theorem heap_list_serves_witness:
  "\<exists>p nodes'. list_alloc \<lparr>l_size = 100, l_align = 64\<rparr> [(8, 72), (4096, 4096)] = (Some p, nodes')"
proof (rule heap_list_serves [of 0 "2 ^ 20" _ _ 4096 4096])
  show "reserved \<lparr>l_size = 100, l_align = 64\<rparr> + max (l_align \<lparr>l_size = 100, l_align = 64\<rparr>) node_align + 2 * node_size \<le> 4096"
    by (simp add: reserved_def adjust_request_def align_up_def and_not_def node_size_def node_align_def)
qed (simp_all add: node_ok_def node_align_def node_size_def layout_ok_def is_power_of_two_def)

text \<open>
  The gap before a block is kept usable only if the alignment is at least the size of a node or the
  region is aligned; the arithmetic alone does not ensure it.
\<close>

lemma small_gap_possible: "map_option fit_front (fit_region_split 4 100 8 8 16) = Some 12"
  by (simp add: fit_region_split_def is_power_of_two_def checked_add_def and_not_def Let_def)

end
