(* ===== verification/Region.thy ===== *)
theory Region
  imports Prelude
begin

text \<open>
  Rectangles of \<^verbatim>\<open>windowing/window.rs\<close> and the damage regions of \<^verbatim>\<open>windowing/compositor/region.rs\<close>: sets of
  disjoint rectangles that may grow but never lose a pixel.  Coordinates are 32-bit integers with
  their wrap-around (\<open>i32\<close>); pixel areas are 64-bit.  The pixels of a rectangle and of a region are sets,
  and every operation is stated on them.
\<close>

definition i32 :: "int \<Rightarrow> int" where
  "i32 n = (n + 2 ^ 31) mod 2 ^ 32 - 2 ^ 31"

definition u64 :: "nat \<Rightarrow> nat" where
  "u64 n = n mod 2 ^ 64"

record rect =
  rx :: int
  ry :: int
  rw :: int
  rh :: int

definition mk_rect :: "int \<Rightarrow> int \<Rightarrow> int \<Rightarrow> int \<Rightarrow> rect" where
  "mk_rect x y w h = \<lparr>rx = x, ry = y, rw = w, rh = h\<rparr>"

definition rect_right :: "rect \<Rightarrow> int" where
  "rect_right r = i32 (rx r + rw r)"

definition rect_bottom :: "rect \<Rightarrow> int" where
  "rect_bottom r = i32 (ry r + rh r)"

definition rect_contains :: "rect \<Rightarrow> int \<Rightarrow> int \<Rightarrow> bool" where
  "rect_contains r px py \<longleftrightarrow> rx r \<le> px \<and> px < i32 (rx r + rw r) \<and> ry r \<le> py \<and> py < i32 (ry r + rh r)"

definition rect_is_empty :: "rect \<Rightarrow> bool" where
  "rect_is_empty r \<longleftrightarrow> rw r \<le> 0 \<or> rh r \<le> 0"

definition rect_union :: "rect \<Rightarrow> rect \<Rightarrow> rect" where
  "rect_union a b =
     (if rect_is_empty a then b
      else if rect_is_empty b then a
      else let x = min (rx a) (rx b); y = min (ry a) (ry b);
               right = max (rect_right a) (rect_right b); bottom = max (rect_bottom a) (rect_bottom b)
           in mk_rect x y (i32 (right - x)) (i32 (bottom - y)))"

definition rect_intersection :: "rect \<Rightarrow> rect \<Rightarrow> rect option" where
  "rect_intersection a b =
     (let x = max (rx a) (rx b); y = max (ry a) (ry b);
          right = min (rect_right a) (rect_right b); bottom = min (rect_bottom a) (rect_bottom b)
      in if x < right \<and> y < bottom then Some (mk_rect x y (i32 (right - x)) (i32 (bottom - y))) else None)"

subsection \<open>Regions\<close>

definition MAX_RECTS :: nat where "MAX_RECTS = 12"
definition MERGE_WASTE_PERCENT :: nat where "MERGE_WASTE_PERCENT = 125"

type_synonym region = "rect list"

definition rect_area :: "rect \<Rightarrow> nat" where
  "rect_area r = (if rect_is_empty r then 0 else u64 (nat (rw r) * nat (rh r)))"

definition rect_subtract :: "rect \<Rightarrow> rect \<Rightarrow> rect list \<Rightarrow> rect list" where
  "rect_subtract a b out =
     (case rect_intersection a b of
        None \<Rightarrow> if \<not> rect_is_empty a then out @ [a] else out
      | Some i \<Rightarrow>
          let out = (if ry a < ry i then out @ [mk_rect (rx a) (ry a) (rw a) (i32 (ry i - ry a))] else out);
              out = (if rect_bottom i < rect_bottom a
                     then out @ [mk_rect (rx a) (rect_bottom i) (rw a) (i32 (rect_bottom a - rect_bottom i))] else out);
              out = (if rx a < rx i then out @ [mk_rect (rx a) (ry i) (i32 (rx i - rx a)) (rh i)] else out)
          in if rect_right i < rect_right a
             then out @ [mk_rect (rect_right i) (ry i) (i32 (rect_right a - rect_right i)) (rh i)] else out)"

definition touches :: "rect \<Rightarrow> rect \<Rightarrow> bool" where
  "touches a b \<longleftrightarrow> rx a \<le> rect_right b \<and> rx b \<le> rect_right a \<and> ry a \<le> rect_bottom b \<and> ry b \<le> rect_bottom a"

definition contains_rect :: "rect \<Rightarrow> rect \<Rightarrow> bool" where
  "contains_rect out inn \<longleftrightarrow> rx out \<le> rx inn \<and> ry out \<le> ry inn \<and> rect_right inn \<le> rect_right out \<and> rect_bottom inn \<le> rect_bottom out"

definition region_area :: "region \<Rightarrow> nat" where
  "region_area rs = foldl (\<lambda>n r. u64 (n + rect_area r)) 0 rs"

definition region_bounds :: "region \<Rightarrow> rect option" where
  "region_bounds rs = (case rs of [] \<Rightarrow> None | r # rs \<Rightarrow> Some (foldl rect_union r rs))"

definition contains_point :: "region \<Rightarrow> int \<Rightarrow> int \<Rightarrow> bool" where
  "contains_point rs x y = list_ex (\<lambda>r. rect_contains r x y) rs"

definition region_intersects :: "region \<Rightarrow> rect \<Rightarrow> bool" where
  "region_intersects rs r = list_ex (\<lambda>q. rect_intersection q r \<noteq> None) rs"

definition cut_all :: "rect \<Rightarrow> rect list \<Rightarrow> rect list" where
  "cut_all q ps = foldl (\<lambda>out p. rect_subtract p q out) [] ps"

fun covers_loop :: "rect list \<Rightarrow> region \<Rightarrow> bool" where
  "covers_loop rest [] \<longleftrightarrow> rest = []"
| "covers_loop rest (q # qs) \<longleftrightarrow> (let rest = cut_all q rest in if rest = [] then True else covers_loop rest qs)"

definition region_covers :: "region \<Rightarrow> rect \<Rightarrow> bool" where
  "region_covers rs r \<longleftrightarrow> (if rect_is_empty r then True else covers_loop [r] rs)"

definition index_pairs :: "nat \<Rightarrow> (nat \<times> nat) list" where
  "index_pairs n = concat (map (\<lambda>i. map (\<lambda>j. (i, j)) [i + 1..<n]) [0..<n])"

definition cheap_pair :: "region \<Rightarrow> (nat \<times> nat) option" where
  "cheap_pair rs =
     find (\<lambda>(i, j). let a = rs ! i; b = rs ! j in
         touches a b \<and> u64 (rect_area (rect_union a b) * 100) \<le> u64 (u64 (rect_area a + rect_area b) * MERGE_WASTE_PERCENT))
       (index_pairs (length rs))"

definition closer :: "region \<Rightarrow> (nat \<times> nat \<times> nat) option \<Rightarrow> nat \<times> nat \<Rightarrow> (nat \<times> nat \<times> nat) option" where
  "closer rs best ij = (case ij of (i, j) \<Rightarrow>
     let a = rs ! i; b = rs ! j; waste = rect_area (rect_union a b) - u64 (rect_area a + rect_area b) in
     case best of
       None \<Rightarrow> Some (waste, i, j)
     | Some (w, _) \<Rightarrow> if waste < w then Some (waste, i, j) else best)"

definition closest_pair :: "region \<Rightarrow> (nat \<times> nat) option" where
  "closest_pair rs = map_option snd (foldl (closer rs) None (index_pairs (length rs)))"

definition swap_remove :: "nat \<Rightarrow> 'a list \<Rightarrow> 'a list" where
  "swap_remove i xs = butlast (xs[i := last xs])"

fun absorb :: "rect \<Rightarrow> rect list \<Rightarrow> rect list \<Rightarrow> rect \<times> rect list" where
  "absorb bb [] keep = (bb, keep)"
| "absorb bb (q # qs) keep =
     (if rect_intersection q bb \<noteq> None then absorb (rect_union bb q) qs keep else absorb bb qs (keep @ [q]))"

function merge_loop :: "rect \<Rightarrow> region \<Rightarrow> region" where
  "merge_loop bb rs =
     (let (bb, keep) = absorb bb rs [] in
      if length keep < length rs then merge_loop bb keep else keep @ [bb])"
  by auto
termination
  by (relation "measure (\<lambda>(bb, rs). length rs)") (auto, metis case_prod_conv)

declare merge_loop.simps [simp del]

definition region_merge :: "nat \<Rightarrow> nat \<Rightarrow> region \<Rightarrow> region" where
  "region_merge i j rs =
     (let (hi, lo) = (if j < i then (i, j) else (j, i));
          b = rs ! hi; rs = swap_remove hi rs;
          a = rs ! lo; rs = swap_remove lo rs
      in merge_loop (rect_union a b) rs)"

lemma length_swap_remove [simp]: "length (swap_remove i xs) = length xs - 1"
  by (simp add: swap_remove_def)

lemma length_absorb: "absorb bb rs keep = (bb', keep') \<Longrightarrow> length keep' \<le> length keep + length rs"
  by (induction bb rs keep rule: absorb.induct) (auto split: if_splits)

lemma length_merge_loop: "length (merge_loop bb rs) \<le> Suc (length rs)"
proof (induction bb rs rule: merge_loop.induct)
  case (1 bb rs)
  obtain bb' keep where a: "absorb bb rs [] = (bb', keep)" by fastforce
  then show ?case using 1 [OF a [symmetric] refl] length_absorb [OF a]
    by (cases "length keep < length rs") (simp_all add: merge_loop.simps [of bb rs])
qed

lemma length_region_merge: "i \<noteq> j \<Longrightarrow> i < length rs \<Longrightarrow> j < length rs \<Longrightarrow> length (region_merge i j rs) < length rs"
  using length_merge_loop [of _ "swap_remove lo (swap_remove hi rs)" for lo hi]
  by (auto simp: region_merge_def Let_def less_Suc_eq_le intro!: le_less_trans [OF length_merge_loop])

lemma index_pairs_iff: "(i, j) \<in> set (index_pairs n) \<longleftrightarrow> i < j \<and> j < n"
  by (force simp: index_pairs_def)

lemma cheap_pair_less: "cheap_pair rs = Some (i, j) \<Longrightarrow> i < j \<and> j < length rs"
  by (auto simp: cheap_pair_def find_Some_iff index_pairs_iff dest: nth_mem [of _ "index_pairs (length rs)"])

lemma closest_pair_less: "closest_pair rs = Some (i, j) \<Longrightarrow> i < j \<and> j < length rs"
proof -
  have "foldl (closer rs) best ps = Some (w, i, j) \<Longrightarrow> (\<exists>v. best = Some (v, i, j)) \<or> (i, j) \<in> set ps" for ps best w
    by (induction ps arbitrary: best) (force simp: closer_def Let_def split: option.splits if_splits prod.splits)+
  from this [of None "index_pairs (length rs)"] show "closest_pair rs = Some (i, j) \<Longrightarrow> i < j \<and> j < length rs"
    by (auto simp: closest_pair_def index_pairs_iff)
qed

function merge_cheap :: "region \<Rightarrow> region" where
  "merge_cheap rs = (case cheap_pair rs of Some (i, j) \<Rightarrow> merge_cheap (region_merge i j rs) | None \<Rightarrow> rs)"
  by auto
termination
  by (relation "measure length") (auto dest!: cheap_pair_less intro: length_region_merge)

function merge_closest :: "region \<Rightarrow> region" where
  "merge_closest rs =
     (if MAX_RECTS < length rs
      then (case closest_pair rs of None \<Rightarrow> rs | Some (i, j) \<Rightarrow> merge_closest (region_merge i j rs))
      else rs)"
  by auto
termination
  by (relation "measure length") (auto dest!: closest_pair_less intro: length_region_merge)

declare merge_cheap.simps [simp del] merge_closest.simps [simp del]

definition region_coalesce :: "region \<Rightarrow> region" where
  "region_coalesce rs = merge_closest (merge_cheap rs)"

definition region_add :: "rect \<Rightarrow> region \<Rightarrow> region" where
  "region_add r rs =
     (if rect_is_empty r then rs
      else if list_ex (\<lambda>q. contains_rect q r) rs then rs
      else let rs = filter (\<lambda>q. \<not> contains_rect r q) rs;
               pieces = foldl (\<lambda>ps q. if rect_intersection q r = None then ps else cut_all q ps) [r] rs
           in region_coalesce (rs @ pieces))"

definition from_rect :: "rect \<Rightarrow> region" where
  "from_rect r = region_add r []"

definition add_region :: "region \<Rightarrow> region \<Rightarrow> region" where
  "add_region oth rs = foldl (\<lambda>rs r. region_add r rs) rs oth"

definition subtract_rect :: "rect \<Rightarrow> region \<Rightarrow> region" where
  "subtract_rect r rs = (if rect_is_empty r \<or> \<not> region_intersects rs r then rs else cut_all r rs)"

definition subtract_region :: "region \<Rightarrow> region \<Rightarrow> region" where
  "subtract_region oth rs = foldl (\<lambda>rs r. subtract_rect r rs) rs oth"

definition clipped :: "region \<Rightarrow> rect \<Rightarrow> region" where
  "clipped rs r = List.map_filter (\<lambda>q. rect_intersection q r) rs"

definition clip_to :: "rect \<Rightarrow> region \<Rightarrow> region" where
  "clip_to r rs = List.map_filter (\<lambda>q. rect_intersection q r) rs"

subsection \<open>Pixels\<close>

definition pixels :: "rect \<Rightarrow> (int \<times> int) set" where
  "pixels r = {rx r..<rx r + rw r} \<times> {ry r..<ry r + rh r}"

definition region_pixels :: "region \<Rightarrow> (int \<times> int) set" where
  "region_pixels rs = (\<Union>r \<in> set rs. pixels r)"

text \<open>Coordinates far enough from the ends of the integers that no sum of two wraps.\<close>

definition on_plane :: "rect \<Rightarrow> bool" where
  "on_plane r \<longleftrightarrow> - (2 ^ 30) \<le> rx r \<and> rx r + rw r < 2 ^ 30 \<and> - (2 ^ 30) \<le> ry r \<and> ry r + rh r < 2 ^ 30"

definition rect_ok :: "rect \<Rightarrow> bool" where
  "rect_ok r \<longleftrightarrow> on_plane r \<and> 0 < rw r \<and> 0 < rh r"

definition region_inv :: "region \<Rightarrow> bool" where
  "region_inv rs \<longleftrightarrow> list_all rect_ok rs \<and> distinct rs \<and> (\<forall>a \<in> set rs. \<forall>b \<in> set rs. a \<noteq> b \<longrightarrow> pixels a \<inter> pixels b = {})"

lemma i32_small [simp]: "- (2 ^ 31) \<le> n \<Longrightarrow> n < 2 ^ 31 \<Longrightarrow> i32 n = n"
  by (simp add: i32_def)

lemma rect_ends: "rect_ok r \<Longrightarrow> rect_right r = rx r + rw r" "rect_ok r \<Longrightarrow> rect_bottom r = ry r + rh r"
  by (simp_all add: rect_right_def rect_bottom_def rect_ok_def on_plane_def)

lemma mk_rect_sel [simp]: "rx (mk_rect x y w h) = x" "ry (mk_rect x y w h) = y" "rw (mk_rect x y w h) = w" "rh (mk_rect x y w h) = h"
  by (simp_all add: mk_rect_def)

lemma pixels_iff: "(x, y) \<in> pixels r \<longleftrightarrow> rx r \<le> x \<and> x < rx r + rw r \<and> ry r \<le> y \<and> y < ry r + rh r"
  by (auto simp: pixels_def)

lemma pixels_nonempty: "rect_ok r \<Longrightarrow> (rx r, ry r) \<in> pixels r"
  by (simp add: pixels_iff rect_ok_def)

lemma not_empty: "rect_ok r \<Longrightarrow> \<not> rect_is_empty r"
  by (simp add: rect_ok_def rect_is_empty_def)

lemma rect_contains_iff: "rect_ok r \<Longrightarrow> rect_contains r x y \<longleftrightarrow> (x, y) \<in> pixels r"
  by (auto simp: rect_contains_def pixels_iff rect_ok_def on_plane_def)

lemma intersection_pixels:
  assumes "rect_ok a" and "rect_ok b"
  shows "case rect_intersection a b of Some i \<Rightarrow> rect_ok i \<and> pixels i = pixels a \<inter> pixels b | None \<Rightarrow> pixels a \<inter> pixels b = {}"
proof -
  let ?x = "max (rx a) (rx b)" and ?y = "max (ry a) (ry b)"
  let ?r = "min (rx a + rw a) (rx b + rw b)" and ?b = "min (ry a + rh a) (ry b + rh b)"
  have m: "(x, y) \<in> pixels a \<inter> pixels b \<longleftrightarrow> ?x \<le> x \<and> x < ?r \<and> ?y \<le> y \<and> y < ?b" for x y by (auto simp: pixels_iff)
  show ?thesis
  proof (cases "?x < ?r \<and> ?y < ?b")
    case True
    let ?i = "mk_rect ?x ?y (?r - ?x) (?b - ?y)"
    have "rect_ok ?i" using assms True by (auto simp: rect_ok_def on_plane_def)
    moreover have "i32 (?r - ?x) = ?r - ?x" "i32 (?b - ?y) = ?b - ?y"
      using assms True by (auto intro!: i32_small simp: rect_ok_def on_plane_def)
    then have "rect_intersection a b = Some ?i" using True by (simp add: rect_intersection_def Let_def rect_ends assms)
    moreover have "pixels ?i = pixels a \<inter> pixels b" using m by (auto simp: pixels_def)
    ultimately show ?thesis by simp
  next
    case False
    then have "rect_intersection a b = None" by (auto simp: rect_intersection_def Let_def rect_ends assms)
    moreover have "p \<notin> pixels a \<inter> pixels b" for p using False m [of "fst p" "snd p"] by auto
    ultimately show ?thesis by auto
  qed
qed

lemma intersection_sel:
  assumes "rect_ok a" and "rect_ok b" and "rect_intersection a b = Some i"
  shows "rx i = max (rx a) (rx b)" "ry i = max (ry a) (ry b)" "rx i + rw i = min (rx a + rw a) (rx b + rw b)"
    "ry i + rh i = min (ry a + rh a) (ry b + rh b)"
proof -
  let ?x = "max (rx a) (rx b)" and ?y = "max (ry a) (ry b)"
  let ?r = "min (rx a + rw a) (rx b + rw b)" and ?b = "min (ry a + rh a) (ry b + rh b)"
  have d: "?x < ?r" "?y < ?b" and e: "i = mk_rect ?x ?y (i32 (?r - ?x)) (i32 (?b - ?y))"
    using assms(3) by (auto simp: rect_intersection_def Let_def rect_ends assms(1,2) split: if_splits)
  have w: "i32 (?r - ?x) = ?r - ?x" "i32 (?b - ?y) = ?b - ?y"
    using assms(1,2) d by (auto intro!: i32_small simp: rect_ok_def on_plane_def)
  show "rx i = max (rx a) (rx b)" "ry i = max (ry a) (ry b)" "rx i + rw i = ?r" "ry i + rh i = ?b"
    unfolding e w by simp_all
qed

lemma intersection_None: "rect_ok a \<Longrightarrow> rect_ok b \<Longrightarrow> rect_intersection a b = None \<longleftrightarrow> pixels a \<inter> pixels b = {}"
  using intersection_pixels [of a b] pixels_nonempty by (cases "rect_intersection a b") fastforce+

lemma union_pixels:
  assumes "rect_ok a" and "rect_ok b"
  shows "rect_ok (rect_union a b)" "pixels a \<union> pixels b \<subseteq> pixels (rect_union a b)"
proof -
  let ?x = "min (rx a) (rx b)" and ?y = "min (ry a) (ry b)"
  let ?r = "max (rx a + rw a) (rx b + rw b)" and ?b = "max (ry a + rh a) (ry b + rh b)"
  have "i32 (?r - ?x) = ?r - ?x" "i32 (?b - ?y) = ?b - ?y"
    using assms by (auto intro!: i32_small simp: rect_ok_def on_plane_def)
  then have u: "rect_union a b = mk_rect ?x ?y (?r - ?x) (?b - ?y)"
    using assms not_empty by (simp add: rect_union_def Let_def rect_ends)
  show "rect_ok (rect_union a b)" unfolding u using assms by (auto simp: rect_ok_def on_plane_def)
  show "pixels a \<union> pixels b \<subseteq> pixels (rect_union a b)" unfolding u by (auto simp: pixels_def)
qed

lemma contains_rect_pixels: "rect_ok a \<Longrightarrow> rect_ok b \<Longrightarrow> contains_rect a b \<Longrightarrow> pixels b \<subseteq> pixels a"
  by (auto simp: contains_rect_def rect_ends pixels_def)

subsection \<open>Subtraction\<close>

lemma region_pixels_simps [simp]:
  "region_pixels [] = {}" "region_pixels (r # rs) = pixels r \<union> region_pixels rs" "region_pixels (rs @ qs) = region_pixels rs \<union> region_pixels qs"
  by (auto simp: region_pixels_def)

lemma region_inv_simps [simp]:
  "region_inv []"
  "region_inv (r # rs) \<longleftrightarrow> rect_ok r \<and> pixels r \<inter> region_pixels rs = {} \<and> region_inv rs"
proof -
  show "region_inv []" by (simp add: region_inv_def)
  have "r \<notin> set rs" if "rect_ok r" "pixels r \<inter> region_pixels rs = {}" using that pixels_nonempty [of r] by (auto simp: region_pixels_def)
  then show "region_inv (r # rs) \<longleftrightarrow> rect_ok r \<and> pixels r \<inter> region_pixels rs = {} \<and> region_inv rs"
    by (auto simp: region_inv_def region_pixels_def) blast
qed

lemma region_inv_append [simp]:
  "region_inv (rs @ qs) \<longleftrightarrow> region_inv rs \<and> region_inv qs \<and> region_pixels rs \<inter> region_pixels qs = {}"
  by (induction rs) auto

lemma subtract_pieces:
  assumes "rect_ok a" and "rect_ok b"
  shows "\<exists>ps. (\<forall>out. rect_subtract a b out = out @ ps) \<and> region_inv ps \<and> region_pixels ps = pixels a - pixels b"
proof (cases "rect_intersection a b")
  case None
  then have "\<forall>out. rect_subtract a b out = out @ [a]" using not_empty [OF assms(1)] by (simp add: rect_subtract_def)
  moreover have "pixels a \<inter> pixels b = {}" using None intersection_None [OF assms] by simp
  ultimately show ?thesis using assms(1) by (intro exI [of _ "[a]"]) auto
next
  case (Some i)
  have i: "rect_ok i" "pixels i = pixels a \<inter> pixels b" using intersection_pixels [OF assms] Some by simp_all
  note f = intersection_sel [OF assms Some]
  have c: "rx a \<le> rx i" "rx i + rw i \<le> rx a + rw a" "ry a \<le> ry i" "ry i + rh i \<le> ry a + rh a" using f by linarith+
  have sz: "0 < rw i" "0 < rh i" "0 < rw a" "0 < rh a" using i(1) assms(1) by (simp_all add: rect_ok_def)
  define t where "t = mk_rect (rx a) (ry a) (rw a) (ry i - ry a)"
  define b' where "b' = mk_rect (rx a) (ry i + rh i) (rw a) (ry a + rh a - (ry i + rh i))"
  define l where "l = mk_rect (rx a) (ry i) (rx i - rx a) (rh i)"
  define r where "r = mk_rect (rx i + rw i) (ry i) (rx a + rw a - (rx i + rw i)) (rh i)"
  let ?T = "if ry a < ry i then [t] else []" and ?B = "if ry i + rh i < ry a + rh a then [b'] else []"
  let ?L = "if rx a < rx i then [l] else []" and ?R = "if rx i + rw i < rx a + rw a then [r] else []"
  have w: "i32 (ry i - ry a) = ry i - ry a" "i32 (ry a + rh a - (ry i + rh i)) = ry a + rh a - (ry i + rh i)"
    "i32 (rx i - rx a) = rx i - rx a" "i32 (rx a + rw a - (rx i + rw i)) = rx a + rw a - (rx i + rw i)"
    using assms(1) c sz by (auto intro!: i32_small simp: rect_ok_def on_plane_def)
  have e: "\<forall>out. rect_subtract a b out = out @ (?T @ ?B @ ?L @ ?R)"
    by (simp add: rect_subtract_def Some Let_def rect_ends assms(1) i(1) w t_def b'_def l_def r_def)
  have px: "pixels t = {rx a..<rx a + rw a} \<times> {ry a..<ry i}" "pixels b' = {rx a..<rx a + rw a} \<times> {ry i + rh i..<ry a + rh a}"
    "pixels l = {rx a..<rx i} \<times> {ry i..<ry i + rh i}" "pixels r = {rx i + rw i..<rx a + rw a} \<times> {ry i..<ry i + rh i}"
    by (simp_all add: pixels_def t_def b'_def l_def r_def)
  have ok: "ry a < ry i \<Longrightarrow> rect_ok t" "ry i + rh i < ry a + rh a \<Longrightarrow> rect_ok b'" "rx a < rx i \<Longrightarrow> rect_ok l"
    "rx i + rw i < rx a + rw a \<Longrightarrow> rect_ok r"
    using assms(1) c sz by (auto simp: rect_ok_def on_plane_def t_def b'_def l_def r_def)
  have rp: "region_pixels ?T = pixels t" "region_pixels ?B = pixels b'" "region_pixels ?L = pixels l" "region_pixels ?R = pixels r"
    by (auto simp: px)
  have inv: "region_inv ?T" "region_inv ?B" "region_inv ?L" "region_inv ?R" using ok by auto
  have "pixels t \<inter> (pixels b' \<union> (pixels l \<union> pixels r)) = {}" "pixels b' \<inter> (pixels l \<union> pixels r) = {}" "pixels l \<inter> pixels r = {}"
    unfolding px using sz by auto
  then have "region_inv (?T @ ?B @ ?L @ ?R)" unfolding region_inv_append region_pixels_simps rp using inv by blast
  moreover have "region_pixels (?T @ ?B @ ?L @ ?R) = pixels a - pixels b"
  proof -
    have "pixels a - pixels b = pixels a - pixels i" unfolding i(2) by blast
    also have "\<dots> = pixels t \<union> (pixels b' \<union> (pixels l \<union> pixels r))"
      unfolding px unfolding pixels_def using c sz by auto
    finally show ?thesis unfolding region_pixels_simps rp by simp
  qed
  ultimately show ?thesis using e by blast
qed

lemma cut_all_pixels:
  assumes "rect_ok q" and "region_inv ps"
  shows "region_inv (cut_all q ps)" "region_pixels (cut_all q ps) = region_pixels ps - pixels q"
proof -
  have "region_inv ps \<Longrightarrow> region_inv out \<Longrightarrow> region_pixels out \<inter> region_pixels ps = {} \<Longrightarrow>
    region_inv (foldl (\<lambda>out p. rect_subtract p q out) out ps) \<and>
    region_pixels (foldl (\<lambda>out p. rect_subtract p q out) out ps) = region_pixels out \<union> (region_pixels ps - pixels q)" for out
  proof (induction ps arbitrary: out)
    case (Cons p ps)
    have p: "rect_ok p" "pixels p \<inter> region_pixels ps = {}" "region_inv ps" using Cons.prems(1) by auto
    obtain cs where cs: "\<forall>out. rect_subtract p q out = out @ cs" "region_inv cs" "region_pixels cs = pixels p - pixels q"
      using subtract_pieces [OF p(1) assms(1)] by blast
    have "region_inv (out @ cs)" using Cons.prems(2,3) cs(2,3) by auto
    moreover have "region_pixels (out @ cs) \<inter> region_pixels ps = {}" using Cons.prems(3) p(2) cs(3) by auto
    ultimately show ?case using Cons.IH [OF p(3), of "out @ cs"] cs(1,3) by auto
  qed simp
  from this [OF assms(2), of "[]"] show "region_inv (cut_all q ps)" "region_pixels (cut_all q ps) = region_pixels ps - pixels q"
    by (simp_all add: cut_all_def)
qed

lemma region_inv_ok: "region_inv rs \<Longrightarrow> r \<in> set rs \<Longrightarrow> rect_ok r"
  by (simp add: region_inv_def list_all_iff)

lemma region_intersects_iff: "region_inv rs \<Longrightarrow> rect_ok r \<Longrightarrow> region_intersects rs r \<longleftrightarrow> region_pixels rs \<inter> pixels r \<noteq> {}"
proof -
  assume r: "region_inv rs" "rect_ok r"
  have "rect_intersection q r \<noteq> None \<longleftrightarrow> pixels q \<inter> pixels r \<noteq> {}" if "q \<in> set rs" for q
    using intersection_None [OF region_inv_ok [OF r(1) that] r(2)] by simp
  then show ?thesis unfolding region_intersects_def list_ex_iff region_pixels_def by blast
qed

lemma subtract_rect_pixels:
  assumes "rect_ok r" and "region_inv rs"
  shows "region_inv (subtract_rect r rs)" "region_pixels (subtract_rect r rs) = region_pixels rs - pixels r"
proof -
  have "region_inv (subtract_rect r rs) \<and> region_pixels (subtract_rect r rs) = region_pixels rs - pixels r"
  proof (cases "region_intersects rs r")
    case True
    then show ?thesis using cut_all_pixels [OF assms] not_empty [OF assms(1)] by (simp add: subtract_rect_def)
  next
    case False
    then have "region_pixels rs \<inter> pixels r = {}" using region_intersects_iff [OF assms(2,1)] by simp
    then show ?thesis using assms(2) False by (auto simp: subtract_rect_def)
  qed
  then show "region_inv (subtract_rect r rs)" "region_pixels (subtract_rect r rs) = region_pixels rs - pixels r" by simp_all
qed

lemma covers_loop_iff: "region_inv rest \<Longrightarrow> list_all rect_ok rs \<Longrightarrow> covers_loop rest rs \<longleftrightarrow> region_pixels rest \<subseteq> region_pixels rs"
proof (induction rest rs rule: covers_loop.induct)
  case (1 rest)
  then show ?case using pixels_nonempty by (cases rest) auto
next
  case (2 rest q qs)
  have c: "region_inv (cut_all q rest)" "region_pixels (cut_all q rest) = region_pixels rest - pixels q"
    using cut_all_pixels [of q rest] 2 by auto
  show ?case
  proof (cases "cut_all q rest = []")
    case True
    then have "region_pixels rest \<subseteq> pixels q" using c(2) by (simp add: Diff_eq_empty_iff)
    then show ?thesis using True by auto
  next
    case False
    then have "covers_loop rest (q # qs) \<longleftrightarrow> region_pixels (cut_all q rest) \<subseteq> region_pixels qs"
      using 2(1) [OF refl False c(1)] 2(3) by simp
    then show ?thesis unfolding c(2) by auto
  qed
qed

subsection \<open>Merging\<close>

lemma swap_remove_set:
  assumes "distinct xs" and "i < length xs"
  shows "distinct (swap_remove i xs)" "set (swap_remove i xs) = set xs - {xs ! i}"
proof -
  have "distinct (swap_remove i xs) \<and> set (swap_remove i xs) = set xs - {xs ! i}"
  proof (cases xs rule: rev_cases)
    case (snoc ys z)
    show ?thesis
    proof (cases "i < length ys")
      case True
      then have e: "swap_remove i xs = ys[i := z]" by (simp add: swap_remove_def snoc list_update_append butlast_append)
      have "set (ys[i := z]) = insert z (set ys - {ys ! i})" using assms(1) True by (intro set_update_distinct) (simp_all add: snoc)
      moreover have "distinct (ys[i := z])" using assms(1) True by (simp add: snoc distinct_list_update)
      ultimately show ?thesis using assms(1) True nth_mem [OF True] unfolding e by (auto simp: snoc nth_append)
    next
      case False
      then have "i = length ys" using assms(2) by (simp add: snoc)
      then have "swap_remove i xs = ys" by (simp add: swap_remove_def snoc)
      then show ?thesis using assms(1) \<open>i = length ys\<close> by (auto simp: snoc)
    qed
  qed (use assms(2) in simp)
  then show "distinct (swap_remove i xs)" "set (swap_remove i xs) = set xs - {xs ! i}" by blast+
qed

lemma region_inv_subset:
  "region_inv rs \<Longrightarrow> distinct qs \<Longrightarrow> set qs \<subseteq> set rs \<Longrightarrow> region_inv qs"
  unfolding region_inv_def list_all_iff by (meson subsetD)

lemma region_swap_remove:
  assumes "region_inv rs" and "i < length rs"
  shows "region_inv (swap_remove i rs)" "region_pixels rs = pixels (rs ! i) \<union> region_pixels (swap_remove i rs)"
proof -
  have d: "distinct rs" using assms(1) by (simp add: region_inv_def)
  note s = swap_remove_set [OF d assms(2)]
  show "region_inv (swap_remove i rs)" by (rule region_inv_subset [OF assms(1) s(1)]) (simp add: s(2) subset_iff)
  show "region_pixels rs = pixels (rs ! i) \<union> region_pixels (swap_remove i rs)"
    using nth_mem [OF assms(2)] by (auto simp: region_pixels_def s(2))
qed

lemma absorb_effect:
  assumes "rect_ok bb" and "list_all rect_ok rs" and "absorb bb rs keep = (bb', keep')"
  shows "\<exists>ks. keep' = keep @ ks \<and> rect_ok bb' \<and> pixels bb \<subseteq> pixels bb' \<and> set ks \<subseteq> set rs \<and> (distinct rs \<longrightarrow> distinct ks) \<and>
    region_pixels rs \<subseteq> pixels bb' \<union> region_pixels ks \<and> length ks \<le> length rs \<and>
    (length ks = length rs \<longrightarrow> ks = rs \<and> bb' = bb \<and> pixels bb \<inter> region_pixels rs = {})"
  using assms
proof (induction bb rs keep rule: absorb.induct)
  case (2 bb q qs keep)
  have ok: "rect_ok bb" "rect_ok q" "list_all rect_ok qs" using 2(3,4) by auto
  show ?case
  proof (cases "rect_intersection q bb = None")
    case False
    note u = union_pixels [OF ok(1,2)]
    have "absorb (rect_union bb q) qs keep = (bb', keep')" using 2(5) False by auto
    from 2(1) [OF False u(1) ok(3) this] obtain ks where
      ks: "keep' = keep @ ks" "rect_ok bb'" "pixels (rect_union bb q) \<subseteq> pixels bb'" "set ks \<subseteq> set qs" "distinct qs \<longrightarrow> distinct ks"
        "region_pixels qs \<subseteq> pixels bb' \<union> region_pixels ks" "length ks \<le> length qs" by blast
    then show ?thesis using u(2) by (intro exI [of _ ks]) auto
  next
    case True
    then have apart: "pixels q \<inter> pixels bb = {}" using intersection_None [OF ok(2,1)] by simp
    have "absorb bb qs (keep @ [q]) = (bb', keep')" using 2(5) True by simp
    with 2(2) [OF _ ok(1,3)] True obtain ks where
      ks: "keep' = (keep @ [q]) @ ks" "rect_ok bb'" "pixels bb \<subseteq> pixels bb'" "set ks \<subseteq> set qs" "distinct qs \<longrightarrow> distinct ks"
        "region_pixels qs \<subseteq> pixels bb' \<union> region_pixels ks" "length ks \<le> length qs"
        "length ks = length qs \<longrightarrow> ks = qs \<and> bb' = bb \<and> pixels bb \<inter> region_pixels qs = {}" by blast
    then show ?thesis using apart by (intro exI [of _ "q # ks"]) auto
  qed
qed simp

lemma merge_loop_covers:
  "rect_ok bb \<Longrightarrow> region_inv rs \<Longrightarrow>
    region_inv (merge_loop bb rs) \<and> pixels bb \<union> region_pixels rs \<subseteq> region_pixels (merge_loop bb rs)"
proof (induction bb rs rule: merge_loop.induct)
  case (1 bb rs)
  obtain bb' ks where a: "absorb bb rs [] = (bb', ks)" by fastforce
  have rs: "list_all rect_ok rs" "distinct rs" using 1(3) by (simp_all add: region_inv_def)
  have e: "rect_ok bb'" "pixels bb \<subseteq> pixels bb'" "set ks \<subseteq> set rs" "distinct ks" "region_pixels rs \<subseteq> pixels bb' \<union> region_pixels ks"
    "length ks \<le> length rs" "length ks = length rs \<longrightarrow> ks = rs \<and> bb' = bb \<and> pixels bb \<inter> region_pixels rs = {}"
    using absorb_effect [OF 1(2) rs(1) a] rs(2) by auto
  show ?case
  proof (cases "length ks < length rs")
    case True
    then have "merge_loop bb rs = merge_loop bb' ks" using a by (simp add: merge_loop.simps [of bb rs])
    then show ?thesis using 1(1) [OF a [symmetric] refl True e(1)] region_inv_subset [OF 1(3) e(4,3)] e(2,5) by auto
  next
    case False
    then have "ks = rs" "bb' = bb" "pixels bb \<inter> region_pixels rs = {}" using e(6,7) by auto
    moreover from this have "merge_loop bb rs = rs @ [bb]" using a by (simp add: merge_loop.simps [of bb rs])
    ultimately show ?thesis using 1(2,3) by auto
  qed
qed

lemma region_merge_covers:
  assumes "region_inv rs" and "i < length rs" and "j < length rs" and "i \<noteq> j"
  shows "region_inv (region_merge i j rs)" "region_pixels rs \<subseteq> region_pixels (region_merge i j rs)"
proof -
  let ?hi = "max i j" and ?lo = "min i j"
  have h: "?hi < length rs" "?lo < length rs - 1" "?lo < length (swap_remove ?hi rs)" using assms(2-4) by auto
  note s1 = region_swap_remove [OF assms(1) h(1)]
  note s2 = region_swap_remove [OF s1(1) h(3)]
  have ok: "rect_ok (rs ! ?hi)" "rect_ok (swap_remove ?hi rs ! ?lo)"
    using region_inv_ok [OF assms(1)] region_inv_ok [OF s1(1)] h(1,3) nth_mem by blast+
  have m: "region_merge i j rs = merge_loop (rect_union (swap_remove ?hi rs ! ?lo) (rs ! ?hi)) (swap_remove ?lo (swap_remove ?hi rs))"
    by (simp add: region_merge_def Let_def max_def min_def)
  note u = union_pixels [OF ok(2,1)]
  show "region_inv (region_merge i j rs)" "region_pixels rs \<subseteq> region_pixels (region_merge i j rs)"
    unfolding m using merge_loop_covers [OF u(1) s2(1)] s1(2) s2(2) u(2) by blast+
qed

lemma merge_cheap_covers: "region_inv rs \<Longrightarrow> region_inv (merge_cheap rs) \<and> region_pixels rs \<subseteq> region_pixels (merge_cheap rs)"
proof (induction rs rule: merge_cheap.induct)
  case (1 rs)
  show ?case
  proof (cases "cheap_pair rs")
    case None
    then show ?thesis using 1(2) by (simp add: merge_cheap.simps [of rs])
  next
    case (Some p)
    then obtain i j where p: "cheap_pair rs = Some (i, j)" "p = (i, j)" by (cases p) auto
    have "region_inv (region_merge i j rs)" "region_pixels rs \<subseteq> region_pixels (region_merge i j rs)"
      using region_merge_covers [OF 1(2), of i j] cheap_pair_less [OF p(1)] by auto
    then show ?thesis using 1(1) [OF Some p(2) [symmetric]] p by (auto simp: merge_cheap.simps [of rs])
  qed
qed

lemma closest_pair_None: "closest_pair rs = None \<Longrightarrow> length rs < 2"
proof (rule ccontr)
  have step: "closer rs best ij \<noteq> None" for best ij by (auto simp: closer_def Let_def split: option.splits prod.splits)
  then have some: "best \<noteq> None \<Longrightarrow> foldl (closer rs) best ps \<noteq> None" for best ps by (induction ps arbitrary: best) auto
  assume n: "closest_pair rs = None" and l: "\<not> length rs < 2"
  have "(0, 1) \<in> set (index_pairs (length rs))" using l by (simp add: index_pairs_iff)
  then obtain p ps where "index_pairs (length rs) = p # ps" by (cases "index_pairs (length rs)") auto
  then show False using n some [OF step] by (simp add: closest_pair_def)
qed

lemma merge_closest_covers:
  "region_inv rs \<Longrightarrow> region_inv (merge_closest rs) \<and> region_pixels rs \<subseteq> region_pixels (merge_closest rs) \<and> length (merge_closest rs) \<le> MAX_RECTS"
proof (induction rs rule: merge_closest.induct)
  case (1 rs)
  show ?case
  proof (cases "MAX_RECTS < length rs")
    case False
    then show ?thesis using 1(2) by (simp add: merge_closest.simps [of rs])
  next
    case True
    then obtain i j where p: "closest_pair rs = Some (i, j)"
      using closest_pair_None [of rs] by (cases "closest_pair rs") (auto simp: MAX_RECTS_def)
    have "region_inv (region_merge i j rs)" "region_pixels rs \<subseteq> region_pixels (region_merge i j rs)"
      using region_merge_covers [OF 1(2), of i j] closest_pair_less [OF p] by auto
    then show ?thesis using 1(1) [OF True p refl] True p by (auto simp: merge_closest.simps [of rs])
  qed
qed

lemma coalesce_covers:
  "region_inv rs \<Longrightarrow> region_inv (region_coalesce rs) \<and> region_pixels rs \<subseteq> region_pixels (region_coalesce rs) \<and> length (region_coalesce rs) \<le> MAX_RECTS"
  using merge_cheap_covers [of rs] merge_closest_covers [of "merge_cheap rs"] by (auto simp: region_coalesce_def)

subsection \<open>Adding damage\<close>

lemma cut_pieces:
  "rect_ok r \<Longrightarrow> list_all rect_ok qs \<Longrightarrow> region_inv ps \<Longrightarrow> region_pixels ps \<subseteq> pixels r \<Longrightarrow>
    region_inv (foldl (\<lambda>ps q. if rect_intersection q r = None then ps else cut_all q ps) ps qs) \<and>
    region_pixels (foldl (\<lambda>ps q. if rect_intersection q r = None then ps else cut_all q ps) ps qs) = region_pixels ps - region_pixels qs"
proof (induction qs arbitrary: ps)
  case (Cons q qs)
  let ?ps = "if rect_intersection q r = None then ps else cut_all q ps"
  have p: "region_inv ?ps \<and> region_pixels ?ps = region_pixels ps - pixels q"
  proof (cases "rect_intersection q r = None")
    case True
    then have "pixels q \<inter> pixels r = {}" using intersection_None [of q r] Cons.prems by simp
    then show ?thesis using True Cons.prems by auto
  next
    case False
    then show ?thesis using cut_all_pixels [of q ps] Cons.prems by auto
  qed
  have "region_pixels ?ps \<subseteq> pixels r" using p Cons.prems(4) by blast
  moreover have "region_pixels ps - pixels q - region_pixels qs = region_pixels ps - region_pixels (q # qs)" by auto
  ultimately show ?case using Cons.IH [of ?ps] p Cons.prems(1,2) by simp
qed simp

lemma region_add_covers:
  assumes "region_inv rs" and "length rs \<le> MAX_RECTS" and "on_plane r"
  shows "region_inv (region_add r rs) \<and> length (region_add r rs) \<le> MAX_RECTS \<and> region_pixels rs \<union> pixels r \<subseteq> region_pixels (region_add r rs)"
proof (cases "rect_is_empty r")
  case True
  then have "pixels r = {}" by (auto simp: rect_is_empty_def pixels_def)
  then show ?thesis using True assms by (simp add: region_add_def)
next
  case False
  then have r: "rect_ok r" using assms(3) by (simp add: rect_ok_def rect_is_empty_def)
  show ?thesis
  proof (cases "list_ex (\<lambda>q. contains_rect q r) rs")
    case True
    then obtain q where "q \<in> set rs" "pixels r \<subseteq> pixels q"
      using contains_rect_pixels r region_inv_ok [OF assms(1)] by (auto simp: list_ex_iff)
    then show ?thesis using True False assms by (auto simp: region_add_def region_pixels_def)
  next
    case no: False
    let ?rs = "filter (\<lambda>q. \<not> contains_rect r q) rs"
    let ?ps = "foldl (\<lambda>ps q. if rect_intersection q r = None then ps else cut_all q ps) [r] ?rs"
    have d: "distinct rs" using assms(1) by (simp add: region_inv_def)
    have inv: "region_inv ?rs" by (rule region_inv_subset [OF assms(1)]) (simp_all add: d)
    then have "list_all rect_ok ?rs" by (simp add: region_inv_def)
    from cut_pieces [OF r this, of "[r]"] r have ps: "region_inv ?ps" "region_pixels ?ps = pixels r - region_pixels ?rs" by simp_all
    have "region_pixels rs \<subseteq> pixels r \<union> region_pixels ?rs"
      using contains_rect_pixels [OF r] region_inv_ok [OF assms(1)] by (fastforce simp: region_pixels_def)
    then have "region_inv (?rs @ ?ps) \<and> region_pixels rs \<union> pixels r \<subseteq> region_pixels (?rs @ ?ps)" using inv ps by auto
    then show ?thesis using coalesce_covers [of "?rs @ ?ps"] False no by (simp add: region_add_def Let_def) blast
  qed
qed

lemma add_region_covers:
  "region_inv rs \<Longrightarrow> length rs \<le> MAX_RECTS \<Longrightarrow> list_all on_plane ds \<Longrightarrow>
    region_inv (add_region ds rs) \<and> length (add_region ds rs) \<le> MAX_RECTS \<and> region_pixels rs \<union> region_pixels ds \<subseteq> region_pixels (add_region ds rs)"
proof (induction ds arbitrary: rs)
  case (Cons d ds)
  have "region_inv (region_add d rs)" "length (region_add d rs) \<le> MAX_RECTS" "region_pixels rs \<union> pixels d \<subseteq> region_pixels (region_add d rs)"
    using region_add_covers [OF Cons.prems(1,2), of d] Cons.prems(3) by simp_all
  then show ?case using Cons.IH [of "region_add d rs"] Cons.prems(3) by (auto simp: add_region_def)
qed (simp add: add_region_def)

lemma contains_point_iff: "region_inv rs \<Longrightarrow> contains_point rs x y \<longleftrightarrow> (x, y) \<in> region_pixels rs"
  using rect_contains_iff region_inv_ok by (auto simp: contains_point_def list_ex_iff region_pixels_def)



subsection \<open>Exact operations\<close>

lemma subtract_region_pixels:
  "list_all rect_ok qs \<Longrightarrow> region_inv rs \<Longrightarrow>
    region_inv (subtract_region qs rs) \<and> region_pixels (subtract_region qs rs) = region_pixels rs - region_pixels qs"
proof (induction qs arbitrary: rs)
  case (Cons q qs)
  then show ?case using subtract_rect_pixels [of q rs] Cons.IH [of "subtract_rect q rs"] by (auto simp: subtract_region_def)
qed (simp add: subtract_region_def)

lemma clip_pixels:
  "rect_ok r \<Longrightarrow> region_inv rs \<Longrightarrow> region_inv (clip_to r rs) \<and> region_pixels (clip_to r rs) = region_pixels rs \<inter> pixels r"
proof (induction rs)
  case (Cons q rs)
  have q: "rect_ok q" "pixels q \<inter> region_pixels rs = {}" "region_inv rs" using Cons.prems(2) by simp_all
  have ih: "region_inv (clip_to r rs)" "region_pixels (clip_to r rs) = region_pixels rs \<inter> pixels r" using Cons.IH Cons.prems(1) q(3) by simp_all
  show ?case
  proof (cases "rect_intersection q r")
    case None
    then show ?thesis using ih intersection_None [OF q(1) Cons.prems(1)] by (auto simp: clip_to_def map_filter_simps)
  next
    case (Some i)
    then have "clip_to r (q # rs) = i # clip_to r rs" "rect_ok i" "pixels i = pixels q \<inter> pixels r"
      using intersection_pixels [OF q(1) Cons.prems(1)] by (simp_all add: clip_to_def map_filter_simps)
    then show ?thesis using ih q(2) by auto
  qed
qed (simp add: clip_to_def map_filter_simps)



text \<open>
  The bound of twelve rectangles is kept by adding only: subtraction splits rectangles and does not
  merge, so a region of twelve bars cut through the middle has twenty-four.
\<close>

definition bars :: region where
  "bars = map (\<lambda>i. mk_rect 0 (20 * int i) 100 10) [0..<12]"

lemma subtraction_exceeds_bound:
  "length bars = MAX_RECTS" "length (subtract_rect (mk_rect 40 0 20 500) bars) = 2 * MAX_RECTS"
  by (code_simp, code_simp)

subsection \<open>Termination of the merging loops\<close>

text \<open>A \<open>while let\<close> loop with a budget of iterations; \<open>None\<close> when the budget runs out first.\<close>

fun run_loop :: "nat \<Rightarrow> ('s \<Rightarrow> 's option) \<Rightarrow> 's \<Rightarrow> 's option" where
  "run_loop 0 step s = None"
| "run_loop (Suc n) step s = (case step s of None \<Rightarrow> Some s | Some t \<Rightarrow> run_loop n step t)"

definition cheap_step :: "region \<Rightarrow> region option" where
  "cheap_step rs = map_option (\<lambda>(i, j). region_merge i j rs) (cheap_pair rs)"

definition closest_step :: "region \<Rightarrow> region option" where
  "closest_step rs = (if MAX_RECTS < length rs then map_option (\<lambda>(i, j). region_merge i j rs) (closest_pair rs) else None)"

lemma run_loop_ends:
  assumes "\<And>s t. step s = Some t \<Longrightarrow> length t < length s" and "\<And>s. f s = (case step s of None \<Rightarrow> s | Some t \<Rightarrow> f t)"
  shows "length s < n \<Longrightarrow> run_loop n step s = Some (f s) \<and> step (f s) = None"
proof (induction n arbitrary: s)
  case (Suc n)
  show ?case
  proof (cases "step s")
    case None
    then show ?thesis using assms(2) [of s] by simp
  next
    case (Some t)
    then show ?thesis using Suc.IH [of t] assms(1) [OF Some] Suc.prems assms(2) [of s] by simp
  qed
qed simp

lemma cheap_ends: "run_loop (Suc (length rs)) cheap_step rs = Some (merge_cheap rs) \<and> cheap_step (merge_cheap rs) = None"
proof (rule run_loop_ends)
  show "length t < length s" if "cheap_step s = Some t" for s t
    using that cheap_pair_less by (auto simp: cheap_step_def intro!: length_region_merge) fastforce+
  show "merge_cheap s = (case cheap_step s of None \<Rightarrow> s | Some t \<Rightarrow> merge_cheap t)" for s
    by (subst merge_cheap.simps) (auto simp: cheap_step_def split: option.splits)
qed simp

lemma closest_ends: "run_loop (Suc (length rs)) closest_step rs = Some (merge_closest rs) \<and> closest_step (merge_closest rs) = None"
proof (rule run_loop_ends)
  show "length t < length s" if "closest_step s = Some t" for s t
    using that closest_pair_less by (auto simp: closest_step_def intro!: length_region_merge split: if_splits) fastforce+
  show "merge_closest s = (case closest_step s of None \<Rightarrow> s | Some t \<Rightarrow> merge_closest t)" for s
    by (subst merge_closest.simps) (auto simp: closest_step_def split: option.splits)
qed simp

text \<open>
  C31: Coalescing ends: each of its two loops, run with as many iterations as the region has
  rectangles and one more, has stopped by itself, after which no pair is left that merges cheaply
  and at most twelve rectangles remain.
\<close>

theorem coalesce_terminates:
  "\<exists>mid. run_loop (Suc (length rs)) cheap_step rs = Some mid \<and> cheap_pair mid = None \<and>
    run_loop (Suc (length mid)) closest_step mid = Some (region_coalesce rs) \<and> length (region_coalesce rs) \<le> MAX_RECTS"
proof -
  have "closest_step (region_coalesce rs) = None" using closest_ends [of "merge_cheap rs"] by (simp add: region_coalesce_def)
  then have "length (region_coalesce rs) \<le> MAX_RECTS"
    using closest_pair_None [of "region_coalesce rs"] by (fastforce simp: closest_step_def MAX_RECTS_def split: if_splits)
  then show ?thesis
    using cheap_ends [of rs] closest_ends [of "merge_cheap rs"] by (auto simp: cheap_step_def region_coalesce_def)
qed

end
