(* ===== verification/Schedule.thy ===== *)
theory Schedule
  imports Machine
begin

text \<open>
  The scheduler's choice of the next thread, \<^verbatim>\<open>system/schedule.rs\<close>: round robin over the slots, with
  demoted threads held back while another can run.
\<close>

definition next_runnable :: "nat \<Rightarrow> nat \<Rightarrow> (nat \<Rightarrow> bool) \<Rightarrow> nat option" where
  "next_runnable cur n runnable =
     (if n = 0 then None else find runnable (map (\<lambda>step. u64_add cur step mod n) [1..<n + 1]))"

definition next_runnable_held :: "nat \<Rightarrow> nat \<Rightarrow> (nat \<Rightarrow> bool) \<Rightarrow> (nat \<Rightarrow> bool) \<Rightarrow> nat option" where
  "next_runnable_held cur n runnable held =
     (case next_runnable cur n (\<lambda>i. runnable i \<and> \<not> held i) of
        Some i \<Rightarrow> if i \<noteq> cur then Some i else next_runnable cur n runnable
      | None \<Rightarrow> next_runnable cur n runnable)"

subsection \<open>Fairness\<close>

text \<open>How many slots after \<open>cur\<close> the slot \<open>t\<close> is tried, from 1 to \<open>n\<close>.\<close>

definition turn :: "nat \<Rightarrow> nat \<Rightarrow> nat \<Rightarrow> nat" where
  "turn n cur t = (if cur < t then t - cur else t + n - cur)"

lemma turn_bounds: "cur < n \<Longrightarrow> t < n \<Longrightarrow> 1 \<le> turn n cur t \<and> turn n cur t \<le> n"
  by (auto simp: turn_def)

lemma slot_at_turn: "cur < n \<Longrightarrow> 1 \<le> s \<Longrightarrow> s \<le> n \<Longrightarrow> (cur + s) mod n = t \<longleftrightarrow> t < n \<and> turn n cur t = s"
proof (cases "cur + s < n")
  case False
  assume "cur < n" "1 \<le> s" "s \<le> n"
  then have "(cur + s) mod n = cur + s - n" using False mod_if [of "cur + s" n] by simp
  then show ?thesis using False \<open>cur < n\<close> \<open>1 \<le> s\<close> \<open>s \<le> n\<close> by (auto simp: turn_def)
qed (auto simp: turn_def)

lemma turn_less: "cur < n \<Longrightarrow> p < n \<Longrightarrow> t < n \<Longrightarrow> p \<noteq> t \<Longrightarrow> turn n cur p \<le> turn n cur t \<Longrightarrow> turn n p t < turn n cur t"
  by (auto simp: turn_def split: if_splits)

text \<open>The first runnable slot in turn.\<close>

lemma next_runnable_first:
  assumes "cur < n" and "2 * n < 2 ^ 64"
  shows "case next_runnable cur n run of
      Some p \<Rightarrow> p < n \<and> run p \<and> (\<forall>t < n. run t \<longrightarrow> turn n cur p \<le> turn n cur t)
    | None \<Rightarrow> \<forall>t < n. \<not> run t"
proof -
  define l where "l = map (\<lambda>s. (cur + s) mod n) [1..<n + 1]"
  have len: "length l = n" by (simp add: l_def)
  have "map (\<lambda>step. u64_add cur step mod n) [1..<n + 1] = l" using assms by (simp add: l_def)
  then have e: "next_runnable cur n run = find run l" using assms(1) by (simp add: next_runnable_def)
  have nth: "l ! j = (cur + Suc j) mod n" if "j < n" for j using that unfolding l_def by (simp add: nth_map_upt del: upt_Suc)
  have at: "l ! (turn n cur t - 1) = t" "turn n cur t - 1 < n" if "t < n" for t
    using slot_at_turn [OF assms(1), of "turn n cur t" t] turn_bounds [OF assms(1) that] nth [of "turn n cur t - 1"] that by auto
  show ?thesis
  proof (cases "find run l")
    case None
    then have "\<not> run t" if "t < n" for t using at [OF that] len nth_mem [of _ l] by (metis find_None_iff)
    then show ?thesis by (simp add: e None)
  next
    case (Some p)
    then obtain i where i: "i < n" "run (l ! i)" "p = l ! i" "\<forall>j < i. \<not> run (l ! j)" by (auto simp: find_Some_iff len)
    have p: "p < n" "turn n cur p = Suc i" using i(1,3) nth slot_at_turn [OF assms(1), of "Suc i" p] by simp_all
    have "Suc i \<le> turn n cur t" if t: "t < n" "run t" for t
    proof (rule ccontr)
      assume "\<not> Suc i \<le> turn n cur t"
      then have "turn n cur t - 1 < i" using turn_bounds [OF assms(1) t(1)] by linarith
      then show False using i(4) at(1) [OF t(1)] t(2) by metis
    qed
    then show ?thesis using p i(2,3) by (simp add: e Some)
  qed
qed

lemma held_choice:
  assumes "cur < n" and "2 * n < 2 ^ 64"
  shows "case next_runnable_held cur n run held of
      Some p \<Rightarrow> p < n \<and> run p \<and> (\<forall>t < n. run t \<and> \<not> held t \<longrightarrow> turn n cur p \<le> turn n cur t) \<and>
        (held p \<longrightarrow> (\<forall>t < n. run t \<and> \<not> held t \<longrightarrow> t = cur))
    | None \<Rightarrow> \<forall>t < n. \<not> run t"
proof -
  note a = next_runnable_first [OF assms, of run] and b = next_runnable_first [OF assms, of "\<lambda>i. run i \<and> \<not> held i"]
  have full: "turn n cur cur = n" using assms(1) by (simp add: turn_def)
  have only: "t = cur" if "turn n cur t = n" "t < n" for t using that assms(1) by (auto simp: turn_def split: if_splits)
  show ?thesis
  proof (cases "next_runnable cur n (\<lambda>i. run i \<and> \<not> held i)")
    case None
    then show ?thesis using a b by (auto simp: next_runnable_held_def split: option.splits)
  next
    case (Some i)
    show ?thesis
    proof (cases "i = cur")
      case True
      then have "\<forall>t < n. run t \<and> \<not> held t \<longrightarrow> t = cur" using b Some full only turn_bounds [OF assms(1)] by (auto intro: antisym)
      then show ?thesis using a Some True by (auto simp: next_runnable_held_def split: option.splits)
    next
      case False
      then show ?thesis using b Some by (auto simp: next_runnable_held_def)
    qed
  qed
qed

text \<open>A run of the scheduler: at each decision, which slots may run and which are held.\<close>

fun picks :: "nat \<Rightarrow> nat \<Rightarrow> ((nat \<Rightarrow> bool) \<times> (nat \<Rightarrow> bool)) list \<Rightarrow> nat list" where
  "picks n cur [] = []"
| "picks n cur ((run, held) # ds) =
     (case next_runnable_held cur n run held of Some p \<Rightarrow> p # picks n p ds | None \<Rightarrow> picks n cur ds)"

lemma picked_in_turn:
  "cur < n \<Longrightarrow> 2 * n < 2 ^ 64 \<Longrightarrow> t < n \<Longrightarrow> \<forall>(run, held) \<in> set ds. run t \<and> \<not> held t \<Longrightarrow> turn n cur t \<le> length ds \<Longrightarrow> t \<in> set (picks n cur ds)"
proof (induction ds arbitrary: cur)
  case Nil
  then show ?case using turn_bounds [of cur n t] by simp
next
  case (Cons d ds)
  obtain run held where d: "d = (run, held)" by fastforce
  note c = held_choice [OF Cons.prems(1,2), of run held]
  obtain p where p: "next_runnable_held cur n run held = Some p" "p < n" "turn n cur p \<le> turn n cur t"
    using c Cons.prems(3,4) by (cases "next_runnable_held cur n run held") (auto simp: d)
  show ?case
  proof (cases "p = t")
    case False
    then have "turn n p t \<le> length ds" using turn_less [OF Cons.prems(1) p(2) Cons.prems(3)] p(3) Cons.prems(5) by fastforce
    then show ?thesis using Cons.IH [OF p(2) Cons.prems(2,3)] Cons.prems(4) p(1) by (auto simp: d)
  qed (simp add: d p(1))
qed

text \<open>
  C32: Round robin is fair: a thread that can run and is not held back at each of \<open>n\<close> consecutive
  decisions over \<open>n\<close> slots is picked at one of them, whatever the other threads do.
\<close>

theorem round_robin_fair:
  assumes "cur < n" and "2 * n < 2 ^ 64" and "t < n" and "length ds = n" and "\<forall>(run, held) \<in> set ds. run t \<and> \<not> held t"
  shows "t \<in> set (picks n cur ds)"
  using picked_in_turn [OF assms(1-3,5)] turn_bounds [OF assms(1,3)] assms(4) by simp

theorem round_robin_fair_witness:
  "2 \<in> set (picks 3 0 [(\<lambda>i. True, \<lambda>i. False), (\<lambda>i. i \<noteq> 1, \<lambda>i. i = 0), (\<lambda>i. True, \<lambda>i. i = 1)])"
  by (rule round_robin_fair) simp_all

end
