(* ===== verification/Process.thy ===== *)
theory Process
  imports Prelude
begin

text \<open>
  The process table of \<^verbatim>\<open>system/process.rs\<close>.  Pids are 16 bits and ticks 32 bits wide and wrap around.
\<close>

definition MAX_PROC :: nat where "MAX_PROC = 48"
definition NAME_CAP :: nat where "NAME_CAP = 16"

datatype proc_state = Running | Suspended | Terminated
datatype proc_kind = System | App

record process =
  p_pid :: nat
  p_name :: bytes
  p_name_len :: nat
  p_kind :: proc_kind
  p_state :: proc_state
  p_ticks :: nat

definition process_name :: "process \<Rightarrow> bytes" where
  "process_name p = take (p_name_len p) (p_name p)"

record process_table =
  procs :: "process list"
  next_pid :: nat
  selected :: nat

definition pt_new :: process_table where
  "pt_new = \<lparr>procs = [], next_pid = 1, selected = 0\<rparr>"

definition pt_at :: "nat \<Rightarrow> process_table \<Rightarrow> process option" where
  "pt_at i t = (if i < length (procs t) then Some (procs t ! i) else None)"

definition spawn :: "bytes \<Rightarrow> proc_kind \<Rightarrow> proc_state \<Rightarrow> process_table \<Rightarrow> nat option \<times> process_table" where
  "spawn name kind st t =
     (if MAX_PROC \<le> length (procs t) then (None, t)
      else let pid = next_pid t;
               n = min (length name) NAME_CAP;
               p = \<lparr>p_pid = pid, p_name = put_slice 0 (take n name) (replicate NAME_CAP 0), p_name_len = n,
                    p_kind = kind, p_state = st, p_ticks = 0\<rparr>
           in (Some pid, t\<lparr>procs := procs t @ [p], next_pid := (next_pid t + 1) mod 2 ^ 16\<rparr>))"

definition index_of :: "nat \<Rightarrow> process_table \<Rightarrow> nat option" where
  "index_of pid t = find (\<lambda>i. p_pid (procs t ! i) = pid) [0..<length (procs t)]"

definition pt_get :: "nat \<Rightarrow> process_table \<Rightarrow> process option" where
  "pt_get pid t = map_option (\<lambda>i. procs t ! i) (index_of pid t)"

definition set_state :: "nat \<Rightarrow> proc_state \<Rightarrow> process_table \<Rightarrow> bool \<times> process_table" where
  "set_state pid st t =
     (case index_of pid t of
        Some i \<Rightarrow> (True, t\<lparr>procs := (procs t)[i := (procs t ! i)\<lparr>p_state := st\<rparr>]\<rparr>)
      | None \<Rightarrow> (False, t))"

definition kill :: "nat \<Rightarrow> process_table \<Rightarrow> bool \<times> process_table" where
  "kill pid t =
     (case index_of pid t of
        None \<Rightarrow> (False, t)
      | Some i \<Rightarrow>
          if p_kind (procs t ! i) = System then (False, t)
          else let t = t\<lparr>procs := take i (procs t) @ drop (Suc i) (procs t)\<rparr>;
                   count = length (procs t)
               in (True, if count \<le> selected t \<and> 0 < count then t\<lparr>selected := count - 1\<rparr> else t))"

definition pt_tick :: "process_table \<Rightarrow> process_table" where
  "pt_tick t = t\<lparr>procs := map (\<lambda>p. if p_state p = Running then p\<lparr>p_ticks := u32_add (p_ticks p) 1\<rparr> else p) (procs t)\<rparr>"

definition running :: "process_table \<Rightarrow> nat" where
  "running t = length (filter (\<lambda>p. p_state p = Running) (procs t))"

definition selected_pid :: "process_table \<Rightarrow> nat option" where
  "selected_pid t = map_option p_pid (pt_at (selected t) t)"

definition select_next :: "process_table \<Rightarrow> process_table" where
  "select_next t = (if procs t \<noteq> [] then t\<lparr>selected := (selected t + 1) mod length (procs t)\<rparr> else t)"

definition select_prev :: "process_table \<Rightarrow> process_table" where
  "select_prev t =
     (let n = length (procs t) in if 0 < n then t\<lparr>selected := (selected t + n - 1) mod n\<rparr> else t)"

subsection \<open>Histories\<close>

datatype proc_op = Spawn bytes proc_kind proc_state | SetState nat proc_state | Kill nat | Tick | SelectNext | SelectPrev

fun proc_step :: "proc_op \<Rightarrow> process_table \<Rightarrow> process_table" where
  "proc_step (Spawn name kind st) t = snd (spawn name kind st t)"
| "proc_step (SetState pid st) t = snd (set_state pid st t)"
| "proc_step (Kill pid) t = snd (kill pid t)"
| "proc_step Tick t = pt_tick t"
| "proc_step SelectNext t = select_next t"
| "proc_step SelectPrev t = select_prev t"

fun spawns :: "proc_op list \<Rightarrow> nat" where
  "spawns [] = 0"
| "spawns (Spawn _ _ _ # ps) = Suc (spawns ps)"
| "spawns (_ # ps) = spawns ps"

definition pids :: "process_table \<Rightarrow> nat list" where
  "pids t = map p_pid (procs t)"

definition system_pids :: "process_table \<Rightarrow> nat set" where
  "system_pids t = p_pid ` {p \<in> set (procs t). p_kind p = System}"

text \<open>After at most \<open>n\<close> spawns: the pids are distinct and below the next one, and the cursor is on a process.\<close>

definition table_ok :: "nat \<Rightarrow> process_table \<Rightarrow> bool" where
  "table_ok n t \<longleftrightarrow> length (procs t) \<le> MAX_PROC \<and> distinct (pids t) \<and> selected t < max 1 (length (procs t)) \<and>
     (\<exists>k \<le> n. next_pid t = Suc k mod 2 ^ 16 \<and> (\<forall>p \<in> set (pids t). 1 \<le> p \<and> p \<le> k))"

lemma index_of_Some: "index_of pid t = Some i \<Longrightarrow> i < length (procs t) \<and> p_pid (procs t ! i) = pid"
  by (auto simp: index_of_def find_Some_iff)

lemma remove_at: "set (take i xs @ drop (Suc i) xs) \<subseteq> set xs" "distinct xs \<Longrightarrow> distinct (take i xs @ drop (Suc i) xs)"
proof -
  show "set (take i xs @ drop (Suc i) xs) \<subseteq> set xs" using set_take_subset set_drop_subset by fastforce
  assume "distinct xs"
  moreover have "set (take i xs) \<inter> set (drop (Suc i) xs) = {}" if "distinct xs"
    using that by (simp add: set_take_disj_set_drop_if_distinct)
  ultimately show "distinct (take i xs @ drop (Suc i) xs)" by simp
qed

lemma table_ok_same: "table_ok n t \<Longrightarrow> pids t' = pids t \<Longrightarrow> next_pid t' = next_pid t \<Longrightarrow> selected t' < max 1 (length (procs t)) \<Longrightarrow> table_ok n t'"
proof -
  assume a: "table_ok n t" "pids t' = pids t" "next_pid t' = next_pid t" "selected t' < max 1 (length (procs t))"
  then have "length (procs t') = length (procs t)" unfolding pids_def by (metis length_map)
  then show ?thesis using a by (simp add: table_ok_def)
qed

lemma table_ok_mono: "table_ok n t \<Longrightarrow> n \<le> m \<Longrightarrow> table_ok m t"
  unfolding table_ok_def by (meson le_trans)

lemma spawn_ok:
  assumes "table_ok n t" and "n < 2 ^ 16 - 1"
  shows "table_ok (Suc n) (snd (spawn name kind st t))"
proof (cases "MAX_PROC \<le> length (procs t)")
  case True
  then show ?thesis using table_ok_mono [OF assms(1), of "Suc n"] by (simp add: spawn_def)
next
  case False
  obtain k where k: "k \<le> n" "next_pid t = Suc k mod 2 ^ 16" "\<forall>p \<in> set (pids t). 1 \<le> p \<and> p \<le> k" using assms(1) by (auto simp: table_ok_def)
  then have np: "next_pid t = Suc k" using assms(2) by simp
  have "Suc k \<notin> set (pids t)" using k(3) by force
  then show ?thesis
    using assms False k np unfolding table_ok_def
    by (auto simp: spawn_def Let_def pids_def intro!: exI [of _ "Suc k"] intro: le_SucI)
qed

lemma kill_ok:
  assumes "table_ok n t"
  shows "table_ok n (snd (kill pid t))"
proof (cases "fst (kill pid t)")
  case False
  then have "snd (kill pid t) = t" by (auto simp: kill_def Let_def split: option.splits)
  then show ?thesis using assms by simp
next
  case True
  then obtain i where i: "index_of pid t = Some i" "p_kind (procs t ! i) \<noteq> System" by (auto simp: kill_def split: option.splits if_splits)
  let ?ps = "take i (procs t) @ drop (Suc i) (procs t)"
  have il: "i < length (procs t)" using index_of_Some [OF i(1)] by simp
  have e: "snd (kill pid t) = (let t' = t\<lparr>procs := ?ps\<rparr> in if length ?ps \<le> selected t \<and> 0 < length ?ps then t'\<lparr>selected := length ?ps - 1\<rparr> else t')"
    using i(2) by (auto simp: kill_def i(1) Let_def)
  have p: "map p_pid ?ps = take i (pids t) @ drop (Suc i) (pids t)" by (simp add: pids_def take_map drop_map)
  have l: "length ?ps = length (procs t) - 1" using il by simp
  have sel: "selected (snd (kill pid t)) < max 1 (length ?ps)" using assms il unfolding e l by (auto simp: Let_def table_ok_def)
  have "procs (snd (kill pid t)) = ?ps" and np: "next_pid (snd (kill pid t)) = next_pid t" unfolding e by (simp_all add: Let_def)
  then have ps: "pids (snd (kill pid t)) = take i (pids t) @ drop (Suc i) (pids t)" "length (procs (snd (kill pid t))) = length (procs t) - 1"
    unfolding pids_def [of "snd (kill pid t)"] using p l by simp_all
  then show ?thesis
    using assms sel remove_at(1) [of i "pids t"] remove_at(2) [of "pids t" i] l unfolding table_ok_def np ps by (metis diff_le_self le_trans subsetD)
qed

lemma proc_step_ok:
  assumes "table_ok n t" and "n + spawns [p] < 2 ^ 16"
  shows "table_ok (n + spawns [p]) (proc_step p t)"
proof (cases p)
  case (Spawn name kind st)
  then show ?thesis using spawn_ok [OF assms(1)] assms(2) by simp
next
  case (SetState pid st)
  have "pids (snd (set_state pid st t)) = pids t" "next_pid (snd (set_state pid st t)) = next_pid t" "selected (snd (set_state pid st t)) = selected t"
    using index_of_Some [of pid t] by (auto simp: set_state_def pids_def map_update split: option.splits intro: list_update_same_conv [THEN iffD2])
  moreover have "selected t < max 1 (length (procs t))" using assms(1) by (simp add: table_ok_def)
  ultimately show ?thesis using SetState table_ok_same [OF assms(1), of "snd (set_state pid st t)"] by simp
next
  case (Kill pid)
  then show ?thesis using kill_ok [OF assms(1)] by simp
next
  case Tick
  have "pids (pt_tick t) = pids t" "next_pid (pt_tick t) = next_pid t" "selected (pt_tick t) = selected t"
    by (simp_all add: pt_tick_def pids_def)
  moreover have "selected t < max 1 (length (procs t))" using assms(1) by (simp add: table_ok_def)
  ultimately show ?thesis using Tick table_ok_same [OF assms(1), of "pt_tick t"] by simp
next
  case SelectNext
  have "selected (select_next t) < max 1 (length (procs t))" using assms(1) by (auto simp: select_next_def table_ok_def less_max_iff_disj)
  then show ?thesis using SelectNext table_ok_same [OF assms(1), of "select_next t"] by (simp add: select_next_def pids_def)
next
  case SelectPrev
  have "selected (select_prev t) < max 1 (length (procs t))" using assms(1) by (auto simp: select_prev_def table_ok_def Let_def less_max_iff_disj)
  then show ?thesis using SelectPrev table_ok_same [OF assms(1), of "select_prev t"] by (simp add: select_prev_def pids_def Let_def)
qed

lemma system_pids_map:
  "(\<And>p. p_pid (f p) = p_pid p \<and> p_kind (f p) = p_kind p) \<Longrightarrow> system_pids (t\<lparr>procs := map f (procs t)\<rparr>) = system_pids t"
  by (force simp: system_pids_def image_iff)

lemma kill_system: "system_pids t \<subseteq> system_pids (snd (kill pid t))"
proof -
  have "system_pids t \<subseteq> p_pid ` {p \<in> set (take i (procs t) @ drop (Suc i) (procs t)). p_kind p = System}"
    if i: "i < length (procs t)" "p_kind (procs t ! i) \<noteq> System" for i
  proof -
    have "procs t = take i (procs t) @ procs t ! i # drop (Suc i) (procs t)" by (rule id_take_nth_drop [OF i(1)])
    then have "set (procs t) = set (take i (procs t) @ drop (Suc i) (procs t)) \<union> {procs t ! i}" by (metis Un_insert_right append.assoc list.simps(15) set_append sup_bot_right)
    then show ?thesis using i(2) by (auto simp: system_pids_def)
  qed
  then show ?thesis
    using index_of_Some [of pid t] by (auto simp: kill_def Let_def system_pids_def split: option.splits)
qed

lemma set_state_system: "system_pids (snd (set_state pid st t)) = system_pids t"
proof (cases "index_of pid t")
  case (Some i)
  have i: "i < length (procs t)" using index_of_Some [OF Some] by simp
  let ?q = "(procs t ! i)\<lparr>p_state := st\<rparr>"
  have eq: "map (\<lambda>p. (p_pid p, p_kind p)) ((procs t)[i := ?q]) = map (\<lambda>p. (p_pid p, p_kind p)) (procs t)"
    using i by (simp add: map_update list_update_same_conv)
  have sp: "system_pids u = fst ` {x \<in> set (map (\<lambda>p. (p_pid p, p_kind p)) (procs u)). snd x = System}" for u
    by (force simp: system_pids_def image_iff)
  have up: "procs (t\<lparr>procs := (procs t)[i := ?q]\<rparr>) = (procs t)[i := ?q]" by simp
  have "system_pids (t\<lparr>procs := (procs t)[i := ?q]\<rparr>) = system_pids t" unfolding sp up eq ..
  then show ?thesis using Some by (simp add: set_state_def)
qed (simp add: set_state_def)

lemma proc_step_system: "system_pids t \<subseteq> system_pids (proc_step p t)"
proof (cases p)
  case Tick
  then show ?thesis using system_pids_map [of "\<lambda>p. if p_state p = Running then p\<lparr>p_ticks := u32_add (p_ticks p) 1\<rparr> else p" t]
    by (simp add: pt_tick_def)
qed (use kill_system set_state_system in \<open>auto simp: spawn_def system_pids_def select_next_def select_prev_def Let_def\<close>)

lemma run_ok:
  "table_ok n t \<Longrightarrow> n + spawns ps < 2 ^ 16 \<Longrightarrow>
    table_ok (n + spawns ps) (fold proc_step ps t) \<and> system_pids t \<subseteq> system_pids (fold proc_step ps t)"
proof (induction ps arbitrary: n t)
  case (Cons p ps)
  have s: "spawns (p # ps) = spawns [p] + spawns ps" by (cases p) auto
  have "table_ok (n + spawns [p]) (proc_step p t)" using proc_step_ok [OF Cons.prems(1), of p] Cons.prems(2) unfolding s by simp
  from Cons.IH [OF this] proc_step_system [of t p] Cons.prems(2) show ?case unfolding s by (auto simp: add.assoc)
qed simp

text \<open>
  C33: Through any history with at most 65535 spawns the table is bounded, each pid names one process,
  the cursor stays on a process whenever there is one, and no request ends a system process: the
  ones of any moment are there at every later one.
\<close>

theorem process_table_sound:
  assumes "spawns (ps @ qs) < 2 ^ 16"
  shows "length (procs (fold proc_step (ps @ qs) pt_new)) \<le> MAX_PROC \<and> distinct (pids (fold proc_step (ps @ qs) pt_new)) \<and>
    (procs (fold proc_step (ps @ qs) pt_new) = [] \<or> selected_pid (fold proc_step (ps @ qs) pt_new) \<in> Some ` set (pids (fold proc_step (ps @ qs) pt_new))) \<and>
    system_pids (fold proc_step ps pt_new) \<subseteq> system_pids (fold proc_step (ps @ qs) pt_new)"
proof -
  have new: "table_ok 0 pt_new" by (simp add: table_ok_def pt_new_def pids_def)
  have s: "spawns (ps @ qs) = spawns ps + spawns qs" by (induction ps rule: spawns.induct) auto
  let ?t = "fold proc_step ps pt_new" and ?u = "fold proc_step (ps @ qs) pt_new"
  have a: "table_ok (spawns ps) ?t" using run_ok [OF new, of ps] assms s by simp
  have b: "table_ok (spawns (ps @ qs)) ?u" "system_pids ?t \<subseteq> system_pids ?u"
    using run_ok [OF a, of qs] assms s by simp_all
  have "selected_pid ?u \<in> Some ` set (pids ?u)" if "procs ?u \<noteq> []"
  proof -
    have "selected ?u < length (procs ?u)" using b(1) that by (auto simp: table_ok_def less_max_iff_disj)
    then show ?thesis by (auto simp: selected_pid_def pt_at_def pids_def)
  qed
  then show ?thesis using b by (auto simp: table_ok_def)
qed

theorem process_table_sound_witness:
  "system_pids (fold proc_step [Spawn [107] System Running] pt_new) \<subseteq>
    system_pids (fold proc_step [Spawn [107] System Running, Spawn [97] App Running, Kill 1, Kill 2] pt_new)"
  using process_table_sound [of "[Spawn [107] System Running]" "[Spawn [97] App Running, Kill 1, Kill 2]"] by simp

subsection \<open>Reuse of pids\<close>

text \<open>
  The bound on the spawns is needed: the pid counter wraps, and a table whose first process is the
  kernel hands out the kernel's pid again after 65535 more processes have come and gone.  The new
  process cannot be ended by its pid, which names the kernel.
\<close>

definition churn :: "nat \<Rightarrow> proc_op list" where
  "churn k = Spawn [107] System Running # concat (map (\<lambda>j. [Spawn [97] App Running, Kill ((2 + j) mod 2 ^ 16)]) [0..<k])"

lemma churn_state:
  "k \<le> 65535 \<Longrightarrow> \<exists>p. p_pid p = 1 \<and> p_kind p = System \<and> fold proc_step (churn k) pt_new = \<lparr>procs = [p], next_pid = (2 + k) mod 2 ^ 16, selected = 0\<rparr>"
proof (induction k)
  case 0
  then show ?case by (simp add: churn_def pt_new_def spawn_def MAX_PROC_def Let_def)
next
  case (Suc k)
  then obtain p where p: "p_pid p = 1" "p_kind p = System"
    "fold proc_step (churn k) pt_new = \<lparr>procs = [p], next_pid = (2 + k) mod 2 ^ 16, selected = 0\<rparr>" by auto
  have "churn (Suc k) = churn k @ [Spawn [97] App Running, Kill ((2 + k) mod 2 ^ 16)]" by (simp add: churn_def)
  moreover have ne: "(2 + k) mod 2 ^ 16 \<noteq> 1"
    using Suc.prems by (cases "k = 65534") simp_all
  have "find (\<lambda>i. p_pid (([p] @ [q]) ! i) = n) [0..<2] = Some 1" if "p_pid q = n" "n \<noteq> 1" for q n
    using that p(1) by (simp add: upt_rec)
  ultimately show ?case
    using p ne by (simp add: spawn_def kill_def index_of_def MAX_PROC_def Let_def upt_rec mod_Suc_eq)
qed

lemma pid_reused:
  "\<exists>t. t = fold proc_step (churn 65535) pt_new \<and> 1 \<in> set (pids t) \<and>
    fst (spawn [97] App Running t) = Some 1 \<and> fst (kill 1 (snd (spawn [97] App Running t))) = False"
proof -
  obtain p where p: "p_pid p = 1" "p_kind p = System"
    "fold proc_step (churn 65535) pt_new = \<lparr>procs = [p], next_pid = 1, selected = 0\<rparr>"
    using churn_state [of 65535] by auto
  then show ?thesis by (simp add: pids_def spawn_def kill_def index_of_def MAX_PROC_def Let_def upt_rec)
qed

end
