(* ===== verification/Perm.thy ===== *)
theory Perm
  imports Machine
begin

text \<open>
  File permissions, \<^verbatim>\<open>security/perm.rs\<close>: who is asking, who a file belongs to, and what the mode bits
  allow.  Modes are 16-bit and ids 32-bit natural numbers.
\<close>

definition R :: nat where "R = 4"
definition W :: nat where "W = 2"
definition X :: nat where "X = 1"

definition STICKY :: nat where "STICKY = 512"
definition MODE_MASK :: nat where "MODE_MASK = 1023"
definition ROOT_UID :: nat where "ROOT_UID = 0"

record cred =
  c_uid :: nat
  c_gid :: nat
  c_groups :: "nat list"

definition cred_root :: cred where
  "cred_root = \<lparr>c_uid = ROOT_UID, c_gid = 0, c_groups = []\<rparr>"

definition cred_is_root :: "cred \<Rightarrow> bool" where
  "cred_is_root who \<longleftrightarrow> c_uid who = ROOT_UID"

definition in_group :: "cred \<Rightarrow> nat \<Rightarrow> bool" where
  "in_group who gid \<longleftrightarrow> c_gid who = gid \<or> gid \<in> set (c_groups who)"

record owner =
  o_uid :: nat
  o_gid :: nat
  o_mode :: nat

definition class_bits :: "owner \<Rightarrow> cred \<Rightarrow> nat" where
  "class_bits own who =
     (let shift = (if c_uid who = o_uid own then 6 else if in_group who (o_gid own) then 3 else 0)
      in drop_bit shift (o_mode own) AND 7)"

definition allowed :: "cred \<Rightarrow> owner \<Rightarrow> nat \<Rightarrow> bool \<Rightarrow> bool" where
  "allowed who own want is_dir =
     (let want = want AND 7 in
      if cred_is_root who then want AND X = 0 \<or> is_dir \<or> o_mode own AND 73 \<noteq> 0
      else class_bits own who AND want = want)"

definition may_chmod :: "cred \<Rightarrow> owner \<Rightarrow> bool" where
  "may_chmod who own \<longleftrightarrow> cred_is_root who \<or> c_uid who = o_uid own"

definition may_chown :: "cred \<Rightarrow> owner \<Rightarrow> nat option \<Rightarrow> nat option \<Rightarrow> bool" where
  "may_chown who own new_uid new_gid =
     (if cred_is_root who then True
      else if c_uid who \<noteq> o_uid own then False
      else if (case new_uid of Some u \<Rightarrow> u \<noteq> o_uid own | None \<Rightarrow> False) then False
      else case new_gid of None \<Rightarrow> True | Some g \<Rightarrow> in_group who g)"

definition may_remove :: "cred \<Rightarrow> owner \<Rightarrow> owner \<Rightarrow> bool" where
  "may_remove who dir child =
     (if \<not> allowed who dir (W OR X) True then False
      else if o_mode dir AND STICKY \<noteq> 0 \<and> \<not> cred_is_root who then c_uid who = o_uid child \<or> c_uid who = o_uid dir
      else True)"

definition apply_umask :: "nat \<Rightarrow> nat \<Rightarrow> nat" where
  "apply_umask mode umask = and_not mode umask AND MODE_MASK"

definition mode_string :: "nat \<Rightarrow> string" where
  "mode_string mode =
     (let s = map (\<lambda>(i, c). if mode AND drop_bit i 256 \<noteq> 0 then c else CHR ''-'') (zip [0..<9] ''rwxrwxrwx'')
      in if mode AND STICKY \<noteq> 0 then butlast s @ [if last s = CHR ''x'' then CHR ''t'' else CHR ''T''] else s)"

definition octal_digit :: "char \<Rightarrow> nat option" where
  "octal_digit c = (let v = of_char c in if 48 \<le> v \<and> v \<le> 55 then Some (v - 48) else None)"

fun octal_digits :: "nat \<Rightarrow> string \<Rightarrow> nat option" where
  "octal_digits v [] = Some v"
| "octal_digits v (c # cs) =
     (case octal_digit c of
        None \<Rightarrow> None
      | Some d \<Rightarrow> if v * 8 + d < 2 ^ 16 then octal_digits (v * 8 + d) cs else None)"

text \<open>\<open>u16::from_str_radix(s, 8)\<close>, which accepts a leading plus sign.\<close>

definition from_octal :: "string \<Rightarrow> nat option" where
  "from_octal s =
     (if s = [] \<or> s = ''+'' \<or> s = ''-'' then None
      else if hd s = CHR ''+'' then octal_digits 0 (tl s)
      else octal_digits 0 s)"

definition parse_mode :: "string \<Rightarrow> nat option" where
  "parse_mode s =
     (if s = [] \<or> 5 < length s then None
      else case from_octal s of
        None \<Rightarrow> None
      | Some v \<Rightarrow> if and_not v MODE_MASK = 0 then Some v else None)"

text \<open>A leading plus sign is accepted although it is not an octal digit.\<close>

lemma plus_sign_accepted: "parse_mode ''+644'' = Some 420"
  by (simp add: parse_mode_def from_octal_def octal_digit_def and_not_def MODE_MASK_def)

lemma and_covers_iff: "(a AND b = b) \<longleftrightarrow> (\<forall>n. bit b n \<longrightarrow> bit a n)" for a b :: nat
  by (auto simp: bit_eq_iff [of "a AND b"] bit_and_iff)

lemma and_zero_iff: "(a AND b = 0) \<longleftrightarrow> (\<forall>n. \<not> (bit a n \<and> bit b n))" for a b :: nat
  by (auto simp: bit_eq_iff [of "a AND b"] bit_and_iff)

lemma bit_execute: "bit (73::nat) n \<longleftrightarrow> n = 0 \<or> n = 3 \<or> n = 6"
proof -
  have "73 = push_bit 6 1 OR push_bit 3 1 OR (1::nat)" by simp
  then show ?thesis by (simp only: bit_or_iff bit_push_bit_iff bit_1_iff) auto
qed

lemma bit_permission: "bit (7::nat) n \<longleftrightarrow> n < 3"
proof -
  have "7 = (mask 3 :: nat)" by (simp add: mask_eq_exp_minus_1)
  then show ?thesis by (simp only: bit_mask_iff) simp
qed

text \<open>
  C37: The check of permissions is the rule of the three classes: root may do everything except
  execute a file that nobody may execute; everyone else needs each wanted bit in the bits of
  exactly one class, the owner's if he is the owner, else the group's if he is in it, else the others'.
\<close>

theorem allowed_by_class:
  assumes "want < 8"
  shows "allowed who own want is_dir \<longleftrightarrow>
    (if c_uid who = ROOT_UID then bit want 0 \<longrightarrow> is_dir \<or> bit (o_mode own) 0 \<or> bit (o_mode own) 3 \<or> bit (o_mode own) 6
     else let base = (if c_uid who = o_uid own then 6 else if o_gid own \<in> insert (c_gid who) (set (c_groups who)) then 3 else 0)
       in \<forall>k < 3. bit want k \<longrightarrow> bit (o_mode own) (base + k))"
proof -
  have "take_bit 3 want = want" using assms by (simp add: take_bit_nat_eq_self)
  then have w: "want AND 7 = want" by (simp add: take_bit_eq_mask mask_eq_exp_minus_1)
  then have small: "k < 3" if "bit want k" for k using that bit_and_iff [of want 7 k] by (simp add: bit_permission)
  have x: "want AND X = 0 \<longleftrightarrow> \<not> bit want 0" by (simp add: X_def bit_0 and_one_eq even_iff_mod_2_eq_zero)
  have e: "o_mode own AND 73 \<noteq> 0 \<longleftrightarrow> bit (o_mode own) 0 \<or> bit (o_mode own) 3 \<or> bit (o_mode own) 6"
    by (auto simp: and_zero_iff bit_execute)
  have c: "class_bits own who AND want = want \<longleftrightarrow>
      (\<forall>k < 3. bit want k \<longrightarrow> bit (o_mode own) ((if c_uid who = o_uid own then 6 else if in_group who (o_gid own) then 3 else 0) + k))"
    using small by (auto simp: and_covers_iff class_bits_def Let_def bit_and_iff bit_drop_bit_eq bit_permission)
  show ?thesis unfolding allowed_def Let_def w x e c by (auto simp: cred_is_root_def in_group_def)
qed

theorem allowed_by_class_witness:
  "allowed \<lparr>c_uid = 7, c_gid = 3, c_groups = [9]\<rparr> \<lparr>o_uid = 5, o_gid = 9, o_mode = 416\<rparr> R False \<and>
   \<not> allowed \<lparr>c_uid = 7, c_gid = 3, c_groups = [9]\<rparr> \<lparr>o_uid = 5, o_gid = 9, o_mode = 416\<rparr> W False"
proof -
  have b: "bit (4::nat) k \<longleftrightarrow> k = 2" "bit (2::nat) k \<longleftrightarrow> k = 1" for k
    using bit_exp_iff [of 2 k, where 'a = nat] bit_exp_iff [of 1 k, where 'a = nat] by auto
  have "bit (416::nat) 5" "\<not> bit (416::nat) 4" by (simp_all add: bit_iff_odd)
  then show ?thesis using allowed_by_class [of R] allowed_by_class [of W] by (auto simp: R_def W_def b ROOT_UID_def)
qed

end
