(* ===== verification/Vfs.thy ===== *)
theory Vfs
  imports FsInv Perm
begin

text \<open>
  The virtual file system layer: paths (\<^verbatim>\<open>storage/vfs/paths.rs\<close>), types and errors
  (\<^verbatim>\<open>vfs/types.rs\<close>, \<^verbatim>\<open>vfs/errors.rs\<close>), the trait \<open>Backend\<close> as a record of functions over the state of a backend,
  and the backend that is the filesystem itself (\<^verbatim>\<open>vfs/backend.rs\<close>).
\<close>

datatype vfs_error = VNotFound | VExists | VNotDir | VIsDir | VNotEmpty | VInvalidName | VNameTooLong | VInvalidPath
  | VReserved | VInvalidMove | VNoSpace | VNoInodes | VTooBig | VBusy | VUnavailable | VIo | VCorrupt | VCancelled
  | VPermissionDenied

fun vfs_error_from :: "fs_error \<Rightarrow> vfs_error" where
  "vfs_error_from NotFound = VNotFound"
| "vfs_error_from Exists = VExists"
| "vfs_error_from NotDir = VNotDir"
| "vfs_error_from IsDir = VIsDir"
| "vfs_error_from NotEmpty = VNotEmpty"
| "vfs_error_from InvalidName = VInvalidName"
| "vfs_error_from NameTooLong = VNameTooLong"
| "vfs_error_from InvalidPath = VInvalidPath"
| "vfs_error_from Reserved = VReserved"
| "vfs_error_from InvalidMove = VInvalidMove"
| "vfs_error_from NoSpace = VNoSpace"
| "vfs_error_from NoInodes = VNoInodes"
| "vfs_error_from TooBig = VTooBig"
| "vfs_error_from TxTooLarge = VNoSpace"
| "vfs_error_from TooSmall = VNoSpace"
| "vfs_error_from BadSuperblock = VCorrupt"
| "vfs_error_from (Corrupt _) = VCorrupt"
| "vfs_error_from Poisoned = VIo"
| "vfs_error_from (Io _) = VIo"

subsection \<open>Paths\<close>

text \<open>\<open>rposition\<close>: the index of the last element with the property.\<close>

definition rposition :: "('a \<Rightarrow> bool) \<Rightarrow> 'a list \<Rightarrow> nat option" where
  "rposition p xs = find (\<lambda>i. p (xs ! i)) (rev [0..<length xs])"

definition path_join :: "bytes \<Rightarrow> bytes \<Rightarrow> bytes" where
  "path_join dir name = dir @ (if dir \<noteq> [slash] then [slash] else []) @ name"

definition path_parent :: "bytes \<Rightarrow> bytes" where
  "path_parent path =
     (case rposition (\<lambda>b. b = slash) path of
        None \<Rightarrow> [slash]
      | Some i \<Rightarrow> if i = 0 then [slash] else take i path)"

definition base_name :: "bytes \<Rightarrow> bytes" where
  "base_name path = (case rposition (\<lambda>b. b = slash) path of Some i \<Rightarrow> drop (i + 1) path | None \<Rightarrow> path)"

definition path_is_root :: "bytes \<Rightarrow> bool" where
  "path_is_root path \<longleftrightarrow> path = [slash]"

definition is_inside :: "bytes \<Rightarrow> bytes \<Rightarrow> bool" where
  "is_inside path ancestor =
     (if path_is_root ancestor then path \<noteq> [] \<and> hd path = slash
      else path = ancestor \<or> (prefix ancestor path \<and> length ancestor < length path \<and> path ! length ancestor = slash))"

definition path_components :: "bytes \<Rightarrow> bytes list" where
  "path_components path = filter (\<lambda>c. c \<noteq> []) (split_slash path)"

definition trim_name :: "bytes \<Rightarrow> bytes" where
  "trim_name raw = rev (dropWhile (\<lambda>b. b = 0x20) (rev (dropWhile (\<lambda>b. b = 0x20) raw)))"

subsection \<open>Types\<close>

datatype entry_kind = EFile | EDir

definition entry_kind_from :: "kind \<Rightarrow> entry_kind" where
  "entry_kind_from k = (case k of File \<Rightarrow> EFile | Dir \<Rightarrow> EDir)"

record vfs_entry =
  ve_name :: bytes
  ve_kind :: entry_kind
  ve_size :: nat
  ve_mtime :: nat

definition vfs_entry_from :: "dir_entry \<Rightarrow> vfs_entry" where
  "vfs_entry_from e = \<lparr>ve_name = de_name e, ve_kind = entry_kind_from (de_kind e), ve_size = de_size e, ve_mtime = de_mtime e\<rparr>"

record info =
  in_kind :: entry_kind
  in_size :: nat
  in_ctime :: nat
  in_mtime :: nat
  in_blocks :: nat
  in_uid :: nat
  in_gid :: nat
  in_mode :: nat

definition info_from :: "stat \<Rightarrow> info" where
  "info_from s = \<lparr>in_kind = entry_kind_from (st_kind s), in_size = st_size s, in_ctime = st_ctime s, in_mtime = st_mtime s,
     in_blocks = st_blocks s, in_uid = st_uid s, in_gid = st_gid s, in_mode = st_mode s\<rparr>"

record trash_item =
  ti_id :: bytes
  ti_name :: bytes
  ti_kind :: entry_kind
  ti_size :: nat
  ti_deleted_at :: nat

definition trash_item_from :: "trash_entry \<Rightarrow> trash_item" where
  "trash_item_from t = \<lparr>ti_id = te_trash_name t, ti_name = te_orig_name t, ti_kind = entry_kind_from (te_kind t),
     ti_size = te_size t, ti_deleted_at = te_deleted_at t\<rparr>"

record usage =
  us_total :: nat
  us_free :: nat
  us_inodes_total :: nat
  us_inodes_free :: nat

definition usage_used :: "usage \<Rightarrow> nat" where
  "usage_used u = us_total u - us_free u"

definition inodes_used :: "usage \<Rightarrow> nat" where
  "inodes_used u = us_inodes_total u - us_inodes_free u"

definition used_permille :: "usage \<Rightarrow> nat" where
  "used_permille u = (if us_total u = 0 then 0 else min (usage_used u * 1000 div us_total u) 1000)"

definition usage_from :: "statfs \<Rightarrow> usage" where
  "usage_from s = \<lparr>us_total = data_bytes s, us_free = free_bytes s, us_inodes_total = sf_total_inodes s, us_inodes_free = sf_free_inodes s\<rparr>"

subsection \<open>Backends\<close>

record 's backend =
  bk_stat :: "bytes \<Rightarrow> 's \<Rightarrow> ('s, vfs_error, info) res"
  bk_readdir :: "bytes \<Rightarrow> 's \<Rightarrow> ('s, vfs_error, vfs_entry list) res"
  bk_read_file :: "bytes \<Rightarrow> 's \<Rightarrow> ('s, vfs_error, bytes) res"
  bk_read_at :: "bytes \<Rightarrow> nat \<Rightarrow> bytes \<Rightarrow> 's \<Rightarrow> ('s, vfs_error, nat \<times> bytes) res"
  bk_write_file :: "bytes \<Rightarrow> bytes \<Rightarrow> nat \<Rightarrow> 's \<Rightarrow> ('s, vfs_error, unit) res"
  bk_create :: "bytes \<Rightarrow> nat \<Rightarrow> 's \<Rightarrow> ('s, vfs_error, unit) res"
  bk_write_at :: "bytes \<Rightarrow> nat \<Rightarrow> bytes \<Rightarrow> nat \<Rightarrow> 's \<Rightarrow> ('s, vfs_error, unit) res"
  bk_append :: "bytes \<Rightarrow> bytes \<Rightarrow> nat \<Rightarrow> 's \<Rightarrow> ('s, vfs_error, unit) res"
  bk_truncate :: "bytes \<Rightarrow> nat \<Rightarrow> nat \<Rightarrow> 's \<Rightarrow> ('s, vfs_error, unit) res"
  bk_names :: "bytes \<Rightarrow> 's \<Rightarrow> ('s, vfs_error, (bytes \<times> entry_kind) list) res"
  bk_mkdir :: "bytes \<Rightarrow> nat \<Rightarrow> 's \<Rightarrow> ('s, vfs_error, unit) res"
  bk_rename :: "bytes \<Rightarrow> bytes \<Rightarrow> nat \<Rightarrow> 's \<Rightarrow> ('s, vfs_error, unit) res"
  bk_remove_all :: "bytes \<Rightarrow> 's \<Rightarrow> ('s, vfs_error, unit) res"
  bk_trash :: "bytes \<Rightarrow> nat \<Rightarrow> 's \<Rightarrow> ('s, vfs_error, unit) res"
  bk_trash_list :: "'s \<Rightarrow> ('s, vfs_error, trash_item list) res"
  bk_trash_restore :: "bytes \<Rightarrow> nat \<Rightarrow> 's \<Rightarrow> ('s, vfs_error, bytes) res"
  bk_trash_purge :: "bytes \<Rightarrow> 's \<Rightarrow> ('s, vfs_error, unit) res"
  bk_empty_trash :: "'s \<Rightarrow> ('s, vfs_error, unit) res"
  bk_usage :: "'s \<Rightarrow> usage"
  bk_set_owner :: "bytes \<Rightarrow> nat option \<Rightarrow> nat option \<Rightarrow> nat option \<Rightarrow> 's \<Rightarrow> ('s, vfs_error, unit) res"

text \<open>The error conversion of \<open>?\<close> and a conversion of the result.\<close>

definition via :: "('a \<Rightarrow> 'b) \<Rightarrow> ('s, fs_error, 'a) res \<Rightarrow> ('s, vfs_error, 'b) res" where
  "via f r = (case r of (Inl e, s) \<Rightarrow> (Inl (vfs_error_from e), s) | (Inr x, s) \<Rightarrow> (Inr (f x), s))"

definition at_path :: "'d blockdevice \<Rightarrow> bytes \<Rightarrow> (nat \<Rightarrow> 'd fs3 \<Rightarrow> ('d fs3, fs_error, 'a) res) \<Rightarrow> 'd fs3 \<Rightarrow> ('d fs3, fs_error, 'a) res" where
  "at_path dev path f fs = bindr (fs_open dev path fs) f"

definition fs3_backend :: "'d blockdevice \<Rightarrow> 'd fs3 backend" where
  "fs3_backend dev =
     \<lparr>bk_stat = (\<lambda>p fs. via info_from (fs_stat dev p fs)),
      bk_readdir = (\<lambda>p fs. via (map vfs_entry_from) (readdir dev p fs)),
      bk_read_file = (\<lambda>p fs. via id (read_file dev p fs)),
      bk_read_at = (\<lambda>p off buf fs. via id (at_path dev p (\<lambda>ino. read_at dev ino off buf) fs)),
      bk_write_file = (\<lambda>p data now fs. via id (write_file dev p data now fs)),
      bk_create = (\<lambda>p now fs. via (\<lambda>_. ()) (fs_create dev p now fs)),
      bk_write_at = (\<lambda>p off data now fs. via id (at_path dev p (\<lambda>ino. write_at dev ino off data now) fs)),
      bk_append = (\<lambda>p data now fs. via id (at_path dev p (\<lambda>ino. fs_append dev ino data now) fs)),
      bk_truncate = (\<lambda>p n now fs. via id (at_path dev p (\<lambda>ino. fs_truncate dev ino n now) fs)),
      bk_names = (\<lambda>p fs. via (map (\<lambda>(n, k). (n, entry_kind_from k))) (readdir_names dev p fs)),
      bk_mkdir = (\<lambda>p now fs. via (\<lambda>_. ()) (fs_mkdir dev p now fs)),
      bk_rename = (\<lambda>p q now fs. via id (rename dev p q now fs)),
      bk_remove_all = (\<lambda>p fs. via id (remove_all dev p fs)),
      bk_trash = (\<lambda>p now fs. via id (fs_trash dev p now fs)),
      bk_trash_list = (\<lambda>fs. via (map trash_item_from) (trash_list dev fs)),
      bk_trash_restore = (\<lambda>n now fs. via id (trash_restore dev n now fs)),
      bk_trash_purge = (\<lambda>n fs. via id (trash_purge dev n fs)),
      bk_empty_trash = (\<lambda>fs. via id (empty_trash dev fs)),
      bk_usage = (\<lambda>fs. usage_from (statfs_of fs)),
      bk_set_owner = (\<lambda>p u g m fs. via id (set_owner dev p u g m fs))\<rparr>"

subsection \<open>What a client relies on\<close>

text \<open>
  The questions a backend answers without changing what it stores: \<open>same s t\<close> relates the states that
  differ in nothing a user could see, for the filesystem the contents of its cache.
\<close>

locale vfs_backend =
  fixes bk :: "'s backend" and same :: "'s \<Rightarrow> 's \<Rightarrow> bool"
  assumes same_refl: "same s s"
    and same_trans: "same s t \<Longrightarrow> same t u \<Longrightarrow> same s u"
    and stat_same: "same s (snd (bk_stat bk p s))"
    and readdir_same: "same s (snd (bk_readdir bk p s))"
    and read_file_same: "same s (snd (bk_read_file bk p s))"
    and read_at_same: "same s (snd (bk_read_at bk p off buf s))"
    and names_same: "same s (snd (bk_names bk p s))"
    and trash_list_same: "same s (snd (bk_trash_list bk s))"
    and stat_refused: "p = [] \<or> MAX_PATH < length p \<Longrightarrow> \<exists>e t. bk_stat bk p s = (Inl e, t)"

lemma via_state [simp]: "snd (via f r) = snd r"
  by (cases r) (auto simp: via_def split: sum.splits)

lemma only_cache_trans: "only_cache s t \<Longrightarrow> only_cache t u \<Longrightarrow> only_cache s u"
  unfolding only_cache_def by (metis fs3.update_convs(1) fs3.surjective)

lemma ends_iff: "ends I r \<longleftrightarrow> I (snd r)"
  by (cases r) auto

lemma bad_path_refused:
  assumes "p = [] \<or> MAX_PATH < length p"
  shows "\<exists>e t. fs_stat dev p fs = (Inl e, t)"
proof -
  have "split_path p = Inl InvalidPath" using assms by (auto simp: split_path_def)
  then show ?thesis by (cases "f_poisoned fs") (simp_all add: fs_stat_def fs_lookup_def ready_def)
qed

interpretation fs3_vfs: vfs_backend "fs3_backend dev" only_cache for dev :: "'d blockdevice"
proof
  fix s t u :: "'d fs3" and p buf :: bytes and off :: nat
  show "only_cache s s" by simp
  show "only_cache s t \<Longrightarrow> only_cache t u \<Longrightarrow> only_cache s u" by (rule only_cache_trans)
  show "only_cache s (snd (bk_stat (fs3_backend dev) p s))"
    using reads.keep_fs_stat [of s s dev p] by (simp add: fs3_backend_def ends_iff)
  show "only_cache s (snd (bk_readdir (fs3_backend dev) p s))"
    using reads.keep_readdir [of s s dev p] by (simp add: fs3_backend_def ends_iff)
  show "only_cache s (snd (bk_read_file (fs3_backend dev) p s))"
    using reads.keep_read_file [of s s dev p] by (simp add: fs3_backend_def ends_iff)
  have "ends (only_cache s) (at_path dev p (\<lambda>ino. read_at dev ino off buf) s)"
    unfolding at_path_def by (intro ends_bindr reads.keep_fs_open reads.keep_read_at only_cache_refl)
  then show "only_cache s (snd (bk_read_at (fs3_backend dev) p off buf s))"
    by (simp add: fs3_backend_def ends_iff)
  show "only_cache s (snd (bk_names (fs3_backend dev) p s))"
    using reads.keep_readdir_names [of s s dev p] by (simp add: fs3_backend_def ends_iff)
  show "only_cache s (snd (bk_trash_list (fs3_backend dev) s))"
    using reads.keep_trash_list [of s s dev] by (simp add: fs3_backend_def ends_iff)
  show "\<exists>e t. bk_stat (fs3_backend dev) p s = (Inl e, t)" if "p = [] \<or> MAX_PATH < length p"
    using bad_path_refused [OF that, of dev s] by (auto simp: fs3_backend_def via_def)
qed

end
