(* ===== verification/Secured.thy ===== *)
theory Secured
  imports Vfs "HOL-Library.Multiset"
begin

text \<open>
  The permission layer, \<^verbatim>\<open>storage/secured.rs\<close>: a backend that checks the rules of \<^verbatim>\<open>security/perm.rs\<close>
  for one user before it reaches the backend under it.  The user and the file mode mask are the
  arguments \<open>who\<close> and \<open>umask\<close> of every operation.
\<close>

definition DEFAULT_UMASK :: nat where "DEFAULT_UMASK = 18"

definition DENIED :: vfs_error where "DENIED = VPermissionDenied"

definition owner_of :: "info \<Rightarrow> owner" where
  "owner_of i = \<lparr>o_uid = in_uid i, o_gid = in_gid i, o_mode = in_mode i\<rparr>"

definition is_dir :: "info \<Rightarrow> bool" where
  "is_dir i \<longleftrightarrow> in_kind i = EDir"

subsection \<open>The checks\<close>

definition check_dir :: "'s backend \<Rightarrow> cred \<Rightarrow> bytes \<Rightarrow> 's \<Rightarrow> ('s, vfs_error, unit) res" where
  "check_dir bk who cur s =
     bindr (bk_stat bk cur s) (\<lambda>i s.
       if \<not> is_dir i then (Inl VNotDir, s)
       else if \<not> allowed who (owner_of i) X True then (Inl DENIED, s)
       else (Inr (), s))"

fun search_loop :: "'s backend \<Rightarrow> cred \<Rightarrow> bytes list \<Rightarrow> bytes \<Rightarrow> 's \<Rightarrow> ('s, vfs_error, unit) res" where
  "search_loop bk who [] cur s = check_dir bk who cur s"
| "search_loop bk who (c # cs) cur s = bindr (check_dir bk who cur s) (\<lambda>_ s. search_loop bk who cs (path_join cur c) s)"

definition check_search :: "'s backend \<Rightarrow> cred \<Rightarrow> bytes \<Rightarrow> 's \<Rightarrow> ('s, vfs_error, unit) res" where
  "check_search bk who path s =
     (let comps = path_components path in
      if comps = [] then (Inr (), s) else search_loop bk who (butlast comps) [slash] s)"

definition need :: "'s backend \<Rightarrow> cred \<Rightarrow> bytes \<Rightarrow> nat \<Rightarrow> 's \<Rightarrow> ('s, vfs_error, info) res" where
  "need bk who path want s =
     bindr (check_search bk who path s) (\<lambda>_ s.
     bindr (bk_stat bk path s) (\<lambda>i s.
       if \<not> allowed who (owner_of i) want (is_dir i) then (Inl DENIED, s) else (Inr i, s)))"

definition need_parent :: "'s backend \<Rightarrow> cred \<Rightarrow> bytes \<Rightarrow> nat \<Rightarrow> 's \<Rightarrow> ('s, vfs_error, info) res" where
  "need_parent bk who path want s =
     bindr (need bk who (path_parent path) want s) (\<lambda>i s. if \<not> is_dir i then (Inl VNotDir, s) else (Inr i, s))"

definition claim :: "'s backend \<Rightarrow> cred \<Rightarrow> nat \<Rightarrow> bytes \<Rightarrow> nat \<Rightarrow> 's \<Rightarrow> ('s, vfs_error, unit) res" where
  "claim bk who umask path base_mode s =
     (case bk_set_owner bk path (Some (c_uid who)) (Some (c_gid who)) (Some (apply_umask base_mode umask)) s of
        (Inl e, s) \<Rightarrow> (Inl e, snd (bk_remove_all bk path s))
      | (Inr x, s) \<Rightarrow> (Inr x, s))"

text \<open>The body of the loop over the names of a folder: folders found go on the stack, whose top is the head of the list.\<close>

fun push_names :: "'s backend \<Rightarrow> cred \<Rightarrow> bytes \<Rightarrow> info \<Rightarrow> (bytes \<times> entry_kind) list \<Rightarrow> (bytes \<times> info) list \<Rightarrow> 's
    \<Rightarrow> ('s, vfs_error, (bytes \<times> info) list) res" where
  "push_names bk who p info [] stack s = (Inr stack, s)"
| "push_names bk who p info ((name, kind) # ns) stack s =
     (let cp = path_join p name in
      bindr (bk_stat bk cp s) (\<lambda>ci s.
        if \<not> may_remove who (owner_of info) (owner_of ci) then (Inl DENIED, s)
        else push_names bk who p info ns (if kind = EDir then (cp, ci) # stack else stack) s))"

text \<open>The walk of a tree that is to be removed; it has no bound of its own, and \<open>None\<close> stands for a walk that never ends.\<close>

partial_function (option) tree_loop :: "'s backend \<Rightarrow> cred \<Rightarrow> (bytes \<times> info) list \<Rightarrow> 's \<Rightarrow> ('s, vfs_error, unit) res option" where
  "tree_loop bk who stack s =
     (case stack of
        [] \<Rightarrow> Some (Inr (), s)
      | (p, info) # rest \<Rightarrow>
          if \<not> allowed who (owner_of info) (R OR W OR X) True then Some (Inl DENIED, s)
          else
            (case bindr (bk_names bk p s) (\<lambda>ns s. push_names bk who p info ns rest s) of
               (Inl e, s) \<Rightarrow> Some (Inl e, s)
             | (Inr stack, s) \<Rightarrow> tree_loop bk who stack s))"

definition can_remove_tree :: "'s backend \<Rightarrow> cred \<Rightarrow> bytes \<Rightarrow> 's \<Rightarrow> ('s, vfs_error, unit) res option" where
  "can_remove_tree bk who path s =
     (case
        bindr (check_search bk who path s) (\<lambda>_ s.
        if path_is_root path then (Inl VInvalidPath, s)
        else
          bindr (bk_stat bk path s) (\<lambda>child s.
          bindr (bk_stat bk (path_parent path) s) (\<lambda>dir s.
            if \<not> may_remove who (owner_of dir) (owner_of child) then (Inl DENIED, s) else (Inr child, s)))) of
        (Inl e, s) \<Rightarrow> Some (Inl e, s)
      | (Inr child, s) \<Rightarrow> if is_dir child then tree_loop bk who [(path, child)] s else Some (Inr (), s))"

definition TRASH_DIR :: bytes where "TRASH_DIR = slash # TRASH_NAME"

definition owns_trashed :: "'s backend \<Rightarrow> cred \<Rightarrow> bytes \<Rightarrow> 's \<Rightarrow> ('s, vfs_error, bool) res" where
  "owns_trashed bk who ident s =
     (if cred_is_root who then (Inr True, s)
      else bindr (bk_stat bk (path_join TRASH_DIR ident) s) (\<lambda>i s. (Inr (in_uid i = c_uid who), s)))"

subsection \<open>The operations\<close>

definition sec_stat :: "'s backend \<Rightarrow> cred \<Rightarrow> bytes \<Rightarrow> 's \<Rightarrow> ('s, vfs_error, info) res" where
  "sec_stat bk who path s = bindr (check_search bk who path s) (\<lambda>_ s. bk_stat bk path s)"

definition sec_readdir :: "'s backend \<Rightarrow> cred \<Rightarrow> bytes \<Rightarrow> 's \<Rightarrow> ('s, vfs_error, vfs_entry list) res" where
  "sec_readdir bk who path s = bindr (need bk who path R s) (\<lambda>_ s. bk_readdir bk path s)"

definition sec_read_file :: "'s backend \<Rightarrow> cred \<Rightarrow> bytes \<Rightarrow> 's \<Rightarrow> ('s, vfs_error, bytes) res" where
  "sec_read_file bk who path s = bindr (need bk who path R s) (\<lambda>_ s. bk_read_file bk path s)"

definition sec_read_at :: "'s backend \<Rightarrow> cred \<Rightarrow> bytes \<Rightarrow> nat \<Rightarrow> bytes \<Rightarrow> 's \<Rightarrow> ('s, vfs_error, nat \<times> bytes) res" where
  "sec_read_at bk who path off buf s = bindr (need bk who path R s) (\<lambda>_ s. bk_read_at bk path off buf s)"

definition sec_write_file :: "'s backend \<Rightarrow> cred \<Rightarrow> nat \<Rightarrow> bytes \<Rightarrow> bytes \<Rightarrow> nat \<Rightarrow> 's \<Rightarrow> ('s, vfs_error, unit) res" where
  "sec_write_file bk who umask path data now s =
     bindr (check_search bk who path s) (\<lambda>_ s.
     (case bk_stat bk path s of
        (Inr i, s) \<Rightarrow>
          if is_dir i then (Inl VIsDir, s)
          else if \<not> allowed who (owner_of i) W False then (Inl DENIED, s)
          else bk_write_file bk path data now s
      | (Inl e, s) \<Rightarrow>
          if e = VNotFound
          then bindr (need_parent bk who path (W OR X) s) (\<lambda>_ s.
               bindr (bk_write_file bk path data now s) (\<lambda>_ s.
                 claim bk who umask path 438 s))
          else (Inl e, s)))"

definition sec_create :: "'s backend \<Rightarrow> cred \<Rightarrow> nat \<Rightarrow> bytes \<Rightarrow> nat \<Rightarrow> 's \<Rightarrow> ('s, vfs_error, unit) res" where
  "sec_create bk who umask path now s =
     bindr (check_search bk who path s) (\<lambda>_ s.
     bindr (need_parent bk who path (W OR X) s) (\<lambda>_ s.
     bindr (bk_create bk path now s) (\<lambda>_ s.
       claim bk who umask path 438 s)))"

definition sec_write_at :: "'s backend \<Rightarrow> cred \<Rightarrow> bytes \<Rightarrow> nat \<Rightarrow> bytes \<Rightarrow> nat \<Rightarrow> 's \<Rightarrow> ('s, vfs_error, unit) res" where
  "sec_write_at bk who path off data now s = bindr (need bk who path W s) (\<lambda>_ s. bk_write_at bk path off data now s)"

definition sec_append :: "'s backend \<Rightarrow> cred \<Rightarrow> bytes \<Rightarrow> bytes \<Rightarrow> nat \<Rightarrow> 's \<Rightarrow> ('s, vfs_error, unit) res" where
  "sec_append bk who path data now s = bindr (need bk who path W s) (\<lambda>_ s. bk_append bk path data now s)"

definition sec_truncate :: "'s backend \<Rightarrow> cred \<Rightarrow> bytes \<Rightarrow> nat \<Rightarrow> nat \<Rightarrow> 's \<Rightarrow> ('s, vfs_error, unit) res" where
  "sec_truncate bk who path n now s = bindr (need bk who path W s) (\<lambda>_ s. bk_truncate bk path n now s)"

definition sec_names :: "'s backend \<Rightarrow> cred \<Rightarrow> bytes \<Rightarrow> 's \<Rightarrow> ('s, vfs_error, (bytes \<times> entry_kind) list) res" where
  "sec_names bk who path s = bindr (need bk who path R s) (\<lambda>_ s. bk_names bk path s)"

definition sec_mkdir :: "'s backend \<Rightarrow> cred \<Rightarrow> nat \<Rightarrow> bytes \<Rightarrow> nat \<Rightarrow> 's \<Rightarrow> ('s, vfs_error, unit) res" where
  "sec_mkdir bk who umask path now s =
     bindr (check_search bk who path s) (\<lambda>_ s.
     bindr (need_parent bk who path (W OR X) s) (\<lambda>_ s.
     bindr (bk_mkdir bk path now s) (\<lambda>_ s.
       claim bk who umask path 511 s)))"

definition sec_rename :: "'s backend \<Rightarrow> cred \<Rightarrow> bytes \<Rightarrow> bytes \<Rightarrow> nat \<Rightarrow> 's \<Rightarrow> ('s, vfs_error, unit) res" where
  "sec_rename bk who source target now s =
     bindr (check_search bk who source s) (\<lambda>_ s.
     bindr (check_search bk who target s) (\<lambda>_ s.
     bindr (bk_stat bk source s) (\<lambda>child s.
     bindr (bk_stat bk (path_parent source) s) (\<lambda>src_dir s.
       if \<not> may_remove who (owner_of src_dir) (owner_of child) then (Inl DENIED, s)
       else bindr (need_parent bk who target (W OR X) s) (\<lambda>_ s. bk_rename bk source target now s)))))"

definition sec_remove_all :: "'s backend \<Rightarrow> cred \<Rightarrow> bytes \<Rightarrow> 's \<Rightarrow> ('s, vfs_error, unit) res option" where
  "sec_remove_all bk who path s =
     (case can_remove_tree bk who path s of
        None \<Rightarrow> None
      | Some r \<Rightarrow> Some (bindr r (\<lambda>_ s. bk_remove_all bk path s)))"

definition sec_trash :: "'s backend \<Rightarrow> cred \<Rightarrow> bytes \<Rightarrow> nat \<Rightarrow> 's \<Rightarrow> ('s, vfs_error, unit) res" where
  "sec_trash bk who path now s =
     bindr (check_search bk who path s) (\<lambda>_ s.
     bindr (bk_stat bk path s) (\<lambda>child s.
     bindr (bk_stat bk (path_parent path) s) (\<lambda>dir s.
       if \<not> may_remove who (owner_of dir) (owner_of child) then (Inl DENIED, s)
       else bk_trash bk path now s)))"

fun list_mine :: "'s backend \<Rightarrow> cred \<Rightarrow> trash_item list \<Rightarrow> trash_item list \<Rightarrow> 's \<Rightarrow> ('s, vfs_error, trash_item list) res" where
  "list_mine bk who [] mine s = (Inr mine, s)"
| "list_mine bk who (t # ts) mine s =
     bindr (owns_trashed bk who (ti_id t) s) (\<lambda>own s. list_mine bk who ts (if own then mine @ [t] else mine) s)"

definition sec_trash_list :: "'s backend \<Rightarrow> cred \<Rightarrow> 's \<Rightarrow> ('s, vfs_error, trash_item list) res" where
  "sec_trash_list bk who s =
     bindr (bk_trash_list bk s) (\<lambda>ts s. if cred_is_root who then (Inr ts, s) else list_mine bk who ts [] s)"

definition sec_trash_restore :: "'s backend \<Rightarrow> cred \<Rightarrow> bytes \<Rightarrow> nat \<Rightarrow> 's \<Rightarrow> ('s, vfs_error, bytes) res" where
  "sec_trash_restore bk who ident now s =
     bindr (owns_trashed bk who ident s) (\<lambda>own s. if \<not> own then (Inl DENIED, s) else bk_trash_restore bk ident now s)"

definition sec_trash_purge :: "'s backend \<Rightarrow> cred \<Rightarrow> bytes \<Rightarrow> 's \<Rightarrow> ('s, vfs_error, unit) res" where
  "sec_trash_purge bk who ident s =
     bindr (owns_trashed bk who ident s) (\<lambda>own s. if \<not> own then (Inl DENIED, s) else bk_trash_purge bk ident s)"

fun purge_each :: "'s backend \<Rightarrow> trash_item list \<Rightarrow> 's \<Rightarrow> ('s, vfs_error, unit) res" where
  "purge_each bk [] s = (Inr (), s)"
| "purge_each bk (t # ts) s = bindr (bk_trash_purge bk (ti_id t) s) (\<lambda>_ s. purge_each bk ts s)"

definition sec_empty_trash :: "'s backend \<Rightarrow> cred \<Rightarrow> 's \<Rightarrow> ('s, vfs_error, unit) res" where
  "sec_empty_trash bk who s =
     (if cred_is_root who then bk_empty_trash bk s
      else bindr (sec_trash_list bk who s) (\<lambda>ts s. purge_each bk ts s))"

definition sec_set_owner :: "'s backend \<Rightarrow> cred \<Rightarrow> bytes \<Rightarrow> nat option \<Rightarrow> nat option \<Rightarrow> nat option \<Rightarrow> 's \<Rightarrow> ('s, vfs_error, unit) res" where
  "sec_set_owner bk who path uid gid mode s =
     bindr (check_search bk who path s) (\<lambda>_ s.
     bindr (bk_stat bk path s) (\<lambda>i s.
       if mode \<noteq> None \<and> \<not> may_chmod who (owner_of i) then (Inl DENIED, s)
       else if (uid \<noteq> None \<or> gid \<noteq> None) \<and> \<not> may_chown who (owner_of i) uid gid then (Inl DENIED, s)
       else if base_name path = [] \<and> \<not> cred_is_root who then (Inl DENIED, s)
       else bk_set_owner bk path uid gid (map_option (\<lambda>m. m AND MODE_MASK) mode) s))"

subsection \<open>What the user was told\<close>

text \<open>
  The states a series of questions leads to, and what a question answers in one of them.  A backend
  may fail or fill a cache while it answers, so the answers are those given along the way.
\<close>

inductive observed :: "'s backend \<Rightarrow> 's \<Rightarrow> 's \<Rightarrow> bool" for bk s where
  observed_refl: "observed bk s s"
| observed_stat: "observed bk s t \<Longrightarrow> observed bk s (snd (bk_stat bk p t))"
| observed_names: "observed bk s t \<Longrightarrow> observed bk s (snd (bk_names bk p t))"
| observed_trash: "observed bk s t \<Longrightarrow> observed bk s (snd (bk_trash_list bk t))"

definition told :: "'s backend \<Rightarrow> 's \<Rightarrow> bytes \<Rightarrow> info \<Rightarrow> bool" where
  "told bk s p i \<longleftrightarrow> (\<exists>t. observed bk s t \<and> fst (bk_stat bk p t) = Inr i)"

definition told_missing :: "'s backend \<Rightarrow> 's \<Rightarrow> bytes \<Rightarrow> bool" where
  "told_missing bk s p \<longleftrightarrow> (\<exists>t. observed bk s t \<and> fst (bk_stat bk p t) = Inl VNotFound)"

definition told_names :: "'s backend \<Rightarrow> 's \<Rightarrow> bytes \<Rightarrow> (bytes \<times> entry_kind) list \<Rightarrow> bool" where
  "told_names bk s p ns \<longleftrightarrow> (\<exists>t. observed bk s t \<and> fst (bk_names bk p t) = Inr ns)"

subsection \<open>The rules\<close>

text \<open>The folders on the way to a path, from the root down.\<close>

definition folders_above :: "bytes \<Rightarrow> bytes list" where
  "folders_above path = map (\<lambda>k. foldl path_join [slash] (take k (path_components path))) [0..<length (path_components path)]"

definition searchable :: "'s backend \<Rightarrow> 's \<Rightarrow> cred \<Rightarrow> bytes \<Rightarrow> bool" where
  "searchable bk s who path \<longleftrightarrow>
     (\<forall>p \<in> set (folders_above path). \<exists>i. told bk s p i \<and> is_dir i \<and> allowed who (owner_of i) X True)"

definition access :: "'s backend \<Rightarrow> 's \<Rightarrow> cred \<Rightarrow> bytes \<Rightarrow> nat \<Rightarrow> bool" where
  "access bk s who path want \<longleftrightarrow>
     searchable bk s who path \<and> (\<exists>i. told bk s path i \<and> allowed who (owner_of i) want (is_dir i))"

text \<open>The user may add entries to the folder of the path.\<close>

definition may_enter :: "'s backend \<Rightarrow> 's \<Rightarrow> cred \<Rightarrow> bytes \<Rightarrow> bool" where
  "may_enter bk s who path \<longleftrightarrow>
     searchable bk s who path \<and> searchable bk s who (path_parent path) \<and>
     (\<exists>i. told bk s (path_parent path) i \<and> is_dir i \<and> allowed who (owner_of i) (W OR X) True)"

text \<open>The user may take the item out of its folder.\<close>

definition may_leave :: "'s backend \<Rightarrow> 's \<Rightarrow> cred \<Rightarrow> bytes \<Rightarrow> info \<Rightarrow> bool" where
  "may_leave bk s who path child \<longleftrightarrow>
     searchable bk s who path \<and> told bk s path child \<and>
     (\<exists>dir. told bk s (path_parent path) dir \<and> may_remove who (owner_of dir) (owner_of child))"

text \<open>The user may empty the folder, and each folder in it.\<close>

inductive may_empty :: "'s backend \<Rightarrow> 's \<Rightarrow> cred \<Rightarrow> bytes \<Rightarrow> info \<Rightarrow> bool" for bk s who where
  may_empty: "allowed who (owner_of info) (R OR W OR X) True \<Longrightarrow> told_names bk s p ns \<Longrightarrow>
    \<forall>(name, kind) \<in> set ns. \<exists>ci. told bk s (path_join p name) ci \<and> may_remove who (owner_of info) (owner_of ci) \<and>
      (kind = EDir \<longrightarrow> may_empty bk s who (path_join p name) ci) \<Longrightarrow>
    may_empty bk s who p info"

definition owns_in_trash :: "'s backend \<Rightarrow> 's \<Rightarrow> cred \<Rightarrow> bytes \<Rightarrow> bool" where
  "owns_in_trash bk s who ident \<longleftrightarrow>
     cred_is_root who \<or> (\<exists>i. told bk s (path_join TRASH_DIR ident) i \<and> in_uid i = c_uid who)"

datatype vop = VStat bytes | VReaddir bytes | VReadFile bytes | VReadAt bytes nat bytes | VWriteFile bytes bytes nat
  | VCreate bytes nat | VWriteAt bytes nat bytes nat | VAppend bytes bytes nat | VTruncate bytes nat nat | VNames bytes
  | VMkdir bytes nat | VRename bytes bytes nat | VRemoveAll bytes | VTrash bytes nat | VTrashList
  | VTrashRestore bytes nat | VTrashPurge bytes | VEmptyTrash | VSetOwner bytes "nat option" "nat option" "nat option"

fun granted :: "'s backend \<Rightarrow> 's \<Rightarrow> cred \<Rightarrow> vop \<Rightarrow> bool" where
  "granted bk s who (VStat p) \<longleftrightarrow> searchable bk s who p"
| "granted bk s who (VReaddir p) \<longleftrightarrow> access bk s who p R"
| "granted bk s who (VReadFile p) \<longleftrightarrow> access bk s who p R"
| "granted bk s who (VReadAt p off buf) \<longleftrightarrow> access bk s who p R"
| "granted bk s who (VWriteFile p data now) \<longleftrightarrow>
     searchable bk s who p \<and> (\<exists>i. told bk s p i \<and> \<not> is_dir i \<and> allowed who (owner_of i) W False) \<or>
     told_missing bk s p \<and> may_enter bk s who p"
| "granted bk s who (VCreate p now) \<longleftrightarrow> may_enter bk s who p"
| "granted bk s who (VWriteAt p off data now) \<longleftrightarrow> access bk s who p W"
| "granted bk s who (VAppend p data now) \<longleftrightarrow> access bk s who p W"
| "granted bk s who (VTruncate p n now) \<longleftrightarrow> access bk s who p W"
| "granted bk s who (VNames p) \<longleftrightarrow> access bk s who p R"
| "granted bk s who (VMkdir p now) \<longleftrightarrow> may_enter bk s who p"
| "granted bk s who (VRename p q now) \<longleftrightarrow> (\<exists>child. may_leave bk s who p child) \<and> may_enter bk s who q"
| "granted bk s who (VRemoveAll p) \<longleftrightarrow>
     p \<noteq> [slash] \<and> (\<exists>child. may_leave bk s who p child \<and> (is_dir child \<longrightarrow> may_empty bk s who p child))"
| "granted bk s who (VTrash p now) \<longleftrightarrow> (\<exists>child. may_leave bk s who p child)"
| "granted bk s who VTrashList \<longleftrightarrow> True"
| "granted bk s who (VTrashRestore ident now) \<longleftrightarrow> owns_in_trash bk s who ident"
| "granted bk s who (VTrashPurge ident) \<longleftrightarrow> owns_in_trash bk s who ident"
| "granted bk s who VEmptyTrash \<longleftrightarrow> True"
| "granted bk s who (VSetOwner p uid gid mode) \<longleftrightarrow>
     searchable bk s who p \<and> (base_name p = [] \<longrightarrow> cred_is_root who) \<and>
     (\<exists>i. told bk s p i \<and> (mode \<noteq> None \<longrightarrow> may_chmod who (owner_of i)) \<and>
       (uid \<noteq> None \<or> gid \<noteq> None \<longrightarrow> may_chown who (owner_of i) uid gid))"

text \<open>An operation of the layer, its answer reduced to whether it succeeded.\<close>

definition outcome_of :: "('s, vfs_error, 'a) res \<Rightarrow> ('s, vfs_error, unit) res" where
  "outcome_of r = bindr r (\<lambda>_ s. (Inr (), s))"

fun run_secured :: "'s backend \<Rightarrow> cred \<Rightarrow> nat \<Rightarrow> vop \<Rightarrow> 's \<Rightarrow> ('s, vfs_error, unit) res option" where
  "run_secured bk who um (VStat p) s = Some (outcome_of (sec_stat bk who p s))"
| "run_secured bk who um (VReaddir p) s = Some (outcome_of (sec_readdir bk who p s))"
| "run_secured bk who um (VReadFile p) s = Some (outcome_of (sec_read_file bk who p s))"
| "run_secured bk who um (VReadAt p off buf) s = Some (outcome_of (sec_read_at bk who p off buf s))"
| "run_secured bk who um (VWriteFile p data now) s = Some (sec_write_file bk who um p data now s)"
| "run_secured bk who um (VCreate p now) s = Some (sec_create bk who um p now s)"
| "run_secured bk who um (VWriteAt p off data now) s = Some (sec_write_at bk who p off data now s)"
| "run_secured bk who um (VAppend p data now) s = Some (sec_append bk who p data now s)"
| "run_secured bk who um (VTruncate p n now) s = Some (sec_truncate bk who p n now s)"
| "run_secured bk who um (VNames p) s = Some (outcome_of (sec_names bk who p s))"
| "run_secured bk who um (VMkdir p now) s = Some (sec_mkdir bk who um p now s)"
| "run_secured bk who um (VRename p q now) s = Some (sec_rename bk who p q now s)"
| "run_secured bk who um (VRemoveAll p) s = sec_remove_all bk who p s"
| "run_secured bk who um (VTrash p now) s = Some (sec_trash bk who p now s)"
| "run_secured bk who um VTrashList s = Some (outcome_of (sec_trash_list bk who s))"
| "run_secured bk who um (VTrashRestore ident now) s = Some (outcome_of (sec_trash_restore bk who ident now s))"
| "run_secured bk who um (VTrashPurge ident) s = Some (sec_trash_purge bk who ident s)"
| "run_secured bk who um VEmptyTrash s = Some (sec_empty_trash bk who s)"
| "run_secured bk who um (VSetOwner p uid gid mode) s = Some (sec_set_owner bk who p uid gid mode s)"

subsection \<open>Questions and guarded effects\<close>

text \<open>\<open>asks\<close>: a computation only asks, and what it returns satisfies a property.  \<open>guards\<close>: it reaches an effect only if the property holds.\<close>

named_theorems asks_intros

definition asks :: "'s backend \<Rightarrow> 's \<Rightarrow> ('s, vfs_error, 'a) res \<Rightarrow> ('a \<Rightarrow> bool) \<Rightarrow> bool" where
  "asks bk s r Q \<longleftrightarrow> observed bk s (snd r) \<and> (\<forall>x. fst r = Inr x \<longrightarrow> Q x)"

definition guards :: "'s backend \<Rightarrow> 's \<Rightarrow> ('s, vfs_error, 'a) res \<Rightarrow> bool \<Rightarrow> bool" where
  "guards bk s r G \<longleftrightarrow> G \<or> (\<exists>e. fst r = Inl e) \<and> observed bk s (snd r)"

lemma asks_bindr:
  assumes "asks bk s r P" and "\<And>x t. observed bk s t \<Longrightarrow> P x \<Longrightarrow> asks bk s (f x t) Q"
  shows "asks bk s (bindr r f) Q"
  using assms by (cases r; cases "fst r") (auto simp: asks_def)

lemma guards_bindr:
  assumes "asks bk s r P" and "\<And>x t. observed bk s t \<Longrightarrow> P x \<Longrightarrow> guards bk s (f x t) G"
  shows "guards bk s (bindr r f) G"
  using assms by (cases r; cases "fst r") (auto simp: asks_def guards_def)

lemma asks_ret: "observed bk s t \<Longrightarrow> Q x \<Longrightarrow> asks bk s (Inr x, t) Q"
  and asks_err: "observed bk s t \<Longrightarrow> asks bk s (Inl e, t) Q"
  and guards_err: "observed bk s t \<Longrightarrow> guards bk s (Inl e, t) G"
  and guards_granted: "G \<Longrightarrow> guards bk s r G"
  by (simp_all add: asks_def guards_def)

lemma guards_if: "(c \<Longrightarrow> guards bk s a G) \<Longrightarrow> (\<not> c \<Longrightarrow> guards bk s b G) \<Longrightarrow> guards bk s (if c then a else b) G"
  by simp

lemma asks_mono: "asks bk s r P \<Longrightarrow> (\<And>x. P x \<Longrightarrow> Q x) \<Longrightarrow> asks bk s r Q"
  by (auto simp: asks_def)

lemma asks_stat: "observed bk s t \<Longrightarrow> asks bk s (bk_stat bk p t) (told bk s p)"
  by (auto simp: asks_def told_def intro: observed.intros)

lemma asks_names: "observed bk s t \<Longrightarrow> asks bk s (bk_names bk p t) (told_names bk s p)"
  by (auto simp: asks_def told_names_def intro: observed.intros)

lemma guards_outcome [simp]: "guards bk s (outcome_of r) G \<longleftrightarrow> guards bk s r G"
  by (cases r; cases "fst r") (auto simp: guards_def outcome_of_def)

subsection \<open>The checks enforce the rules\<close>

lemma asks_check_dir:
  assumes "observed bk s t"
  shows "asks bk s (check_dir bk who p t) (\<lambda>_. \<exists>i. told bk s p i \<and> is_dir i \<and> allowed who (owner_of i) X True)"
  unfolding check_dir_def by (rule asks_bindr [OF asks_stat [OF assms]]) (auto intro: asks_ret asks_err)

definition prefixes_ok :: "(bytes \<Rightarrow> bool) \<Rightarrow> bytes list \<Rightarrow> bytes \<Rightarrow> bool" where
  "prefixes_ok P cs cur \<longleftrightarrow> (\<forall>k \<le> length cs. P (foldl path_join cur (take k cs)))"

lemma prefixes_ok_Cons: "prefixes_ok P (c # cs) cur \<longleftrightarrow> P cur \<and> prefixes_ok P cs (path_join cur c)"
  by (simp add: prefixes_ok_def less_Suc_eq_le [symmetric] All_less_Suc2)

lemma asks_search_loop:
  "observed bk s t \<Longrightarrow> asks bk s (search_loop bk who cs cur t)
     (\<lambda>_. prefixes_ok (\<lambda>p. \<exists>i. told bk s p i \<and> is_dir i \<and> allowed who (owner_of i) X True) cs cur)"
proof (induction cs arbitrary: cur t)
  case Nil
  then show ?case using asks_check_dir [OF Nil, of who cur] by (simp add: prefixes_ok_def)
next
  case (Cons c cs)
  show ?case unfolding search_loop.simps prefixes_ok_Cons
    by (rule asks_bindr [OF asks_check_dir [OF Cons.prems]]) (blast intro: asks_mono [OF Cons.IH])
qed

lemma asks_search:
  assumes "observed bk s t"
  shows "asks bk s (check_search bk who p t) (\<lambda>_. searchable bk s who p)"
proof (cases "path_components p = []")
  case True
  then show ?thesis using assms by (simp add: check_search_def searchable_def folders_above_def asks_ret)
next
  case False
  then have "prefixes_ok P (butlast (path_components p)) [slash] \<Longrightarrow> \<forall>q \<in> set (folders_above p). P q" for P
    by (auto simp: prefixes_ok_def folders_above_def take_butlast)
  then have "asks bk s (search_loop bk who (butlast (path_components p)) [slash] t) (\<lambda>_. searchable bk s who p)"
    unfolding searchable_def by (intro asks_mono [OF asks_search_loop [OF assms]])
  then show ?thesis using False by (simp add: check_search_def)
qed

lemma asks_need:
  assumes "observed bk s t"
  shows "asks bk s (need bk who p want t) (\<lambda>i. searchable bk s who p \<and> told bk s p i \<and> allowed who (owner_of i) want (is_dir i))"
  unfolding need_def
  by (rule asks_bindr [OF asks_search [OF assms]], erule asks_bindr [OF asks_stat]) (auto intro: asks_ret asks_err)

lemma asks_need_parent:
  assumes "observed bk s t" and "searchable bk s who p"
  shows "asks bk s (need_parent bk who p (W OR X) t) (\<lambda>_. may_enter bk s who p)"
  unfolding need_parent_def may_enter_def
  by (rule asks_bindr [OF asks_need [OF assms(1)]]) (use assms(2) in \<open>auto intro!: asks_ret asks_err\<close>)

definition pushed :: "'s backend \<Rightarrow> 's \<Rightarrow> cred \<Rightarrow> bytes \<Rightarrow> info \<Rightarrow> (bytes \<times> entry_kind) list \<Rightarrow> (bytes \<times> info) list \<Rightarrow> bool" where
  "pushed bk s who p info ns new \<longleftrightarrow>
     (\<forall>(q, ci) \<in> set new. told bk s q ci \<and> (p \<noteq> [slash] \<longrightarrow> length p < length q)) \<and>
     (\<forall>(name, kind) \<in> set ns. \<exists>ci. told bk s (path_join p name) ci \<and> may_remove who (owner_of info) (owner_of ci) \<and>
        (kind = EDir \<longrightarrow> (path_join p name, ci) \<in> set new))"

lemma pushed_Cons:
  assumes "pushed bk s who p info ns new" and "told bk s (path_join p name) ci" and "may_remove who (owner_of info) (owner_of ci)"
  shows "pushed bk s who p info ((name, kind) # ns) (new @ (if kind = EDir then [(path_join p name, ci)] else []))"
proof -
  have "p \<noteq> [slash] \<Longrightarrow> length p < length (path_join p name)" by (simp add: path_join_def)
  then show ?thesis using assms unfolding pushed_def by (cases kind) fastforce+
qed

lemma asks_push_names:
  "observed bk s t \<Longrightarrow> asks bk s (push_names bk who p info ns stack t)
     (\<lambda>stack'. \<exists>new. stack' = new @ stack \<and> pushed bk s who p info ns new)"
proof (induction ns arbitrary: stack t)
  case Nil
  then show ?case by (auto simp: pushed_def intro: asks_ret)
next
  case (Cons a ns)
  obtain name kind where a: "a = (name, kind)" by (cases a)
  show ?case unfolding a push_names.simps Let_def
  proof (rule asks_bindr [OF asks_stat [OF Cons.prems]])
    fix ci t assume o: "observed bk s t" and i: "told bk s (path_join p name) ci"
    let ?new = "if kind = EDir then [(path_join p name, ci)] else []"
    have "asks bk s (push_names bk who p info ns (?new @ stack) t)
        (\<lambda>stack'. \<exists>new. stack' = new @ stack \<and> pushed bk s who p info ((name, kind) # ns) new)"
      if "may_remove who (owner_of info) (owner_of ci)"
      by (rule asks_mono [OF Cons.IH [OF o]]) (use pushed_Cons [OF _ i that, of ns _ kind] in \<open>fastforce simp del: append_assoc simp: append_assoc [symmetric]\<close>)
    then show "asks bk s (if \<not> may_remove who (owner_of info) (owner_of ci) then (Inl DENIED, t)
        else push_names bk who p info ns (if kind = EDir then (path_join p name, ci) # stack else stack) t)
      (\<lambda>stack'. \<exists>new. stack' = new @ stack \<and> pushed bk s who p info ((name, kind) # ns) new)"
      using o by (cases kind) (simp_all add: asks_err)
  qed
qed

lemma may_empty_pushed:
  assumes "allowed who (owner_of info) (R OR W OR X) True" and "told_names bk s p ns" and "pushed bk s who p info ns new"
    and "\<forall>(q, ci) \<in> set new. may_empty bk s who q ci"
  shows "may_empty bk s who p info"
  by (rule may_empty [OF assms(1,2)]) (use assms(3,4) in \<open>fastforce simp: pushed_def\<close>)

text \<open>One round of the walk: the names of the folder on top are asked for and its folders pushed.\<close>

lemma asks_tree_round:
  assumes "observed bk s t"
  shows "asks bk s (bindr (bk_names bk p t) (\<lambda>ns s. push_names bk who p info ns rest s))
    (\<lambda>stack. \<exists>new ns. stack = new @ rest \<and> told_names bk s p ns \<and> pushed bk s who p info ns new)"
  by (rule asks_bindr [OF asks_names [OF assms]]) (blast intro: asks_mono [OF asks_push_names])

lemma asks_tree_loop:
  assumes "tree_loop bk who stack t = Some r" and "observed bk s t"
  shows "asks bk s r (\<lambda>_. \<forall>(p, i) \<in> set stack. may_empty bk s who p i)"
proof -
  let ?P = "\<lambda>bk who stack t r. observed bk s t \<longrightarrow> asks bk s r (\<lambda>_. \<forall>(p, i) \<in> set stack. may_empty bk s who p i)"
  have "?P bk who stack t r"
  proof (rule tree_loop.raw_induct [OF _ assms(1), where P = ?P], goal_cases)
    case (1 loop bk who stack t r)
    note IH = 1(1) and body = 1(2)
    show ?case
    proof (cases stack)
      case Nil
      then show ?thesis using body by (auto intro: asks_ret)
    next
      case (Cons a rest)
      obtain p info where a: "a = (p, info)" by (cases a)
      obtain x u where r: "bindr (bk_names bk p t) (\<lambda>ns s. push_names bk who p info ns rest s) = (x, u)" by fastforce
      have may: "allowed who (owner_of info) (R OR W OR X) True" "x = Inr stack' \<Longrightarrow> loop bk who stack' u = Some r"
          "x = Inl e \<Longrightarrow> r = (Inl e, u)" if "r \<noteq> (Inl DENIED, t)" for stack' e
        using body that by (auto simp: Cons a r split: if_splits)
      show ?thesis
      proof (cases "r = (Inl DENIED, t)")
        case False
        note m = may [OF False]
        show ?thesis
        proof
          assume "observed bk s t"
          note round = asks_tree_round [OF this, of p who info rest, unfolded r]
          show "asks bk s r (\<lambda>_. \<forall>(p, i) \<in> set stack. may_empty bk s who p i)"
          proof (cases x)
            case (Inr stack')
            obtain new ns where n: "stack' = new @ rest" "told_names bk s p ns" "pushed bk s who p info ns new"
              using round Inr by (auto simp: asks_def)
            have "asks bk s r (\<lambda>_. \<forall>(p, i) \<in> set (new @ rest). may_empty bk s who p i)"
              using IH [OF m(2) [OF Inr]] round n(1) by (simp add: asks_def)
            then show ?thesis by (rule asks_mono) (use may_empty_pushed [OF m(1) n(2,3)] in \<open>auto simp: Cons a\<close>)
          qed (use m(3) round in \<open>auto simp: asks_def\<close>)
        qed
      qed (auto intro: asks_err)
    qed
  qed
  then show ?thesis using assms(2) by blast
qed

lemma asks_leave:
  assumes "observed bk s t" and "searchable bk s who p"
  shows "asks bk s (bindr (bk_stat bk p t) (\<lambda>child s. bindr (bk_stat bk (path_parent p) s) (\<lambda>dir s.
      if \<not> may_remove who (owner_of dir) (owner_of child) then (Inl DENIED, s) else (Inr child, s))))
    (may_leave bk s who p)"
  by (rule asks_bindr [OF asks_stat [OF assms(1)]], erule asks_bindr [OF asks_stat])
    (use assms(2) in \<open>auto simp: may_leave_def intro!: asks_err asks_ret\<close>)

lemma asks_removal:
  "asks bk s (bindr (check_search bk who p s) (\<lambda>_ s. if path_is_root p then (Inl VInvalidPath, s)
        else bindr (bk_stat bk p s) (\<lambda>child s. bindr (bk_stat bk (path_parent p) s) (\<lambda>dir s.
            if \<not> may_remove who (owner_of dir) (owner_of child) then (Inl DENIED, s) else (Inr child, s)))))
     (\<lambda>child. p \<noteq> [slash] \<and> may_leave bk s who p child)"
  by (rule asks_bindr [OF asks_search [OF observed_refl]])
    (auto simp: path_is_root_def intro: asks_err asks_mono [OF asks_leave])

lemma asks_remove_tree:
  assumes "can_remove_tree bk who p s = Some r"
  shows "asks bk s r (\<lambda>_. granted bk s who (VRemoveAll p))"
proof -
  let ?check = "bindr (check_search bk who p s) (\<lambda>_ s. if path_is_root p then (Inl VInvalidPath, s)
        else bindr (bk_stat bk p s) (\<lambda>child s. bindr (bk_stat bk (path_parent p) s) (\<lambda>dir s.
            if \<not> may_remove who (owner_of dir) (owner_of child) then (Inl DENIED, s) else (Inr child, s))))"
  note checked = asks_removal [of bk s who p]
  obtain x u where c: "?check = (x, u)" by fastforce
  show ?thesis
  proof (cases x)
    case (Inl e)
    then have "r = (Inl e, u)" using assms by (simp add: can_remove_tree_def c)
    then show ?thesis using checked by (simp add: c asks_def)
  next
    case (Inr child)
    then have ok: "observed bk s u" "p \<noteq> [slash]" "may_leave bk s who p child" using checked by (simp_all add: c asks_def)
    have r: "if is_dir child then tree_loop bk who [(p, child)] u = Some r else r = (Inr (), u)"
      using assms Inr by (simp add: can_remove_tree_def c split: if_splits)
    show ?thesis
    proof (cases "is_dir child")
      case True
      then have "asks bk s r (\<lambda>_. \<forall>(p, i) \<in> set [(p, child)]. may_empty bk s who p i)"
        using r by (intro asks_tree_loop [OF _ ok(1)]) simp
      then show ?thesis by (rule asks_mono) (use ok(2,3) in auto)
    next
      case False
      then show ?thesis using r ok by (auto intro!: asks_ret)
    qed
  qed
qed

text \<open>The moves that end in one effect.\<close>

lemmas guards_search = guards_bindr [OF asks_search]
  and guards_stat = guards_bindr [OF asks_stat]
  and guards_need = guards_bindr [OF asks_need]

lemma guards_access:
  assumes "observed bk s t"
  shows "guards bk s (bindr (need bk who p want t) f) (access bk s who p want)"
  by (rule guards_need [OF assms]) (auto simp: access_def intro!: guards_granted)

lemma guards_enter:
  assumes "observed bk s t"
  shows "guards bk s (bindr (check_search bk who p t) (\<lambda>_ t. bindr (need_parent bk who p (W OR X) t) f)) (may_enter bk s who p)"
  by (rule guards_search [OF assms]) (rule guards_bindr [OF asks_need_parent], auto intro: guards_granted)

lemma guards_leave:
  assumes "observed bk s t" and "searchable bk s who p"
    and "\<And>child u. observed bk s u \<Longrightarrow> may_leave bk s who p child \<Longrightarrow> guards bk s (f u) G"
  shows "guards bk s (bindr (bk_stat bk p t) (\<lambda>child s. bindr (bk_stat bk (path_parent p) s) (\<lambda>dir s.
      if \<not> may_remove who (owner_of dir) (owner_of child) then (Inl DENIED, s) else f s))) G"
  by (rule guards_stat [OF assms(1)], erule guards_stat)
    (use assms(2) in \<open>auto simp: may_leave_def intro!: guards_err assms(3)\<close>)

lemma guards_write_file: "guards bk s (sec_write_file bk who um p data now s) (granted bk s who (VWriteFile p data now))"
  unfolding sec_write_file_def
proof (rule guards_search [OF observed_refl])
  fix t assume o: "observed bk s t" and sr: "searchable bk s who p"
  obtain x u where c: "bk_stat bk p t = (x, u)" by fastforce
  have u: "observed bk s u" using observed_stat [OF o, of p] by (simp add: c)
  show "guards bk s
      (case bk_stat bk p t of (Inl e, s) \<Rightarrow> if e = VNotFound
         then bindr (need_parent bk who p (W OR X) s) (\<lambda>_ s. bindr (bk_write_file bk p data now s) (\<lambda>_ s. claim bk who um p 438 s))
         else (Inl e, s)
       | (Inr i, s) \<Rightarrow> if is_dir i then (Inl VIsDir, s) else if \<not> allowed who (owner_of i) W False then (Inl DENIED, s)
           else bk_write_file bk p data now s)
      (granted bk s who (VWriteFile p data now))"
  proof (cases x)
    case (Inl e)
    have "e = VNotFound \<Longrightarrow> told_missing bk s p" using o c Inl by (auto simp: told_missing_def intro!: exI [of _ t])
    then have "e = VNotFound \<Longrightarrow> may_enter bk s who p \<Longrightarrow> granted bk s who (VWriteFile p data now)" by simp
    then have "guards bk s (if e = VNotFound
         then bindr (need_parent bk who p (W OR X) u) (\<lambda>_ s. bindr (bk_write_file bk p data now s) (\<lambda>_ s. claim bk who um p 438 s))
         else (Inl e, u)) (granted bk s who (VWriteFile p data now))"
      by (intro guards_if guards_err u guards_bindr [OF asks_need_parent [OF u sr]]) (rule guards_granted, blast)
    then show ?thesis using Inl c by simp
  next
    case (Inr i)
    have "told bk s p i" using o c Inr by (auto simp: told_def intro!: exI [of _ t])
    then have "guards bk s (if is_dir i then (Inl VIsDir, u) else if \<not> allowed who (owner_of i) W False then (Inl DENIED, u)
        else bk_write_file bk p data now u) (granted bk s who (VWriteFile p data now))"
      by (intro guards_if guards_err u) (rule guards_granted, use sr in auto)
    then show ?thesis using Inr c by simp
  qed
qed

lemma guards_owns:
  assumes "observed bk s t"
  shows "guards bk s (bindr (owns_trashed bk who ident t) (\<lambda>own s. if \<not> own then (Inl DENIED, s) else f s)) (owns_in_trash bk s who ident)"
proof (cases "cred_is_root who")
  case False
  have "asks bk s (owns_trashed bk who ident t) (\<lambda>own. own \<longrightarrow> owns_in_trash bk s who ident)"
    using False unfolding owns_trashed_def
    by simp (rule asks_bindr [OF asks_stat [OF assms]], auto simp: owns_in_trash_def intro!: asks_ret)
  then show ?thesis by (rule guards_bindr) (auto intro: guards_err guards_granted)
qed (simp add: guards_granted owns_in_trash_def)

lemma guards_set_owner:
  "guards bk s (sec_set_owner bk who p uid gid mode s) (granted bk s who (VSetOwner p uid gid mode))"
  unfolding sec_set_owner_def
  by (rule guards_search [OF observed_refl], erule guards_stat)
    (intro guards_if; (rule guards_err, assumption | rule guards_granted, force))

lemma run_secured_guarded:
  assumes "run_secured bk who um op s = Some r"
  shows "guards bk s r (granted bk s who op)"
proof (cases op)
  case (VRename p q now)
  have "guards bk s (sec_rename bk who p q now s) ((\<exists>child. may_leave bk s who p child) \<and> may_enter bk s who q)"
    unfolding sec_rename_def
    by (rule guards_search [OF observed_refl], erule guards_search, erule guards_leave, assumption)
      (rule guards_bindr [OF asks_need_parent], auto intro: guards_granted)
  then show ?thesis using assms VRename by simp
next
  case (VRemoveAll p)
  then obtain c where c: "can_remove_tree bk who p s = Some c" "r = bindr c (\<lambda>_ s. bk_remove_all bk p s)"
    using assms by (auto simp: sec_remove_all_def split: option.splits)
  show ?thesis unfolding c(2) VRemoveAll by (rule guards_bindr [OF asks_remove_tree [OF c(1)]]) (rule guards_granted)
next
  case (VTrash p now)
  have "guards bk s (sec_trash bk who p now s) (\<exists>child. may_leave bk s who p child)"
    unfolding sec_trash_def
    by (rule guards_search [OF observed_refl], erule guards_leave, assumption) (auto intro: guards_granted)
  then show ?thesis using assms VTrash by simp
next
  case (VStat p)
  have "guards bk s (sec_stat bk who p s) (searchable bk s who p)"
    unfolding sec_stat_def by (rule guards_search [OF observed_refl]) (rule guards_granted)
  then show ?thesis using assms VStat by auto
qed (use assms guards_access [OF observed_refl] guards_enter [OF observed_refl] guards_write_file guards_owns [OF observed_refl]
      guards_set_owner in \<open>auto simp: sec_readdir_def sec_read_file_def sec_read_at_def sec_write_at_def sec_append_def
      sec_truncate_def sec_names_def sec_create_def sec_mkdir_def sec_trash_restore_def sec_trash_purge_def guards_granted
      simp del: granted.simps(5) granted.simps(19)\<close>)


subsection \<open>Without a grant nothing happens\<close>

text \<open>What a client of any backend may rely on: questions leave what is stored alone, and every walk of a tree ends.\<close>

context vfs_backend
begin

lemma observed_same: "observed bk s t \<Longrightarrow> same s t"
  by (induction rule: observed.induct) (blast intro: same_refl same_trans stat_same names_same trash_list_same)+

lemma refused_unchanged:
  assumes "run_secured bk who um op s = Some (x, t)" and "\<not> granted bk s who op"
  shows "(\<exists>e. x = Inl e) \<and> same s t"
  using run_secured_guarded [OF assms(1)] assms(2) observed_same by (auto simp: guards_def)

lemma told_path: "told bk s p i \<Longrightarrow> p \<noteq> [] \<and> length p \<le> MAX_PATH"
  unfolding told_def by (metis Inl_Inr_False fst_conv not_le stat_refused)

lemma tree_round_smaller:
  assumes "pushed bk s who p info ns new" and "p \<noteq> []" and "p \<noteq> [slash]"
  shows "\<forall>(q, i) \<in> set new. q \<noteq> [] \<and> q \<noteq> [slash] \<and> MAX_PATH - length q < MAX_PATH - length p"
proof -
  have "q \<noteq> [] \<and> q \<noteq> [slash] \<and> MAX_PATH - length q < MAX_PATH - length p" if "(q, i) \<in> set new" for q i
  proof -
    have "told bk s q i" "length p < length q" using assms(1,3) that by (auto simp: pushed_def)
    then show ?thesis using told_path [of s q i] assms(2) by (cases p) auto
  qed
  then show ?thesis by blast
qed

lemma tree_loop_returns:
  assumes "\<forall>(p, i) \<in> set stack. p \<noteq> [] \<and> p \<noteq> [slash]"
  shows "\<exists>r. tree_loop bk who stack s = Some r"
  using assms
proof (induction "mset (map (\<lambda>(p, i). MAX_PATH - length p) stack)" arbitrary: stack s rule: wf_induct_rule [OF wf_mult [OF wf_less_than]])
  case 1
  show ?case
  proof (cases stack)
    case Nil
    then show ?thesis by (simp add: tree_loop.simps)
  next
    case (Cons a rest)
    obtain p info where a: "a = (p, info)" by (cases a)
    obtain x u where r: "bindr (bk_names bk p s) (\<lambda>ns s. push_names bk who p info ns rest s) = (x, u)" by fastforce
    have "\<exists>r. tree_loop bk who stack' u = Some r" if x: "x = Inr stack'" for stack'
    proof -
      obtain new ns where n: "stack' = new @ rest" "pushed bk s who p info ns new"
        using asks_tree_round [OF observed_refl, of bk s p who info rest] x unfolding asks_def r by auto
      have p: "p \<noteq> []" "p \<noteq> [slash]" using 1(2) by (auto simp: Cons a)
      note new = tree_round_smaller [OF n(2) p]
      let ?w = "\<lambda>stack. mset (map (\<lambda>(p, i). MAX_PATH - length p) stack)"
      have "(?w rest + ?w new, ?w rest + ?w [a]) \<in> mult less_than"
        by (rule one_step_implies_mult) (use new in \<open>auto simp: a\<close>)
      then have "(?w stack', ?w stack) \<in> mult less_than" by (simp add: n(1) Cons add.commute)
      moreover have "\<forall>(p, i) \<in> set stack'. p \<noteq> [] \<and> p \<noteq> [slash]" using new 1(2) by (fastforce simp: n(1) Cons)
      ultimately show ?thesis using 1(1) by blast
    qed
    then show ?thesis by (subst tree_loop.simps) (cases x; simp add: Cons a r)
  qed
qed

lemma run_secured_returns: "\<exists>r. run_secured bk who um op s = Some r"
proof (cases op)
  case (VRemoveAll p)
  let ?check = "bindr (check_search bk who p s) (\<lambda>_ s. if path_is_root p then (Inl VInvalidPath, s)
        else bindr (bk_stat bk p s) (\<lambda>child s. bindr (bk_stat bk (path_parent p) s) (\<lambda>dir s.
            if \<not> may_remove who (owner_of dir) (owner_of child) then (Inl DENIED, s) else (Inr child, s))))"
  obtain x u where c: "?check = (x, u)" by fastforce
  have "x = Inr child \<Longrightarrow> p \<noteq> [slash] \<and> told bk s p child" for child
    using asks_removal [of bk s who p] by (auto simp: asks_def c may_leave_def)
  then have "\<exists>r. tree_loop bk who [(p, child)] u = Some r" if "x = Inr child" for child
    using that told_path [of s p child] by (intro tree_loop_returns) auto
  then have "\<exists>r. can_remove_tree bk who p s = Some r" by (cases x) (simp_all add: can_remove_tree_def c)
  then show ?thesis by (auto simp: VRemoveAll sec_remove_all_def)
qed auto

end

lemma asks_owns:
  assumes "observed bk s t"
  shows "asks bk s (owns_trashed bk who ident t) (\<lambda>own. own \<longrightarrow> owns_in_trash bk s who ident)"
  unfolding owns_trashed_def using asks_bindr [OF asks_stat [OF assms]] assms
  by (auto simp: owns_in_trash_def intro!: asks_ret asks_bindr [OF asks_stat [OF assms]])

lemma asks_list_mine:
  "observed bk s t \<Longrightarrow> list_all (\<lambda>t. owns_in_trash bk s who (ti_id t)) mine \<Longrightarrow>
     asks bk s (list_mine bk who ts mine t) (list_all (\<lambda>t. owns_in_trash bk s who (ti_id t)))"
proof (induction ts arbitrary: mine t)
  case (Cons t0 ts)
  show ?case unfolding list_mine.simps
    by (rule asks_bindr [OF asks_owns [OF Cons.prems(1)]]) (use Cons in auto)
qed (simp add: asks_ret)

lemma asks_trash_list:
  "asks bk s (sec_trash_list bk who s) (list_all (\<lambda>t. owns_in_trash bk s who (ti_id t)))"
  unfolding sec_trash_list_def
proof (rule asks_bindr [of _ _ _ "\<lambda>_. True"])
  show "asks bk s (bk_trash_list bk s) (\<lambda>_. True)" by (simp add: asks_def observed_trash observed_refl)
  show "asks bk s (if cred_is_root who then (Inr ts, t) else list_mine bk who ts [] t)
      (list_all (\<lambda>t. owns_in_trash bk s who (ti_id t)))" if "observed bk s t" for ts t
    using asks_list_mine [OF that, of who "[]" ts] that
    by (cases "cred_is_root who") (auto simp: owns_in_trash_def list_all_iff intro!: asks_ret)
qed

text \<open>
  C36: The trash is private: a list of it holds only items of the user (root sees all), and emptying
  it, unless the user is root, purges items of the user, one after the other, and nothing else.
\<close>

theorem trash_is_private:
  "(case sec_trash_list bk who s of
      (Inl e, t) \<Rightarrow> observed bk s t
    | (Inr ts, t) \<Rightarrow> observed bk s t \<and> list_all (\<lambda>t. owns_in_trash bk s who (ti_id t)) ts) \<and>
   (cred_is_root who \<or>
    (\<exists>ts u. observed bk s u \<and> list_all (\<lambda>t. owns_in_trash bk s who (ti_id t)) ts \<and>
       ((\<exists>e. sec_empty_trash bk who s = (Inl e, u)) \<or> sec_empty_trash bk who s = purge_each bk ts u)))"
proof -
  obtain x u where l: "sec_trash_list bk who s = (x, u)" by fastforce
  note mine = asks_trash_list [of bk s who, unfolded l asks_def]
  show ?thesis
  proof (cases x)
    case (Inl e)
    then show ?thesis using mine by (auto simp: l sec_empty_trash_def intro!: exI [of _ "[]"])
  next
    case (Inr ts)
    then show ?thesis using mine by (auto simp: l sec_empty_trash_def)
  qed
qed

text \<open>
  C34: Nothing happens without permission: an operation on a volume through the layer that the rules
  do not grant to the user (every folder above searchable; read or write on the item; write and
  search on the folder to add or take entries, with the sticky bit; each folder of a removed tree;
  owner rules for modes, owners and the trash) fails, and the filesystem differs at most in the
  contents of its cache.
\<close>

theorem secured_denies:
  assumes "\<not> granted (fs3_backend dev) fs who op"
  shows "\<exists>e fs'. run_secured (fs3_backend dev) who umask op fs = Some (Inl e, fs') \<and> only_cache fs fs'"
  using fs3_vfs.run_secured_returns [of dev who umask op fs] fs3_vfs.refused_unchanged [OF _ assms] by fastforce

theorem secured_denies_witness:
  "\<exists>e fs'. run_secured (fs3_backend ram_dev) \<lparr>c_uid = 7, c_gid = 7, c_groups = []\<rparr> DEFAULT_UMASK (VSetOwner [slash] (Some 7) None None)
     (small_fs (cache_of [] 1)) = Some (Inl e, fs') \<and> only_cache (small_fs (cache_of [] 1)) fs'"
  by (rule secured_denies) (simp add: base_name_def rposition_def cred_is_root_def ROOT_UID_def)

text \<open>
  C35: Every operation through the layer returns, the removal of a tree included: its walk visits
  longer and longer paths, and the volume refuses a path of more than 4096 bytes.
\<close>

theorem secured_returns: "\<exists>r. run_secured (fs3_backend dev) who umask op fs = Some r"
  by (rule fs3_vfs.run_secured_returns)

end
