(* ===== verification/BitIO.thy ===== *)
theory BitIO
  imports Prelude
begin

text \<open>
  Bits in bytes, least significant first: the reader of \<^verbatim>\<open>format/inflate/bits.rs\<close> and the writer of
  \<^verbatim>\<open>format/deflate.rs\<close>.  Both are related to the list of bits the bytes stand for: \<open>reads data br bs\<close>
  says that \<open>bs\<close> is what the reader has left.
\<close>

datatype inflate_error = Truncated | BadBlockType | StoredLenMismatch | BadCodeLengths | MissingEndOfBlock
  | InvalidSymbol | InvalidCode | InvalidDistance | OutputLimit | BadZlibHeader | DictionaryUnsupported
  | ChecksumMismatch | OutOfMemory

subsection \<open>The reader\<close>

record bits =
  br_data :: bytes
  br_pos :: nat
  br_buf :: nat
  br_cnt :: nat

definition bits_of :: "bytes \<Rightarrow> bits" where
  "bits_of data = \<lparr>br_data = data, br_pos = 0, br_buf = 0, br_cnt = 0\<rparr>"

text \<open>A shift to the left of a \<open>u64\<close> loses the bits above.\<close>

definition shl64 :: "nat \<Rightarrow> nat \<Rightarrow> nat" where
  "shl64 v n = take_bit 64 (push_bit n v)"

function refill_bytes :: "bits \<Rightarrow> bits" where
  "refill_bytes br =
     (if br_cnt br \<le> 56 \<and> br_pos br < length (br_data br)
      then refill_bytes (br\<lparr>br_buf := br_buf br OR shl64 (unat (br_data br ! br_pos br)) (br_cnt br),
             br_pos := br_pos br + 1, br_cnt := br_cnt br + 8\<rparr>)
      else br)"
  by auto
termination by (relation "measure (\<lambda>br. 57 - br_cnt br)") auto

declare refill_bytes.simps [simp del]

definition refill :: "bits \<Rightarrow> bits" where
  "refill br =
     (if 56 \<le> br_cnt br then br
      else if br_pos br + 8 \<le> length (br_data br)
      then br\<lparr>br_buf := br_buf br OR shl64 (le_nat (get_slice (br_pos br) 8 (br_data br))) (br_cnt br),
             br_pos := br_pos br + (63 - br_cnt br) div 8, br_cnt := br_cnt br OR 56\<rparr>
      else refill_bytes br)"

definition read_bits :: "nat \<Rightarrow> bits \<Rightarrow> (bits, inflate_error, nat) res" where
  "read_bits n br =
     (let br = (if br_cnt br < n then refill br else br) in
      if br_cnt br < n then (Inl Truncated, br)
      else (Inr (br_buf br AND mask n), br\<lparr>br_buf := drop_bit n (br_buf br), br_cnt := br_cnt br - n\<rparr>))"

definition align_and_unread :: "bits \<Rightarrow> bits" where
  "align_and_unread br =
     (let cnt = br_cnt br - br_cnt br mod 8
      in br\<lparr>br_pos := br_pos br - cnt div 8, br_buf := 0, br_cnt := 0\<rparr>)"

definition br_consumed :: "bits \<Rightarrow> nat" where
  "br_consumed br = br_pos br - br_cnt br div 8"

subsection \<open>The writer\<close>

record bit_writer =
  bw_out :: bytes
  bw_acc :: nat
  bw_n :: nat

definition writer_new :: bit_writer where
  "writer_new = \<lparr>bw_out = [], bw_acc = 0, bw_n = 0\<rparr>"

function push_bytes :: "bit_writer \<Rightarrow> bit_writer" where
  "push_bytes w =
     (if 8 \<le> bw_n w
      then push_bytes (w\<lparr>bw_out := bw_out w @ [word_of_nat (bw_acc w)], bw_acc := drop_bit 8 (bw_acc w), bw_n := bw_n w - 8\<rparr>)
      else w)"
  by auto
termination by (relation "measure bw_n") auto

declare push_bytes.simps [simp del]

definition put :: "nat \<Rightarrow> nat \<Rightarrow> bit_writer \<Rightarrow> bit_writer" where
  "put value n w = push_bytes (w\<lparr>bw_acc := bw_acc w OR shl64 value (bw_n w), bw_n := bw_n w + n\<rparr>)"

definition writer_finish :: "bit_writer \<Rightarrow> bytes" where
  "writer_finish w = (if 0 < bw_n w then bw_out w @ [word_of_nat (bw_acc w)] else bw_out w)"

subsection \<open>The bits of bytes\<close>

definition nat_bits :: "nat \<Rightarrow> nat \<Rightarrow> bool list" where
  "nat_bits n v = map (bit v) [0..<n]"

definition stream :: "bytes \<Rightarrow> bool list" where
  "stream data = concat (map (\<lambda>b. nat_bits 8 (unat b)) data)"

definition bits_value :: "bool list \<Rightarrow> nat" where
  "bits_value bs = horner_sum of_bool 2 bs"

lemma length_nat_bits [simp]: "length (nat_bits n v) = n"
  by (simp add: nat_bits_def)

lemma nth_nat_bits [simp]: "j < n \<Longrightarrow> nat_bits n v ! j \<longleftrightarrow> bit v j"
  by (simp add: nat_bits_def)

lemma bits_value_nat_bits [simp]: "bits_value (nat_bits n v) = take_bit n v"
  by (simp add: bits_value_def nat_bits_def horner_sum_bit_eq_take_bit)

lemma stream_simps [simp]: "stream [] = []" "stream (b # bs) = nat_bits 8 (unat b) @ stream bs"
  "stream (as @ bs) = stream as @ stream bs"
  by (simp_all add: stream_def)

lemma length_stream [simp]: "length (stream data) = 8 * length data"
  by (induction data) auto

lemma drop_stream: "drop (8 * k) (stream data) = stream (drop k data)"
proof (induction data arbitrary: k)
  case (Cons b data)
  then show ?case by (cases k) simp_all
qed simp

lemma stream_nth: "k < 8 * length data \<Longrightarrow> stream data ! k \<longleftrightarrow> bit (unat (data ! (k div 8))) (k mod 8)"
proof (induction data arbitrary: k)
  case (Cons b data)
  show ?case
  proof (cases "k < 8")
    case False
    then have "k div 8 = Suc ((k - 8) div 8)" "k mod 8 = (k - 8) mod 8" by (simp_all add: le_div_geq le_mod_geq)
    then show ?thesis using False Cons.IH [of "k - 8"] Cons.prems by (simp add: nth_append)
  qed (simp add: nth_append)
qed simp

lemma bit_byte: "bit (unat (b :: u8)) j \<Longrightarrow> j < 8"
proof -
  have "take_bit 8 (unat b) = unat b" using unat_byte_less [of b] by (simp add: take_bit_nat_eq_self)
  then show "bit (unat b) j \<Longrightarrow> j < 8" by (metis bit_take_bit_iff)
qed

lemma bit_le_nat: "bit (le_nat bs) j \<longleftrightarrow> j < 8 * length bs \<and> stream bs ! j"
proof (induction bs arbitrary: j)
  case (Cons b bs)
  have "unat b + push_bit 8 (le_nat bs) = unat b OR push_bit 8 (le_nat bs)"
    by (rule disjunctive_add) (auto simp: bit_push_bit_iff dest: bit_byte)
  then have "le_nat (b # bs) = unat b OR push_bit 8 (le_nat bs)" by (simp add: push_bit_eq_mult)
  then show ?case using Cons.IH [of "j - 8"] bit_byte [of b j]
    by (auto simp: bit_or_iff bit_push_bit_iff nth_append)
qed simp

lemma take_stream: "take (8 * k) (stream data) = stream (take k data)"
proof (induction data arbitrary: k)
  case (Cons b data)
  then show ?case by (cases k) simp_all
qed simp

lemma nat_bits_split: "nat_bits (m + n) v = nat_bits m v @ nat_bits n (drop_bit m v)"
  by (rule nth_equalityI) (auto simp: nth_append bit_drop_bit_eq)

lemma nat_bits_cong: "(\<And>j. j < n \<Longrightarrow> bit u j \<longleftrightarrow> bit v j) \<Longrightarrow> nat_bits n u = nat_bits n v"
  by (rule nth_equalityI) auto

lemma bits_value_eqI:
  assumes "length bs = n" and "\<And>j. j < n \<Longrightarrow> bs ! j \<longleftrightarrow> bit v j"
  shows "bits_value bs = take_bit n v"
proof -
  have "bs = nat_bits n v" using assms by (auto intro: nth_equalityI)
  then show ?thesis by simp
qed

subsection \<open>What a reader has left\<close>

definition reads :: "bytes \<Rightarrow> bits \<Rightarrow> bool list \<Rightarrow> bool" where
  "reads data br bs \<longleftrightarrow>
     br_data br = data \<and> br_pos br \<le> length data \<and> br_cnt br \<le> 64 \<and> br_cnt br \<le> 8 * br_pos br \<and>
     bs = drop (8 * br_pos br - br_cnt br) (stream data) \<and>
     (\<forall>j. bit (br_buf br) j \<longrightarrow> j < length bs \<and> bs ! j) \<and> (\<forall>j < br_cnt br. bit (br_buf br) j \<longleftrightarrow> bs ! j)"

lemma readsI:
  assumes "br_data br = data" and "br_pos br \<le> length data" and "br_cnt br \<le> 64" and "br_cnt br \<le> 8 * br_pos br"
    and "bs = drop (8 * br_pos br - br_cnt br) (stream data)"
    and "\<And>j. bit (br_buf br) j \<Longrightarrow> j < length bs \<and> bs ! j" and "\<And>j. j < br_cnt br \<Longrightarrow> bit (br_buf br) j \<longleftrightarrow> bs ! j"
  shows "reads data br bs"
  using assms unfolding reads_def by blast

lemma readsD:
  assumes "reads data br bs"
  shows "br_data br = data" and "br_pos br \<le> length data" and "br_cnt br \<le> 64" and "br_cnt br \<le> 8 * br_pos br"
    and "bs = drop (8 * br_pos br - br_cnt br) (stream data)"
    and "\<And>j. bit (br_buf br) j \<Longrightarrow> j < length bs \<and> bs ! j" and "\<And>j. j < br_cnt br \<Longrightarrow> bit (br_buf br) j \<longleftrightarrow> bs ! j"
  using assms unfolding reads_def by blast+

lemma reads_length: "reads data br bs \<Longrightarrow> length bs = 8 * (length data - br_pos br) + br_cnt br"
  by (auto simp: reads_def)

lemma reads_ahead:
  assumes "reads data br bs" and "8 * br_pos br \<le> k" and "k < 8 * length data"
  shows "stream data ! k \<longleftrightarrow> bs ! (k + br_cnt br - 8 * br_pos br)" and "k + br_cnt br - 8 * br_pos br < length bs"
  using assms reads_length [OF assms(1)] by (auto simp: reads_def)

lemma reads_start: "reads data (bits_of data) (stream data)"
  by (simp add: reads_def bits_of_def)

lemma bit_shl64: "bit (shl64 v n) j \<longleftrightarrow> j < 64 \<and> n \<le> j \<and> bit v (j - n)"
  by (auto simp: shl64_def bit_take_bit_iff bit_push_bit_iff)

text \<open>Loading whole bytes on top of the buffered bits.\<close>

lemma reads_load:
  assumes r: "reads data br bs" and k: "br_pos br + k \<le> length data" "br_cnt br + 8 * k \<le> 64"
    and m: "k \<le> m" "br_pos br + m \<le> length data"
  shows "reads data (br\<lparr>br_buf := br_buf br OR shl64 (le_nat (get_slice (br_pos br) m data)) (br_cnt br),
    br_pos := br_pos br + k, br_cnt := br_cnt br + 8 * k\<rparr>) bs"
proof -
  note l = reads_length [OF r]
  have len: "length (get_slice (br_pos br) m data) = m" using m by simp
  have up: "bit (le_nat (get_slice (br_pos br) m data)) j \<longleftrightarrow> j < 8 * m \<and> bs ! (j + br_cnt br)" for j
  proof -
    have "stream (get_slice (br_pos br) m data) = take (8 * m) (drop (8 * br_pos br) (stream data))"
      by (simp add: get_slice_def take_stream drop_stream)
    then have "j < 8 * m \<Longrightarrow> stream (get_slice (br_pos br) m data) ! j \<longleftrightarrow> stream data ! (8 * br_pos br + j)"
      using m(2) by simp
    then show ?thesis using reads_ahead [OF r, of "8 * br_pos br + j"] m(2) len by (auto simp: bit_le_nat add.commute)
  qed
  have e: "bit (br_buf br OR shl64 (le_nat (get_slice (br_pos br) m data)) (br_cnt br)) j \<longleftrightarrow>
      bit (br_buf br) j \<or> j < 64 \<and> br_cnt br \<le> j \<and> j - br_cnt br < 8 * m \<and> bs ! j" for j
    by (auto simp: bit_or_iff bit_shl64 up)
  note old = readsD(6,7) [OF r]
  have m8: "8 * m \<le> 8 * (length data - br_pos br)" using m(2) by simp
  have p: "bs = drop (8 * (br_pos br + k) - (br_cnt br + 8 * k)) (stream data)"
    unfolding distrib_left diff_cancel2 by (rule readsD(5) [OF r])
  have above: "j < length bs \<and> bs ! j" if "bit (br_buf br OR shl64 (le_nat (get_slice (br_pos br) m data)) (br_cnt br)) j" for j
    using that old(1) [of j] m8 unfolding e l by auto
  have below: "bit (br_buf br OR shl64 (le_nat (get_slice (br_pos br) m data)) (br_cnt br)) j \<longleftrightarrow> bs ! j" if "j < br_cnt br + 8 * k" for j
  proof (cases "j < br_cnt br")
    case False
    then have "j < 64" "br_cnt br \<le> j" "j - br_cnt br < 8 * m" using that k(2) m(1) by simp_all
    then show ?thesis unfolding e using old(1) by blast
  qed (use e old in blast)
  show ?thesis
    by (rule readsI) (use readsD(1-4) [OF r] k p above below in simp_all)
qed

lemma reads_refill_bytes: "reads data br bs \<Longrightarrow>
    reads data (refill_bytes br) bs \<and> (br_cnt (refill_bytes br) = length bs \<or> 56 < br_cnt (refill_bytes br))"
proof (induction br rule: refill_bytes.induct)
  case (1 br)
  show ?case
  proof (cases "br_cnt br \<le> 56 \<and> br_pos br < length (br_data br)")
    case True
    have d: "br_data br = data" using 1(2) by (simp add: reads_def)
    have "get_slice (br_pos br) 1 data = [data ! br_pos br]" using True d by (simp add: get_slice_def take_Suc_conv_app_nth hd_drop_conv_nth take_Suc)
    then have "reads data (br\<lparr>br_buf := br_buf br OR shl64 (unat (br_data br ! br_pos br)) (br_cnt br),
             br_pos := br_pos br + 1, br_cnt := br_cnt br + 8\<rparr>) bs"
      using reads_load [OF 1(2), of 1 1] True d by simp
    then show ?thesis using 1(1) [OF True] True by (subst (1 2 3) refill_bytes.simps) simp
  next
    case False
    then show ?thesis using 1(2) reads_length [OF 1(2)] by (subst (1 2 3) refill_bytes.simps) (auto simp: reads_def)
  qed
qed

lemma or_56: "n < 56 \<Longrightarrow> n OR 56 = n + 8 * ((63 - n) div 8)" for n :: nat
proof -
  assume n: "n < 56"
  have b: "bit (56::nat) j \<longleftrightarrow> 3 \<le> j \<and> j < 6" for j
  proof -
    have "56 = push_bit 3 (mask 3 :: nat)" by (simp add: mask_eq_exp_minus_1)
    then show ?thesis by (simp only: bit_push_bit_iff bit_mask_iff) auto
  qed
  have "take_bit 6 n = n" using n by (simp add: take_bit_nat_eq_self)
  then have "bit n j \<Longrightarrow> j < 6" for j by (metis bit_take_bit_iff)
  then have "n OR 56 = take_bit 3 n OR 56" by (intro bit_eqI) (auto simp: bit_or_iff bit_take_bit_iff b not_less)
  also have "\<dots> = take_bit 3 n + 56" by (rule disjunctive_add [symmetric]) (auto simp: bit_take_bit_iff b)
  also have "\<dots> = n + 8 * ((63 - n) div 8)"
  proof -
    have "(63 - n) div 8 = 7 - n div 8" using n by linarith
    moreover have "r + 56 = 8 * q + r + 8 * (7 - q)" if "q \<le> 7" for q r :: nat using that by simp
    from this [of "n div 8" "n mod 8"] have "n mod 8 + 56 = n + 8 * (7 - n div 8)" using n by simp
    ultimately show ?thesis by (simp only: take_bit_eq_mod) simp
  qed
  finally show ?thesis .
qed

lemma reads_refill:
  assumes "reads data br bs"
  shows "reads data (refill br) bs \<and> (br_cnt (refill br) = length bs \<or> 56 \<le> br_cnt (refill br))"
proof -
  have d: "br_data br = data" using assms by (simp add: reads_def)
  let ?k = "(63 - br_cnt br) div 8"
  have "reads data (br\<lparr>br_buf := br_buf br OR shl64 (le_nat (get_slice (br_pos br) 8 data)) (br_cnt br),
      br_pos := br_pos br + ?k, br_cnt := br_cnt br + 8 * ?k\<rparr>) bs" if "br_pos br + 8 \<le> length data" "br_cnt br < 56"
    by (rule reads_load [OF assms]) (use that in auto)
  moreover have "56 \<le> br_cnt br + 8 * ?k" if "br_cnt br < 56" using that by linarith
  ultimately show ?thesis using assms reads_refill_bytes [OF assms] d
    by (auto simp: refill_def or_56)
qed

text \<open>Dropping buffered bits.\<close>

lemma reads_skip:
  assumes "reads data br bs" and "d \<le> br_cnt br"
  shows "reads data (br\<lparr>br_buf := drop_bit d (br_buf br), br_cnt := br_cnt br - d\<rparr>) (drop d bs)"
proof -
  note r = readsD(1-5) [OF assms(1)] and old = readsD(6,7) [OF assms(1)]
  have l: "br_cnt br \<le> length bs" using reads_length [OF assms(1)] by simp
  have p: "drop d bs = drop (8 * br_pos br - (br_cnt br - d)) (stream data)"
    using r(4) assms(2) arg_cong [OF r(5), of "drop d"] by (simp add: add.commute)
  have above: "j < length (drop d bs) \<and> drop d bs ! j" if "bit (drop_bit d (br_buf br)) j" for j
    using old(1) [of "d + j"] that by (auto simp: bit_drop_bit_eq add.commute)
  have below: "bit (drop_bit d (br_buf br)) j \<longleftrightarrow> drop d bs ! j" if "j < br_cnt br - d" for j
    using old(2) [of "d + j"] that l by (simp add: bit_drop_bit_eq add.commute)
  define br' where "br' = br\<lparr>br_buf := drop_bit d (br_buf br), br_cnt := br_cnt br - d\<rparr>"
  have sel: "br_data br' = br_data br" "br_pos br' = br_pos br" "br_cnt br' = br_cnt br - d" "br_buf br' = drop_bit d (br_buf br)"
    by (simp_all add: br'_def)
  have "reads data br' (drop d bs)"
  proof (rule readsI; unfold sel)
    show "br_cnt br - d \<le> 64" "br_cnt br - d \<le> 8 * br_pos br" using r(3,4) by simp_all
  qed (fact r(1) r(2) p above below)+
  then show ?thesis by (simp add: br'_def)
qed

lemma read_bits_reads:
  assumes "reads data br (xs @ rest)" and "length xs \<le> 56"
  obtains br' where "read_bits (length xs) br = (Inr (bits_value xs), br')" and "reads data br' rest"
proof -
  define br1 where "br1 = (if br_cnt br < length xs then refill br else br)"
  have r: "reads data br1 (xs @ rest)" and c: "length xs \<le> br_cnt br1"
    using assms reads_refill [OF assms(1)] by (auto simp: br1_def)
  have "bits_value xs = take_bit (length xs) (br_buf br1)"
    using r c by (intro bits_value_eqI) (auto simp: reads_def nth_append)
  then have v: "read_bits (length xs) br = (Inr (bits_value xs), br1\<lparr>br_buf := drop_bit (length xs) (br_buf br1), br_cnt := br_cnt br1 - length xs\<rparr>)"
    using c by (simp add: read_bits_def Let_def take_bit_eq_mask flip: br1_def)
  have "reads data (br1\<lparr>br_buf := drop_bit (length xs) (br_buf br1), br_cnt := br_cnt br1 - length xs\<rparr>) rest"
    using reads_skip [OF r c] by simp
  with v show thesis by (rule that)
qed

lemma reads_align:
  assumes "reads data br bs"
  shows "reads data (align_and_unread br) (drop (length bs mod 8) bs)" and "br_cnt (align_and_unread br) = 0"
proof -
  have m: "length bs mod 8 = br_cnt br mod 8" using reads_length [OF assms] by simp
  have c: "(br_cnt br - br_cnt br mod 8) div 8 = br_cnt br div 8" by (simp add: minus_mod_eq_mult_div)
  have "8 * (br_pos br - br_cnt br div 8) = 8 * br_pos br - br_cnt br + br_cnt br mod 8"
    using assms minus_mod_eq_mult_div [of "br_cnt br" 8] mod_less_eq_dividend [of "br_cnt br" 8]
    by (simp add: reads_def diff_mult_distrib2)
  moreover have "br_pos br - br_cnt br div 8 \<le> length data" "bs = drop (8 * br_pos br - br_cnt br) (stream data)" "br_data br = data"
    using assms by (auto simp: reads_def)
  ultimately show "reads data (align_and_unread br) (drop (length bs mod 8) bs)" "br_cnt (align_and_unread br) = 0"
    unfolding m by (simp_all add: reads_def align_and_unread_def Let_def c add.commute)
qed

lemma reads_bytes: "reads data br bs \<Longrightarrow> br_cnt br = 0 \<Longrightarrow> bs = stream (drop (br_pos br) data)"
  by (simp add: reads_def drop_stream)

lemma reads_at: "k \<le> length data \<Longrightarrow> reads data \<lparr>br_data = data, br_pos = k, br_buf = 0, br_cnt = 0\<rparr> (stream (drop k data))"
  by (simp add: reads_def drop_stream)

text \<open>The bits left, an upper bound for the reads to come in every state.\<close>

definition bits_left :: "bits \<Rightarrow> nat" where
  "bits_left br = 8 * (length (br_data br) - br_pos br) + br_cnt br"

lemma refill_bytes_left [simp]: "bits_left (refill_bytes br) = bits_left br"
  by (induction br rule: refill_bytes.induct) (subst refill_bytes.simps, auto simp: bits_left_def)

lemma refill_left [simp]: "bits_left (refill br) = bits_left br"
  by (auto simp: refill_def or_56) (auto simp: bits_left_def or_56)

lemma read_bits_left: "read_bits n br = (Inr v, br') \<Longrightarrow> bits_left br' + n = bits_left br"
proof -
  assume r: "read_bits n br = (Inr v, br')"
  define br1 where "br1 = (if br_cnt br < n then refill br else br)"
  have "n \<le> br_cnt br1 \<and> br' = br1\<lparr>br_buf := drop_bit n (br_buf br1), br_cnt := br_cnt br1 - n\<rparr>"
    using r by (simp add: read_bits_def Let_def flip: br1_def split: if_splits)
  then have "bits_left br' + n = bits_left br1" by (auto simp: bits_left_def)
  then show ?thesis by (simp add: br1_def split: if_splits)
qed

lemma align_left: "bits_left (align_and_unread br) \<le> bits_left br"
  by (simp add: bits_left_def align_and_unread_def Let_def minus_mod_eq_mult_div)

subsection \<open>What a writer has written\<close>

definition wrote :: "bit_writer \<Rightarrow> bool list \<Rightarrow> bool" where
  "wrote w bs \<longleftrightarrow> bw_n w < 8 \<and> bw_acc w < 2 ^ bw_n w \<and> bs = stream (bw_out w) @ nat_bits (bw_n w) (bw_acc w)"

lemma wrote_new: "wrote writer_new []"
  by (simp add: wrote_def writer_new_def nat_bits_def)

lemma byte_bits: "nat_bits 8 (unat (word_of_nat v :: u8)) = nat_bits 8 v"
  by (rule nat_bits_cong) (simp only: unat_of_nat bit_take_bit_iff len_of_numeral_defs flip: take_bit_eq_mod, simp)

lemma wrote_push:
  "bw_acc w < 2 ^ bw_n w \<Longrightarrow> wrote (push_bytes w) (stream (bw_out w) @ nat_bits (bw_n w) (bw_acc w))"
proof (induction w rule: push_bytes.induct)
  case (1 w)
  show ?case
  proof (cases "8 \<le> bw_n w")
    case True
    then have split: "nat_bits (bw_n w) (bw_acc w) = nat_bits 8 (bw_acc w) @ nat_bits (bw_n w - 8) (drop_bit 8 (bw_acc w))"
      using nat_bits_split [of 8 "bw_n w - 8"] by simp
    have "(2::nat) ^ bw_n w = 2 ^ (bw_n w - 8) * 2 ^ 8" using True by (simp only: flip: power_add) simp
    then have "bw_acc w < 2 ^ (bw_n w - 8) * 2 ^ 8" using 1(2) by (simp only:)
    then have "drop_bit 8 (bw_acc w) < 2 ^ (bw_n w - 8)"
      unfolding drop_bit_eq_div by (rule less_mult_imp_div_less)
    then show ?thesis using 1(1) [OF True] True split by (subst push_bytes.simps) (simp add: byte_bits)
  qed (use 1(2) in \<open>subst push_bytes.simps, simp add: wrote_def\<close>)
qed

lemma wrote_put:
  assumes "wrote w bs" and "value < 2 ^ n" and "n \<le> 32"
  shows "wrote (put value n w) (bs @ nat_bits n value)"
proof -
  have w: "bw_n w < 8" "bw_acc w < 2 ^ bw_n w" "bs = stream (bw_out w) @ nat_bits (bw_n w) (bw_acc w)"
    using assms(1) by (simp_all add: wrote_def)
  have v: "bit value j \<Longrightarrow> j < n" for j using assms(2) by (metis bit_take_bit_iff take_bit_nat_eq_self)
  have a: "bit (bw_acc w) j \<Longrightarrow> j < bw_n w" for j using w(2) by (metis bit_take_bit_iff take_bit_nat_eq_self)
  let ?acc = "bw_acc w OR shl64 value (bw_n w)"
  have e: "bit ?acc j \<longleftrightarrow> bit (bw_acc w) j \<or> bw_n w \<le> j \<and> bit value (j - bw_n w)" for j
    using v [of "j - bw_n w"] w(1) assms(3) by (auto simp: bit_or_iff bit_shl64)
  then have "bit ?acc j \<Longrightarrow> j < bw_n w + n" for j using a [of j] v [of "j - bw_n w"] by auto
  then have "take_bit (bw_n w + n) ?acc = ?acc" by (intro bit_eqI) (auto simp only: bit_take_bit_iff)
  then have "?acc < 2 ^ (bw_n w + n)" by (metis take_bit_nat_less_exp)
  then have "wrote (put value n w) (stream (bw_out w) @ nat_bits (bw_n w + n) ?acc)"
    unfolding put_def by (rule wrote_push [of "w\<lparr>bw_acc := ?acc, bw_n := bw_n w + n\<rparr>", simplified])
  moreover have "nat_bits (bw_n w + n) ?acc = nat_bits (bw_n w) (bw_acc w) @ nat_bits n value"
    unfolding nat_bits_split
    by (rule arg_cong2 [where f = "(@)"]; rule nat_bits_cong) (use e a in \<open>auto simp only: bit_drop_bit_eq comp_def diff_add_inverse\<close>)
  ultimately show ?thesis by (simp add: w(3))
qed

text \<open>The last byte is filled with zeros.\<close>

lemma wrote_finish:
  assumes "wrote w bs"
  obtains pad where "stream (writer_finish w) = bs @ pad" and "length pad < 8"
proof (cases "bw_n w = 0")
  case True
  then show ?thesis using assms that [of "[]"] by (simp add: wrote_def writer_finish_def nat_bits_def)
next
  case False
  have "nat_bits 8 (bw_acc w) = nat_bits (bw_n w) (bw_acc w) @ nat_bits (8 - bw_n w) (drop_bit (bw_n w) (bw_acc w))"
    using nat_bits_split [of "bw_n w" "8 - bw_n w"] assms by (simp add: wrote_def)
  then show ?thesis using assms False that [of "nat_bits (8 - bw_n w) (drop_bit (bw_n w) (bw_acc w))"]
    by (simp add: wrote_def writer_finish_def byte_bits)
qed

end
