(* ===== verification/Huffman.thy ===== *)
theory Huffman
  imports BitIO
begin

text \<open>
  Canonical Huffman codes, \<^verbatim>\<open>format/inflate/huffman.rs\<close>: building the decoding tables from the code
  lengths and decoding a symbol, with the table of short codes and the bit-by-bit search.
\<close>

definition FAST_BITS :: nat where "FAST_BITS = 10"
definition FAST_SIZE :: nat where "FAST_SIZE = 1024"
definition FAST_MASK :: nat where "FAST_MASK = FAST_SIZE - 1"
definition MAX_CODE_LEN :: nat where "MAX_CODE_LEN = 15"
definition MAX_SYMBOLS :: nat where "MAX_SYMBOLS = 288"

record huffman =
  hf_fast :: "nat list"
  hf_count :: "nat list"
  hf_symbols :: "nat list"

definition huffman_new :: huffman where
  "huffman_new = \<lparr>hf_fast = replicate FAST_SIZE 0, hf_count = replicate (MAX_CODE_LEN + 1) 0, hf_symbols = replicate MAX_SYMBOLS 0\<rparr>"

text \<open>\<open>u32::reverse_bits\<close>.\<close>

definition reverse_bits32 :: "nat \<Rightarrow> nat" where
  "reverse_bits32 v = bits_value (rev (nat_bits 32 v))"

definition rev_code :: "nat \<Rightarrow> nat \<Rightarrow> nat" where
  "rev_code code len = drop_bit (32 - len) (reverse_bits32 code)"

fun count_lens :: "nat list \<Rightarrow> nat list \<Rightarrow> bool \<times> nat list" where
  "count_lens [] counts = (True, counts)"
| "count_lens (l # ls) counts = (if MAX_CODE_LEN < l then (False, counts) else count_lens ls (counts[l := counts ! l + 1]))"

fun kraft :: "nat list \<Rightarrow> int \<Rightarrow> int option" where
  "kraft [] left = Some left"
| "kraft (c # cs) left = (let left = left * 2 - int c in if left < 0 then None else kraft cs left)"

definition offsets_step :: "nat list \<Rightarrow> nat \<Rightarrow> nat list \<times> nat list \<times> nat \<Rightarrow> nat list \<times> nat list \<times> nat" where
  "offsets_step counts len = (\<lambda>(offs, next_code, code).
     let code = (code + (if 1 < len then counts ! (len - 1) else 0)) * 2
     in (offs[len + 1 := offs ! len + counts ! len], next_code[len := code], code))"

definition offsets :: "nat list \<Rightarrow> nat list \<times> nat list \<times> nat" where
  "offsets counts = fold (offsets_step counts) [1..<MAX_CODE_LEN + 1]
     (replicate (MAX_CODE_LEN + 2) 0, replicate (MAX_CODE_LEN + 2) 0, 0)"

function fill_fast :: "nat \<Rightarrow> nat \<Rightarrow> nat \<Rightarrow> nat list \<Rightarrow> nat list" where
  "fill_fast l entry i fast = (if i < FAST_SIZE then fill_fast l entry (i + 2 ^ l) (fast[i := entry]) else fast)"
  by auto
termination by (relation "measure (\<lambda>(l, entry, i, fast). FAST_SIZE - i)") (auto intro: diff_less_mono2)

declare fill_fast.simps [simp del]

definition fast_entry :: "nat \<Rightarrow> nat \<Rightarrow> nat" where
  "fast_entry symb l = take_bit 16 (push_bit 4 symb) OR l"

definition place :: "nat \<times> nat \<Rightarrow> huffman \<times> nat list \<times> nat list \<Rightarrow> huffman \<times> nat list \<times> nat list" where
  "place = (\<lambda>(symb, l) (h, offs, next_code).
     if l = 0 then (h, offs, next_code)
     else
       let slot = offs ! l; c = next_code ! l;
           symbols = (if slot < length (hf_symbols h) then (hf_symbols h)[slot := symb] else hf_symbols h);
           fast = (if l \<le> FAST_BITS then fill_fast l (fast_entry symb l) (rev_code c l) (hf_fast h) else hf_fast h)
       in (h\<lparr>hf_symbols := symbols, hf_fast := fast\<rparr>, offs[l := slot + 1], next_code[l := c + 1]))"

definition build :: "nat list \<Rightarrow> bool \<Rightarrow> huffman \<Rightarrow> (huffman, inflate_error, unit) res" where
  "build lens complete h =
     (if MAX_SYMBOLS < length lens then (Inl BadCodeLengths, h)
      else
        let (ok, counts) = count_lens lens (replicate (MAX_CODE_LEN + 1) 0);
            h = h\<lparr>hf_count := counts\<rparr>
        in if \<not> ok then (Inl BadCodeLengths, h)
           else
             (case kraft (tl counts) 1 of
                None \<Rightarrow> (Inl BadCodeLengths, h)
              | Some left \<Rightarrow>
                  let codes = length lens - counts ! 0
                  in if 0 < left \<and> (complete \<or> \<not> (codes = 0 \<or> (codes = 1 \<and> counts ! 1 = 1))) then (Inl BadCodeLengths, h)
                     else
                       let (offs, next_code, _) = offsets counts;
                           (h, _) = fold place (zip [0..<length lens] lens) (h\<lparr>hf_fast := replicate FAST_SIZE 0\<rparr>, offs, next_code)
                       in (Inr (), h)))"

fun slow_loop :: "huffman \<Rightarrow> nat list \<Rightarrow> nat \<Rightarrow> nat \<Rightarrow> nat \<Rightarrow> bits \<Rightarrow> (bits, inflate_error, nat) res" where
  "slow_loop h [] code first index br = (Inl InvalidCode, br)"
| "slow_loop h (len # lens) code first index br =
     bindr (read_bits 1 br) (\<lambda>b br.
       let code = code OR b; cnt = hf_count h ! len in
       if int code - int cnt < int first
       then let i = int index + (int code - int first)
            in (Inr (if 0 \<le> i \<and> nat i < length (hf_symbols h) then hf_symbols h ! nat i else 0), br)
       else slow_loop h lens (code * 2) ((first + cnt) * 2) (index + cnt) br)"

definition decode_slow :: "huffman \<Rightarrow> bits \<Rightarrow> (bits, inflate_error, nat) res" where
  "decode_slow h br = slow_loop h [1..<MAX_CODE_LEN + 1] 0 0 0 br"

definition decode :: "huffman \<Rightarrow> bits \<Rightarrow> (bits, inflate_error, nat) res" where
  "decode h br =
     (let br = refill br; e = hf_fast h ! (br_buf br AND FAST_MASK) in
      if e \<noteq> 0
      then let l = e AND 15 in
           if br_cnt br < l then (Inl Truncated, br)
           else (Inr (drop_bit 4 e), br\<lparr>br_buf := drop_bit l (br_buf br), br_cnt := br_cnt br - l\<rparr>)
      else decode_slow h br)"

subsection \<open>The canonical code\<close>

text \<open>The number of symbols of each length, the first code of a length and the place of its first symbol in the canonical order.\<close>

definition num :: "nat list \<Rightarrow> nat \<Rightarrow> nat" where
  "num lens l = (if l = 0 then 0 else count_list lens l)"

fun first_code :: "nat list \<Rightarrow> nat \<Rightarrow> nat" where
  "first_code lens 0 = 0"
| "first_code lens (Suc l) = 2 * (first_code lens l + num lens l)"

definition first_slot :: "nat list \<Rightarrow> nat \<Rightarrow> nat" where
  "first_slot lens l = (\<Sum>k < l. num lens k)"

definition rank :: "nat list \<Rightarrow> nat \<Rightarrow> nat" where
  "rank lens s = count_list (take s lens) (lens ! s)"

definition code_of :: "nat list \<Rightarrow> nat \<Rightarrow> nat" where
  "code_of lens s = first_code lens (lens ! s) + rank lens s"

text \<open>A code is sent from its most significant bit.\<close>

definition code_bits :: "nat list \<Rightarrow> nat \<Rightarrow> bool list" where
  "code_bits lens s = rev (nat_bits (lens ! s) (code_of lens s))"

definition good_lens :: "nat list \<Rightarrow> bool" where
  "good_lens lens \<longleftrightarrow> length lens \<le> MAX_SYMBOLS \<and> (\<forall>l \<in> set lens. l \<le> MAX_CODE_LEN) \<and>
     (\<forall>l \<le> MAX_CODE_LEN. first_code lens l + num lens l \<le> 2 ^ l)"

lemma count_take_Suc: "k < length lens \<Longrightarrow> count_list (take (Suc k) lens) l = count_list (take k lens) l + (if lens ! k = l then 1 else 0)"
  by (simp add: take_Suc_conv_app_nth count_list_append)

lemma count_take_mono: "j \<le> k \<Longrightarrow> count_list (take j xs) x \<le> count_list (take k xs) x"
proof -
  assume "j \<le> k"
  then have "take k xs = take j xs @ drop j (take k xs)" by (metis append_take_drop_id min_absorb1 take_take)
  then show ?thesis by (metis count_list_append le_add1)
qed

lemma rank_less: "s < length lens \<Longrightarrow> rank lens s < count_list lens (lens ! s)"
  using count_take_mono [of "Suc s" "length lens" lens "lens ! s"] by (simp add: rank_def count_take_Suc)

lemma rank_mono:
  assumes "s < t" and "t < length lens" and "lens ! s = lens ! t"
  shows "rank lens s < rank lens t"
proof -
  have "rank lens s < count_list (take (Suc s) lens) (lens ! t)" using assms by (simp add: rank_def count_take_Suc)
  also have "\<dots> \<le> rank lens t" using assms by (auto simp: rank_def intro: count_take_mono)
  finally show ?thesis .
qed

lemma rank_inj: "s < length lens \<Longrightarrow> t < length lens \<Longrightarrow> lens ! s = lens ! t \<Longrightarrow> rank lens s = rank lens t \<Longrightarrow> s = t"
  using rank_mono [of s t lens] rank_mono [of t s lens] by (metis less_irrefl nat_neq_iff)

lemma first_code_grows: "l < m \<Longrightarrow> 2 ^ (m - l) * (first_code lens l + num lens l) \<le> first_code lens m"
proof (induction m)
  case (Suc m)
  show ?case
  proof (cases "l = m")
    case False
    then have "2 ^ (m - l) * (first_code lens l + num lens l) \<le> first_code lens m" using Suc by simp
    then show ?thesis using Suc.prems False by (simp add: Suc_diff_le)
  qed simp
qed simp

lemma code_less:
  assumes "good_lens lens" and "s < length lens" and "lens ! s \<noteq> 0"
  shows "code_of lens s < first_code lens (lens ! s) + num lens (lens ! s)" and "code_of lens s < 2 ^ (lens ! s)"
proof -
  show "code_of lens s < first_code lens (lens ! s) + num lens (lens ! s)"
    using rank_less [OF assms(2)] assms(3) by (simp add: code_of_def num_def)
  also have "\<dots> \<le> 2 ^ (lens ! s)" using assms(1,2) by (simp add: good_lens_def)
  finally show "code_of lens s < 2 ^ (lens ! s)" .
qed

text \<open>No code is the beginning of another one.\<close>

lemma prefix_free_codes:
  assumes "good_lens lens" and "s < length lens" and "t < length lens" and "lens ! s \<noteq> 0" and "lens ! s \<le> lens ! t"
    and "drop_bit (lens ! t - lens ! s) (code_of lens t) = code_of lens s"
  shows "s = t"
proof (cases "lens ! s = lens ! t")
  case True
  then show ?thesis using assms rank_inj [of s lens t] by (simp add: code_of_def)
next
  case False
  let ?d = "lens ! t - lens ! s"
  have "2 ^ ?d * (first_code lens (lens ! s) + num lens (lens ! s)) \<le> code_of lens t"
    using first_code_grows [of "lens ! s" "lens ! t" lens] False assms(5) by (simp add: code_of_def)
  then have "first_code lens (lens ! s) + num lens (lens ! s) \<le> drop_bit ?d (code_of lens t)"
    by (simp add: drop_bit_eq_div less_eq_div_iff_mult_less_eq mult.commute)
  then show ?thesis using code_less(1) [OF assms(1,2,4)] assms(6) by simp
qed

lemma take_code_bits: "l \<le> lens ! t \<Longrightarrow> take l (code_bits lens t) = rev (nat_bits l (drop_bit (lens ! t - l) (code_of lens t)))"
  by (rule nth_equalityI) (auto simp: code_bits_def rev_nth bit_drop_bit_eq intro!: arg_cong [where f = "bit _"])

lemma nat_bits_eq_iff: "u < 2 ^ n \<Longrightarrow> v < 2 ^ n \<Longrightarrow> nat_bits n u = nat_bits n v \<longleftrightarrow> u = v"
  by (metis bits_value_nat_bits take_bit_nat_eq_self)

lemma prefix_free:
  assumes "good_lens lens" and "s < length lens" and "t < length lens" and "lens ! s \<noteq> 0" and "lens ! s \<le> lens ! t"
    and "take (lens ! s) (code_bits lens t) = code_bits lens s"
  shows "s = t"
proof -
  have "lens ! t \<noteq> 0" using assms(4,5) by simp
  note c = code_less(2) [OF assms(1,2,4)] code_less(2) [OF assms(1,3) this]
  have "drop_bit (lens ! t - lens ! s) (code_of lens t) < 2 ^ (lens ! s)"
    using c(2) assms(5) unfolding drop_bit_eq_div by (intro less_mult_imp_div_less) (simp flip: power_add)
  moreover have "nat_bits (lens ! s) (drop_bit (lens ! t - lens ! s) (code_of lens t)) = nat_bits (lens ! s) (code_of lens s)"
    using assms(6) unfolding take_code_bits [OF assms(5)] by (simp add: code_bits_def)
  ultimately have "drop_bit (lens ! t - lens ! s) (code_of lens t) = code_of lens s" using c(1) by (simp add: nat_bits_eq_iff)
  then show ?thesis by (rule prefix_free_codes [OF assms(1-5)])
qed

subsection \<open>Building the tables\<close>

lemma count_lens_ok:
  assumes "count_lens lens c = (True, c')" and "length c = MAX_CODE_LEN + 1"
  shows "(\<forall>l \<in> set lens. l \<le> MAX_CODE_LEN) \<and> length c' = MAX_CODE_LEN + 1 \<and> (\<forall>l \<le> MAX_CODE_LEN. c' ! l = c ! l + count_list lens l)"
  using assms
proof (induction lens arbitrary: c)
  case (Cons l lens)
  have l: "l \<le> MAX_CODE_LEN" and r: "count_lens lens (c[l := c ! l + 1]) = (True, c')"
    using Cons.prems by (simp_all split: if_splits)
  show ?case using Cons.IH [OF r] Cons.prems(2) l by (auto simp: nth_list_update)
qed simp

lemma count_lens_all:
  assumes "\<forall>l \<in> set lens. l \<le> MAX_CODE_LEN"
  shows "fst (count_lens lens c)"
  using assms by (induction lens arbitrary: c) auto

lemma kraft_ok:
  assumes "kraft (map (num lens) [Suc m..<MAX_CODE_LEN + 1]) (2 ^ m - int (first_code lens m + num lens m)) = Some left"
    and "m < l" and "l \<le> MAX_CODE_LEN"
  shows "first_code lens l + num lens l \<le> 2 ^ l"
  using assms
proof (induction "MAX_CODE_LEN - m" arbitrary: m)
  case (Suc k)
  then have m: "m < MAX_CODE_LEN" by simp
  then have u: "[Suc m..<MAX_CODE_LEN + 1] = Suc m # [Suc (Suc m)..<MAX_CODE_LEN + 1]" by (simp add: upt_conv_Cons)
  have e: "(2 ^ m - int (first_code lens m + num lens m)) * 2 - int (num lens (Suc m)) = 2 ^ Suc m - int (first_code lens (Suc m) + num lens (Suc m))"
    by simp
  have k: "0 \<le> 2 ^ Suc m - int (first_code lens (Suc m) + num lens (Suc m))"
      "kraft (map (num lens) [Suc (Suc m)..<MAX_CODE_LEN + 1]) (2 ^ Suc m - int (first_code lens (Suc m) + num lens (Suc m))) = Some left"
    using Suc.prems(1) unfolding u list.map kraft.simps Let_def e by (auto split: if_splits)
  show ?case
  proof (cases "l = Suc m")
    case True
    have "int (first_code lens l + num lens l) \<le> int (2 ^ l)" using k(1) unfolding True by simp
    then show ?thesis by (simp only: of_nat_le_iff)
  next
    case False
    then show ?thesis using Suc.hyps(1) [OF _ k(2)] Suc.hyps(2) Suc.prems by simp
  qed
qed simp

lemma offsets_ok:
  assumes "\<forall>l \<le> MAX_CODE_LEN. l \<noteq> 0 \<longrightarrow> counts ! l = num lens l" and "m \<le> MAX_CODE_LEN"
  shows "\<exists>offs next_code. fold (offsets_step counts) [1..<Suc m] (replicate (MAX_CODE_LEN + 2) 0, replicate (MAX_CODE_LEN + 2) 0, 0)
      = (offs, next_code, first_code lens m) \<and> length offs = MAX_CODE_LEN + 2 \<and> length next_code = MAX_CODE_LEN + 2 \<and>
      (\<forall>l \<le> Suc m. offs ! l = first_slot lens l) \<and> (\<forall>l \<le> m. next_code ! l = first_code lens l)"
  using assms(2)
proof (induction m)
  case 0
  have "l = 0 \<or> l = 1" if "l \<le> Suc 0" for l using that by auto
  then show ?case by (fastforce simp: first_slot_def num_def)
next
  case (Suc m)
  then obtain offs nc where f: "fold (offsets_step counts) [1..<Suc m] (replicate (MAX_CODE_LEN + 2) 0, replicate (MAX_CODE_LEN + 2) 0, 0) = (offs, nc, first_code lens m)"
    and l: "length offs = MAX_CODE_LEN + 2" "length nc = MAX_CODE_LEN + 2"
    and o: "\<forall>l \<le> Suc m. offs ! l = first_slot lens l" and n: "\<forall>l \<le> m. nc ! l = first_code lens l" by auto
  have c: "(first_code lens m + (if 1 < Suc m then counts ! (Suc m - 1) else 0)) * 2 = first_code lens (Suc m)" "counts ! Suc m = num lens (Suc m)"
    using assms(1) Suc.prems by (auto simp: num_def)
  have "offsets_step counts (Suc m) (offs, nc, first_code lens m) =
      (offs[Suc m + 1 := first_slot lens (Suc m) + num lens (Suc m)], nc[Suc m := first_code lens (Suc m)], first_code lens (Suc m))"
    using o unfolding offsets_step_def Let_def prod.case c by simp
  moreover have "[1..<Suc (Suc m)] = [1..<Suc m] @ [Suc m]" by simp
  ultimately have "fold (offsets_step counts) [1..<Suc (Suc m)] (replicate (MAX_CODE_LEN + 2) 0, replicate (MAX_CODE_LEN + 2) 0, 0) =
      (offs[Suc m + 1 := first_slot lens (Suc m) + num lens (Suc m)], nc[Suc m := first_code lens (Suc m)], first_code lens (Suc m))"
    using f by (simp only: fold_append comp_apply fold_simps)
  moreover have "first_slot lens (Suc m) + num lens (Suc m) = first_slot lens (Suc (Suc m))" by (simp add: first_slot_def)
  ultimately show ?case using l o n Suc.prems by (auto simp: nth_list_update le_Suc_eq)
qed

lemma fill_fast_ok: "length (fill_fast l e i fast) = length fast \<and>
    (\<forall>j < FAST_SIZE. length fast = FAST_SIZE \<longrightarrow> fill_fast l e i fast ! j = (if i \<le> j \<and> 2 ^ l dvd j - i then e else fast ! j))"
proof (induction l e i fast rule: fill_fast.induct)
  case (1 l e i fast)
  show ?case
  proof (cases "i < FAST_SIZE")
    case True
    have d: "i \<le> j \<and> 2 ^ l dvd j - i \<longleftrightarrow> j = i \<or> i + 2 ^ l \<le> j \<and> 2 ^ l dvd j - (i + 2 ^ l)" for j :: nat
    proof (cases "i + 2 ^ l \<le> j")
      case True
      then have "j - i = j - (i + 2 ^ l) + 2 ^ l" by simp
      then have "2 ^ l dvd j - i \<longleftrightarrow> 2 ^ l dvd j - (i + 2 ^ l)" by (simp only: dvd_add_triv_right_iff)
      then show ?thesis using True by auto
    next
      case False
      then have "2 ^ l dvd j - i \<Longrightarrow> j \<le> i" by (metis add_diff_cancel_left' dvd_imp_le leI le_add_diff_inverse linorder_le_less_linear nat_add_left_cancel_le order_less_imp_le zero_less_diff)
      then show ?thesis using False by auto
    qed
    show ?thesis using 1 [OF True] True by (subst (1 2) fill_fast.simps) (auto simp: d nth_list_update)
  qed (subst (1 2) fill_fast.simps, auto)
qed

lemma length_fill_fast [simp]: "length (fill_fast l e i fast) = length fast"
  using fill_fast_ok [of l e i fast] by (rule conjunct1)

text \<open>The place of a symbol in the canonical order.\<close>

definition canon_slot :: "nat list \<Rightarrow> nat \<Rightarrow> nat" where
  "canon_slot lens s = first_slot lens (lens ! s) + rank lens s"

lemma first_slot_mono: "l \<le> m \<Longrightarrow> first_slot lens l \<le> first_slot lens m"
  by (auto simp: first_slot_def intro: sum_mono2)

lemma first_slot_le: "first_slot lens m \<le> length lens"
proof (induction lens)
  case (Cons x lens)
  have "first_slot (x # lens) m = first_slot lens m + (\<Sum>k < m. if k = x \<and> k \<noteq> 0 then 1 else 0)"
    unfolding first_slot_def sum.distrib [symmetric] by (rule sum.cong) (auto simp: num_def)
  also have "(\<Sum>k < m. if k = x \<and> k \<noteq> 0 then 1 else 0) \<le> (\<Sum>k < m. if k = x then 1 else (0::nat))" by (rule sum_mono) auto
  also have "\<dots> \<le> 1" by simp
  finally show ?case using Cons by simp
qed (simp add: first_slot_def num_def)

lemma slot_less:
  assumes "s < length lens" and "lens ! s \<noteq> 0"
  shows "canon_slot lens s < first_slot lens (Suc (lens ! s))"
  using rank_less [OF assms(1)] assms(2) by (simp add: canon_slot_def first_slot_def num_def)

lemma slot_inj:
  assumes "s < length lens" and "t < length lens" and "lens ! s \<noteq> 0" and "lens ! t \<noteq> 0" and "canon_slot lens s = canon_slot lens t"
  shows "s = t"
proof (cases "lens ! s = lens ! t")
  case True
  then show ?thesis using assms rank_inj [of s lens t] by (simp add: canon_slot_def)
next
  case False
  have "lens ! u < lens ! v \<Longrightarrow> canon_slot lens u < canon_slot lens v" if "u < length lens" "lens ! u \<noteq> 0" for u v
    using slot_less [OF that] first_slot_mono [of "Suc (lens ! u)" "lens ! v" lens] by (simp add: canon_slot_def)
  then show ?thesis using assms False by (metis less_irrefl nat_neq_iff)
qed

lemma bit_bits_value: "bit (bits_value bs) j \<longleftrightarrow> j < length bs \<and> bs ! j"
  by (simp add: bits_value_def bit_horner_sum_bit_iff)

lemma nat_bits_value [simp]: "length bs = n \<Longrightarrow> nat_bits n (bits_value bs) = bs"
  by (rule nth_equalityI) (auto simp: bit_bits_value)

lemma bits_value_less: "bits_value bs < 2 ^ length bs"
proof -
  have "take_bit (length bs) (bits_value bs) = bits_value bs" by (intro bit_eqI) (auto simp: bit_take_bit_iff bit_bits_value)
  then show ?thesis by (metis take_bit_nat_less_exp)
qed

lemma length_code_bits [simp]: "length (code_bits lens s) = lens ! s"
  by (simp add: code_bits_def)

lemma rev_code_value: "l \<le> 32 \<Longrightarrow> rev_code c l = bits_value (rev (nat_bits l c))"
  by (rule bit_eqI) (auto simp: rev_code_def reverse_bits32_def bit_drop_bit_eq bit_bits_value rev_nth Suc_diff_Suc
      intro!: arg_cong [where f = "bit c"] elim!: back_subst [of "bit c"])

lemma nat_bits_eq_value: "length bs = n \<Longrightarrow> nat_bits n v = bs \<longleftrightarrow> v mod 2 ^ n = bits_value bs"
  by (metis bits_value_nat_bits nat_bits_value take_bit_eq_mod length_nat_bits)

lemma fill_condition: "i < 2 ^ l \<Longrightarrow> i \<le> j \<and> 2 ^ l dvd j - i \<longleftrightarrow> j mod 2 ^ l = (i :: nat)"
  by (metis mod_eq_dvd_iff_nat mod_less mod_less_eq_dividend)

lemma fill_fast_matches:
  assumes "length bs = l" and "length fast = FAST_SIZE" and "j < FAST_SIZE"
  shows "fill_fast l e (bits_value bs) fast ! j = (if nat_bits l j = bs then e else fast ! j)"
  using fill_fast_ok [of l e "bits_value bs" fast] bits_value_less [of bs] assms
  by (simp add: fill_condition nat_bits_eq_value)

lemma matches_unique:
  assumes "good_lens lens" and "s < length lens" and "t < length lens" and "lens ! s \<noteq> 0" and "lens ! t \<noteq> 0"
    and "nat_bits (lens ! s) i = code_bits lens s" and "nat_bits (lens ! t) i = code_bits lens t"
  shows "s = t"
proof -
  have t: "take l (nat_bits m i) = nat_bits l i" if "l \<le> m" for l m using that by (intro nth_equalityI) auto
  show ?thesis
  proof (cases "lens ! s \<le> lens ! t")
    case True
    then show ?thesis using prefix_free [OF assms(1,2,3,4) True] t [OF True] assms(6,7) by simp
  next
    case False
    then have "lens ! t \<le> lens ! s" by simp
    then show ?thesis using prefix_free [OF assms(1,3,2,5)] t [of "lens ! t" "lens ! s"] assms(6,7) by simp
  qed
qed

definition short_match :: "nat list \<Rightarrow> nat \<Rightarrow> nat \<Rightarrow> bool" where
  "short_match lens s i \<longleftrightarrow> lens ! s \<noteq> 0 \<and> lens ! s \<le> FAST_BITS \<and> nat_bits (lens ! s) i = code_bits lens s"

text \<open>The tables after the first \<open>k\<close> symbols.\<close>

definition tables :: "nat list \<Rightarrow> nat \<Rightarrow> huffman \<Rightarrow> bool" where
  "tables lens k h \<longleftrightarrow> length (hf_fast h) = FAST_SIZE \<and> length (hf_symbols h) = MAX_SYMBOLS \<and>
     (\<forall>s < k. lens ! s \<noteq> 0 \<longrightarrow> hf_symbols h ! canon_slot lens s = s) \<and>
     (\<forall>i < FAST_SIZE. \<forall>s < k. short_match lens s i \<longrightarrow> hf_fast h ! i = fast_entry s (lens ! s)) \<and>
     (\<forall>i < FAST_SIZE. hf_fast h ! i \<noteq> 0 \<longrightarrow> (\<exists>s < k. short_match lens s i))"

definition counters :: "nat list \<Rightarrow> nat \<Rightarrow> nat list \<Rightarrow> nat list \<Rightarrow> bool" where
  "counters lens k offs next_code \<longleftrightarrow> length offs = MAX_CODE_LEN + 2 \<and> length next_code = MAX_CODE_LEN + 2 \<and>
     (\<forall>l. 0 < l \<and> l \<le> MAX_CODE_LEN \<longrightarrow> offs ! l = first_slot lens l + count_list (take k lens) l \<and>
        next_code ! l = first_code lens l + count_list (take k lens) l)"

lemma place_ok:
  assumes g: "good_lens lens" and k: "k < length lens" and t: "tables lens k h" and c: "counters lens k offs nc"
  obtains h' offs' nc' where "place (k, lens ! k) (h, offs, nc) = (h', offs', nc')" and "tables lens (Suc k) h'"
    and "counters lens (Suc k) offs' nc'" and "hf_count h' = hf_count h"
proof (cases "lens ! k = 0")
  case True
  have "tables lens (Suc k) h" using t True by (auto simp: tables_def less_Suc_eq short_match_def)
  moreover have "counters lens (Suc k) offs nc" using c True by (auto simp: counters_def count_take_Suc [OF k])
  ultimately show ?thesis using that [of h offs nc] True by (simp add: place_def)
next
  case False
  let ?l = "lens ! k"
  have l: "?l \<le> MAX_CODE_LEN" using g k by (simp add: good_lens_def)
  have o: "offs ! ?l = canon_slot lens k" and n: "nc ! ?l = code_of lens k"
    using c False l by (simp_all add: counters_def canon_slot_def code_of_def rank_def)
  have sl: "canon_slot lens k < MAX_SYMBOLS"
    using slot_less [OF k False] first_slot_le [of lens "Suc ?l"] g by (simp add: good_lens_def)
  define fast where "fast = (if ?l \<le> FAST_BITS then fill_fast ?l (fast_entry k ?l) (rev_code (code_of lens k) ?l) (hf_fast h) else hf_fast h)"
  define h' where "h' = h\<lparr>hf_symbols := (hf_symbols h)[canon_slot lens k := k], hf_fast := fast\<rparr>"
  have lf: "length (hf_fast h) = FAST_SIZE" "length (hf_symbols h) = MAX_SYMBOLS" using t by (simp_all add: tables_def)
  have fast: "fast ! i = (if short_match lens k i then fast_entry k ?l else hf_fast h ! i)" "length fast = FAST_SIZE" if "i < FAST_SIZE" for i
  proof -
    have "rev_code (code_of lens k) ?l = bits_value (code_bits lens k)"
      using l by (simp add: rev_code_value code_bits_def MAX_CODE_LEN_def)
    then show "fast ! i = (if short_match lens k i then fast_entry k ?l else hf_fast h ! i)" "length fast = FAST_SIZE"
      using False lf that by (simp_all add: fast_def short_match_def fill_fast_matches)
  qed
  have p: "place (k, ?l) (h, offs, nc) = (h', offs[?l := canon_slot lens k + 1], nc[?l := code_of lens k + 1])"
    using False sl lf by (simp add: place_def o n h'_def fast_def Let_def)
  have "counters lens (Suc k) (offs[?l := canon_slot lens k + 1]) (nc[?l := code_of lens k + 1])"
    using c l by (auto simp: counters_def count_take_Suc [OF k] nth_list_update canon_slot_def code_of_def rank_def)
  moreover have "tables lens (Suc k) h'"
  proof -
    have s1: "canon_slot lens s \<noteq> canon_slot lens k" if "s < k" "lens ! s \<noteq> 0" for s using slot_inj [of s lens k] that k False by auto
    have s2: "\<not> short_match lens k i" if "s < k" "short_match lens s i" for s i
      using matches_unique [OF g, of s k i] that k by (auto simp: short_match_def)
    have f: "hf_fast h' ! i = (if short_match lens k i then fast_entry k ?l else hf_fast h ! i)" if "i < FAST_SIZE" for i
      using fast(1) [OF that] by (simp add: h'_def)
    have "length (hf_fast h') = FAST_SIZE" "length (hf_symbols h') = MAX_SYMBOLS"
      using lf fast(2) [of 0] by (simp_all add: h'_def FAST_SIZE_def)
    moreover have "\<forall>s < Suc k. lens ! s \<noteq> 0 \<longrightarrow> hf_symbols h' ! canon_slot lens s = s"
      using t s1 s1 [THEN not_sym] sl lf(2) by (auto simp: tables_def h'_def less_Suc_eq nth_list_update)
    moreover have "hf_fast h' ! i = fast_entry s (lens ! s)" if "i < FAST_SIZE" "s < Suc k" "short_match lens s i" for i s
      using t f [OF that(1)] s2 [of s i] that by (cases "s = k") (auto simp: tables_def)
    moreover have "\<exists>s < Suc k. short_match lens s i" if "i < FAST_SIZE" "hf_fast h' ! i \<noteq> 0" for i
      using t f [OF that(1)] that by (cases "short_match lens k i") (auto simp: tables_def less_Suc_eq)
    ultimately show ?thesis by (simp add: tables_def)
  qed
  ultimately show ?thesis using that [OF p] by (simp add: h'_def)
qed

lemma fold_place_ok:
  assumes "good_lens lens" and "tables lens 0 h" and "counters lens 0 offs nc" and "k \<le> length lens"
  shows "\<exists>h' offs' nc'. fold place (zip [0..<k] (take k lens)) (h, offs, nc) = (h', offs', nc') \<and>
    tables lens k h' \<and> counters lens k offs' nc' \<and> hf_count h' = hf_count h"
  using assms(4)
proof (induction k)
  case (Suc k)
  then obtain h1 o1 n1 where f: "fold place (zip [0..<k] (take k lens)) (h, offs, nc) = (h1, o1, n1)" "tables lens k h1"
    "counters lens k o1 n1" "hf_count h1 = hf_count h" by auto
  obtain h2 o2 n2 where p: "place (k, lens ! k) (h1, o1, n1) = (h2, o2, n2)" "tables lens (Suc k) h2" "counters lens (Suc k) o2 n2" "hf_count h2 = hf_count h1"
    using place_ok [OF assms(1) _ f(2,3)] Suc.prems by (metis Suc_le_lessD)
  have "zip [0..<Suc k] (take (Suc k) lens) = zip [0..<k] (take k lens) @ [(k, lens ! k)]"
    using Suc.prems by (simp add: take_Suc_conv_app_nth)
  then show ?case using f p by simp
qed (use assms in simp)

lemma build_ok:
  assumes "build lens complete h = (Inr (), h')" and "length (hf_symbols h) = MAX_SYMBOLS"
  shows "good_lens lens" and "tables lens (length lens) h'" and "\<forall>l \<le> MAX_CODE_LEN. hf_count h' ! l = count_list lens l"
proof -
  obtain ok counts where cl: "count_lens lens (replicate (MAX_CODE_LEN + 1) 0) = (ok, counts)" by fastforce
  note built = assms(1) [unfolded build_def cl Let_def prod.case]
  have n: "length lens \<le> MAX_SYMBOLS" and ok: "ok" using built by (auto split: if_splits)
  have c: "\<forall>l \<in> set lens. l \<le> MAX_CODE_LEN" "length counts = MAX_CODE_LEN + 1" "\<forall>l \<le> MAX_CODE_LEN. counts ! l = count_list lens l"
    using count_lens_ok [of lens "replicate (MAX_CODE_LEN + 1) 0" counts] cl ok by (auto simp: nth_Cons')
  have tl: "tl counts = map (num lens) [Suc 0..<MAX_CODE_LEN + 1]"
    using c by (intro nth_equalityI) (auto simp: nth_tl num_def simp del: upt_Suc)
  obtain left where k: "kraft (tl counts) 1 = Some left"
    using built n ok by (auto split: if_splits option.splits)
  have kr: "first_code lens l + num lens l \<le> 2 ^ l" if "l \<le> MAX_CODE_LEN" for l
    using kraft_ok [of lens 0 left l] k that by (cases "l = 0") (simp_all add: tl num_def)
  show g: "good_lens lens" using n c(1) kr by (simp add: good_lens_def)
  obtain offs nc where o: "offsets counts = (offs, nc, first_code lens MAX_CODE_LEN)" "length offs = MAX_CODE_LEN + 2" "length nc = MAX_CODE_LEN + 2"
    "\<forall>l \<le> Suc MAX_CODE_LEN. offs ! l = first_slot lens l" "\<forall>l \<le> MAX_CODE_LEN. nc ! l = first_code lens l"
    using offsets_ok [of counts lens MAX_CODE_LEN] c(3) unfolding offsets_def by (auto simp: num_def)
  let ?h = "h\<lparr>hf_count := counts, hf_fast := replicate FAST_SIZE 0\<rparr>"
  have "tables lens 0 ?h" "counters lens 0 offs nc" using assms(2) o by (simp_all add: tables_def counters_def)
  from fold_place_ok [OF g this order_refl] obtain h1 o1 n1 where
    f: "fold place (zip [0..<length lens] lens) (?h, offs, nc) = (h1, o1, n1)" "tables lens (length lens) h1" "hf_count h1 = counts"
    by auto
  have "h' = h1" using built n ok k o(1) f(1) by (auto split: if_splits)
  then show "tables lens (length lens) h'" "\<forall>l \<le> MAX_CODE_LEN. hf_count h' ! l = count_list lens l" using f c(3) by simp_all
qed

text \<open>Lengths that fill the code space are accepted.\<close>

lemma kraft_value:
  assumes "\<forall>l \<le> MAX_CODE_LEN. first_code lens l + num lens l \<le> 2 ^ l" and "m \<le> MAX_CODE_LEN"
  shows "kraft (map (num lens) [Suc m..<MAX_CODE_LEN + 1]) (2 ^ m - int (first_code lens m + num lens m)) =
    Some (2 ^ MAX_CODE_LEN - int (first_code lens MAX_CODE_LEN + num lens MAX_CODE_LEN))"
  using assms(2)
proof (induction "MAX_CODE_LEN - m" arbitrary: m)
  case (Suc k)
  then have m: "m < MAX_CODE_LEN" by simp
  then have u: "[Suc m..<MAX_CODE_LEN + 1] = Suc m # [Suc (Suc m)..<MAX_CODE_LEN + 1]" by (simp add: upt_conv_Cons)
  have e: "(2 ^ m - int (first_code lens m + num lens m)) * 2 - int (num lens (Suc m)) = 2 ^ Suc m - int (first_code lens (Suc m) + num lens (Suc m))"
    by simp
  have "first_code lens (Suc m) + num lens (Suc m) \<le> 2 ^ Suc m" using assms(1) m by (meson Suc_leI)
  then have "int (first_code lens (Suc m) + num lens (Suc m)) \<le> int (2 ^ Suc m)" by (simp only: of_nat_le_iff)
  then have "\<not> 2 ^ Suc m - int (first_code lens (Suc m) + num lens (Suc m)) < 0" by simp
  then show ?case using Suc.hyps(1) [of "Suc m"] Suc.hyps(2) m unfolding u list.map kraft.simps Let_def e by simp
qed simp

lemma build_complete:
  assumes "good_lens lens" and "first_code lens MAX_CODE_LEN + num lens MAX_CODE_LEN = 2 ^ MAX_CODE_LEN"
  shows "\<exists>h'. build lens complete h = (Inr (), h')"
proof -
  have g: "length lens \<le> MAX_SYMBOLS" "\<forall>l \<in> set lens. l \<le> MAX_CODE_LEN" "\<forall>l \<le> MAX_CODE_LEN. first_code lens l + num lens l \<le> 2 ^ l"
    using assms(1) by (simp_all add: good_lens_def)
  obtain counts where cl: "count_lens lens (replicate (MAX_CODE_LEN + 1) 0) = (True, counts)"
    using count_lens_all [OF g(2), of "replicate (MAX_CODE_LEN + 1) 0"] by (cases "count_lens lens (replicate (MAX_CODE_LEN + 1) 0)") simp
  have c: "length counts = MAX_CODE_LEN + 1" "\<forall>l \<le> MAX_CODE_LEN. counts ! l = count_list lens l"
    using count_lens_ok [OF cl] by (auto simp: nth_Cons')
  have tl: "tl counts = map (num lens) [Suc 0..<MAX_CODE_LEN + 1]"
    using c by (intro nth_equalityI) (auto simp: nth_tl num_def simp del: upt_Suc)
  have "int (first_code lens MAX_CODE_LEN + num lens MAX_CODE_LEN) = 2 ^ MAX_CODE_LEN" unfolding assms(2) by simp
  then have "kraft (tl counts) 1 = Some 0" using kraft_value [OF g(3), of 0] unfolding tl by (simp add: num_def)
  then show ?thesis using g(1) unfolding build_def cl Let_def prod.case by (simp split: prod.split)
qed

subsection \<open>Decoding\<close>

lemma entry_fields:
  assumes "s < MAX_SYMBOLS" and "l \<le> FAST_BITS" and "l \<noteq> 0"
  shows "fast_entry s l \<noteq> 0" and "fast_entry s l AND 15 = l" and "drop_bit 4 (fast_entry s l) = s"
proof -
  have "push_bit 4 s < 2 ^ 16" using assms(1) by (simp add: push_bit_eq_mult MAX_SYMBOLS_def)
  then have e: "fast_entry s l = push_bit 4 s OR l" by (simp add: fast_entry_def take_bit_nat_eq_self)
  have "take_bit 4 l = l" using assms(2) by (simp add: take_bit_nat_eq_self FAST_BITS_def)
  then have l: "bit l j \<Longrightarrow> j < 4" for j by (metis bit_take_bit_iff)
  have m: "15 = (mask 4 :: nat)" by (simp add: mask_eq_exp_minus_1)
  show a: "fast_entry s l AND 15 = l" unfolding e m
    by (rule bit_eqI) (auto simp only: bit_and_iff bit_mask_iff bit_or_iff bit_push_bit_iff dest: l)
  show "fast_entry s l \<noteq> 0"
  proof
    assume "fast_entry s l = 0"
    then show False using a assms(3) by simp
  qed
  show "drop_bit 4 (fast_entry s l) = s" unfolding e
    by (rule bit_eqI) (auto simp: bit_drop_bit_eq bit_or_iff bit_push_bit_iff dest: l)
qed

text \<open>The bits of a code read so far, as a number.\<close>

lemma code_prefix_step:
  assumes "m < lens ! s"
  shows "drop_bit (lens ! s - m) (code_of lens s) * 2 OR bits_value [code_bits lens s ! m] = drop_bit (lens ! s - Suc m) (code_of lens s)"
proof -
  have "code_bits lens s ! m = bit (code_of lens s) (lens ! s - Suc m)" using assms by (simp add: code_bits_def rev_nth)
  then have b: "bit (bits_value [code_bits lens s ! m]) j \<longleftrightarrow> j = 0 \<and> bit (code_of lens s) (lens ! s - Suc m)" for j
    by (auto simp: bit_bits_value)
  have d: "drop_bit (lens ! s - m) (code_of lens s) * 2 = push_bit 1 (drop_bit (lens ! s - m) (code_of lens s))"
    by (simp add: push_bit_eq_mult)
  have "bit (code_of lens s) (lens ! s - m + (j - 1)) = bit (code_of lens s) (lens ! s - Suc m + j)" if "1 \<le> j" for j
    using that assms by (auto intro!: arg_cong [where f = "bit _"])
  then show ?thesis unfolding d
    by (intro bit_eqI) (auto simp only: bit_or_iff bit_push_bit_iff bit_drop_bit_eq b comp_def; metis add_0_right le_zero_eq less_one not_le)
qed

lemma slow_loop_ok:
  assumes g: "good_lens lens" and t: "tables lens (length lens) h" and c: "\<forall>l \<le> MAX_CODE_LEN. hf_count h ! l = count_list lens l"
    and s: "s < length lens" "lens ! s \<noteq> 0"
  shows "m < lens ! s \<Longrightarrow> reads data br (drop m (code_bits lens s) @ rest) \<Longrightarrow>
    \<exists>br'. slow_loop h [Suc m..<MAX_CODE_LEN + 1] (drop_bit (lens ! s - m) (code_of lens s) * 2) (first_code lens (Suc m)) (first_slot lens (Suc m)) br
      = (Inr s, br') \<and> reads data br' rest"
proof (induction "lens ! s - m" arbitrary: m br)
  case (Suc k)
  have l: "lens ! s \<le> MAX_CODE_LEN" using g s by (simp add: good_lens_def)
  have u: "[Suc m..<MAX_CODE_LEN + 1] = Suc m # [Suc (Suc m)..<MAX_CODE_LEN + 1]" using Suc.prems l by (simp add: upt_conv_Cons)
  have "drop m (code_bits lens s) = [code_bits lens s ! m] @ drop (Suc m) (code_bits lens s)"
    using Suc.prems(1) by (simp add: Cons_nth_drop_Suc)
  then obtain br1 where r: "read_bits 1 br = (Inr (bits_value [code_bits lens s ! m]), br1)" "reads data br1 (drop (Suc m) (code_bits lens s) @ rest)"
    using read_bits_reads [of data br "[code_bits lens s ! m]"] Suc.prems(2) by auto
  let ?c = "drop_bit (lens ! s - Suc m) (code_of lens s)" and ?n = "num lens (Suc m)"
  have cnt: "hf_count h ! Suc m = ?n" using c Suc.prems(1) l by (simp add: num_def)
  have next_code: "(first_code lens (Suc m) + ?n) * 2 = first_code lens (Suc (Suc m))" "first_slot lens (Suc m) + ?n = first_slot lens (Suc (Suc m))"
    by (simp_all add: first_slot_def)
  show ?case
  proof (cases "Suc m = lens ! s")
    case True
    have less: "code_of lens s < first_code lens (lens ! s) + num lens (lens ! s)" using code_less(1) [OF g s] .
    have i: "int (first_slot lens (lens ! s)) + (int (code_of lens s) - int (first_code lens (lens ! s))) = int (canon_slot lens s)"
      by (simp add: canon_slot_def code_of_def)
    have "canon_slot lens s < length (hf_symbols h)" "hf_symbols h ! canon_slot lens s = s"
      using slot_less [OF s] first_slot_le [of lens "Suc (lens ! s)"] g t s by (auto simp: good_lens_def tables_def)
    then show ?thesis using r less True unfolding u slow_loop.simps r(1) bindr_Inr Let_def code_prefix_step [OF Suc.prems(1)] cnt
      by (simp add: i)
  next
    case False
    then have m: "Suc m < lens ! s" using Suc.prems(1) by simp
    have "2 ^ (lens ! s - Suc m) * (first_code lens (Suc m) + ?n) \<le> code_of lens s"
      using first_code_grows [OF m, of lens] by (simp add: code_of_def)
    then have ge: "first_code lens (Suc m) + ?n \<le> ?c"
      by (simp add: drop_bit_eq_div less_eq_div_iff_mult_less_eq mult.commute)
    have "\<exists>br'. slow_loop h [Suc (Suc m)..<MAX_CODE_LEN + 1] (?c * 2) (first_code lens (Suc (Suc m))) (first_slot lens (Suc (Suc m))) br1 = (Inr s, br') \<and> reads data br' rest"
      using Suc.hyps(1) [OF _ m r(2)] Suc.hyps(2) by simp
    moreover have "\<not> int ?c - int ?n < int (first_code lens (Suc m))" using ge by linarith
    ultimately show ?thesis
      unfolding u slow_loop.simps r(1) bindr_Inr Let_def code_prefix_step [OF Suc.prems(1)] cnt next_code by simp
  qed
qed simp

lemma decode_ok:
  assumes g: "good_lens lens" and t: "tables lens (length lens) h" and c: "\<forall>l \<le> MAX_CODE_LEN. hf_count h ! l = count_list lens l"
    and s: "s < length lens" "lens ! s \<noteq> 0" and r: "reads data br (code_bits lens s @ rest)"
  shows "\<exists>br'. decode h br = (Inr s, br') \<and> reads data br' rest"
proof -
  let ?l = "lens ! s"
  have l: "?l \<le> MAX_CODE_LEN" using g s by (simp add: good_lens_def)
  define br1 where "br1 = refill br"
  have r1: "reads data br1 (code_bits lens s @ rest)" and n: "?l \<le> br_cnt br1"
    using reads_refill [OF r] l by (auto simp: br1_def MAX_CODE_LEN_def)
  define i where "i = br_buf br1 AND FAST_MASK"
  have i: "i = take_bit 10 (br_buf br1)" by (simp add: i_def FAST_MASK_def FAST_SIZE_def take_bit_eq_mask mask_eq_exp_minus_1)
  have "i < 2 ^ 10" unfolding i by (rule take_bit_nat_less_exp)
  then have i1: "i < FAST_SIZE" by (simp add: FAST_SIZE_def)
  have ib: "nat_bits m i = take m (code_bits lens s)" if "m \<le> ?l" "m \<le> 10" for m
    using readsD(7) [OF r1] that n by (intro nth_equalityI) (auto simp: i bit_take_bit_iff nth_append)
  show ?thesis
  proof (cases "?l \<le> FAST_BITS")
    case True
    have "short_match lens s i" using ib [of ?l] True s(2) by (simp add: short_match_def FAST_BITS_def)
    then have e: "hf_fast h ! i = fast_entry s ?l" using t i1 s(1) by (simp add: tables_def)
    have "s < MAX_SYMBOLS" using g s(1) by (simp add: good_lens_def)
    note f = entry_fields [OF this True s(2)]
    have "decode h br = (Inr s, br1\<lparr>br_buf := drop_bit ?l (br_buf br1), br_cnt := br_cnt br1 - ?l\<rparr>)"
      unfolding decode_def Let_def br1_def [symmetric] i_def [symmetric] e f(2,3) using f(1) n by simp
    then show ?thesis using reads_skip [OF r1 n] by auto
  next
    case False
    have "hf_fast h ! i = 0"
    proof (rule ccontr)
      assume "hf_fast h ! i \<noteq> 0"
      then obtain u where u: "u < length lens" "short_match lens u i" using t i1 by (auto simp: tables_def)
      then have "lens ! u \<le> ?l" "lens ! u \<le> 10" "lens ! u \<noteq> 0" using False by (auto simp: short_match_def FAST_BITS_def)
      then have "u = s" using prefix_free [OF g u(1) s(1), OF \<open>lens ! u \<noteq> 0\<close>] ib [of "lens ! u"] u(2) by (simp add: short_match_def)
      then show False using u(2) False by (simp add: short_match_def)
    qed
    then have "decode h br = decode_slow h br1"
      unfolding decode_def Let_def br1_def [symmetric] i_def [symmetric] by simp
    moreover have "drop_bit ?l (code_of lens s) = 0" using code_less(2) [OF g s] by (simp add: drop_bit_eq_div)
    ultimately show ?thesis
      using slow_loop_ok [OF g t c s, of 0 data br1 rest] r1 s(2)
      by (simp add: decode_slow_def first_slot_def num_def)
  qed
qed

text \<open>
  C39: Canonical Huffman decoding is correct: whatever code lengths the builder accepts, decoding the
  canonical code of a symbol, followed by any bits, returns that symbol and leaves the reader after
  the code; the table of short codes and the search for long ones agree.
\<close>

theorem huffman_decodes:
  assumes "build lens complete h = (Inr (), h')" and "length (hf_symbols h) = MAX_SYMBOLS"
    and "s < length lens" and "lens ! s \<noteq> 0" and "reads data br (code_bits lens s @ rest)"
  shows "\<exists>br'. decode h' br = (Inr s, br') \<and> reads data br' rest"
  using decode_ok [OF build_ok [OF assms(1,2)] assms(3-5)] .

theorem huffman_decodes_witness:
  "\<exists>h' br'. build [1, 2, 2] True huffman_new = (Inr (), h') \<and> decode h' (bits_of [3]) = (Inr 2, br') \<and> reads [3] br' (replicate 6 False)"
proof -
  let ?lens = "[1, 2, 2] :: nat list"
  have n: "num ?lens l = (if l = 1 then 1 else if l = 2 then 2 else 0)" for l by (auto simp: num_def)
  note ns = n [simplified]
  have f: "first_code ?lens 1 = 0" "first_code ?lens 2 = 2" using first_code.simps(2) [of ?lens 0] first_code.simps(2) [of ?lens 1]
    by (simp_all add: num_def numeral_2_eq_2)
  have f3: "first_code ?lens 3 = 8" using first_code.simps(2) [of ?lens 2] f(2) by (simp add: ns)
  have l: "first_code ?lens l = 2 ^ l" if "3 \<le> l" for l
    using that
  proof (induction l)
    case (Suc l)
    then show ?case using f3 by (cases "l = 2") (auto simp: ns)
  qed simp
  have "first_code ?lens l + num ?lens l \<le> 2 ^ l" for l
  proof -
    consider "l = 0" | "l = 1" | "l = 2" | "3 \<le> l" by linarith
    then show ?thesis by cases (simp_all add: ns f [simplified] l [simplified])
  qed
  then have "good_lens ?lens" by (simp add: good_lens_def MAX_SYMBOLS_def MAX_CODE_LEN_def)
  moreover have "first_code ?lens MAX_CODE_LEN + num ?lens MAX_CODE_LEN = 2 ^ MAX_CODE_LEN" using l [of MAX_CODE_LEN] by (simp add: ns MAX_CODE_LEN_def)
  ultimately obtain h' where b: "build ?lens True huffman_new = (Inr (), h')" using build_complete by blast
  have "code_of ?lens 2 = 3" using f(2) by (simp add: code_of_def rank_def numeral_2_eq_2)
  moreover have two: "nat_bits 2 3 = [True, True]" by (simp add: nat_bits_def upt_rec bit_iff_odd)
  ultimately have "code_bits ?lens 2 = [True, True]" unfolding code_bits_def by simp
  moreover have "nat_bits 6 0 = replicate 6 False" by (rule nth_equalityI) simp_all
  then have "stream [3] = [True, True] @ replicate 6 False" using nat_bits_split [of 2 6 3] two by simp
  ultimately have "reads [3] (bits_of [3]) (code_bits ?lens 2 @ replicate 6 False)" using reads_start [of "[3]"] by simp
  then show ?thesis using huffman_decodes [OF b, of 2 "[3]" "bits_of [3]" "replicate 6 False"] b
    by (auto simp: huffman_new_def MAX_SYMBOLS_def)
qed

end
