(* ===== verification/Inflate.thy ===== *)
theory Inflate
  imports Huffman
begin

text \<open>
  The decoder of DEFLATE and zlib streams, \<^verbatim>\<open>format/inflate\<close>: the checksum of \<^verbatim>\<open>checksums.rs\<close> and the
  resumable decoder of \<^verbatim>\<open>inflater.rs\<close>.  An output slice of the source is a list of its length, returned
  updated with the number of bytes written.
\<close>

subsection \<open>Adler-32\<close>

record adler =
  ad_a :: nat
  ad_b :: nat

definition adler_new :: adler where
  "adler_new = \<lparr>ad_a = 1, ad_b = 0\<rparr>"

fun adler_bytes :: "bytes \<Rightarrow> nat \<Rightarrow> nat \<Rightarrow> nat \<times> nat" where
  "adler_bytes [] a b = (a, b)"
| "adler_bytes (x # xs) a b = (let a = u32_add a (unat x) in adler_bytes xs a (u32_add b a))"

function adler_update :: "bytes \<Rightarrow> adler \<Rightarrow> adler" where
  "adler_update data ad =
     (if data = [] then ad
      else let (a, b) = adler_bytes (take 5552 data) (ad_a ad) (ad_b ad)
           in adler_update (drop 5552 data) \<lparr>ad_a = a mod 65521, ad_b = b mod 65521\<rparr>)"
  by auto
termination by (relation "measure (\<lambda>(data, ad). length data)") auto

declare adler_update.simps [simp del]

definition adler_finish :: "adler \<Rightarrow> nat" where
  "adler_finish ad = take_bit 32 (push_bit 16 (ad_b ad)) OR ad_a ad"

definition adler32 :: "bytes \<Rightarrow> nat" where
  "adler32 data = adler_finish (adler_update data adler_new)"

text \<open>\<open>u32::to_be_bytes\<close>.\<close>

definition be_bytes32 :: "nat \<Rightarrow> bytes" where
  "be_bytes32 v = rev (le_bytes 4 v)"

subsection \<open>The decoder\<close>

definition LEN_BASE :: "nat list" where
  "LEN_BASE = [3, 4, 5, 6, 7, 8, 9, 10, 11, 13, 15, 17, 19, 23, 27, 31, 35, 43, 51, 59, 67, 83, 99, 115, 131, 163, 195, 227, 258]"

definition LEN_EXTRA :: "nat list" where
  "LEN_EXTRA = [0, 0, 0, 0, 0, 0, 0, 0, 1, 1, 1, 1, 2, 2, 2, 2, 3, 3, 3, 3, 4, 4, 4, 4, 5, 5, 5, 5, 0]"

definition DIST_BASE :: "nat list" where
  "DIST_BASE = [1, 2, 3, 4, 5, 7, 9, 13, 17, 25, 33, 49, 65, 97, 129, 193, 257, 385, 513, 769, 1025, 1537, 2049, 3073, 4097,
     6145, 8193, 12289, 16385, 24577]"

definition DIST_EXTRA :: "nat list" where
  "DIST_EXTRA = [0, 0, 0, 0, 1, 1, 2, 2, 3, 3, 4, 4, 5, 5, 6, 6, 7, 7, 8, 8, 9, 9, 10, 10, 11, 11, 12, 12, 13, 13]"

definition CL_ORDER :: "nat list" where
  "CL_ORDER = [16, 17, 18, 0, 8, 7, 9, 6, 10, 5, 11, 4, 12, 3, 13, 2, 14, 1, 15]"

definition WINDOW :: nat where "WINDOW = 32768"

datatype istate = SHeader | SStored nat | SCodes | SDone | SFailed inflate_error

datatype itable = TNone | TFixed | TDynamic

record inflater =
  i_br :: bits
  i_state :: istate
  i_table :: itable
  i_last :: bool
  i_zlib :: bool
  i_adler :: adler
  i_lit :: huffman
  i_dist :: huffman
  i_window :: bytes
  i_wpos :: nat
  i_produced :: nat
  i_limit :: nat
  i_pend_len :: nat
  i_pend_dist :: nat

definition new_inner :: "bytes \<Rightarrow> nat \<Rightarrow> bool \<Rightarrow> inflater" where
  "new_inner data max_output zlib =
     \<lparr>i_br = bits_of data, i_state = SHeader, i_table = TNone, i_last = False, i_zlib = zlib, i_adler = adler_new,
      i_lit = huffman_new, i_dist = huffman_new, i_window = replicate WINDOW 0, i_wpos = 0, i_produced = 0, i_limit = max_output,
      i_pend_len = 0, i_pend_dist = 0\<rparr>"

definition new_zlib :: "bytes \<Rightarrow> nat \<Rightarrow> inflate_error + inflater" where
  "new_zlib data max_output =
     (case data of
        cmf # flg # _ \<Rightarrow>
          if cmf AND 0x0F \<noteq> 8 \<or> 7 < drop_bit 4 cmf then Inl BadZlibHeader
          else if (unat cmf * 256 + unat flg) mod 31 \<noteq> 0 then Inl BadZlibHeader
          else if flg AND 0x20 \<noteq> 0 then Inl DictionaryUnsupported
          else let s = new_inner data max_output True in Inr (s\<lparr>i_br := (i_br s)\<lparr>br_pos := 2\<rparr>\<rparr>)
      | _ \<Rightarrow> Inl Truncated)"

text \<open>A step of the bit reader, and the building of a table, inside the decoder.\<close>

definition with_br :: "(bits \<Rightarrow> (bits, inflate_error, 'a) res) \<Rightarrow> inflater \<Rightarrow> (inflater, inflate_error, 'a) res" where
  "with_br f s = (case f (i_br s) of (r, br) \<Rightarrow> (r, s\<lparr>i_br := br\<rparr>))"

definition build_lit :: "nat list \<Rightarrow> bool \<Rightarrow> inflater \<Rightarrow> (inflater, inflate_error, unit) res" where
  "build_lit lens complete s = (case build lens complete (i_lit s) of (r, h) \<Rightarrow> (r, s\<lparr>i_lit := h\<rparr>))"

definition build_dist :: "nat list \<Rightarrow> bool \<Rightarrow> inflater \<Rightarrow> (inflater, inflate_error, unit) res" where
  "build_dist lens complete s = (case build lens complete (i_dist s) of (r, h) \<Rightarrow> (r, s\<lparr>i_dist := h\<rparr>))"

definition fixed_lens :: "nat list" where
  "fixed_lens = replicate 144 8 @ replicate 112 9 @ replicate 24 7 @ replicate 8 8"

definition fixed_dist_lens :: "nat list" where
  "fixed_dist_lens = replicate 32 5"

fun read_cl_lens :: "nat list \<Rightarrow> nat list \<Rightarrow> inflater \<Rightarrow> (inflater, inflate_error, nat list) res" where
  "read_cl_lens [] cl_lens s = (Inr cl_lens, s)"
| "read_cl_lens (idx # order) cl_lens s =
     bindr (with_br (read_bits 3) s) (\<lambda>v s. read_cl_lens order (cl_lens[idx := v]) s)"

text \<open>The value a code-length symbol repeats and how often.\<close>

definition repeat_of :: "nat \<Rightarrow> nat \<Rightarrow> nat list \<Rightarrow> inflater \<Rightarrow> (inflater, inflate_error, nat \<times> nat) res" where
  "repeat_of symb i lens s =
     (if symb \<le> 15 then (Inr (symb, 1), s)
      else if symb = 16
      then (if i = 0 then (Inl BadCodeLengths, s)
            else bindr (with_br (read_bits 2) s) (\<lambda>v s. (Inr (lens ! (i - 1), 3 + v), s)))
      else if symb = 17 then bindr (with_br (read_bits 3) s) (\<lambda>v s. (Inr (0, 3 + v), s))
      else bindr (with_br (read_bits 7) s) (\<lambda>v s. (Inr (0, 11 + v), s)))"

lemma repeat_of_pos: "repeat_of symb i lens s = (Inr (v, rep), s') \<Longrightarrow> 0 < rep"
  by (auto simp: repeat_of_def bindr_Inr_iff split: if_splits)

lemma read_repeat_pos: "(Inr (v, rep), s') = bindr r (\<lambda>symb s. repeat_of symb i lens s) \<Longrightarrow> 0 < rep"
  using bindr_Inr_iff [of r "\<lambda>symb s. repeat_of symb i lens s" "(v, rep)" s'] by (metis repeat_of_pos)

function read_lens :: "huffman \<Rightarrow> nat \<Rightarrow> nat \<Rightarrow> nat list \<Rightarrow> inflater \<Rightarrow> (inflater, inflate_error, nat list) res" where
  "read_lens cl count i lens s =
     (if \<not> i < count then (Inr lens, s)
      else
        (case bindr (with_br (decode cl) s) (\<lambda>symb s. repeat_of symb i lens s) of
           (Inl e, s) \<Rightarrow> (Inl e, s)
         | (Inr (v, rep), s) \<Rightarrow>
             if count < i + rep then (Inl BadCodeLengths, s)
             else read_lens cl count (i + rep) (put_slice i (replicate rep v) lens) s))"
  by pat_completeness auto
termination
  by (relation "measure (\<lambda>(cl, count, i, lens, s). count - i)") (auto dest: read_repeat_pos)

declare read_lens.simps [simp del]

definition read_dynamic :: "inflater \<Rightarrow> (inflater, inflate_error, unit) res" where
  "read_dynamic s =
     bindr (with_br (read_bits 5) s) (\<lambda>a s.
     bindr (with_br (read_bits 5) s) (\<lambda>b s.
     bindr (with_br (read_bits 4) s) (\<lambda>c s.
       let hlit = a + 257; hdist = b + 1; hclen = c + 4 in
       if 286 < hlit \<or> 30 < hdist then (Inl BadCodeLengths, s)
       else
         bindr (read_cl_lens (take hclen CL_ORDER) (replicate 19 0) s) (\<lambda>cl_lens s.
         (case build cl_lens True huffman_new of
            (Inl e, _) \<Rightarrow> (Inl e, s)
          | (Inr _, cl) \<Rightarrow>
              bindr (read_lens cl (hlit + hdist) 0 (replicate 316 0) s) (\<lambda>lens s.
                if lens ! 256 = 0 then (Inl MissingEndOfBlock, s)
                else
                  bindr (build_lit (take hlit lens) False s) (\<lambda>_ s.
                  build_dist (get_slice hlit hdist lens) False s)))))))"

definition start_block :: "inflater \<Rightarrow> (inflater, inflate_error, unit) res" where
  "start_block s =
     bindr (with_br (read_bits 3) s) (\<lambda>h s.
       let s = s\<lparr>i_last := (h AND 1 \<noteq> 0)\<rparr>; kind = drop_bit 1 h in
       if kind = 0
       then
         let d = br_cnt (i_br s) mod 8;
             s = s\<lparr>i_br := (i_br s)\<lparr>br_buf := drop_bit d (br_buf (i_br s)), br_cnt := br_cnt (i_br s) - d\<rparr>\<rparr>
         in bindr (with_br (read_bits 16) s) (\<lambda>len s.
            bindr (with_br (read_bits 16) s) (\<lambda>nlen s.
              if len \<noteq> (u32_max - nlen) AND 65535 then (Inl StoredLenMismatch, s)
              else (Inr (), s\<lparr>i_br := align_and_unread (i_br s), i_state := SStored len\<rparr>)))
       else if kind = 1
       then
         bindr (if i_table s \<noteq> TFixed
                then bindr (build_lit fixed_lens True s) (\<lambda>_ s.
                     bindr (build_dist fixed_dist_lens False s) (\<lambda>_ s. (Inr (), s\<lparr>i_table := TFixed\<rparr>)))
                else (Inr (), s)) (\<lambda>_ s.
           (Inr (), s\<lparr>i_state := SCodes\<rparr>))
       else if kind = 2
       then bindr (read_dynamic s) (\<lambda>_ s. (Inr (), s\<lparr>i_table := TDynamic, i_state := SCodes\<rparr>))
       else (Inl BadBlockType, s))"

definition end_block :: "bytes \<Rightarrow> nat \<Rightarrow> nat \<Rightarrow> inflater \<Rightarrow> (inflater \<times> nat, inflate_error, unit) res" where
  "end_block out n hashed s =
     (if \<not> i_last s then (Inr (), s\<lparr>i_state := SHeader\<rparr>, hashed)
      else
        let s = s\<lparr>i_br := align_and_unread (i_br s)\<rparr> in
        if i_zlib s
        then
          let s = s\<lparr>i_adler := adler_update (get_slice hashed (n - hashed) out) (i_adler s)\<rparr>;
              br = i_br s in
          if length (br_data br) < br_pos br + 4 then (Inl Truncated, s, n)
          else if get_slice (br_pos br) 4 (br_data br) \<noteq> be_bytes32 (adler_finish (i_adler s)) then (Inl ChecksumMismatch, s, n)
          else (Inr (), s\<lparr>i_br := br\<lparr>br_pos := br_pos br + 4\<rparr>, i_state := SDone\<rparr>, n)
        else (Inr (), s\<lparr>i_state := SDone\<rparr>, hashed))"

text \<open>\<open>wrapping_sub\<close> masked to the window.\<close>

definition behind :: "nat \<Rightarrow> nat \<Rightarrow> nat" where
  "behind w dist = (w + 2 ^ 64 - dist) mod 2 ^ 64 mod WINDOW"

fun copy_bytes :: "nat \<Rightarrow> nat \<Rightarrow> nat \<Rightarrow> bytes \<Rightarrow> nat \<Rightarrow> bytes \<Rightarrow> nat \<times> bytes \<times> bytes" where
  "copy_bytes 0 dist w window n out = (w, window, out)"
| "copy_bytes (Suc k) dist w window n out =
     (let b = window ! behind w dist
      in copy_bytes k dist ((w + 1) mod WINDOW) (window[w mod WINDOW := b]) (n + 1) (out[n := b]))"

definition copy_match :: "nat \<Rightarrow> nat \<Rightarrow> bytes \<Rightarrow> inflater \<Rightarrow> inflater \<times> bytes" where
  "copy_match k n out s =
     (let dist = i_pend_dist s; src = behind (i_wpos s) dist in
      if k \<le> dist \<and> src + k \<le> WINDOW \<and> i_wpos s + k \<le> WINDOW
      then let dst = i_wpos s; window = put_slice dst (get_slice src k (i_window s)) (i_window s)
           in (s\<lparr>i_window := window, i_wpos := (dst + k) mod WINDOW\<rparr>, put_slice n (get_slice dst k window) out)
      else let (w, window, out) = copy_bytes k dist (i_wpos s) (i_window s) n out
           in (s\<lparr>i_window := window, i_wpos := w\<rparr>, out))"

lemma length_copy_bytes: "copy_bytes k dist w window n out = (w', window', out') \<Longrightarrow> length out' = length out"
  by (induction k arbitrary: w window n out) (auto simp: Let_def)

lemma length_copy_match: "copy_match k n out s = (s', out') \<Longrightarrow> n + k \<le> length out \<Longrightarrow> length out' = length out"
  by (auto simp: copy_match_def Let_def dest: length_copy_bytes split: if_splits prod.splits)

text \<open>Reading a length and a distance after a length symbol.\<close>

definition read_match :: "nat \<Rightarrow> inflater \<Rightarrow> (inflater, inflate_error, unit) res" where
  "read_match symb s =
     (let li = symb - 257 in
      if \<not> li < length LEN_BASE then (Inl InvalidSymbol, s)
      else
        bindr (with_br (read_bits (LEN_EXTRA ! li)) s) (\<lambda>x s.
        bindr (with_br (decode (i_dist s)) s) (\<lambda>ds s.
          if \<not> ds < length DIST_BASE then (Inl InvalidSymbol, s)
          else
            bindr (with_br (read_bits (DIST_EXTRA ! ds)) s) (\<lambda>y s.
              let len = LEN_BASE ! li + x; dist = DIST_BASE ! ds + y in
              if i_produced s < dist \<or> WINDOW < dist then (Inl InvalidDistance, s)
              else (Inr (), s\<lparr>i_pend_len := len, i_pend_dist := dist\<rparr>)))))"

lemma LEN_BASE_pos: "li < length LEN_BASE \<Longrightarrow> 0 < LEN_BASE ! li"
proof -
  have "\<forall>x \<in> set LEN_BASE. 0 < x" by (simp add: LEN_BASE_def)
  then show "li < length LEN_BASE \<Longrightarrow> 0 < LEN_BASE ! li" using nth_mem by blast
qed

lemma read_match_pend: "read_match symb s = (Inr (), s') \<Longrightarrow> 0 < i_pend_len s'"
  using LEN_BASE_pos [of "symb - 257"] by (auto simp: read_match_def Let_def bindr_Inr_iff split: if_splits)

function decode_codes :: "inflater \<Rightarrow> bytes \<Rightarrow> nat \<Rightarrow> (inflate_error + bool) \<times> inflater \<times> bytes \<times> nat" where
  "decode_codes s out n =
     (if \<not> n < length out then (Inr False, s, out, n)
      else if 0 < i_pend_len s
      then
        let room = i_limit s - i_produced s in
        if room = 0 then (Inl OutputLimit, s, out, n)
        else
          let k = min (min (i_pend_len s) (length out - n)) room;
              (s', out') = copy_match k n out s
          in decode_codes (s'\<lparr>i_produced := i_produced s + k, i_pend_len := i_pend_len s - k\<rparr>) out' (n + k)
      else
        (case with_br (decode (i_lit s)) s of
           (Inl e, s) \<Rightarrow> (Inl e, s, out, n)
         | (Inr symb, s) \<Rightarrow>
             if symb < 256
             then
               if i_limit s \<le> i_produced s then (Inl OutputLimit, s, out, n)
               else decode_codes (s\<lparr>i_window := (i_window s)[i_wpos s mod WINDOW := word_of_nat symb], i_wpos := (i_wpos s + 1) mod WINDOW,
                      i_produced := i_produced s + 1\<rparr>) (out[n := word_of_nat symb]) (n + 1)
             else if symb = 256 then (Inr True, s, out, n)
             else
               (case read_match symb s of
                  (Inl e, s) \<Rightarrow> (Inl e, s, out, n)
                | (Inr _, s) \<Rightarrow> decode_codes s out n)))"
  by pat_completeness auto
termination
  apply (relation "measure (\<lambda>(s, out, n). 2 * (length out - n) + (if i_pend_len s = 0 then 1 else 0))")
  apply simp
  subgoal premises prems for s out n room k p s' out'
  proof -
    have k: "0 < k" "n + k \<le> length out" using prems(1-5) by (auto simp: min_def split: if_splits)
    have "length out' = length out" using length_copy_match [of k n out s s' out'] prems(6,7) k(2) by simp
    then show ?thesis using k by auto
  qed
  subgoal by (auto simp: with_br_def split: prod.splits)
  subgoal by (auto dest: read_match_pend [OF sym])
  done

declare decode_codes.simps [simp del]

subsection \<open>What each part consumes\<close>

lemma bits_left_drop: "bits_left (br\<lparr>br_buf := b, br_cnt := br_cnt br - l\<rparr>) \<le> bits_left br"
  by (simp add: bits_left_def)

lemma read_bits_left_le: "bits_left (snd (read_bits n br)) \<le> bits_left br"
  using bits_left_drop [where br = "refill br" and l = n] bits_left_drop [where br = br and l = n] by (simp add: read_bits_def Let_def)

lemma slow_loop_left: "bits_left (snd (slow_loop h lens code first index br)) \<le> bits_left br"
proof (induction lens arbitrary: code first index br)
  case (Cons len lens)
  obtain r br1 where r: "read_bits 1 br = (r, br1)" by fastforce
  then have "bits_left br1 \<le> bits_left br" using read_bits_left_le [of 1 br] by simp
  then show ?case unfolding slow_loop.simps r Let_def
    by (cases r) (auto intro: order_trans [OF Cons.IH])
qed simp

lemma decode_left: "bits_left (snd (decode h br)) \<le> bits_left br"
  using bits_left_drop [where br = "refill br"] slow_loop_left [of h "[1..<MAX_CODE_LEN + 1]" 0 0 0 "refill br"]
  by (simp add: decode_def Let_def decode_slow_def)

definition left_of :: "inflater \<Rightarrow> nat" where
  "left_of s = bits_left (i_br s)"

text \<open>The parts of the decoder that only the reading of symbols changes.\<close>

definition same_frame :: "inflater \<Rightarrow> inflater \<Rightarrow> bool" where
  "same_frame s s' \<longleftrightarrow> left_of s' \<le> left_of s \<and> i_limit s' = i_limit s \<and> i_zlib s' = i_zlib s \<and> i_produced s' = i_produced s \<and>
     i_state s' = i_state s"

lemma same_frame_refl [simp]: "same_frame s s"
  by (simp add: same_frame_def)

lemma same_frame_trans: "same_frame s t \<Longrightarrow> same_frame t u \<Longrightarrow> same_frame s u"
  by (auto simp: same_frame_def)

lemma with_br_frame:
  assumes "\<And>br. bits_left (snd (f br)) \<le> bits_left br"
  shows "same_frame s (snd (with_br f s))"
  using assms [of "i_br s"] by (auto simp: with_br_def same_frame_def left_of_def split: prod.splits)

lemma frame_bindr:
  assumes "same_frame s (snd r)" and "\<And>x t. same_frame s t \<Longrightarrow> same_frame s (snd (f x t))"
  shows "same_frame s (snd (bindr r f))"
  using assms by (cases r; cases "fst r") auto

lemma frame_read_bits: "same_frame s t \<Longrightarrow> same_frame s (snd (with_br (read_bits n) t))"
  using with_br_frame [of "read_bits n" t, OF read_bits_left_le] same_frame_trans by blast

lemma frame_decode: "same_frame s t \<Longrightarrow> same_frame s (snd (with_br (decode h) t))"
  using with_br_frame [of "decode h" t, OF decode_left] same_frame_trans by blast

lemma frame_build: "same_frame s t \<Longrightarrow> same_frame s (snd (build_lit lens c t))" "same_frame s t \<Longrightarrow> same_frame s (snd (build_dist lens c t))"
  by (auto simp: build_lit_def build_dist_def same_frame_def left_of_def split: prod.splits)

lemma frame_cl_lens: "same_frame s t \<Longrightarrow> same_frame s (snd (read_cl_lens order cl_lens t))"
proof (induction order arbitrary: cl_lens t)
  case (Cons idx order)
  show ?case unfolding read_cl_lens.simps by (rule frame_bindr [OF frame_read_bits [OF Cons.prems]]) (rule Cons.IH)
qed simp

lemma frame_repeat: "same_frame s t \<Longrightarrow> same_frame s (snd (repeat_of symb i lens t))"
  unfolding repeat_of_def by (auto intro!: frame_bindr frame_read_bits)

lemma frame_read_lens: "same_frame s t \<Longrightarrow> same_frame s (snd (read_lens cl count i lens t))"
proof (induction cl count i lens t rule: read_lens.induct)
  case (1 cl count i lens t)
  let ?r = "bindr (with_br (decode cl) t) (\<lambda>symb s. repeat_of symb i lens s)"
  have f: "same_frame s (snd ?r)" by (rule frame_bindr [OF frame_decode [OF 1(2)]]) (rule frame_repeat)
  show ?case using 1 f by (subst read_lens.simps) (auto split: prod.splits sum.splits)
qed

lemma frame_read_match: "same_frame s (snd (read_match symb s))"
proof -
  have pend: "same_frame s (t\<lparr>i_pend_len := a, i_pend_dist := b\<rparr>)" if "same_frame s t" for t a b
    using that by (simp add: same_frame_def left_of_def)
  show ?thesis unfolding read_match_def Let_def
    by (auto intro!: frame_bindr frame_read_bits frame_decode pend)
qed

lemma frame_read_dynamic: "same_frame s t \<Longrightarrow> same_frame s (snd (read_dynamic t))"
  unfolding read_dynamic_def Let_def
  by (auto intro!: frame_bindr frame_read_bits frame_cl_lens frame_read_lens frame_build split: prod.splits sum.splits if_splits)

text \<open>The same without the state of the decoder.\<close>

definition rest_frame :: "inflater \<Rightarrow> inflater \<Rightarrow> bool" where
  "rest_frame s s' \<longleftrightarrow> left_of s' \<le> left_of s \<and> i_limit s' = i_limit s \<and> i_zlib s' = i_zlib s \<and> i_produced s' = i_produced s"

lemma rest_frame_upd [simp]:
  "rest_frame s (t\<lparr>i_last := a\<rparr>) \<longleftrightarrow> rest_frame s t" "rest_frame s (t\<lparr>i_table := b\<rparr>) \<longleftrightarrow> rest_frame s t"
  "rest_frame s (t\<lparr>i_state := c\<rparr>) \<longleftrightarrow> rest_frame s t" "rest_frame s (t\<lparr>i_adler := d\<rparr>) \<longleftrightarrow> rest_frame s t"
  by (simp_all add: rest_frame_def left_of_def)

lemma rest_frame_br: "rest_frame s t \<Longrightarrow> bits_left br \<le> bits_left (i_br t) \<Longrightarrow> rest_frame s (t\<lparr>i_br := br\<rparr>)"
  by (simp add: rest_frame_def left_of_def)

lemma rest_frame_trans: "rest_frame s t \<Longrightarrow> same_frame t u \<Longrightarrow> rest_frame s u"
  by (simp add: rest_frame_def same_frame_def)

lemmas rest_frame_steps = rest_frame_trans [OF _ frame_read_bits [OF same_frame_refl]] rest_frame_trans [OF _ frame_build(1) [OF same_frame_refl]]
  rest_frame_trans [OF _ frame_build(2) [OF same_frame_refl]] rest_frame_trans [OF _ frame_read_dynamic [OF same_frame_refl]]

lemma rest_bindr:
  assumes "rest_frame s (snd r)" and "\<And>x t. rest_frame s t \<Longrightarrow> rest_frame s (snd (f x t))"
  shows "rest_frame s (snd (bindr r f))"
  using assms by (cases r; cases "fst r") auto

lemma start_block_frame: "rest_frame s (snd (start_block s))"
proof -
  have refl: "rest_frame s s" by (simp add: rest_frame_def)
  show ?thesis unfolding start_block_def Let_def
    by (auto intro!: rest_bindr rest_frame_steps rest_frame_br refl bits_left_drop align_left)
qed

lemma start_block_left:
  assumes "start_block s = (Inr x, s')"
  shows "left_of s' < left_of s \<and> i_limit s' = i_limit s \<and> i_zlib s' = i_zlib s \<and> i_produced s' = i_produced s"
proof -
  obtain h s1 where r: "with_br (read_bits 3) s = (Inr h, s1)"
    using assms by (auto simp: start_block_def bindr_Inr_iff)
  then obtain br where br: "read_bits 3 (i_br s) = (Inr h, br)" "s1 = s\<lparr>i_br := br\<rparr>"
    by (auto simp: with_br_def split: prod.splits)
  have l: "left_of s1 < left_of s" using read_bits_left [OF br(1)] br(2) by (simp add: left_of_def)
  have refl: "rest_frame s1 s1" by (simp add: rest_frame_def)
  have "rest_frame s1 (snd (start_block s))"
    unfolding start_block_def r bindr_Inr Let_def
    by (auto intro!: rest_bindr rest_frame_steps rest_frame_br refl bits_left_drop align_left)
  then show ?thesis using assms l br(2) by (simp add: rest_frame_def)
qed

lemma end_block_frame:
  assumes "end_block out n hashed s = (r, s', hashed')"
  shows "rest_frame s s' \<and> (r = Inr () \<longrightarrow> i_state s' = SHeader \<or> i_state s' = SDone)"
proof -
  have a: "rest_frame s (s\<lparr>i_br := align_and_unread (i_br s)\<rparr>)" by (rule rest_frame_br) (simp_all add: rest_frame_def align_left)
  have p: "bits_left (br\<lparr>br_pos := br_pos br + 4\<rparr>) \<le> bits_left br" for br by (simp add: bits_left_def)
  show ?thesis using assms a rest_frame_br [OF a p]
    by (auto simp: end_block_def Let_def rest_frame_def left_of_def split: if_splits)
qed

lemma copy_match_frame: "copy_match k n out s = (s', out') \<Longrightarrow> left_of s' = left_of s \<and> i_limit s' = i_limit s \<and> i_zlib s' = i_zlib s \<and>
    i_state s' = i_state s"
  by (auto simp: copy_match_def Let_def left_of_def split: if_splits prod.splits)

text \<open>The cases of one round of the loop.\<close>

lemma decode_codes_full: "\<not> n < length out \<Longrightarrow> decode_codes s out n = (Inr False, s, out, n)"
  by (subst decode_codes.simps) simp

lemma decode_codes_copy:
  assumes "n < length out" and "0 < i_pend_len s"
  shows "decode_codes s out n =
    (if i_limit s - i_produced s = 0 then (Inl OutputLimit, s, out, n)
     else let k = min (min (i_pend_len s) (length out - n)) (i_limit s - i_produced s); (s', out') = copy_match k n out s
          in decode_codes (s'\<lparr>i_produced := i_produced s + k, i_pend_len := i_pend_len s - k\<rparr>) out' (n + k))"
  using assms by (subst decode_codes.simps) (simp add: Let_def)

lemma decode_codes_symbol:
  assumes "n < length out" and "i_pend_len s = 0" and "with_br (decode (i_lit s)) s = (r, t)"
  shows "decode_codes s out n =
    (case r of Inl e \<Rightarrow> (Inl e, t, out, n)
     | Inr symb \<Rightarrow>
         if symb < 256
         then if i_limit t \<le> i_produced t then (Inl OutputLimit, t, out, n)
              else decode_codes (t\<lparr>i_window := (i_window t)[i_wpos t mod WINDOW := word_of_nat symb], i_wpos := (i_wpos t + 1) mod WINDOW,
                      i_produced := i_produced t + 1\<rparr>) (out[n := word_of_nat symb]) (n + 1)
         else if symb = 256 then (Inr True, t, out, n)
         else case read_match symb t of (Inl e, u) \<Rightarrow> (Inl e, u, out, n) | (Inr _, u) \<Rightarrow> decode_codes u out n)"
  using assms by (subst decode_codes.simps) (simp split: sum.split)

definition codes_left :: "inflater \<Rightarrow> bytes \<Rightarrow> nat \<Rightarrow> nat" where
  "codes_left s out n = 2 * (length out - n) + (if i_pend_len s = 0 then 1 else 0)"

lemma decode_codes_frame:
  assumes "decode_codes s out n = (r, s', out', n')" and "n \<le> length out"
  shows "left_of s' \<le> left_of s \<and> i_limit s' = i_limit s \<and> i_zlib s' = i_zlib s \<and> i_state s' = i_state s \<and>
    length out' = length out \<and> n \<le> n' \<and> n' \<le> length out \<and> i_produced s' + n = i_produced s + n' \<and>
    (n' = n \<or> i_produced s' \<le> i_limit s') \<and> (r = Inr False \<longrightarrow> n' = length out)"
  using assms
proof (induction "codes_left s out n" arbitrary: s out n rule: less_induct)
  case less
  consider (full) "\<not> n < length out" | (copy) "n < length out" "0 < i_pend_len s" | (symbol) "n < length out" "i_pend_len s = 0" by blast
  then show ?case
  proof cases
    case full
    then show ?thesis using less.prems by (auto simp: decode_codes_full)
  next
    case copy
    let ?room = "i_limit s - i_produced s"
    define k where "k = min (min (i_pend_len s) (length out - n)) ?room"
    obtain s1 out1 where c: "copy_match k n out s = (s1, out1)" by fastforce
    let ?t = "s1\<lparr>i_produced := i_produced s + k, i_pend_len := i_pend_len s - k\<rparr>"
    show ?thesis
    proof (cases "?room = 0")
      case False
      then have k: "0 < k" "n + k \<le> length out" "i_produced s + k \<le> i_limit s" using copy by (simp_all add: k_def)
      have l: "length out1 = length out" using length_copy_match [OF c k(2)] .
      have d: "decode_codes ?t out1 (n + k) = (r, s', out', n')"
        using less.prems(1) False c by (simp add: decode_codes_copy [OF copy] k_def [symmetric] Let_def)
      have "codes_left ?t out1 (n + k) < codes_left s out n" using k l copy by (auto simp: codes_left_def)
      from less.hyps [OF this d] show ?thesis using k l copy_match_frame [OF c] by (auto simp: left_of_def)
    qed (use less.prems in \<open>auto simp: decode_codes_copy [OF copy]\<close>)
  next
    case symbol
    obtain x t where w: "with_br (decode (i_lit s)) s = (x, t)" by fastforce
    have f: "same_frame s t" using frame_decode [OF same_frame_refl, of s "i_lit s"] w by simp
    have pl: "i_pend_len t = 0" using w symbol by (auto simp: with_br_def split: prod.splits)
    note eq = less.prems(1) [unfolded decode_codes_symbol [OF symbol w]]
    consider (err) e where "x = Inl e" | (lit) symb where "x = Inr symb" "symb < 256" | (eob) "x = Inr 256"
      | (mat) symb where "x = Inr symb" "256 < symb" by (cases x) force+
    then show ?thesis
    proof cases
      case err
      then show ?thesis using eq f less.prems(2) by (auto simp: same_frame_def)
    next
      case lit
      let ?u = "t\<lparr>i_window := (i_window t)[i_wpos t mod WINDOW := word_of_nat symb], i_wpos := (i_wpos t + 1) mod WINDOW, i_produced := i_produced t + 1\<rparr>"
      show ?thesis
      proof (cases "i_limit t \<le> i_produced t")
        case False
        then have d: "decode_codes ?u (out[n := word_of_nat symb]) (n + 1) = (r, s', out', n')" using eq lit by simp
        have "codes_left ?u (out[n := word_of_nat symb]) (n + 1) < codes_left s out n" using symbol pl by (simp add: codes_left_def)
        from less.hyps [OF this d] show ?thesis using f False symbol by (auto simp: same_frame_def left_of_def)
      qed (use eq lit f less.prems(2) in \<open>auto simp: same_frame_def\<close>)
    next
      case eob
      then show ?thesis using eq f less.prems(2) by (auto simp: same_frame_def)
    next
      case mat
      obtain y u where m: "read_match symb t = (y, u)" by fastforce
      have f2: "same_frame s u" using frame_read_match [of t symb] m f same_frame_trans by fastforce
      show ?thesis
      proof (cases y)
        case (Inr z)
        then have d: "decode_codes u out n = (r, s', out', n')" using eq mat m by simp
        have "codes_left u out n < codes_left s out n" using symbol read_match_pend [of symb t u] m Inr by (simp add: codes_left_def)
        from less.hyps [OF this d less.prems(2)] show ?thesis using f2 by (auto simp: same_frame_def)
      qed (use eq mat m f2 less.prems(2) in \<open>auto simp: same_frame_def\<close>)
    qed
  qed
qed

subsection \<open>The loop over blocks\<close>

fun store_window :: "bytes \<Rightarrow> nat \<Rightarrow> bytes \<Rightarrow> nat \<times> bytes" where
  "store_window [] w window = (w, window)"
| "store_window (b # bs) w window = store_window bs ((w + 1) mod WINDOW) (window[w mod WINDOW := b])"

definition copy_stored :: "bytes \<Rightarrow> nat \<Rightarrow> inflater \<Rightarrow> inflater" where
  "copy_stored src remaining s =
     (let (w, window) = store_window src (i_wpos s) (i_window s)
      in s\<lparr>i_window := window, i_wpos := w, i_br := (i_br s)\<lparr>br_pos := br_pos (i_br s) + length src\<rparr>,
           i_produced := i_produced s + length src, i_state := SStored (remaining - length src)\<rparr>)"

definition state_rank :: "istate \<Rightarrow> nat" where
  "state_rank st = (case st of SStored _ \<Rightarrow> 1 | SCodes \<Rightarrow> 1 | _ \<Rightarrow> 0)"

lemma copy_stored_left:
  assumes "src = take k (drop (br_pos (i_br s)) (br_data (i_br s)))" and "src \<noteq> []"
  shows "left_of (copy_stored src r s) < left_of s"
proof -
  have "br_pos (i_br s) < length (br_data (i_br s))" "0 < length src" using assms by auto
  moreover have "length src \<le> length (br_data (i_br s)) - br_pos (i_br s)" using assms(1) by simp
  ultimately have "length (br_data (i_br s)) - (br_pos (i_br s) + length src) < length (br_data (i_br s)) - br_pos (i_br s)" by linarith
  then show ?thesis by (auto simp: copy_stored_def Let_def left_of_def bits_left_def split: prod.splits)
qed

lemma end_block_rank:
  assumes "(Inr u, s', h) = end_block out n hashed s"
  shows "left_of s' \<le> left_of s \<and> state_rank (i_state s') = 0"
  using end_block_frame [OF assms [symmetric]] by (auto simp: rest_frame_def state_rank_def)

lemma decode_codes_step:
  assumes "(r, s', out', n') = decode_codes s out n" and "n < length out"
  shows "left_of s' \<le> left_of s \<and> state_rank (i_state s') = state_rank (i_state s) \<and> length out' = length out \<and> (r = Inr False \<longrightarrow> n' = length out)"
  using decode_codes_frame [OF assms(1) [symmetric]] assms(2) by auto

text \<open>The end of the output is tested as \<open>\<not> n < length out\<close>: \<open>n\<close> never passes it.\<close>

function read_inner :: "inflater \<Rightarrow> bytes \<Rightarrow> nat \<Rightarrow> nat \<Rightarrow> (inflate_error + unit) \<times> inflater \<times> bytes \<times> nat \<times> nat" where
  "read_inner s out hashed n =
     (if \<not> n < length out then (Inr (), s, out, hashed, n)
      else
        case i_state s of
          SFailed e \<Rightarrow> (Inl e, s, out, hashed, n)
        | SDone \<Rightarrow> (Inr (), s, out, hashed, n)
        | SHeader \<Rightarrow>
            (case start_block s of
               (Inl e, s) \<Rightarrow> (Inl e, s, out, hashed, n)
             | (Inr _, s) \<Rightarrow> read_inner s out hashed n)
        | SStored remaining \<Rightarrow>
            if remaining = 0
            then (case end_block out n hashed s of
                    (Inl e, s, hashed) \<Rightarrow> (Inl e, s, out, hashed, n)
                  | (Inr _, s, hashed) \<Rightarrow> read_inner s out hashed n)
            else
              let k = min (min remaining (length out - n)) (i_limit s - i_produced s) in
              if k = 0 then (Inl OutputLimit, s, out, hashed, n)
              else
                let src = take k (drop (br_pos (i_br s)) (br_data (i_br s))) in
                if src = [] then (Inl Truncated, s, out, hashed, n)
                else read_inner (copy_stored src remaining s) (put_slice n src out) hashed (n + length src)
        | SCodes \<Rightarrow>
            (case decode_codes s out n of
               (Inl e, s, out, n) \<Rightarrow> (Inl e, s, out, hashed, n)
             | (Inr eob, s, out, n) \<Rightarrow>
                 if eob
                 then (case end_block out n hashed s of
                         (Inl e, s, hashed) \<Rightarrow> (Inl e, s, out, hashed, n)
                       | (Inr _, s, hashed) \<Rightarrow> read_inner s out hashed n)
                 else read_inner s out hashed n))"
  by pat_completeness auto

termination
  apply (relation "measures [\<lambda>(s, out, hashed, n). left_of s, \<lambda>(s, out, hashed, n). state_rank (i_state s), \<lambda>(s, out, hashed, n). length out - n]")
  subgoal by simp
  subgoal by (auto dest: start_block_left [OF sym])
  subgoal by (auto dest!: end_block_rank simp: state_rank_def)
  subgoal by (auto simp: copy_stored_left)
  subgoal by (auto dest!: end_block_rank decode_codes_step simp: state_rank_def)
  subgoal by (auto dest!: decode_codes_step simp: state_rank_def)
  done

declare read_inner.simps [simp del]

text \<open>The cases of one round of the loop, and induction on its rounds.\<close>

lemma read_inner_full: "\<not> n < length out \<Longrightarrow> read_inner s out hashed n = (Inr (), s, out, hashed, n)"
  by (subst read_inner.simps) simp

lemma read_inner_end:
  assumes "n < length out"
  shows "i_state s = SDone \<Longrightarrow> read_inner s out hashed n = (Inr (), s, out, hashed, n)"
    and "i_state s = SFailed e \<Longrightarrow> read_inner s out hashed n = (Inl e, s, out, hashed, n)"
  using assms by (subst read_inner.simps; simp)+

lemma read_inner_header:
  assumes "n < length out" and "i_state s = SHeader"
  shows "read_inner s out hashed n =
    (case start_block s of (Inl e, t) \<Rightarrow> (Inl e, t, out, hashed, n) | (Inr _, t) \<Rightarrow> read_inner t out hashed n)"
  using assms by (subst read_inner.simps) simp

text \<open>After a block.\<close>

definition block_done :: "inflater \<Rightarrow> bytes \<Rightarrow> nat \<Rightarrow> nat \<Rightarrow> (inflate_error + unit) \<times> inflater \<times> bytes \<times> nat \<times> nat" where
  "block_done s out hashed n =
     (case end_block out n hashed s of (Inl e, s, hashed) \<Rightarrow> (Inl e, s, out, hashed, n) | (Inr _, s, hashed) \<Rightarrow> read_inner s out hashed n)"

lemma read_inner_stored:
  assumes "n < length out" and "i_state s = SStored remaining"
  shows "read_inner s out hashed n =
    (if remaining = 0 then block_done s out hashed n
     else
       let k = min (min remaining (length out - n)) (i_limit s - i_produced s); src = take k (drop (br_pos (i_br s)) (br_data (i_br s))) in
       if k = 0 then (Inl OutputLimit, s, out, hashed, n)
       else if src = [] then (Inl Truncated, s, out, hashed, n)
       else read_inner (copy_stored src remaining s) (put_slice n src out) hashed (n + length src))"
  by (subst read_inner.simps) (simp only: assms istate.case Let_def block_done_def not_True_eq_False if_False)

lemma read_inner_codes:
  assumes "n < length out" and "i_state s = SCodes"
  shows "read_inner s out hashed n =
    (case decode_codes s out n of
       (Inl e, t, out, n) \<Rightarrow> (Inl e, t, out, hashed, n)
     | (Inr eob, t, out, n) \<Rightarrow> if eob then block_done t out hashed n else read_inner t out hashed n)"
  by (subst read_inner.simps) (simp only: assms istate.case block_done_def not_True_eq_False if_False)

definition smaller :: "inflater \<times> bytes \<times> nat \<Rightarrow> inflater \<times> bytes \<times> nat \<Rightarrow> bool" where
  "smaller = (\<lambda>(s', out', n') (s, out, n). left_of s' < left_of s \<or> left_of s' = left_of s \<and>
     (state_rank (i_state s') < state_rank (i_state s) \<or>
      state_rank (i_state s') = state_rank (i_state s) \<and> length out' - n' < length out - n))"

lemma rounds_induct:
  assumes "\<And>s out hashed n. (\<And>s' out' hashed' n'. smaller (s', out', n') (s, out, n) \<Longrightarrow> P s' out' hashed' n') \<Longrightarrow> P s out hashed n"
  shows "P s out hashed n"
proof (induction "(left_of s, state_rank (i_state s), length out - n)" arbitrary: s out hashed n
    rule: wf_induct_rule [OF wf_lex_prod [OF wf_less_than wf_lex_prod [OF wf_less_than wf_less_than]]])
  case 1
  show ?case by (rule assms) (rule 1, auto simp: smaller_def)
qed

definition advances :: "inflater \<Rightarrow> bytes \<Rightarrow> nat \<Rightarrow> inflater \<times> bytes \<times> nat \<times> nat \<Rightarrow> bool" where
  "advances s out n = (\<lambda>(s', out', hashed', n').
     i_limit s' = i_limit s \<and> i_zlib s' = i_zlib s \<and> length out' = length out \<and> n \<le> n' \<and> n' \<le> length out \<and>
     i_produced s' + n = i_produced s + n' \<and> (n' = n \<or> i_produced s' \<le> i_limit s'))"

lemma advances_trans:
  assumes "advances s out n (s1, out1, h1, n1)" and "advances s1 out1 n1 (s2, out2, h2, n2)"
  shows "advances s out n (s2, out2, h2, n2)"
  using assms by (auto simp: advances_def)

lemma read_inner_advances: "n \<le> length out \<Longrightarrow> advances s out n (snd (read_inner s out hashed n))"
proof (induction s out hashed n rule: rounds_induct)
  case (1 s out hashed n)
  have refl: "advances s out n (s, out, h, n)" for h using 1(2) by (simp add: advances_def)
  have rest: "advances s out n (t, out, h, n)" if "rest_frame s t" for t h using that 1(2) by (simp add: advances_def rest_frame_def)
  have block: "advances t o1 m (snd (block_done t o1 h m))"
    if t: "left_of t \<le> left_of s" "state_rank (i_state s) = 1" "m \<le> length o1" for t o1 h m
  proof -
    obtain x u h' where e: "end_block o1 m h t = (x, u, h')" by (metis prod_cases3)
    have f: "advances t o1 m (u, o1, h', m)" using end_block_frame [OF e] t(3) by (simp add: advances_def rest_frame_def)
    show ?thesis
    proof (cases x)
      case (Inr y)
      then have "smaller (u, o1, m) (s, out, n)"
        using end_block_rank [of y u h' o1 m h t] e t by (auto simp: smaller_def)
      from 1(1) [OF this t(3), of h'] show ?thesis using advances_trans [OF f] Inr e
        by (cases "read_inner u o1 h' m") (auto simp: block_done_def)
    qed (use f e in \<open>simp add: block_done_def\<close>)
  qed
  show ?case
  proof (cases "n < length out")
    case True
    show ?thesis
    proof (cases "i_state s")
      case SHeader
      obtain x t where b: "start_block s = (x, t)" by fastforce
      have f: "advances s out n (t, out, hashed, n)" using rest start_block_frame [of s] b by simp
      show ?thesis
      proof (cases x)
        case (Inr y)
        then have "smaller (t, out, n) (s, out, n)" using start_block_left [of s y t] b by (simp add: smaller_def)
        from 1(1) [OF this 1(2), of hashed] show ?thesis using advances_trans [OF f] Inr b SHeader True
          by (cases "read_inner t out hashed n") (auto simp: read_inner_header)
      qed (use f b SHeader True in \<open>simp add: read_inner_header\<close>)
    next
      case (SStored remaining)
      define k where "k = min (min remaining (length out - n)) (i_limit s - i_produced s)"
      define src where "src = take k (drop (br_pos (i_br s)) (br_data (i_br s)))"
      have eq: "read_inner s out hashed n = (if remaining = 0 then block_done s out hashed n else if k = 0 then (Inl OutputLimit, s, out, hashed, n)
          else if src = [] then (Inl Truncated, s, out, hashed, n)
          else read_inner (copy_stored src remaining s) (put_slice n src out) hashed (n + length src))"
        unfolding read_inner_stored [OF True SStored] Let_def k_def [symmetric] src_def [symmetric] ..
      show ?thesis
      proof (cases "remaining = 0 \<or> k = 0 \<or> src = []")
        case True
        then show ?thesis using block [of s n out hashed] refl 1(2) SStored eq by (auto simp: state_rank_def)
      next
        case False
        have l: "length src \<le> k" "n + k \<le> length out" "i_produced s + k \<le> i_limit s" "k \<noteq> 0" using False True by (auto simp: src_def k_def)
        then have f: "advances s out n (copy_stored src remaining s, put_slice n src out, hashed, n + length src)"
          by (auto simp: advances_def copy_stored_def Let_def split: prod.splits)
        have "smaller (copy_stored src remaining s, put_slice n src out, n + length src) (s, out, n)"
          using copy_stored_left [OF src_def] False by (simp add: smaller_def)
        from 1(1) [OF this, of hashed] show ?thesis using advances_trans [OF f] False l eq
          by (cases "read_inner (copy_stored src remaining s) (put_slice n src out) hashed (n + length src)") auto
      qed
    next
      case SCodes
      obtain x t out1 n1 where d: "decode_codes s out n = (x, t, out1, n1)" by (metis prod_cases4)
      note c = decode_codes_frame [OF d 1(2)]
      have f: "advances s out n (t, out1, h, n1)" for h using c by (auto simp: advances_def)
      have n1: "n1 \<le> length out1" using c by simp
      show ?thesis
      proof (cases "x = Inr False")
        case False
        have "advances t out1 n1 (snd (block_done t out1 hashed n1))" using block [of t n1 out1 hashed] c SCodes by (simp add: state_rank_def)
        then show ?thesis using advances_trans [OF f] f d False True SCodes
          by (cases x; cases "block_done t out1 hashed n1") (auto simp: read_inner_codes)
      next
        case eob: True
        then have "smaller (t, out1, n1) (s, out, n)" using c True by (auto simp: smaller_def)
        from 1(1) [OF this n1, of hashed] show ?thesis using advances_trans [OF f] eob d True SCodes
          by (cases "read_inner t out1 hashed n1") (auto simp: read_inner_codes)
      qed
    qed (use refl True in \<open>simp_all add: read_inner_end\<close>)
  qed (use refl in \<open>simp add: read_inner_full\<close>)
qed

subsection \<open>Whole streams\<close>

definition read_partial :: "bytes \<Rightarrow> inflater \<Rightarrow> nat \<times> inflate_error option \<times> inflater \<times> bytes" where
  "read_partial out s =
     (let (r, s, out, hashed, n) = read_inner s out 0 0;
          s = (if i_zlib s then s\<lparr>i_adler := adler_update (get_slice hashed (n - hashed) out) (i_adler s)\<rparr> else s)
      in case r of
           Inr _ \<Rightarrow> (n, None, s, out)
         | Inl e \<Rightarrow> (n, Some e, s\<lparr>i_state := SFailed e\<rparr>, out))"

definition inflater_read :: "bytes \<Rightarrow> inflater \<Rightarrow> (inflate_error + nat) \<times> inflater \<times> bytes" where
  "inflater_read out s =
     (case read_partial out s of
        (n, None, s, out) \<Rightarrow> (Inr n, s, out)
      | (_, Some e, s, out) \<Rightarrow> (Inl e, s, out))"

lemma read_partial_advances:
  assumes "read_partial out s = (n, e, s', out')"
  shows "i_limit s' = i_limit s \<and> length out' = length out \<and> n \<le> length out \<and> i_produced s' = i_produced s + n \<and>
    (n = 0 \<or> i_produced s' \<le> i_limit s')"
  using read_inner_advances [of 0 out s 0] assms
  by (cases "read_inner s out 0 0") (auto simp: read_partial_def Let_def advances_def split: sum.splits if_splits)

text \<open>
  \<open>mem n\<close> says whether the allocator can grow the output to \<open>n\<close> bytes.  The source resizes the vector
  with zeros, reads into the new part and truncates it to what was read.
\<close>

function read_all_partial :: "(nat \<Rightarrow> bool) \<Rightarrow> inflater \<Rightarrow> bytes \<Rightarrow> bytes \<times> inflate_error option \<times> inflater" where
  "read_all_partial mem s out =
     (let room = i_limit s - i_produced s; want = max (min room (max (length out) 4096)) 1 in
      if \<not> mem (length out + want) then (out, Some OutOfMemory, s)
      else
        case read_partial (replicate want 0) s of
          (got, err, s, buf) \<Rightarrow>
            if err \<noteq> None \<or> got = 0 then (out @ take got buf, err, s)
            else read_all_partial mem s (out @ take got buf))"
  by pat_completeness auto
termination
  by (relation "measure (\<lambda>(mem, s, out). i_limit s - i_produced s)") (auto dest!: read_partial_advances [OF sym] intro!: diff_less_mono2)

declare read_all_partial.simps [simp del]

definition read_all :: "(nat \<Rightarrow> bool) \<Rightarrow> inflater \<Rightarrow> inflate_error + bytes" where
  "read_all mem s = (case read_all_partial mem s [] of (out, None, _) \<Rightarrow> Inr out | (_, Some e, _) \<Rightarrow> Inl e)"

definition inflate :: "(nat \<Rightarrow> bool) \<Rightarrow> bytes \<Rightarrow> nat \<Rightarrow> inflate_error + bytes" where
  "inflate mem data max_output = read_all mem (new_inner data max_output False)"

definition inflate_partial :: "(nat \<Rightarrow> bool) \<Rightarrow> bytes \<Rightarrow> nat \<Rightarrow> bytes \<times> inflate_error option" where
  "inflate_partial mem data max_output = (case read_all_partial mem (new_inner data max_output False) [] of (out, e, _) \<Rightarrow> (out, e))"

definition zlib_partial :: "(nat \<Rightarrow> bool) \<Rightarrow> bytes \<Rightarrow> nat \<Rightarrow> inflate_error + bytes \<times> inflate_error option" where
  "zlib_partial mem data max_output =
     (case new_zlib data max_output of
        Inl e \<Rightarrow> Inl e
      | Inr s \<Rightarrow> (case read_all_partial mem s [] of (out, e, _) \<Rightarrow> Inr (out, e)))"

definition inflate_consumed_partial :: "(nat \<Rightarrow> bool) \<Rightarrow> bytes \<Rightarrow> nat \<Rightarrow> bytes \<times> inflate_error option \<times> nat" where
  "inflate_consumed_partial mem data max_output =
     (case read_all_partial mem (new_inner data max_output False) [] of (out, e, s) \<Rightarrow> (out, e, br_consumed (i_br s)))"

definition inflate_consumed :: "(nat \<Rightarrow> bool) \<Rightarrow> bytes \<Rightarrow> nat \<Rightarrow> inflate_error + bytes \<times> nat" where
  "inflate_consumed mem data max_output =
     (case read_all_partial mem (new_inner data max_output False) [] of
        (out, None, s) \<Rightarrow> Inr (out, br_consumed (i_br s))
      | (_, Some e, _) \<Rightarrow> Inl e)"

definition zlib_decompress :: "(nat \<Rightarrow> bool) \<Rightarrow> bytes \<Rightarrow> nat \<Rightarrow> inflate_error + bytes" where
  "zlib_decompress mem data max_output =
     (case new_zlib data max_output of Inl e \<Rightarrow> Inl e | Inr s \<Rightarrow> read_all mem s)"

lemma read_all_partial_bound:
  assumes "i_produced s \<le> i_limit s" and "length out = i_produced s"
  shows "length (fst (read_all_partial mem s out)) \<le> i_limit s"
  using assms
proof (induction mem s out rule: read_all_partial.induct)
  case (1 mem s out)
  let ?want = "max (min (i_limit s - i_produced s) (max (length out) 4096)) 1"
  obtain n e s' buf where r: "read_partial (replicate ?want 0) s = (n, e, s', buf)" by (metis prod_cases4)
  note a = read_partial_advances [OF r]
  show ?case
  proof (cases "mem (length out + ?want)")
    case True
    show ?thesis
    proof (cases "e \<noteq> None \<or> n = 0")
      case stop: True
      then have "read_all_partial mem s out = (out @ take n buf, e, s')"
        using True r by (subst read_all_partial.simps) (simp add: Let_def)
      then show ?thesis using a 1(2,3) by auto
    next
      case False
      then have "read_all_partial mem s out = read_all_partial mem s' (out @ take n buf)"
        using True r by (subst read_all_partial.simps) (simp add: Let_def)
      moreover have "length (fst (read_all_partial mem s' (out @ take n buf))) \<le> i_limit s'"
        by (rule 1(1) [OF refl refl _ r [symmetric] refl refl]) (use True False a 1(3) in auto)
      ultimately show ?thesis using a by simp
    qed
  qed (use 1(2,3) in \<open>subst read_all_partial.simps, simp add: Let_def\<close>)
qed

text \<open>
  C40: The output limit holds on every input: whatever the bytes, decoding ends and never delivers
  more than the bytes asked for, on success or with the part decoded before an error.
\<close>

theorem inflate_bounded:
  "length (fst (inflate_partial mem data max_output)) \<le> max_output \<and>
   (case zlib_partial mem data max_output of Inl e \<Rightarrow> True | Inr (out, e) \<Rightarrow> length out \<le> max_output)"
proof -
  have "length (fst (inflate_partial mem data max_output)) \<le> max_output"
    using read_all_partial_bound [of "new_inner data max_output False" "[]" mem]
    by (auto simp: inflate_partial_def new_inner_def split: prod.splits)
  moreover have "length (fst (read_all_partial mem s [])) \<le> max_output" if "new_zlib data max_output = Inr s" for s
  proof -
    have "i_limit s = max_output" "i_produced s = 0"
      using that by (auto simp: new_zlib_def new_inner_def Let_def split: list.splits if_splits)
    then show ?thesis using read_all_partial_bound [of s "[]" mem] by simp
  qed
  ultimately show ?thesis
    by (cases "new_zlib data max_output") (auto simp: zlib_partial_def split: prod.splits)
qed

end
