(* ===== verification/Deflate.thy ===== *)
theory Deflate
  imports Inflate Heap
begin

text \<open>
  The DEFLATE and zlib encoder, \<^verbatim>\<open>format/deflate.rs\<close>: stored blocks, and greedy matching over hash
  chains with the fixed Huffman code.  What the encoder writes is a sequence of tokens.
\<close>

definition MAX_CHAIN :: nat where "MAX_CHAIN = 24"
definition DEFLATE_WINDOW :: nat where "DEFLATE_WINDOW = 32768"
definition HASH_BITS :: nat where "HASH_BITS = 15"
definition HASH_SIZE :: nat where "HASH_SIZE = 32768"
definition MIN_MATCH :: nat where "MIN_MATCH = 3"
definition MAX_MATCH :: nat where "MAX_MATCH = 258"

definition fixed_lit :: "nat \<Rightarrow> nat \<times> nat" where
  "fixed_lit s =
     (let (code, len) =
            (if s < 144 then (0x30 + s, 8)
             else if s < 256 then (0x190 + (s - 144), 9)
             else if s < 280 then (s - 256, 7)
             else (0xC0 + (s - 280), 8))
      in (rev_code code len, len))"

fun len_symbol :: "nat \<Rightarrow> nat \<Rightarrow> nat" where
  "len_symbol l 0 = 0"
| "len_symbol l (Suc s) = (if l < LEN_BASE ! Suc s then len_symbol l s else Suc s)"

definition len_sym :: "nat \<Rightarrow> nat" where
  "len_sym l = len_symbol l 28"

definition leading_zeros32 :: "nat \<Rightarrow> nat" where
  "leading_zeros32 d = 32 - bit_length d"

definition dist_code :: "nat \<Rightarrow> nat \<times> nat \<times> nat" where
  "dist_code dist =
     (let d = dist - 1 in
      if d < 4 then (d, 0, 0)
      else
        let nb = 32 - leading_zeros32 d; extra = nb - 2; symb = 2 * (nb - 1) + (drop_bit extra d AND 1)
        in (symb, extra, d AND (2 ^ extra - 1)))"

definition put_lit :: "nat \<Rightarrow> bit_writer \<Rightarrow> bit_writer" where
  "put_lit symb w = (let (code, len) = fixed_lit symb in put code len w)"

function chunks :: "nat \<Rightarrow> 'a list \<Rightarrow> 'a list list" where
  "chunks k xs = (if xs = [] \<or> k = 0 then [] else take k xs # chunks k (drop k xs))"
  by auto
termination by (relation "measure (\<lambda>(k, xs). length xs)") auto

declare chunks.simps [simp del]

fun stored_blocks :: "bytes list \<Rightarrow> bytes" where
  "stored_blocks [] = []"
| "stored_blocks (c # cs) =
     [if cs = [] then 1 else 0] @ le_bytes 2 (length c) @ le_bytes 2 (65535 - length c) @ c @ stored_blocks cs"

definition deflate_stored :: "bytes \<Rightarrow> bytes" where
  "deflate_stored data = (if data = [] then [1, 0, 0, 0xFF, 0xFF] else stored_blocks (chunks 65535 data))"

definition hash3 :: "bytes \<Rightarrow> nat \<Rightarrow> nat" where
  "hash3 d i =
     (let v = unat (d ! i) OR push_bit 8 (unat (d ! (i + 1))) OR push_bit 16 (unat (d ! (i + 2)))
      in drop_bit (32 - HASH_BITS) (v * 0x9E3779B1 mod 2 ^ 32))"

definition insert_pos :: "bytes \<Rightarrow> nat \<Rightarrow> nat list \<times> nat list \<Rightarrow> nat list \<times> nat list" where
  "insert_pos data p = (\<lambda>(heads, prevs).
     if p + MIN_MATCH \<le> length data
     then let h = hash3 data p in (heads[h := u32_add (as_u32 p) 1], prevs[p mod DEFLATE_WINDOW := heads ! h])
     else (heads, prevs))"

function match_len :: "bytes \<Rightarrow> nat \<Rightarrow> nat \<Rightarrow> nat \<Rightarrow> nat \<Rightarrow> nat" where
  "match_len data c i max_len l =
     (if l < max_len \<and> data ! (c + l) = data ! (i + l) then match_len data c i max_len (l + 1) else l)"
  by auto
termination by (relation "measure (\<lambda>(data, c, i, max_len, l). max_len - l)") auto

declare match_len.simps [simp del]

text \<open>One candidate: the best match after it, and whether it ends the search.\<close>

definition try_match :: "bytes \<Rightarrow> nat \<Rightarrow> nat \<Rightarrow> nat \<Rightarrow> nat \<times> nat \<Rightarrow> (nat \<times> nat) \<times> bool" where
  "try_match data c i max_len = (\<lambda>(best_len, best_dist).
     if best_len = 0 \<or> data ! (c + min best_len (max_len - 1)) = data ! (i + min best_len (max_len - 1))
     then let l = match_len data c i max_len 0
          in if best_len < l then ((l, i - c), l = max_len) else ((best_len, best_dist), False)
     else ((best_len, best_dist), False))"

fun search :: "bytes \<Rightarrow> nat list \<Rightarrow> nat \<Rightarrow> nat \<Rightarrow> nat \<Rightarrow> nat \<Rightarrow> nat \<times> nat \<Rightarrow> nat \<times> nat" where
  "search data prevs i max_len 0 cand best = best"
| "search data prevs i max_len (Suc chain) cand best =
     (if cand = 0 then best
      else
        let c = cand - 1 in
        if i \<le> c \<or> DEFLATE_WINDOW < i - c then best
        else
          let (best, stop) = try_match data c i max_len best; nxt = prevs ! (c mod DEFLATE_WINDOW)
          in if stop then best
             else if nxt \<noteq> 0 \<and> c < nxt then best
             else search data prevs i max_len chain nxt best)"

definition find_match :: "bytes \<Rightarrow> nat list \<Rightarrow> nat list \<Rightarrow> nat \<Rightarrow> nat \<times> nat" where
  "find_match data heads prevs i =
     (if i + MIN_MATCH \<le> length data
      then search data prevs i (min MAX_MATCH (length data - i)) MAX_CHAIN (heads ! hash3 data i) (0, 0)
      else (0, 0))"

definition put_match :: "nat \<Rightarrow> nat \<Rightarrow> bit_writer \<Rightarrow> bit_writer" where
  "put_match len dist w =
     (let ls = len_sym len;
          w = put_lit (257 + ls) w;
          w = put (len - LEN_BASE ! ls) (LEN_EXTRA ! ls) w;
          (ds, eb, ev) = dist_code dist;
          w = put (rev_code ds 5) 5 w
      in put ev eb w)"

function lz_loop :: "bytes \<Rightarrow> nat \<Rightarrow> nat list \<times> nat list \<Rightarrow> bit_writer \<Rightarrow> bit_writer" where
  "lz_loop data i tabs w =
     (if \<not> i < length data then w
      else
        let (best_len, best_dist) = find_match data (fst tabs) (snd tabs) i in
        if MIN_MATCH \<le> best_len
        then lz_loop data (i + best_len) (fold (insert_pos data) [i..<i + best_len] tabs) (put_match best_len best_dist w)
        else lz_loop data (i + 1) (insert_pos data i tabs) (put_lit (unat (data ! i)) w))"
  by auto
termination by (relation "measure (\<lambda>(data, i, tabs, w). length data - i)") (auto simp: MIN_MATCH_def)

declare lz_loop.simps [simp del]

definition deflate_fixed :: "bytes \<Rightarrow> bytes" where
  "deflate_fixed data =
     (if length data < MIN_MATCH \<or> u32_max - 1 \<le> length data then deflate_stored data
      else
        let w = put 1 2 (put 1 1 writer_new);
            w = lz_loop data 0 (replicate HASH_SIZE 0, replicate DEFLATE_WINDOW 0) w;
            packed = writer_finish (put_lit 256 w);
            stored_size = length data + div_ceil (length data) 65535 * 5
        in if stored_size \<le> length packed then deflate_stored data else packed)"

definition zlib_wrap :: "bytes \<Rightarrow> bytes \<Rightarrow> bytes" where
  "zlib_wrap raw data = [0x78, 0x01] @ raw @ be_bytes32 (adler32 data)"

definition zlib_stored :: "bytes \<Rightarrow> bytes" where
  "zlib_stored data = zlib_wrap (deflate_stored data) data"

definition zlib_compress :: "bytes \<Rightarrow> bytes" where
  "zlib_compress data = zlib_wrap (deflate_fixed data) data"

subsection \<open>Tokens\<close>

datatype token = Lit u8 | Match nat nat

text \<open>The bytes a match repeats; it may overlap what it produces.\<close>

fun lz_copy :: "bytes \<Rightarrow> nat \<Rightarrow> nat \<Rightarrow> bytes" where
  "lz_copy hist dist 0 = []"
| "lz_copy hist dist (Suc k) = (let b = hist ! (length hist - dist) in b # lz_copy (hist @ [b]) dist k)"

fun expand :: "bytes \<Rightarrow> token list \<Rightarrow> bytes" where
  "expand hist [] = []"
| "expand hist (Lit b # ts) = b # expand (hist @ [b]) ts"
| "expand hist (Match len dist # ts) = lz_copy hist dist len @ expand (hist @ lz_copy hist dist len) ts"

definition match_ok :: "bytes \<Rightarrow> nat \<Rightarrow> nat \<Rightarrow> bool" where
  "match_ok hist len dist \<longleftrightarrow> MIN_MATCH \<le> len \<and> len \<le> MAX_MATCH \<and> 1 \<le> dist \<and> dist \<le> length hist \<and> dist \<le> WINDOW"

fun tokens_ok :: "bytes \<Rightarrow> token list \<Rightarrow> bool" where
  "tokens_ok hist [] \<longleftrightarrow> True"
| "tokens_ok hist (Lit b # ts) \<longleftrightarrow> tokens_ok (hist @ [b]) ts"
| "tokens_ok hist (Match len dist # ts) \<longleftrightarrow> match_ok hist len dist \<and> tokens_ok (hist @ lz_copy hist dist len) ts"

definition match_bits :: "nat \<Rightarrow> nat \<Rightarrow> bool list" where
  "match_bits len dist =
     (let ls = len_sym len; (ds, eb, ev) = dist_code dist
      in code_bits fixed_lens (257 + ls) @ nat_bits (LEN_EXTRA ! ls) (len - LEN_BASE ! ls) @ code_bits fixed_dist_lens ds @ nat_bits eb ev)"

fun token_bits :: "token \<Rightarrow> bool list" where
  "token_bits (Lit b) = code_bits fixed_lens (unat b)"
| "token_bits (Match len dist) = match_bits len dist"

lemma length_lz_copy [simp]: "length (lz_copy D dist k) = k"
  by (induction k arbitrary: D) (simp_all add: Let_def)

lemma lz_copy_add: "lz_copy D dist (j + k) = lz_copy D dist j @ lz_copy (D @ lz_copy D dist j) dist k"
  by (induction j arbitrary: D) (simp_all add: Let_def)

lemma nth_lz_copy:
  assumes "1 \<le> dist" and "dist \<le> length D" and "j < k"
  shows "lz_copy D dist k ! j = (D @ lz_copy D dist k) ! (length D - dist + j)"
  using assms
proof (induction k arbitrary: D j)
  case (Suc k)
  let ?b = "D ! (length D - dist)"
  show ?case
  proof (cases j)
    case 0
    then show ?thesis using Suc.prems by (simp add: Let_def nth_append)
  next
    case (Suc i)
    then have "lz_copy (D @ [?b]) dist k ! i = ((D @ [?b]) @ lz_copy (D @ [?b]) dist k) ! (length (D @ [?b]) - dist + i)"
      using Suc.prems by (intro Suc.IH) auto
    then show ?thesis using Suc Suc.prems by (simp add: Let_def Suc_diff_le)
  qed
qed simp

text \<open>A match found in the data repeats what follows.\<close>

lemma lz_copy_matches:
  assumes "1 \<le> dist" and "dist \<le> i" and "i + k \<le> length data" and "\<And>l. l < k \<Longrightarrow> data ! (i - dist + l) = data ! (i + l)"
  shows "lz_copy (take i data) dist k = take k (drop i data)"
  using assms
proof (induction k arbitrary: i)
  case (Suc k)
  have h: "take i data ! (length (take i data) - dist) = data ! i" using Suc.prems(4) [of 0] Suc.prems(1-3) by simp
  have "lz_copy (take (Suc i) data) dist k = take k (drop (Suc i) data)"
  proof (rule Suc.IH)
    show "data ! (Suc i - dist + l) = data ! (Suc i + l)" if "l < k" for l
      using Suc.prems(4) [of "Suc l"] Suc.prems(2) that by (simp add: Suc_diff_le)
  qed (use Suc.prems in auto)
  moreover have "take k (drop (Suc i) data) = take k (tl (drop i data))" by (simp add: drop_Suc tl_drop)
  ultimately show ?case using h Suc.prems(3)
    by (simp add: Let_def take_Suc_conv_app_nth [symmetric] take_Suc hd_drop_conv_nth)
qed simp

subsection \<open>The fixed codes\<close>

lemma count_list_replicate: "count_list (replicate k x) y = (if x = y then k else 0)"
  by (induction k) auto

lemma num_fixed: "num fixed_lens l = (if l = 7 then 24 else if l = 8 then 152 else if l = 9 then 112 else 0)"
  by (auto simp: num_def fixed_lens_def count_list_replicate)

lemma length_fixed [simp]: "length fixed_lens = 288"
  by (simp add: fixed_lens_def)

lemma nth_fixed: "s < 288 \<Longrightarrow> fixed_lens ! s = (if s < 144 then 8 else if s < 256 then 9 else if s < 280 then 7 else 8)"
  by (auto simp: fixed_lens_def nth_append)

lemma first_fixed:
  "l \<le> 7 \<Longrightarrow> first_code fixed_lens l = 0" "first_code fixed_lens 8 = 48" "first_code fixed_lens 9 = 400"
  "10 \<le> l \<Longrightarrow> first_code fixed_lens l = 2 ^ l"
proof -
  show z: "first_code fixed_lens k = 0" if "k \<le> 7" for k using that by (induction k) (auto simp: num_fixed)
  show e: "first_code fixed_lens 8 = 48" using first_code.simps(2) [of fixed_lens 7] z [of 7] by (simp add: num_fixed)
  show n: "first_code fixed_lens 9 = 400" using first_code.simps(2) [of fixed_lens 8] e by (simp add: num_fixed)
  have t: "first_code fixed_lens 10 = 1024" using first_code.simps(2) [of fixed_lens 9] n by (simp add: num_fixed)
  show "10 \<le> l \<Longrightarrow> first_code fixed_lens l = 2 ^ l"
  proof (induction l)
    case (Suc l)
    then show ?case using t by (cases "l = 9") (auto simp: num_fixed)
  qed simp
qed

lemma good_fixed: "good_lens fixed_lens"
proof -
  have "first_code fixed_lens l + num fixed_lens l \<le> 2 ^ l" for l
  proof -
    consider "l \<le> 6" | "l = 7" | "l = 8" | "l = 9" | "10 \<le> l" by linarith
    then show ?thesis by cases (simp_all add: first_fixed num_fixed)
  qed
  moreover have "\<forall>l \<in> set fixed_lens. l \<le> MAX_CODE_LEN" by (auto simp: fixed_lens_def MAX_CODE_LEN_def)
  ultimately show ?thesis by (simp add: good_lens_def MAX_SYMBOLS_def)
qed

lemma rank_fixed:
  assumes "s < 288"
  shows "rank fixed_lens s = (if s < 144 then s else if s < 256 then s - 144 else if s < 280 then s - 256 else 144 + (s - 280))"
proof -
  have t: "take s fixed_lens = replicate (min s 144) 8 @ replicate (min (s - 144) 112) 9 @ replicate (min (s - 256) 24) 7 @ replicate (min (s - 280) 8) 8"
    by (simp add: fixed_lens_def)
  show ?thesis using assms unfolding rank_def t nth_fixed [OF assms] by (simp add: count_list_replicate)
qed

lemma code_fixed:
  assumes "s < 288"
  shows "code_bits fixed_lens s = nat_bits (snd (fixed_lit s)) (fst (fixed_lit s))" and "fst (fixed_lit s) < 2 ^ snd (fixed_lit s)"
    and "snd (fixed_lit s) = fixed_lens ! s"
proof -
  define c where "c = (if s < 144 then 0x30 + s else if s < 256 then 0x190 + (s - 144) else if s < 280 then s - 256 else 0xC0 + (s - 280))"
  have f: "fixed_lit s = (rev_code c (fixed_lens ! s), fixed_lens ! s)"
    using assms by (simp add: fixed_lit_def c_def nth_fixed)
  have c: "code_of fixed_lens s = c"
    using assms by (simp add: code_of_def nth_fixed rank_fixed first_fixed c_def)
  have l: "fixed_lens ! s \<le> 32" using assms by (simp add: nth_fixed)
  show "code_bits fixed_lens s = nat_bits (snd (fixed_lit s)) (fst (fixed_lit s))" "fst (fixed_lit s) < 2 ^ snd (fixed_lit s)"
    using bits_value_less [of "rev (nat_bits (fixed_lens ! s) c)"] by (simp_all add: f rev_code_value [OF l] code_bits_def c)
  show "snd (fixed_lit s) = fixed_lens ! s" by (simp add: f)
qed

lemma num_fixed_dist: "num fixed_dist_lens l = (if l = 5 then 32 else 0)"
  by (simp add: num_def fixed_dist_lens_def count_list_replicate)

lemma first_fixed_dist: "l \<le> 5 \<Longrightarrow> first_code fixed_dist_lens l = 0" "6 \<le> l \<Longrightarrow> first_code fixed_dist_lens l = 2 ^ l"
proof -
  show z: "first_code fixed_dist_lens k = 0" if "k \<le> 5" for k using that by (induction k) (auto simp: num_fixed_dist)
  have t: "first_code fixed_dist_lens 6 = 64" using first_code.simps(2) [of fixed_dist_lens 5] z [of 5] by (simp add: num_fixed_dist)
  show "6 \<le> l \<Longrightarrow> first_code fixed_dist_lens l = 2 ^ l"
  proof (induction l)
    case (Suc l)
    then show ?case using t by (cases "l = 5") (auto simp: num_fixed_dist)
  qed simp
qed

lemma good_fixed_dist: "good_lens fixed_dist_lens"
proof -
  have "first_code fixed_dist_lens l + num fixed_dist_lens l \<le> 2 ^ l" for l
  proof -
    consider "l \<le> 4" | "l = 5" | "6 \<le> l" by linarith
    then show ?thesis by cases (simp_all add: first_fixed_dist num_fixed_dist)
  qed
  then show ?thesis by (simp add: good_lens_def MAX_SYMBOLS_def fixed_dist_lens_def MAX_CODE_LEN_def)
qed

lemma code_fixed_dist:
  assumes "s < 32"
  shows "code_bits fixed_dist_lens s = nat_bits 5 (rev_code s 5)" and "rev_code s 5 < 2 ^ 5"
proof -
  have "fixed_dist_lens ! s = 5" "take s fixed_dist_lens = replicate s 5" using assms by (simp_all add: fixed_dist_lens_def)
  then have "code_of fixed_dist_lens s = s" by (simp add: code_of_def rank_def count_list_replicate first_fixed_dist)
  then show "code_bits fixed_dist_lens s = nat_bits 5 (rev_code s 5)" "rev_code s 5 < 2 ^ 5"
    using bits_value_less [of "rev (nat_bits 5 s)"] \<open>fixed_dist_lens ! s = 5\<close> by (simp_all add: rev_code_value code_bits_def)
qed

subsection \<open>Lengths and distances\<close>

lemma len_symbol_bounds:
  assumes "3 \<le> l"
  shows "len_symbol l s \<le> s \<and> LEN_BASE ! len_symbol l s \<le> l \<and> (len_symbol l s = s \<or> l < LEN_BASE ! Suc (len_symbol l s))"
  using assms by (induction s) (auto simp: LEN_BASE_def le_Suc_eq)

lemma len_steps: "r < 28 \<Longrightarrow> LEN_BASE ! Suc r \<le> LEN_BASE ! r + 2 ^ (LEN_EXTRA ! r)"
proof -
  have "list_all (\<lambda>r. LEN_BASE ! Suc r \<le> LEN_BASE ! r + 2 ^ (LEN_EXTRA ! r)) [0..<28]"
    by (simp add: LEN_BASE_def LEN_EXTRA_def upt_rec)
  then show "r < 28 \<Longrightarrow> LEN_BASE ! Suc r \<le> LEN_BASE ! r + 2 ^ (LEN_EXTRA ! r)" by (simp add: list_all_iff)
qed

lemma len_sym_ok:
  assumes "3 \<le> l" and "l \<le> 258"
  shows "len_sym l < 29" and "LEN_BASE ! len_sym l \<le> l" and "l - LEN_BASE ! len_sym l < 2 ^ (LEN_EXTRA ! len_sym l)"
proof -
  note b = len_symbol_bounds [OF assms(1), of 28, folded len_sym_def]
  show "len_sym l < 29" "LEN_BASE ! len_sym l \<le> l" using b by auto
  show "l - LEN_BASE ! len_sym l < 2 ^ (LEN_EXTRA ! len_sym l)"
  proof (cases "len_sym l = 28")
    case True
    then show ?thesis using assms(2) b by (simp add: LEN_BASE_def LEN_EXTRA_def)
  next
    case False
    then have "len_sym l < 28" "l < LEN_BASE ! Suc (len_sym l)" using b by auto
    then show ?thesis using len_steps [of "len_sym l"] b by linarith
  qed
qed

lemma len_extra_small: "r < 29 \<Longrightarrow> LEN_EXTRA ! r \<le> 5"
proof -
  have "\<forall>x \<in> set LEN_EXTRA. x \<le> 5" "length LEN_EXTRA = 29" by (simp_all add: LEN_EXTRA_def)
  then show "r < 29 \<Longrightarrow> LEN_EXTRA ! r \<le> 5" by simp
qed

lemma dist_tables:
  assumes "2 \<le> k" and "k \<le> 14" and "b < 2"
  shows "DIST_BASE ! (2 * k + b) = 2 ^ k + b * 2 ^ (k - 1) + 1" and "DIST_EXTRA ! (2 * k + b) = k - 1"
proof -
  have "list_all (\<lambda>k. list_all (\<lambda>b. DIST_BASE ! (2 * k + b) = 2 ^ k + b * 2 ^ (k - 1) + 1 \<and> DIST_EXTRA ! (2 * k + b) = k - 1) [0..<2]) [2..<15]"
    by (simp add: DIST_BASE_def DIST_EXTRA_def upt_rec)
  then have "\<forall>k \<in> set [2..<15]. \<forall>b \<in> set [0..<2]. DIST_BASE ! (2 * k + b) = 2 ^ k + b * 2 ^ (k - 1) + 1 \<and> DIST_EXTRA ! (2 * k + b) = k - 1"
    unfolding list_all_iff .
  moreover have "k \<in> set [2..<15]" "b \<in> set [0..<2]" unfolding set_upt atLeastLessThan_iff using assms by linarith+
  ultimately show "DIST_BASE ! (2 * k + b) = 2 ^ k + b * 2 ^ (k - 1) + 1" "DIST_EXTRA ! (2 * k + b) = k - 1" by blast+
qed

lemma dist_code_ok:
  assumes "1 \<le> dist" and "dist \<le> 32768" and "dist_code dist = (ds, eb, ev)"
  shows "ds < 30 \<and> DIST_EXTRA ! ds = eb \<and> DIST_BASE ! ds + ev = dist \<and> ev < 2 ^ eb \<and> eb \<le> 13"
proof (cases "dist - 1 < 4")
  case True
  then have "dist \<in> {1, 2, 3, 4}" using assms(1) by auto
  then show ?thesis using assms(3) by (auto simp: dist_code_def DIST_BASE_def DIST_EXTRA_def)
next
  case False
  define d where "d = dist - 1"
  have d: "4 \<le> d" "d < 2 ^ 15" "dist = d + 1" using False assms(1,2) by (auto simp: d_def)
  obtain k where k: "2 ^ k \<le> d" "d < 2 ^ Suc k" using ex_power_ivl1 [of 2 d] d(1) by auto
  have "(2::nat) ^ 2 < 2 ^ Suc k" using d(1) k(2) by simp
  then have "2 < Suc k" by (rule power_less_imp_less_exp [rotated]) simp
  then have k2: "2 \<le> k" by simp
  have "(2::nat) ^ k < 2 ^ 15" using d(2) k(1) by linarith
  then have "k < 15" by (rule power_less_imp_less_exp [rotated]) simp
  then have k14: "k \<le> 14" by simp
  have nb: "32 - leading_zeros32 d = Suc k" using bit_length_eq [OF k] k14 by (simp add: leading_zeros32_def)
  define b where "b = drop_bit (k - 1) d AND 1"
  have p: "(2::nat) ^ k = 2 * 2 ^ (k - 1)" using k2 by (simp flip: power_Suc)
  have q: "2 \<le> d div 2 ^ (k - 1)" "d div 2 ^ (k - 1) < 4"
    using k p by (simp_all add: less_eq_div_iff_mult_less_eq less_mult_imp_div_less)
  have "q = 2 + q mod 2" if "2 \<le> q" "q < 4" for q :: nat
  proof -
    have "q = 2 \<or> q = 3" using that by linarith
    then show ?thesis by auto
  qed
  from this [OF q] have b: "b < 2" "d div 2 ^ (k - 1) = 2 + b" unfolding b_def drop_bit_eq_div and_one_eq by simp_all
  have e: "d = 2 ^ k + b * 2 ^ (k - 1) + d mod 2 ^ (k - 1)"
    using div_mult_mod_eq [of d "2 ^ (k - 1)"] unfolding b(2) p by (simp add: distrib_right)
  have "2 ^ (k - 1) - 1 = (mask (k - 1) :: nat)" by (simp add: mask_eq_exp_minus_1)
  then have "d AND (2 ^ (k - 1) - 1) = d mod 2 ^ (k - 1)" by (simp only: take_bit_eq_mask [symmetric] take_bit_eq_mod)
  moreover have "dist_code dist = (2 * (Suc k - 1) + (drop_bit (Suc k - 2) d AND 1), Suc k - 2, d AND (2 ^ (Suc k - 2) - 1))"
    using False unfolding dist_code_def Let_def d_def [symmetric] nb by (simp only: if_False)
  ultimately have "ds = 2 * k + b" "eb = k - 1" "ev = d mod 2 ^ (k - 1)"
    using assms(3) by (simp_all add: b_def numeral_2_eq_2)
  then show ?thesis using dist_tables [OF k2 k14 b(1)] e d(3) b(1) k2 k14 by simp
qed

subsection \<open>The encoder writes tokens\<close>

lemma wrote_lit: "wrote w bs \<Longrightarrow> s < 288 \<Longrightarrow> wrote (put_lit s w) (bs @ code_bits fixed_lens s)"
  using wrote_put [of w bs "fst (fixed_lit s)" "snd (fixed_lit s)"] code_fixed [of s] nth_fixed [of s]
  by (cases "fixed_lit s") (simp add: put_lit_def split: if_splits)

lemma wrote_match:
  assumes "wrote w bs" and "match_ok hist len dist"
  shows "wrote (put_match len dist w) (bs @ match_bits len dist)"
proof -
  have l: "3 \<le> len" "len \<le> 258" "1 \<le> dist" "dist \<le> 32768" using assms(2) by (simp_all add: match_ok_def MIN_MATCH_def MAX_MATCH_def WINDOW_def)
  note ls = len_sym_ok [OF l(1,2)]
  obtain ds eb ev where d: "dist_code dist = (ds, eb, ev)" by (metis prod_cases3)
  note dc = dist_code_ok [OF l(3,4) d]
  have "257 + len_sym len < 288" using ls(1) by simp
  from wrote_lit [OF assms(1) this]
  have "wrote (put (len - LEN_BASE ! len_sym len) (LEN_EXTRA ! len_sym len) (put_lit (257 + len_sym len) w))
      ((bs @ code_bits fixed_lens (257 + len_sym len)) @ nat_bits (LEN_EXTRA ! len_sym len) (len - LEN_BASE ! len_sym len))"
    using ls len_extra_small [OF ls(1)] by (intro wrote_put) auto
  from wrote_put [OF this code_fixed_dist(2), of ds] dc
  have "wrote (put (rev_code ds 5) 5 (put (len - LEN_BASE ! len_sym len) (LEN_EXTRA ! len_sym len) (put_lit (257 + len_sym len) w)))
      (((bs @ code_bits fixed_lens (257 + len_sym len)) @ nat_bits (LEN_EXTRA ! len_sym len) (len - LEN_BASE ! len_sym len)) @ code_bits fixed_dist_lens ds)"
    by (simp add: code_fixed_dist(1))
  from wrote_put [OF this, of ev eb] dc show ?thesis by (simp add: put_match_def match_bits_def Let_def d)
qed

lemma match_len_spec: "\<forall>j < l. data ! (c + j) = data ! (i + j) \<Longrightarrow> l \<le> max_len \<Longrightarrow>
    match_len data c i max_len l \<le> max_len \<and> (\<forall>j < match_len data c i max_len l. data ! (c + j) = data ! (i + j))"
proof (induction data c i max_len l rule: match_len.induct)
  case (1 data c i max_len l)
  show ?case
  proof (cases "l < max_len \<and> data ! (c + l) = data ! (i + l)")
    case True
    then show ?thesis using 1 by (subst (1 2) match_len.simps) (auto simp: less_Suc_eq)
  next
    case False
    then show ?thesis using 1(2,3) by (subst (1 2) match_len.simps) auto
  qed
qed

definition best_ok :: "bytes \<Rightarrow> nat \<Rightarrow> nat \<Rightarrow> nat \<times> nat \<Rightarrow> bool" where
  "best_ok data i max_len = (\<lambda>(len, dist). len = 0 \<or>
     len \<le> max_len \<and> 1 \<le> dist \<and> dist \<le> i \<and> dist \<le> WINDOW \<and> (\<forall>l < len. data ! (i - dist + l) = data ! (i + l)))"

lemma search_ok: "best_ok data i max_len best \<Longrightarrow> best_ok data i max_len (search data prevs i max_len chain cand best)"
proof (induction chain arbitrary: cand best)
  case (Suc chain)
  have t: "best_ok data i max_len (fst (try_match data c i max_len best))" if "c < i" "i - c \<le> WINDOW" for c
    using Suc.prems that match_len_spec [of 0 data c i max_len]
    by (auto simp: try_match_def best_ok_def Let_def add.commute split: prod.splits if_splits)
  show ?case using Suc.prems t [of "cand - 1"] Suc.IH
    by (auto simp: Let_def DEFLATE_WINDOW_def WINDOW_def split: prod.splits if_splits)
qed simp

lemma find_match_ok:
  assumes "find_match data heads prevs i = (len, dist)" and "MIN_MATCH \<le> len" and "i < length data"
  shows "match_ok (take i data) len dist" and "i + len \<le> length data" and "lz_copy (take i data) dist len = take len (drop i data)"
proof -
  have none: "best_ok data i (min MAX_MATCH (length data - i)) (0, 0)" by (simp add: best_ok_def)
  have "best_ok data i (min MAX_MATCH (length data - i)) (len, dist)"
    using assms(1,2) search_ok [OF none, of prevs MAX_CHAIN "heads ! hash3 data i"]
    by (simp add: find_match_def MIN_MATCH_def split: if_splits)
  then have b: "len \<le> MAX_MATCH" "i + len \<le> length data" "1 \<le> dist" "dist \<le> i" "dist \<le> WINDOW" "\<forall>l < len. data ! (i - dist + l) = data ! (i + l)"
    using assms(2,3) by (auto simp: best_ok_def MIN_MATCH_def)
  then show "match_ok (take i data) len dist" "i + len \<le> length data" using assms(2,3) by (simp_all add: match_ok_def)
  show "lz_copy (take i data) dist len = take len (drop i data)" using b by (intro lz_copy_matches) auto
qed

lemma lz_loop_tokens:
  "i \<le> length data \<Longrightarrow> wrote w bs \<Longrightarrow>
    \<exists>ts. wrote (lz_loop data i tabs w) (bs @ concat (map token_bits ts)) \<and> tokens_ok (take i data) ts \<and> expand (take i data) ts = drop i data"
proof (induction data i tabs w arbitrary: bs rule: lz_loop.induct)
  case (1 data i tabs w)
  show ?case
  proof (cases "i < length data")
    case False
    then show ?thesis using 1(3,4) by (subst lz_loop.simps) (auto intro: exI [of _ "[]"])
  next
    case True
    obtain len dist where m: "find_match data (fst tabs) (snd tabs) i = (len, dist)" by fastforce
    show ?thesis
    proof (cases "MIN_MATCH \<le> len")
      case long: True
      note f = find_match_ok [OF m long True]
      have "\<exists>ts. wrote (lz_loop data (i + len) (fold (insert_pos data) [i..<i + len] tabs) (put_match len dist w))
          ((bs @ match_bits len dist) @ concat (map token_bits ts)) \<and> tokens_ok (take (i + len) data) ts \<and> expand (take (i + len) data) ts = drop (i + len) data"
        by (rule 1(1) [OF _ m [symmetric] refl long f(2) wrote_match [OF 1(4) f(1)]]) (use True in simp)
      then obtain ts where ts: "wrote (lz_loop data (i + len) (fold (insert_pos data) [i..<i + len] tabs) (put_match len dist w))
          ((bs @ match_bits len dist) @ concat (map token_bits ts))" "tokens_ok (take (i + len) data) ts" "expand (take (i + len) data) ts = drop (i + len) data"
        by blast
      have h: "take i data @ lz_copy (take i data) dist len = take (i + len) data" by (simp add: f(3) take_add)
      have "drop i data = take len (drop i data) @ drop (i + len) data" by (metis append_take_drop_id drop_drop add.commute)
      then show ?thesis using ts f True m long h
        by (subst lz_loop.simps) (auto simp: Let_def intro!: exI [of _ "Match len dist # ts"])
    next
      case short: False
      have u: "unat (data ! i) < 288" using unat_byte_less [of "data ! i"] by simp
      have "\<exists>ts. wrote (lz_loop data (i + 1) (insert_pos data i tabs) (put_lit (unat (data ! i)) w))
          ((bs @ code_bits fixed_lens (unat (data ! i))) @ concat (map token_bits ts)) \<and> tokens_ok (take (i + 1) data) ts \<and> expand (take (i + 1) data) ts = drop (i + 1) data"
        by (rule 1(2) [OF _ m [symmetric] refl short _ wrote_lit [OF 1(4) u]]) (use True in simp_all)
      then obtain ts where ts: "wrote (lz_loop data (i + 1) (insert_pos data i tabs) (put_lit (unat (data ! i)) w))
          ((bs @ code_bits fixed_lens (unat (data ! i))) @ concat (map token_bits ts))" "tokens_ok (take (i + 1) data) ts" "expand (take (i + 1) data) ts = drop (i + 1) data"
        by blast
      have h: "take (i + 1) data = take i data @ [data ! i]" "drop i data = data ! i # drop (i + 1) data"
        using True by (simp_all add: take_Suc_conv_app_nth Cons_nth_drop_Suc)
      then show ?thesis using ts True m short
        by (subst lz_loop.simps) (auto simp: Let_def intro!: exI [of _ "Lit (data ! i) # ts"])
    qed
  qed
qed

end
