(* ===== verification/Roundtrip.thy ===== *)
theory Roundtrip
  imports Deflate
begin

text \<open>
  What the decoder of \<^verbatim>\<open>format/inflate\<close> makes of the encoder's output.  The decoder is resumable: it
  fills output slices of any size and keeps its place between calls, so its states are described by
  what has been produced and what is still to come.
\<close>

subsection \<open>Adler-32 of a stream in pieces\<close>

definition adler_step :: "u8 \<Rightarrow> adler \<Rightarrow> adler" where
  "adler_step x ad = \<lparr>ad_a = (ad_a ad + unat x) mod 65521, ad_b = (ad_b ad + (ad_a ad + unat x)) mod 65521\<rparr>"

lemma adler_bytes_fold:
  "2 * b + 2 * length xs * a + 255 * length xs * Suc (length xs) < 2 ^ 33 \<Longrightarrow> adler_bytes xs a b = (a', b') \<Longrightarrow>
   \<lparr>ad_a = a' mod 65521, ad_b = b' mod 65521\<rparr> = fold adler_step xs \<lparr>ad_a = a mod 65521, ad_b = b mod 65521\<rparr>"
proof (induction xs arbitrary: a b)
  case (Cons x xs)
  let ?l = "length xs"
  have x: "unat x \<le> 255" using unat_byte_less [of x] by simp
  have s: "2 * (b + (a + unat x)) + 2 * ?l * (a + unat x) + 255 * ?l * Suc ?l < 2 ^ 33"
  proof -
    have "Suc ?l * unat x \<le> Suc ?l * 255" using x by (intro mult_le_mono2)
    then show ?thesis using Cons.prems(1) by (simp add: algebra_simps)
  qed
  have "u32_add a (unat x) = a + unat x" "u32_add b (a + unat x) = b + (a + unat x)" using s by simp_all
  then have "\<lparr>ad_a = a' mod 65521, ad_b = b' mod 65521\<rparr> =
      fold adler_step xs \<lparr>ad_a = (a + unat x) mod 65521, ad_b = (b + (a + unat x)) mod 65521\<rparr>"
    using Cons.IH [OF s] Cons.prems(2) by (simp add: Let_def)
  moreover have "(b mod 65521 + (a mod 65521 + unat x)) mod 65521 = (b + (a + unat x)) mod 65521"
    by (intro mod_add_cong) (simp_all add: mod_simps)
  then have "adler_step x \<lparr>ad_a = a mod 65521, ad_b = b mod 65521\<rparr> = \<lparr>ad_a = (a + unat x) mod 65521, ad_b = (b + (a + unat x)) mod 65521\<rparr>"
    by (simp add: adler_step_def mod_simps)
  ultimately show ?case by simp
qed simp

definition adler_reduced :: "adler \<Rightarrow> bool" where
  "adler_reduced ad \<longleftrightarrow> ad_a ad < 65521 \<and> ad_b ad < 65521"

lemma adler_reduced_step [simp]: "adler_reduced (adler_step x ad)"
  by (simp add: adler_reduced_def adler_step_def)

lemma adler_update_fold: "adler_reduced ad \<Longrightarrow> adler_update data ad = fold adler_step data ad"
proof (induction data ad rule: adler_update.induct)
  case (1 data ad)
  show ?case
  proof (cases "data = []")
    case False
    obtain a b where ab: "adler_bytes (take 5552 data) (ad_a ad) (ad_b ad) = (a, b)" by fastforce
    let ?l = "length (take 5552 data)"
    have l: "?l \<le> 5552" by simp
    have r: "ad_a ad \<le> 65520" "ad_b ad \<le> 65520" using 1(2) by (auto simp: adler_reduced_def)
    have "2 * ?l * ad_a ad \<le> 2 * 5552 * 65520" by (rule mult_le_mono [OF mult_le_mono2 [OF l] r(1)])
    moreover have "255 * ?l * Suc ?l \<le> 255 * 5552 * 5553" by (rule mult_le_mono [OF mult_le_mono2 [OF l]]) (use l in simp)
    moreover have "2 * c + u + v < 2 ^ 33" if "u \<le> 2 * 5552 * 65520" "v \<le> 255 * 5552 * 5553" "c \<le> 65520" for c u v :: nat
      using that by simp
    ultimately have "2 * ad_b ad + 2 * ?l * ad_a ad + 255 * ?l * Suc ?l < 2 ^ 33" using r(2) by blast
    from adler_bytes_fold [OF this ab]
    have f: "\<lparr>ad_a = a mod 65521, ad_b = b mod 65521\<rparr> = fold adler_step (take 5552 data) ad"
      using 1(2) by (cases ad) (simp add: adler_reduced_def)
    have "adler_update data ad = adler_update (drop 5552 data) \<lparr>ad_a = a mod 65521, ad_b = b mod 65521\<rparr>"
      using False ab by (subst adler_update.simps) simp
    also have "\<dots> = fold adler_step (drop 5552 data) \<lparr>ad_a = a mod 65521, ad_b = b mod 65521\<rparr>"
      by (rule 1(1) [OF False ab [symmetric]]) (simp_all add: adler_reduced_def)
    also have "\<dots> = fold adler_step data ad" unfolding f by (metis append_take_drop_id fold_append o_apply)
    finally show ?thesis .
  qed (subst adler_update.simps, simp)
qed

lemma adler_new_reduced [simp]: "adler_reduced adler_new"
  by (simp add: adler_reduced_def adler_new_def)

lemma adler_fold_reduced: "adler_reduced ad \<Longrightarrow> adler_reduced (fold adler_step data ad)"
  by (induction data arbitrary: ad) simp_all

lemma adler_update_append: "adler_update (xs @ ys) adler_new = adler_update ys (adler_update xs adler_new)"
  by (simp add: adler_update_fold adler_fold_reduced)

subsection \<open>The window\<close>

text \<open>The window holds the last \<open>WINDOW\<close> bytes of what was produced.\<close>

definition window_of :: "bytes \<Rightarrow> bytes \<Rightarrow> bool" where
  "window_of H window \<longleftrightarrow> length window = WINDOW \<and> (\<forall>p < length H. length H \<le> p + WINDOW \<longrightarrow> window ! (p mod WINDOW) = H ! p)"

lemma window_push:
  assumes "window_of H window"
  shows "window_of (H @ [b]) (window[length H mod WINDOW := b])"
proof -
  have l: "length window = WINDOW" "0 < WINDOW" using assms by (simp_all add: window_of_def WINDOW_def)
  have "p mod WINDOW \<noteq> length H mod WINDOW" if "p < length H" "length H < p + WINDOW" for p
  proof
    assume "p mod WINDOW = length H mod WINDOW"
    then have "WINDOW dvd length H - p" using that mod_eq_dvd_iff_nat [of p "length H" WINDOW] by simp
    then show False using that by (auto dest: dvd_imp_le)
  qed
  then show ?thesis using assms l by (fastforce simp: window_of_def nth_append nth_list_update less_Suc_eq)
qed

lemma store_window_ok:
  "window_of H window \<Longrightarrow> store_window bs (length H mod WINDOW) window = (w, window') \<Longrightarrow>
   w = length (H @ bs) mod WINDOW \<and> window_of (H @ bs) window'"
proof (induction bs arbitrary: H window)
  case (Cons b bs)
  then show ?case using Cons.IH [OF window_push [OF Cons.prems(1), of b]] by (simp add: mod_simps)
qed simp

lemma store_window_slice:
  "w + length bs \<le> length window \<Longrightarrow> length window = WINDOW \<Longrightarrow> bs \<noteq> [] \<Longrightarrow>
   store_window bs w window = ((w + length bs) mod WINDOW, put_slice w bs window)"
proof (induction bs arbitrary: w window)
  case (Cons b bs)
  show ?case
  proof (cases "bs = []")
    case True
    then show ?thesis using Cons.prems by (simp add: put_slice_def upd_conv_take_nth_drop)
  next
    case False
    then have "w + 1 < WINDOW" using Cons.prems by (cases bs) auto
    moreover have "put_slice (w + 1) bs (window[w := b]) = put_slice w (b # bs) window"
      using Cons.prems by (simp add: put_slice_def upd_conv_take_nth_drop take_Suc_conv_app_nth add.commute)
    ultimately show ?thesis using Cons.IH [of "w + 1" "window[w := b]"] Cons.prems False by simp
  qed
qed simp

lemma behind_eq:
  assumes "dist \<le> length H" and "dist \<le> WINDOW"
  shows "behind (length H mod WINDOW) dist = (length H - dist) mod WINDOW"
proof -
  have "WINDOW dvd 2 ^ 64" by (simp add: WINDOW_def)
  then have "behind (length H mod WINDOW) dist = (length H mod WINDOW + 2 ^ 64 - dist) mod WINDOW"
    unfolding behind_def by (rule mod_mod_cancel)
  also have "\<dots> = (length H - dist) mod WINDOW"
  proof -
    let ?x = "length H mod WINDOW + 2 ^ 64 - dist" and ?y = "length H - dist"
    have "dist \<le> 2 ^ 64" using assms(2) by (simp add: WINDOW_def)
    then have "?x + dist = length H mod WINDOW + 2 ^ 64" "?y + dist = length H" using assms(1) by simp_all
    moreover have "(length H mod WINDOW + 2 ^ 64) mod WINDOW = length H mod WINDOW"
      using \<open>WINDOW dvd 2 ^ 64\<close> by (metis mod_mod_trivial add.right_neutral dvd_eq_mod_eq_0 mod_add_right_eq)
    ultimately have "(?x + dist) mod WINDOW = (?y + dist) mod WINDOW" by simp
    then obtain p q where "?x + dist + WINDOW * p = ?y + dist + WINDOW * q" unfolding nat_mod_eq_iff by blast
    then have "?x + WINDOW * p = ?y + WINDOW * q" by linarith
    then show ?thesis unfolding nat_mod_eq_iff by blast
  qed
  finally show ?thesis .
qed

lemma window_at:
  assumes "window_of H window" and "1 \<le> dist" and "dist \<le> length H" and "dist \<le> WINDOW"
  shows "window ! behind (length H mod WINDOW) dist = H ! (length H - dist)"
  using assms unfolding behind_eq [OF assms(3,4)] by (simp add: window_of_def)

subsection \<open>Copies\<close>

lemma put_slice_Suc:
  assumes "n + Suc (length bs) \<le> length out"
  shows "put_slice (n + 1) bs (out[n := b]) = put_slice n (b # bs) out"
  using assms by (simp add: put_slice_def upd_conv_take_nth_drop take_Suc_conv_app_nth add.commute)

lemma copy_bytes_ok:
  assumes "1 \<le> dist" and "dist \<le> length H" and "dist \<le> WINDOW" and "window_of H window" and "n + k \<le> length out"
  shows "\<exists>window'. copy_bytes k dist (length H mod WINDOW) window n out =
      (length (H @ lz_copy H dist k) mod WINDOW, window', put_slice n (lz_copy H dist k) out) \<and> window_of (H @ lz_copy H dist k) window'"
  using assms
proof (induction k arbitrary: H window n out)
  case (Suc k)
  let ?b = "H ! (length H - dist)"
  have "\<exists>window'. copy_bytes k dist (length (H @ [?b]) mod WINDOW) (window[length H mod WINDOW := ?b]) (n + 1) (out[n := ?b]) =
      (length ((H @ [?b]) @ lz_copy (H @ [?b]) dist k) mod WINDOW, window', put_slice (n + 1) (lz_copy (H @ [?b]) dist k) (out[n := ?b])) \<and>
      window_of ((H @ [?b]) @ lz_copy (H @ [?b]) dist k) window'"
    by (rule Suc.IH) (use Suc.prems window_push [of H window ?b] in auto)
  moreover have "put_slice (n + 1) (lz_copy (H @ [?b]) dist k) (out[n := ?b]) = put_slice n (?b # lz_copy (H @ [?b]) dist k) out"
    using Suc.prems(5) by (intro put_slice_Suc) simp
  ultimately show ?case using window_at [OF Suc.prems(4,1,2,3)] by (simp add: Let_def mod_simps)
qed (simp add: put_slice_def)

text \<open>What the decoder has produced, and where it is in the window.\<close>

definition made :: "bytes \<Rightarrow> inflater \<Rightarrow> bool" where
  "made H s \<longleftrightarrow> window_of H (i_window s) \<and> i_wpos s = length H mod WINDOW \<and> i_produced s = length H"

lemma copy_match_ok:
  assumes "made H s" and "1 \<le> i_pend_dist s" and "i_pend_dist s \<le> length H" and "i_pend_dist s \<le> WINDOW" and "n + k \<le> length out" and "0 < k"
  shows "\<exists>window'. copy_match k n out s = (s\<lparr>i_window := window', i_wpos := length (H @ lz_copy H (i_pend_dist s) k) mod WINDOW\<rparr>,
      put_slice n (lz_copy H (i_pend_dist s) k) out) \<and> window_of (H @ lz_copy H (i_pend_dist s) k) window'"
proof -
  let ?d = "i_pend_dist s" and ?W = "i_window s"
  let ?src = "behind (i_wpos s) ?d"
  have w: "window_of H ?W" "i_wpos s = length H mod WINDOW" "length ?W = WINDOW" using assms(1) by (auto simp: made_def window_of_def)
  have b: "?src = (length H - ?d) mod WINDOW" using behind_eq [OF assms(3,4)] w(2) by simp
  show ?thesis
  proof (cases "k \<le> ?d \<and> ?src + k \<le> WINDOW \<and> i_wpos s + k \<le> WINDOW")
    case True
    have c: "get_slice ?src k ?W = lz_copy H ?d k"
    proof (rule nth_equalityI)
      fix j assume "j < length (get_slice ?src k ?W)"
      then have j: "j < k" using True w(3) by simp
      have "?src + j = (length H - ?d + j) mod WINDOW" using True j b by (metis mod_add_left_eq mod_less add_less_cancel_left order_less_le_trans)
      moreover have p: "length H - ?d + j < length H" "length H \<le> length H - ?d + j + WINDOW" using True j assms(3,4) by linarith+
      ultimately have "?W ! (?src + j) = H ! (length H - ?d + j)" using w(1) unfolding window_of_def by metis
      moreover have "lz_copy H ?d k ! j = H ! (length H - ?d + j)" using nth_lz_copy [OF assms(2,3) j] p(1) by (simp only: nth_append if_True)
      ultimately show "get_slice ?src k ?W ! j = lz_copy H ?d k ! j" using True j w(3) by simp
    qed (use True w(3) in auto)
    have l: "lz_copy H ?d k \<noteq> []" using assms(6) by (metis length_lz_copy less_numeral_extra(3) list.size(3))
    have "store_window (lz_copy H ?d k) (i_wpos s) ?W = ((i_wpos s + k) mod WINDOW, put_slice (i_wpos s) (lz_copy H ?d k) ?W)"
      using store_window_slice [OF _ w(3) l, of "i_wpos s"] True w(3) by simp
    from store_window_ok [OF w(1) this [unfolded w(2)]] True c show ?thesis
      by (intro exI [of _ "put_slice (i_wpos s) (lz_copy H ?d k) ?W"]) (simp add: copy_match_def Let_def w(2,3) get_put_same)
  next
    case False
    obtain window' where "copy_bytes k ?d (i_wpos s) ?W n out = (length (H @ lz_copy H ?d k) mod WINDOW, window', put_slice n (lz_copy H ?d k) out)"
        "window_of (H @ lz_copy H ?d k) window'"
      using copy_bytes_ok [OF assms(2,3,4) w(1) assms(5)] w(2) by auto
    then show ?thesis using False by (auto simp: copy_match_def Let_def)
  qed
qed

subsection \<open>Decoding tokens\<close>

definition decodes :: "nat list \<Rightarrow> huffman \<Rightarrow> bool" where
  "decodes lens h \<longleftrightarrow> good_lens lens \<and> tables lens (length lens) h \<and> (\<forall>l \<le> MAX_CODE_LEN. hf_count h ! l = count_list lens l)"

lemma with_decode:
  assumes "decodes lens h" and "s < length lens" and "lens ! s \<noteq> 0" and "reads data (i_br u) (code_bits lens s @ rest)"
  obtains br where "with_br (decode h) u = (Inr s, u\<lparr>i_br := br\<rparr>)" and "reads data br rest"
  using decode_ok [of lens h s data "i_br u" rest] assms by (auto simp: decodes_def with_br_def)

lemma with_read:
  assumes "reads data (i_br u) (nat_bits n v @ rest)" and "n \<le> 56" and "v < 2 ^ n"
  obtains br where "with_br (read_bits n) u = (Inr v, u\<lparr>i_br := br\<rparr>)" and "reads data br rest"
proof -
  obtain br where "read_bits n (i_br u) = (Inr v, br)" "reads data br rest"
    using read_bits_reads [OF assms(1)] assms(2,3) by (auto simp: take_bit_nat_eq_self)
  then show thesis using that [of br] by (simp add: with_br_def)
qed

text \<open>The end of the block is followed by \<open>tail\<close>; \<open>R\<close> is what the block still has to produce.\<close>

definition coding :: "bytes \<Rightarrow> bool list \<Rightarrow> inflater \<Rightarrow> bytes \<Rightarrow> bytes \<Rightarrow> bool" where
  "coding data tail s H R \<longleftrightarrow>
     made H s \<and> decodes fixed_lens (i_lit s) \<and> decodes fixed_dist_lens (i_dist s) \<and>
     (i_pend_len s \<noteq> 0 \<longrightarrow> 1 \<le> i_pend_dist s \<and> i_pend_dist s \<le> length H \<and> i_pend_dist s \<le> WINDOW) \<and>
     (\<exists>ts. reads data (i_br s) (concat (map token_bits ts) @ code_bits fixed_lens 256 @ tail) \<and>
        tokens_ok (H @ lz_copy H (i_pend_dist s) (i_pend_len s)) ts \<and>
        R = lz_copy H (i_pend_dist s) (i_pend_len s) @ expand (H @ lz_copy H (i_pend_dist s) (i_pend_len s)) ts)"

text \<open>What decoding symbols leaves alone.\<close>

definition kept :: "inflater \<Rightarrow> inflater \<Rightarrow> bool" where
  "kept s t \<longleftrightarrow> i_state t = i_state s \<and> i_last t = i_last s \<and> i_zlib t = i_zlib s \<and> i_adler t = i_adler s \<and> i_limit t = i_limit s"

lemma kept_trans: "kept s t \<Longrightarrow> kept t u \<Longrightarrow> kept s u"
  by (simp add: kept_def)

definition decoded :: "bytes \<Rightarrow> bool list \<Rightarrow> inflater \<Rightarrow> bytes \<Rightarrow> bytes \<Rightarrow> bytes \<Rightarrow> nat \<Rightarrow> bool" where
  "decoded data tail s H R out n \<longleftrightarrow>
     (let m = min (length R) (length out - n); fin = (n + length R < length out) in
      \<exists>t. decode_codes s out n = (Inr fin, t, put_slice n (take m R) out, n + m) \<and> kept s t \<and>
        (if fin then made (H @ R) t \<and> reads data (i_br t) tail else coding data tail t (H @ take m R) (drop m R)))"

lemma put_slice_append:
  "n + length xs + length ys \<le> length out \<Longrightarrow> put_slice (n + length xs) ys (put_slice n xs out) = put_slice n (xs @ ys) out"
  by (simp add: put_slice_def ac_simps)

lemma decoded_step:
  assumes "decode_codes s out n = decode_codes t (put_slice n xs out) (n + length xs)" and "n + length xs \<le> length out" and "kept s t"
    and "decoded data tail t (H @ xs) R (put_slice n xs out) (n + length xs)"
  shows "decoded data tail s H (xs @ R) out n"
proof -
  let ?m = "min (length R) (length out - (n + length xs))"
  have m: "min (length (xs @ R)) (length out - n) = length xs + ?m" using assms(2) by simp
  have p: "put_slice (n + length xs) (take ?m R) (put_slice n xs out) = put_slice n (xs @ take ?m R) out"
    using assms(2) by (intro put_slice_append) simp
  show ?thesis using assms(1,2,4) kept_trans [OF assms(3)] p unfolding decoded_def Let_def m by (auto simp: add.assoc)
qed

lemma decode_copy_step:
  assumes c: "coding data tail s H R" and n: "n < length out" and p: "0 < i_pend_len s" and l: "length H + length R \<le> i_limit s"
  defines "k \<equiv> min (i_pend_len s) (length out - n)"
  shows "\<exists>t. decode_codes s out n = decode_codes t (put_slice n (take k R) out) (n + k) \<and> kept s t \<and>
    coding data tail t (H @ take k R) (drop k R) \<and> k \<le> length R \<and> 0 < k"
proof -
  let ?d = "i_pend_dist s" and ?p = "i_pend_len s"
  let ?X = "lz_copy H ?d k"
  obtain ts where ts: "reads data (i_br s) (concat (map token_bits ts) @ code_bits fixed_lens 256 @ tail)"
      "tokens_ok (H @ lz_copy H ?d ?p) ts" "R = lz_copy H ?d ?p @ expand (H @ lz_copy H ?d ?p) ts"
    using c by (auto simp: coding_def)
  have d: "1 \<le> ?d" "?d \<le> length H" "?d \<le> WINDOW" "made H s" using c p by (auto simp: coding_def)
  have k: "0 < k" "k \<le> ?p" "n + k \<le> length out" using n p by (auto simp: k_def)
  have split: "lz_copy H ?d ?p = ?X @ lz_copy (H @ ?X) ?d (?p - k)" using lz_copy_add [of H ?d k "?p - k"] k(2) by simp
  have R: "take k R = ?X" "drop k R = lz_copy (H @ ?X) ?d (?p - k) @ expand (H @ lz_copy H ?d ?p) ts" "?p \<le> length R"
    using split by (simp_all add: ts(3))
  obtain W where cm: "copy_match k n out s = (s\<lparr>i_window := W, i_wpos := length (H @ ?X) mod WINDOW\<rparr>, put_slice n ?X out)" "window_of (H @ ?X) W"
    using copy_match_ok [OF d(4,1-3) k(3,1)] by blast
  define t where "t = s\<lparr>i_window := W, i_wpos := length (H @ ?X) mod WINDOW, i_produced := i_produced s + k, i_pend_len := ?p - k\<rparr>"
  have room: "length R \<le> i_limit s - i_produced s" using d(4) l by (simp add: made_def)
  then have "min (min ?p (length out - n)) (i_limit s - i_produced s) = k" "i_limit s - i_produced s \<noteq> 0" using R(3) p by (simp_all add: k_def)
  then have "decode_codes s out n = decode_codes t (put_slice n ?X out) (n + k)"
    unfolding decode_codes_copy [OF n p] Let_def t_def using cm(1) by simp
  moreover have "coding data tail t (H @ ?X) (drop k R)" unfolding coding_def
  proof (intro conjI exI)
    show "made (H @ ?X) t" using d(4) cm(2) by (simp add: made_def t_def)
    show "reads data (i_br t) (concat (map token_bits ts) @ code_bits fixed_lens 256 @ tail)" using ts(1) by (simp add: t_def)
  qed (use c d ts(2) R(2) split in \<open>auto simp: t_def coding_def\<close>)
  ultimately show ?thesis using R k by (intro exI [of _ t]) (auto simp: kept_def t_def)
qed

lemma read_match_ok:
  assumes "match_ok H len dist" and "made H s" and "decodes fixed_dist_lens (i_dist s)"
    and "reads data (i_br s) (nat_bits (LEN_EXTRA ! len_sym len) (len - LEN_BASE ! len_sym len) @ code_bits fixed_dist_lens ds @ nat_bits eb ev @ rest)"
    and "dist_code dist = (ds, eb, ev)"
  shows "\<exists>br. read_match (257 + len_sym len) s = (Inr (), s\<lparr>i_br := br, i_pend_len := len, i_pend_dist := dist\<rparr>) \<and> reads data br rest"
proof -
  have m: "3 \<le> len" "len \<le> 258" "1 \<le> dist" "dist \<le> 32768" "dist \<le> WINDOW" "dist \<le> i_produced s"
    using assms(1,2) by (simp_all add: match_ok_def MIN_MATCH_def MAX_MATCH_def WINDOW_def made_def)
  note ls = len_sym_ok [OF m(1,2)] and dc = dist_code_ok [OF m(3,4) assms(5)]
  have e: "LEN_EXTRA ! len_sym len \<le> 56" using len_extra_small [OF ls(1)] by simp
  obtain br1 where r1: "with_br (read_bits (LEN_EXTRA ! len_sym len)) s = (Inr (len - LEN_BASE ! len_sym len), s\<lparr>i_br := br1\<rparr>)"
      "reads data br1 (code_bits fixed_dist_lens ds @ nat_bits eb ev @ rest)"
    using with_read [OF assms(4) e ls(3)] by blast
  obtain br2 where r2: "with_br (decode (i_dist s)) (s\<lparr>i_br := br1\<rparr>) = (Inr ds, s\<lparr>i_br := br2\<rparr>)" "reads data br2 (nat_bits eb ev @ rest)"
    using with_decode [OF assms(3), of ds data "s\<lparr>i_br := br1\<rparr>" "nat_bits eb ev @ rest"] r1(2) dc by (auto simp: fixed_dist_lens_def)
  obtain br3 where r3: "with_br (read_bits eb) (s\<lparr>i_br := br2\<rparr>) = (Inr ev, s\<lparr>i_br := br3\<rparr>)" "reads data br3 rest"
    using with_read [of data "s\<lparr>i_br := br2\<rparr>" eb ev rest] r2(2) dc by auto
  have "length LEN_BASE = 29" "length DIST_BASE = 30" by (simp_all add: LEN_BASE_def DIST_BASE_def)
  then show ?thesis using ls(1,2) dc r1(1) r2(1) r3 m(5,6)
    by (intro exI [of _ br3]) (simp add: read_match_def)
qed

lemma decode_symbol_step:
  assumes c: "coding data tail s H R" and n: "n < length out" and p: "i_pend_len s = 0" and l: "length H + length R \<le> i_limit s"
  shows "(\<exists>t. R = [] \<and> decode_codes s out n = (Inr True, t, out, n) \<and> kept s t \<and> made H t \<and> reads data (i_br t) tail) \<or>
    (\<exists>t k. decode_codes s out n = decode_codes t (put_slice n (take k R) out) (n + k) \<and> kept s t \<and>
       coding data tail t (H @ take k R) (drop k R) \<and> k \<le> length R \<and> k \<le> 1 \<and> (k = 0 \<longrightarrow> 0 < i_pend_len t))"
proof -
  have m: "made H s" and lit: "decodes fixed_lens (i_lit s)" and dst: "decodes fixed_dist_lens (i_dist s)" using c by (auto simp: coding_def)
  obtain ts where ts: "reads data (i_br s) (concat (map token_bits ts) @ code_bits fixed_lens 256 @ tail)" "tokens_ok H ts" "R = expand H ts"
    using c p by (auto simp: coding_def)
  have sym: "\<exists>br. decode_codes s out n = (if x < 256
         then if i_limit s \<le> i_produced s then (Inl OutputLimit, s\<lparr>i_br := br\<rparr>, out, n)
              else decode_codes (s\<lparr>i_br := br, i_window := (i_window s)[i_wpos s mod WINDOW := word_of_nat x], i_wpos := (i_wpos s + 1) mod WINDOW,
                      i_produced := i_produced s + 1\<rparr>) (out[n := word_of_nat x]) (n + 1)
         else if x = 256 then (Inr True, s\<lparr>i_br := br\<rparr>, out, n)
         else case read_match x (s\<lparr>i_br := br\<rparr>) of (Inl e, u) \<Rightarrow> (Inl e, u, out, n) | (Inr _, u) \<Rightarrow> decode_codes u out n) \<and> reads data br rest"
    if x: "x < 288" "reads data (i_br s) (code_bits fixed_lens x @ rest)" for x rest
  proof -
    obtain br where "with_br (decode (i_lit s)) s = (Inr x, s\<lparr>i_br := br\<rparr>)" "reads data br rest"
      using with_decode [OF lit _ _ x(2)] x(1) nth_fixed [OF x(1)] by (auto split: if_splits)
    then show ?thesis using decode_codes_symbol [OF n p] by fastforce
  qed
  show ?thesis
  proof (cases ts)
    case Nil
    then show ?thesis using sym [of 256 tail] ts m by (auto simp: kept_def made_def)
  next
    case (Cons tok ts')
    let ?rest = "concat (map token_bits ts') @ code_bits fixed_lens 256 @ tail"
    show ?thesis
    proof (cases tok)
      case (Lit b)
      have b: "unat b < 256" using unat_byte_less [of b] by simp
      have R: "R = b # expand (H @ [b]) ts'" "tokens_ok (H @ [b]) ts'" "i_produced s < i_limit s"
        using ts(2,3) Cons Lit l m by (auto simp: made_def)
      obtain br where br: "decode_codes s out n = decode_codes (s\<lparr>i_br := br, i_window := (i_window s)[i_wpos s mod WINDOW := b], i_wpos := (i_wpos s + 1) mod WINDOW,
          i_produced := i_produced s + 1\<rparr>) (out[n := b]) (n + 1)" "reads data br ?rest"
        using sym [of "unat b" ?rest] b ts(1) Cons Lit R(3) by auto
      have "out[n := b] = put_slice n [b] out" using n by (simp add: put_slice_def upd_conv_take_nth_drop)
      moreover have "made (H @ [b]) (s\<lparr>i_br := br, i_window := (i_window s)[i_wpos s mod WINDOW := b], i_wpos := (i_wpos s + 1) mod WINDOW,
          i_produced := i_produced s + 1\<rparr>)" using m window_push [of H "i_window s" b] by (auto simp: made_def mod_simps)
      ultimately show ?thesis using br R lit dst p
        by (intro disjI2 exI [of _ "s\<lparr>i_br := br, i_window := (i_window s)[i_wpos s mod WINDOW := b], i_wpos := (i_wpos s + 1) mod WINDOW,
          i_produced := i_produced s + 1\<rparr>"] exI [of _ 1]) (auto simp: kept_def coding_def)
    next
      case (Match len dist)
      obtain ds eb ev where d: "dist_code dist = (ds, eb, ev)" by (metis prod_cases3)
      have mo: "match_ok H len dist" "tokens_ok (H @ lz_copy H dist len) ts'" "R = lz_copy H dist len @ expand (H @ lz_copy H dist len) ts'"
        using ts(2,3) Cons Match by auto
      have x: "257 + len_sym len < 288" using mo(1) len_sym_ok(1) [of len] by (simp add: match_ok_def MIN_MATCH_def MAX_MATCH_def)
      have bits: "reads data (i_br s) (code_bits fixed_lens (257 + len_sym len) @ nat_bits (LEN_EXTRA ! len_sym len) (len - LEN_BASE ! len_sym len) @
          code_bits fixed_dist_lens ds @ nat_bits eb ev @ ?rest)"
        using ts(1) by (simp add: Cons Match match_bits_def Let_def d)
      from sym [OF x bits] obtain br where br: "decode_codes s out n = (case read_match (257 + len_sym len) (s\<lparr>i_br := br\<rparr>) of
          (Inl e, u) \<Rightarrow> (Inl e, u, out, n) | (Inr _, u) \<Rightarrow> decode_codes u out n)"
          "reads data br (nat_bits (LEN_EXTRA ! len_sym len) (len - LEN_BASE ! len_sym len) @ code_bits fixed_dist_lens ds @ nat_bits eb ev @ ?rest)"
        by auto
      obtain br' where br': "read_match (257 + len_sym len) (s\<lparr>i_br := br\<rparr>) = (Inr (), s\<lparr>i_br := br', i_pend_len := len, i_pend_dist := dist\<rparr>)" "reads data br' ?rest"
        using read_match_ok [of H len dist "s\<lparr>i_br := br\<rparr>" data ds eb ev ?rest] mo(1) m dst br(2) d by (auto simp: made_def)
      then have "decode_codes s out n = decode_codes (s\<lparr>i_br := br', i_pend_len := len, i_pend_dist := dist\<rparr>) out n" using br(1) by simp
      then show ?thesis using mo m lit dst br'(2)
        by (intro disjI2 exI [of _ "s\<lparr>i_br := br', i_pend_len := len, i_pend_dist := dist\<rparr>"] exI [of _ 0])
          (auto simp: kept_def coding_def made_def match_ok_def MIN_MATCH_def put_slice_def)
    qed
  qed
qed

lemma coding_decoded:
  assumes "coding data tail s H R" and "length H + length R \<le> i_limit s" and "n \<le> length out"
  shows "decoded data tail s H R out n"
  using assms
proof (induction "codes_left s out n" arbitrary: s H R out n rule: less_induct)
  case less
  have go: "decoded data tail s H R out n"
    if t: "decode_codes s out n = decode_codes t (put_slice n (take k R) out) (n + k)" "kept s t" "coding data tail t (H @ take k R) (drop k R)" "k \<le> length R"
      and k: "n + k \<le> length out" "codes_left t (put_slice n (take k R) out) (n + k) < codes_left s out n" for t k
  proof -
    have "decoded data tail t (H @ take k R) (drop k R) (put_slice n (take k R) out) (n + k)"
      using less(1) [OF k(2) t(3)] t less(3) k(1) by (simp add: kept_def)
    then show ?thesis using decoded_step [of s out n t "take k R" data tail H "drop k R"] t k(1) by simp
  qed
  show ?case
  proof (cases "n < length out")
    case False
    then have "n = length out" using less(4) by simp
    then show ?thesis using less(2) by (simp add: decoded_def decode_codes_full kept_def put_slice_def)
  next
    case True
    show ?thesis
    proof (cases "i_pend_len s = 0")
      case pend: False
      then have "0 < i_pend_len s" by simp
      from decode_copy_step [OF less(2) True this less(3)] obtain t k where t: "decode_codes s out n = decode_codes t (put_slice n (take k R) out) (n + k)"
          "kept s t" "coding data tail t (H @ take k R) (drop k R)" "k \<le> length R" "0 < k" "k = min (i_pend_len s) (length out - n)" by blast
      show ?thesis by (rule go [OF t(1-4)]) (use t(4-6) True pend in \<open>auto simp: codes_left_def\<close>)
    next
      case pend: True
      from decode_symbol_step [OF less(2) True pend less(3)] show ?thesis
      proof (elim disjE exE conjE)
        fix t assume "R = []" "decode_codes s out n = (Inr True, t, out, n)" "kept s t" "made H t" "reads data (i_br t) tail"
        then show ?thesis using True by (simp add: decoded_def put_slice_def)
      next
        fix t k assume t: "decode_codes s out n = decode_codes t (put_slice n (take k R) out) (n + k)" "kept s t"
          "coding data tail t (H @ take k R) (drop k R)" "k \<le> length R" "k \<le> 1" "k = 0 \<longrightarrow> 0 < i_pend_len t"
        show ?thesis by (rule go [OF t(1-4)]) (use t(4-6) True pend in \<open>auto simp: codes_left_def put_slice_def\<close>)
      qed
    qed
  qed
qed

subsection \<open>Block headers\<close>

lemma stream_inj: "stream xs = stream ys \<Longrightarrow> xs = ys"
proof (induction xs arbitrary: ys)
  case (Cons x xs)
  have "length (stream (x # xs)) = length (stream ys)" using Cons.prems by (rule arg_cong)
  then obtain y ys' where ys: "ys = y # ys'" unfolding length_stream by (cases ys) auto
  then have e: "nat_bits 8 (unat x) = nat_bits 8 (unat y)" "stream xs = stream ys'" using Cons.prems by simp_all
  from arg_cong [OF e(1), of bits_value] have "unat x = unat y"
    using unat_byte_less [of x] unat_byte_less [of y] by (simp add: take_bit_nat_eq_self)
  then show ?case using Cons.IH [OF e(2)] ys by (simp add: word_unat_eq_iff)
qed (metis length_0_conv length_stream list.size(3) mult_is_0 zero_neq_numeral)

lemma stream_le_bytes: "v < 256 ^ n \<Longrightarrow> stream (le_bytes n v) = nat_bits (8 * n) v"
proof (rule nth_equalityI)
  fix j assume v: "v < 256 ^ n" and j: "j < length (stream (le_bytes n v))"
  have "le_nat (le_bytes n v) = v" using v by (simp add: le_nat_bytes)
  then show "stream (le_bytes n v) ! j = nat_bits (8 * n) v ! j" using bit_le_nat [of "le_bytes n v" j] j by simp
qed simp

text \<open>The reader stands before whole bytes, with nothing buffered.\<close>

definition at_bytes :: "bytes \<Rightarrow> bits \<Rightarrow> bytes \<Rightarrow> bool" where
  "at_bytes data br bs \<longleftrightarrow> br_data br = data \<and> br_pos br \<le> length data \<and> br_buf br = 0 \<and> br_cnt br = 0 \<and> drop (br_pos br) data = bs"

lemma at_bytes_reads: "at_bytes data br bs \<Longrightarrow> reads data br (stream bs)"
  by (auto simp: at_bytes_def reads_def drop_stream)

lemma at_bytes_align:
  assumes "reads data br bs" and "drop (length bs mod 8) bs = stream xs"
  shows "at_bytes data (align_and_unread br) xs"
proof -
  have r: "reads data (align_and_unread br) (stream xs)" "br_cnt (align_and_unread br) = 0" using reads_align [OF assms(1)] assms(2) by simp_all
  have "stream xs = stream (drop (br_pos (align_and_unread br)) data)" by (rule reads_bytes [OF r])
  then have "xs = drop (br_pos (align_and_unread br)) data" by (rule stream_inj)
  then show ?thesis using r by (simp add: at_bytes_def reads_def) (simp add: align_and_unread_def Let_def)
qed

lemma at_bytes_still: "at_bytes data br bs \<Longrightarrow> align_and_unread br = br"
  by (simp add: at_bytes_def align_and_unread_def Let_def)

lemma start_stored:
  assumes "at_bytes data (i_br s) (stored_blocks (c # cs) @ tail)" and "length c \<le> 65535"
  shows "\<exists>br. start_block s = (Inr (), s\<lparr>i_last := (cs = []), i_br := br, i_state := SStored (length c)\<rparr>) \<and> at_bytes data br (c @ stored_blocks cs @ tail)"
proof -
  define h :: nat where "h = (if cs = [] then 1 else 0)"
  let ?L = "length c" and ?rest = "stream (c @ stored_blocks cs @ tail)"
  have split: "nat_bits 8 h = nat_bits 3 h @ nat_bits 5 (drop_bit 3 h)" using nat_bits_split [of 3 5 h] by simp
  have u: "unat (if cs = [] then 1 else 0 :: u8) = h" by (simp add: h_def)
  have h: "drop_bit 1 h = 0" "(h AND 1 \<noteq> 0) = (cs = [])" "h < 2 ^ 3" by (auto simp: h_def)
  have "reads data (i_br s) (nat_bits 3 h @ nat_bits 5 (drop_bit 3 h) @ nat_bits 16 ?L @ nat_bits 16 (65535 - ?L) @ ?rest)"
    using at_bytes_reads [OF assms(1)] assms(2) split u by (simp add: stream_le_bytes)
  then obtain br1 where r1: "with_br (read_bits 3) s = (Inr h, s\<lparr>i_br := br1\<rparr>)" "reads data br1 (nat_bits 5 (drop_bit 3 h) @ nat_bits 16 ?L @ nat_bits 16 (65535 - ?L) @ ?rest)"
    by (rule with_read) (use h(3) in auto)
  have "5 + 8 * (4 + length (c @ stored_blocks cs @ tail)) = 8 * (length data - br_pos br1) + br_cnt br1" using reads_length [OF r1(2)] by simp
  from arg_cong [OF this, of "\<lambda>n. n mod 8"] have m: "br_cnt br1 mod 8 = 5" by (simp only: mod_mult_self2 mod_mult_self3) simp
  define br2 where "br2 = br1\<lparr>br_buf := drop_bit 5 (br_buf br1), br_cnt := br_cnt br1 - 5\<rparr>"
  have "5 \<le> br_cnt br1" using m mod_less_eq_dividend [of "br_cnt br1" 8] by simp
  from reads_skip [OF r1(2) this] have r2: "reads data br2 (nat_bits 16 ?L @ nat_bits 16 (65535 - ?L) @ ?rest)" by (simp add: br2_def)
  obtain br3 where r3: "with_br (read_bits 16) (s\<lparr>i_last := (cs = []), i_br := br2\<rparr>) = (Inr ?L, s\<lparr>i_last := (cs = []), i_br := br3\<rparr>)" "reads data br3 (nat_bits 16 (65535 - ?L) @ ?rest)"
    using with_read [of data "s\<lparr>i_last := (cs = []), i_br := br2\<rparr>" 16 ?L] r2 assms(2) by auto
  have nl: "65535 - ?L < 2 ^ 16" by (rule le_less_trans [of _ 65535]) simp_all
  obtain br4 where r4: "with_br (read_bits 16) (s\<lparr>i_last := (cs = []), i_br := br3\<rparr>) = (Inr (65535 - ?L), s\<lparr>i_last := (cs = []), i_br := br4\<rparr>)" "reads data br4 ?rest"
    using with_read [of data "s\<lparr>i_last := (cs = []), i_br := br3\<rparr>" 16 "65535 - ?L"] r3(2) nl by auto
  have "at_bytes data (align_and_unread br4) (c @ stored_blocks cs @ tail)" using r4(2) by (rule at_bytes_align) simp
  moreover have "(u32_max - (65535 - ?L)) AND 65535 = ?L"
  proof -
    have "u32_max - (65535 - ?L) = ?L + 65535 * 65536" using assms(2) by simp
    moreover have "x AND 65535 = x mod 65536" for x :: nat
      using take_bit_eq_mask [of 16 x] by (simp add: take_bit_eq_mod mask_eq_exp_minus_1)
    ultimately have "(u32_max - (65535 - ?L)) AND 65535 = ?L mod 65536" by (simp only: mod_mult_self1)
    then show ?thesis using assms(2) by simp
  qed
  ultimately show ?thesis using h(1,2) r1(1) r3(1) r4(1) m
    by (intro exI [of _ "align_and_unread br4"]) (simp add: start_block_def br2_def)
qed

lemma decodes_built:
  assumes "good_lens lens" and "first_code lens MAX_CODE_LEN + num lens MAX_CODE_LEN = 2 ^ MAX_CODE_LEN" and "length (hf_symbols h) = MAX_SYMBOLS"
  obtains h' where "build lens complete h = (Inr (), h')" and "decodes lens h'"
proof -
  obtain h' where b: "build lens complete h = (Inr (), h')" using build_complete [OF assms(1,2)] by blast
  show thesis by (rule that [OF b]) (use build_ok [OF b assms(3)] in \<open>simp add: decodes_def\<close>)
qed

lemma start_fixed:
  assumes "at_bytes data (i_br s) bs" and "stream bs = nat_bits 3 3 @ body" and "i_table s = TNone"
    and "length (hf_symbols (i_lit s)) = MAX_SYMBOLS" and "length (hf_symbols (i_dist s)) = MAX_SYMBOLS"
  shows "\<exists>br lit dist. start_block s = (Inr (), s\<lparr>i_last := True, i_br := br, i_lit := lit, i_dist := dist, i_table := TFixed, i_state := SCodes\<rparr>) \<and>
    decodes fixed_lens lit \<and> decodes fixed_dist_lens dist \<and> reads data br body"
proof -
  have f: "first_code fixed_lens MAX_CODE_LEN + num fixed_lens MAX_CODE_LEN = 2 ^ MAX_CODE_LEN"
    "first_code fixed_dist_lens MAX_CODE_LEN + num fixed_dist_lens MAX_CODE_LEN = 2 ^ MAX_CODE_LEN"
    by (simp_all add: MAX_CODE_LEN_def first_fixed num_fixed first_fixed_dist num_fixed_dist)
  obtain lit where lit: "build fixed_lens True (i_lit s) = (Inr (), lit)" "decodes fixed_lens lit"
    using decodes_built [OF good_fixed f(1) assms(4)] by blast
  obtain dist where dist: "build fixed_dist_lens False (i_dist s) = (Inr (), dist)" "decodes fixed_dist_lens dist"
    using decodes_built [OF good_fixed_dist f(2) assms(5)] by blast
  obtain br where r: "with_br (read_bits 3) s = (Inr 3, s\<lparr>i_br := br\<rparr>)" "reads data br body"
    using with_read [of data s 3 3 body] at_bytes_reads [OF assms(1)] assms(2) by auto
  have "drop_bit 1 (3::nat) = 1" by (simp add: drop_bit_eq_div)
  moreover have "build_lit fixed_lens True (s\<lparr>i_br := br, i_last := True\<rparr>) = (Inr (), s\<lparr>i_br := br, i_last := True, i_lit := lit\<rparr>)"
    by (simp add: build_lit_def lit(1))
  moreover have "build_dist fixed_dist_lens False (s\<lparr>i_br := br, i_last := True, i_lit := lit\<rparr>) = (Inr (), s\<lparr>i_br := br, i_last := True, i_lit := lit, i_dist := dist\<rparr>)"
    by (simp add: build_dist_def dist(1))
  ultimately show ?thesis using r lit(2) dist(2) assms(3)
    by (intro exI [of _ br] exI [of _ lit] exI [of _ dist]) (simp add: start_block_def)
qed

subsection \<open>Reading\<close>

text \<open>
  The bytes of the output slice that are not hashed yet are the last ones produced; the checksum is
  that of the others.
\<close>

definition hashing :: "inflater \<Rightarrow> bytes \<Rightarrow> nat \<Rightarrow> nat \<Rightarrow> bytes \<Rightarrow> bool" where
  "hashing s out hashed n H \<longleftrightarrow> hashed \<le> n \<and> n \<le> length out \<and>
     (i_zlib s \<longrightarrow> (\<exists>H1. H = H1 @ get_slice hashed (n - hashed) out \<and> i_adler s = adler_update H1 adler_new))"

lemma hashing_same: "hashing s out hashed n H \<Longrightarrow> i_zlib t = i_zlib s \<Longrightarrow> i_adler t = i_adler s \<Longrightarrow> hashing t out hashed n H"
  by (simp add: hashing_def)

lemma hashing_put:
  assumes "hashing s out hashed n H" and "n + length xs \<le> length out"
  shows "hashing s (put_slice n xs out) hashed (n + length xs) (H @ xs)"
proof -
  have "get_slice hashed (n + length xs - hashed) (put_slice n xs out) = get_slice hashed (n - hashed) out @ xs"
    using assms by (intro nth_equalityI) (auto simp: hashing_def nth_put_slice nth_append add.commute)
  then show ?thesis using assms by (auto simp: hashing_def)
qed

lemma hashing_all:
  assumes "hashing s out hashed n H" and "i_zlib s"
  shows "adler_update (get_slice hashed (n - hashed) out) (i_adler s) = adler_update H adler_new"
  using assms adler_update_append by (auto simp: hashing_def)

text \<open>The stream ends: padding to a byte, and the checksum of the whole output in a zlib stream.\<close>

definition closes :: "bool \<Rightarrow> bytes \<Rightarrow> bytes \<Rightarrow> bool" where
  "closes z all trailer \<longleftrightarrow> (z \<longrightarrow> take 4 trailer = be_bytes32 (adler32 all))"

lemma end_last:
  assumes "i_last s" and "at_bytes data (align_and_unread (i_br s)) trailer" and "closes (i_zlib s) H trailer" and "hashing s out hashed n H"
  shows "\<exists>t h. end_block out n hashed s = (Inr (), t, h) \<and> i_state t = SDone \<and> i_zlib t = i_zlib s \<and> i_limit t = i_limit s \<and> hashing t out h n H"
proof (cases "i_zlib s")
  case True
  let ?br = "align_and_unread (i_br s)"
  have b: "br_data ?br = data" "drop (br_pos ?br) data = trailer" using assms(2) by (simp_all add: at_bytes_def)
  have t: "take 4 trailer = be_bytes32 (adler32 H)" using assms(3) True by (simp add: closes_def)
  then have "length (take 4 trailer) = 4" by (simp add: be_bytes32_def)
  then have "br_pos ?br + 4 \<le> length data" using b(2) by (auto simp: min_def split: if_splits)
  moreover have "get_slice (br_pos ?br) 4 data = be_bytes32 (adler_finish (adler_update H adler_new))" using b t by (simp add: get_slice_def adler32_def)
  ultimately show ?thesis using assms(1) True hashing_all [OF assms(4) True] b(1) assms(4)
    by (simp add: end_block_def Let_def hashing_def get_slice_def)
next
  case False
  then show ?thesis using assms(1,4) by (simp add: end_block_def hashing_def)
qed

text \<open>
  The decoder is on course: \<open>H\<close> has been produced and, from the bits it has left, exactly \<open>R\<close> will be.
\<close>

definition stored_ahead :: "bytes \<Rightarrow> inflater \<Rightarrow> bytes \<Rightarrow> bytes \<Rightarrow> bytes \<Rightarrow> bytes list \<Rightarrow> bool" where
  "stored_ahead data s H R now cs \<longleftrightarrow> made H s \<and> R = now @ concat cs \<and> (\<forall>c \<in> set cs. length c \<le> 65535)"

definition course :: "bytes \<Rightarrow> inflater \<Rightarrow> bytes \<Rightarrow> bytes \<Rightarrow> bool" where
  "course data s H R \<longleftrightarrow> length H + length R \<le> i_limit s \<and>
     (case i_state s of
        SHeader \<Rightarrow>
          (\<exists>c cs trailer. stored_ahead data s H R [] (c # cs) \<and> at_bytes data (i_br s) (stored_blocks (c # cs) @ trailer) \<and> closes (i_zlib s) (H @ R) trailer) \<or>
          (\<exists>bs ts tail trailer. at_bytes data (i_br s) bs \<and> made H s \<and> i_pend_len s = 0 \<and> i_table s = TNone \<and>
             length (hf_symbols (i_lit s)) = MAX_SYMBOLS \<and> length (hf_symbols (i_dist s)) = MAX_SYMBOLS \<and>
             stream bs = nat_bits 3 3 @ concat (map token_bits ts) @ code_bits fixed_lens 256 @ tail \<and> tokens_ok H ts \<and> R = expand H ts \<and>
             drop (length tail mod 8) tail = stream trailer \<and> closes (i_zlib s) (H @ R) trailer)
      | SStored r \<Rightarrow>
          (\<exists>now cs trailer. length now = r \<and> (i_last s \<longleftrightarrow> cs = []) \<and> stored_ahead data s H R now cs \<and>
             at_bytes data (i_br s) (now @ stored_blocks cs @ trailer) \<and> closes (i_zlib s) (H @ R) trailer)
      | SCodes \<Rightarrow>
          i_last s \<and> (\<exists>tail trailer. coding data tail s H R \<and> drop (length tail mod 8) tail = stream trailer \<and> closes (i_zlib s) (H @ R) trailer)
      | SDone \<Rightarrow> R = []
      | SFailed e \<Rightarrow> False)"

definition delivered :: "bytes \<Rightarrow> inflater \<Rightarrow> bytes \<Rightarrow> bytes \<Rightarrow> bytes \<Rightarrow> nat \<Rightarrow> nat \<Rightarrow> bool" where
  "delivered data s H R out hashed n \<longleftrightarrow>
     (let m = min (length R) (length out - n) in
      \<exists>t h. read_inner s out hashed n = (Inr (), t, put_slice n (take m R) out, h, n + m) \<and>
        i_zlib t = i_zlib s \<and> i_limit t = i_limit s \<and> course data t (H @ take m R) (drop m R) \<and>
        hashing t (put_slice n (take m R) out) h (n + m) (H @ take m R) \<and> (n + m < length out \<longrightarrow> i_state t = SDone))"

lemma delivered_step:
  assumes "read_inner s out hashed n = read_inner t (put_slice n xs out) h (n + length xs)" and "n + length xs \<le> length out"
    and "i_zlib t = i_zlib s" and "i_limit t = i_limit s" and "delivered data t (H @ xs) R (put_slice n xs out) h (n + length xs)"
  shows "delivered data s H (xs @ R) out hashed n"
proof -
  let ?m = "min (length R) (length out - (n + length xs))"
  have m: "min (length (xs @ R)) (length out - n) = length xs + ?m" using assms(2) by simp
  have p: "put_slice (n + length xs) (take ?m R) (put_slice n xs out) = put_slice n (xs @ take ?m R) out"
    using assms(2) by (intro put_slice_append) simp
  show ?thesis using assms p unfolding delivered_def Let_def m by (auto simp: add.assoc)
qed

lemma delivered_same:
  assumes "read_inner s out hashed n = read_inner t out h n" and "n \<le> length out" and "i_zlib t = i_zlib s" and "i_limit t = i_limit s"
    and "delivered data t H R out h n"
  shows "delivered data s H R out hashed n"
  using delivered_step [of s out hashed n t "[]" h data H R] assms by (simp add: put_slice_def)

lemma delivered_done: "course data s H [] \<Longrightarrow> i_state s = SDone \<Longrightarrow> hashing s out hashed n H \<Longrightarrow> delivered data s H [] out hashed n"
  by (cases "n < length out") (auto simp: delivered_def read_inner_end read_inner_full hashing_def put_slice_def)

text \<open>One round in each state.\<close>

lemma round_header:
  assumes "course data s H R" and "i_state s = SHeader" and "n < length out"
  shows "\<exists>t. read_inner s out hashed n = read_inner t out hashed n \<and> course data t H R \<and> smaller (t, out, n) (s, out, n) \<and>
    i_zlib t = i_zlib s \<and> i_limit t = i_limit s \<and> i_adler t = i_adler s"
proof -
  have go: ?thesis if "start_block s = (Inr (), t)" "course data t H R" "i_adler t = i_adler s" for t
    using that start_block_left [OF that(1)] read_inner_header [OF assms(3,2)] by (intro exI [of _ t]) (auto simp: smaller_def)
  have l: "length H + length R \<le> i_limit s" using assms(1) by (simp add: course_def)
  consider (stored) c cs trailer where "stored_ahead data s H R [] (c # cs)" "at_bytes data (i_br s) (stored_blocks (c # cs) @ trailer)" "closes (i_zlib s) (H @ R) trailer"
    | (fixed) bs ts tail trailer where "at_bytes data (i_br s) bs" "made H s" "i_pend_len s = 0" "i_table s = TNone"
        "length (hf_symbols (i_lit s)) = MAX_SYMBOLS" "length (hf_symbols (i_dist s)) = MAX_SYMBOLS"
        "stream bs = nat_bits 3 3 @ concat (map token_bits ts) @ code_bits fixed_lens 256 @ tail" "tokens_ok H ts" "R = expand H ts"
        "drop (length tail mod 8) tail = stream trailer" "closes (i_zlib s) (H @ R) trailer"
    using assms(1) unfolding course_def assms(2) istate.case by blast
  then show ?thesis
  proof cases
    case stored
    then obtain br where b: "start_block s = (Inr (), s\<lparr>i_last := (cs = []), i_br := br, i_state := SStored (length c)\<rparr>)" "at_bytes data br (c @ stored_blocks cs @ trailer)"
      using start_stored [OF stored(2)] by (auto simp: stored_ahead_def)
    then have "length c = length c \<and> (cs = [] \<longleftrightarrow> cs = []) \<and> stored_ahead data (s\<lparr>i_last := (cs = []), i_br := br, i_state := SStored (length c)\<rparr>) H R c cs \<and>
        at_bytes data br (c @ stored_blocks cs @ trailer) \<and> closes (i_zlib s) (H @ R) trailer"
      using stored by (simp add: stored_ahead_def made_def)
    then show ?thesis using l by (intro go [OF b(1)]) (auto simp: course_def)
  next
    case fixed
    from start_fixed [OF fixed(1,7,4-6)] obtain br lit dist where b:
        "start_block s = (Inr (), s\<lparr>i_last := True, i_br := br, i_lit := lit, i_dist := dist, i_table := TFixed, i_state := SCodes\<rparr>)"
        "decodes fixed_lens lit" "decodes fixed_dist_lens dist" "reads data br (concat (map token_bits ts) @ code_bits fixed_lens 256 @ tail)" by blast
    then show ?thesis using fixed l
      by (intro go [OF b(1)]) (auto simp: course_def coding_def made_def intro!: exI [of _ tail] exI [of _ trailer] exI [of _ ts])
  qed
qed

lemma copy_stored_ok:
  assumes "made H s" and "at_bytes data (i_br s) (src @ rest)"
  shows "made (H @ src) (copy_stored src r s)" and "at_bytes data (i_br (copy_stored src r s)) rest"
    and "i_state (copy_stored src r s) = SStored (r - length src)" and "i_last (copy_stored src r s) = i_last s"
    and "i_zlib (copy_stored src r s) = i_zlib s" and "i_limit (copy_stored src r s) = i_limit s" and "i_adler (copy_stored src r s) = i_adler s"
proof -
  obtain w window where w: "store_window src (i_wpos s) (i_window s) = (w, window)" by fastforce
  have "w = length (H @ src) mod WINDOW" "window_of (H @ src) window"
    using store_window_ok [of H "i_window s" src w window] assms(1) w by (auto simp: made_def)
  moreover have eq: "copy_stored src r s = s\<lparr>i_window := window, i_wpos := w, i_br := (i_br s)\<lparr>br_pos := br_pos (i_br s) + length src\<rparr>,
      i_produced := i_produced s + length src, i_state := SStored (r - length src)\<rparr>" by (simp add: copy_stored_def w)
  ultimately show "made (H @ src) (copy_stored src r s)" using assms(1) by (simp add: made_def)
  have d: "drop (br_pos (i_br s)) data = src @ rest" using assms(2) by (simp add: at_bytes_def)
  then have "drop (br_pos (i_br s) + length src) data = rest" by (metis add.commute append_eq_conv_conj drop_drop)
  moreover have "br_pos (i_br s) + length src \<le> length data" using arg_cong [OF d, of length] assms(2) unfolding at_bytes_def length_append length_drop by linarith
  ultimately show "at_bytes data (i_br (copy_stored src r s)) rest" using assms(2) by (simp add: at_bytes_def eq)
qed (simp_all add: copy_stored_def split: prod.splits)

lemma round_stored:
  assumes "course data s H R" and "i_state s = SStored r" and "n < length out" and "0 < r"
  shows "\<exists>t k. read_inner s out hashed n = read_inner t (put_slice n (take k R) out) hashed (n + k) \<and> course data t (H @ take k R) (drop k R) \<and>
    smaller (t, put_slice n (take k R) out, n + k) (s, out, n) \<and> i_zlib t = i_zlib s \<and> i_limit t = i_limit s \<and> i_adler t = i_adler s \<and>
    n + k \<le> length out \<and> k \<le> length R"
proof -
  obtain now cs trailer where c: "length now = r" "i_last s \<longleftrightarrow> cs = []" "stored_ahead data s H R now cs"
      "at_bytes data (i_br s) (now @ stored_blocks cs @ trailer)" "closes (i_zlib s) (H @ R) trailer" and l: "length H + length R \<le> i_limit s"
    using assms(1,2) by (auto simp: course_def)
  have m: "made H s" "R = now @ concat cs" using c(3) by (auto simp: stored_ahead_def)
  define k where "k = min r (length out - n)"
  have k: "0 < k" "k \<le> r" "n + k \<le> length out" "k \<le> length R" using assms(3,4) m(2) c(1) by (auto simp: k_def)
  have lim: "min (min r (length out - n)) (i_limit s - i_produced s) = k" using l m c(1) by (simp add: k_def made_def)
  have src: "take k (drop (br_pos (i_br s)) (br_data (i_br s))) = take k now" "take k R = take k now" "drop k R = drop k now @ concat cs" "length (take k now) = k"
    using c(1,4) k m(2) by (simp_all add: at_bytes_def)
  let ?t = "copy_stored (take k now) r s"
  have "now @ stored_blocks cs @ trailer = take k now @ drop k now @ stored_blocks cs @ trailer" by simp
  note t = copy_stored_ok [OF m(1) c(4) [unfolded this], of r]
  have all: "(H @ take k R) @ drop k R = H @ R" by simp
  have "length (drop k now) = r - k \<and> (i_last ?t \<longleftrightarrow> cs = []) \<and> stored_ahead data ?t (H @ take k R) (drop k R) (drop k now) cs \<and>
      at_bytes data (i_br ?t) (drop k now @ stored_blocks cs @ trailer) \<and> closes (i_zlib ?t) ((H @ take k R) @ drop k R) trailer"
    unfolding all using c t src by (simp add: stored_ahead_def)
  then have "course data ?t (H @ take k R) (drop k R)" unfolding course_def t(3,6) istate.case src(4) using l k by fastforce
  moreover have "read_inner s out hashed n = read_inner ?t (put_slice n (take k R) out) hashed (n + k)"
    using read_inner_stored [OF assms(3,2)] assms(4) lim src k(1) by (auto simp: Let_def)
  moreover have "left_of ?t < left_of s" using src(1,4) k(1) by (intro copy_stored_left [of _ k]) auto
  ultimately show ?thesis using t k by (intro exI [of _ ?t] exI [of _ k]) (auto simp: smaller_def)
qed

lemma block_delivered:
  assumes "i_last s" and "at_bytes data (align_and_unread (i_br s)) trailer" and "closes (i_zlib s) H trailer" and "hashing s out hashed n H"
    and "length H \<le> i_limit s" and "read_inner s out hashed n = block_done s out hashed n"
  shows "delivered data s H [] out hashed n"
proof -
  obtain t h where t: "end_block out n hashed s = (Inr (), t, h)" "i_state t = SDone" "i_zlib t = i_zlib s" "i_limit t = i_limit s" "hashing t out h n H"
    using end_last [OF assms(1-4)] by blast
  show ?thesis
  proof (rule delivered_same [of s out hashed n t h])
    show "read_inner s out hashed n = read_inner t out h n" using assms(6) t(1) by (simp add: block_done_def)
    show "delivered data t H [] out h n" using delivered_done t assms(5) by (simp add: course_def)
  qed (use t assms(4) in \<open>simp_all add: hashing_def\<close>)
qed

lemma codes_delivered:
  assumes "course data s H R" and "i_state s = SCodes" and "n < length out" and "hashing s out hashed n H"
  shows "delivered data s H R out hashed n"
proof -
  obtain tail trailer where c: "i_last s" "coding data tail s H R" "drop (length tail mod 8) tail = stream trailer" "closes (i_zlib s) (H @ R) trailer"
    and l: "length H + length R \<le> i_limit s" using assms(1,2) by (auto simp: course_def)
  let ?m = "min (length R) (length out - n)"
  let ?out = "put_slice n (take ?m R) out"
  obtain t where t: "decode_codes s out n = (Inr (n + length R < length out), t, ?out, n + ?m)" "kept s t"
      "if n + length R < length out then made (H @ R) t \<and> reads data (i_br t) tail else coding data tail t (H @ take ?m R) (drop ?m R)"
    using coding_decoded [OF c(2) l, of n out] assms(3) unfolding decoded_def Let_def by auto
  have h: "hashing t ?out hashed (n + ?m) (H @ take ?m R)"
    using hashing_put [OF hashing_same [OF assms(4)], of t "take ?m R"] t(2) assms(3) by (simp add: kept_def)
  show ?thesis
  proof (cases "n + length R < length out")
    case True
    then have m: "?m = length R" by simp
    have "at_bytes data (align_and_unread (i_br t)) trailer" using t(3) True c(3) by (intro at_bytes_align) auto
    then obtain u g where u: "end_block ?out (n + ?m) hashed t = (Inr (), u, g)" "i_state u = SDone" "i_zlib u = i_zlib t" "i_limit u = i_limit t"
        "hashing u ?out g (n + ?m) (H @ take ?m R)"
      using end_last [of t data trailer "H @ take ?m R" ?out hashed "n + ?m"] c(1,4) t(2) h m by (auto simp: kept_def)
    have "read_inner s out hashed n = read_inner u ?out g (n + ?m)"
      using read_inner_codes [OF assms(3,2)] t(1) True u(1) by (simp add: block_done_def)
    then have "read_inner s out hashed n = (Inr (), u, ?out, g, n + ?m)" using read_inner_end(1) [of "n + ?m" ?out u] u(2) True m by simp
    then show ?thesis using u l t(2) m unfolding delivered_def Let_def by (auto simp: kept_def course_def)
  next
    case False
    then have "read_inner s out hashed n = (Inr (), t, ?out, hashed, n + ?m)"
      using read_inner_codes [OF assms(3,2)] t(1) assms(3) by (simp add: read_inner_full)
    moreover have "course data t (H @ take ?m R) (drop ?m R)" using t(2,3) False c assms(2) l by (auto simp: course_def kept_def)
    ultimately show ?thesis using h t(2) False unfolding delivered_def Let_def by (auto simp: kept_def)
  qed
qed

lemma read_inner_delivers: "course data s H R \<Longrightarrow> hashing s out hashed n H \<Longrightarrow> delivered data s H R out hashed n"
proof (induction s out hashed n arbitrary: H R rule: rounds_induct)
  case (1 s out hashed n)
  note c = 1(2) and h = 1(3)
  have n: "n \<le> length out" using h by (simp add: hashing_def)
  show ?case
  proof (cases "n < length out")
    case False
    then show ?thesis using n c h by (auto simp: delivered_def read_inner_full put_slice_def)
  next
    case True
    show ?thesis
    proof (cases "i_state s")
      case SHeader
      obtain t where t: "read_inner s out hashed n = read_inner t out hashed n" "course data t H R" "smaller (t, out, n) (s, out, n)"
          "i_zlib t = i_zlib s" "i_limit t = i_limit s" "i_adler t = i_adler s"
        using round_header [OF c SHeader True] by blast
      show ?thesis by (rule delivered_same [OF t(1) n t(4,5)]) (rule 1(1) [OF t(3,2) hashing_same [OF h t(4,6)]])
    next
      case (SStored r)
      show ?thesis
      proof (cases "r = 0")
        case zero: True
        obtain cs trailer where e: "i_last s \<longleftrightarrow> cs = []" "stored_ahead data s H R [] cs"
            "at_bytes data (i_br s) (stored_blocks cs @ trailer)" "closes (i_zlib s) (H @ R) trailer" and l: "length H + length R \<le> i_limit s"
          using c zero SStored by (auto simp: course_def)
        have eq: "read_inner s out hashed n = block_done s out hashed n" using read_inner_stored [OF True SStored] zero by simp
        show ?thesis
        proof (cases cs)
          case Nil
          then have "R = []" using e(2) by (simp add: stored_ahead_def)
          then show ?thesis using block_delivered [of s data trailer H out hashed n] e Nil at_bytes_still [OF e(3)] h l eq by simp
        next
          case (Cons d ds)
          let ?t = "s\<lparr>i_state := SHeader\<rparr>"
          have "end_block out n hashed s = (Inr (), ?t, hashed)" using e(1) Cons by (simp add: end_block_def)
          then have r: "read_inner s out hashed n = read_inner ?t out hashed n" using eq by (simp add: block_done_def)
          have "stored_ahead data ?t H R [] (d # ds)" using e(2) Cons by (simp add: stored_ahead_def made_def)
          then have "course data ?t H R" unfolding course_def using e(3,4) Cons l by (auto simp del: stored_blocks.simps)
          moreover have "smaller (?t, out, n) (s, out, n)" using SStored by (simp add: smaller_def left_of_def state_rank_def)
          ultimately show ?thesis using 1(1) [of ?t out n H R hashed] hashing_same [OF h, of ?t] by (intro delivered_same [OF r n]) simp_all
        qed
      next
        case False
        then have "0 < r" by simp
        from round_stored [OF c SStored True this] obtain t k where
          t: "read_inner s out hashed n = read_inner t (put_slice n (take k R) out) hashed (n + k)" "course data t (H @ take k R) (drop k R)"
            "smaller (t, put_slice n (take k R) out, n + k) (s, out, n)" "i_zlib t = i_zlib s" "i_limit t = i_limit s" "i_adler t = i_adler s"
            "n + k \<le> length out" "k \<le> length R" by blast
        have "hashing t (put_slice n (take k R) out) hashed (n + k) (H @ take k R)"
          using hashing_put [OF hashing_same [OF h t(4,6)], of "take k R"] t(7,8) by simp
        from 1(1) [OF t(3,2) this] show ?thesis using delivered_step [of s out hashed n t "take k R" hashed data H "drop k R"] t by simp
      qed
    next
      case SCodes
      show ?thesis by (rule codes_delivered [OF c SCodes True h])
    next
      case SDone
      then have "R = []" using c by (simp add: course_def)
      then show ?thesis using delivered_done c SDone h by simp
    next
      case (SFailed e)
      then show ?thesis using c by (simp add: course_def)
    qed
  qed
qed

text \<open>Between calls everything produced is hashed.\<close>

definition ready :: "bytes \<Rightarrow> inflater \<Rightarrow> bytes \<Rightarrow> bytes \<Rightarrow> bool" where
  "ready data s H R \<longleftrightarrow> course data s H R \<and> (i_zlib s \<longrightarrow> i_adler s = adler_update H adler_new)"

lemma course_adler: "course data (s\<lparr>i_adler := a\<rparr>) H R \<longleftrightarrow> course data s H R"
  by (simp add: course_def stored_ahead_def coding_def made_def cong: istate.case_cong)

lemma read_partial_ready:
  assumes "ready data s H R"
  defines "m \<equiv> \<lambda>out. min (length R) (length out)"
  shows "\<exists>t. read_partial out s = (m out, None, t, put_slice 0 (take (m out) R) out) \<and> ready data t (H @ take (m out) R) (drop (m out) R) \<and> i_limit t = i_limit s"
proof -
  have "hashing s out 0 0 H" using assms(1) by (simp add: ready_def hashing_def get_slice_def)
  from read_inner_delivers [OF _ this, of data R] assms(1) have "delivered data s H R out 0 0" by (simp add: ready_def)
  then obtain t h where t: "read_inner s out 0 0 = (Inr (), t, put_slice 0 (take (m out) R) out, h, m out)" "i_limit t = i_limit s" "course data t (H @ take (m out) R) (drop (m out) R)"
      "hashing t (put_slice 0 (take (m out) R) out) h (m out) (H @ take (m out) R)"
    unfolding delivered_def Let_def m_def by auto
  show ?thesis
  proof (cases "i_zlib t")
    case True
    let ?a = "adler_update (get_slice h (m out - h) (put_slice 0 (take (m out) R) out)) (i_adler t)"
    have "?a = adler_update (H @ take (m out) R) adler_new" by (rule hashing_all [OF t(4) True])
    then show ?thesis using t True by (intro exI [of _ "t\<lparr>i_adler := ?a\<rparr>"]) (auto simp: read_partial_def ready_def course_adler)
  qed (use t in \<open>auto simp: read_partial_def ready_def\<close>)
qed

lemma read_all_ready:
  "ready data s out R \<Longrightarrow> length out = i_produced s \<Longrightarrow> \<forall>k \<le> Suc (i_limit s). mem k \<Longrightarrow> \<exists>t. read_all_partial mem s out = (out @ R, None, t)"
proof (induction mem s out arbitrary: R rule: read_all_partial.induct)
  case (1 mem s out)
  define want where "want = max (min (i_limit s - i_produced s) (max (length out) 4096)) 1"
  define m where "m = min (length R) want"
  obtain t where t: "read_partial (replicate want 0) s = (m, None, t, put_slice 0 (take m R) (replicate want 0))"
      "ready data t (out @ take m R) (drop m R)" "i_limit t = i_limit s"
    using read_partial_ready [OF 1(2), of "replicate want 0"] by (auto simp: m_def)
  have p: "i_produced t = i_produced s + m" using read_partial_advances [OF t(1)] by simp
  have m: "m \<le> length R" "m \<le> want" "0 < want" by (simp_all add: m_def want_def)
  have buf: "take m (put_slice 0 (take m R) (replicate want 0)) = take m R" using m by (simp add: put_slice_def)
  have l: "length out \<le> i_limit s" using 1(2) by (simp add: ready_def course_def)
  then have "length out + want \<le> Suc (i_limit s)" using 1(3) by (simp add: want_def)
  then have mem: "mem (length out + want)" using 1(4) by blast
  have eq: "read_all_partial mem s out = (if m = 0 then (out, None, t) else read_all_partial mem t (out @ take m R))"
    unfolding read_all_partial.simps [of mem s] Let_def want_def [symmetric] using mem t(1) buf by simp
  show ?case
  proof (cases "m = 0")
    case True
    then have "R = []" using m(3) by (auto simp: m_def min_def split: if_splits)
    then show ?thesis using eq True by simp
  next
    case False
    have "\<exists>u. read_all_partial mem t (out @ take m (put_slice 0 (take m R) (replicate want 0))) = ((out @ take m R) @ drop m R, None, u)"
    proof (unfold buf, rule 1(1) [OF refl want_def _ t(1) [symmetric] refl refl, unfolded buf])
      show "\<not> \<not> mem (length out + want)" using mem by simp
      show "length (out @ take m R) = i_produced t" using p m(1) 1(3) by simp
    qed (use False t(2,3) 1(4) in simp_all)
    then show ?thesis using eq False buf by simp
  qed
qed

subsection \<open>Encoding and decoding\<close>

lemma chunks_ok:
  assumes "0 < k"
  shows "concat (chunks k xs) = xs" and "\<forall>c \<in> set (chunks k xs). length c \<le> k" and "chunks k xs = [] \<longleftrightarrow> xs = []"
proof -
  have "0 < k \<Longrightarrow> concat (chunks k xs) = xs \<and> (\<forall>c \<in> set (chunks k xs). length c \<le> k)"
    by (induction k xs rule: chunks.induct) (subst (1 2) chunks.simps, auto)
  then show "concat (chunks k xs) = xs" "\<forall>c \<in> set (chunks k xs). length c \<le> k" using assms by simp_all
  show "chunks k xs = [] \<longleftrightarrow> xs = []" using assms by (subst chunks.simps) simp
qed

lemma deflate_stored_blocks:
  obtains c cs where "deflate_stored data = stored_blocks (c # cs)" and "concat (c # cs) = data" and "\<forall>d \<in> set (c # cs). length d \<le> 65535"
proof (cases "data = []")
  case True
  have "le_bytes 2 0 = [0, 0]" "le_bytes 2 65535 = [0xFF, 0xFF]" using le_bytes_nat [of 2 "[0, 0]"] le_bytes_nat [of 2 "[0xFF, 0xFF]"] by simp_all
  then show thesis using that [of "[]" "[]"] True by (simp add: deflate_stored_def)
next
  case False
  then obtain c cs where "chunks 65535 data = c # cs" using chunks_ok(3) [of 65535 data] by (cases "chunks 65535 data") auto
  then show thesis using that [of c cs] chunks_ok(1,2) [of 65535 data] False by (simp add: deflate_stored_def)
qed

text \<open>A decoder before its first block.\<close>

definition fresh :: "inflater \<Rightarrow> bool" where
  "fresh s \<longleftrightarrow> made [] s \<and> i_state s = SHeader \<and> i_pend_len s = 0 \<and> i_table s = TNone \<and>
     length (hf_symbols (i_lit s)) = MAX_SYMBOLS \<and> length (hf_symbols (i_dist s)) = MAX_SYMBOLS"

lemma fresh_new: "fresh (new_inner src max_output z)" "fresh ((new_inner src max_output z)\<lparr>i_br := br\<rparr>)"
  by (simp_all add: fresh_def new_inner_def made_def window_of_def huffman_new_def)

lemma course_stored:
  assumes "fresh s" and "at_bytes src (i_br s) (deflate_stored data @ trailer)" and "closes (i_zlib s) data trailer" and "length data \<le> i_limit s"
  shows "course src s [] data"
proof -
  obtain c cs where c: "deflate_stored data = stored_blocks (c # cs)" "concat (c # cs) = data" "\<forall>d \<in> set (c # cs). length d \<le> 65535"
    by (rule deflate_stored_blocks)
  have "stored_ahead src s [] data [] (c # cs)" using assms(1) c(2,3) by (simp add: stored_ahead_def fresh_def)
  moreover have "i_state s = SHeader" using assms(1) by (simp add: fresh_def)
  ultimately show ?thesis unfolding course_def using assms(2-4) c(1) by (auto simp del: stored_blocks.simps)
qed

lemma deflate_fixed_cases:
  obtains (stored) "deflate_fixed data = deflate_stored data"
  | (packed) ts pad where "stream (deflate_fixed data) = nat_bits 3 3 @ concat (map token_bits ts) @ code_bits fixed_lens 256 @ pad" and "length pad < 8"
      and "tokens_ok [] ts" and "expand [] ts = data"
proof (cases "deflate_fixed data = deflate_stored data")
  case False
  let ?tabs = "(replicate HASH_SIZE 0, replicate DEFLATE_WINDOW 0)" and ?w = "put 1 2 (put 1 1 writer_new)"
  have "wrote (put 1 1 writer_new) ([] @ nat_bits 1 1)" by (rule wrote_put [OF wrote_new]) simp_all
  then have "wrote ?w (([] @ nat_bits 1 1) @ nat_bits 2 1)" by (rule wrote_put) simp_all
  moreover have "nat_bits 3 3 = nat_bits 1 1 @ nat_bits 2 1" by (simp add: nat_bits_def upt_rec bit_iff_odd)
  ultimately have "wrote ?w (nat_bits 3 3)" by simp
  from lz_loop_tokens [OF _ this, of 0 data ?tabs] obtain ts where
    ts: "wrote (lz_loop data 0 ?tabs ?w) (nat_bits 3 3 @ concat (map token_bits ts))" "tokens_ok [] ts" "expand [] ts = data" by auto
  from wrote_lit [OF ts(1), of 256] obtain pad where
    "stream (writer_finish (put_lit 256 (lz_loop data 0 ?tabs ?w))) = ((nat_bits 3 3 @ concat (map token_bits ts)) @ code_bits fixed_lens 256) @ pad" "length pad < 8"
    by (auto elim: wrote_finish)
  moreover have "deflate_fixed data = writer_finish (put_lit 256 (lz_loop data 0 ?tabs ?w))"
    using False by (simp add: deflate_fixed_def Let_def split: if_splits)
  ultimately show thesis using ts(2,3) by (intro packed [of ts pad]) simp_all
qed (rule stored)

lemma course_fixed:
  assumes "fresh s" and "at_bytes src (i_br s) (deflate_fixed data @ trailer)" and "closes (i_zlib s) data trailer" and "length data \<le> i_limit s"
  shows "course src s [] data"
proof (rule deflate_fixed_cases [of data])
  assume "deflate_fixed data = deflate_stored data"
  then show ?thesis using course_stored [OF assms(1)] assms(2-4) by simp
next
  fix ts pad assume d: "stream (deflate_fixed data) = nat_bits 3 3 @ concat (map token_bits ts) @ code_bits fixed_lens 256 @ pad" "length pad < 8"
    "tokens_ok [] ts" "expand [] ts = data"
  let ?tail = "pad @ stream trailer"
  have "stream (deflate_fixed data @ trailer) = nat_bits 3 3 @ concat (map token_bits ts) @ code_bits fixed_lens 256 @ ?tail" using d(1) by simp
  moreover have "drop (length ?tail mod 8) ?tail = stream trailer" using d(2) by simp
  moreover have st: "i_state s = SHeader" using assms(1) by (simp add: fresh_def)
  ultimately show ?thesis unfolding course_def st istate.case using assms d(3,4)
    by (intro conjI disjI2 exI [of _ "deflate_fixed data @ trailer"] exI [of _ ts] exI [of _ ?tail] exI [of _ trailer]) (simp_all add: fresh_def)
qed

lemma read_all_course:
  assumes "fresh s" and "course src s [] data" and "i_adler s = adler_new" and "\<forall>k \<le> Suc (i_limit s). mem k"
  shows "read_all mem s = Inr data"
proof -
  have "adler_update [] adler_new = adler_new" by (subst adler_update.simps) simp
  then have "ready src s [] data" using assms(2,3) by (simp add: ready_def)
  moreover have "length [] = i_produced s" using assms(1) by (simp add: fresh_def made_def)
  ultimately show ?thesis using read_all_ready [of src s "[]" data mem] assms(4) by (auto simp: read_all_def)
qed

lemma raw_decodes:
  assumes "\<And>s. fresh s \<Longrightarrow> at_bytes raw (i_br s) (raw @ []) \<Longrightarrow> closes (i_zlib s) data [] \<Longrightarrow> length data \<le> i_limit s \<Longrightarrow> course raw s [] data"
    and "length data \<le> max_output" and "\<forall>k \<le> Suc max_output. mem k"
  shows "inflate mem raw max_output = Inr data"
  unfolding inflate_def
proof (rule read_all_course [OF fresh_new(1)])
  show "course raw (new_inner raw max_output False) [] data"
    by (rule assms(1) [OF fresh_new(1)]) (use assms(2) in \<open>simp_all add: new_inner_def at_bytes_def bits_of_def closes_def\<close>)
qed (use assms(3) in \<open>simp_all add: new_inner_def\<close>)

lemma zlib_decodes:
  assumes "\<And>s src. fresh s \<Longrightarrow> at_bytes src (i_br s) (raw @ be_bytes32 (adler32 data)) \<Longrightarrow> closes (i_zlib s) data (be_bytes32 (adler32 data)) \<Longrightarrow>
      length data \<le> i_limit s \<Longrightarrow> course src s [] data"
    and "length data \<le> max_output" and "\<forall>k \<le> Suc max_output. mem k"
  shows "zlib_decompress mem (zlib_wrap raw data) max_output = Inr data"
proof -
  let ?src = "zlib_wrap raw data"
  let ?s = "(new_inner ?src max_output True)\<lparr>i_br := (i_br (new_inner ?src max_output True))\<lparr>br_pos := 2\<rparr>\<rparr>"
  have "new_zlib ?src max_output = Inr ?s" by (simp add: new_zlib_def zlib_wrap_def Let_def)
  moreover have "read_all mem ?s = Inr data"
  proof (rule read_all_course [OF fresh_new(2)])
    show "course ?src ?s [] data"
      by (rule assms(1) [OF fresh_new(2)]) (use assms(2) in \<open>simp_all add: new_inner_def at_bytes_def bits_of_def closes_def zlib_wrap_def be_bytes32_def\<close>)
  qed (use assms(3) in \<open>simp_all add: new_inner_def\<close>)
  ultimately show ?thesis by (simp add: zlib_decompress_def)
qed

text \<open>
  C38: What the encoder compresses the decoder restores: for every input, every output limit not below
  its length and an allocator that can serve the limit, decoding the compressed or the stored form, raw
  or wrapped as a zlib stream with its checksum, returns exactly the input.
\<close>

theorem deflate_roundtrip:
  assumes "length data \<le> max_output" and "\<forall>k \<le> Suc max_output. mem k"
  shows "inflate mem (deflate_fixed data) max_output = Inr data \<and> inflate mem (deflate_stored data) max_output = Inr data \<and>
    zlib_decompress mem (zlib_compress data) max_output = Inr data \<and> zlib_decompress mem (zlib_stored data) max_output = Inr data"
  unfolding zlib_compress_def zlib_stored_def
  by (intro conjI; rule raw_decodes [OF course_fixed assms] raw_decodes [OF course_stored assms] zlib_decodes [OF course_fixed assms]
      zlib_decodes [OF course_stored assms]; assumption)

theorem deflate_roundtrip_witness:
  "zlib_decompress (\<lambda>_. True) (zlib_compress [7, 7, 7, 7, 7, 7, 7, 7, 9]) 9 = Inr [7, 7, 7, 7, 7, 7, 7, 7, 9]"
  using deflate_roundtrip [of "[7, 7, 7, 7, 7, 7, 7, 7, 9]" 9 "\<lambda>_. True"] by simp

end
